(* ===== verification/Prelude.thy ===== *)
theory Prelude
  imports Main "HOL-Library.Word" "HOL-Library.Monad_Syntax"
begin

text \<open>
  Shared vocabulary of the WeiOS development.

  Conventions used by every component:
  \<^item> A C function that reads and writes kernel state becomes a HOL function that takes the
    state and returns an \<^verbatim>\<open>option\<close> of its result and the new state.  \<^verbatim>\<open>None\<close> is
    an execution that does not come back: a NULL dereference, an array access out of
    bounds, or a call of \<^verbatim>\<open>panic\<close>.  The \<^verbatim>\<open>do\<close> blocks of the option
    monad keep the statement order of the source.
  \<^item> An \<^verbatim>\<open>enum\<close> error code is returned as a negative \<^typ>\<open>int\<close>, as in the source.
  \<^item> Fields whose wrap-around matters are machine words; counters and indices whose range
    is an invariant are \<^typ>\<open>nat\<close> or \<^typ>\<open>int\<close>, and the places where C converts
    between signed and unsigned are written out.
\<close>

section \<open>Types of include/types.h\<close>

type_synonym u8 = "8 word"
type_synonym u16 = "16 word"
type_synonym u32 = "32 word"
type_synonym u64 = "64 word"

section \<open>Rule collections\<close>

named_theorems kdefs \<open>definitions of operations, unfolded when an operation is executed\<close>
named_theorems kframe \<open>what an operation leaves unchanged\<close>
named_theorems kinv \<open>preservation of the component invariants\<close>

section \<open>Constants of include/error.h\<close>

definition E_UNSPECIFIED :: int where "E_UNSPECIFIED = 1"
definition E_BAD_PROC :: int where "E_BAD_PROC = 2"
definition E_INVAL :: int where "E_INVAL = 3"
definition E_NO_MEM :: int where "E_NO_MEM = 4"
definition E_NO_FREE_PROC :: int where "E_NO_FREE_PROC = 5"
definition E_FAULT :: int where "E_FAULT = 6"

section \<open>Conversions between C integers\<close>

text \<open>The value of an \<^verbatim>\<open>int\<close> expression converted to \<^verbatim>\<open>uint32_t\<close>.\<close>

definition u32_of_int :: "int \<Rightarrow> int" where
  "u32_of_int x = x mod 2 ^ 32"

lemma u32_of_int_id [simp]: "0 \<le> x \<Longrightarrow> x < 2 ^ 32 \<Longrightarrow> u32_of_int x = x"
  by (simp add: u32_of_int_def)

text \<open>The rounding macros of include/types.h, on 32-bit unsigned values.\<close>

definition ROUNDDOWN :: "u32 \<Rightarrow> u32 \<Rightarrow> u32" where
  "ROUNDDOWN a n = a - a mod n"

definition ROUNDUP :: "u32 \<Rightarrow> u32 \<Rightarrow> u32" where
  "ROUNDUP a n = ROUNDDOWN (a + n - 1) n"

section \<open>Generic lemmas\<close>

lemma bind_SomeE:
  assumes "Option.bind m f = Some y"
  obtains x where "m = Some x" and "f x = Some y"
  using assms by (cases m) auto

lemma bind_Some_iff [simp]: "Option.bind m f = Some y \<longleftrightarrow> (\<exists>x. m = Some x \<and> f x = Some y)"
  by (cases m) auto

lemma in_set_butlast_distinct: "distinct xs \<Longrightarrow> x \<in> set (butlast xs) \<Longrightarrow> x \<noteq> last xs"
  by (induction xs) (auto split: if_splits)

lemma remove1_middle [simp]:
  "x \<notin> set ys \<Longrightarrow> remove1 x (ys @ x # zs) = ys @ zs"
  by (induction ys) auto

lemma diff_pow2_less: "2 ^ i \<le> n \<Longrightarrow> n - 2 ^ i < (n :: nat)"
  by (rule diff_less) (auto intro: order.strict_trans2 [of 0 "2 ^ i"])

lemma word_of_nat_pred: "0 < n \<Longrightarrow> (of_nat n - 1 :: 'a :: len word) = of_nat (n - 1)"
  by (cases n) simp_all

end
