(* ===== verification/KList.thy ===== *)
theory KList
  imports Prelude
begin

text \<open>
  The intrusive circular doubly-linked lists of include/kernel.h.

  The memory of all \<^verbatim>\<open>struct list_head\<close> objects of one kind of object is a heap with one
  function per field.  The addresses are the elements of a type \<^verbatim>\<open>'n\<close>: each client uses a
  datatype with one constructor per embedded \<^verbatim>\<open>list_head\<close>, so that \<^verbatim>\<open>list_entry\<close> is
  the inverse of a constructor.  \<^verbatim>\<open>None\<close> is the NULL pointer.

  The abstraction \<open>lists_on H L h\<close> says that in the heap \<open>h\<close> every head \<open>a\<close> in
  \<open>H\<close> is the anchor of a well-formed ring that holds the nodes \<open>L a\<close> in order, and that the
  rings share no node.  The laws proved here (initialisation, insertion at any place,
  deletion, emptiness, first and last element, frame) are collected in the locale
  \<open>list_store\<close>, which the clients use.
\<close>

section \<open>The heap and the operations\<close>

record 'n list_heap =
  lnext :: "'n \<Rightarrow> 'n option"
  lprev :: "'n \<Rightarrow> 'n option"

definition set_next :: "'n \<Rightarrow> 'n option \<Rightarrow> 'n list_heap \<Rightarrow> 'n list_heap" where
  "set_next x v h = h\<lparr>lnext := (lnext h)(x := v)\<rparr>"

definition set_prev :: "'n \<Rightarrow> 'n option \<Rightarrow> 'n list_heap \<Rightarrow> 'n list_heap" where
  "set_prev x v h = h\<lparr>lprev := (lprev h)(x := v)\<rparr>"

definition LIST_HEAD_INIT :: "'n \<Rightarrow> 'n list_heap \<Rightarrow> 'n list_heap" where
  "LIST_HEAD_INIT name h = set_prev name (Some name) (set_next name (Some name) h)"

definition list_empty :: "'n \<Rightarrow> 'n list_heap \<Rightarrow> bool" where
  "list_empty head h \<longleftrightarrow> lnext h head = Some head"

definition list_add :: "'n \<Rightarrow> 'n \<Rightarrow> 'n list_heap \<Rightarrow> 'n list_heap option" where
  "list_add new_node head h = do {
     let h1 = set_next new_node (lnext h head) h;
     hn \<leftarrow> lnext h1 head;
     let h2 = set_prev hn (Some new_node) h1;
     let h3 = set_next head (Some new_node) h2;
     Some (set_prev new_node (Some head) h3)
   }"

definition list_add_tail :: "'n \<Rightarrow> 'n \<Rightarrow> 'n list_heap \<Rightarrow> 'n list_heap option" where
  "list_add_tail new_node head h = do {
     let h1 = set_next new_node (Some head) h;
     let h2 = set_prev new_node (lprev h1 head) h1;
     np \<leftarrow> lprev h2 new_node;
     let h3 = set_next np (Some new_node) h2;
     Some (set_prev head (Some new_node) h3)
   }"

definition list_del :: "'n \<Rightarrow> 'n list_heap \<Rightarrow> 'n list_heap option" where
  "list_del entry h = do {
     ep \<leftarrow> lprev h entry;
     let h1 = set_next ep (lnext h entry) h;
     en \<leftarrow> lnext h1 entry;
     let h2 = set_prev en (lprev h1 entry) h1;
     Some (set_next entry None (set_prev entry None h2))
   }"

section \<open>Rings\<close>

fun linked :: "'n list_heap \<Rightarrow> 'n list \<Rightarrow> bool" where
  "linked h [] = True"
| "linked h [x] = True"
| "linked h (x # y # ys) = (lnext h x = Some y \<and> lprev h y = Some x \<and> linked h (y # ys))"

definition ring :: "'n list_heap \<Rightarrow> 'n \<Rightarrow> 'n list \<Rightarrow> bool" where
  "ring h a xs \<longleftrightarrow> distinct (a # xs) \<and> linked h (a # xs @ [a])"

definition lists_on :: "'n set \<Rightarrow> ('n \<Rightarrow> 'n list) \<Rightarrow> 'n list_heap \<Rightarrow> bool" where
  "lists_on H L h \<longleftrightarrow> (\<forall>a\<in>H. ring h a (L a)) \<and>
     (\<forall>a\<in>H. \<forall>b\<in>H. a \<noteq> b \<longrightarrow> set (a # L a) \<inter> set (b # L b) = {})"

text \<open>All nodes that are on some list.\<close>

definition nodes_of :: "'n set \<Rightarrow> ('n \<Rightarrow> 'n list) \<Rightarrow> 'n set" where
  "nodes_of H L = (\<Union>a\<in>H. set (L a))"

lemma linked_append:
  "linked h (xs @ y # ys) \<longleftrightarrow> linked h (xs @ [y]) \<and> linked h (y # ys)"
proof (induction xs)
  case Nil
  show ?case by simp
next
  case (Cons x xs)
  show ?case using Cons by (cases xs) auto
qed

lemma linked_cong:
  assumes "\<And>x. x \<in> set (butlast xs) \<Longrightarrow> lnext h x = lnext h' x"
    and "\<And>x. x \<in> set (tl xs) \<Longrightarrow> lprev h x = lprev h' x"
  shows "linked h xs = linked h' xs"
  using assms
proof (induction xs rule: linked.induct)
  case (3 uu x y ys)
  show ?case using "3.IH" "3.prems" by (auto split: if_splits)
qed auto

lemma heap_sel [simp]:
  "lnext (set_next x v h) y = (if y = x then v else lnext h y)"
  "lprev (set_prev x v h) y = (if y = x then v else lprev h y)"
  "lnext (set_prev x v h) = lnext h"
  "lprev (set_next x v h) = lprev h"
  by (auto simp: set_next_def set_prev_def)

lemma ring_cong:
  assumes "ring h a xs"
    and "\<And>x. x \<in> set (a # xs) \<Longrightarrow> lnext h' x = lnext h x"
    and "\<And>x. x \<in> set (a # xs) \<Longrightarrow> lprev h' x = lprev h x"
  shows "ring h' a xs"
proof -
  have "linked h' (a # xs @ [a]) = linked h (a # xs @ [a])"
    using assms(2,3) by (intro linked_cong) (auto simp: butlast_append split: if_splits)
  with assms(1) show ?thesis by (simp add: ring_def)
qed

lemma linked_split:
  "linked h (ys @ p # n # zs) \<longleftrightarrow>
     linked h (ys @ [p]) \<and> lnext h p = Some n \<and> lprev h n = Some p \<and> linked h (n # zs)"
  using linked_append [of h ys p "n # zs"] by simp

text \<open>
  A ring seen from a place in it: the nodes \<open>ys\<close> before the place and \<open>zs\<close> after it.
  \<open>last (a # ys)\<close> is the node in front of the place and \<open>hd (zs @ [a])\<close> the one behind.
\<close>

lemma ring_at:
  assumes "ring h a (ys @ zs)"
  shows "lnext h (last (a # ys)) = Some (hd (zs @ [a]))"
    and "lprev h (hd (zs @ [a])) = Some (last (a # ys))"
proof -
  obtain us p where p: "a # ys = us @ [p]"
    by (cases "a # ys" rule: rev_cases) auto
  obtain n vs where n: "zs @ [a] = n # vs"
    by (cases "zs @ [a]") auto
  have "linked h (us @ p # n # vs)"
    using assms p n by (metis append.assoc append_Cons append_Nil ring_def)
  then have "lnext h p = Some n \<and> lprev h n = Some p"
    by (simp add: linked_split)
  then show "lnext h (last (a # ys)) = Some (hd (zs @ [a]))"
    and "lprev h (hd (zs @ [a])) = Some (last (a # ys))"
    using p n by auto
qed

text \<open>Splicing a fresh node into a ring, stated on the heap the two insertions produce.\<close>

lemma ring_splice:
  assumes r: "ring h a (ys @ zs)" and n: "n \<notin> set (a # ys @ zs)"
    and p: "p = last (a # ys)" and q: "q = hd (zs @ [a])"
    and nx: "\<And>x. lnext h' x = (if x = p then Some n else if x = n then Some q else lnext h x)"
    and pv: "\<And>x. lprev h' x = (if x = q then Some n else if x = n then Some p else lprev h x)"
  shows "ring h' a (ys @ n # zs)"
proof -
  have dist: "distinct (a # ys @ zs)" and lnk: "linked h ((a # ys) @ zs @ [a])"
    using r by (auto simp: ring_def)
  obtain us where us: "a # ys = us @ [p]"
    using p by (metis append_butlast_last_id list.distinct(1))
  obtain vs where vs: "zs @ [a] = q # vs"
    using q by (cases "zs @ [a]") auto
  have l: "linked h (us @ [p])" "linked h (q # vs)"
    using lnk us vs by (simp_all add: linked_split)
  have n_notin: "n \<noteq> p" "n \<noteq> q" "n \<notin> set us" "n \<notin> set vs"
    using n us vs by (auto simp: set_eq_iff dest!: arg_cong [where f = set])
  have du: "distinct (us @ [p])"
    using dist us by (metis append_Cons distinct_append)
  have dv: "distinct (q # vs)"
    using dist vs by (metis append_Cons distinct1_rotate distinct_append rotate1.simps(2) distinct.simps(2) append.assoc)
  have ptl: "\<And>x. x \<in> set (tl (us @ [p])) \<Longrightarrow> lprev h x = lprev h' x"
  proof -
    fix x assume x: "x \<in> set (tl (us @ [p]))"
    then have "x \<in> set ys" using us by (metis list.sel(3))
    then have "x \<noteq> q" "x \<noteq> n" using dist vs n by (cases zs; auto)+
    then show "lprev h x = lprev h' x" by (simp add: pv)
  qed
  have pbl: "\<And>x. x \<in> set (butlast (us @ [p])) \<Longrightarrow> lnext h x = lnext h' x"
    using du n_notin by (auto simp: nx)
  have l1: "linked h' (us @ [p])"
    using l(1) linked_cong [OF pbl ptl] by blast
  have qbl: "\<And>x. x \<in> set (butlast (q # vs)) \<Longrightarrow> lnext h x = lnext h' x"
  proof -
    fix x assume "x \<in> set (butlast (q # vs))"
    then have "x \<in> set zs" using vs by (metis butlast_snoc)
    moreover have "p \<in> set (a # ys)" using p by (metis last_in_set list.distinct(1))
    ultimately have "x \<noteq> p" "x \<noteq> n" using dist n by auto
    then show "lnext h x = lnext h' x" by (simp add: nx)
  qed
  have qtl: "\<And>x. x \<in> set (tl (q # vs)) \<Longrightarrow> lprev h x = lprev h' x"
    using dv n_notin by (auto simp: pv)
  have l2: "linked h' (q # vs)"
    using l(2) linked_cong [OF qbl qtl] by blast
  have "linked h' (us @ p # n # q # vs)"
    using l1 l2 n_notin by (simp add: linked_split nx pv)
  then have "linked h' ((a # ys) @ n # zs @ [a])"
    using us vs by simp
  moreover have "distinct (a # ys @ n # zs)"
    using dist n by auto
  ultimately show ?thesis
    by (simp add: ring_def)
qed

lemma list_add_ring:
  assumes r: "ring h a (ys @ zs)" and n: "n \<notin> set (a # ys @ zs)"
  shows "\<exists>h'. list_add n (last (a # ys)) h = Some h' \<and> ring h' a (ys @ n # zs) \<and>
    (\<forall>x. x \<notin> set (n # a # ys @ zs) \<longrightarrow> lnext h' x = lnext h x \<and> lprev h' x = lprev h x)"
proof -
  let ?p = "last (a # ys)" and ?q = "hd (zs @ [a])"
  have mem: "?p \<in> set (a # ys)" "?q \<in> set (a # zs)"
    by (auto simp: hd_append)
  have neq: "n \<noteq> ?p" "n \<noteq> ?q"
    using n mem by auto
  note at = ring_at [OF r]
  define h' where "h' = set_prev n (Some ?p) (set_next ?p (Some n)
    (set_prev ?q (Some n) (set_next n (Some ?q) h)))"
  have "list_add n ?p h = Some h'"
    using at neq by (simp add: list_add_def h'_def Let_def del: last.simps)
  moreover have "ring h' a (ys @ n # zs)"
    using neq by (intro ring_splice [OF r n refl refl]) (auto simp: h'_def)
  moreover have "\<forall>x. x \<notin> set (n # a # ys @ zs) \<longrightarrow> lnext h' x = lnext h x \<and> lprev h' x = lprev h x"
    using mem by (auto simp: h'_def simp del: last.simps)
  ultimately show ?thesis by blast
qed

lemma list_add_tail_ring:
  assumes r: "ring h a (ys @ zs)" and n: "n \<notin> set (a # ys @ zs)"
  shows "\<exists>h'. list_add_tail n (hd (zs @ [a])) h = Some h' \<and> ring h' a (ys @ n # zs) \<and>
    (\<forall>x. x \<notin> set (n # a # ys @ zs) \<longrightarrow> lnext h' x = lnext h x \<and> lprev h' x = lprev h x)"
proof -
  let ?p = "last (a # ys)" and ?q = "hd (zs @ [a])"
  have mem: "?p \<in> set (a # ys)" "?q \<in> set (a # zs)"
    by (auto simp: hd_append)
  have neq: "n \<noteq> ?p" "n \<noteq> ?q"
    using n mem by auto
  note at = ring_at [OF r]
  define h' where "h' = set_prev ?q (Some n) (set_next ?p (Some n)
    (set_prev n (Some ?p) (set_next n (Some ?q) h)))"
  have "list_add_tail n ?q h = Some h'"
    using at neq by (simp add: list_add_tail_def h'_def Let_def del: last.simps)
  moreover have "ring h' a (ys @ n # zs)"
    using neq by (intro ring_splice [OF r n refl refl]) (auto simp: h'_def)
  moreover have "\<forall>x. x \<notin> set (n # a # ys @ zs) \<longrightarrow> lnext h' x = lnext h x \<and> lprev h' x = lprev h x"
    using mem by (auto simp: h'_def simp del: last.simps)
  ultimately show ?thesis by blast
qed

lemma list_del_ring:
  assumes r: "ring h a (ys @ n # zs)"
  shows "\<exists>h'. list_del n h = Some h' \<and> ring h' a (ys @ zs) \<and> lnext h' n = None \<and> lprev h' n = None \<and>
    (\<forall>x. x \<notin> set (a # ys @ n # zs) \<longrightarrow> lnext h' x = lnext h x \<and> lprev h' x = lprev h x)"
proof -
  have dist: "distinct (a # ys @ n # zs)"
    using r by (simp add: ring_def)
  obtain us p where us: "a # ys = us @ [p]"
    by (cases "a # ys" rule: rev_cases) auto
  obtain q vs where vs: "zs @ [a] = q # vs"
    by (cases "zs @ [a]") auto
  have mem: "p \<in> set (a # ys)" "q \<in> set (a # zs)"
    using us vs by (auto simp: set_eq_iff dest!: arg_cong [where f = set])
  have neq: "n \<noteq> p" "n \<noteq> q"
    using dist mem by auto
  have "linked h (us @ p # n # q # vs)"
    using r us vs unfolding ring_def by (metis append.assoc append_Cons append_Nil)
  then have l: "linked h (us @ [p])" "linked h (q # vs)" "lnext h p = Some n" "lprev h n = Some p"
    "lnext h n = Some q" "lprev h q = Some n"
    by (simp_all add: linked_split)
  define h' where "h' = set_next n None (set_prev n None (set_prev q (Some p) (set_next p (Some q) h)))"
  have del: "list_del n h = Some h'"
    using l neq by (simp add: list_del_def h'_def)
  have dz: "distinct (zs @ [a])" and dy: "distinct (a # ys)" and dis: "set ys \<inter> set zs = {}" "n \<notin> set (a # ys @ zs)"
    using dist by auto
  have "linked h (us @ [p]) = linked h' (us @ [p])"
    using us vs dy dist neq
    by (intro linked_cong) (auto simp: h'_def Cons_eq_append_conv append_eq_Cons_conv)
  moreover have "linked h (q # vs) = linked h' (q # vs)"
    using us vs dz dist neq
    by (intro linked_cong) (auto simp: h'_def Cons_eq_append_conv append_eq_Cons_conv dest: in_set_butlastD)
  ultimately have "linked h' (us @ p # q # vs)"
    using l neq by (auto simp: linked_split h'_def)
  then have "linked h' ((a # ys) @ zs @ [a])"
    using us vs by simp
  then have "ring h' a (ys @ zs)"
    using dist by (auto simp: ring_def)
  moreover have "\<forall>x. x \<notin> set (a # ys @ n # zs) \<longrightarrow> lnext h' x = lnext h x \<and> lprev h' x = lprev h x"
    using mem by (auto simp: h'_def)
  ultimately show ?thesis
    using del neq by (auto simp: h'_def)
qed

section \<open>Families of lists\<close>

lemma lists_on_ring: "lists_on H L h \<Longrightarrow> a \<in> H \<Longrightarrow> ring h a (L a)"
  by (simp add: lists_on_def)

lemma lists_on_distinct: "lists_on H L h \<Longrightarrow> a \<in> H \<Longrightarrow> distinct (a # L a)"
  by (auto simp: lists_on_def ring_def)

lemma lists_on_disjoint:
  "lists_on H L h \<Longrightarrow> a \<in> H \<Longrightarrow> b \<in> H \<Longrightarrow> a \<noteq> b \<Longrightarrow> set (a # L a) \<inter> set (b # L b) = {}"
  unfolding lists_on_def by blast

lemma lists_on_head_not_node: "lists_on H L h \<Longrightarrow> a \<in> H \<Longrightarrow> a \<notin> nodes_of H L"
  using lists_on_disjoint lists_on_distinct by (fastforce simp: nodes_of_def)

lemma lists_on_unique:
  "lists_on H L h \<Longrightarrow> a \<in> H \<Longrightarrow> b \<in> H \<Longrightarrow> x \<in> set (L a) \<Longrightarrow> x \<in> set (L b) \<Longrightarrow> a = b"
  using lists_on_disjoint by fastforce

text \<open>Replacing one ring while the others keep their fields.\<close>

lemma lists_on_upd:
  assumes l: "lists_on H L h" and a: "a \<in> H" and r: "ring h' a xs"
    and new: "\<And>x. x \<in> set xs \<Longrightarrow> x \<in> set (L a) \<or> x \<notin> H \<and> x \<notin> nodes_of H L"
    and fr: "\<And>x. x \<notin> set (a # L a) \<Longrightarrow> x \<notin> set xs \<Longrightarrow> lnext h' x = lnext h x \<and> lprev h' x = lprev h x"
  shows "lists_on H (L(a := xs)) h'"
proof -
  have sep: "set (a # xs) \<inter> set (b # L b) = {}" if "b \<in> H" "b \<noteq> a" for b
    using that new lists_on_disjoint [OF l a, of b] lists_on_head_not_node [OF l]
    by (fastforce simp: nodes_of_def)
  have "ring h' b (L b)" if "b \<in> H" "b \<noteq> a" for b
    using lists_on_ring [OF l \<open>b \<in> H\<close>]
  proof (rule ring_cong)
    fix x assume x: "x \<in> set (b # L b)"
    have "x \<notin> set (a # L a)" "x \<notin> set xs"
      using x sep [OF that] lists_on_disjoint [OF l a that(1)] that(2) by auto
    then show "lnext h' x = lnext h x" "lprev h' x = lprev h x"
      using fr by auto
  qed
  then have "\<forall>b\<in>H. ring h' b ((L(a := xs)) b)"
    using r by simp
  moreover have "set (b # (L(a := xs)) b) \<inter> set (c # (L(a := xs)) c) = {}"
    if "b \<in> H" "c \<in> H" "b \<noteq> c" for b c
    using lists_on_disjoint [OF l that] sep [OF that(1)] sep [OF that(2)] that(3)
    by (cases "b = a"; cases "c = a") (simp_all add: Int_commute)
  ultimately show ?thesis
    unfolding lists_on_def by blast
qed

lemma list_add_lists:
  assumes l: "lists_on H L h" and a: "a \<in> H" and La: "L a = ys @ zs"
    and n: "n \<notin> H" "n \<notin> nodes_of H L"
  shows "\<exists>h'. list_add n (last (a # ys)) h = Some h' \<and> lists_on H (L(a := ys @ n # zs)) h' \<and>
    (\<forall>x. x \<notin> set (n # a # L a) \<longrightarrow> lnext h' x = lnext h x \<and> lprev h' x = lprev h x)"
proof -
  have "n \<notin> set (a # ys @ zs)" using n a La by (auto simp: nodes_of_def)
  from list_add_ring [OF lists_on_ring [OF l a, unfolded La] this]
  obtain h' where h': "list_add n (last (a # ys)) h = Some h'" "ring h' a (ys @ n # zs)"
    and fr: "\<forall>x. x \<notin> set (n # a # L a) \<longrightarrow> lnext h' x = lnext h x \<and> lprev h' x = lprev h x"
    unfolding La by blast
  have "lists_on H (L(a := ys @ n # zs)) h'"
    by (rule lists_on_upd [OF l a h'(2)]) (use n La fr in auto)
  with h' fr show ?thesis by blast
qed

lemma list_add_tail_lists:
  assumes l: "lists_on H L h" and a: "a \<in> H" and La: "L a = ys @ zs"
    and n: "n \<notin> H" "n \<notin> nodes_of H L"
  shows "\<exists>h'. list_add_tail n (hd (zs @ [a])) h = Some h' \<and> lists_on H (L(a := ys @ n # zs)) h' \<and>
    (\<forall>x. x \<notin> set (n # a # L a) \<longrightarrow> lnext h' x = lnext h x \<and> lprev h' x = lprev h x)"
proof -
  have "n \<notin> set (a # ys @ zs)" using n a La by (auto simp: nodes_of_def)
  from list_add_tail_ring [OF lists_on_ring [OF l a, unfolded La] this]
  obtain h' where h': "list_add_tail n (hd (zs @ [a])) h = Some h'" "ring h' a (ys @ n # zs)"
    and fr: "\<forall>x. x \<notin> set (n # a # L a) \<longrightarrow> lnext h' x = lnext h x \<and> lprev h' x = lprev h x"
    unfolding La by blast
  have "lists_on H (L(a := ys @ n # zs)) h'"
    by (rule lists_on_upd [OF l a h'(2)]) (use n La fr in auto)
  with h' fr show ?thesis by blast
qed

lemma list_del_lists:
  assumes l: "lists_on H L h" and a: "a \<in> H" and La: "L a = ys @ n # zs"
  shows "\<exists>h'. list_del n h = Some h' \<and> lists_on H (L(a := ys @ zs)) h' \<and>
    lnext h' n = None \<and> lprev h' n = None \<and>
    (\<forall>x. x \<notin> set (a # L a) \<longrightarrow> lnext h' x = lnext h x \<and> lprev h' x = lprev h x)"
proof -
  from list_del_ring [OF lists_on_ring [OF l a, unfolded La]]
  obtain h' where h': "list_del n h = Some h'" "ring h' a (ys @ zs)" "lnext h' n = None" "lprev h' n = None"
    and fr: "\<forall>x. x \<notin> set (a # L a) \<longrightarrow> lnext h' x = lnext h x \<and> lprev h' x = lprev h x"
    unfolding La by blast
  have "lists_on H (L(a := ys @ zs)) h'"
    by (rule lists_on_upd [OF l a h'(2)]) (use La fr in auto)
  with h' fr show ?thesis by blast
qed

lemma LIST_HEAD_INIT_lists:
  assumes l: "lists_on H L h" and a: "a \<notin> H" "a \<notin> nodes_of H L"
  shows "lists_on (insert a H) (L(a := [])) (LIST_HEAD_INIT a h)"
proof -
  have "ring (LIST_HEAD_INIT a h) a []"
    by (simp add: ring_def LIST_HEAD_INIT_def)
  moreover have "ring (LIST_HEAD_INIT a h) b (L b)" if "b \<in> H" for b
    by (rule ring_cong [OF lists_on_ring [OF l that]])
      (use a that in \<open>auto simp: LIST_HEAD_INIT_def nodes_of_def\<close>)
  ultimately show ?thesis
    using l a by (auto simp: lists_on_def nodes_of_def)
qed

section \<open>The interface the clients use\<close>

text \<open>
  What a client of the lists relies on.  \<open>invar H L h\<close> relates the store \<open>h\<close> to the
  lists \<open>L\<close> of the heads \<open>H\<close>; \<open>nextp\<close> and \<open>prevp\<close> read the two fields.
\<close>

locale list_store =
  fixes invar :: "'n set \<Rightarrow> ('n \<Rightarrow> 'n list) \<Rightarrow> 'h \<Rightarrow> bool"
    and init :: "'n \<Rightarrow> 'h \<Rightarrow> 'h"
    and add :: "'n \<Rightarrow> 'n \<Rightarrow> 'h \<Rightarrow> 'h option"
    and add_tail :: "'n \<Rightarrow> 'n \<Rightarrow> 'h \<Rightarrow> 'h option"
    and del :: "'n \<Rightarrow> 'h \<Rightarrow> 'h option"
    and nextp :: "'h \<Rightarrow> 'n \<Rightarrow> 'n option"
    and prevp :: "'h \<Rightarrow> 'n \<Rightarrow> 'n option"
  assumes invar_empty: "invar {} L h"
    and invar_init: "invar H L h \<Longrightarrow> a \<notin> H \<Longrightarrow> a \<notin> nodes_of H L \<Longrightarrow>
      invar (insert a H) (L(a := [])) (init a h)"
    and invar_distinct: "invar H L h \<Longrightarrow> a \<in> H \<Longrightarrow> distinct (L a)"
    and invar_heads: "invar H L h \<Longrightarrow> a \<in> H \<Longrightarrow> a \<notin> nodes_of H L"
    and invar_unique: "invar H L h \<Longrightarrow> a \<in> H \<Longrightarrow> b \<in> H \<Longrightarrow> x \<in> set (L a) \<Longrightarrow> x \<in> set (L b) \<Longrightarrow> a = b"
    and next_at: "invar H L h \<Longrightarrow> a \<in> H \<Longrightarrow> L a = ys @ zs \<Longrightarrow>
      nextp h (last (a # ys)) = Some (hd (zs @ [a]))"
    and prev_at: "invar H L h \<Longrightarrow> a \<in> H \<Longrightarrow> L a = ys @ zs \<Longrightarrow>
      prevp h (hd (zs @ [a])) = Some (last (a # ys))"
    and add_at: "invar H L h \<Longrightarrow> a \<in> H \<Longrightarrow> L a = ys @ zs \<Longrightarrow> n \<notin> H \<Longrightarrow> n \<notin> nodes_of H L \<Longrightarrow>
      \<exists>h'. add n (last (a # ys)) h = Some h' \<and> invar H (L(a := ys @ n # zs)) h' \<and>
        (\<forall>x. x \<notin> set (n # a # L a) \<longrightarrow> nextp h' x = nextp h x \<and> prevp h' x = prevp h x)"
    and add_tail_at: "invar H L h \<Longrightarrow> a \<in> H \<Longrightarrow> L a = ys @ zs \<Longrightarrow> n \<notin> H \<Longrightarrow> n \<notin> nodes_of H L \<Longrightarrow>
      \<exists>h'. add_tail n (hd (zs @ [a])) h = Some h' \<and> invar H (L(a := ys @ n # zs)) h' \<and>
        (\<forall>x. x \<notin> set (n # a # L a) \<longrightarrow> nextp h' x = nextp h x \<and> prevp h' x = prevp h x)"
    and del_at: "invar H L h \<Longrightarrow> a \<in> H \<Longrightarrow> L a = ys @ n # zs \<Longrightarrow>
      \<exists>h'. del n h = Some h' \<and> invar H (L(a := ys @ zs)) h' \<and> nextp h' n = None \<and> prevp h' n = None \<and>
        (\<forall>x. x \<notin> set (a # L a) \<longrightarrow> nextp h' x = nextp h x \<and> prevp h' x = prevp h x)"
begin

lemma next_head: "invar H L h \<Longrightarrow> a \<in> H \<Longrightarrow> nextp h a = Some (case L a of [] \<Rightarrow> a | x # _ \<Rightarrow> x)"
  using next_at [of H L h a "[]" "L a"] by (cases "L a") auto

lemma prev_head: "invar H L h \<Longrightarrow> a \<in> H \<Longrightarrow> prevp h a = Some (last (a # L a))"
  using prev_at [of H L h a "L a" "[]"] by simp

lemma empty_iff: "invar H L h \<Longrightarrow> a \<in> H \<Longrightarrow> nextp h a = Some a \<longleftrightarrow> L a = []"
  using next_head [of H L h a] invar_heads [of H L h a]
  by (cases "L a") (auto simp: nodes_of_def)

lemma next_node: "invar H L h \<Longrightarrow> a \<in> H \<Longrightarrow> L a = ys @ x # zs \<Longrightarrow>
    nextp h x = Some (case zs of [] \<Rightarrow> a | z # _ \<Rightarrow> z)"
  using next_at [of H L h a "ys @ [x]" zs] by (cases zs) auto

lemma prev_node: "invar H L h \<Longrightarrow> a \<in> H \<Longrightarrow> L a = ys @ x # zs \<Longrightarrow> prevp h x = Some (last (a # ys))"
  using prev_at [of H L h a ys "x # zs"] by simp

lemma add_front: "invar H L h \<Longrightarrow> a \<in> H \<Longrightarrow> n \<notin> H \<Longrightarrow> n \<notin> nodes_of H L \<Longrightarrow>
    \<exists>h'. add n a h = Some h' \<and> invar H (L(a := n # L a)) h' \<and>
      (\<forall>x. x \<notin> set (n # a # L a) \<longrightarrow> nextp h' x = nextp h x \<and> prevp h' x = prevp h x)"
  using add_at [of H L h a "[]" "L a" n] by simp

lemma add_back: "invar H L h \<Longrightarrow> a \<in> H \<Longrightarrow> n \<notin> H \<Longrightarrow> n \<notin> nodes_of H L \<Longrightarrow>
    \<exists>h'. add_tail n a h = Some h' \<and> invar H (L(a := L a @ [n])) h' \<and>
      (\<forall>x. x \<notin> set (n # a # L a) \<longrightarrow> nextp h' x = nextp h x \<and> prevp h' x = prevp h x)"
  using add_tail_at [of H L h a "L a" "[]" n] by simp

lemma pop_front: "invar H L h \<Longrightarrow> a \<in> H \<Longrightarrow> L a = x # xs \<Longrightarrow>
    \<exists>h'. nextp h a = Some x \<and> del x h = Some h' \<and> invar H (L(a := xs)) h' \<and>
      nextp h' x = None \<and> prevp h' x = None \<and>
      (\<forall>y. y \<notin> set (a # L a) \<longrightarrow> nextp h' y = nextp h y \<and> prevp h' y = prevp h y)"
  using del_at [of H L h a "[]" x xs] next_head [of H L h a] by auto

lemma del_remove1:
  assumes "invar H L h" "a \<in> H" "n \<in> set (L a)"
  shows "\<exists>h'. del n h = Some h' \<and> invar H (L(a := remove1 n (L a))) h' \<and>
    nextp h' n = None \<and> prevp h' n = None \<and>
    (\<forall>x. x \<notin> set (a # L a) \<longrightarrow> nextp h' x = nextp h x \<and> prevp h' x = prevp h x)"
proof -
  obtain ys zs where L: "L a = ys @ n # zs" "n \<notin> set ys"
    using split_list_first [OF assms(3)] by blast
  then have "remove1 n (L a) = ys @ zs" by simp
  with del_at [OF assms(1,2) L(1)] show ?thesis by simp
qed

text \<open>Moving a node from one list to the front of another.\<close>

lemma move_front:
  assumes i: "invar H L h" and a: "a \<in> H" and b: "b \<in> H" and n: "n \<in> set (L a)" and ab: "a \<noteq> b"
  shows "\<exists>h1 h2. del n h = Some h1 \<and> add n b h1 = Some h2 \<and>
    invar H (L(a := remove1 n (L a), b := n # L b)) h2"
proof -
  obtain h1 where h1: "del n h = Some h1" "invar H (L(a := remove1 n (L a))) h1"
    using del_remove1 [OF i a n] by blast
  have "n \<notin> H"
    using n a invar_heads [OF i, of n] by (auto simp: nodes_of_def)
  moreover have "n \<notin> set ((L(a := remove1 n (L a))) c)" if "c \<in> H" for c
    using invar_unique [OF i a that n] invar_distinct [OF i a] by (cases "c = a") auto
  then have "n \<notin> nodes_of H (L(a := remove1 n (L a)))"
    by (simp add: nodes_of_def)
  ultimately obtain h2 where "add n b h1 = Some h2"
    "invar H ((L(a := remove1 n (L a)))(b := n # (L(a := remove1 n (L a))) b)) h2"
    using add_front [OF h1(2) b] by blast
  then show ?thesis
    using h1(1) ab by simp
qed

end

text \<open>The operations of include/kernel.h satisfy the interface.\<close>

interpretation kl: list_store lists_on LIST_HEAD_INIT list_add list_add_tail list_del lnext lprev
proof
  show "lists_on {} L h" for L :: "'a \<Rightarrow> 'a list" and h
    by (simp add: lists_on_def)
  show "lists_on (insert a H) (L(a := [])) (LIST_HEAD_INIT a h)"
    if "lists_on H L h" "a \<notin> H" "a \<notin> nodes_of H L" for H L h and a :: 'a
    using that by (rule LIST_HEAD_INIT_lists)
  show "distinct (L a)" if "lists_on H L h" "a \<in> H" for H L h and a :: 'a
    using lists_on_distinct [OF that] by simp
  show "a \<notin> nodes_of H L" if "lists_on H L h" "a \<in> H" for H L h and a :: 'a
    using that by (rule lists_on_head_not_node)
  show "a = b" if "lists_on H L h" "a \<in> H" "b \<in> H" "x \<in> set (L a)" "x \<in> set (L b)" for H L h and a b x :: 'a
    using that by (rule lists_on_unique)
  show "lnext h (last (a # ys)) = Some (hd (zs @ [a]))"
    if "lists_on H L h" "a \<in> H" "L a = ys @ zs" for H L h and a :: 'a and ys zs
    using ring_at(1) lists_on_ring [OF that(1,2)] that(3) by metis
  show "lprev h (hd (zs @ [a])) = Some (last (a # ys))"
    if "lists_on H L h" "a \<in> H" "L a = ys @ zs" for H L h and a :: 'a and ys zs
    using ring_at(2) lists_on_ring [OF that(1,2)] that(3) by metis
qed (rule list_add_lists list_add_tail_lists list_del_lists; assumption)+

lemma list_empty_iff: "lists_on H L h \<Longrightarrow> a \<in> H \<Longrightarrow> list_empty a h \<longleftrightarrow> L a = []"
  unfolding list_empty_def by (rule kl.empty_iff)

end
