(* ===== verification/Buddy.thy ===== *)
theory Buddy
  imports KList
begin

text \<open>
  The page-frame allocator: struct page (include/mem.h), the conversions between page
  descriptors and addresses (include/pmap.h), the zones and the buddy system
  (include/buddy.h, kern/buddy.c).

  A page descriptor is its index in the array \<^verbatim>\<open>pages\<close>.  Zone lock acquisition is kept:
  taking a lock that is already held is the \<^verbatim>\<open>panic\<close> of spin_lock_irqsave on the one CPU
  of this kernel.  The memory behind a page is a function from word index to word.  A call
  \<^verbatim>\<open>wakeup(&z->zone_wait_queue, ...)\<close> is recorded in the field \<open>wakeups\<close>, since the
  processes that it moves are the state of another component.
\<close>

unbundle bit_operations_syntax

section \<open>Data\<close>

datatype bnode =
    Lru nat
  | FreeList nat nat
  | PcpList nat nat
  | ReservedList nat
  | CacheAddr nat
  | SlabAddr nat

definition MEMLEVEL :: nat where "MEMLEVEL = 11"
definition IN_BUDDY :: nat where "IN_BUDDY = 12"
definition OUT_OF_BUDDY :: nat where "OUT_OF_BUDDY = 13"
definition NZONES :: nat where "NZONES = 2"
definition KERN_ZONE :: nat where "KERN_ZONE = 0"
definition NORMAL_ZONE :: nat where "NORMAL_ZONE = 1"
definition COLD_ZONE_PAGESET :: nat where "COLD_ZONE_PAGESET = 1"
definition HOT_ZONE_PAGESET :: nat where "HOT_ZONE_PAGESET = 0"

definition GFP_COLD :: u16 where "GFP_COLD = 0x0001"
definition GFP_ZERO :: u16 where "GFP_ZERO = 0x0002"
definition GFP_WAIT :: u16 where "GFP_WAIT = 0x0004"
definition GFP_DMA :: u16 where "GFP_DMA = 0x0008"
definition GFP_IRQ :: u16 where "GFP_IRQ = 0x0010"

definition RESERVED_PAGE :: u16 where "RESERVED_PAGE = 0x0002"
definition PAGE_IN_SLAB :: u16 where "PAGE_IN_SLAB = 0x0004"

definition KERNBASE :: u32 where "KERNBASE = 0xF0000000"
definition PGSIZE :: nat where "PGSIZE = 4096"
definition PGSHIFT :: nat where "PGSHIFT = 12"

record per_cpu_pageset =
  pcount :: u32
  plow :: u32
  phigh :: u32
  pbatch :: u32

record zone =
  z_free_pages :: int
  z_pages_low :: int
  z_pages_reserved :: int
  z_nr_free :: "nat \<Rightarrow> u32"
  z_pageset :: "nat \<Rightarrow> per_cpu_pageset"
  z_locked :: bool
  zone_first_page :: nat

record bstate =
  lh :: "bnode list_heap"
  pflag :: "nat \<Rightarrow> u16"
  p_private :: "nat \<Rightarrow> nat"
  p_ref :: "nat \<Rightarrow> u32"
  pmem :: "nat \<Rightarrow> nat \<Rightarrow> u32"
  zone_of :: "nat \<Rightarrow> zone"
  npages_num :: nat
  wakeups :: "nat list"

section \<open>Field updates\<close>

definition upd_zone :: "nat \<Rightarrow> (zone \<Rightarrow> zone) \<Rightarrow> bstate \<Rightarrow> bstate" where
  "upd_zone z f s = s\<lparr>zone_of := (zone_of s)(z := f (zone_of s z))\<rparr>"

definition upd_pageset :: "nat \<Rightarrow> nat \<Rightarrow> (per_cpu_pageset \<Rightarrow> per_cpu_pageset) \<Rightarrow> bstate \<Rightarrow> bstate" where
  "upd_pageset z c f = upd_zone z (\<lambda>r. r\<lparr>z_pageset := (z_pageset r)(c := f (z_pageset r c))\<rparr>)"

definition set_private :: "nat \<Rightarrow> nat \<Rightarrow> bstate \<Rightarrow> bstate" where
  "set_private p v s = s\<lparr>p_private := (p_private s)(p := v)\<rparr>"

definition set_ref :: "nat \<Rightarrow> u32 \<Rightarrow> bstate \<Rightarrow> bstate" where
  "set_ref p v s = s\<lparr>p_ref := (p_ref s)(p := v)\<rparr>"

definition set_flag :: "nat \<Rightarrow> u16 \<Rightarrow> bstate \<Rightarrow> bstate" where
  "set_flag p v s = s\<lparr>pflag := (pflag s)(p := v)\<rparr>"

definition add_nr_free :: "nat \<Rightarrow> nat \<Rightarrow> u32 \<Rightarrow> bstate \<Rightarrow> bstate" where
  "add_nr_free z k d = upd_zone z (\<lambda>r. r\<lparr>z_nr_free := (z_nr_free r)(k := z_nr_free r k + d)\<rparr>)"

definition add_free_pages :: "nat \<Rightarrow> int \<Rightarrow> bstate \<Rightarrow> bstate" where
  "add_free_pages z d = upd_zone z (\<lambda>r. r\<lparr>z_free_pages := z_free_pages r + d\<rparr>)"

text \<open>\<^verbatim>\<open>spin_lock_irqsave(&z->zone_lock)\<close> panics when this CPU holds the lock already;
  \<^verbatim>\<open>spin_unlock_irqrestore\<close> panics when it does not.\<close>

definition zone_lock :: "nat \<Rightarrow> bstate \<Rightarrow> bstate option" where
  "zone_lock z s = (if z_locked (zone_of s z) then None
     else Some (upd_zone z (\<lambda>r. r\<lparr>z_locked := True\<rparr>) s))"

definition zone_unlock :: "nat \<Rightarrow> bstate \<Rightarrow> bstate option" where
  "zone_unlock z s = (if z_locked (zone_of s z)
     then Some (upd_zone z (\<lambda>r. r\<lparr>z_locked := False\<rparr>) s) else None)"

definition zone_wakeup :: "nat \<Rightarrow> bstate \<Rightarrow> bstate" where
  "zone_wakeup z s = s\<lparr>wakeups := wakeups s @ [z]\<rparr>"

text \<open>List operations on the page lists, and \<^verbatim>\<open>list_entry(ptr, struct page, lru)\<close>, which
  is meaningful on the address of an \<^verbatim>\<open>lru\<close> field only.\<close>

fun page_entry :: "bnode \<Rightarrow> nat option" where
  "page_entry (Lru p) = Some p"
| "page_entry _ = None"

definition b_list_add :: "bnode \<Rightarrow> bnode \<Rightarrow> bstate \<Rightarrow> bstate option" where
  "b_list_add n a s = map_option (\<lambda>h. s\<lparr>lh := h\<rparr>) (list_add n a (lh s))"

definition b_list_del :: "bnode \<Rightarrow> bstate \<Rightarrow> bstate option" where
  "b_list_del n s = map_option (\<lambda>h. s\<lparr>lh := h\<rparr>) (list_del n (lh s))"

section \<open>Addresses of page frames\<close>

definition page2pa :: "nat \<Rightarrow> u32" where
  "page2pa p = push_bit PGSHIFT (of_nat p)"

definition page2va :: "nat \<Rightarrow> u32" where
  "page2va p = page2pa p + KERNBASE"

definition PGNUM :: "u32 \<Rightarrow> nat" where
  "PGNUM x = unat (drop_bit PGSHIFT x)"

definition pa2page :: "bstate \<Rightarrow> u32 \<Rightarrow> nat option" where
  "pa2page s pa = (if npages_num s \<le> PGNUM pa then None else Some (PGNUM pa))"

definition va2page :: "bstate \<Rightarrow> u32 \<Rightarrow> nat option" where
  "va2page s va = (if va < KERNBASE then None else pa2page s (va - KERNBASE))"

section \<open>The buddy system\<close>

definition page_is_buddy :: "nat \<Rightarrow> nat \<Rightarrow> nat \<Rightarrow> bstate \<Rightarrow> bool" where
  "page_is_buddy page buddy order s \<longleftrightarrow> p_private s buddy = order \<and> p_ref s buddy = 0"

text \<open>The first loop of \<^verbatim>\<open>__rmqueue\<close>: the first non-empty free list from \<open>order\<close> upwards.\<close>

function rmqueue_scan :: "nat \<Rightarrow> nat \<Rightarrow> nat \<Rightarrow> bstate \<Rightarrow> ((nat \<times> nat) option \<times> bstate) option" where
  "rmqueue_scan z order cur s =
     (if cur < MEMLEVEL then
        if list_empty (FreeList z cur) (lh s) then rmqueue_scan z order (Suc cur) s
        else do {
          n \<leftarrow> lnext (lh s) (FreeList z cur);
          p \<leftarrow> page_entry n;
          s \<leftarrow> b_list_del (Lru p) s;
          let s = set_private p OUT_OF_BUDDY s;
          let s = add_nr_free z cur (- 1) s;
          let s = add_free_pages z (- (2 ^ order)) s;
          Some (Some (p, cur), s)
        }
      else Some (None, s))"
  by pat_completeness auto
termination
  by (relation "measure (\<lambda>(z, order, cur, s). MEMLEVEL - cur)") auto

text \<open>The second loop: the upper halves go back to the lower free lists.\<close>

fun rmqueue_split :: "nat \<Rightarrow> nat \<Rightarrow> nat \<Rightarrow> nat \<Rightarrow> bstate \<Rightarrow> bstate option" where
  "rmqueue_split z order page cur s =
     (if order < cur then do {
        let c = cur - 1;
        let buddy = page + 2 ^ c;
        s \<leftarrow> b_list_add (Lru buddy) (FreeList z c) s;
        let s = add_nr_free z c 1 s;
        let s = set_private buddy c s;
        rmqueue_split z order page c s
      }
      else Some s)"

definition rmqueue :: "nat \<Rightarrow> int \<Rightarrow> bstate \<Rightarrow> (nat option \<times> bstate) option" where
  "rmqueue z order s =
     (if order < 0 then Some (None, s)
      else do {
        (r, s) \<leftarrow> rmqueue_scan z (nat order) (nat order) s;
        case r of None \<Rightarrow> Some (None, s)
        | Some (page, cur) \<Rightarrow> do {
            s \<leftarrow> rmqueue_split z (nat order) page cur s;
            Some (Some page, s)
          }
      })"

text \<open>The loop of \<^verbatim>\<open>__free_pages_bulk\<close>.  Indices are relative to the first page of the zone.\<close>

function coalesce :: "nat \<Rightarrow> nat \<Rightarrow> nat \<Rightarrow> bstate \<Rightarrow> (nat \<times> nat \<times> bstate) option" where
  "coalesce z page_idx order s =
     (if order < MEMLEVEL then
        let buddy_idx = page_idx XOR 2 ^ order;
            buddy = zone_first_page (zone_of s z) + buddy_idx
        in if \<not> page_is_buddy (zone_first_page (zone_of s z) + page_idx) buddy order s
           then Some (page_idx, order, s)
           else do {
             s \<leftarrow> b_list_del (Lru buddy) s;
             let s = add_nr_free z order (- 1) s;
             let s = set_private buddy IN_BUDDY s;
             coalesce z (page_idx AND buddy_idx) (Suc order) s
           }
      else Some (page_idx, order, s))"
  by pat_completeness auto
termination
  by (relation "measure (\<lambda>(z, i, order, s). MEMLEVEL - order)") auto

text \<open>\<^verbatim>\<open>__free_pages_bulk\<close>.  The array \<^verbatim>\<open>free_area\<close> has \<open>MEMLEVEL\<close> entries: an access
  behind its end is a fault.\<close>

definition buddy_free_bulk :: "nat \<Rightarrow> nat \<Rightarrow> nat \<Rightarrow> bstate \<Rightarrow> bstate option" where
  "buddy_free_bulk page z order s = do {
     let zone_base = zone_first_page (zone_of s z);
     let order_size = 2 ^ order;
     (page_idx, order, s) \<leftarrow> coalesce z (page - zone_base) order s;
     let coalesced = zone_base + page_idx;
     let s = set_private coalesced order s;
     s \<leftarrow> (if order < MEMLEVEL then b_list_add (Lru coalesced) (FreeList z order) s else None);
     let s = add_nr_free z order 1 s;
     Some (add_free_pages z order_size s)
   }"

text \<open>\<^verbatim>\<open>free_pages_bulk\<close>: the last \<open>n\<close> pages of a list go back to the zone one by one.\<close>

fun free_pages_loop :: "nat \<Rightarrow> nat \<Rightarrow> bnode \<Rightarrow> bstate \<Rightarrow> bstate option" where
  "free_pages_loop 0 z page_list s = Some s"
| "free_pages_loop (Suc n) z page_list s = do {
     e \<leftarrow> lprev (lh s) page_list;
     page \<leftarrow> page_entry e;
     s \<leftarrow> b_list_del (Lru page) s;
     let s = set_ref page 0 s;
     s \<leftarrow> buddy_free_bulk page z 0 s;
     free_pages_loop n z page_list s
   }"

definition free_pages_bulk :: "nat \<Rightarrow> bnode \<Rightarrow> nat \<Rightarrow> bstate \<Rightarrow> bstate option" where
  "free_pages_bulk z page_list order s = free_pages_loop (2 ^ order) z page_list s"

section \<open>The per-zone page caches\<close>

text \<open>\<^verbatim>\<open>memset(page2va(page+i), 0, PGSIZE)\<close> for \<open>i < n\<close>.\<close>

definition zero_pages :: "nat \<Rightarrow> nat \<Rightarrow> bstate \<Rightarrow> bstate" where
  "zero_pages n page s = s\<lparr>pmem := (\<lambda>q. if page \<le> q \<and> q < page + n then (\<lambda>_. 0) else pmem s q)\<rparr>"

text \<open>The refill loop of \<^verbatim>\<open>buffered_rmqueue\<close>; \<open>False\<close> when \<^verbatim>\<open>__rmqueue\<close> found nothing.\<close>

fun pcp_refill :: "nat \<Rightarrow> nat \<Rightarrow> nat \<Rightarrow> bstate \<Rightarrow> (bool \<times> bstate) option" where
  "pcp_refill 0 z cold s = Some (True, s)"
| "pcp_refill (Suc n) z cold s = do {
     (r, s) \<leftarrow> rmqueue z 0 s;
     case r of None \<Rightarrow> Some (False, s)
     | Some page \<Rightarrow> do {
         let s = upd_pageset z cold (\<lambda>c. c\<lparr>pcount := pcount c + 1\<rparr>) s;
         s \<leftarrow> b_list_add (Lru page) (PcpList z cold) s;
         pcp_refill n z cold s
       }
   }"

text \<open>The part of \<^verbatim>\<open>buffered_rmqueue\<close> up to the label \<^verbatim>\<open>forthstep\<close>.  The comparison
  \<^verbatim>\<open>z->free_pages - pageset->batch <= z->pages_low\<close> is unsigned, because \<^verbatim>\<open>batch\<close> is.\<close>

definition pcp_take :: "nat \<Rightarrow> nat \<Rightarrow> bstate \<Rightarrow> (nat option \<times> bstate) option" where
  "pcp_take z cold s = do {
     e \<leftarrow> lnext (lh s) (PcpList z cold);
     page \<leftarrow> page_entry e;
     let s = upd_pageset z cold (\<lambda>c. c\<lparr>pcount := pcount c - 1\<rparr>) s;
     s \<leftarrow> b_list_del (Lru page) s;
     Some (Some page, s)
   }"

definition pcp_alloc :: "nat \<Rightarrow> nat \<Rightarrow> bstate \<Rightarrow> (nat option \<times> bstate) option" where
  "pcp_alloc z cold s =
     (let c = z_pageset (zone_of s z) cold in
      if pcount c \<le> plow c then
        let b = (phigh c - plow c) div 2 + 1;
            s = upd_pageset z cold (\<lambda>c. c\<lparr>pbatch := b\<rparr>) s
        in if (word_of_int (z_free_pages (zone_of s z)) - b :: u32) \<le> word_of_int (z_pages_low (zone_of s z))
           then Some (None, s)
           else do {
             (ok, s) \<leftarrow> pcp_refill (unat b) z cold s;
             if \<not> ok then Some (None, s)
             else pcp_take z cold (upd_pageset z cold (\<lambda>c. c\<lparr>pbatch := 0\<rparr>) s)
           }
      else pcp_take z cold s)"

definition buffered_rmqueue :: "nat \<Rightarrow> nat \<Rightarrow> u16 \<Rightarrow> bstate \<Rightarrow> (nat option \<times> bstate) option" where
  "buffered_rmqueue z order gflg s = do {
     (r, s) \<leftarrow> (if order = 0 then pcp_alloc z (unat (gflg AND GFP_COLD)) s
                else if z_free_pages (zone_of s z) - 2 ^ order \<le> z_pages_low (zone_of s z)
                then Some (None, s)
                else rmqueue z (int order) s);
     case r of None \<Rightarrow> Some (None, s)
     | Some page \<Rightarrow>
         let s = set_private page OUT_OF_BUDDY s;
             s = (if gflg AND GFP_ZERO \<noteq> 0 then zero_pages (2 ^ order) page s else s)
         in Some (Some page, s)
   }"

definition page_zone_idx :: "nat \<Rightarrow> bstate \<Rightarrow> nat" where
  "page_zone_idx page s = unat (pflag s page AND 1)"

fun free_bulk_times :: "nat \<Rightarrow> nat \<Rightarrow> bnode \<Rightarrow> bstate \<Rightarrow> bstate option" where
  "free_bulk_times 0 z l s = Some s"
| "free_bulk_times (Suc n) z l s = do { s \<leftarrow> free_pages_bulk z l 0 s; free_bulk_times n z l s }"

definition free_hot_cold_page :: "nat \<Rightarrow> nat \<Rightarrow> bstate \<Rightarrow> bstate option" where
  "free_hot_cold_page page cold s = do {
     let z = page_zone_idx page s;
     s \<leftarrow> zone_lock z s;
     let c = z_pageset (zone_of s z) cold;
     s \<leftarrow> (if phigh c < pcount c then do {
             let b = (phigh c - plow c) div 2 + plow c;
             let s = upd_pageset z cold (\<lambda>c. c\<lparr>pbatch := b\<rparr>) s;
             s \<leftarrow> free_bulk_times (unat b) z (PcpList z cold) s;
             Some (upd_pageset z cold (\<lambda>c. c\<lparr>pcount := pcount c - b, pbatch := 0\<rparr>) s)
           } else Some s);
     s \<leftarrow> b_list_add (Lru page) (PcpList z cold) s;
     let s = upd_pageset z cold (\<lambda>c. c\<lparr>pcount := pcount c + 1\<rparr>) s;
     zone_unlock z (zone_wakeup z s)
   }"

definition free_hot_page :: "nat option \<Rightarrow> bstate \<Rightarrow> bstate option" where
  "free_hot_page page s = (case page of None \<Rightarrow> Some s | Some p \<Rightarrow> free_hot_cold_page p HOT_ZONE_PAGESET s)"

definition free_cold_page :: "nat option \<Rightarrow> bstate \<Rightarrow> bstate option" where
  "free_cold_page page s = (case page of None \<Rightarrow> Some s | Some p \<Rightarrow> free_hot_cold_page p COLD_ZONE_PAGESET s)"

section \<open>Allocation\<close>

text \<open>The outcome of \<^verbatim>\<open>__alloc_pages\<close>: a page, NULL, or a process put to sleep on the
  wait queue of the normal zone (it runs the zone loop again when woken).\<close>

datatype alloc_res = Got nat | NoPage | Asleep

fun alloc_of :: "nat option \<Rightarrow> alloc_res" where
  "alloc_of None = NoPage"
| "alloc_of (Some p) = Got p"

definition alloc_dma :: "nat \<Rightarrow> u16 \<Rightarrow> bstate \<Rightarrow> (alloc_res \<times> bstate) option" where
  "alloc_dma order gflg s = do {
     let z = KERN_ZONE;
     s \<leftarrow> zone_lock z s;
     if z_free_pages (zone_of s z) - 2 ^ order \<le> z_pages_low (zone_of s z) \<and> order \<noteq> 0
     then do { s \<leftarrow> zone_unlock z s; Some (NoPage, s) }
     else do {
       (page, s) \<leftarrow> buffered_rmqueue z order gflg s;
       s \<leftarrow> zone_unlock z s;
       Some (alloc_of page, s)
     }
   }"

definition alloc_irq :: "u16 \<Rightarrow> bstate \<Rightarrow> (alloc_res \<times> bstate) option" where
  "alloc_irq gflg s = do {
     let z = KERN_ZONE;
     s \<leftarrow> zone_lock z s;
     if 0 < z_pages_reserved (zone_of s z) then do {
       e \<leftarrow> lnext (lh s) (ReservedList z);
       page \<leftarrow> page_entry e;
       s \<leftarrow> b_list_del (Lru page) s;
       let s = upd_zone z (\<lambda>r. r\<lparr>z_free_pages := z_free_pages r - 1,
                                 z_pages_reserved := z_pages_reserved r - 1\<rparr>) s;
       let s = (if gflg AND GFP_ZERO \<noteq> 0 then zero_pages 1 page s else s);
       s \<leftarrow> zone_unlock z s;
       Some (Got page, s)
     }
     else do { s \<leftarrow> zone_unlock z s; Some (NoPage, s) }
   }"

text \<open>The loop over the zones, from the normal zone down.  When \<^verbatim>\<open>buffered_rmqueue\<close> fails
  the loop goes on with the zone lock still held, as in the source.\<close>

fun alloc_zones :: "nat list \<Rightarrow> nat \<Rightarrow> u16 \<Rightarrow> bstate \<Rightarrow> (nat option \<times> bstate) option" where
  "alloc_zones [] order gflg s = Some (None, s)"
| "alloc_zones (z # zs) order gflg s = do {
     s \<leftarrow> zone_lock z s;
     if z_free_pages (zone_of s z) - 2 ^ order \<le> z_pages_low (zone_of s z)
     then do { s \<leftarrow> zone_unlock z s; alloc_zones zs order gflg s }
     else do {
       (page, s) \<leftarrow> buffered_rmqueue z order gflg s;
       case page of
         Some p \<Rightarrow> do { s \<leftarrow> zone_unlock z s; Some (Some p, s) }
       | None \<Rightarrow> alloc_zones zs order gflg s
     }
   }"

definition alloc_pages :: "int \<Rightarrow> u16 \<Rightarrow> bstate \<Rightarrow> (alloc_res \<times> bstate) option" where
  "alloc_pages order gflg0 s =
     (if order < 0 \<or> int MEMLEVEL \<le> order then Some (NoPage, s)
      else let gflg = gflg0 AND NOT GFP_COLD; k = nat order in
        if gflg0 AND GFP_DMA \<noteq> 0 then alloc_dma k gflg s
        else if gflg0 AND GFP_IRQ \<noteq> 0 then alloc_irq gflg s
        else do {
          (page, s) \<leftarrow> alloc_zones [NORMAL_ZONE, KERN_ZONE] k gflg s;
          case page of Some p \<Rightarrow> Some (Got p, s)
          | None \<Rightarrow>
              if gflg0 AND GFP_WAIT \<noteq> 0 then do {
                s \<leftarrow> zone_lock NORMAL_ZONE s;
                s \<leftarrow> zone_unlock NORMAL_ZONE s;
                Some (Asleep, s)
              } else Some (NoPage, s)
        })"

definition alloc_page :: "u16 \<Rightarrow> bstate \<Rightarrow> (alloc_res \<times> bstate) option" where
  "alloc_page gflg = alloc_pages 0 gflg"

text \<open>The address of an allocated block; NULL is 0.\<close>

fun va_of_res :: "alloc_res \<Rightarrow> u32" where
  "va_of_res (Got p) = page2va p"
| "va_of_res _ = 0"

definition get_free_pages :: "int \<Rightarrow> u16 \<Rightarrow> bstate \<Rightarrow> (u32 \<times> bstate) option" where
  "get_free_pages order gflg s = do { (r, s) \<leftarrow> alloc_pages order gflg s; Some (va_of_res r, s) }"

definition get_free_page :: "u16 \<Rightarrow> bstate \<Rightarrow> (u32 \<times> bstate) option" where
  "get_free_page gflg = get_free_pages 0 gflg"

definition get_zeroed_page :: "u16 \<Rightarrow> bstate \<Rightarrow> (u32 \<times> bstate) option" where
  "get_zeroed_page gflg = get_free_pages 0 (gflg OR GFP_ZERO)"

definition get_dma_pages :: "int \<Rightarrow> u16 \<Rightarrow> bstate \<Rightarrow> (u32 \<times> bstate) option" where
  "get_dma_pages order gflg = get_free_pages order (gflg OR GFP_DMA)"

definition get_reserved_page :: "u16 \<Rightarrow> bstate \<Rightarrow> (u32 \<times> bstate) option" where
  "get_reserved_page gflg = get_free_page ((gflg AND GFP_ZERO) OR GFP_IRQ)"

section \<open>Release\<close>

fun pcp_push :: "nat \<Rightarrow> nat \<Rightarrow> nat \<Rightarrow> bstate \<Rightarrow> bstate option" where
  "pcp_push 0 z page s = Some s"
| "pcp_push (Suc n) z page s = do {
     s \<leftarrow> b_list_add (Lru page) (PcpList z HOT_ZONE_PAGESET) s;
     pcp_push n z (Suc page) s
   }"

text \<open>\<^verbatim>\<open>__free_pages\<close>: for order 0 the call of \<^verbatim>\<open>free_hot_page\<close> is not followed by a
  return.\<close>

definition buddy_free_pages :: "nat option \<Rightarrow> nat \<Rightarrow> bstate \<Rightarrow> bstate option" where
  "buddy_free_pages page order s =
     (case page of None \<Rightarrow> Some s
      | Some p \<Rightarrow> do {
          s \<leftarrow> (if order = 0 then free_hot_page (Some p) s else Some s);
          let z = page_zone_idx p s;
          s \<leftarrow> zone_lock z s;
          s \<leftarrow> pcp_push (2 ^ order) z p s;
          s \<leftarrow> free_pages_bulk z (PcpList z HOT_ZONE_PAGESET) order s;
          zone_unlock z (zone_wakeup z s)
        })"

definition free_reserved_page :: "nat \<Rightarrow> bstate \<Rightarrow> bstate option" where
  "free_reserved_page page s =
     b_list_add (Lru page) (ReservedList KERN_ZONE) (add_free_pages KERN_ZONE 1 s)"

text \<open>\<^verbatim>\<open>__free_page\<close> dereferences its argument.\<close>

definition buddy_free_page :: "nat option \<Rightarrow> bstate \<Rightarrow> bstate option" where
  "buddy_free_page page s = do {
     p \<leftarrow> page;
     if pflag s p AND RESERVED_PAGE \<noteq> 0 then free_reserved_page p s
     else buddy_free_pages (Some p) 0 s
   }"

fun free_pages_from :: "nat \<Rightarrow> nat option \<Rightarrow> bstate \<Rightarrow> bstate option" where
  "free_pages_from 0 page s = Some s"
| "free_pages_from (Suc n) page s = do {
     s \<leftarrow> buddy_free_page page s;
     free_pages_from n (map_option Suc page) s
   }"

definition free_pages :: "u32 \<Rightarrow> nat \<Rightarrow> bstate \<Rightarrow> bstate option" where
  "free_pages addr order s = free_pages_from (2 ^ order) (va2page s addr) s"

definition free_page :: "u32 \<Rightarrow> bstate \<Rightarrow> bstate option" where
  "free_page addr = free_pages addr 0"

section \<open>Boot-time initialisation\<close>

function boot_reserved :: "nat \<Rightarrow> u16 \<Rightarrow> nat \<Rightarrow> nat \<Rightarrow> bstate \<Rightarrow> bstate option" where
  "boot_reserved z zone_flag phy last_phy s =
     (if phy < last_phy then
        case pa2page s (of_nat phy) of None \<Rightarrow> Some s
        | Some p \<Rightarrow> do {
            let s = set_private p OUT_OF_BUDDY (set_ref p 0 (set_flag p zone_flag s));
            s \<leftarrow> b_list_add (Lru p) (ReservedList z) s;
            boot_reserved z zone_flag (phy + PGSIZE) last_phy s
          }
      else Some s)"
  by pat_completeness auto
termination
  by (relation "measure (\<lambda>(z, f, phy, last_phy, s). last_phy - phy)") (auto simp: PGSIZE_def)

text \<open>The blocks of one level; the result is the rest of the zone: its start and its size.\<close>

function boot_level :: "nat \<Rightarrow> u16 \<Rightarrow> nat \<Rightarrow> nat \<Rightarrow> nat \<Rightarrow> bstate \<Rightarrow> (nat \<times> nat \<times> bstate) option" where
  "boot_level z zone_flag i phy zone_size s =
     (if 2 ^ i \<le> zone_size then
        case pa2page s (of_nat phy) of None \<Rightarrow> Some (phy, zone_size, s)
        | Some p \<Rightarrow> do {
            let s = set_private p i (set_ref p 0 (set_flag p zone_flag s));
            s \<leftarrow> b_list_add (Lru p) (FreeList z i) s;
            let s = add_nr_free z i 1 s;
            boot_level z zone_flag i (phy + PGSIZE * 2 ^ i) (zone_size - 2 ^ i) s
          }
      else Some (phy, zone_size, s))"
  by pat_completeness auto
termination
  by (relation "measure (\<lambda>(z, f, i, phy, n, s). n)") (auto intro: diff_pow2_less)

fun boot_levels :: "nat \<Rightarrow> nat \<Rightarrow> u16 \<Rightarrow> nat \<Rightarrow> nat \<Rightarrow> bstate \<Rightarrow> bstate option" where
  "boot_levels 0 z zone_flag phy zone_size s = Some s"
| "boot_levels (Suc i) z zone_flag phy zone_size s = do {
     let s = upd_zone z (\<lambda>r. r\<lparr>z_nr_free := (z_nr_free r)(i := 0)\<rparr>) s;
     let s = s\<lparr>lh := LIST_HEAD_INIT (FreeList z i) (lh s)\<rparr>;
     (phy, zone_size, s) \<leftarrow> boot_level z zone_flag i phy zone_size s;
     boot_levels i z zone_flag phy zone_size s
   }"

definition boot_pageset :: per_cpu_pageset where
  "boot_pageset = \<lparr>pcount = 0, plow = 0, phigh = 1024, pbatch = 0\<rparr>"

definition boot_zone_init :: "nat \<Rightarrow> nat \<Rightarrow> nat \<Rightarrow> nat \<Rightarrow> nat \<Rightarrow> bstate \<Rightarrow> bstate option" where
  "boot_zone_init z reserved_start reserved_size zone_start zone_size s = do {
     let s = upd_zone z (\<lambda>r. r\<lparr>z_pages_reserved := int reserved_size, z_pages_low := int reserved_size,
               zone_first_page := PGNUM (of_nat zone_start),
               z_free_pages := int reserved_size + int zone_size, z_locked := False\<rparr>) s;
     let s = s\<lparr>lh := LIST_HEAD_INIT (ReservedList z) (lh s)\<rparr>;
     let s = upd_pageset z 0 (\<lambda>_. boot_pageset) s;
     let s = s\<lparr>lh := LIST_HEAD_INIT (PcpList z 0) (lh s)\<rparr>;
     let s = upd_pageset z 1 (\<lambda>_. boot_pageset) s;
     let s = s\<lparr>lh := LIST_HEAD_INIT (PcpList z 1) (lh s)\<rparr>;
     let zone_flag = (if z = KERN_ZONE then 0 else 1 :: u16);
     s \<leftarrow> (if reserved_size \<noteq> 0
           then boot_reserved z (zone_flag OR RESERVED_PAGE) reserved_start
                  (reserved_start + reserved_size * PGSIZE) s
           else Some s);
     boot_levels MEMLEVEL z zone_flag zone_start zone_size s
   }"

end
