(* ===== verification/Buddy_Inv.thy ===== *)
theory Buddy_Inv
  imports Buddy
begin

text \<open>
  The invariant of the buddy system and the correctness of the page-frame allocator.
\<close>

section \<open>Dyadic blocks\<close>

definition blk :: "nat \<times> nat \<Rightarrow> nat set" where
  "blk b = {fst b ..< fst b + 2 ^ snd b}"

definition aligned :: "nat \<times> nat \<Rightarrow> bool" where
  "aligned b \<longleftrightarrow> 2 ^ snd b dvd fst b"

lemma blk_head [simp]: "i \<in> blk (i, k)"
  by (simp add: blk_def)

lemma blk_div: "aligned (i, k) \<Longrightarrow> x \<in> blk (i, k) \<longleftrightarrow> x div 2 ^ k = i div 2 ^ k"
proof -
  assume "aligned (i, k)"
  then obtain q where i: "i = 2 ^ k * q" by (auto simp: aligned_def)
  have "x \<in> blk (i, k) \<longleftrightarrow> q * 2 ^ k \<le> x \<and> x < Suc q * 2 ^ k"
    by (auto simp: blk_def i mult.commute)
  also have "\<dots> \<longleftrightarrow> x div 2 ^ k = q"
    using div_nat_eqI [of "2 ^ k" q x] by (auto simp: dividend_less_times_div mult.commute)
  finally show ?thesis by (simp add: i)
qed

lemma blk_nested:
  assumes "aligned (i, k)" "aligned (j, m)" "k \<le> m" "x \<in> blk (i, k)" "x \<in> blk (j, m)"
  shows "blk (i, k) \<subseteq> blk (j, m)"
proof
  fix y assume "y \<in> blk (i, k)"
  with assms have "y div 2 ^ k = x div 2 ^ k" by (simp add: blk_div)
  then have "y div 2 ^ k div 2 ^ (m - k) = x div 2 ^ k div 2 ^ (m - k)" by simp
  then have "y div 2 ^ m = x div 2 ^ m"
    using \<open>k \<le> m\<close> by (simp add: div_mult2_eq [symmetric] power_add [symmetric])
  with assms show "y \<in> blk (j, m)" by (simp add: blk_div)
qed

text \<open>The index arithmetic of the coalescing loop.\<close>

lemma and_pred_succ:
  "even q \<Longrightarrow> q AND (q + 1) = (q :: nat)"
  "odd q \<Longrightarrow> q AND (q - 1) = (q - 1 :: nat)"
  by (auto simp: and_rec [of q] elim!: evenE oddE)

lemma xor_one_nat: "q XOR 1 = (if even q then q + 1 else q - 1 :: nat)"
  unfolding xor_one_eq by auto

lemma xor_pow2:
  assumes "aligned (i, k)"
  obtains q where "i = 2 ^ k * q"
    and "i XOR 2 ^ k = 2 ^ k * (if even q then q + 1 else q - 1)"
    and "i AND (i XOR 2 ^ k) = 2 ^ k * (if even q then q else q - 1)"
proof -
  obtain q where q: "i = 2 ^ k * q" using assms by (auto simp: aligned_def)
  then have i: "i = push_bit k q" by (simp add: push_bit_eq_mult mult.commute)
  have x: "i XOR 2 ^ k = push_bit k (q XOR 1)"
    unfolding i push_bit_xor push_bit_of_1 ..
  have a: "i AND (i XOR 2 ^ k) = push_bit k (q AND (q XOR 1))"
    unfolding x unfolding i push_bit_and ..
  show thesis
  proof (rule that [OF q])
    show "i XOR 2 ^ k = 2 ^ k * (if even q then q + 1 else q - 1)"
      unfolding x xor_one_nat push_bit_eq_mult by (rule mult.commute)
    show "i AND (i XOR 2 ^ k) = 2 ^ k * (if even q then q else q - 1)"
      unfolding a xor_one_nat push_bit_eq_mult using and_pred_succ [of q] by (simp add: mult.commute)
  qed
qed

lemma buddy_cases:
  assumes "aligned (i, k)"
  shows "i AND (i XOR 2 ^ k) = i \<and> i XOR 2 ^ k = i + 2 ^ k \<and> 2 ^ Suc k dvd i \<or>
    i AND (i XOR 2 ^ k) = i XOR 2 ^ k \<and> i = (i XOR 2 ^ k) + 2 ^ k \<and> 2 ^ Suc k dvd (i XOR 2 ^ k)"
proof -
  obtain q where q: "i = 2 ^ k * q" "i XOR 2 ^ k = 2 ^ k * (if even q then q + 1 else q - 1)"
    "i AND (i XOR 2 ^ k) = 2 ^ k * (if even q then q else q - 1)"
    using xor_pow2 [OF assms] by metis
  show ?thesis
  proof (cases "even q")
    case True
    then obtain r where r: "q = 2 * r" ..
    have "i AND (i XOR 2 ^ k) = i"
      using q(3) True by (simp flip: q(1))
    moreover have "i XOR 2 ^ k = i + 2 ^ k"
      unfolding q(2) using True q(1) by simp
    ultimately
    show ?thesis using q(1) r by simp
  next
    case False
    then obtain r where r: "q = 2 * r + 1" by (rule oddE)
    have "i AND (i XOR 2 ^ k) = i XOR 2 ^ k"
      unfolding q(3) unfolding q(2) using False by simp
    moreover have "i = (i XOR 2 ^ k) + 2 ^ k" "2 ^ Suc k dvd (i XOR 2 ^ k)"
      unfolding q(2) using False q(1) r by simp_all
    ultimately show ?thesis by simp
  qed
qed

lemma buddy_props:
  assumes al: "aligned (i, k)"
  defines "j \<equiv> i XOR 2 ^ k"
  shows "aligned (j, k)" and "j \<noteq> i" and "j XOR 2 ^ k = i"
    and "aligned (i AND j, Suc k)"
    and "blk (i AND j, Suc k) = blk (i, k) \<union> blk (j, k)"
    and "blk (i, k) \<inter> blk (j, k) = {}"
proof -
  have c: "i AND j = i \<and> j = i + 2 ^ k \<and> 2 ^ Suc k dvd i \<or> i AND j = j \<and> i = j + 2 ^ k \<and> 2 ^ Suc k dvd j"
    using buddy_cases [OF al] by (simp add: j_def)
  show "j XOR 2 ^ k = i" by (simp add: j_def xor.assoc)
  show "aligned (j, k)" using al c unfolding aligned_def
    by (elim disjE) (auto intro: dvd_trans [of "2 ^ k" "2 ^ Suc k"])
  show "j \<noteq> i" using c by auto
  show "aligned (i AND j, Suc k)" using c by (auto simp: aligned_def)
  show "blk (i AND j, Suc k) = blk (i, k) \<union> blk (j, k)" using c by (auto simp: blk_def)
  show "blk (i, k) \<inter> blk (j, k) = {}" using c by (auto simp: blk_def)
qed

section \<open>Tilings\<close>

text \<open>A zone of \<open>N\<close> pages is tiled by blocks: aligned, disjoint, of order below
  \<open>MEMLEVEL\<close>, and covering every page.\<close>

definition tiling :: "nat \<Rightarrow> (nat \<times> nat) set \<Rightarrow> bool" where
  "tiling N T \<longleftrightarrow> (\<forall>b\<in>T. aligned b \<and> snd b < MEMLEVEL) \<and>
     (\<forall>b\<in>T. \<forall>c\<in>T. b \<noteq> c \<longrightarrow> blk b \<inter> blk c = {}) \<and> (\<Union>b\<in>T. blk b) = {..<N}"

lemma tiling_aligned: "tiling N T \<Longrightarrow> (i, k) \<in> T \<Longrightarrow> aligned (i, k) \<and> k < MEMLEVEL"
  unfolding tiling_def by force

lemma tiling_disjoint: "tiling N T \<Longrightarrow> b \<in> T \<Longrightarrow> c \<in> T \<Longrightarrow> x \<in> blk b \<Longrightarrow> x \<in> blk c \<Longrightarrow> b = c"
  unfolding tiling_def by blast

lemma tiling_sub: "tiling N T \<Longrightarrow> b \<in> T \<Longrightarrow> blk b \<subseteq> {..<N}"
  unfolding tiling_def by blast

lemma tiling_cover: "tiling N T \<Longrightarrow> x < N \<Longrightarrow> \<exists>b\<in>T. x \<in> blk b"
  unfolding tiling_def by blast

lemma tiling_blk_disj: "tiling N T \<Longrightarrow> b \<in> T \<Longrightarrow> c \<in> T \<Longrightarrow> b \<noteq> c \<Longrightarrow> blk b \<inter> blk c = {}"
  unfolding tiling_def by metis

lemma tiling_union: "tiling N T \<Longrightarrow> (\<Union>b\<in>T. blk b) = {..<N}"
  unfolding tiling_def by metis

lemma tiling_finite: assumes "tiling N T" shows "finite T"
proof -
  have "T \<subseteq> {..<N} \<times> {..<MEMLEVEL}"
    using tiling_sub [OF assms] tiling_aligned [OF assms] blk_head by fastforce
  then show ?thesis by (rule finite_subset) simp
qed

lemma tiling_sum: assumes "tiling N T" shows "(\<Sum>b\<in>T. 2 ^ snd b) = N"
proof -
  have "card (\<Union>b\<in>T. blk b) = (\<Sum>b\<in>T. card (blk b))"
    using assms tiling_finite [OF assms]
    by (intro card_UN_disjoint) (auto simp: tiling_def blk_def)
  then show ?thesis using assms by (simp add: tiling_def blk_def)
qed

text \<open>Replacing some tiles by others that cover the same pages.\<close>

lemma tiling_replace:
  assumes t: "tiling N T" and sub: "B \<subseteq> T" and same: "(\<Union>b\<in>B. blk b) = (\<Union>c\<in>C. blk c)"
    and ok: "\<forall>c\<in>C. aligned c \<and> snd c < MEMLEVEL"
    and dis: "\<forall>b\<in>C. \<forall>c\<in>C. b \<noteq> c \<longrightarrow> blk b \<inter> blk c = {}"
  shows "tiling N (T - B \<union> C)"
proof -
  have sep: "blk b \<inter> blk c = {}" if "b \<in> T - B" "c \<in> C" for b c
  proof -
    have "blk c \<subseteq> (\<Union>b\<in>B. blk b)" using same that by blast
    moreover have "blk b \<inter> blk a = {}" if "a \<in> B" for a
      using tiling_blk_disj [OF t, of b a] sub that \<open>b \<in> T - B\<close> by blast
    ultimately show ?thesis by blast
  qed
  have "(\<Union>b\<in>T - B \<union> C. blk b) = (\<Union>b\<in>T - B. blk b) \<union> (\<Union>b\<in>B. blk b)"
    unfolding same by blast
  also have "\<dots> = (\<Union>b\<in>T. blk b)"
    using sub by blast
  also have "\<dots> = {..<N}"
    by (rule tiling_union [OF t])
  finally have cover: "(\<Union>b\<in>T - B \<union> C. blk b) = {..<N}" .
  have inT: "blk b \<inter> blk c = {}" if "b \<in> T - B" "c \<in> T - B" "b \<noteq> c" for b c
    using tiling_blk_disj [OF t, of b c] that by blast
  have disj: "blk b \<inter> blk c = {}" if "b \<in> T - B \<union> C" "c \<in> T - B \<union> C" "b \<noteq> c" for b c
    using that(1,2)
  proof (elim UnE)
    assume "b \<in> C" "c \<in> T - B"
    then show ?thesis using sep [of c b] by (simp add: Int_commute)
  qed (use inT sep dis that(3) in blast)+
  have "\<forall>b\<in>T - B \<union> C. aligned b \<and> snd b < MEMLEVEL"
    using t ok by (auto simp: tiling_def)
  moreover have "\<forall>b\<in>T - B \<union> C. \<forall>c\<in>T - B \<union> C. b \<noteq> c \<longrightarrow> blk b \<inter> blk c = {}"
    using disj by (intro ballI impI)
  ultimately show ?thesis
    using cover unfolding tiling_def by (intro conjI)
qed

lemma blk_halves:
  "blk (i, Suc c) = blk (i, c) \<union> blk (i + 2 ^ c, c)" "blk (i, c) \<inter> blk (i + 2 ^ c, c) = {}"
  by (auto simp: blk_def)

lemma aligned_halves: "aligned (i, Suc c) \<Longrightarrow> aligned (i, c) \<and> aligned (i + 2 ^ c, c)"
  by (auto simp: aligned_def intro: dvd_trans [of "2 ^ c" "2 ^ Suc c"])

lemma tiling_split:
  assumes t: "tiling N T" and b: "(i, Suc c) \<in> T"
  shows "tiling N (T - {(i, Suc c)} \<union> {(i, c), (i + 2 ^ c, c)})"
proof (rule tiling_replace [OF t])
  show "\<forall>x\<in>{(i, c), (i + 2 ^ c, c)}. aligned x \<and> snd x < MEMLEVEL"
    using tiling_aligned [OF t b] aligned_halves by auto
qed (use b blk_halves [of i c] in auto)

lemma tiling_merge:
  assumes t: "tiling N T" and b: "(i, k) \<in> T" "(i XOR 2 ^ k, k) \<in> T" and k: "Suc k < MEMLEVEL"
  shows "tiling N (T - {(i, k), (i XOR 2 ^ k, k)} \<union> {(i AND (i XOR 2 ^ k), Suc k)})"
  by (rule tiling_replace [OF t])
    (use b k buddy_props [of i k] tiling_aligned [OF t b(1)] in auto)

text \<open>
  The key fact behind \<^verbatim>\<open>page_is_buddy\<close>: when \<open>(i, k)\<close> is a tile, the first page of its
  buddy is the first page of a tile, of order at most \<open>k\<close>.
\<close>

lemma buddy_is_head:
  assumes t: "tiling N T" and b: "(i, k) \<in> T" and j: "i XOR 2 ^ k < N"
  shows "\<exists>m\<le>k. (i XOR 2 ^ k, m) \<in> T"
proof -
  let ?j = "i XOR 2 ^ k"
  note al = tiling_aligned [OF t b]
  note bp = buddy_props [OF al [THEN conjunct1]]
  obtain i' m where tile: "(i', m) \<in> T" "?j \<in> blk (i', m)"
    using tiling_cover [OF t j] by auto
  note al' = tiling_aligned [OF t tile(1)]
  have m: "m \<le> k"
  proof (rule ccontr)
    assume "\<not> m \<le> k"
    then have "Suc k \<le> m" by simp
    moreover have "?j \<in> blk (i AND ?j, Suc k)" "i \<in> blk (i AND ?j, Suc k)"
      using bp(5) by auto
    ultimately have "i \<in> blk (i', m)"
      using blk_nested [OF bp(4) al' [THEN conjunct1], of ?j] tile(2) by blast
    then have "(i', m) = (i, k)" using tiling_disjoint [OF t tile(1) b] by simp
    with \<open>\<not> m \<le> k\<close> show False by simp
  qed
  have "i' \<in> blk (?j, k)"
    using blk_nested [OF al' [THEN conjunct1] bp(1) m tile(2)] by auto
  then have "?j \<le> i'" by (simp add: blk_def)
  moreover have "i' \<le> ?j" using tile(2) by (simp add: blk_def)
  ultimately show ?thesis using tile(1) m by auto
qed

lemma tile_head_less: "tiling N T \<Longrightarrow> (i, k) \<in> T \<Longrightarrow> i < N"
  using subsetD [OF tiling_sub blk_head] by fastforce

lemma tile_head_eq: "tiling N T \<Longrightarrow> (i, k) \<in> T \<Longrightarrow> (i, m) \<in> T \<Longrightarrow> k = m"
  using tiling_disjoint [of N T "(i, k)" "(i, m)" i] by simp

section \<open>The relation between a zone and its blocks\<close>

definition heads :: "bnode set" where
  "heads = {FreeList z k |z k. z < NZONES \<and> k < MEMLEVEL} \<union>
     {PcpList z c |z c. z < NZONES \<and> c < 2} \<union> {ReservedList z |z. z < NZONES}"

abbreviation zbase :: "bstate \<Rightarrow> nat \<Rightarrow> nat" where
  "zbase s z \<equiv> zone_first_page (zone_of s z)"

text \<open>
  \<open>buddy_rel z N L F A s\<close>: in state \<open>s\<close> the zone \<open>z\<close> of \<open>N\<close> pages is tiled by the free
  blocks \<open>F\<close> and the blocks \<open>A\<close> in use (pairs of relative page index and order); the
  free lists hold exactly the first pages of \<open>F\<close>, marked with their order; all
  their pages have reference count 0; the first page of a block in use is marked as outside the buddy
  system; no page of a free block is on any other list; and the descriptors just behind
  the zone do not look like free buddies.
\<close>

definition fence :: "nat \<Rightarrow> nat \<Rightarrow> bstate \<Rightarrow> bool" where
  "fence z N s \<longleftrightarrow> (\<forall>i k. k < MEMLEVEL \<longrightarrow> i < N \<longrightarrow> N \<le> i XOR 2 ^ k \<longrightarrow>
     \<not> (p_private s (zbase s z + (i XOR 2 ^ k)) = k \<and> p_ref s (zbase s z + (i XOR 2 ^ k)) = 0))"

definition unref :: "nat \<Rightarrow> nat \<times> nat \<Rightarrow> bstate \<Rightarrow> bool" where
  "unref z b s \<longleftrightarrow> (\<forall>x\<in>blk b. p_ref s (zbase s z + x) = 0)"

definition free_marks :: "nat \<Rightarrow> (nat \<times> nat) set \<Rightarrow> bstate \<Rightarrow> bool" where
  "free_marks z F s \<longleftrightarrow> (\<forall>i k. (i, k) \<in> F \<longrightarrow> p_private s (zbase s z + i) = k \<and> unref z (i, k) s)"

definition used_marks :: "nat \<Rightarrow> (nat \<times> nat) set \<Rightarrow> bstate \<Rightarrow> bool" where
  "used_marks z A s \<longleftrightarrow> (\<forall>i k. (i, k) \<in> A \<longrightarrow> MEMLEVEL \<le> p_private s (zbase s z + i))"

definition free_lists :: "nat \<Rightarrow> (bnode \<Rightarrow> bnode list) \<Rightarrow> (nat \<times> nat) set \<Rightarrow> bstate \<Rightarrow> bool" where
  "free_lists z L F s \<longleftrightarrow> (\<forall>k<MEMLEVEL.
     set (L (FreeList z k)) = (\<lambda>i. Lru (zbase s z + i)) ` {i. (i, k) \<in> F} \<and>
     z_nr_free (zone_of s z) k = of_nat (length (L (FreeList z k))))"

definition off_lists :: "nat \<Rightarrow> (bnode \<Rightarrow> bnode list) \<Rightarrow> bnode set \<Rightarrow> (nat \<times> nat) set \<Rightarrow> bstate \<Rightarrow> bool" where
  "off_lists z L H B s \<longleftrightarrow> (\<forall>h\<in>H. \<forall>b\<in>B. \<forall>x\<in>blk b. Lru (zbase s z + x) \<notin> set (L h))"

definition buddy_rel :: "nat \<Rightarrow> nat \<Rightarrow> (bnode \<Rightarrow> bnode list) \<Rightarrow> (nat \<times> nat) set \<Rightarrow> (nat \<times> nat) set \<Rightarrow> bstate \<Rightarrow> bool" where
  "buddy_rel z N L F A s \<longleftrightarrow> z < NZONES \<and> lists_on heads L (lh s) \<and> tiling N (F \<union> A) \<and> F \<inter> A = {} \<and>
     free_lists z L F s \<and> free_marks z F s \<and> used_marks z A s \<and>
     off_lists z L (heads - range (FreeList z)) F s \<and> fence z N s"

lemmas bupd = upd_zone_def upd_pageset_def set_private_def set_ref_def set_flag_def add_nr_free_def
  add_free_pages_def zone_wakeup_def

lemma FreeList_heads [simp]: "FreeList z k \<in> heads \<longleftrightarrow> z < NZONES \<and> k < MEMLEVEL"
  by (auto simp: heads_def)

lemma PcpList_heads [simp]: "PcpList z c \<in> heads \<longleftrightarrow> z < NZONES \<and> c < 2"
  by (auto simp: heads_def)

lemma ReservedList_heads [simp]: "ReservedList z \<in> heads \<longleftrightarrow> z < NZONES"
  by (auto simp: heads_def)

lemma Lru_heads [simp]: "Lru p \<notin> heads"
  by (auto simp: heads_def)

lemma buddy_relD:
  assumes "buddy_rel z N L F A s"
  shows "z < NZONES" "lists_on heads L (lh s)" "tiling N (F \<union> A)" "F \<inter> A = {}" "free_lists z L F s"
    "free_marks z F s" "used_marks z A s" "off_lists z L (heads - range (FreeList z)) F s" "fence z N s"
  using assms by (simp_all add: buddy_rel_def)

lemma fence_cong:
  assumes "fence z N s" "zbase s' z = zbase s z"
    and "\<And>j. N \<le> j \<Longrightarrow> p_private s' (zbase s z + j) = p_private s (zbase s z + j)"
    and "\<And>j. N \<le> j \<Longrightarrow> p_ref s' (zbase s z + j) = p_ref s (zbase s z + j)"
  shows "fence z N s'"
  using assms by (simp add: fence_def)

text \<open>Where the pages of a free block can be: only its first page is on a list, the one of
  its order.\<close>

lemma free_block_nodes:
  assumes r: "buddy_rel z N L F A s" and b: "(i, k) \<in> F" and x: "x \<in> blk (i, k)"
    and h: "h \<in> heads" "Lru (zbase s z + x) \<in> set (L h)"
  shows "x = i \<and> h = FreeList z k"
proof -
  note d = buddy_relD [OF r]
  have "h \<in> range (FreeList z)"
    using d(8) h b x unfolding off_lists_def by blast
  then obtain m where m: "h = FreeList z m" "m < MEMLEVEL"
    using h(1) by auto
  then have "(x, m) \<in> F"
    using d(5) h(2) by (auto simp: free_lists_def)
  then have "(x, m) = (i, k)"
    using tiling_disjoint [OF d(3), of "(x, m)" "(i, k)" x] b x by simp
  with m show ?thesis by simp
qed

lemma free_head_listed:
  "buddy_rel z N L F A s \<Longrightarrow> (i, k) \<in> F \<Longrightarrow> k < MEMLEVEL \<and> Lru (zbase s z + i) \<in> set (L (FreeList z k))"
  using buddy_relD(3,5) [of z N L F A s] tiling_aligned [of N "F \<union> A" i k] by (auto simp: free_lists_def)

text \<open>Two families of lists that differ in the free lists of zone \<open>z\<close> only.\<close>

definition same_other :: "nat \<Rightarrow> (bnode \<Rightarrow> bnode list) \<Rightarrow> (bnode \<Rightarrow> bnode list) \<Rightarrow> bool" where
  "same_other z L L' \<longleftrightarrow> (\<forall>h. h \<notin> range (FreeList z) \<longrightarrow> L' h = L h)"

lemma same_other_refl [simp]: "same_other z L L"
  by (simp add: same_other_def)

lemma same_other_upd [simp]: "same_other z L (L'(FreeList z k := xs)) \<longleftrightarrow> same_other z L L'"
  by (auto simp: same_other_def)

lemma same_other_trans: "same_other z L L' \<Longrightarrow> same_other z L' L'' \<Longrightarrow> same_other z L L''"
  by (simp add: same_other_def)

section \<open>Elementary steps\<close>

text \<open>A block leaves the free lists: the step of \<^verbatim>\<open>__rmqueue\<close> and of the coalescing loop.\<close>

lemma take_block:
  assumes r: "buddy_rel z N L F A s" and b: "(i, k) \<in> F" and mk: "MEMLEVEL \<le> mk"
  defines "p \<equiv> zbase s z + i"
  shows "\<exists>h. list_del (Lru p) (lh s) = Some h \<and>
    buddy_rel z N (L(FreeList z k := remove1 (Lru p) (L (FreeList z k)))) (F - {(i, k)}) (insert (i, k) A)
      (set_private p mk (add_nr_free z k (- 1) (s\<lparr>lh := h\<rparr>))) \<and>
    off_lists z (L(FreeList z k := remove1 (Lru p) (L (FreeList z k)))) heads {(i, k)} s"
proof -
  note d = buddy_relD [OF r]
  let ?a = "FreeList z k" and ?xs = "remove1 (Lru p) (L (FreeList z k))"
  let ?L = "L(?a := ?xs)"
  have k: "k < MEMLEVEL" and pin: "Lru p \<in> set (L ?a)"
    using free_head_listed [OF r b] by (simp_all add: p_def)
  have a: "?a \<in> heads" using k d(1) by simp
  have dist: "distinct (L ?a)" by (rule kl.invar_distinct [OF d(2) a])
  obtain h where h: "list_del (Lru p) (lh s) = Some h" "lists_on heads ?L h"
    using kl.del_remove1 [OF d(2) a pin] by blast
  define s' where "s' = set_private p mk (add_nr_free z k (- 1) (s\<lparr>lh := h\<rparr>))"
  have base: "zbase s' z = zbase s z" and ref: "p_ref s' = p_ref s"
    and priv: "\<And>q. p_private s' q = (if q = p then mk else p_private s q)"
    and nr: "\<And>m. z_nr_free (zone_of s' z) m = z_nr_free (zone_of s z) m - (if m = k then 1 else 0)"
    and lh: "lh s' = h"
    by (simp_all add: s'_def bupd)
  have only: "(j, m) = (i, k)" if "(j, m) \<in> F \<union> A" "zbase s z + j = p" for j m
    using that b tiling_disjoint [OF d(3), of "(j, m)" "(i, k)" i] by (auto simp: p_def)
  have fl: "free_lists z ?L (F - {(i, k)}) s'"
  proof -
    have "set (?L (FreeList z m)) = (\<lambda>j. Lru (zbase s' z + j)) ` {j. (j, m) \<in> F - {(i, k)}}"
      if "m < MEMLEVEL" for m
      using d(5) that dist b unfolding free_lists_def base by (auto simp: p_def)
    moreover have "z_nr_free (zone_of s' z) m = of_nat (length (?L (FreeList z m)))"
      if "m < MEMLEVEL" for m
      using d(5) that pin length_pos_if_in_set [OF pin] unfolding free_lists_def nr
      by (cases "m = k") (simp_all add: length_remove1 word_of_nat_pred)
    ultimately show ?thesis by (simp add: free_lists_def)
  qed
  have fm: "free_marks z (F - {(i, k)}) s'"
  proof -
    have "zbase s z + j \<noteq> p" if "(j, m) \<in> F - {(i, k)}" for j m
      using that only [of j m] by blast
    then show ?thesis using d(6) by (auto simp: free_marks_def unref_def base ref priv)
  qed
  have um: "used_marks z (insert (i, k) A) s'"
    using d(7) mk by (auto simp: used_marks_def base priv p_def)
  have "i < N"
    using tile_head_less [OF d(3)] b by blast
  then have fe: "fence z N s'"
    by (intro fence_cong [OF d(9) base]) (auto simp: priv ref p_def)
  have ol: "off_lists z ?L (heads - range (FreeList z)) (F - {(i, k)}) s'"
    using d(8) by (auto simp: off_lists_def base)
  have "Lru (zbase s z + x) \<notin> set (?L g)" if "g \<in> heads" "x \<in> blk (i, k)" for g x
    using free_block_nodes [OF r b that(2,1)] dist by (cases "g = ?a") (auto simp: p_def)
  then have off: "off_lists z ?L heads {(i, k)} s"
    by (simp add: off_lists_def)
  have "F - {(i, k)} \<union> insert (i, k) A = F \<union> A" "(F - {(i, k)}) \<inter> insert (i, k) A = {}"
    using d(4) b by auto
  then have "buddy_rel z N ?L (F - {(i, k)}) (insert (i, k) A) s'"
    using d(1,3) h(2) fl fm um ol fe by (simp add: buddy_rel_def lh)
  with h(1) off show ?thesis unfolding s'_def by blast
qed

text \<open>A block enters the free lists.  The tiling may change at the same time: \<open>A'\<close> are the
  blocks in use afterwards.\<close>

lemma put_block:
  assumes r: "buddy_rel z N L F A s" and k: "k < MEMLEVEL"
    and t: "tiling N (insert (j, k) F \<union> A')" and dis: "insert (j, k) F \<inter> A' = {}" and new: "(j, k) \<notin> F"
    and um: "used_marks z A' s" and off: "off_lists z L heads {(j, k)} s"
  defines "p \<equiv> zbase s z + j"
  assumes ref: "unref z (j, k) s"
  shows "\<exists>h. list_add (Lru p) (FreeList z k) (lh s) = Some h \<and>
    buddy_rel z N (L(FreeList z k := Lru p # L (FreeList z k))) (insert (j, k) F) A'
      (set_private p k (add_nr_free z k 1 (s\<lparr>lh := h\<rparr>)))"
proof -
  note d = buddy_relD [OF r]
  let ?a = "FreeList z k"
  let ?L = "L(?a := Lru p # L ?a)"
  have a: "?a \<in> heads" using k d(1) by simp
  have pn: "Lru p \<notin> nodes_of heads L"
    using off by (auto simp: off_lists_def nodes_of_def p_def)
  obtain h where h: "list_add (Lru p) ?a (lh s) = Some h" "lists_on heads ?L h"
    using kl.add_front [OF d(2) a Lru_heads pn] by blast
  define s' where "s' = set_private p k (add_nr_free z k 1 (s\<lparr>lh := h\<rparr>))"
  have base: "zbase s' z = zbase s z" and refs: "p_ref s' = p_ref s"
    and priv: "\<And>q. p_private s' q = (if q = p then k else p_private s q)"
    and nr: "\<And>m. z_nr_free (zone_of s' z) m = z_nr_free (zone_of s z) m + (if m = k then 1 else 0)"
    and lh: "lh s' = h"
    by (simp_all add: s'_def bupd)
  have only: "(i, m) = (j, k)" if "(i, m) \<in> insert (j, k) F \<union> A'" "zbase s z + i = p" for i m
    using that tile_head_eq [OF t, of i m k] by (auto simp: p_def)
  have fl: "free_lists z ?L (insert (j, k) F) s'"
    using d(5) by (auto simp: free_lists_def base nr p_def)
  have fm: "free_marks z (insert (j, k) F) s'"
  proof -
    have "zbase s z + i \<noteq> p" if "(i, m) \<in> F" for i m
      using that only [of i m] new by blast
    then show ?thesis using d(6) ref by (auto simp: free_marks_def unref_def base refs priv) (simp add: p_def)+
  qed
  have um': "used_marks z A' s'"
    using um only dis by (fastforce simp: used_marks_def base priv)
  have "j < N"
    using tile_head_less [OF t] by blast
  then have fe: "fence z N s'"
    by (intro fence_cong [OF d(9) base]) (auto simp: priv refs p_def)
  have "Lru (zbase s z + x) \<notin> set (?L g)" if "g \<in> heads - range (FreeList z)" "b \<in> insert (j, k) F" "x \<in> blk b" for g b x
  proof (cases "b = (j, k)")
    case True
    then show ?thesis using off that by (auto simp: off_lists_def)
  next
    case False
    then show ?thesis using d(8) that by (auto simp: off_lists_def)
  qed
  then have ol: "off_lists z ?L (heads - range (FreeList z)) (insert (j, k) F) s'"
    by (simp add: off_lists_def base)
  have "buddy_rel z N ?L (insert (j, k) F) A' s'"
    using d(1) h(2) t dis fl fm um' ol fe by (simp add: buddy_rel_def lh)
  with h(1) show ?thesis unfolding s'_def by blast
qed

text \<open>Two buddies in use are one block in use of the next order.\<close>

lemma merge_used:
  assumes r: "buddy_rel z N L F A s" and b: "(i, k) \<in> A" "(i XOR 2 ^ k, k) \<in> A" and k: "Suc k < MEMLEVEL"
  shows "buddy_rel z N L F (A - {(i, k), (i XOR 2 ^ k, k)} \<union> {(i AND (i XOR 2 ^ k), Suc k)}) s"
proof -
  note d = buddy_relD [OF r]
  let ?j = "i XOR 2 ^ k" and ?m = "i AND (i XOR 2 ^ k)"
  let ?A = "A - {(i, k), (?j, k)} \<union> {(?m, Suc k)}"
  have al: "aligned (i, k)" using tiling_aligned [OF d(3)] b by blast
  have m: "?m = i \<or> ?m = ?j" using buddy_cases [OF al] by auto
  have um: "used_marks z ?A s"
    using d(7) b m by (auto simp: used_marks_def)
  have t: "tiling N (F \<union> A - {(i, k), (?j, k)} \<union> {(?m, Suc k)})"
    using b by (intro tiling_merge [OF d(3) _ _ k]) auto
  have notF: "(i, k) \<notin> F" "(?j, k) \<notin> F" using b d(4) by auto
  have "(?m, Suc k) \<notin> F"
  proof
    assume "(?m, Suc k) \<in> F"
    then have "(?m, k) \<in> F \<union> A" "(?m, Suc k) \<in> F \<union> A" using b m by auto
    then show False using tile_head_eq [OF d(3)] by fastforce
  qed
  moreover have "F \<union> A - {(i, k), (?j, k)} \<union> {(?m, Suc k)} = F \<union> ?A"
    using notF by auto
  ultimately show ?thesis
    using d t um by (auto simp: buddy_rel_def)
qed

lemma off_lists_merge:
  "aligned (i, k) \<Longrightarrow> off_lists z L H {(i, k)} s \<Longrightarrow> off_lists z L H {(i XOR 2 ^ k, k)} s \<Longrightarrow>
    off_lists z L H {(i AND (i XOR 2 ^ k), Suc k)} s"
  using buddy_props(5) [of i k] by (auto simp: off_lists_def)

lemma off_lists_mono:
  "off_lists z L H B s \<Longrightarrow> (\<And>h. h \<in> H \<Longrightarrow> set (L' h) \<subseteq> set (L h)) \<Longrightarrow> zbase s' z = zbase s z \<Longrightarrow>
    off_lists z L' H B s'"
  by (fastforce simp: off_lists_def)

lemma buddy_rel_cong:
  assumes "lh s' = lh s" "p_private s' = p_private s" "p_ref s' = p_ref s" "zbase s' z = zbase s z"
    "z_nr_free (zone_of s' z) = z_nr_free (zone_of s z)"
  shows "buddy_rel z N L F A s' = buddy_rel z N L F A s"
  using assms by (simp add: buddy_rel_def free_lists_def free_marks_def unref_def used_marks_def off_lists_def fence_def)

lemma buddy_rel_frame [simp]:
  "buddy_rel z N L F A (add_free_pages z' d s) = buddy_rel z N L F A s"
  "buddy_rel z N L F A (upd_pageset z' c f s) = buddy_rel z N L F A s"
  "buddy_rel z N L F A (zero_pages n p s) = buddy_rel z N L F A s"
  "buddy_rel z N L F A (zone_wakeup z' s) = buddy_rel z N L F A s"
  by (rule buddy_rel_cong; simp add: bupd zero_pages_def)+

section \<open>Allocation from the buddy system\<close>

text \<open>The upper halves that \<^verbatim>\<open>__rmqueue\<close> gives back when it cuts a block of order
  \<open>order\<close> out of the block \<open>(i, c)\<close>.\<close>

definition upper_halves :: "nat \<Rightarrow> nat \<Rightarrow> nat \<Rightarrow> (nat \<times> nat) set" where
  "upper_halves i order c = {(i + 2 ^ m, m) |m. order \<le> m \<and> m < c}"

lemma upper_halves_Suc: "order \<le> c \<Longrightarrow> upper_halves i order (Suc c) = insert (i + 2 ^ c, c) (upper_halves i order c)"
  by (auto simp: upper_halves_def less_Suc_eq)

lemma upper_halves_self [simp]: "upper_halves i c c = {}"
  by (simp add: upper_halves_def)

lemma split_step:
  assumes r: "buddy_rel z N L F A s" and b: "(i, Suc c) \<in> A"
    and off: "off_lists z L heads {(i, Suc c)} s" and ref: "unref z (i, Suc c) s"
  defines "q \<equiv> zbase s z + i + 2 ^ c"
  shows "\<exists>h. list_add (Lru q) (FreeList z c) (lh s) = Some h \<and>
    buddy_rel z N (L(FreeList z c := Lru q # L (FreeList z c))) (insert (i + 2 ^ c, c) F)
      (insert (i, c) (A - {(i, Suc c)})) (set_private q c (add_nr_free z c 1 (s\<lparr>lh := h\<rparr>))) \<and>
    off_lists z (L(FreeList z c := Lru q # L (FreeList z c))) heads {(i, c)} s"
proof -
  note d = buddy_relD [OF r]
  let ?A = "insert (i, c) (A - {(i, Suc c)})"
  have t: "tiling N (F \<union> A - {(i, Suc c)} \<union> {(i, c), (i + 2 ^ c, c)})"
    using tiling_split [OF d(3)] b by blast
  have notF: "(i, Suc c) \<notin> F" using b d(4) by auto
  have sub: "blk (i + 2 ^ c, c) \<subseteq> blk (i, Suc c)" "blk (i, c) \<subseteq> blk (i, Suc c)"
    by (simp_all add: blk_halves)
  have fresh: "(j, c) \<notin> F \<union> A" if "j \<in> blk (i, Suc c)" for j
    using tiling_disjoint [OF d(3), of "(j, c)" "(i, Suc c)" j] b that by auto
  have new: "(i + 2 ^ c, c) \<notin> F \<union> A" "(i, c) \<notin> F \<union> A"
    using fresh by (simp_all add: blk_def)
  have um: "used_marks z ?A s"
    using d(7) b by (auto simp: used_marks_def)
  have eq: "insert (i + 2 ^ c, c) F \<union> ?A = F \<union> A - {(i, Suc c)} \<union> {(i, c), (i + 2 ^ c, c)}"
    using notF by auto
  have dis: "insert (i + 2 ^ c, c) F \<inter> ?A = {}"
    using d(4) new by auto
  have offq: "off_lists z L heads {(i + 2 ^ c, c)} s"
    using off sub by (auto simp: off_lists_def)
  have refq: "unref z (i + 2 ^ c, c) s"
    using ref sub by (auto simp: unref_def)
  have c: "c < MEMLEVEL" using tiling_aligned [OF d(3), of i "Suc c"] b by simp
  have "off_lists z (L(FreeList z c := Lru q # L (FreeList z c))) heads {(i, c)} s"
    using off sub by (auto simp: off_lists_def q_def blk_def)
  then show ?thesis
    using put_block [OF r c t [folded eq] dis _ um offq refq] new
    by (simp add: q_def add.assoc)
qed


lemma split_correct:
  assumes "buddy_rel z N L F A s" "(i, c) \<in> A" "off_lists z L heads {(i, c)} s" "unref z (i, c) s" "order \<le> c"
  shows "\<exists>s' L'. rmqueue_split z order (zbase s z + i) c s = Some s' \<and>
    buddy_rel z N L' (F \<union> upper_halves i order c) (insert (i, order) (A - {(i, c)})) s' \<and>
    off_lists z L' heads {(i, order)} s' \<and> unref z (i, order) s' \<and> zbase s' z = zbase s z \<and> same_other z L L'"
  using assms
proof (induction c arbitrary: s L F A)
  case 0
  then show ?case by (auto intro!: exI [of _ L] simp: insert_absorb)
next
  case (Suc c)
  show ?case
  proof (cases "order = Suc c")
    case True
    with Suc.prems show ?thesis by (auto intro!: exI [of _ L] simp: insert_absorb)
  next
    case False
    then have c: "order \<le> c" using Suc.prems(5) by simp
    let ?q = "zbase s z + i + 2 ^ c"
    let ?L = "L(FreeList z c := Lru ?q # L (FreeList z c))"
    obtain h where h: "list_add (Lru ?q) (FreeList z c) (lh s) = Some h"
      "buddy_rel z N ?L (insert (i + 2 ^ c, c) F) (insert (i, c) (A - {(i, Suc c)}))
         (set_private ?q c (add_nr_free z c 1 (s\<lparr>lh := h\<rparr>)))"
      "off_lists z ?L heads {(i, c)} s"
      using split_step [OF Suc.prems(1-4)] by blast
    define s1 where "s1 = set_private ?q c (add_nr_free z c 1 (s\<lparr>lh := h\<rparr>))"
    have [simp]: "zbase s1 z = zbase s z" "p_ref s1 = p_ref s" by (simp_all add: s1_def bupd)
    have o: "off_lists z ?L heads {(i, c)} s1" using h(3) by (simp add: off_lists_def)
    have u: "unref z (i, c) s1" using Suc.prems(4) by (auto simp: unref_def blk_def)
    have new: "(i, c) \<notin> A"
      using tile_head_eq [OF buddy_relD(3) [OF Suc.prems(1)], of i c "Suc c"] Suc.prems(2) by auto
    note same = \<open>zbase s1 z = zbase s z\<close>
    have step: "rmqueue_split z order (zbase s z + i) (Suc c) s = rmqueue_split z order (zbase s1 z + i) c s1"
      using c h(1) by (simp add: b_list_add_def s1_def bupd Let_def)
    have A: "insert (i, order) (insert (i, c) (A - {(i, Suc c)}) - {(i, c)}) = insert (i, order) (A - {(i, Suc c)})"
      using new by auto
    show ?thesis
      using Suc.IH [OF h(2) [folded s1_def] insertI1 o u c] same_other_trans [of z L ?L, simplified]
      unfolding step A upper_halves_Suc [OF c] Un_insert_left Un_insert_right same by blast
  qed
qed


lemma scan_none:
  assumes "\<forall>m. cur \<le> m \<and> m < MEMLEVEL \<longrightarrow> list_empty (FreeList z m) (lh s)"
  shows "rmqueue_scan z order cur s = Some (None, s)"
  using assms by (induction z order cur s rule: rmqueue_scan.induct) (subst rmqueue_scan.simps, simp)

lemma scan_skip:
  assumes "\<forall>m. cur \<le> m \<and> m < c \<longrightarrow> list_empty (FreeList z m) (lh s)" "cur \<le> c" "c < MEMLEVEL"
  shows "rmqueue_scan z order cur s = rmqueue_scan z order c s"
  using assms
proof (induction "c - cur" arbitrary: cur)
  case (Suc x)
  then have "list_empty (FreeList z cur) (lh s)" "cur < c" by auto
  then show ?case
    using Suc.hyps(1) [of "Suc cur"] Suc.hyps(2) Suc.prems by (subst rmqueue_scan.simps) simp
qed simp

text \<open>What the buddy operations leave alone: the other zones, the caches and marks of this
  one, the memory, the flags and the reference counts.\<close>

definition buddy_same :: "nat \<Rightarrow> bstate \<Rightarrow> bstate \<Rightarrow> bool" where
  "buddy_same z s s' \<longleftrightarrow> pflag s' = pflag s \<and> pmem s' = pmem s \<and> npages_num s' = npages_num s \<and>
     wakeups s' = wakeups s \<and> (\<forall>y. y \<noteq> z \<longrightarrow> zone_of s' y = zone_of s y) \<and>
     z_pageset (zone_of s' z) = z_pageset (zone_of s z) \<and> z_locked (zone_of s' z) = z_locked (zone_of s z) \<and>
     z_pages_low (zone_of s' z) = z_pages_low (zone_of s z) \<and> zbase s' z = zbase s z \<and>
     z_pages_reserved (zone_of s' z) = z_pages_reserved (zone_of s z)"

lemma buddy_same_refl [simp]: "buddy_same z s s"
  by (simp add: buddy_same_def)

lemma buddy_same_trans: "buddy_same z s s' \<Longrightarrow> buddy_same z s' s'' \<Longrightarrow> buddy_same z s s''"
  by (simp add: buddy_same_def)

lemma split_same:
  "rmqueue_split z order p c s = Some s' \<Longrightarrow>
    buddy_same z s s' \<and> p_ref s' = p_ref s \<and> z_free_pages (zone_of s' z) = z_free_pages (zone_of s z)"
proof (induction z order p c s arbitrary: s' rule: rmqueue_split.induct)
  case (1 z order page cur s)
  show ?case
  proof (cases "order < cur")
    case True
    then obtain h where "list_add (Lru (page + 2 ^ (cur - 1))) (FreeList z (cur - 1)) (lh s) = Some h"
      and r: "rmqueue_split z order page (cur - 1)
        (set_private (page + 2 ^ (cur - 1)) (cur - 1) (add_nr_free z (cur - 1) 1 (s\<lparr>lh := h\<rparr>))) = Some s'"
      using "1.prems" by (auto simp: Let_def b_list_add_def)
    moreover have "buddy_same z s (set_private q k (add_nr_free z k 1 (s\<lparr>lh := h\<rparr>)))" for q k
      by (simp add: buddy_same_def bupd)
    ultimately show ?thesis
      using "1.IH" [OF True refl refl _ refl refl r] buddy_same_trans by (fastforce simp: b_list_add_def bupd)
  next
    case False
    with "1.prems" show ?thesis by simp
  qed
qed

text \<open>The two outcomes of \<^verbatim>\<open>__rmqueue\<close>.\<close>

lemma free_list_empty: "free_lists z L F s \<Longrightarrow> m < MEMLEVEL \<Longrightarrow> (\<And>i. (i, m) \<notin> F) \<Longrightarrow> L (FreeList z m) = []"
  unfolding free_lists_def by (metis (no_types, lifting) empty_Collect_eq image_is_empty set_empty)

lemma free_list_node: "free_lists z L F s \<Longrightarrow> m < MEMLEVEL \<Longrightarrow> x \<in> set (L (FreeList z m)) \<Longrightarrow>
    \<exists>i. x = Lru (zbase s z + i) \<and> (i, m) \<in> F"
  by (auto simp: free_lists_def)

lemma rmqueue_fail:
  assumes r: "buddy_rel z N L F A s" and none: "\<forall>i k. (i, k) \<in> F \<longrightarrow> k < order"
  shows "rmqueue z (int order) s = Some (None, s)"
proof -
  note d = buddy_relD [OF r]
  have "L (FreeList z m) = []" if "order \<le> m" "m < MEMLEVEL" for m
    using free_list_empty [OF d(5) that(2)] none that(1) by (meson not_less)
  then have "\<forall>m. order \<le> m \<and> m < MEMLEVEL \<longrightarrow> list_empty (FreeList z m) (lh s)"
    using list_empty_iff [OF d(2)] d(1) by auto
  then show ?thesis by (simp add: rmqueue_def scan_none del: rmqueue_scan.simps)
qed

lemma least_free_order:
  fixes F :: "(nat \<times> nat) set"
  assumes "(j, k) \<in> F" "order \<le> k"
  obtains i c where "(i, c) \<in> F" "order \<le> c" "\<forall>i' m. (i', m) \<in> F \<and> order \<le> m \<longrightarrow> c \<le> m"
proof -
  define c where "c = (LEAST m. order \<le> m \<and> (\<exists>i. (i, m) \<in> F))"
  have "order \<le> c \<and> (\<exists>i. (i, c) \<in> F)"
    unfolding c_def by (rule LeastI [of _ k]) (use assms in auto)
  moreover have "c \<le> m" if "(i, m) \<in> F" "order \<le> m" for i m
    unfolding c_def by (rule Least_le) (use that in auto)
  ultimately show thesis using that by blast
qed

lemma rmqueue_succeed:
  assumes r: "buddy_rel z N L F A s" and ex: "(j, k) \<in> F" "order \<le> k"
  shows "\<exists>i c s' L'. rmqueue z (int order) s = Some (Some (zbase s z + i), s') \<and>
    (i, c) \<in> F \<and> order \<le> c \<and> (\<forall>i' m. (i', m) \<in> F \<and> order \<le> m \<longrightarrow> c \<le> m) \<and>
    buddy_rel z N L' (F - {(i, c)} \<union> upper_halves i order c) (insert (i, order) A) s' \<and>
    off_lists z L' heads {(i, order)} s' \<and> unref z (i, order) s' \<and> buddy_same z s s' \<and> p_ref s' = p_ref s \<and>
    z_free_pages (zone_of s' z) = z_free_pages (zone_of s z) - 2 ^ order \<and> same_other z L L'"
proof -
  note d = buddy_relD [OF r]
  obtain i0 c where c: "(i0, c) \<in> F" "order \<le> c" "\<forall>i' m. (i', m) \<in> F \<and> order \<le> m \<longrightarrow> c \<le> m"
    using least_free_order [OF ex] by blast
  have cM: "c < MEMLEVEL" using free_head_listed [OF r c(1)] by simp
  have hd: "FreeList z c \<in> heads" using cM d(1) by simp
  have "L (FreeList z m) = []" if "order \<le> m" "m < c" for m
    using free_list_empty [OF d(5), of m] c(3) that cM by (meson not_less order.strict_trans)
  then have skip: "\<forall>m. order \<le> m \<and> m < c \<longrightarrow> list_empty (FreeList z m) (lh s)"
    using list_empty_iff [OF d(2)] d(1) cM by auto
  obtain x xs where Lc: "L (FreeList z c) = x # xs"
    using free_head_listed [OF r c(1)] by (cases "L (FreeList z c)") auto
  then obtain i where i: "x = Lru (zbase s z + i)" "(i, c) \<in> F"
    using free_list_node [OF d(5) cM, of x] by auto
  let ?p = "zbase s z + i"
  obtain h where h: "list_del (Lru ?p) (lh s) = Some h"
    "buddy_rel z N (L(FreeList z c := remove1 (Lru ?p) (L (FreeList z c)))) (F - {(i, c)}) (insert (i, c) A)
      (set_private ?p OUT_OF_BUDDY (add_nr_free z c (- 1) (s\<lparr>lh := h\<rparr>)))"
    "off_lists z (L(FreeList z c := remove1 (Lru ?p) (L (FreeList z c)))) heads {(i, c)} s"
    using take_block [OF r i(2), of OUT_OF_BUDDY] by (auto simp: OUT_OF_BUDDY_def MEMLEVEL_def)
  let ?L = "L(FreeList z c := remove1 (Lru ?p) (L (FreeList z c)))"
  define s1 where "s1 = add_free_pages z (- (2 ^ order)) (set_private ?p OUT_OF_BUDDY (add_nr_free z c (- 1) (s\<lparr>lh := h\<rparr>)))"
  have s1: "zbase s1 z = zbase s z" "p_ref s1 = p_ref s" "buddy_same z s s1"
    "z_free_pages (zone_of s1 z) = z_free_pages (zone_of s z) - 2 ^ order"
    by (simp_all add: s1_def bupd buddy_same_def)
  have scan: "rmqueue_scan z order order s = Some (Some (?p, c), s1)"
  proof -
    have "\<not> list_empty (FreeList z c) (lh s)" "lnext (lh s) (FreeList z c) = Some (Lru ?p)"
      using list_empty_iff [OF d(2) hd] kl.next_head [OF d(2) hd] Lc i by auto
    then show ?thesis
      unfolding scan_skip [OF skip c(2) cM]
      using cM h(1) by (simp add: b_list_del_def s1_def bupd)
  qed
  have r1: "buddy_rel z N ?L (F - {(i, c)}) (insert (i, c) A) s1"
    using h(2) by (simp add: s1_def)
  have o1: "off_lists z ?L heads {(i, c)} s1"
    using h(3) s1 by (simp add: off_lists_def)
  have "unref z (i, c) s1"
    using d(6) i(2) s1 by (auto simp: free_marks_def unref_def)
  then obtain s' L' where s': "rmqueue_split z order (zbase s1 z + i) c s1 = Some s'"
    "buddy_rel z N L' (F - {(i, c)} \<union> upper_halves i order c) (insert (i, order) (insert (i, c) A - {(i, c)})) s'"
    "off_lists z L' heads {(i, order)} s'" "unref z (i, order) s'" "same_other z ?L L'"
    using split_correct [OF r1 insertI1 o1 _ c(2)] by blast
  have so: "same_other z L L'" by (rule same_other_trans [OF _ s'(5)]) simp
  have "(i, c) \<notin> A" using d(4) i(2) by auto
  then have A: "insert (i, order) (insert (i, c) A - {(i, c)}) = insert (i, order) A" by auto
  have "rmqueue z (int order) s = Some (Some ?p, s')"
    using scan s'(1) s1 by (simp add: rmqueue_def del: rmqueue_scan.simps rmqueue_split.simps)
  moreover have "buddy_same z s s'" "p_ref s' = p_ref s" "z_free_pages (zone_of s' z) = z_free_pages (zone_of s z) - 2 ^ order"
    using split_same [OF s'(1)] s1 buddy_same_trans by auto
  ultimately show ?thesis
    using i(2) c(2,3) s'(2-4) so unfolding A by blast
qed


section \<open>Release into the buddy system\<close>

text \<open>The coalescing loop on sets of free blocks: the abstract counterpart of the loop of
  \<^verbatim>\<open>__free_pages_bulk\<close>.\<close>

function abs_coalesce :: "(nat \<times> nat) set \<Rightarrow> nat \<Rightarrow> nat \<Rightarrow> (nat \<times> nat) set \<times> nat \<times> nat" where
  "abs_coalesce F i k = (if k < MEMLEVEL \<and> (i XOR 2 ^ k, k) \<in> F
     then abs_coalesce (F - {(i XOR 2 ^ k, k)}) (i AND (i XOR 2 ^ k)) (Suc k) else (F, i, k))"
  by pat_completeness auto
termination
  by (relation "measure (\<lambda>(F, i, k). MEMLEVEL - k)") auto

declare abs_coalesce.simps [simp del] rmqueue_scan.simps [simp del] rmqueue_split.simps [simp del]
  coalesce.simps [simp del]

definition abs_free :: "(nat \<times> nat) set \<Rightarrow> nat \<Rightarrow> nat \<Rightarrow> (nat \<times> nat) set" where
  "abs_free F i k = (case abs_coalesce F i k of (F', i', k') \<Rightarrow> insert (i', k') F')"

text \<open>The block of the highest order next to the one that holds page \<open>i\<close>.\<close>

definition top_buddy :: "nat \<Rightarrow> nat" where
  "top_buddy i = (i div 2 ^ (MEMLEVEL - 1) * 2 ^ (MEMLEVEL - 1)) XOR 2 ^ (MEMLEVEL - 1)"

lemma div_pow2_mono: "x div 2 ^ k = y div 2 ^ k \<Longrightarrow> k \<le> m \<Longrightarrow> x div 2 ^ m = (y :: nat) div 2 ^ m"
  using div_mult2_eq [of x "2 ^ k" "2 ^ (m - k)"] div_mult2_eq [of y "2 ^ k" "2 ^ (m - k)"]
  by (simp add: power_add [symmetric])

lemma top_buddy_merge:
  assumes "aligned (i, k)" "Suc k < MEMLEVEL"
  shows "top_buddy (i AND (i XOR 2 ^ k)) = top_buddy i"
proof -
  note bp = buddy_props [OF assms(1)]
  have "i \<in> blk (i AND (i XOR 2 ^ k), Suc k)" unfolding bp(5) by simp
  then have "i div 2 ^ Suc k = (i AND (i XOR 2 ^ k)) div 2 ^ Suc k"
    using blk_div [OF bp(4)] by blast
  then have "i div 2 ^ (MEMLEVEL - 1) = (i AND (i XOR 2 ^ k)) div 2 ^ (MEMLEVEL - 1)"
    by (rule div_pow2_mono) (use assms(2) in simp)
  then show ?thesis by (simp add: top_buddy_def)
qed

lemma top_buddy_self: "aligned (i, MEMLEVEL - 1) \<Longrightarrow> top_buddy i = i XOR 2 ^ (MEMLEVEL - 1)"
  by (auto simp: top_buddy_def aligned_def)

text \<open>The test \<^verbatim>\<open>page_is_buddy\<close> recognises exactly the free buddies.\<close>

lemma page_is_buddy_iff:
  assumes r: "buddy_rel z N L F A s" and b: "(i, k) \<in> F \<union> A"
  shows "page_is_buddy p (zbase s z + (i XOR 2 ^ k)) k s \<longleftrightarrow> (i XOR 2 ^ k, k) \<in> F"
proof -
  note d = buddy_relD [OF r]
  let ?j = "i XOR 2 ^ k"
  have k: "k < MEMLEVEL" and i: "i < N"
    using tiling_aligned [OF d(3) b] tile_head_less [OF d(3) b] by auto
  show ?thesis
  proof
    assume "(?j, k) \<in> F"
    then show "page_is_buddy p (zbase s z + ?j) k s"
      using d(6) by (auto simp: free_marks_def unref_def page_is_buddy_def)
  next
    assume pb: "page_is_buddy p (zbase s z + ?j) k s"
    then have "?j < N"
      using d(9) k i by (auto simp: fence_def page_is_buddy_def not_less [symmetric])
    then obtain m where m: "m \<le> k" "(?j, m) \<in> F \<union> A"
      using buddy_is_head [OF d(3) b] by blast
    then show "(?j, k) \<in> F"
      using pb d(6,7) k by (auto simp: free_marks_def used_marks_def page_is_buddy_def)
  qed
qed

text \<open>One round of the loop: the free buddy is taken off its list and merged.\<close>

lemma coalesce_step:
  assumes r: "buddy_rel z N L F A s" and a: "(i, k) \<in> A" and o: "off_lists z L heads {(i, k)} s"
    and u: "unref z (i, k) s" and top: "(top_buddy i, MEMLEVEL - 1) \<notin> F" and b: "(i XOR 2 ^ k, k) \<in> F"
  defines "j \<equiv> i XOR 2 ^ k" and "m \<equiv> i AND (i XOR 2 ^ k)"
  shows "\<exists>s' L'. coalesce z i k s = coalesce z m (Suc k) s' \<and>
    buddy_rel z N L' (F - {(j, k)}) (insert (m, Suc k) (A - {(i, k)})) s' \<and>
    off_lists z L' heads {(m, Suc k)} s' \<and> unref z (m, Suc k) s' \<and> top_buddy m = top_buddy i \<and>
    buddy_same z s s' \<and> p_ref s' = p_ref s \<and> z_free_pages (zone_of s' z) = z_free_pages (zone_of s z) \<and>
    same_other z L L'"
proof -
  note d = buddy_relD [OF r]
  have al: "aligned (i, k)" "k < MEMLEVEL" using tiling_aligned [OF d(3)] a by auto
  note bp = buddy_props [OF al(1)]
  have k: "Suc k < MEMLEVEL"
  proof (rule ccontr)
    assume "\<not> Suc k < MEMLEVEL"
    then have "k = MEMLEVEL - 1" using al(2) by simp
    with top b al(1) top_buddy_self [of i] show False by simp
  qed
  let ?p = "zbase s z + j" and ?L = "L(FreeList z k := remove1 (Lru (zbase s z + j)) (L (FreeList z k)))"
  obtain h where h: "list_del (Lru ?p) (lh s) = Some h"
    "buddy_rel z N ?L (F - {(j, k)}) (insert (j, k) A) (set_private ?p IN_BUDDY (add_nr_free z k (- 1) (s\<lparr>lh := h\<rparr>)))"
    "off_lists z ?L heads {(j, k)} s"
    using take_block [OF r b, of IN_BUDDY] by (auto simp: j_def IN_BUDDY_def MEMLEVEL_def)
  define s' where "s' = set_private ?p IN_BUDDY (add_nr_free z k (- 1) (s\<lparr>lh := h\<rparr>))"
  have s': "zbase s' z = zbase s z" "p_ref s' = p_ref s" "buddy_same z s s'"
    "z_free_pages (zone_of s' z) = z_free_pages (zone_of s z)"
    by (simp_all add: s'_def bupd buddy_same_def)
  have o1: "off_lists z ?L heads {(i, k)} s'"
    by (rule off_lists_mono [OF o _ s'(1)]) (simp add: set_remove1_subset)
  have o2: "off_lists z ?L heads {(j, k)} s'"
    using h(3) s'(1) by (simp add: off_lists_def)
  have o3: "off_lists z ?L heads {(m, Suc k)} s'"
    using off_lists_merge [OF al(1) o1] o2 by (simp add: m_def j_def)
  have "unref z (j, k) s'" "unref z (i, k) s'"
    using d(6) b u s'(1,2) by (auto simp: free_marks_def unref_def j_def)
  then have u': "unref z (m, Suc k) s'"
    using bp(5) by (auto simp: unref_def m_def j_def)
  have "(j, k) \<notin> A" using d(4) b by (auto simp: j_def)
  then have A: "insert (j, k) A - {(i, k), (j, k)} \<union> {(m, Suc k)} = insert (m, Suc k) (A - {(i, k)})"
    by auto
  have r': "buddy_rel z N ?L (F - {(j, k)}) (insert (m, Suc k) (A - {(i, k)})) s'"
    using merge_used [OF h(2) [folded s'_def], of i k] a k unfolding A [symmetric]
    by (simp add: j_def m_def)
  have "page_is_buddy (zbase s z + i) ?p k s"
    using page_is_buddy_iff [OF r, of i k] a b by (simp add: j_def)
  then have "coalesce z i k s = coalesce z m (Suc k) s'"
    using al(2) h(1) by (subst coalesce.simps) (simp add: b_list_del_def s'_def m_def j_def Let_def)
  then show ?thesis
    using r' o3 u' top_buddy_merge [OF al(1) k, folded m_def] s' same_other_upd [of z L L] same_other_refl by blast
qed

lemma coalesce_stop:
  assumes r: "buddy_rel z N L F A s" and a: "(i, k) \<in> A" and b: "(i XOR 2 ^ k, k) \<notin> F"
  shows "coalesce z i k s = Some (i, k, s)"
  using page_is_buddy_iff [OF r, of i k] a b by (subst coalesce.simps) (simp add: Let_def)

lemma coalesce_correct:
  assumes "buddy_rel z N L F A s" "(i, k) \<in> A" "off_lists z L heads {(i, k)} s"
    "unref z (i, k) s" "(top_buddy i, MEMLEVEL - 1) \<notin> F" "abs_coalesce F i k = (F', i', k')"
  shows "\<exists>s' L'. coalesce z i k s = Some (i', k', s') \<and>
    buddy_rel z N L' F' (insert (i', k') (A - {(i, k)})) s' \<and>
    off_lists z L' heads {(i', k')} s' \<and> unref z (i', k') s' \<and> k' < MEMLEVEL \<and> (i', k') \<notin> A - {(i, k)} \<and>
    buddy_same z s s' \<and> p_ref s' = p_ref s \<and> z_free_pages (zone_of s' z) = z_free_pages (zone_of s z) \<and>
    same_other z L L'"
  using assms
proof (induction F i k arbitrary: A L s rule: abs_coalesce.induct)
  case (1 F i k)
  let ?j = "i XOR 2 ^ k" and ?m = "i AND (i XOR 2 ^ k)"
  note d = buddy_relD [OF "1.prems"(1)]
  have k: "k < MEMLEVEL" using tiling_aligned [OF d(3)] "1.prems"(2) by blast
  show ?case
  proof (cases "(?j, k) \<in> F")
    case False
    then have "F' = F" "i' = i" "k' = k"
      using "1.prems"(6) by (simp_all add: abs_coalesce.simps [of F i k])
    then show ?thesis
      using coalesce_stop [OF "1.prems"(1,2) False] "1.prems" k by (auto simp: insert_absorb)
  next
    case True
    obtain s1 L1 where s1: "coalesce z i k s = coalesce z ?m (Suc k) s1"
      "buddy_rel z N L1 (F - {(?j, k)}) (insert (?m, Suc k) (A - {(i, k)})) s1"
      "off_lists z L1 heads {(?m, Suc k)} s1" "unref z (?m, Suc k) s1" "top_buddy ?m = top_buddy i"
      "buddy_same z s s1" "p_ref s1 = p_ref s" "z_free_pages (zone_of s1 z) = z_free_pages (zone_of s z)"
      "same_other z L L1"
      using coalesce_step [OF "1.prems"(1-5) True] by blast
    have fresh: "(?m, Suc k) \<notin> A"
    proof
      assume "(?m, Suc k) \<in> A"
      moreover have "(?m, k) \<in> F \<union> A"
        using buddy_cases [of i k] tiling_aligned [OF d(3), of i k] "1.prems"(2) True by auto
      ultimately show False using tile_head_eq [OF d(3), of ?m k "Suc k"] by simp
    qed
    have A: "insert (?m, Suc k) (A - {(i, k)}) - {(?m, Suc k)} = A - {(i, k)}"
      using fresh by auto
    have ac: "abs_coalesce (F - {(?j, k)}) ?m (Suc k) = (F', i', k')"
      using "1.prems"(6) k True by (simp add: abs_coalesce.simps [of F i k])
    have "(top_buddy ?m, MEMLEVEL - 1) \<notin> F - {(?j, k)}" using "1.prems"(5) s1(5) by simp
    from "1.IH" [OF conjI [OF k True] s1(2) insertI1 s1(3,4) this ac]
    obtain s' L' where f: "coalesce z ?m (Suc k) s1 = Some (i', k', s')"
      "buddy_rel z N L' F' (insert (i', k') (A - {(i, k)})) s'" "off_lists z L' heads {(i', k')} s'"
      "unref z (i', k') s'" "k' < MEMLEVEL" "(i', k') \<notin> A - {(i, k)}" "buddy_same z s1 s'" "p_ref s' = p_ref s1"
      "z_free_pages (zone_of s' z) = z_free_pages (zone_of s1 z)" "same_other z L1 L'"
      unfolding A by blast
    show ?thesis
      using f s1(1,7,8) buddy_same_trans [OF s1(6) f(7)] same_other_trans [OF s1(9) f(10)] by auto
  qed
qed


lemma buddy_free_bulk_correct:
  assumes r: "buddy_rel z N L F A s" and a: "(i, k) \<in> A" and o: "off_lists z L heads {(i, k)} s"
    and u: "unref z (i, k) s" and top: "(top_buddy i, MEMLEVEL - 1) \<notin> F"
  shows "\<exists>s' L'. buddy_free_bulk (zbase s z + i) z k s = Some s' \<and>
    buddy_rel z N L' (abs_free F i k) (A - {(i, k)}) s' \<and> buddy_same z s s' \<and> p_ref s' = p_ref s \<and>
    z_free_pages (zone_of s' z) = z_free_pages (zone_of s z) + 2 ^ k \<and> same_other z L L'"
proof -
  obtain F' i' k' where ac: "abs_coalesce F i k = (F', i', k')" by (cases "abs_coalesce F i k")
  obtain s1 L1 where s1: "coalesce z i k s = Some (i', k', s1)"
    "buddy_rel z N L1 F' (insert (i', k') (A - {(i, k)})) s1" "off_lists z L1 heads {(i', k')} s1"
    "unref z (i', k') s1" "k' < MEMLEVEL" "buddy_same z s s1" "p_ref s1 = p_ref s"
    "(i', k') \<notin> A - {(i, k)}" "z_free_pages (zone_of s1 z) = z_free_pages (zone_of s z)" "same_other z L L1"
    using coalesce_correct [OF r a o u top ac] by blast
  note d1 = buddy_relD [OF s1(2)]
  let ?A = "A - {(i, k)}"
  have t: "tiling N (insert (i', k') F' \<union> ?A)"
    using d1(3) by (rule back_subst) auto
  have dis: "insert (i', k') F' \<inter> ?A = {}" "(i', k') \<notin> F'" using d1(4) s1(8) by auto
  have um: "used_marks z ?A s1" using d1(7) by (simp add: used_marks_def)
  let ?p = "zbase s1 z + i'"
  have base: "zbase s1 z = zbase s z" using s1(6) by (simp add: buddy_same_def)
  obtain h where h: "list_add (Lru ?p) (FreeList z k') (lh s1) = Some h"
    "buddy_rel z N (L1(FreeList z k' := Lru ?p # L1 (FreeList z k'))) (insert (i', k') F') ?A
       (set_private ?p k' (add_nr_free z k' 1 (s1\<lparr>lh := h\<rparr>)))"
    using put_block [OF s1(2,5) t dis um s1(3,4)] by blast
  define s2 where "s2 = set_private ?p k' (add_nr_free z k' 1 (s1\<lparr>lh := h\<rparr>))"
  have same: "buddy_same z s (add_free_pages z (2 ^ k) s2)" "p_ref (add_free_pages z (2 ^ k) s2) = p_ref s"
    "z_free_pages (zone_of (add_free_pages z (2 ^ k) s2) z) = z_free_pages (zone_of s z) + 2 ^ k"
    using s1(6,7,9) by (simp_all add: s2_def bupd buddy_same_def)
  have ex: "buddy_free_bulk (zbase s z + i) z k s = Some (add_free_pages z (2 ^ k) s2)"
    using s1(1,5) h(1) base by (simp add: buddy_free_bulk_def b_list_add_def s2_def bupd Let_def)
  show ?thesis
    using ex h(2) same s1(10) by (auto simp: abs_free_def ac s2_def [symmetric])
qed


section \<open>Maximal coalescing, and the round trip\<close>

text \<open>No two buddies below the highest order are both free.\<close>

definition no_free_buddies :: "(nat \<times> nat) set \<Rightarrow> bool" where
  "no_free_buddies F \<longleftrightarrow> (\<forall>i k. (i, k) \<in> F \<and> Suc k < MEMLEVEL \<longrightarrow> (i XOR 2 ^ k, k) \<notin> F)"

lemma abs_coalesce_result:
  "abs_coalesce F i k = (F', i', k') \<Longrightarrow> F' \<subseteq> F \<and> (k' < MEMLEVEL \<longrightarrow> (i' XOR 2 ^ k', k') \<notin> F')"
proof (induction F i k rule: abs_coalesce.induct)
  case (1 F i k)
  then show ?case by (cases "k < MEMLEVEL \<and> (i XOR 2 ^ k, k) \<in> F") (auto simp: abs_coalesce.simps [of F i k])
qed

lemma no_free_buddies_free:
  assumes "no_free_buddies F" shows "no_free_buddies (abs_free F i k)"
proof -
  obtain F' i' k' where ac: "abs_coalesce F i k = (F', i', k')" by (cases "abs_coalesce F i k")
  note r = abs_coalesce_result [OF ac]
  have x: "(a XOR 2 ^ b) XOR 2 ^ b = (a :: nat)" for a b by (simp add: xor.assoc)
  have y: "a XOR 2 ^ b \<noteq> (a :: nat)" for a b
  proof
    assume "a XOR 2 ^ b = a"
    then have "bit (a XOR 2 ^ b) b = bit a b" by simp
    then show False by (simp add: bit_xor_iff bit_exp_iff)
  qed
  show ?thesis
    unfolding no_free_buddies_def abs_free_def ac split_conv
  proof (intro allI impI)
    fix a b assume ab: "(a, b) \<in> insert (i', k') F' \<and> Suc b < MEMLEVEL"
    show "(a XOR 2 ^ b, b) \<notin> insert (i', k') F'"
    proof (cases "(a, b) = (i', k')")
      case True
      then show ?thesis using r y ab by auto
    next
      case False
      then have "(a, b) \<in> F'" using ab by blast
      then show ?thesis
        using r ab assms x [of a b] by (fastforce simp: no_free_buddies_def)
    qed
  qed
qed

lemma xor_aligned: "aligned (i, c) \<Longrightarrow> m < c \<Longrightarrow> i XOR 2 ^ m = i + 2 ^ m \<and> i AND (i + 2 ^ m) = i"
proof -
  assume al: "aligned (i, c)" and m: "m < c"
  have "2 ^ Suc m dvd i"
    using al m le_imp_power_dvd [of "Suc m" c "2 :: nat"] by (auto simp: aligned_def intro: dvd_trans)
  moreover have "aligned (i, m)" using \<open>2 ^ Suc m dvd i\<close> by (auto simp: aligned_def intro: dvd_trans [of "2 ^ m" "2 ^ Suc m"])
  moreover have "\<not> (2 ^ Suc m dvd i XOR 2 ^ m \<and> i = (i XOR 2 ^ m) + 2 ^ m)"
    using \<open>2 ^ Suc m dvd i\<close> dvd_add_right_iff [of "2 ^ Suc m" "i XOR 2 ^ m" "2 ^ m"] by (auto dest: power_dvd_imp_le)
  ultimately show ?thesis using buddy_cases [of i m] by auto
qed

lemma abs_free_upper_halves:
  assumes "aligned (i, c)" "c < MEMLEVEL" "order \<le> c" "(i XOR 2 ^ c, c) \<notin> F"
    and "\<forall>m. order \<le> m \<and> m < c \<longrightarrow> (i + 2 ^ m, m) \<notin> F"
  shows "abs_coalesce (F \<union> upper_halves i order c) i order = (F, i, c)"
  using assms(3,5)
proof (induction "c - order" arbitrary: order)
  case 0
  then show ?case using assms(4) by (subst abs_coalesce.simps) simp
next
  case (Suc x)
  then have lt: "order < c" by simp
  note xa = xor_aligned [OF assms(1) lt]
  have in_up: "(i + 2 ^ order, order) \<in> upper_halves i order c" using lt by (auto simp: upper_halves_def)
  have "F \<union> upper_halves i order c - {(i + 2 ^ order, order)} = F \<union> upper_halves i (Suc order) c"
    using Suc.prems lt by (auto simp: upper_halves_def Suc_le_eq order.order_iff_strict)
  then show ?case
    using Suc.hyps(1) [of "Suc order"] Suc.hyps(2) Suc.prems lt in_up xa assms(2)
    by (subst abs_coalesce.simps) simp
qed

lemma no_free_buddies_alloc:
  assumes n: "no_free_buddies F" and t: "tiling N (F - {(i, c)} \<union> upper_halves i order c \<union> insert (i, order) A)"
    and al: "aligned (i, c)" and d: "(F - {(i, c)} \<union> upper_halves i order c) \<inter> insert (i, order) A = {}"
  shows "no_free_buddies (F - {(i, c)} \<union> upper_halves i order c)" (is "no_free_buddies ?F")
proof -
  have i: "(i, m) \<notin> ?F" for m
    using tile_head_eq [OF t, of i m order] d by auto
  have up: "(i + 2 ^ m) XOR 2 ^ m = i" if "m < c" for m
    by (simp add: xor.assoc flip: xor_aligned [OF al that, THEN conjunct1])
  show ?thesis
    unfolding no_free_buddies_def
  proof (intro allI impI notI)
    fix a b assume a: "(a, b) \<in> ?F \<and> Suc b < MEMLEVEL" and x: "(a XOR 2 ^ b, b) \<in> ?F"
    consider "(a, b) \<in> upper_halves i order c" | "(a XOR 2 ^ b, b) \<in> upper_halves i order c"
      | "(a, b) \<in> F" "(a XOR 2 ^ b, b) \<in> F" using a x by blast
    then show False
    proof cases
      case 1
      then have "a XOR 2 ^ b = i" using up by (auto simp: upper_halves_def)
      then show False using x i [of b] by simp
    next
      case 2
      then have "(a XOR 2 ^ b) XOR 2 ^ b = i" using up by (auto simp: upper_halves_def)
      then have "a = i" by (simp add: xor.assoc)
      then show False using a i [of b] by simp
    next
      case 3
      then show False using n a by (auto simp: no_free_buddies_def)
    qed
  qed
qed


text \<open>Freeing what \<^verbatim>\<open>__rmqueue\<close> has just handed out restores the set of free blocks.\<close>

lemma alloc_free_blocks:
  assumes t: "tiling N (F \<union> A)" and b: "(i, c) \<in> F" "order \<le> c" and n: "no_free_buddies F"
    and top: "(top_buddy i, MEMLEVEL - 1) \<notin> F"
  shows "abs_free (F - {(i, c)} \<union> upper_halves i order c) i order = F"
proof -
  have al: "aligned (i, c)" "c < MEMLEVEL" using tiling_aligned [OF t] b by auto
  have "(i XOR 2 ^ c, c) \<notin> F"
  proof (cases "Suc c < MEMLEVEL")
    case True
    then show ?thesis using n b by (auto simp: no_free_buddies_def)
  next
    case False
    then have "c = MEMLEVEL - 1" using al(2) by simp
    then show ?thesis using top top_buddy_self al(1) by simp
  qed
  moreover have "(i + 2 ^ m, m) \<notin> F" if "m < c" for m
  proof
    assume f: "(i + 2 ^ m, m) \<in> F"
    have "i + 2 ^ m \<in> blk (i, c)" using that by (simp add: blk_def)
    then have "(i + 2 ^ m, m) = (i, c)" using tiling_disjoint [OF t, of "(i + 2 ^ m, m)" "(i, c)" "i + 2 ^ m"] f b by simp
    then show False by simp
  qed
  ultimately have "abs_coalesce (F - {(i, c)} \<union> upper_halves i order c) i order = (F - {(i, c)}, i, c)"
    by (intro abs_free_upper_halves al b) auto
  then show ?thesis using b by (auto simp: abs_free_def)
qed

section \<open>The page caches of a zone\<close>

text \<open>Every page in a cache is a block of order 0 in use, and \<^verbatim>\<open>count\<close> is the length of the list.\<close>

definition pcp_rel :: "nat \<Rightarrow> (bnode \<Rightarrow> bnode list) \<Rightarrow> (nat \<times> nat) set \<Rightarrow> bstate \<Rightarrow> bool" where
  "pcp_rel z L A s \<longleftrightarrow> (\<forall>c<2. pcount (z_pageset (zone_of s z) c) = of_nat (length (L (PcpList z c))) \<and>
     set (L (PcpList z c)) \<subseteq> (\<lambda>i. Lru (zbase s z + i)) ` {i. (i, 0) \<in> A})"

text \<open>A page of a cache leaves its list.\<close>

lemma buddy_rel_del_other:
  assumes r: "buddy_rel z N L F A s" and a: "a \<in> heads" "a \<notin> range (FreeList z)" and n: "n \<in> set (L a)"
  shows "\<exists>h. list_del n (lh s) = Some h \<and> buddy_rel z N (L(a := remove1 n (L a))) F A (s\<lparr>lh := h\<rparr>)"
proof -
  note d = buddy_relD [OF r]
  obtain h where h: "list_del n (lh s) = Some h" "lists_on heads (L(a := remove1 n (L a))) h"
    using kl.del_remove1 [OF d(2) a(1) n] by blast
  have "a \<noteq> FreeList z m" for m using a(2) by auto
  then have fl: "free_lists z (L(a := remove1 n (L a))) F (s\<lparr>lh := h\<rparr>)"
    using d(5) by (auto simp: free_lists_def)
  have "off_lists z (L(a := remove1 n (L a))) (heads - range (FreeList z)) F (s\<lparr>lh := h\<rparr>)"
    by (rule off_lists_mono [OF d(8)]) (simp_all add: set_remove1_subset)
  then have "buddy_rel z N (L(a := remove1 n (L a))) F A (s\<lparr>lh := h\<rparr>)"
    using d h(2) fl by (simp add: buddy_rel_def free_marks_def unref_def used_marks_def fence_def)
  with h(1) show ?thesis by blast
qed

text \<open>A page in use that is on no list goes to a list other than the free lists of the zone.\<close>

lemma buddy_rel_add_other:
  assumes r: "buddy_rel z N L F A s" and a: "a \<in> heads" "a \<notin> range (FreeList z)"
    and i: "i \<in> blk b" "b \<in> A" and o: "off_lists z L heads {b} s"
  shows "\<exists>h. list_add (Lru (zbase s z + i)) a (lh s) = Some h \<and>
    buddy_rel z N (L(a := Lru (zbase s z + i) # L a)) F A (s\<lparr>lh := h\<rparr>)"
proof -
  note d = buddy_relD [OF r]
  let ?n = "Lru (zbase s z + i)"
  have "?n \<notin> nodes_of heads L"
    using o i by (auto simp: off_lists_def nodes_of_def)
  then obtain h where h: "list_add ?n a (lh s) = Some h" "lists_on heads (L(a := ?n # L a)) h"
    using kl.add_front [OF d(2) a(1) Lru_heads] by blast
  have "a \<noteq> FreeList z m" for m using a(2) by auto
  then have fl: "free_lists z (L(a := ?n # L a)) F (s\<lparr>lh := h\<rparr>)"
    using d(5) by (auto simp: free_lists_def)
  have "i \<notin> blk c" if "c \<in> F" for c
    using tiling_disjoint [OF d(3), of b c i] i that d(4) by auto
  then have "off_lists z (L(a := ?n # L a)) (heads - range (FreeList z)) F (s\<lparr>lh := h\<rparr>)"
    using d(8) by (auto simp: off_lists_def)
  then have "buddy_rel z N (L(a := ?n # L a)) F A (s\<lparr>lh := h\<rparr>)"
    using d h(2) fl by (simp add: buddy_rel_def free_marks_def unref_def used_marks_def fence_def)
  with h(1) show ?thesis by blast
qed

lemma buddy_rel_set_ref0:
  assumes r: "buddy_rel z N L F A s" and i: "i < N"
  shows "buddy_rel z N L F A (set_ref (zbase s z + i) 0 s)"
proof -
  note d = buddy_relD [OF r]
  let ?s = "set_ref (zbase s z + i) 0 s"
  have [simp]: "zone_of ?s = zone_of s" "p_private ?s = p_private s" "lh ?s = lh s"
    "p_ref ?s q = (if q = zbase s z + i then 0 else p_ref s q)" for q
    by (simp_all add: bupd)
  have "fence z N ?s"
    by (rule fence_cong [OF d(9)]) (use i in auto)
  moreover have "free_marks z F ?s"
    using d(6) unfolding free_marks_def unref_def by simp
  ultimately show ?thesis
    using d by (simp add: buddy_rel_def free_lists_def used_marks_def off_lists_def)
qed

end
