(* ===== verification/Buddy_Pcp.thy ===== *)
theory Buddy_Pcp
  imports Buddy_Inv
begin

text \<open>
  The hot and cold page caches of a zone and the page-wise operations above the buddy
  system: \<^verbatim>\<open>free_pages_bulk\<close>, \<^verbatim>\<open>free_hot_cold_page\<close>, \<^verbatim>\<open>buffered_rmqueue\<close>.
\<close>

text \<open>
  Blocks that stay in use.  The coalescing loop runs past the last free list when both blocks
  of the highest order in an aligned pair are free; a set \<open>P\<close> of blocks that are never
  freed excludes that when every block of the highest order has a page in \<open>P\<close> or
  outside the zone.
\<close>

definition pinned :: "nat \<Rightarrow> (nat \<times> nat) set \<Rightarrow> bool" where
  "pinned N P \<longleftrightarrow> (\<forall>i<N. \<exists>x\<in>blk (top_buddy i, MEMLEVEL - 1). N \<le> x \<or> (\<exists>b\<in>P. x \<in> blk b))"

lemma pinned_top:
  assumes p: "pinned N P" and P: "P \<subseteq> A" and r: "buddy_rel z N L F A s" and i: "i < N"
  shows "(top_buddy i, MEMLEVEL - 1) \<notin> F"
proof
  let ?b = "(top_buddy i, MEMLEVEL - 1)"
  note d = buddy_relD [OF r]
  assume F: "?b \<in> F"
  then have sub: "blk ?b \<subseteq> {..<N}" using tiling_sub [OF d(3)] by blast
  obtain x where x: "x \<in> blk ?b" "N \<le> x \<or> (\<exists>b\<in>P. x \<in> blk b)"
    using p i by (auto simp: pinned_def)
  with sub obtain b where "b \<in> P" "x \<in> blk b" by auto
  then have "b = ?b" using tiling_disjoint [OF d(3), of b ?b x] P F x(1) by blast
  then show False using \<open>b \<in> P\<close> P F d(4) by blast
qed

lemma not_FreeList [simp]: "PcpList z c \<notin> range (FreeList y)" "ReservedList z \<notin> range (FreeList y)"
  by auto

lemma mem_remove1_other: "lists_on H L h \<Longrightarrow> a \<in> H \<Longrightarrow> n \<in> set (L a) \<Longrightarrow> g \<in> H \<Longrightarrow>
    n \<notin> set ((L(a := remove1 n (L a))) g)"
  by (cases "g = a") (simp add: lists_on_distinct [of H L h a, simplified], metis fun_upd_apply lists_on_unique)

text \<open>One round of \<^verbatim>\<open>free_pages_bulk\<close>: a cached page goes back to the buddy system.\<close>

lemma free_cached_page:
  assumes r: "buddy_rel z N L F A s" and c: "c < 2" and Lc: "L (PcpList z c) = xs @ [Lru (zbase s z + i)]"
    and iA: "(i, 0) \<in> A" "(i, 0) \<notin> P" and P: "pinned N P" "P \<subseteq> A"
  defines "p \<equiv> zbase s z + i"
  shows "\<exists>s' L' s1. lprev (lh s) (PcpList z c) = Some (Lru p) \<and> b_list_del (Lru p) s = Some s1 \<and>
    buddy_free_bulk p z 0 (set_ref p 0 s1) = Some s' \<and>
    buddy_rel z N L' (abs_free F i 0) (A - {(i, 0)}) s' \<and> L' (PcpList z c) = xs \<and>
    same_other z (L(PcpList z c := xs)) L' \<and> buddy_same z s s' \<and>
    z_free_pages (zone_of s' z) = z_free_pages (zone_of s z) + 1"
proof -
  note d = buddy_relD [OF r]
  let ?a = "PcpList z c"
  have a: "?a \<in> heads" "?a \<notin> range (FreeList z)" using c d(1) by auto
  have pin: "Lru p \<in> set (L ?a)" by (simp add: Lc p_def)
  have prev: "lprev (lh s) ?a = Some (Lru p)"
    using kl.prev_head [OF d(2) a(1)] by (simp add: Lc p_def)
  have "distinct (L ?a)" by (rule kl.invar_distinct [OF d(2) a(1)])
  then have xs: "remove1 (Lru p) (L ?a) = xs" by (simp add: Lc p_def)
  obtain h where h: "list_del (Lru p) (lh s) = Some h" "buddy_rel z N (L(?a := xs)) F A (s\<lparr>lh := h\<rparr>)"
    using buddy_rel_del_other [OF r a pin] by (auto simp: xs)
  let ?s1 = "set_ref p 0 (s\<lparr>lh := h\<rparr>)"
  have i: "i < N" using tile_head_less [OF d(3)] iA by blast
  have r1: "buddy_rel z N (L(?a := xs)) F A ?s1"
    using buddy_rel_set_ref0 [OF h(2) i] by (simp add: p_def)
  have base: "zbase ?s1 z = zbase s z" by (simp add: bupd)
  then have pb: "zbase ?s1 z + i = p" by (simp add: p_def)
  have "Lru p \<notin> set ((L(?a := xs)) g)" if "g \<in> heads" for g
    using mem_remove1_other [OF d(2) a(1) pin that] by (simp add: xs)
  then have o1: "off_lists z (L(?a := xs)) heads {(i, 0)} ?s1"
    unfolding off_lists_def base by (simp add: blk_def p_def)
  have u1: "unref z (i, 0) ?s1" by (simp add: unref_def blk_def bupd p_def)
  have top: "(top_buddy i, MEMLEVEL - 1) \<notin> F" by (rule pinned_top [OF P r i])
  obtain s' L' where s': "buddy_free_bulk p z 0 ?s1 = Some s'"
    "buddy_rel z N L' (abs_free F i 0) (A - {(i, 0)}) s'" "buddy_same z ?s1 s'"
    "z_free_pages (zone_of s' z) = z_free_pages (zone_of ?s1 z) + 1" "same_other z (L(?a := xs)) L'"
    using buddy_free_bulk_correct [OF r1 iA(1) o1 u1 top] unfolding pb power_0 by blast
  have "buddy_same z s ?s1" by (simp add: buddy_same_def bupd)
  then have same: "buddy_same z s s'" using s'(3) by (rule buddy_same_trans)
  have "L' ?a = xs" using s'(5) a(2) by (simp add: same_other_def)
  moreover have "b_list_del (Lru p) s = Some (s\<lparr>lh := h\<rparr>)" by (simp add: b_list_del_def h(1))
  moreover have "z_free_pages (zone_of s' z) = z_free_pages (zone_of s z) + 1"
    using s'(4) by (simp add: bupd)
  ultimately show ?thesis using prev s'(1,2,5) same by blast
qed

text \<open>The whole loop: the last pages of the cache, from the tail, are freed in turn.\<close>

definition abs_free_list :: "nat list \<Rightarrow> (nat \<times> nat) set \<Rightarrow> (nat \<times> nat) set" where
  "abs_free_list is F = fold (\<lambda>i F. abs_free F i 0) is F"

definition pages0 :: "nat list \<Rightarrow> (nat \<times> nat) set" where
  "pages0 is = (\<lambda>i. (i, 0)) ` set is"

abbreviation lrus :: "bstate \<Rightarrow> nat \<Rightarrow> nat list \<Rightarrow> bnode list" where
  "lrus s z is \<equiv> map (\<lambda>i. Lru (zbase s z + i)) is"

lemma free_pages_loop_correct:
  assumes "buddy_rel z N L F A s" "c < 2" "L (PcpList z c) = xs @ rev (lrus s z is)" "pages0 is \<subseteq> A"
    "pages0 is \<inter> P = {}" "pinned N P" "P \<subseteq> A"
  shows "\<exists>s' L'. free_pages_loop (length is) z (PcpList z c) s = Some s' \<and>
    buddy_rel z N L' (abs_free_list is F) (A - pages0 is) s' \<and>
    same_other z (L(PcpList z c := xs)) L' \<and> buddy_same z s s' \<and>
    z_free_pages (zone_of s' z) = z_free_pages (zone_of s z) + int (length is)"
  using assms
proof (induction "is" arbitrary: s L F A)
  case Nil
  then have "L(PcpList z c := xs) = L" by auto
  with Nil show ?case by (auto simp: abs_free_list_def pages0_def)
next
  case (Cons i "is")
  have iA: "(i, 0) \<in> A" "(i, 0) \<notin> P" "pages0 is \<subseteq> A" "pages0 is \<inter> P = {}"
    using Cons.prems(4,5) by (auto simp: pages0_def)
  have "L (PcpList z c) = (xs @ rev (lrus s z is)) @ [Lru (zbase s z + i)]" using Cons.prems(3) by simp
  from free_cached_page [OF Cons.prems(1,2) this iA(1,2) Cons.prems(6,7)]
  obtain s1 L1 s0 where s1: "lprev (lh s) (PcpList z c) = Some (Lru (zbase s z + i))"
    "b_list_del (Lru (zbase s z + i)) s = Some s0"
    "buddy_free_bulk (zbase s z + i) z 0 (set_ref (zbase s z + i) 0 s0) = Some s1"
    "buddy_rel z N L1 (abs_free F i 0) (A - {(i, 0)}) s1" "L1 (PcpList z c) = xs @ rev (lrus s z is)"
    "same_other z (L(PcpList z c := xs @ rev (lrus s z is))) L1" "buddy_same z s s1"
    "z_free_pages (zone_of s1 z) = z_free_pages (zone_of s z) + 1"
    by blast
  have base: "zbase s1 z = zbase s z" using s1(7) by (simp add: buddy_same_def)
  have a: "PcpList z c \<in> heads" using Cons.prems(2) buddy_relD(1) [OF Cons.prems(1)] by simp
  have "distinct (L (PcpList z c))" by (rule kl.invar_distinct [OF buddy_relD(2) [OF Cons.prems(1)] a])
  then have "i \<notin> set is" unfolding Cons.prems(3) by auto
  then have sub: "pages0 is \<subseteq> A - {(i, 0)}" using iA(3) by (auto simp: pages0_def)
  have P: "P \<subseteq> A - {(i, 0)}" using Cons.prems(7) iA(2) by auto
  obtain s' L' where s': "free_pages_loop (length is) z (PcpList z c) s1 = Some s'"
    "buddy_rel z N L' (abs_free_list is (abs_free F i 0)) (A - {(i, 0)} - pages0 is) s'"
    "same_other z (L1(PcpList z c := xs)) L'" "buddy_same z s1 s'"
    "z_free_pages (zone_of s' z) = z_free_pages (zone_of s1 z) + int (length is)"
    using Cons.IH [OF s1(4) Cons.prems(2) s1(5) [folded base] sub iA(4) Cons.prems(6) P] by blast
  have "same_other z (L(PcpList z c := xs)) (L1(PcpList z c := xs))"
    using s1(6) by (auto simp: same_other_def)
  then have so: "same_other z (L(PcpList z c := xs)) L'" using s'(3) by (rule same_other_trans)
  have "A - {(i, 0)} - pages0 is = A - pages0 (i # is)" by (auto simp: pages0_def)
  then have r': "buddy_rel z N L' (abs_free_list (i # is) F) (A - pages0 (i # is)) s'"
    using s'(2) by (simp add: abs_free_list_def)
  have run: "free_pages_loop (length (i # is)) z (PcpList z c) s = Some s'"
    by (simp add: s1(1-3) s'(1) del: bind_Some_iff)
  have "z_free_pages (zone_of s' z) = z_free_pages (zone_of s z) + int (length (i # is))"
    using s1(8) s'(5) by simp
  then show ?case
    using run r' so buddy_same_trans [OF s1(7) s'(4)] by blast
qed

section \<open>The invariant of the caches\<close>

text \<open>\<open>cache_inv z N P L F A C s\<close>: besides \<open>buddy_rel\<close>, the cache \<open>c\<close> of the zone holds the
  pages \<open>C c\<close> (relative indices, in list order), all of them blocks of order 0 in use and not
  pinned, and \<^verbatim>\<open>count\<close> is their number.\<close>

definition cache_inv :: "nat \<Rightarrow> nat \<Rightarrow> (nat \<times> nat) set \<Rightarrow> (bnode \<Rightarrow> bnode list) \<Rightarrow> (nat \<times> nat) set \<Rightarrow>
    (nat \<times> nat) set \<Rightarrow> (nat \<Rightarrow> nat list) \<Rightarrow> bstate \<Rightarrow> bool" where
  "cache_inv z N P L F A C s \<longleftrightarrow> buddy_rel z N L F A s \<and> pinned N P \<and> P \<subseteq> A \<and> N < 2 ^ 32 \<and>
     (\<forall>c<2. L (PcpList z c) = lrus s z (C c) \<and> pages0 (C c) \<subseteq> A \<and> pages0 (C c) \<inter> P = {} \<and>
        pcount (z_pageset (zone_of s z) c) = of_nat (length (C c)) \<and>
        plow (z_pageset (zone_of s z) c) \<le> phigh (z_pageset (zone_of s z) c))"

lemma cache_invD:
  assumes "cache_inv z N P L F A C s"
  shows "buddy_rel z N L F A s" "pinned N P" "P \<subseteq> A" "N < 2 ^ 32"
    and "c < 2 \<Longrightarrow> L (PcpList z c) = lrus s z (C c)" "c < 2 \<Longrightarrow> pages0 (C c) \<subseteq> A"
    and "c < 2 \<Longrightarrow> pages0 (C c) \<inter> P = {}"
    and "c < 2 \<Longrightarrow> pcount (z_pageset (zone_of s z) c) = of_nat (length (C c))"
    and "c < 2 \<Longrightarrow> plow (z_pageset (zone_of s z) c) \<le> phigh (z_pageset (zone_of s z) c)"
  using assms by (simp_all add: cache_inv_def)

lemma cache_length:
  assumes ci: "cache_inv z N P L F A C s" and c: "c < 2"
  shows "length (C c) < 2 ^ 32" and "unat (pcount (z_pageset (zone_of s z) c)) = length (C c)"
    and "distinct (C c)" and "length (C c) \<le> N"
proof -
  note d = cache_invD [OF ci]
  note b = buddy_relD [OF d(1)]
  have "PcpList z c \<in> heads" using c b(1) by simp
  then have "distinct (lrus s z (C c))" using kl.invar_distinct [OF b(2)] d(5) [OF c] by metis
  then show dis: "distinct (C c)" by (simp add: distinct_map)
  have "set (C c) \<subseteq> {..<N}"
  proof
    fix i assume "i \<in> set (C c)"
    then have "(i, 0) \<in> F \<union> A" using d(6) [OF c] by (auto simp: pages0_def)
    then show "i \<in> {..<N}" using tile_head_less [OF b(3)] by blast
  qed
  then have "card (set (C c)) \<le> N" using card_mono [of "{..<N}"] by simp
  then show lN: "length (C c) \<le> N" using distinct_card [OF dis] by simp
  then show l: "length (C c) < 2 ^ 32" using d(4) by simp
  show "unat (pcount (z_pageset (zone_of s z) c)) = length (C c)"
    using d(8) [OF c] l by (simp add: unat_of_nat take_bit_nat_eq_self_iff)
qed

lemma free_bulk_times_eq: "free_bulk_times n z l s = free_pages_loop n z l s"
  by (induction n arbitrary: s) (simp_all add: free_pages_bulk_def)

text \<open>Locks, wake-ups and the \<^verbatim>\<open>batch\<close> field are invisible to the invariants.\<close>

lemma buddy_rel_lock [simp]:
  "buddy_rel z N L F A (upd_zone z' (\<lambda>r. r\<lparr>z_locked := b\<rparr>) s) = buddy_rel z N L F A s"
  by (rule buddy_rel_cong; simp add: bupd)

lemma pageset_sel [simp]:
  "zbase (upd_pageset z' c f s) z = zbase s z"
  "z_pageset (zone_of (upd_pageset z' c f s) z) x =
     (if z = z' \<and> x = c then f (z_pageset (zone_of s z) x) else z_pageset (zone_of s z) x)"
  by (simp_all add: bupd)

lemma cache_inv_cong:
  assumes "buddy_rel z N L F A s' = buddy_rel z N L F A s" "zbase s' z = zbase s z"
    "\<And>c. c < 2 \<Longrightarrow> pcount (z_pageset (zone_of s' z) c) = pcount (z_pageset (zone_of s z) c)"
    "\<And>c. c < 2 \<Longrightarrow> plow (z_pageset (zone_of s' z) c) = plow (z_pageset (zone_of s z) c)"
    "\<And>c. c < 2 \<Longrightarrow> phigh (z_pageset (zone_of s' z) c) = phigh (z_pageset (zone_of s z) c)"
  shows "cache_inv z N P L F A C s' = cache_inv z N P L F A C s"
  using assms by (simp add: cache_inv_def)

lemma cache_inv_lock [simp]: "cache_inv z N P L F A C (upd_zone z' (\<lambda>r. r\<lparr>z_locked := b\<rparr>) s) = cache_inv z N P L F A C s"
  by (rule cache_inv_cong, simp) (simp_all add: bupd zero_pages_def)

lemma cache_inv_wakeup [simp]: "cache_inv z N P L F A C (zone_wakeup z' s) = cache_inv z N P L F A C s"
  by (rule cache_inv_cong, simp) (simp_all add: bupd zero_pages_def)

lemma cache_inv_zero [simp]: "cache_inv z N P L F A C (zero_pages n q s) = cache_inv z N P L F A C s"
  by (rule cache_inv_cong, simp) (simp_all add: bupd zero_pages_def)

lemma cache_inv_batch [simp]: "cache_inv z N P L F A C (upd_pageset z' c (\<lambda>r. r\<lparr>pbatch := v\<rparr>) s) = cache_inv z N P L F A C s"
  by (rule cache_inv_cong, simp) (simp_all add: bupd zero_pages_def)

text \<open>The buddy part may change as long as the cached pages stay in use.\<close>

lemma cache_inv_buddy:
  assumes ci: "cache_inv z N P L F A C s" and r: "buddy_rel z N L' F' A' s'" and same: "buddy_same z s s'"
    and so: "same_other z L L'" and A: "P \<subseteq> A'" "\<And>c. c < 2 \<Longrightarrow> pages0 (C c) \<subseteq> A'"
  shows "cache_inv z N P L' F' A' C s'"
proof -
  have "L' (PcpList z c) = L (PcpList z c)" for c using so by (auto simp: same_other_def)
  then show ?thesis using ci r same A by (simp add: cache_inv_def buddy_same_def)
qed

text \<open>The first page of a block in use is on no free list.\<close>

lemma off_lists_used:
  assumes r: "buddy_rel z N L F A s" and i: "(i, 0) \<in> A"
    and o: "off_lists z L (heads - range (FreeList z)) {(i, 0)} s"
  shows "off_lists z L heads {(i, 0)} s"
proof -
  note d = buddy_relD [OF r]
  have "Lru (zbase s z + i) \<notin> set (L (FreeList z m))" if "m < MEMLEVEL" for m
  proof
    assume "Lru (zbase s z + i) \<in> set (L (FreeList z m))"
    then have F: "(i, m) \<in> F" using free_list_node [OF d(5) that, of "Lru (zbase s z + i)"] by auto
    then have "m = 0" using tile_head_eq [OF d(3)] i by blast
    with F i d(4) show False by blast
  qed
  then show ?thesis using o by (auto simp: off_lists_def blk_def)
qed

section \<open>Freeing a page\<close>

text \<open>When a cache is above its high mark, its last pages go back to the buddy system.\<close>

lemma cache_drain:
  assumes ci: "cache_inv z N P L F A C s" and c: "c < 2" and n: "n \<le> length (C c)" and n32: "of_nat n = b"
  defines "keep \<equiv> take (length (C c) - n) (C c)" and "gone \<equiv> rev (drop (length (C c) - n) (C c))"
  shows "\<exists>s' L'. free_pages_loop n z (PcpList z c) s = Some s' \<and> buddy_same z s s' \<and>
    cache_inv z N P L' (abs_free_list gone F) (A - pages0 gone) (C(c := keep))
      (upd_pageset z c (\<lambda>r. r\<lparr>pcount := pcount r - b, pbatch := 0\<rparr>) s') \<and>
    same_other z (L(PcpList z c := lrus s z keep)) L' \<and>
    z_free_pages (zone_of s' z) = z_free_pages (zone_of s z) + int n"
proof -
  note d = cache_invD [OF ci]
  have split: "C c = keep @ rev gone" by (simp add: keep_def gone_def)
  have Lc: "L (PcpList z c) = lrus s z keep @ rev (lrus s z gone)"
    using d(5) [OF c] split by (simp add: rev_map)
  have ga: "pages0 gone \<subseteq> A" "pages0 gone \<inter> P = {}" "pages0 keep \<subseteq> A" "pages0 keep \<inter> P = {}"
    using d(6,7) [OF c] unfolding split by (auto simp: pages0_def)
  have len: "length gone = n" using n by (simp add: gone_def)
  obtain s' L' where s': "free_pages_loop n z (PcpList z c) s = Some s'"
    "buddy_rel z N L' (abs_free_list gone F) (A - pages0 gone) s'"
    "same_other z (L(PcpList z c := lrus s z keep)) L'" "buddy_same z s s'"
    "z_free_pages (zone_of s' z) = z_free_pages (zone_of s z) + int n"
    using free_pages_loop_correct [OF d(1) c Lc ga(1,2) d(2,3)] unfolding len by blast
  have own: "distinct (C c)" by (rule cache_length [OF ci c])
  have PcpL: "L' (PcpList z x) = (if x = c then lrus s z keep else L (PcpList z x))" for x
    using s'(3) by (simp add: same_other_def)
  have other: "pages0 (C x) \<inter> pages0 gone = {}" if x: "x < 2" "x \<noteq> c" for x
  proof -
    have "PcpList z c \<in> heads" "PcpList z x \<in> heads" using c x buddy_relD(1) [OF d(1)] by auto
    then have "set (L (PcpList z c)) \<inter> set (L (PcpList z x)) = {}"
      using lists_on_disjoint [OF buddy_relD(2) [OF d(1)], of "PcpList z c" "PcpList z x"] x by auto
    then show ?thesis unfolding Lc d(5) [OF x(1)] by (auto simp: pages0_def)
  qed
  have "pages0 keep \<inter> pages0 gone = {}" using own unfolding split by (auto simp: pages0_def)
  then have stay: "pages0 ((C(c := keep)) x) \<subseteq> A - pages0 gone" if "x < 2" for x
    using other [OF that] d(6) [OF that] ga(3) by (cases "x = c") auto
  have cnt: "pcount (z_pageset (zone_of s z) c) - b = of_nat (length keep)"
    using d(8) [OF c] n n32 by (simp add: keep_def of_nat_diff)
  have "zbase s' z = zbase s z" "z_pageset (zone_of s' z) = z_pageset (zone_of s z)"
    using s'(4) by (simp_all add: buddy_same_def)
  then have "cache_inv z N P L' (abs_free_list gone F) (A - pages0 gone) (C(c := keep))
      (upd_pageset z c (\<lambda>r. r\<lparr>pcount := pcount r - b, pbatch := 0\<rparr>) s')"
    unfolding cache_inv_def
    using s'(2) d(2,3,4) ga(2,4) stay PcpL d(5,7,8,9) cnt
    by (intro conjI allI impI) auto
  then show ?thesis using s'(1,3,4,5) by blast
qed

lemma cache_put:
  assumes ci: "cache_inv z N P L F A C s" and c: "c < 2" and i: "(i, 0) \<in> A" "(i, 0) \<notin> P"
    and o: "off_lists z L heads {(i, 0)} s"
  defines "p \<equiv> zbase s z + i"
  shows "\<exists>s'. b_list_add (Lru p) (PcpList z c) s = Some s' \<and> (\<exists>h. s' = s\<lparr>lh := h\<rparr>) \<and>
    cache_inv z N P (L(PcpList z c := Lru p # L (PcpList z c))) F A (C(c := i # C c))
      (upd_pageset z c (\<lambda>r. r\<lparr>pcount := pcount r + 1\<rparr>) s')"
proof -
  note d = cache_invD [OF ci]
  have a: "PcpList z c \<in> heads" using c buddy_relD(1) [OF d(1)] by simp
  obtain h where h: "list_add (Lru p) (PcpList z c) (lh s) = Some h"
    "buddy_rel z N (L(PcpList z c := Lru p # L (PcpList z c))) F A (s\<lparr>lh := h\<rparr>)"
    using buddy_rel_add_other [OF d(1) a not_FreeList(1) blk_head i(1) o] unfolding p_def by blast
  have "cache_inv z N P (L(PcpList z c := Lru p # L (PcpList z c))) F A (C(c := i # C c))
      (upd_pageset z c (\<lambda>r. r\<lparr>pcount := pcount r + 1\<rparr>) (s\<lparr>lh := h\<rparr>))"
    unfolding cache_inv_def
    using h(2) d(2-9) i c by (intro conjI allI impI) (auto simp: p_def pages0_def)
  then show ?thesis using h(1) by (auto simp: b_list_add_def)
qed

text \<open>Which pages leave the cache \<open>c\<close> when a page is freed into it.\<close>

definition drained :: "nat \<Rightarrow> nat \<Rightarrow> (nat \<Rightarrow> nat list) \<Rightarrow> bstate \<Rightarrow> nat list" where
  "drained z c C s = (let r = z_pageset (zone_of s z) c; n = unat ((phigh r - plow r) div 2 + plow r) in
     if phigh r < pcount r then rev (drop (length (C c) - n) (C c)) else [])"

definition kept :: "nat \<Rightarrow> nat \<Rightarrow> (nat \<Rightarrow> nat list) \<Rightarrow> bstate \<Rightarrow> nat list" where
  "kept z c C s = (let r = z_pageset (zone_of s z) c; n = unat ((phigh r - plow r) div 2 + plow r) in
     if phigh r < pcount r then take (length (C c) - n) (C c) else C c)"

lemma batch_le:
  fixes l h :: u32 assumes "l \<le> h" shows "(h - l) div 2 + l \<le> h"
proof -
  have "unat ((h - l) div 2) \<le> unat (h - l)" by (simp add: unat_div)
  moreover have "unat (h - l) = unat h - unat l" using assms by (simp add: unat_sub)
  moreover have "unat l \<le> unat h" "unat h < 2 ^ 32"
    using assms unsigned_less [of h] by (simp_all add: word_le_nat_alt)
  ultimately have "unat ((h - l) div 2 + l) = unat ((h - l) div 2) + unat l"
    "unat ((h - l) div 2) + unat l \<le> unat h"
    by (simp_all add: unat_word_ariths)
  then show ?thesis by (simp add: word_le_nat_alt)
qed

lemma free_hot_cold_page_correct:
  assumes ci: "cache_inv z N P L F A C s" and c: "c < 2" and i: "(i, 0) \<in> A" "(i, 0) \<notin> P"
    and o: "off_lists z L heads {(i, 0)} s" and zi: "page_zone_idx (zbase s z + i) s = z"
    and lk: "\<not> z_locked (zone_of s z)"
  shows "\<exists>s' L'. free_hot_cold_page (zbase s z + i) c s = Some s' \<and> \<not> z_locked (zone_of s' z) \<and>
    cache_inv z N P L' (abs_free_list (drained z c C s) F) (A - pages0 (drained z c C s)) (C(c := i # kept z c C s)) s' \<and>
    z_free_pages (zone_of s' z) = z_free_pages (zone_of s z) + int (length (drained z c C s)) \<and>
    wakeups s' = wakeups s @ [z]"
proof -
  define s0 where "s0 = upd_zone z (\<lambda>r. r\<lparr>z_locked := True\<rparr>) s"
  have s0: "zone_lock z s = Some s0" "cache_inv z N P L F A C s0" "zbase s0 z = zbase s z"
    "z_pageset (zone_of s0 z) = z_pageset (zone_of s z)" "z_locked (zone_of s0 z)"
    "z_free_pages (zone_of s0 z) = z_free_pages (zone_of s z)" "wakeups s0 = wakeups s"
    using ci lk by (simp_all add: s0_def zone_lock_def) (simp_all add: bupd)
  let ?r = "z_pageset (zone_of s z) c"
  let ?b = "(phigh ?r - plow ?r) div 2 + plow ?r"
  let ?gone = "drained z c C s" and ?keep = "kept z c C s"
  define drain where "drain = (if phigh ?r < pcount ?r then do {
             let s = upd_pageset z c (\<lambda>c. c\<lparr>pbatch := ?b\<rparr>) s0;
             s \<leftarrow> free_bulk_times (unat ?b) z (PcpList z c) s;
             Some (upd_pageset z c (\<lambda>c. c\<lparr>pcount := pcount c - ?b, pbatch := 0\<rparr>) s)
           } else Some s0)"
  have "\<exists>s1 L1. drain = Some s1 \<and>
    cache_inv z N P L1 (abs_free_list ?gone F) (A - pages0 ?gone) (C(c := ?keep)) s1 \<and>
    off_lists z L1 heads {(i, 0)} s1 \<and> (i, 0) \<notin> pages0 ?gone \<and> zbase s1 z = zbase s z \<and> wakeups s1 = wakeups s \<and>
    z_locked (zone_of s1 z) \<and> z_free_pages (zone_of s1 z) = z_free_pages (zone_of s z) + int (length ?gone)"
  proof (cases "phigh ?r < pcount ?r")
    case False
    then have "?gone = []" "?keep = C c" by (simp_all add: drained_def kept_def)
    then show ?thesis
      using False s0 o by (auto intro!: exI [of _ s0] exI [of _ L] simp: drain_def abs_free_list_def pages0_def off_lists_def)
  next
    case True
    have b: "unat ?b \<le> length (C c)"
      using batch_le [OF cache_invD(9) [OF ci c]] True cache_length(2) [OF ci c] by (simp add: word_le_nat_alt word_less_nat_alt)
    let ?sb = "upd_pageset z c (\<lambda>c. c\<lparr>pbatch := ?b\<rparr>) s0"
    have gone: "?gone = rev (drop (length (C c) - unat ?b) (C c))" "?keep = take (length (C c) - unat ?b) (C c)"
      using True by (simp_all add: drained_def kept_def Let_def)
    have len: "length ?gone = unat ?b" using b by (simp add: gone)
    have ci': "cache_inv z N P L F A C ?sb" using s0(2) by simp
    obtain s1 L1 where s1: "free_pages_loop (unat ?b) z (PcpList z c) ?sb = Some s1" "buddy_same z ?sb s1"
      "cache_inv z N P L1 (abs_free_list ?gone F) (A - pages0 ?gone) (C(c := ?keep))
        (upd_pageset z c (\<lambda>r. r\<lparr>pcount := pcount r - ?b, pbatch := 0\<rparr>) s1)"
      "same_other z (L(PcpList z c := lrus ?sb z ?keep)) L1"
      "z_free_pages (zone_of s1 z) = z_free_pages (zone_of ?sb z) + int (unat ?b)"
      using cache_drain [OF ci' c b, of ?b] unfolding gone by (auto simp del: drop_rev)
    have node: "Lru (zbase s z + i) \<notin> set (L (PcpList z c))"
      using o c buddy_relD(1) [OF cache_invD(1) [OF ci]] by (simp add: off_lists_def blk_def)
    have base: "zbase s1 z = zbase s z"
      using s1(2) s0(3) by (simp add: buddy_same_def)
    have "(i, 0) \<notin> pages0 (C c)"
      using node cache_invD(5) [OF ci c] by (auto simp: pages0_def)
    then have notgone: "(i, 0) \<notin> pages0 ?gone"
      using set_drop_subset [of "length (C c) - unat ?b" "C c"] by (auto simp: pages0_def gone)
    let ?s1 = "upd_pageset z c (\<lambda>r. r\<lparr>pcount := pcount r - ?b, pbatch := 0\<rparr>) s1"
    have off: "off_lists z L1 heads {(i, 0)} ?s1"
    proof (rule off_lists_used [OF cache_invD(1) [OF s1(3)]])
      show "(i, 0) \<in> A - pages0 ?gone" using i(1) notgone by simp
      have sub: "set (L1 g) \<subseteq> set (L g)" if "g \<notin> range (FreeList z)" for g
        using s1(4) that set_take_subset [of "length (C c) - unat ?b" "C c"] cache_invD(5) [OF ci c] s0(3)
        unfolding same_other_def gone by auto
      have "off_lists z L (heads - range (FreeList z)) {(i, 0)} s"
        using o by (simp add: off_lists_def)
      then show "off_lists z L1 (heads - range (FreeList z)) {(i, 0)} ?s1"
        by (rule off_lists_mono) (use sub base in auto)
    qed
    have "drain = Some ?s1"
      using True s1(1) by (simp add: drain_def free_bulk_times_eq Let_def)
    moreover have "z_locked (zone_of ?s1 z)" "wakeups ?s1 = wakeups s" "zbase ?s1 z = zbase s z"
      "z_free_pages (zone_of ?s1 z) = z_free_pages (zone_of s z) + int (length ?gone)"
      using s1(2,5) s0 base len by (simp_all add: buddy_same_def bupd)
    ultimately show ?thesis using s1(3) off notgone by blast
  qed
  then obtain s1 L1 where s1: "drain = Some s1"
    "cache_inv z N P L1 (abs_free_list ?gone F) (A - pages0 ?gone) (C(c := ?keep)) s1"
    "off_lists z L1 heads {(i, 0)} s1" "(i, 0) \<notin> pages0 ?gone" "zbase s1 z = zbase s z" "wakeups s1 = wakeups s"
    "z_locked (zone_of s1 z)" "z_free_pages (zone_of s1 z) = z_free_pages (zone_of s z) + int (length ?gone)"
    by blast
  have iA: "(i, 0) \<in> A - pages0 ?gone" using i s1(4) by simp
  obtain s2 h where s2: "b_list_add (Lru (zbase s z + i)) (PcpList z c) s1 = Some s2" "s2 = s1\<lparr>lh := h\<rparr>"
    "cache_inv z N P (L1(PcpList z c := Lru (zbase s1 z + i) # L1 (PcpList z c))) (abs_free_list ?gone F)
       (A - pages0 ?gone) (C(c := i # ?keep)) (upd_pageset z c (\<lambda>r. r\<lparr>pcount := pcount r + 1\<rparr>) s2)"
    using cache_put [OF s1(2) c iA i(2) s1(3)] unfolding s1(5) by auto
  let ?s3 = "upd_pageset z c (\<lambda>r. r\<lparr>pcount := pcount r + 1\<rparr>) s2"
  let ?s' = "upd_zone z (\<lambda>r. r\<lparr>z_locked := False\<rparr>) (zone_wakeup z ?s3)"
  have run: "free_hot_cold_page (zbase s z + i) c s = do {
      s1 \<leftarrow> drain;
      s2 \<leftarrow> b_list_add (Lru (zbase s z + i)) (PcpList z c) s1;
      zone_unlock z (zone_wakeup z (upd_pageset z c (\<lambda>c. c\<lparr>pcount := pcount c + 1\<rparr>) s2)) }"
    by (simp only: free_hot_cold_page_def zi s0(1) Let_def bind.bind_lunit s0(4) drain_def)
  have "z_locked (zone_of (zone_wakeup z ?s3) z)" using s1(7) s2(2) by (simp add: bupd)
  then have "free_hot_cold_page (zbase s z + i) c s = Some ?s'"
    unfolding run s1(1) by (simp add: s2(1) zone_unlock_def)
  moreover have "\<not> z_locked (zone_of ?s' z)" "wakeups ?s' = wakeups s @ [z]"
    "z_free_pages (zone_of ?s' z) = z_free_pages (zone_of s z) + int (length ?gone)"
    using s1(6,8) s2(2) by (simp_all add: bupd)
  moreover have "cache_inv z N P (L1(PcpList z c := Lru (zbase s1 z + i) # L1 (PcpList z c))) (abs_free_list ?gone F)
       (A - pages0 ?gone) (C(c := i # ?keep)) ?s'"
    using s2(3) by simp
  ultimately show ?thesis by blast
qed

section \<open>Allocating a page\<close>

text \<open>The blocks that clients hold: in use, but not in a cache.\<close>

definition owned :: "(nat \<Rightarrow> nat list) \<Rightarrow> (nat \<times> nat) set \<Rightarrow> (nat \<times> nat) set" where
  "owned C A = A - (pages0 (C 0) \<union> pages0 (C 1))"

lemma pages0_Cons: "pages0 (i # is) = insert (i, 0) (pages0 is)"
  by (simp add: pages0_def)

lemma lt2_cases: "(c :: nat) < 2 \<Longrightarrow> (c = 0 \<Longrightarrow> Q) \<Longrightarrow> (c = 1 \<Longrightarrow> Q) \<Longrightarrow> Q"
  by linarith

lemma owned_put: "c < 2 \<Longrightarrow> owned (C(c := i # C c)) A = owned C A - {(i, 0)}"
  by (erule lt2_cases) (auto simp: owned_def pages0_Cons)

lemma owned_new: "c < 2 \<Longrightarrow> (i, 0) \<notin> A \<Longrightarrow> owned (C(c := i # C c)) (insert (i, 0) A) = owned C A"
  by (erule lt2_cases) (auto simp: owned_def pages0_Cons)

lemma b_list_add_pageset: "b_list_add n a (upd_pageset z c f s) = map_option (upd_pageset z c f) (b_list_add n a s)"
  by (cases "list_add n a (lh s)") (simp_all add: b_list_add_def bupd)

text \<open>One round of the refill loop.\<close>

lemma refill_step:
  assumes ci: "cache_inv z N P L F A C s" and c: "c < 2" and F: "F \<noteq> {}"
  shows "\<exists>i s1 s2 L' F'. rmqueue z 0 s = Some (Some (zbase s z + i), s1) \<and>
    b_list_add (Lru (zbase s z + i)) (PcpList z c) (upd_pageset z c (\<lambda>r. r\<lparr>pcount := pcount r + 1\<rparr>) s1) = Some s2 \<and>
    cache_inv z N P L' F' (insert (i, 0) A) (C(c := i # C c)) s2 \<and> (i, 0) \<notin> A \<and> zbase s2 z = zbase s z \<and>
    z_locked (zone_of s2 z) = z_locked (zone_of s z) \<and>
    z_free_pages (zone_of s2 z) = z_free_pages (zone_of s z) - 1"
proof -
  note d = cache_invD [OF ci]
  note b = buddy_relD [OF d(1)]
  obtain j k where jk: "(j, k) \<in> F" using F by auto
  obtain i m s1 L1 where s1: "rmqueue z 0 s = Some (Some (zbase s z + i), s1)" "(i, m) \<in> F"
    "buddy_rel z N L1 (F - {(i, m)} \<union> upper_halves i 0 m) (insert (i, 0) A) s1"
    "off_lists z L1 heads {(i, 0)} s1" "buddy_same z s s1" "same_other z L L1"
    "z_free_pages (zone_of s1 z) = z_free_pages (zone_of s z) - 1"
    using rmqueue_succeed [OF d(1) jk, of 0] by auto
  have fresh: "(i, 0) \<notin> A"
    using tile_head_eq [OF b(3), of i m 0] s1(2) b(4) by auto
  have ci1: "cache_inv z N P L1 (F - {(i, m)} \<union> upper_halves i 0 m) (insert (i, 0) A) C s1"
    by (rule cache_inv_buddy [OF ci s1(3,5,6)]) (use d(3,6) in auto)
  have notP: "(i, 0) \<notin> P" using fresh d(3) by auto
  have base: "zbase s1 z = zbase s z" using s1(5) by (simp add: buddy_same_def)
  obtain h where h: "b_list_add (Lru (zbase s z + i)) (PcpList z c) s1 = Some (s1\<lparr>lh := h\<rparr>)"
    "cache_inv z N P (L1(PcpList z c := Lru (zbase s z + i) # L1 (PcpList z c))) (F - {(i, m)} \<union> upper_halves i 0 m)
      (insert (i, 0) A) (C(c := i # C c)) (upd_pageset z c (\<lambda>r. r\<lparr>pcount := pcount r + 1\<rparr>) (s1\<lparr>lh := h\<rparr>))"
    using cache_put [OF ci1 c insertI1 notP s1(4)] unfolding base by blast
  let ?s2 = "upd_pageset z c (\<lambda>r. r\<lparr>pcount := pcount r + 1\<rparr>) (s1\<lparr>lh := h\<rparr>)"
  have "b_list_add (Lru (zbase s z + i)) (PcpList z c) (upd_pageset z c (\<lambda>r. r\<lparr>pcount := pcount r + 1\<rparr>) s1) = Some ?s2"
    by (simp add: b_list_add_pageset h(1))
  moreover have "zbase ?s2 z = zbase s z" "z_locked (zone_of ?s2 z) = z_locked (zone_of s z)"
    "z_free_pages (zone_of ?s2 z) = z_free_pages (zone_of s z) - 1"
    using s1(5,7) by (simp_all add: buddy_same_def bupd)
  ultimately show ?thesis using s1(1) h(2) fresh by blast
qed

lemma pcp_refill_correct:
  assumes "cache_inv z N P L F A C s" "c < 2"
  shows "\<exists>ok s' L' F' A' new. pcp_refill n z c s = Some (ok, s') \<and>
    cache_inv z N P L' F' A' (C(c := new @ C c)) s' \<and> owned (C(c := new @ C c)) A' = owned C A \<and>
    (if ok then length new = n else F' = {} \<and> length new < n) \<and> zbase s' z = zbase s z \<and>
    z_locked (zone_of s' z) = z_locked (zone_of s z) \<and>
    z_free_pages (zone_of s' z) = z_free_pages (zone_of s z) - int (length new)"
  using assms
proof (induction n arbitrary: s L F A C)
  case 0
  then show ?case by (intro exI [of _ True] exI [of _ s] exI [of _ L] exI [of _ F] exI [of _ A] exI [of _ "[]"]) simp
next
  case (Suc n)
  show ?case
  proof (cases "F = {}")
    case True
    then have "rmqueue z 0 s = Some (None, s)"
      using rmqueue_fail [OF cache_invD(1) [OF Suc.prems(1)], of 0] by simp
    then show ?thesis
      using Suc.prems True
      by (intro exI [of _ False] exI [of _ s] exI [of _ L] exI [of _ F] exI [of _ A] exI [of _ "[]"]) simp
  next
    case False
    obtain i s1 s2 L2 F2 where st: "rmqueue z 0 s = Some (Some (zbase s z + i), s1)"
      "b_list_add (Lru (zbase s z + i)) (PcpList z c) (upd_pageset z c (\<lambda>r. r\<lparr>pcount := pcount r + 1\<rparr>) s1) = Some s2"
      "cache_inv z N P L2 F2 (insert (i, 0) A) (C(c := i # C c)) s2" "(i, 0) \<notin> A" "zbase s2 z = zbase s z"
      "z_locked (zone_of s2 z) = z_locked (zone_of s z)"
      "z_free_pages (zone_of s2 z) = z_free_pages (zone_of s z) - 1"
      using refill_step [OF Suc.prems False] by (elim exE conjE) (rule that; assumption)
    define C1 where "C1 = C(c := i # C c)"
    obtain ok s' L' F' A' new where n: "pcp_refill n z c s2 = Some (ok, s')"
      "cache_inv z N P L' F' A' (C1(c := new @ C1 c)) s'"
      "owned (C1(c := new @ C1 c)) A' = owned C1 (insert (i, 0) A)"
      "if ok then length new = n else F' = {} \<and> length new < n" "zbase s' z = zbase s2 z"
      "z_locked (zone_of s' z) = z_locked (zone_of s2 z)"
      "z_free_pages (zone_of s' z) = z_free_pages (zone_of s2 z) - int (length new)"
      using Suc.IH [OF st(3) [folded C1_def] Suc.prems(2)] by (elim exE conjE) (rule that; assumption)
    have run: "pcp_refill (Suc n) z c s = Some (ok, s')"
      by (simp add: st(1,2) n(1) del: bind_Some_iff)
    have C: "C1(c := new @ C1 c) = C(c := (new @ [i]) @ C c)" by (simp add: C1_def)
    have own: "owned (C(c := (new @ [i]) @ C c)) A' = owned C A"
      using n(3) owned_new [OF Suc.prems(2) st(4), of C, folded C1_def] unfolding C by simp
    have len: "if ok then length (new @ [i]) = Suc n else F' = {} \<and> length (new @ [i]) < Suc n"
      using n(4) by simp
    have same: "zbase s' z = zbase s z" "z_locked (zone_of s' z) = z_locked (zone_of s z)"
      "z_free_pages (zone_of s' z) = z_free_pages (zone_of s z) - int (length (new @ [i]))"
      using n(5-7) st(5-7) by simp_all
    show ?thesis
      by (intro exI conjI) (rule run n(2) [unfolded C] own len same)+
  qed
qed

text \<open>Taking the first page of a cache.\<close>

lemma pcp_take_correct:
  assumes ci: "cache_inv z N P L F A C s" and c: "c < 2" and Cc: "C c = i # is"
  shows "\<exists>s' L'. pcp_take z c s = Some (Some (zbase s z + i), s') \<and> cache_inv z N P L' F A (C(c := is)) s' \<and>
    off_lists z L' heads {(i, 0)} s' \<and> owned (C(c := is)) A = insert (i, 0) (owned C A) \<and>
    (i, 0) \<notin> owned C A \<and> (i, 0) \<notin> P \<and> zbase s' z = zbase s z \<and>
    z_locked (zone_of s' z) = z_locked (zone_of s z) \<and> z_free_pages (zone_of s' z) = z_free_pages (zone_of s z)"
proof -
  note d = cache_invD [OF ci]
  note b = buddy_relD [OF d(1)]
  let ?a = "PcpList z c" and ?p = "zbase s z + i"
  have a: "?a \<in> heads" using c b(1) by simp
  have La: "L ?a = Lru ?p # lrus s z is" using d(5) [OF c] Cc by simp
  have nx: "lnext (lh s) ?a = Some (Lru ?p)" using kl.next_head [OF b(2) a] La by simp
  have pin: "Lru ?p \<in> set (L ?a)" by (simp add: La)
  let ?L = "L(?a := lrus s z is)"
  obtain h where h: "list_del (Lru ?p) (lh s) = Some h" "buddy_rel z N ?L F A (s\<lparr>lh := h\<rparr>)"
    using buddy_rel_del_other [OF d(1) a not_FreeList(1) pin] by (auto simp: La)
  define s' where "s' = upd_pageset z c (\<lambda>r. r\<lparr>pcount := pcount r - 1\<rparr>) (s\<lparr>lh := h\<rparr>)"
  have run: "pcp_take z c s = Some (Some ?p, s')"
    using nx h(1) by (simp add: pcp_take_def b_list_del_def s'_def bupd Let_def)
  have dis: "distinct (C c)" by (rule cache_length [OF ci c])
  have off: "off_lists z ?L heads {(i, 0)} s'"
    using mem_remove1_other [OF b(2) a pin] unfolding off_lists_def by (simp add: blk_def La s'_def)
  have other: "(i, 0) \<notin> pages0 (C x)" if "x < 2" "x \<noteq> c" for x
    using lists_on_disjoint [OF b(2) a, of "PcpList z x"] that b(1) La d(5) [OF that(1)] by (auto simp: pages0_def)
  have iA: "(i, 0) \<in> A" "(i, 0) \<notin> P" using d(6,7) [OF c] Cc by (auto simp: pages0_def)
  have "(i, 0) \<notin> pages0 is" using dis Cc by (auto simp: pages0_def)
  then have own: "owned (C(c := is)) A = insert (i, 0) (owned C A) \<and> (i, 0) \<notin> owned C A"
    using c other [of 0] other [of 1] iA Cc by - (erule lt2_cases; auto simp: owned_def pages0_Cons)
  have "pages0 is \<subseteq> A" "pages0 is \<inter> P = {}" using d(6,7) [OF c] Cc by (auto simp: pages0_Cons)
  then have "cache_inv z N P ?L F A (C(c := is)) s'"
    unfolding cache_inv_def s'_def
    using h(2) d(2-9) Cc by (intro conjI allI impI) auto
  moreover have "zbase s' z = zbase s z" "z_locked (zone_of s' z) = z_locked (zone_of s z)"
    "z_free_pages (zone_of s' z) = z_free_pages (zone_of s z)"
    by (simp_all add: s'_def bupd)
  ultimately show ?thesis using run off own iA(2) by blast
qed

text \<open>What an allocation of one page may do: on success the page is new to the clients and on
  no list; on failure the clients hold what they held.\<close>

definition page_alloc_post :: "nat \<Rightarrow> nat \<Rightarrow> (nat \<times> nat) set \<Rightarrow> (nat \<times> nat) set \<Rightarrow> bstate \<Rightarrow> nat option \<Rightarrow> bstate \<Rightarrow> bool" where
  "page_alloc_post z N P own s r s' \<longleftrightarrow> (\<exists>L F A C. cache_inv z N P L F A C s' \<and> zbase s' z = zbase s z \<and>
     z_locked (zone_of s' z) = z_locked (zone_of s z) \<and>
     (case r of None \<Rightarrow> owned C A = own
      | Some p \<Rightarrow> \<exists>i. p = zbase s z + i \<and> (i, 0) \<notin> own \<and> (i, 0) \<notin> P \<and> owned C A = insert (i, 0) own \<and>
          off_lists z L heads {(i, 0)} s'))"

lemma page_alloc_postI:
  "cache_inv z N P L F A C s' \<Longrightarrow> zbase s' z = zbase s z \<Longrightarrow> z_locked (zone_of s' z) = z_locked (zone_of s z) \<Longrightarrow>
    owned C A = own \<Longrightarrow> page_alloc_post z N P own s None s'"
  "cache_inv z N P L F A C s' \<Longrightarrow> zbase s' z = zbase s z \<Longrightarrow> z_locked (zone_of s' z) = z_locked (zone_of s z) \<Longrightarrow>
    (i, 0) \<notin> own \<Longrightarrow> (i, 0) \<notin> P \<Longrightarrow> owned C A = insert (i, 0) own \<Longrightarrow> off_lists z L heads {(i, 0)} s' \<Longrightarrow>
    page_alloc_post z N P own s (Some (zbase s z + i)) s'"
  unfolding page_alloc_post_def by (intro exI conjI; simp)+

lemma half_word: "unat ((w :: u32) div 2 + 1) = unat w div 2 + 1"
proof -
  have "unat w < 2 ^ 32" using unsigned_less [of w] by simp
  then show ?thesis by (simp add: unat_word_ariths unat_div)
qed

lemma pcp_alloc_correct:
  assumes ci: "cache_inv z N P L F A C s" and c: "c < 2"
  shows "\<exists>r s'. pcp_alloc z c s = Some (r, s') \<and> page_alloc_post z N P (owned C A) s r s'"
proof (cases "pcount (z_pageset (zone_of s z) c) \<le> plow (z_pageset (zone_of s z) c)")
  case False
  then have "C c \<noteq> []" using cache_invD(8) [OF ci c] by auto
  then obtain i "is" where Cc: "C c = i # is" by (cases "C c") auto
  obtain s' L' where "pcp_take z c s = Some (Some (zbase s z + i), s')" "cache_inv z N P L' F A (C(c := is)) s'"
    "off_lists z L' heads {(i, 0)} s'" "owned (C(c := is)) A = insert (i, 0) (owned C A)" "(i, 0) \<notin> owned C A"
    "(i, 0) \<notin> P" "zbase s' z = zbase s z" "z_locked (zone_of s' z) = z_locked (zone_of s z)"
    using pcp_take_correct [OF ci c Cc] by (elim exE conjE) (rule that; assumption)
  then show ?thesis using False page_alloc_postI(2) by (simp add: pcp_alloc_def Let_def)
next
  case low: True
  define b where "b = (phigh (z_pageset (zone_of s z) c) - plow (z_pageset (zone_of s z) c)) div 2 + 1"
  define s1 where "s1 = upd_pageset z c (\<lambda>r. r\<lparr>pbatch := b\<rparr>) s"
  have ci1: "cache_inv z N P L F A C s1" using ci by (simp add: s1_def)
  have s1: "zbase s1 z = zbase s z" "z_locked (zone_of s1 z) = z_locked (zone_of s z)"
    by (simp_all add: s1_def bupd)
  show ?thesis
  proof (cases "(word_of_int (z_free_pages (zone_of s1 z)) - b :: u32) \<le> word_of_int (z_pages_low (zone_of s1 z))")
    case True
    then have "pcp_alloc z c s = Some (None, s1)"
      using low by (simp add: pcp_alloc_def Let_def b_def s1_def)
    then show ?thesis using page_alloc_postI(1) [OF ci1 s1 refl] by blast
  next
    case False
    obtain ok s2 L2 F2 A2 new where r: "pcp_refill (unat b) z c s1 = Some (ok, s2)"
      "cache_inv z N P L2 F2 A2 (C(c := new @ C c)) s2" "owned (C(c := new @ C c)) A2 = owned C A"
      "if ok then length new = unat b else F2 = {} \<and> length new < unat b" "zbase s2 z = zbase s1 z"
      "z_locked (zone_of s2 z) = z_locked (zone_of s1 z)"
      using pcp_refill_correct [OF ci1 c, of "unat b"] by (elim exE conjE) (rule that; assumption)
    have run: "pcp_alloc z c s = (if \<not> ok then Some (None, s2)
        else pcp_take z c (upd_pageset z c (\<lambda>c. c\<lparr>pbatch := 0\<rparr>) s2))"
      using low False r(1) by (simp add: pcp_alloc_def Let_def b_def s1_def del: bind_Some_iff)
    show ?thesis
    proof (cases ok)
      case False
      then show ?thesis using run page_alloc_postI(1) [OF r(2) _ _ r(3), of s] r(5,6) s1 by auto
    next
      case True
      let ?s3 = "upd_pageset z c (\<lambda>c. c\<lparr>pbatch := 0\<rparr>) s2" and ?C = "C(c := new @ C c)"
      have ci3: "cache_inv z N P L2 F2 A2 ?C ?s3" using r(2) by simp
      have s3: "zbase ?s3 z = zbase s z" "z_locked (zone_of ?s3 z) = z_locked (zone_of s z)"
        using r(5,6) s1 by (simp_all add: bupd)
      have "0 < length new" using r(4) True by (simp add: b_def half_word)
      then obtain i "is" where Cc: "?C c = i # is" by (cases new) auto
      obtain s' L' where t: "pcp_take z c ?s3 = Some (Some (zbase ?s3 z + i), s')" "cache_inv z N P L' F2 A2 (?C(c := is)) s'"
        "off_lists z L' heads {(i, 0)} s'" "owned (?C(c := is)) A2 = insert (i, 0) (owned ?C A2)" "(i, 0) \<notin> owned ?C A2"
        "(i, 0) \<notin> P" "zbase s' z = zbase ?s3 z" "z_locked (zone_of s' z) = z_locked (zone_of ?s3 z)"
        using pcp_take_correct [OF ci3 c Cc] by (elim exE conjE) (rule that; assumption)
      have "page_alloc_post z N P (owned C A) s (Some (zbase s z + i)) s'"
        by (rule page_alloc_postI(2) [OF t(2) t(7) [unfolded s3] t(8) [unfolded s3] t(5) [unfolded r(3)] t(6) t(4) [unfolded r(3)] t(3)])
      then show ?thesis using run True t(1) s3(1) by auto
    qed
  qed
qed

text \<open>A zone that has fewer pages than a refill wants never fills an empty cache.\<close>

lemma pcp_alloc_small_zone:
  assumes ci: "cache_inv z N P L F A C s" and c: "c < 2"
    and low: "pcount (z_pageset (zone_of s z) c) \<le> plow (z_pageset (zone_of s z) c)"
  defines "b \<equiv> (phigh (z_pageset (zone_of s z) c) - plow (z_pageset (zone_of s z) c)) div 2 + 1"
  assumes N: "N < unat b"
  shows "\<exists>s'. pcp_alloc z c s = Some (None, s')"
proof -
  define s1 where "s1 = upd_pageset z c (\<lambda>r. r\<lparr>pbatch := b\<rparr>) s"
  have ci1: "cache_inv z N P L F A C s1" using ci by (simp add: s1_def)
  obtain ok s2 L2 F2 A2 new where r: "pcp_refill (unat b) z c s1 = Some (ok, s2)"
    "cache_inv z N P L2 F2 A2 (C(c := new @ C c)) s2"
    "if ok then length new = unat b else F2 = {} \<and> length new < unat b"
    using pcp_refill_correct [OF ci1 c, of "unat b"] by (elim exE conjE) (rule that; assumption)
  have "length new \<le> N" using cache_length(4) [OF r(2) c] by simp
  then have "\<not> ok" using r(3) N by (cases ok) simp_all
  then show ?thesis
    using low r(1) by (cases "(word_of_int (z_free_pages (zone_of s1 z)) - b :: u32) \<le> word_of_int (z_pages_low (zone_of s1 z))")
      (simp_all add: pcp_alloc_def Let_def b_def s1_def)
qed

lemma buddy_rel_set_private_used:
  assumes r: "buddy_rel z N L F A s" and i: "(i, k) \<in> A" and m: "MEMLEVEL \<le> m"
  shows "buddy_rel z N L F A (set_private (zbase s z + i) m s)"
proof -
  note d = buddy_relD [OF r]
  let ?s = "set_private (zbase s z + i) m s"
  have [simp]: "zone_of ?s = zone_of s" "p_ref ?s = p_ref s" "lh ?s = lh s"
    "p_private ?s q = (if q = zbase s z + i then m else p_private s q)" for q
    by (simp_all add: bupd)
  have "i < N" using tile_head_less [OF d(3)] i by blast
  then have "fence z N ?s" by (intro fence_cong [OF d(9)]) auto
  moreover have "(i, k') \<notin> F" for k' using tile_head_eq [OF d(3), of i k' k] i d(4) by auto
  then have "free_marks z F ?s" using d(6) unfolding free_marks_def unref_def by auto
  moreover have "used_marks z A ?s" using d(7) m unfolding used_marks_def by simp
  ultimately show ?thesis
    using d by (simp add: buddy_rel_def free_lists_def off_lists_def)
qed

lemma buffered_rmqueue_page_correct:
  assumes ci: "cache_inv z N P L F A C s"
  shows "\<exists>r s'. buffered_rmqueue z 0 g s = Some (r, s') \<and> page_alloc_post z N P (owned C A) s r s' \<and>
    (\<forall>p. r = Some p \<longrightarrow> p_private s' p = OUT_OF_BUDDY \<and> (g AND GFP_ZERO \<noteq> 0 \<longrightarrow> pmem s' p = (\<lambda>_. 0)))"
proof -
  have "unat (g AND GFP_COLD) \<le> unat GFP_COLD" by (simp add: word_le_nat_alt [symmetric] word_and_le1)
  then have c: "unat (g AND GFP_COLD) < 2" by (simp add: GFP_COLD_def)
  obtain r s1 where r: "pcp_alloc z (unat (g AND GFP_COLD)) s = Some (r, s1)" "page_alloc_post z N P (owned C A) s r s1"
    using pcp_alloc_correct [OF ci c] by blast
  show ?thesis
  proof (cases r)
    case None
    then show ?thesis using r by (simp add: buffered_rmqueue_def)
  next
    case (Some p)
    then obtain L1 F1 A1 C1 i where p: "cache_inv z N P L1 F1 A1 C1 s1" "zbase s1 z = zbase s z"
      "z_locked (zone_of s1 z) = z_locked (zone_of s z)" "p = zbase s z + i" "(i, 0) \<notin> owned C A" "(i, 0) \<notin> P"
      "owned C1 A1 = insert (i, 0) (owned C A)" "off_lists z L1 heads {(i, 0)} s1"
      using r(2) unfolding page_alloc_post_def by auto
    define s2 where "s2 = set_private p OUT_OF_BUDDY s1"
    have iA: "(i, 0) \<in> A1" using p(7) by (auto simp: owned_def)
    have "buddy_rel z N L1 F1 A1 s2"
      using buddy_rel_set_private_used [OF cache_invD(1) [OF p(1)] iA, of OUT_OF_BUDDY]
      by (simp add: s2_def p(2,4) OUT_OF_BUDDY_def MEMLEVEL_def)
    then have ci2: "cache_inv z N P L1 F1 A1 C1 s2"
      using p(1) by (simp add: cache_inv_def) (simp add: s2_def bupd)
    define s3 where "s3 = (if g AND GFP_ZERO \<noteq> 0 then zero_pages (2 ^ 0) p s2 else s2)"
    have ci3: "cache_inv z N P L1 F1 A1 C1 s3" using ci2 by (simp add: s3_def)
    have s3: "zbase s3 z = zbase s z" "z_locked (zone_of s3 z) = z_locked (zone_of s z)" "p_private s3 p = OUT_OF_BUDDY"
      using p(2,3) by (simp_all add: s3_def s2_def zero_pages_def bupd)
    have off: "off_lists z L1 heads {(i, 0)} s3" using p(2,8) s3(1) by (simp add: off_lists_def)
    have "buffered_rmqueue z 0 g s = Some (Some p, s3)"
      using r(1) Some by (simp add: buffered_rmqueue_def s3_def s2_def Let_def)
    moreover have "page_alloc_post z N P (owned C A) s (Some p) s3"
      unfolding p(4) by (rule page_alloc_postI(2) [OF ci3 s3(1,2) p(5,6,7) off])
    moreover have "g AND GFP_ZERO \<noteq> 0 \<longrightarrow> pmem s3 p = (\<lambda>_. 0)" by (simp add: s3_def zero_pages_def)
    ultimately show ?thesis using s3(3) by blast
  qed
qed

end
