(* ===== verification/Buddy_Boot.thy ===== *)
theory Buddy_Boot
  imports Buddy_Pcp
begin

text \<open>
  Boot-time initialisation: \<^verbatim>\<open>boot_zone_init\<close> cuts a zone into maximal blocks, largest first,
  and establishes the invariants of the buddy system and of the page caches.
\<close>

declare boot_reserved.simps [simp del] boot_level.simps [simp del]

section \<open>Address arithmetic\<close>

lemma PGNUM_of_page: "p < 2 ^ 20 \<Longrightarrow> PGNUM (of_nat (p * PGSIZE)) = p"
proof -
  assume p: "p < 2 ^ 20"
  then have "p * 4096 < 2 ^ 32" by simp
  then have "unat (of_nat (p * 4096) :: u32) = p * 4096"
    by (simp only: unat_of_nat take_bit_nat_eq_self_iff) simp
  then show ?thesis
    unfolding PGNUM_def PGSIZE_def PGSHIFT_def unat_drop_bit_eq by (simp only:) (simp add: drop_bit_eq_div)
qed

lemma pa2page_frame: "p < 2 ^ 20 \<Longrightarrow> p < npages_num s \<Longrightarrow> pa2page s (of_nat (p * PGSIZE)) = Some p"
  unfolding pa2page_def by (simp only: PGNUM_of_page) simp

section \<open>Growing a tiling\<close>

lemma tiling_extend:
  assumes t: "tiling n F" and al: "2 ^ k dvd n" and k: "k < MEMLEVEL"
  shows "tiling (n + 2 ^ k) (insert (n, k) F)"
proof -
  have new: "blk (n, k) = {n..<n + 2 ^ k}" by (simp add: blk_def)
  have sub: "blk b \<subseteq> {..<n}" if "b \<in> F" for b using tiling_sub [OF t that] .
  have dis: "blk b \<inter> blk (n, k) = {}" if "b \<in> F" for b using sub [OF that] by (auto simp: new)
  have "\<forall>b\<in>insert (n, k) F. aligned b \<and> snd b < MEMLEVEL"
    using t al k by (auto simp: tiling_def aligned_def)
  moreover have "\<forall>b\<in>insert (n, k) F. \<forall>c\<in>insert (n, k) F. b \<noteq> c \<longrightarrow> blk b \<inter> blk c = {}"
    using tiling_blk_disj [OF t] dis by (metis Int_commute insertE)
  moreover have "(\<Union>b\<in>insert (n, k) F. blk b) = {..<n + 2 ^ k}"
    using tiling_union [OF t] new by auto
  ultimately show ?thesis unfolding tiling_def by (intro conjI)
qed

lemma tiling_empty: "tiling 0 {}"
  by (simp add: tiling_def)

text \<open>At most one block of each order below the highest: no two buddies are both free.\<close>

definition one_per_order :: "(nat \<times> nat) set \<Rightarrow> bool" where
  "one_per_order F \<longleftrightarrow> (\<forall>a b k. (a, k) \<in> F \<and> (b, k) \<in> F \<and> Suc k < MEMLEVEL \<longrightarrow> a = b)"

lemma xor_pow2_neq: "a XOR 2 ^ b \<noteq> (a :: nat)"
proof
  assume "a XOR 2 ^ b = a"
  then have "bit (a XOR 2 ^ b) b = bit a b" by simp
  then show False by (simp add: bit_xor_iff bit_exp_iff)
qed

lemma one_per_order_no_buddies: "one_per_order F \<Longrightarrow> no_free_buddies F"
  unfolding one_per_order_def no_free_buddies_def by (metis xor_pow2_neq)

section \<open>The state while a zone is being cut\<close>

text \<open>\<open>boot_rel z N k n H L F s\<close>: the first \<open>n\<close> pages of the zone are cut into the free
  blocks \<open>F\<close>, all of order at least \<open>k\<close>; the heads \<open>H\<close> are initialised; the pages from
  \<open>n\<close> on are on no list, and every page of the zone has reference count 0.\<close>

definition zheads :: "nat \<Rightarrow> nat \<Rightarrow> bnode set" where
  "zheads z k = {FreeList z m |m. k \<le> m \<and> m < MEMLEVEL}"

definition boot_rel :: "nat \<Rightarrow> nat \<Rightarrow> nat \<Rightarrow> nat \<Rightarrow> bnode set \<Rightarrow> (bnode \<Rightarrow> bnode list) \<Rightarrow> (nat \<times> nat) set \<Rightarrow> bstate \<Rightarrow> bool" where
  "boot_rel z N k n H L F s \<longleftrightarrow> H \<inter> (range Lru \<union> range (FreeList z)) = {} \<and> (\<forall>h\<in>H. set (L h) \<subseteq> range Lru) \<and>
     lists_on (H \<union> zheads z k) L (lh s) \<and> tiling n F \<and> n \<le> N \<and> one_per_order F \<and>
     (\<forall>m. k \<le> m \<and> m < MEMLEVEL \<longrightarrow> set (L (FreeList z m)) = (\<lambda>i. Lru (zbase s z + i)) ` {i. (i, m) \<in> F} \<and>
        z_nr_free (zone_of s z) m = of_nat (length (L (FreeList z m)))) \<and>
     (\<forall>b\<in>F. k \<le> snd b) \<and> (\<forall>i m. (i, m) \<in> F \<longrightarrow> p_private s (zbase s z + i) = m) \<and>
     (\<forall>x<N. p_ref s (zbase s z + x) = 0) \<and>
     (\<forall>h\<in>H. \<forall>x<N. Lru (zbase s z + x) \<notin> set (L h))"

lemma boot_relD:
  assumes "boot_rel z N k n H L F s"
  shows "lists_on (H \<union> zheads z k) L (lh s)" "tiling n F" "n \<le> N" "one_per_order F"
    "k \<le> m \<Longrightarrow> m < MEMLEVEL \<Longrightarrow> set (L (FreeList z m)) = (\<lambda>i. Lru (zbase s z + i)) ` {i. (i, m) \<in> F}"
    "k \<le> m \<Longrightarrow> m < MEMLEVEL \<Longrightarrow> z_nr_free (zone_of s z) m = of_nat (length (L (FreeList z m)))"
    "b \<in> F \<Longrightarrow> k \<le> snd b" "(i, m) \<in> F \<Longrightarrow> p_private s (zbase s z + i) = m"
    "x < N \<Longrightarrow> p_ref s (zbase s z + x) = 0" "h \<in> H \<Longrightarrow> x < N \<Longrightarrow> Lru (zbase s z + x) \<notin> set (L h)"
    "H \<inter> (range Lru \<union> range (FreeList z)) = {}" "h \<in> H \<Longrightarrow> set (L h) \<subseteq> range Lru"
  using assms unfolding boot_rel_def by blast+

text \<open>One block is cut off.\<close>

lemma boot_cut:
  assumes r: "boot_rel z N k n H L F s" and k: "k < MEMLEVEL" and al: "2 ^ k dvd n" and fit: "n + 2 ^ k \<le> N"
    and one: "Suc k < MEMLEVEL \<longrightarrow> (\<forall>a. (a, k) \<notin> F)"
  defines "p \<equiv> zbase s z + n"
  shows "\<exists>h L'. list_add (Lru p) (FreeList z k) (lh s) = Some h \<and>
    boot_rel z N k (n + 2 ^ k) H L' (insert (n, k) F)
      (add_nr_free z k 1 ((set_private p k (set_ref p 0 (set_flag p f s)))\<lparr>lh := h\<rparr>)) \<and>
    (\<forall>g. g \<notin> zheads z k \<longrightarrow> L' g = L g)"
proof -
  note d = boot_relD [OF r]
  let ?a = "FreeList z k" and ?H = "H \<union> zheads z k"
  let ?L = "L(?a := Lru p # L ?a)"
  have a: "?a \<in> ?H" using k by (auto simp: zheads_def)
  have nH: "Lru p \<notin> ?H" using d(11) by (auto simp: zheads_def)
  have nN: "n < N" using fit less_le_trans [of n "n + 2 ^ k" N] by simp
  have below: "i < n" if "(i, m) \<in> F" for i m by (rule tile_head_less [OF d(2) that])
  have "Lru p \<notin> set (L g)" if "g \<in> ?H" for g
  proof (cases "g \<in> H")
    case True
    then show ?thesis using d(10) nN by (simp add: p_def)
  next
    case False
    then obtain m where "g = FreeList z m" "k \<le> m" "m < MEMLEVEL" using \<open>g \<in> ?H\<close> by (auto simp: zheads_def)
    then show ?thesis using d(5) [of m] below [of n m] by (auto simp: p_def)
  qed
  then have nn: "Lru p \<notin> nodes_of ?H L" by (auto simp: nodes_of_def)
  obtain h where h: "list_add (Lru p) ?a (lh s) = Some h" "lists_on ?H ?L h"
    using kl.add_front [OF d(1) a nH nn] by blast
  define s' where "s' = add_nr_free z k 1 ((set_private p k (set_ref p 0 (set_flag p f s)))\<lparr>lh := h\<rparr>)"
  have s': "lh s' = h" "zbase s' z = zbase s z" "\<And>q. p_private s' q = (if q = p then k else p_private s q)"
    "\<And>q. p_ref s' q = (if q = p then 0 else p_ref s q)"
    "\<And>m. z_nr_free (zone_of s' z) m = z_nr_free (zone_of s z) m + (if m = k then 1 else 0)"
    by (simp_all add: s'_def bupd)
  have "one_per_order (insert (n, k) F)"
    using d(4) one unfolding one_per_order_def by blast
  moreover have "set (?L (FreeList z m)) = (\<lambda>i. Lru (zbase s z + i)) ` {i. (i, m) \<in> insert (n, k) F}"
    if "k \<le> m" "m < MEMLEVEL" for m
    using d(5) [OF that] by (auto simp: p_def)
  moreover have "z_nr_free (zone_of s' z) m = of_nat (length (?L (FreeList z m)))" if "k \<le> m" "m < MEMLEVEL" for m
    using d(6) [OF that] by (auto simp: s'(5))
  moreover have "p_private s' (zbase s z + i) = m" if "(i, m) \<in> insert (n, k) F" for i m
    using that d(8) below [of i m] by (auto simp: s'(3) p_def)
  moreover have "Lru (zbase s z + x) \<notin> set (?L g)" if "g \<in> H" "x < N" for g x
    using that d(10,11) by auto
  moreover have "set (?L g) \<subseteq> range Lru" if "g \<in> H" for g
    using d(12) [OF that] by auto
  moreover have "p_ref s' (zbase s z + x) = 0" if "x < N" for x
    using d(9) [OF that] by (simp add: s'(4))
  ultimately have "boot_rel z N k (n + 2 ^ k) H ?L (insert (n, k) F) s'"
    unfolding boot_rel_def s'(1,2)
    using h(2) tiling_extend [OF d(2) al k] fit d(7,11) by (intro conjI allI impI ballI) auto
  then show ?thesis using h(1) k unfolding s'_def by (auto intro!: exI [of _ h] exI [of _ ?L] simp: zheads_def)
qed

text \<open>What the cutting leaves alone.\<close>

definition boot_same :: "nat \<Rightarrow> nat \<Rightarrow> bstate \<Rightarrow> bstate \<Rightarrow> bool" where
  "boot_same z N s s' \<longleftrightarrow> npages_num s' = npages_num s \<and> (\<forall>y. y \<noteq> z \<longrightarrow> zone_of s' y = zone_of s y) \<and>
     z_pageset (zone_of s' z) = z_pageset (zone_of s z) \<and> z_locked (zone_of s' z) = z_locked (zone_of s z) \<and>
     zbase s' z = zbase s z \<and> z_free_pages (zone_of s' z) = z_free_pages (zone_of s z) \<and>
     z_pages_low (zone_of s' z) = z_pages_low (zone_of s z) \<and>
     z_pages_reserved (zone_of s' z) = z_pages_reserved (zone_of s z) \<and>
     (\<forall>q. q < zbase s z \<or> zbase s z + N \<le> q \<longrightarrow>
        p_private s' q = p_private s q \<and> p_ref s' q = p_ref s q \<and> pflag s' q = pflag s q)"

lemma boot_same_refl [simp]: "boot_same z N s s"
  by (simp add: boot_same_def)

lemma boot_same_trans: "boot_same z N s s' \<Longrightarrow> boot_same z N s' s'' \<Longrightarrow> boot_same z N s s''"
  by (simp add: boot_same_def)

definition room :: "nat \<Rightarrow> nat \<Rightarrow> bstate \<Rightarrow> bool" where
  "room z N s \<longleftrightarrow> zbase s z + N \<le> 2 ^ 20 \<and> zbase s z + N \<le> npages_num s"

lemma room_same: "boot_same z N s s' \<Longrightarrow> room z N s \<Longrightarrow> room z N s'"
  by (simp add: boot_same_def room_def)

lemma boot_level_correct:
  assumes "boot_rel z N k n H L F s" "2 ^ k dvd n" "k < MEMLEVEL" "room z N s"
    "Suc k < MEMLEVEL \<longrightarrow> N - n < 2 ^ k \<or> N - n < 2 ^ Suc k \<and> (\<forall>a. (a, k) \<notin> F)"
  shows "\<exists>n' L' F' s'. boot_level z f k ((zbase s z + n) * PGSIZE) (N - n) s = Some ((zbase s z + n') * PGSIZE, N - n', s') \<and>
    boot_rel z N k n' H L' F' s' \<and> 2 ^ k dvd n' \<and> N - n' < 2 ^ k \<and> boot_same z N s s' \<and>
    (\<forall>g. g \<notin> zheads z k \<longrightarrow> L' g = L g)"
  using assms
proof (induction "N - n" arbitrary: n L F s rule: less_induct)
  case less
  note d = boot_relD [OF less.prems(1)]
  show ?case
  proof (cases "2 ^ k \<le> N - n")
    case False
    then have "boot_level z f k ((zbase s z + n) * PGSIZE) (N - n) s = Some ((zbase s z + n) * PGSIZE, N - n, s)"
      by (subst boot_level.simps) simp
    then show ?thesis using less.prems(1,2) False by (intro exI conjI) auto
  next
    case True
    let ?p = "zbase s z + n"
    have pos: "0 < (2 :: nat) ^ k" by simp
    have fit: "n + 2 ^ k \<le> N" using True d(3) by linarith
    then have lt: "n < N" "N - (n + 2 ^ k) < N - n" using pos by linarith+
    have pa: "pa2page s (of_nat (?p * PGSIZE)) = Some ?p"
      by (rule pa2page_frame) (use less.prems(4) lt in \<open>auto simp: room_def\<close>)
    have one: "Suc k < MEMLEVEL \<longrightarrow> (\<forall>a. (a, k) \<notin> F)" using less.prems(5) True by simp
    obtain h L1 where h: "list_add (Lru ?p) (FreeList z k) (lh s) = Some h"
      "boot_rel z N k (n + 2 ^ k) H L1 (insert (n, k) F)
        (add_nr_free z k 1 ((set_private ?p k (set_ref ?p 0 (set_flag ?p f s)))\<lparr>lh := h\<rparr>))"
      "\<forall>g. g \<notin> zheads z k \<longrightarrow> L1 g = L g"
      using boot_cut [OF less.prems(1,3,2) fit one, of f] by (elim exE conjE) (rule that; assumption)
    define s1 where "s1 = add_nr_free z k 1 ((set_private ?p k (set_ref ?p 0 (set_flag ?p f s)))\<lparr>lh := h\<rparr>)"
    have same: "boot_same z N s s1" using lt(1) by (auto simp: s1_def boot_same_def bupd)
    then have base: "zbase s1 z = zbase s z" by (simp add: boot_same_def)
    have al: "2 ^ k dvd n + 2 ^ k" using less.prems(2) by simp
    have small: "Suc k < MEMLEVEL \<longrightarrow> N - (n + 2 ^ k) < 2 ^ k \<or> N - (n + 2 ^ k) < 2 ^ Suc k \<and> (\<forall>a. (a, k) \<notin> insert (n, k) F)"
      using less.prems(5) True by auto
    obtain n' L' F' s' where r: "boot_level z f k ((zbase s1 z + (n + 2 ^ k)) * PGSIZE) (N - (n + 2 ^ k)) s1 =
        Some ((zbase s1 z + n') * PGSIZE, N - n', s')"
      "boot_rel z N k n' H L' F' s'" "2 ^ k dvd n'" "N - n' < 2 ^ k" "boot_same z N s1 s'"
      "\<forall>g. g \<notin> zheads z k \<longrightarrow> L' g = L1 g"
      using less.hyps [OF lt(2) h(2) [folded s1_def] al less.prems(3) room_same [OF same less.prems(4)] small]
      by (elim exE conjE) (rule that; assumption)
    have "boot_level z f k (?p * PGSIZE) (N - n) s = Some ((zbase s z + n') * PGSIZE, N - n', s')"
      using True pa h(1) r(1)
      by (subst boot_level.simps)
        (simp add: b_list_add_def bupd s1_def algebra_simps del: of_nat_mult of_nat_add)
    moreover have "\<forall>g. g \<notin> zheads z k \<longrightarrow> L' g = L g" using r(6) h(3) by simp
    ultimately show ?thesis using r(2-4) boot_same_trans [OF same r(5)] by blast
  qed
qed

text \<open>The next lower level is opened: its count is cleared, its list head initialised.\<close>

lemma boot_open:
  assumes r: "boot_rel z N (Suc k) n H L F s" and k: "k < MEMLEVEL"
  shows "boot_rel z N k n H (L(FreeList z k := []))  F
    ((upd_zone z (\<lambda>r. r\<lparr>z_nr_free := (z_nr_free r)(k := 0)\<rparr>) s)\<lparr>lh := LIST_HEAD_INIT (FreeList z k) (lh s)\<rparr>)"
proof -
  note d = boot_relD [OF r]
  let ?s = "(upd_zone z (\<lambda>r. r\<lparr>z_nr_free := (z_nr_free r)(k := 0)\<rparr>) s)\<lparr>lh := LIST_HEAD_INIT (FreeList z k) (lh s)\<rparr>"
  let ?L = "L(FreeList z k := [])"
  have zh: "zheads z k = insert (FreeList z k) (zheads z (Suc k))"
    using k by (auto simp: zheads_def Suc_le_eq order.order_iff_strict)
  have new: "FreeList z k \<notin> H \<union> zheads z (Suc k)" using d(11) by (auto simp: zheads_def)
  have s: "lh ?s = LIST_HEAD_INIT (FreeList z k) (lh s)" "zbase ?s z = zbase s z" "p_private ?s = p_private s"
    "p_ref ?s = p_ref s" "z_nr_free (zone_of ?s z) = (z_nr_free (zone_of s z))(k := 0)"
    by (simp_all add: bupd)
  have noF: "(i, k) \<notin> F" for i using d(7) [of "(i, k)"] by auto
  have "set (L g) \<subseteq> range Lru" if "g \<in> H \<union> zheads z (Suc k)" for g
  proof (cases "g \<in> H")
    case True
    then show ?thesis by (rule d(12))
  next
    case False
    then obtain m where "g = FreeList z m" "Suc k \<le> m" "m < MEMLEVEL" using \<open>g \<in> H \<union> _\<close> by (auto simp: zheads_def)
    then show ?thesis using d(5) [of m] by auto
  qed
  then have nodes: "FreeList z k \<notin> nodes_of (H \<union> zheads z (Suc k)) L" unfolding nodes_of_def by blast
  have lo: "lists_on (H \<union> zheads z k) ?L (lh ?s)"
    using LIST_HEAD_INIT_lists [OF d(1) new nodes] by (simp add: zh)
  have "g \<noteq> FreeList z k" if "g \<in> H" for g using d(11) that by auto
  then have H: "\<forall>g\<in>H. set (?L g) \<subseteq> range Lru" "\<forall>g\<in>H. \<forall>x<N. Lru (zbase s z + x) \<notin> set (?L g)"
    using d(10,12) by auto
  have fl: "set (?L (FreeList z m)) = (\<lambda>i. Lru (zbase s z + i)) ` {i. (i, m) \<in> F}"
    "z_nr_free (zone_of ?s z) m = of_nat (length (?L (FreeList z m)))" if "k \<le> m" "m < MEMLEVEL" for m
    using d(5,6) [of m] noF that s(5) by (cases "m = k"; simp)+
  have "\<forall>b\<in>F. k \<le> snd b" using d(7) by (meson Suc_leD)
  then show ?thesis
    unfolding boot_rel_def s(2,3,4) using lo fl H d(2,3,4,8,9,11) by (intro conjI allI impI) auto
qed

lemma boot_levels_correct:
  assumes "boot_rel z N k n H L F s" "2 ^ k dvd n" "k \<le> MEMLEVEL" "room z N s"
    "k < MEMLEVEL \<Longrightarrow> N - n < 2 ^ k" "k = MEMLEVEL \<Longrightarrow> F = {}"
  shows "\<exists>L' F' s'. boot_levels k z f ((zbase s z + n) * PGSIZE) (N - n) s = Some s' \<and>
    boot_rel z N 0 N H L' F' s' \<and> boot_same z N s s' \<and> (\<forall>g. g \<notin> range (FreeList z) \<longrightarrow> L' g = L g)"
  using assms
proof (induction k arbitrary: n L F s)
  case 0
  then have "n = N" using boot_relD(3) [OF 0(1)] by (simp add: MEMLEVEL_def)
  with 0 show ?case by auto
next
  case (Suc k)
  let ?s = "(upd_zone z (\<lambda>r. r\<lparr>z_nr_free := (z_nr_free r)(k := 0)\<rparr>) s)\<lparr>lh := LIST_HEAD_INIT (FreeList z k) (lh s)\<rparr>"
  have k: "k < MEMLEVEL" using Suc.prems(3) by simp
  note r0 = boot_open [OF Suc.prems(1) k]
  have same0: "boot_same z N s ?s" by (simp add: boot_same_def bupd)
  have al: "2 ^ k dvd n" using Suc.prems(2) by (auto intro: dvd_trans [of "2 ^ k" "2 ^ Suc k"])
  have "(a, k) \<notin> F" for a using boot_relD(7) [OF Suc.prems(1), of "(a, k)"] by auto
  then have small: "Suc k < MEMLEVEL \<longrightarrow> N - n < 2 ^ k \<or> N - n < 2 ^ Suc k \<and> (\<forall>a. (a, k) \<notin> F)"
    using Suc.prems(5) by auto
  obtain n1 L1 F1 s1 where l: "boot_level z f k ((zbase ?s z + n) * PGSIZE) (N - n) ?s =
      Some ((zbase ?s z + n1) * PGSIZE, N - n1, s1)"
    "boot_rel z N k n1 H L1 F1 s1" "2 ^ k dvd n1" "N - n1 < 2 ^ k" "boot_same z N ?s s1"
    "\<forall>g. g \<notin> zheads z k \<longrightarrow> L1 g = (L(FreeList z k := [])) g"
    using boot_level_correct [OF r0 al k room_same [OF same0 Suc.prems(4)] small, of f]
    by (elim exE conjE) (rule that; assumption)
  have same1: "boot_same z N s s1" by (rule boot_same_trans [OF same0 l(5)])
  have base: "zbase ?s z = zbase s z" "zbase s1 z = zbase s z" using same0 same1 by (simp_all add: boot_same_def)
  obtain L' F' s' where f: "boot_levels k z f ((zbase s1 z + n1) * PGSIZE) (N - n1) s1 = Some s'"
    "boot_rel z N 0 N H L' F' s'" "boot_same z N s1 s'" "\<forall>g. g \<notin> range (FreeList z) \<longrightarrow> L' g = L1 g"
    using Suc.IH [OF l(2,3) _ room_same [OF same1 Suc.prems(4)] l(4)] k
    by (auto intro: that)
  have lhs: "lh (upd_zone z g s) = lh s" for g by (simp add: bupd)
  have "boot_levels (Suc k) z f ((zbase s z + n) * PGSIZE) (N - n) s = Some s'"
    using l(1) f(1) lhs unfolding base by (simp add: Let_def)
  moreover have "L' g = L g" if "g \<notin> range (FreeList z)" for g
  proof -
    have "g \<notin> zheads z k" "g \<noteq> FreeList z k" using that by (auto simp: zheads_def)
    then show ?thesis using f(4) l(6) that by simp
  qed
  ultimately show ?case using f(2) boot_same_trans [OF same1 f(3)] by blast
qed

section \<open>The reserved pages\<close>

lemma boot_reserved_correct:
  assumes "lists_on H L (lh s)" "ReservedList z \<in> H" "\<forall>p. Lru p \<notin> H" "r + R \<le> 2 ^ 20" "r + R \<le> npages_num s"
    "\<forall>p. r \<le> p \<and> p < r + R \<longrightarrow> Lru p \<notin> nodes_of H L"
  shows "\<exists>s'. boot_reserved z f (r * PGSIZE) ((r + R) * PGSIZE) s = Some s' \<and>
    lists_on H (L(ReservedList z := map Lru (rev [r..<r + R]) @ L (ReservedList z))) (lh s') \<and>
    zone_of s' = zone_of s \<and> npages_num s' = npages_num s \<and> pmem s' = pmem s \<and> wakeups s' = wakeups s \<and>
    (\<forall>p. r \<le> p \<and> p < r + R \<longrightarrow> p_private s' p = OUT_OF_BUDDY \<and> p_ref s' p = 0 \<and> pflag s' p = f) \<and>
    (\<forall>p. \<not> (r \<le> p \<and> p < r + R) \<longrightarrow> p_private s' p = p_private s p \<and> p_ref s' p = p_ref s p \<and> pflag s' p = pflag s p)"
  using assms
proof (induction R arbitrary: r s L)
  case 0
  then show ?case by (subst boot_reserved.simps) auto
next
  case (Suc R)
  let ?a = "ReservedList z" and ?L = "L(ReservedList z := Lru r # L (ReservedList z))"
  have pa: "pa2page s (of_nat (r * PGSIZE)) = Some r"
    by (rule pa2page_frame) (use Suc.prems in auto)
  have new: "Lru r \<notin> nodes_of H L" using Suc.prems(6) by simp
  have nH: "Lru r \<notin> H" using Suc.prems(3) by simp
  obtain h where h: "list_add (Lru r) ?a (lh s) = Some h" "lists_on H ?L h"
    using kl.add_front [OF Suc.prems(1,2) nH new] by blast
  define s1 where "s1 = (set_private r OUT_OF_BUDDY (set_ref r 0 (set_flag r f s)))\<lparr>lh := h\<rparr>"
  have s1: "lh s1 = h" "npages_num s1 = npages_num s" "zone_of s1 = zone_of s" "pmem s1 = pmem s" "wakeups s1 = wakeups s"
    "\<And>p. p_private s1 p = (if p = r then OUT_OF_BUDDY else p_private s p)"
    "\<And>p. p_ref s1 p = (if p = r then 0 else p_ref s p)" "\<And>p. pflag s1 p = (if p = r then f else pflag s p)"
    by (simp_all add: s1_def bupd)
  have fresh: "\<forall>p. Suc r \<le> p \<and> p < Suc r + R \<longrightarrow> Lru p \<notin> nodes_of H ?L"
    using Suc.prems(6) by (auto simp: nodes_of_def split: if_splits)
  have bd: "Suc r + R \<le> 2 ^ 20" "Suc r + R \<le> npages_num s1" using Suc.prems(4,5) s1(2) by simp_all
  obtain s' where s': "boot_reserved z f (Suc r * PGSIZE) ((Suc r + R) * PGSIZE) s1 = Some s'"
    "lists_on H (?L(?a := map Lru (rev [Suc r..<Suc r + R]) @ ?L ?a)) (lh s')"
    "zone_of s' = zone_of s1" "npages_num s' = npages_num s1" "pmem s' = pmem s1" "wakeups s' = wakeups s1"
    "\<forall>p. Suc r \<le> p \<and> p < Suc r + R \<longrightarrow> p_private s' p = OUT_OF_BUDDY \<and> p_ref s' p = 0 \<and> pflag s' p = f"
    "\<forall>p. \<not> (Suc r \<le> p \<and> p < Suc r + R) \<longrightarrow> p_private s' p = p_private s1 p \<and> p_ref s' p = p_ref s1 p \<and> pflag s' p = pflag s1 p"
    using Suc.IH [OF h(2) [folded s1(1)] Suc.prems(2,3) bd fresh] by (elim exE conjE) (rule that; assumption)
  have run: "boot_reserved z f (r * PGSIZE) ((r + Suc R) * PGSIZE) s = Some s'"
    using s'(1) pa h(1)
    by (subst boot_reserved.simps)
      (simp add: b_list_add_def bupd s1_def Let_def algebra_simps del: of_nat_mult of_nat_add, simp add: PGSIZE_def)
  have Leq: "?L(?a := map Lru (rev [Suc r..<Suc r + R]) @ ?L ?a) = L(?a := map Lru (rev [r..<r + Suc R]) @ L ?a)"
  proof -
    have "[r..<r + Suc R] = r # [Suc r..<Suc r + R]" by (simp add: upt_conv_Cons del: upt_Suc)
    then show ?thesis by (simp del: upt_Suc)
  qed
  have in_r: "p_private s' p = OUT_OF_BUDDY \<and> p_ref s' p = 0 \<and> pflag s' p = f" if "r \<le> p" "p < r + Suc R" for p
    using s'(7,8) that s1(6-8) by (cases "p = r") auto
  have out_r: "p_private s' p = p_private s p \<and> p_ref s' p = p_ref s p \<and> pflag s' p = pflag s p"
    if "\<not> (r \<le> p \<and> p < r + Suc R)" for p
    using s'(8) that s1(6-8) by auto
  show ?case
    by (intro exI conjI, rule run, rule s'(2) [unfolded Leq]) (use s'(3-6) s1(2-5) in_r out_r in simp_all)
qed

section \<open>The whole initialisation of a zone\<close>

definition side_heads :: "nat \<Rightarrow> bnode set" where
  "side_heads z = {ReservedList z, PcpList z 0, PcpList z 1}"

text \<open>The first part of \<^verbatim>\<open>boot_zone_init\<close>: fields, list heads of the reserved pages and of the
  caches.\<close>

lemma side_heads_init:
  assumes l: "lists_on H L h" and H: "side_heads z \<inter> H = {}" "nodes_of H L \<subseteq> range Lru"
  shows "lists_on (H \<union> side_heads z) (L(ReservedList z := [], PcpList z 0 := [], PcpList z 1 := []))
    (LIST_HEAD_INIT (PcpList z 1) (LIST_HEAD_INIT (PcpList z 0) (LIST_HEAD_INIT (ReservedList z) h)))"
proof -
  let ?L1 = "L(ReservedList z := [])" and ?H1 = "insert (ReservedList z) H"
  let ?L2 = "?L1(PcpList z 0 := [])" and ?H2 = "insert (PcpList z 0) ?H1"
  have nd: "set (L g) \<subseteq> range Lru" if "g \<in> H" for g using H(2) that unfolding nodes_of_def by blast
  have l1: "lists_on ?H1 ?L1 (LIST_HEAD_INIT (ReservedList z) h)"
    by (rule LIST_HEAD_INIT_lists [OF l]) (use H in \<open>auto simp: side_heads_def\<close>)
  have n1: "set (?L1 g) \<subseteq> range Lru" if "g \<in> ?H1" for g using that nd by auto
  have l2: "lists_on ?H2 ?L2 (LIST_HEAD_INIT (PcpList z 0) (LIST_HEAD_INIT (ReservedList z) h))"
    by (rule LIST_HEAD_INIT_lists [OF l1]) (use H n1 in \<open>auto simp: side_heads_def nodes_of_def split: if_splits\<close>)
  have n2: "set (?L2 g) \<subseteq> range Lru" if "g \<in> ?H2" for g
    using that n1 [of g] by (cases "g = PcpList z 0") simp_all
  have "lists_on (insert (PcpList z 1) ?H2) (?L2(PcpList z 1 := []))
     (LIST_HEAD_INIT (PcpList z 1) (LIST_HEAD_INIT (PcpList z 0) (LIST_HEAD_INIT (ReservedList z) h)))"
    by (rule LIST_HEAD_INIT_lists [OF l2]) (use H n2 in \<open>auto simp: side_heads_def nodes_of_def split: if_splits\<close>)
  then show ?thesis by (simp add: side_heads_def insert_commute Un_insert_right)
qed

lemma zheads_none: "zheads z MEMLEVEL = {}"
  by (auto simp: zheads_def)

text \<open>The conditions on the physical layout under which a zone is set up: the frames exist, the
  reserved frames lie outside the zone, and no frame of either is on a list already.\<close>

definition boot_pre :: "nat \<Rightarrow> nat \<Rightarrow> nat \<Rightarrow> nat \<Rightarrow> bnode set \<Rightarrow> (bnode \<Rightarrow> bnode list) \<Rightarrow> bstate \<Rightarrow> bool" where
  "boot_pre r R b N H L s \<longleftrightarrow> lists_on H L (lh s) \<and> r + R \<le> 2 ^ 20 \<and> r + R \<le> npages_num s \<and>
     b + N \<le> 2 ^ 20 \<and> b + N \<le> npages_num s \<and> b < 2 ^ 20 \<and> (R = 0 \<or> r + R \<le> b \<or> b + N \<le> r) \<and>
     nodes_of H L \<subseteq> Lru ` {p. \<not> (r \<le> p \<and> p < r + R) \<and> \<not> (b \<le> p \<and> p < b + N)} \<and>
     (\<forall>x<N. p_ref s (b + x) = 0)"

lemma boot_preD:
  assumes "boot_pre r R b N H L s"
  shows "lists_on H L (lh s)" "r + R \<le> 2 ^ 20" "r + R \<le> npages_num s" "b + N \<le> 2 ^ 20" "b + N \<le> npages_num s"
    "b < 2 ^ 20" "R = 0 \<or> r + R \<le> b \<or> b + N \<le> r"
    "nodes_of H L \<subseteq> Lru ` {p. \<not> (r \<le> p \<and> p < r + R) \<and> \<not> (b \<le> p \<and> p < b + N)}"
    "x < N \<Longrightarrow> p_ref s (b + x) = 0"
  using assms by (simp_all add: boot_pre_def)

lemma boot_zone_init_correct:
  assumes pre: "boot_pre r R b N H L s"
    and H: "side_heads z \<inter> H = {}" "H \<inter> (range Lru \<union> range (FreeList z)) = {}"
  shows "\<exists>s' L' F. boot_zone_init z (r * PGSIZE) R (b * PGSIZE) N s = Some s' \<and>
    boot_rel z N 0 N (H \<union> side_heads z) L' F s' \<and> zbase s' z = b \<and>
    L' (ReservedList z) = map Lru (rev [r..<r + R]) \<and> L' (PcpList z 0) = [] \<and> L' (PcpList z 1) = [] \<and>
    (\<forall>h\<in>H. L' h = L h) \<and> z_free_pages (zone_of s' z) = int R + int N \<and> z_pages_low (zone_of s' z) = int R \<and>
    z_pages_reserved (zone_of s' z) = int R \<and> \<not> z_locked (zone_of s' z) \<and>
    (\<forall>c<2. z_pageset (zone_of s' z) c = boot_pageset) \<and> npages_num s' = npages_num s \<and>
    (\<forall>y. y \<noteq> z \<longrightarrow> zone_of s' y = zone_of s y) \<and>
    (\<forall>p. \<not> (r \<le> p \<and> p < r + R) \<and> \<not> (b \<le> p \<and> p < b + N) \<longrightarrow> p_private s' p = p_private s p \<and> p_ref s' p = p_ref s p)"
proof -
  note d = boot_preD [OF pre]
  define f :: u16 where "f = (if z = KERN_ZONE then 0 else 1)"
  let ?L1 = "L(ReservedList z := [], PcpList z 0 := [], PcpList z 1 := [])" and ?H = "H \<union> side_heads z"
  let ?L2 = "?L1(ReservedList z := map Lru (rev [r..<r + R]) @ ?L1 (ReservedList z))"
  define s1 where "s1 = (upd_pageset z 1 (\<lambda>_. boot_pageset) (upd_pageset z 0 (\<lambda>_. boot_pageset)
      (upd_zone z (\<lambda>r. r\<lparr>z_pages_reserved := int R, z_pages_low := int R,
               zone_first_page := PGNUM (of_nat (b * PGSIZE)), z_free_pages := int R + int N, z_locked := False\<rparr>) s)))
    \<lparr>lh := LIST_HEAD_INIT (PcpList z 1) (LIST_HEAD_INIT (PcpList z 0) (LIST_HEAD_INIT (ReservedList z) (lh s)))\<rparr>"
  have s1: "zbase s1 z = b" "npages_num s1 = npages_num s" "p_ref s1 = p_ref s" "p_private s1 = p_private s"
    "z_free_pages (zone_of s1 z) = int R + int N" "z_pages_low (zone_of s1 z) = int R"
    "z_pages_reserved (zone_of s1 z) = int R" "\<not> z_locked (zone_of s1 z)"
    "\<And>c. c < 2 \<Longrightarrow> z_pageset (zone_of s1 z) c = boot_pageset" "\<And>y. y \<noteq> z \<Longrightarrow> zone_of s1 y = zone_of s y"
    using PGNUM_of_page [OF d(6)] by (auto simp: s1_def bupd)
  have sub: "nodes_of H L \<subseteq> range Lru" using d(8) by auto
  have l1: "lists_on ?H ?L1 (lh s1)"
    using side_heads_init [OF d(1) H(1) sub] by (simp add: s1_def)
  have side: "?L1 g = []" if "g \<in> side_heads z" for g using that by (auto simp: side_heads_def)
  have rest: "?L1 g = L g" if "g \<in> H" for g using that H(1) by (auto simp: side_heads_def)
  have n1: "nodes_of ?H ?L1 = nodes_of H L"
    unfolding nodes_of_def UN_Un using side rest by simp
  have nd: "set (?L1 g) \<subseteq> nodes_of H L" if "g \<in> ?H" for g
  proof -
    have "set (?L1 g) \<subseteq> nodes_of ?H ?L1" unfolding nodes_of_def by (rule UN_upper [OF that])
    then show ?thesis unfolding n1 .
  qed
  define res where "res = (if R \<noteq> 0 then boot_reserved z (f OR RESERVED_PAGE) (r * PGSIZE) (r * PGSIZE + R * PGSIZE) s1 else Some s1)"
  obtain s2 where s2: "res = Some s2" "lists_on ?H ?L2 (lh s2)" "zone_of s2 = zone_of s1" "npages_num s2 = npages_num s1"
    "\<forall>p. \<not> (r \<le> p \<and> p < r + R) \<longrightarrow> p_private s2 p = p_private s1 p \<and> p_ref s2 p = p_ref s1 p"
  proof (cases "R = 0")
    case True
    then show ?thesis using that [of s1] l1 by (simp add: res_def fun_upd_idem)
  next
    case False
    have c1: "ReservedList z \<in> ?H" "\<forall>p. Lru p \<notin> ?H" using H(2) by (auto simp: side_heads_def)
    have c2: "r + R \<le> npages_num s1" using d(3) s1(2) by simp
    have c3: "\<forall>p. r \<le> p \<and> p < r + R \<longrightarrow> Lru p \<notin> nodes_of ?H ?L1" unfolding n1 using d(8) by auto
    obtain s2 where "boot_reserved z (f OR RESERVED_PAGE) (r * PGSIZE) ((r + R) * PGSIZE) s1 = Some s2"
      "lists_on ?H ?L2 (lh s2)" "zone_of s2 = zone_of s1" "npages_num s2 = npages_num s1"
      "\<forall>p. \<not> (r \<le> p \<and> p < r + R) \<longrightarrow> p_private s2 p = p_private s1 p \<and> p_ref s2 p = p_ref s1 p \<and> pflag s2 p = pflag s1 p"
      using boot_reserved_correct [OF l1 c1 d(2) c2 c3, of "f OR RESERVED_PAGE"] by (elim exE conjE) (rule that; assumption)
    then show ?thesis using that [of s2] False by (simp add: res_def add_mult_distrib)
  qed
  have out: "Lru (b + x) \<notin> set (?L2 g)" if "g \<in> ?H" "x < N" for g x
  proof (cases "g = ReservedList z")
    case True
    then show ?thesis using d(7) that(2) by auto
  next
    case False
    then have "set (?L2 g) \<subseteq> nodes_of H L" using nd [OF that(1)] by (auto split: if_splits)
    moreover have "Lru (b + x) \<notin> nodes_of H L" using subsetD [OF d(8), of "Lru (b + x)"] that(2) by auto
    ultimately show ?thesis by blast
  qed
  have lru: "set (?L2 g) \<subseteq> range Lru" if "g \<in> ?H" for g
  proof (cases "g = ReservedList z")
    case False
    then have "set (?L2 g) \<subseteq> nodes_of H L" using nd [OF that] by (auto split: if_splits)
    then show ?thesis using sub by (rule subset_trans)
  qed auto
  have "p_ref s2 (b + x) = 0" if "x < N" for x
  proof -
    have "\<not> (r \<le> b + x \<and> b + x < r + R)" using d(7) that by auto
    then show ?thesis using s2(5) s1(3) d(9) [OF that] by simp
  qed
  then have br: "boot_rel z N MEMLEVEL 0 ?H ?L2 {} s2"
    unfolding boot_rel_def using s2(2,3) s1(1) H(2) lru out
    by (intro conjI allI impI ballI) (auto simp: zheads_none tiling_empty one_per_order_def side_heads_def)
  have room2: "room z N s2" using d(4,5) s1(1,2) s2(3,4) by (simp add: room_def)
  obtain L' F s' where f: "boot_levels MEMLEVEL z f ((zbase s2 z + 0) * PGSIZE) (N - 0) s2 = Some s'"
    "boot_rel z N 0 N ?H L' F s'" "boot_same z N s2 s'" "\<forall>g. g \<notin> range (FreeList z) \<longrightarrow> L' g = ?L2 g"
    using boot_levels_correct [OF br _ _ room2, of f] by (auto intro: that)
  have base2: "zbase s2 z = b" using s2(3) s1(1) by simp
  have "boot_zone_init z (r * PGSIZE) R (b * PGSIZE) N s = do { s \<leftarrow> res; boot_levels MEMLEVEL z f (b * PGSIZE) N s }"
    unfolding boot_zone_init_def res_def f_def s1_def Let_def by (simp add: bupd)
  then have run: "boot_zone_init z (r * PGSIZE) R (b * PGSIZE) N s = Some s'"
    using f(1) base2 by (simp add: s2(1))
  have L': "L' (ReservedList z) = map Lru (rev [r..<r + R])" "L' (PcpList z 0) = []" "L' (PcpList z 1) = []"
    "\<forall>h\<in>H. L' h = L h"
  proof -
    show "\<forall>h\<in>H. L' h = L h"
    proof
      fix h assume "h \<in> H"
      then have "h \<notin> range (FreeList z)" "h \<noteq> ReservedList z" "h \<noteq> PcpList z 0" "h \<noteq> PcpList z 1"
        using H by (auto simp: side_heads_def)
      then show "L' h = L h" using f(4) by simp
    qed
  qed (use f(4) in simp_all)
  have fields: "zbase s' z = b" "z_free_pages (zone_of s' z) = int R + int N" "z_pages_low (zone_of s' z) = int R"
    "z_pages_reserved (zone_of s' z) = int R" "\<not> z_locked (zone_of s' z)" "npages_num s' = npages_num s"
    "\<forall>c<2. z_pageset (zone_of s' z) c = boot_pageset" "\<forall>y. y \<noteq> z \<longrightarrow> zone_of s' y = zone_of s y"
    using f(3) s2(3,4) s1 by (simp_all add: boot_same_def)
  have "p_private s' p = p_private s p \<and> p_ref s' p = p_ref s p"
    if "\<not> (r \<le> p \<and> p < r + R) \<and> \<not> (b \<le> p \<and> p < b + N)" for p
    using f(3) s2(5) s1(3,4) base2 that by (auto simp: boot_same_def not_le)
  then show ?thesis using run f(2) L' fields by (intro exI [of _ s'] exI [of _ L'] exI [of _ F]) auto
qed

section \<open>From the boot state to the invariants\<close>

lemma heads_split: "heads = (zheads 0 0 \<union> side_heads 0) \<union> (zheads 1 0 \<union> side_heads 1)"
  by (auto simp: heads_def zheads_def side_heads_def NZONES_def less_2_cases_iff)

lemma boot_rel_buddy:
  assumes r: "boot_rel z N 0 N H L F s" and H: "H \<union> zheads z 0 = heads" and z: "z < NZONES" and f: "fence z N s"
  shows "buddy_rel z N L F {} s" and "no_free_buddies F"
proof -
  note d = boot_relD [OF r]
  have lo: "lists_on heads L (lh s)" using d(1) unfolding H .
  have fl: "free_lists z L F s" unfolding free_lists_def using d(5,6) by simp
  have fm: "free_marks z F s"
    unfolding free_marks_def unref_def
  proof (intro allI impI conjI ballI)
    fix i k x assume ik: "(i, k) \<in> F"
    show "p_private s (zbase s z + i) = k" by (rule d(8) [OF ik])
    assume "x \<in> blk (i, k)"
    then show "p_ref s (zbase s z + x) = 0" using tiling_sub [OF d(2) ik] d(9) by auto
  qed
  have sub: "heads - range (FreeList z) \<subseteq> H" using H by (auto simp: zheads_def)
  have ol: "off_lists z L (heads - range (FreeList z)) F s"
    unfolding off_lists_def
  proof (intro ballI)
    fix h b x assume "h \<in> heads - range (FreeList z)" "b \<in> F" "x \<in> blk b"
    then show "Lru (zbase s z + x) \<notin> set (L h)" using sub tiling_sub [OF d(2)] d(10) by (meson lessThan_iff subsetD)
  qed
  show "buddy_rel z N L F {} s"
    using lo fl fm ol d(2) z f by (simp add: buddy_rel_def used_marks_def)
  show "no_free_buddies F" by (rule one_per_order_no_buddies [OF d(4)])
qed

lemma boot_rel_cache:
  assumes r: "buddy_rel z N L F {} s" and p: "pinned N {}" and N: "N < 2 ^ 32"
    and L: "L (PcpList z 0) = []" "L (PcpList z 1) = []" and ps: "\<forall>c<2. z_pageset (zone_of s z) c = boot_pageset"
  shows "cache_inv z N {} L F {} (\<lambda>_. []) s"
  using assms by (auto simp: cache_inv_def pages0_def boot_pageset_def less_2_cases_iff)

lemma pinned_small: "N \<le> 2 ^ (MEMLEVEL - 1) \<Longrightarrow> pinned N {}"
  unfolding pinned_def
proof (intro allI impI)
  fix i assume N: "N \<le> 2 ^ (MEMLEVEL - 1)" and i: "i < N"
  then have "i div 2 ^ (MEMLEVEL - 1) = 0" by simp
  then have "top_buddy i = 2 ^ (MEMLEVEL - 1)" by (simp add: top_buddy_def)
  then show "\<exists>x\<in>blk (top_buddy i, MEMLEVEL - 1). N \<le> x \<or> (\<exists>b\<in>{}. x \<in> blk b)"
    using N by (intro bexI [of _ "top_buddy i"]) auto
qed

text \<open>Setting up the other zone afterwards does not disturb a zone.\<close>

lemma boot_rel_other:
  assumes r: "boot_rel z N 0 N H L F s" and H': "H \<subseteq> H'" "H' \<inter> (range Lru \<union> range (FreeList z)) = {}"
    and lo: "lists_on (H' \<union> zheads z 0) L' (lh s')" and L: "\<forall>h\<in>H \<union> zheads z 0. L' h = L h"
    and new: "\<forall>h\<in>H' - H. set (L' h) \<subseteq> Lru ` {p. \<not> (zbase s z \<le> p \<and> p < zbase s z + N)}"
    and z: "zone_of s' z = zone_of s z"
    and p: "\<forall>x<N. p_private s' (zbase s z + x) = p_private s (zbase s z + x) \<and> p_ref s' (zbase s z + x) = p_ref s (zbase s z + x)"
  shows "boot_rel z N 0 N H' L' F s'"
proof -
  note d = boot_relD [OF r]
  have fz: "L' (FreeList z m) = L (FreeList z m)" if "m < MEMLEVEL" for m
    using L that by (auto simp: zheads_def)
  have "set (L' h) \<subseteq> range Lru \<and> (\<forall>x<N. Lru (zbase s z + x) \<notin> set (L' h))" if "h \<in> H'" for h
  proof (cases "h \<in> H")
    case True
    then show ?thesis using d(10,12) [OF True] L by simp
  next
    case False
    then have "set (L' h) \<subseteq> Lru ` {p. \<not> (zbase s z \<le> p \<and> p < zbase s z + N)}" using new that by blast
    then show ?thesis by auto
  qed
  moreover have "p_private s' (zbase s z + i) = m" if "(i, m) \<in> F" for i m
    using d(8) [OF that] p tile_head_less [OF d(2) that] by simp
  ultimately show ?thesis
    unfolding boot_rel_def z using lo H'(2) d(2-7,9) fz p by (intro conjI allI impI ballI) auto
qed

definition frames :: "nat \<Rightarrow> nat \<Rightarrow> nat set" where
  "frames b N = {b..<b + N}"

text \<open>Both zones, set up one after the other as \<^verbatim>\<open>buddy_init\<close> does, on disjoint frames.\<close>

lemma boot_both:
  assumes pre: "boot_pre r R b N {} L s" and b2: "b2 + N2 \<le> 2 ^ 20" "b2 + N2 \<le> npages_num s" "b2 < 2 ^ 20"
    and dis: "frames b2 N2 \<inter> frames r R = {}" "frames b2 N2 \<inter> frames b N = {}"
    and ref: "\<forall>x<N2. p_ref s (b2 + x) = 0"
  shows "\<exists>s1 s2 L2 F1 F2. boot_zone_init KERN_ZONE (r * PGSIZE) R (b * PGSIZE) N s = Some s1 \<and>
    boot_zone_init NORMAL_ZONE (0 * PGSIZE) 0 (b2 * PGSIZE) N2 s1 = Some s2 \<and>
    boot_rel KERN_ZONE N 0 N (side_heads 0 \<union> (side_heads 1 \<union> zheads 1 0)) L2 F1 s2 \<and>
    boot_rel NORMAL_ZONE N2 0 N2 (side_heads 0 \<union> zheads 0 0 \<union> side_heads 1) L2 F2 s2 \<and>
    zbase s2 KERN_ZONE = b \<and> zbase s2 NORMAL_ZONE = b2 \<and>
    (\<forall>z<2. L2 (PcpList z 0) = [] \<and> L2 (PcpList z 1) = [] \<and> \<not> z_locked (zone_of s2 z) \<and>
       (\<forall>c<2. z_pageset (zone_of s2 z) c = boot_pageset)) \<and>
    z_free_pages (zone_of s2 KERN_ZONE) = int R + int N \<and> z_pages_low (zone_of s2 KERN_ZONE) = int R \<and>
    z_free_pages (zone_of s2 NORMAL_ZONE) = int N2 \<and> z_pages_low (zone_of s2 NORMAL_ZONE) = 0 \<and>
    (\<forall>p. p \<notin> frames r R \<union> frames b N \<union> frames b2 N2 \<longrightarrow> p_private s2 p = p_private s p \<and> p_ref s2 p = p_ref s p)"
proof -
  obtain s1 L1 F1 where one: "boot_zone_init KERN_ZONE (r * PGSIZE) R (b * PGSIZE) N s = Some s1"
    "boot_rel KERN_ZONE N 0 N ({} \<union> side_heads 0) L1 F1 s1" "zbase s1 KERN_ZONE = b"
    "L1 (ReservedList 0) = map Lru (rev [r..<r + R])" "L1 (PcpList 0 0) = []" "L1 (PcpList 0 1) = []"
    "z_free_pages (zone_of s1 KERN_ZONE) = int R + int N \<and> z_pages_low (zone_of s1 KERN_ZONE) = int R" "\<not> z_locked (zone_of s1 KERN_ZONE)"
    "\<forall>c<2. z_pageset (zone_of s1 KERN_ZONE) c = boot_pageset" "npages_num s1 = npages_num s"
    "\<forall>p. \<not> (r \<le> p \<and> p < r + R) \<and> \<not> (b \<le> p \<and> p < b + N) \<longrightarrow> p_private s1 p = p_private s p \<and> p_ref s1 p = p_ref s p"
    using boot_zone_init_correct [OF pre, of KERN_ZONE] unfolding KERN_ZONE_def by auto
  note d1 = boot_relD [OF one(2)]
  let ?H1 = "side_heads 0 \<union> zheads 0 0"
  have nodes: "set (L1 h) \<subseteq> Lru ` (frames r R \<union> frames b N)" if "h \<in> ?H1" for h
  proof (cases "h \<in> side_heads 0")
    case True
    then show ?thesis using one(4-6) by (auto simp: side_heads_def frames_def)
  next
    case False
    then obtain m where "h = FreeList 0 m" "m < MEMLEVEL" using \<open>h \<in> ?H1\<close> by (auto simp: zheads_def)
    then have "set (L1 h) = (\<lambda>i. Lru (b + i)) ` {i. (i, m) \<in> F1}" using d1(5) [of m] one(3) by (simp add: KERN_ZONE_def)
    moreover have "i < N" if "(i, m) \<in> F1" for i by (rule tile_head_less [OF d1(2) that])
    ultimately show ?thesis by (auto simp: frames_def)
  qed
  have "nodes_of ?H1 L1 \<subseteq> Lru ` (frames r R \<union> frames b N)" unfolding nodes_of_def using nodes by blast
  moreover have "frames r R \<union> frames b N \<subseteq> {p. \<not> (0 \<le> p \<and> p < 0 + 0) \<and> \<not> (b2 \<le> p \<and> p < b2 + N2)}"
    using dis by (auto simp: frames_def)
  ultimately have nd: "nodes_of ?H1 L1 \<subseteq> Lru ` {p. \<not> (0 \<le> p \<and> p < 0 + 0) \<and> \<not> (b2 \<le> p \<and> p < b2 + N2)}" by blast
  have out: "\<not> (r \<le> b2 + x \<and> b2 + x < r + R) \<and> \<not> (b \<le> b2 + x \<and> b2 + x < b + N)" if "x < N2" for x
    using dis that unfolding frames_def by (auto simp: disjoint_iff)
  then have "\<forall>x<N2. p_ref s1 (b2 + x) = 0" using ref one(11) by simp
  then have pre2: "boot_pre 0 0 b2 N2 ?H1 L1 s1"
    using d1(1) b2 nd one(10) by (simp add: boot_pre_def KERN_ZONE_def)
  have H1: "side_heads NORMAL_ZONE \<inter> ?H1 = {}" "?H1 \<inter> (range Lru \<union> range (FreeList NORMAL_ZONE)) = {}"
    by (auto simp: side_heads_def zheads_def NORMAL_ZONE_def)
  obtain s2 L2 F2 where two: "boot_zone_init NORMAL_ZONE (0 * PGSIZE) 0 (b2 * PGSIZE) N2 s1 = Some s2"
    "boot_rel NORMAL_ZONE N2 0 N2 (?H1 \<union> side_heads 1) L2 F2 s2" "zbase s2 NORMAL_ZONE = b2"
    "L2 (ReservedList 1) = []" "L2 (PcpList 1 0) = []" "L2 (PcpList 1 1) = []" "\<forall>h\<in>?H1. L2 h = L1 h"
    "z_free_pages (zone_of s2 NORMAL_ZONE) = int N2 \<and> z_pages_low (zone_of s2 NORMAL_ZONE) = 0" "\<not> z_locked (zone_of s2 NORMAL_ZONE)"
    "\<forall>c<2. z_pageset (zone_of s2 NORMAL_ZONE) c = boot_pageset" "\<forall>y. y \<noteq> 1 \<longrightarrow> zone_of s2 y = zone_of s1 y"
    "\<forall>p. \<not> (b2 \<le> p \<and> p < b2 + N2) \<longrightarrow> p_private s2 p = p_private s1 p \<and> p_ref s2 p = p_ref s1 p"
    using boot_zone_init_correct [OF pre2 H1] unfolding NORMAL_ZONE_def by auto
  note d2 = boot_relD [OF two(2)]
  let ?H2 = "side_heads 0 \<union> (side_heads 1 \<union> zheads 1 0)"
  have z0: "zone_of s2 KERN_ZONE = zone_of s1 KERN_ZONE" using two(11) by (simp add: KERN_ZONE_def)
  have kern: "boot_rel KERN_ZONE N 0 N ?H2 L2 F1 s2"
  proof (rule boot_rel_other [OF one(2)])
    have "?H1 \<union> side_heads 1 \<union> zheads NORMAL_ZONE 0 = ?H2 \<union> zheads KERN_ZONE 0"
      by (auto simp: KERN_ZONE_def NORMAL_ZONE_def)
    then show "lists_on (?H2 \<union> zheads KERN_ZONE 0) L2 (lh s2)" using d2(1) by metis
    show "\<forall>h\<in>{} \<union> side_heads 0 \<union> zheads KERN_ZONE 0. L2 h = L1 h" using two(7) by (simp add: KERN_ZONE_def)
    show "?H2 \<inter> (range Lru \<union> range (FreeList KERN_ZONE)) = {}"
      by (auto simp: side_heads_def zheads_def KERN_ZONE_def)
    show "\<forall>h\<in>?H2 - ({} \<union> side_heads 0). set (L2 h) \<subseteq> Lru ` {p. \<not> (zbase s1 KERN_ZONE \<le> p \<and> p < zbase s1 KERN_ZONE + N)}"
    proof
      fix h assume h: "h \<in> ?H2 - ({} \<union> side_heads 0)"
      show "set (L2 h) \<subseteq> Lru ` {p. \<not> (zbase s1 KERN_ZONE \<le> p \<and> p < zbase s1 KERN_ZONE + N)}"
      proof (cases "h \<in> side_heads 1")
        case True
        then show ?thesis using two(4-6) by (auto simp: side_heads_def)
      next
        case False
        then obtain m where "h = FreeList 1 m" "m < MEMLEVEL" using h by (auto simp: zheads_def)
        then have "set (L2 h) = (\<lambda>i. Lru (b2 + i)) ` {i. (i, m) \<in> F2}" using d2(5) [of m] two(3) by (simp add: NORMAL_ZONE_def)
        moreover have "i < N2" if "(i, m) \<in> F2" for i by (rule tile_head_less [OF d2(2) that])
        ultimately show ?thesis using out unfolding one(3) by auto
      qed
    qed
    have "\<not> (b2 \<le> b + x \<and> b + x < b2 + N2)" if "x < N" for x
      using dis that unfolding frames_def by (auto simp: disjoint_iff)
    then show "\<forall>x<N. p_private s2 (zbase s1 KERN_ZONE + x) = p_private s1 (zbase s1 KERN_ZONE + x) \<and>
        p_ref s2 (zbase s1 KERN_ZONE + x) = p_ref s1 (zbase s1 KERN_ZONE + x)"
      using two(12) unfolding one(3) by blast
  qed (use z0 in auto)
  have norm: "boot_rel NORMAL_ZONE N2 0 N2 (side_heads 0 \<union> zheads 0 0 \<union> side_heads 1) L2 F2 s2"
    by (rule two(2))
  have L20: "L2 (PcpList 0 0) = []" "L2 (PcpList 0 1) = []"
    using two(7) one(5,6) by (simp_all add: side_heads_def)
  have side: "\<forall>z<2. L2 (PcpList z 0) = [] \<and> L2 (PcpList z 1) = [] \<and> \<not> z_locked (zone_of s2 z) \<and>
       (\<forall>c<2. z_pageset (zone_of s2 z) c = boot_pageset)"
    using L20 two(5,6,9,10) one(8,9) z0 unfolding KERN_ZONE_def NORMAL_ZONE_def less_2_cases_iff by auto
  have rest: "\<forall>p. p \<notin> frames r R \<union> frames b N \<union> frames b2 N2 \<longrightarrow> p_private s2 p = p_private s p \<and> p_ref s2 p = p_ref s p"
    using two(12) one(11) by (auto simp: frames_def)
  show ?thesis
    by (intro exI conjI, rule one(1), rule two(1), rule kern, rule norm)
      (use two(3,8) side rest one(3,7) z0 in simp_all)
qed

section \<open>A small machine\<close>

text \<open>A machine of four frames: frames 0 to 2 are the kernel zone, none is reserved, the normal
  zone is empty.  It serves as the example state of the properties below.\<close>

definition tiny_machine :: bstate where
  "tiny_machine = \<lparr>lh = \<lparr>lnext = (\<lambda>_. None), lprev = (\<lambda>_. None)\<rparr>, pflag = (\<lambda>_. 0),
     p_private = (\<lambda>_. OUT_OF_BUDDY), p_ref = (\<lambda>_. 0), pmem = (\<lambda>_ _. 0),
     zone_of = (\<lambda>_. \<lparr>z_free_pages = 0, z_pages_low = 0, z_pages_reserved = 0, z_nr_free = (\<lambda>_. 0),
       z_pageset = (\<lambda>_. boot_pageset), z_locked = False, zone_first_page = 0\<rparr>),
     npages_num = 4, wakeups = []\<rparr>"

definition tiny_boot :: "bstate option" where
  "tiny_boot = do {
     s \<leftarrow> boot_zone_init KERN_ZONE (3 * PGSIZE) 0 (0 * PGSIZE) 3 tiny_machine;
     boot_zone_init NORMAL_ZONE (0 * PGSIZE) 0 (4 * PGSIZE) 0 s
   }"

lemma tiny_boot_inv:
  "\<exists>s L F. tiny_boot = Some s \<and> buddy_rel KERN_ZONE 3 L F {} s \<and> no_free_buddies F \<and>
     cache_inv KERN_ZONE 3 {} L F {} (\<lambda>_. []) s \<and> zbase s KERN_ZONE = 0 \<and> \<not> z_locked (zone_of s KERN_ZONE) \<and>
     z_free_pages (zone_of s KERN_ZONE) = 3 \<and> z_pages_low (zone_of s KERN_ZONE) = 0 \<and>
     (\<forall>c<2. z_pageset (zone_of s KERN_ZONE) c = boot_pageset) \<and> \<not> z_locked (zone_of s NORMAL_ZONE) \<and>
     z_free_pages (zone_of s NORMAL_ZONE) = 0 \<and> z_pages_low (zone_of s NORMAL_ZONE) = 0"
proof -
  have pre: "boot_pre 3 0 0 3 {} (\<lambda>_. []) tiny_machine"
    by (simp add: boot_pre_def tiny_machine_def lists_on_def nodes_of_def)
  obtain s1 s2 L F F2 where b: "boot_zone_init KERN_ZONE (3 * PGSIZE) 0 (0 * PGSIZE) 3 tiny_machine = Some s1"
    "boot_zone_init NORMAL_ZONE (0 * PGSIZE) 0 (4 * PGSIZE) 0 s1 = Some s2"
    "boot_rel KERN_ZONE 3 0 3 (side_heads 0 \<union> (side_heads 1 \<union> zheads 1 0)) L F s2"
    "boot_rel NORMAL_ZONE 0 0 0 (side_heads 0 \<union> zheads 0 0 \<union> side_heads 1) L F2 s2"
    "zbase s2 KERN_ZONE = 0" "zbase s2 NORMAL_ZONE = 4"
    "\<forall>z<2. L (PcpList z 0) = [] \<and> L (PcpList z 1) = [] \<and> \<not> z_locked (zone_of s2 z) \<and>
       (\<forall>c<2. z_pageset (zone_of s2 z) c = boot_pageset)"
    "z_free_pages (zone_of s2 KERN_ZONE) = int 0 + int 3 \<and> z_pages_low (zone_of s2 KERN_ZONE) = int 0"
    "z_free_pages (zone_of s2 NORMAL_ZONE) = int 0 \<and> z_pages_low (zone_of s2 NORMAL_ZONE) = 0"
    "\<forall>p. p \<notin> frames 3 0 \<union> frames 0 3 \<union> frames 4 0 \<longrightarrow>
       p_private s2 p = p_private tiny_machine p \<and> p_ref s2 p = p_ref tiny_machine p"
    using boot_both [OF pre, of 4 0] by (auto simp: frames_def tiny_machine_def)
  have H: "side_heads 0 \<union> (side_heads 1 \<union> zheads 1 0) \<union> zheads KERN_ZONE 0 = heads"
    by (auto simp: heads_split KERN_ZONE_def)
  have "p_private s2 j = OUT_OF_BUDDY" if "3 \<le> j" for j
    using b(10) that by (simp add: frames_def tiny_machine_def)
  then have "fence KERN_ZONE 3 s2"
    using b(5) by (simp add: fence_def OUT_OF_BUDDY_def MEMLEVEL_def)
  from boot_rel_buddy [OF b(3) H _ this]
  have r: "buddy_rel KERN_ZONE 3 L F {} s2" "no_free_buddies F" by (simp_all add: KERN_ZONE_def NZONES_def)
  have "cache_inv KERN_ZONE 3 {} L F {} (\<lambda>_. []) s2"
    by (rule boot_rel_cache [OF r(1)]) (use b(7) in \<open>simp_all add: pinned_small MEMLEVEL_def KERN_ZONE_def\<close>)
  with r b show ?thesis by (auto simp: tiny_boot_def KERN_ZONE_def NORMAL_ZONE_def)
qed

end
