(* ===== verification/Buddy_Props.thy ===== *)
theory Buddy_Props
  imports Buddy_Boot
begin

text \<open>The properties of the page-frame allocator, stated over the functions of kern/buddy.c, and the
  same functions on the small machine of the previous theory.\<close>

section \<open>Block accounting\<close>

lemma block_sum_split:
  assumes "tiling N (F \<union> A)" "F \<inter> A = {}"
  shows "(\<Sum>b\<in>F. 2 ^ snd b) + (\<Sum>b\<in>A. 2 ^ snd b) = N"
proof -
  have "finite (F \<union> A)" by (rule tiling_finite [OF assms(1)])
  then have "(\<Sum>b\<in>F \<union> A. 2 ^ snd b :: nat) = (\<Sum>b\<in>F. 2 ^ snd b) + (\<Sum>b\<in>A. 2 ^ snd b)"
    using assms(2) by (intro sum.union_disjoint) auto
  then show ?thesis using tiling_sum [OF assms(1)] by simp
qed

text \<open>The number of pages in free blocks.\<close>

definition free_count :: "(nat \<times> nat) set \<Rightarrow> nat" where
  "free_count F = (\<Sum>b\<in>F. 2 ^ snd b)"

lemma free_count_take:
  assumes "tiling N (F \<union> A)" "F \<inter> A = {}" "tiling N (F' \<union> insert b A)" "F' \<inter> insert b A = {}" "b \<notin> A"
  shows "free_count F' + 2 ^ snd b = free_count F"
proof -
  have "finite A" using tiling_finite [OF assms(1)] by simp
  then have "(\<Sum>c\<in>insert b A. 2 ^ snd c) = 2 ^ snd b + (\<Sum>c\<in>A. 2 ^ snd c :: nat)" using assms(5) by simp
  then show ?thesis
    using block_sum_split [OF assms(1,2)] block_sum_split [OF assms(3,4)] by (simp add: free_count_def)
qed

section \<open>The small machine\<close>

lemma tiny_boot_free:
  obtains s L F j k where "tiny_boot = Some s" "buddy_rel KERN_ZONE 3 L F {} s" "no_free_buddies F"
    "zone_first_page (zone_of s KERN_ZONE) = 0" "(j, k) \<in> F" "\<forall>i<3. (top_buddy i, MEMLEVEL - 1) \<notin> F"
    "cache_inv KERN_ZONE 3 {} L F {} (\<lambda>_. []) s" "\<not> z_locked (zone_of s KERN_ZONE)"
proof -
  obtain s L F where s: "tiny_boot = Some s" "buddy_rel KERN_ZONE 3 L F {} s" "no_free_buddies F"
    "zone_first_page (zone_of s KERN_ZONE) = 0" "cache_inv KERN_ZONE 3 {} L F {} (\<lambda>_. []) s" "\<not> z_locked (zone_of s KERN_ZONE)"
    using tiny_boot_inv by blast
  have "F \<noteq> {}" using tiling_sum [OF buddy_relD(3) [OF s(2)]] by auto
  then obtain j k where "(j, k) \<in> F" by auto
  moreover have "(top_buddy i, MEMLEVEL - 1) \<notin> F" if "i < 3" for i
    using pinned_top [OF cache_invD(2,3) [OF s(5)] s(2)] that by blast
  ultimately show thesis using that s by blast
qed

section \<open>The lock of a zone\<close>

text \<open>The functions below \<^verbatim>\<open>__alloc_pages\<close> do not touch the lock of a zone.\<close>

abbreviation locked :: "bstate \<Rightarrow> nat \<Rightarrow> bool" where
  "locked s z \<equiv> z_locked (zone_of s z)"

lemma locked_upd [simp]:
  "locked (set_private p v s) y = locked s y" "locked (add_nr_free z k d s) y = locked s y"
  "locked (add_free_pages z e s) y = locked s y" "locked (zero_pages n p s) y = locked s y"
  "locked (s\<lparr>lh := h\<rparr>) y = locked s y" "locked (upd_pageset z c f s) y = locked s y"
  by (simp_all add: bupd zero_pages_def)

lemma b_list_locked: "b_list_add n a s = Some s' \<Longrightarrow> locked s' y = locked s y" "b_list_del n s = Some s' \<Longrightarrow> locked s' y = locked s y"
  by (auto simp: b_list_add_def b_list_del_def)

lemma rmqueue_scan_locked: "rmqueue_scan z order k s = Some (r, s') \<Longrightarrow> locked s' y = locked s y"
proof (induction z order k s rule: rmqueue_scan.induct)
  case (1 z order k s)
  from "1.prems" show ?case
    by (subst (asm) rmqueue_scan.simps) (auto simp: Let_def dest: "1.IH" b_list_locked(2) [where y = y] split: if_splits)
qed

lemma rmqueue_split_locked: "rmqueue_split z order p k s = Some s' \<Longrightarrow> locked s' y = locked s y"
  by (cases "y = z") (auto dest!: split_same simp: buddy_same_def)

lemma rmqueue_locked: "rmqueue z order s = Some (r, s') \<Longrightarrow> locked s' y = locked s y"
  by (auto simp: rmqueue_def split: if_splits option.splits dest!: rmqueue_scan_locked rmqueue_split_locked)

lemma pcp_refill_locked: "pcp_refill n z c s = Some (ok, s') \<Longrightarrow> locked s' y = locked s y"
  by (induction n arbitrary: s)
    (auto split: option.splits dest!: rmqueue_locked [where y = y] b_list_locked(1) [where y = y])

lemma pcp_take_locked: "pcp_take z c s = Some (r, s') \<Longrightarrow> locked s' y = locked s y"
  by (auto simp: pcp_take_def Let_def dest!: b_list_locked(2) [where y = y])

lemma pcp_alloc_locked:
  assumes "pcp_alloc z c s = Some (r, s')" shows "locked s' y = locked s y"
proof (cases "pcount (z_pageset (zone_of s z) c) \<le> plow (z_pageset (zone_of s z) c)")
  case True
  define b where "b = (phigh (z_pageset (zone_of s z) c) - plow (z_pageset (zone_of s z) c)) div 2 + 1"
  define s1 where "s1 = upd_pageset z c (\<lambda>c. c\<lparr>pbatch := b\<rparr>) s"
  have s1: "locked s1 y = locked s y" by (simp add: s1_def)
  consider "s' = s1" | s2 where "pcp_refill (unat b) z c s1 = Some (False, s2)" "s' = s2"
    | s2 where "pcp_refill (unat b) z c s1 = Some (True, s2)" "pcp_take z c (upd_pageset z c (\<lambda>c. c\<lparr>pbatch := 0\<rparr>) s2) = Some (r, s')"
    using assms True unfolding pcp_alloc_def Let_def b_def [symmetric] s1_def [symmetric]
    by (auto split: if_splits)
  then show ?thesis
    by cases (use s1 pcp_refill_locked [of "unat b" z c s1 _ _ y] pcp_take_locked [where y = y] in fastforce)+
next
  case False
  then have "pcp_take z c s = Some (r, s')" using assms by (simp add: pcp_alloc_def Let_def)
  then show ?thesis by (rule pcp_take_locked)
qed

lemma buffered_rmqueue_locked:
  assumes "buffered_rmqueue z order g s = Some (r, s')" shows "locked s' y = locked s y"
proof -
  obtain r1 s1 where one: "(if order = 0 then pcp_alloc z (unat (g AND GFP_COLD)) s
      else if z_free_pages (zone_of s z) - 2 ^ order \<le> z_pages_low (zone_of s z) then Some (None, s)
      else rmqueue z (int order) s) = Some (r1, s1)"
    and two: "(case r1 of None \<Rightarrow> Some (None, s1)
     | Some page \<Rightarrow> let s = set_private page OUT_OF_BUDDY s1;
             s = (if g AND GFP_ZERO \<noteq> 0 then zero_pages (2 ^ order) page s else s)
         in Some (Some page, s)) = Some (r, s')"
    using assms unfolding buffered_rmqueue_def by (auto simp del: One_nat_def)
  have "locked s1 y = locked s y"
    using one by (auto split: if_splits dest!: pcp_alloc_locked [where y = y] rmqueue_locked [where y = y])
  moreover have "locked s' y = locked s1 y" using two by (auto simp: Let_def split: option.splits if_splits)
  ultimately show ?thesis by simp
qed

section \<open>Properties\<close>

text \<open>C1: \<^verbatim>\<open>__rmqueue\<close> implements best-fit allocation from the set of free blocks: when some free
  block is large enough it returns the first page of a free block of the least sufficient order,
  gives the upper halves back, keeps the invariant and the maximal coalescing, and charges exactly
  the pages of the block; the block handed out was free and is on no list.\<close>

theorem rmqueue_best_fit:
  assumes "buddy_rel z N L F A s" "no_free_buddies F" "(j, k) \<in> F" "order \<le> k"
  shows "\<exists>i c s' L'. rmqueue z (int order) s = Some (Some (zone_first_page (zone_of s z) + i), s') \<and>
    (i, c) \<in> F \<and> order \<le> c \<and> (\<forall>i' m. (i', m) \<in> F \<and> order \<le> m \<longrightarrow> c \<le> m) \<and>
    buddy_rel z N L' (F - {(i, c)} \<union> upper_halves i order c) (insert (i, order) A) s' \<and>
    no_free_buddies (F - {(i, c)} \<union> upper_halves i order c) \<and> off_lists z L' heads {(i, order)} s' \<and>
    free_count (F - {(i, c)} \<union> upper_halves i order c) + 2 ^ order = free_count F \<and>
    z_free_pages (zone_of s' z) = z_free_pages (zone_of s z) - 2 ^ order"
proof -
  obtain i c s' L' where r: "rmqueue z (int order) s = Some (Some (zbase s z + i), s')" "(i, c) \<in> F" "order \<le> c"
    "\<forall>i' m. (i', m) \<in> F \<and> order \<le> m \<longrightarrow> c \<le> m"
    "buddy_rel z N L' (F - {(i, c)} \<union> upper_halves i order c) (insert (i, order) A) s'"
    "off_lists z L' heads {(i, order)} s'" "z_free_pages (zone_of s' z) = z_free_pages (zone_of s z) - 2 ^ order"
    using rmqueue_succeed [OF assms(1,3,4)] by (elim exE conjE) (rule that; assumption)
  note d = buddy_relD [OF assms(1)] and d' = buddy_relD [OF r(5)]
  have al: "aligned (i, c)" using tiling_aligned [OF d(3)] r(2) by blast
  have new: "(i, order) \<notin> A" using tile_head_eq [OF d(3), of i c order] r(2) d(4) by auto
  have "free_count (F - {(i, c)} \<union> upper_halves i order c) + 2 ^ order = free_count F"
    using free_count_take [OF d(3,4) d'(3,4) new] by simp
  then show ?thesis
    using r no_free_buddies_alloc [OF assms(2) d'(3) al d'(4)] by blast
qed

theorem rmqueue_best_fit_witness:
  "\<exists>s s' L F i c L' j k. tiny_boot = Some s \<and> (j, k) \<in> F \<and> rmqueue KERN_ZONE (int 0) s = Some (Some (0 + i), s') \<and> (i, c) \<in> F \<and>
     buddy_rel KERN_ZONE 3 L F {} s \<and>
     buddy_rel KERN_ZONE 3 L' (F - {(i, c)} \<union> upper_halves i 0 c) {(i, 0)} s'"
proof -
  obtain s L F j k where s: "tiny_boot = Some s" "buddy_rel KERN_ZONE 3 L F {} s" "no_free_buddies F"
    "zone_first_page (zone_of s KERN_ZONE) = 0" "(j, k) \<in> F"
    by (rule tiny_boot_free)
  obtain i c s' L' where "rmqueue KERN_ZONE (int 0) s = Some (Some (0 + i), s')" "(i, c) \<in> F"
    "buddy_rel KERN_ZONE 3 L' (F - {(i, c)} \<union> upper_halves i 0 c) {(i, 0)} s'"
    using rmqueue_best_fit [OF s(2,3,5) le0] unfolding s(4) by blast
  with s show ?thesis by blast
qed

text \<open>When no free block is large enough \<^verbatim>\<open>__rmqueue\<close> returns NULL and changes nothing.\<close>

theorem rmqueue_exhausted:
  assumes "buddy_rel z N L F A s" "\<forall>i k. (i, k) \<in> F \<longrightarrow> k < order"
  shows "rmqueue z (int order) s = Some (None, s)"
  by (rule rmqueue_fail [OF assms])

theorem rmqueue_exhausted_witness: "\<exists>s. tiny_boot = Some s \<and> rmqueue KERN_ZONE (int 2) s = Some (None, s)"
proof -
  obtain s L F where s: "tiny_boot = Some s" "buddy_rel KERN_ZONE 3 L F {} s" using tiny_boot_inv by blast
  have "k < 2" if "(i, k) \<in> F" for i k
  proof (rule ccontr)
    assume "\<not> k < 2"
    then have "(2 :: nat) ^ 2 \<le> 2 ^ k" by (intro power_increasing) auto
    moreover have "blk (i, k) \<subseteq> {..<3}" using tiling_sub [OF buddy_relD(3) [OF s(2)]] that by simp
    then have "card (blk (i, k)) \<le> card {..<3 :: nat}" by (intro card_mono) simp_all
    ultimately show False by (simp add: blk_def)
  qed
  then show ?thesis using rmqueue_exhausted [OF s(2), of 2] s(1) by blast
qed

text \<open>C2: \<^verbatim>\<open>__free_pages_bulk\<close> implements the coalescing release: a block in use that is on no list
  returns to the set of free blocks merged with its free buddies as far as possible; the invariant
  and the maximal coalescing are kept and the free count grows by the pages of the block.  The
  hypothesis on \<open>top_buddy\<close> excludes the merge beyond the highest order.\<close>

theorem free_pages_bulk_coalesces:
  assumes "buddy_rel z N L F A s" "no_free_buddies F" "(i, k) \<in> A" "off_lists z L heads {(i, k)} s"
    "unref z (i, k) s" "(top_buddy i, MEMLEVEL - 1) \<notin> F"
  shows "\<exists>s' L'. buddy_free_bulk (zone_first_page (zone_of s z) + i) z k s = Some s' \<and>
    buddy_rel z N L' (abs_free F i k) (A - {(i, k)}) s' \<and> no_free_buddies (abs_free F i k) \<and>
    free_count (abs_free F i k) = free_count F + 2 ^ k \<and>
    z_free_pages (zone_of s' z) = z_free_pages (zone_of s z) + 2 ^ k"
proof -
  obtain s' L' where r: "buddy_free_bulk (zbase s z + i) z k s = Some s'"
    "buddy_rel z N L' (abs_free F i k) (A - {(i, k)}) s'"
    "z_free_pages (zone_of s' z) = z_free_pages (zone_of s z) + 2 ^ k"
    using buddy_free_bulk_correct [OF assms(1,3,4,5,6)] by (elim exE conjE) (rule that; assumption)
  note d = buddy_relD [OF assms(1)] and d' = buddy_relD [OF r(2)]
  have "insert (i, k) (A - {(i, k)}) = A" using assms(3) by auto
  then have "free_count F + 2 ^ k = free_count (abs_free F i k)"
    using free_count_take [OF d'(3,4), of F "(i, k)"] d(3,4) by simp
  then show ?thesis using r no_free_buddies_free [OF assms(2)] by auto
qed

theorem free_pages_bulk_coalesces_witness:
  "\<exists>s p s1 s2 L' F'. tiny_boot = Some s \<and> rmqueue KERN_ZONE (int 0) s = Some (Some p, s1) \<and>
     buddy_free_bulk p KERN_ZONE 0 s1 = Some s2 \<and> buddy_rel KERN_ZONE 3 L' F' {} s2"
proof -
  obtain s L F j k where s: "tiny_boot = Some s" "buddy_rel KERN_ZONE 3 L F {} s" "no_free_buddies F"
    "(j, k) \<in> F" "cache_inv KERN_ZONE 3 {} L F {} (\<lambda>_. []) s"
    by (rule tiny_boot_free)
  obtain i c s1 L1 where r: "rmqueue KERN_ZONE (int 0) s = Some (Some (zbase s KERN_ZONE + i), s1)"
    "buddy_rel KERN_ZONE 3 L1 (F - {(i, c)} \<union> upper_halves i 0 c) {(i, 0)} s1"
    "off_lists KERN_ZONE L1 heads {(i, 0)} s1" "unref KERN_ZONE (i, 0) s1" "buddy_same KERN_ZONE s s1" "(i, c) \<in> F"
    using rmqueue_succeed [OF s(2,4) le0] by (elim exE conjE) (rule that; assumption)
  note d = buddy_relD [OF s(2)] and d1 = buddy_relD [OF r(2)]
  have "aligned (i, c)" using tiling_aligned [OF d(3)] r(6) by blast
  then have n: "no_free_buddies (F - {(i, c)} \<union> upper_halves i 0 c)"
    by (rule no_free_buddies_alloc [OF s(3) d1(3) _ d1(4)])
  have "i < 3" using tile_head_less [OF d(3)] r(6) by blast
  then have top: "(top_buddy i, MEMLEVEL - 1) \<notin> F - {(i, c)} \<union> upper_halves i 0 c"
    by (intro pinned_top [OF cache_invD(2) [OF s(5)] _ r(2)]) auto
  have base: "zbase s1 KERN_ZONE = zbase s KERN_ZONE" using r(5) by (simp add: buddy_same_def)
  obtain s2 L2 where "buddy_free_bulk (zbase s KERN_ZONE + i) KERN_ZONE 0 s1 = Some s2"
    "buddy_rel KERN_ZONE 3 L2 (abs_free (F - {(i, c)} \<union> upper_halves i 0 c) i 0) ({(i, 0)} - {(i, 0)}) s2"
    using free_pages_bulk_coalesces [OF r(2) n singletonI r(3,4) top] unfolding base by blast
  then show ?thesis using s(1) r(1) by (metis Diff_cancel)
qed

text \<open>C3: freeing the block that \<^verbatim>\<open>__rmqueue\<close> has just handed out gives back exactly the old set of
  free blocks, and the old number of free pages.\<close>

theorem rmqueue_free_roundtrip:
  assumes "buddy_rel z N L F A s" "no_free_buddies F" "(j, k) \<in> F" "order \<le> k"
    "\<forall>i<N. (top_buddy i, MEMLEVEL - 1) \<notin> F"
  shows "\<exists>p s1 s2 L2. rmqueue z (int order) s = Some (Some p, s1) \<and> buddy_free_bulk p z order s1 = Some s2 \<and>
    buddy_rel z N L2 F A s2 \<and> z_free_pages (zone_of s2 z) = z_free_pages (zone_of s z)"
proof -
  obtain i c s1 L1 where r: "rmqueue z (int order) s = Some (Some (zbase s z + i), s1)" "(i, c) \<in> F" "order \<le> c"
    "buddy_rel z N L1 (F - {(i, c)} \<union> upper_halves i order c) (insert (i, order) A) s1"
    "off_lists z L1 heads {(i, order)} s1" "unref z (i, order) s1" "buddy_same z s s1"
    "z_free_pages (zone_of s1 z) = z_free_pages (zone_of s z) - 2 ^ order"
    using rmqueue_succeed [OF assms(1,3,4)] by (elim exE conjE) (rule that; assumption)
  note d = buddy_relD [OF assms(1)]
  have base: "zbase s1 z = zbase s z" using r(7) by (simp add: buddy_same_def)
  have iN: "i < N" using tile_head_less [OF d(3)] r(2) by blast
  have al: "aligned (i, c)" "c < MEMLEVEL" using tiling_aligned [OF d(3)] r(2) by auto
  have top: "(top_buddy i, MEMLEVEL - 1) \<notin> F" using assms(5) iN by blast
  then have "(top_buddy i, MEMLEVEL - 1) \<notin> F - {(i, c)} \<union> upper_halves i order c"
    using al(2) by (auto simp: upper_halves_def)
  from buddy_free_bulk_correct [OF r(4) insertI1 r(5,6) this]
  obtain s2 L2 where f: "buddy_free_bulk (zbase s z + i) z order s1 = Some s2"
    "buddy_rel z N L2 (abs_free (F - {(i, c)} \<union> upper_halves i order c) i order) (insert (i, order) A - {(i, order)}) s2"
    "z_free_pages (zone_of s2 z) = z_free_pages (zone_of s1 z) + 2 ^ order"
    unfolding base by (elim exE conjE) (rule that; assumption)
  have "(i, order) \<notin> A" using tile_head_eq [OF d(3), of i c order] r(2) d(4) by auto
  then have "insert (i, order) A - {(i, order)} = A" by auto
  then have "buddy_rel z N L2 F A s2"
    using f(2) alloc_free_blocks [OF d(3) r(2,3) assms(2) top] by simp
  moreover have "z_free_pages (zone_of s2 z) = z_free_pages (zone_of s z)" using r(8) f(3) by simp
  ultimately show ?thesis using r(1) f(1) by blast
qed

theorem rmqueue_free_roundtrip_witness:
  "\<exists>s p s1 s2 L F. tiny_boot = Some s \<and> rmqueue KERN_ZONE (int 0) s = Some (Some p, s1) \<and>
     buddy_free_bulk p KERN_ZONE 0 s1 = Some s2 \<and> buddy_rel KERN_ZONE 3 L F {} s2"
proof -
  obtain s L F j k where s: "tiny_boot = Some s" "buddy_rel KERN_ZONE 3 L F {} s" "no_free_buddies F"
    "(j, k) \<in> F" "\<forall>i<3. (top_buddy i, MEMLEVEL - 1) \<notin> F"
    by (rule tiny_boot_free)
  show ?thesis using rmqueue_free_roundtrip [OF s(2,3,4) le0 s(5)] s(1) by blast
qed

text \<open>C4: freeing a page into a page cache (\<^verbatim>\<open>free_hot_cold_page\<close>) always returns, with the zone lock
  released: when the cache is above its high mark, its oldest pages go back to the buddy system one
  by one, coalescing; the page becomes the first of the cache; the invariant of the buddy system
  and the caches is kept and a waiter is woken.\<close>

theorem free_hot_cold_page_keeps_cache:
  assumes "cache_inv z N P L F A C s" "c < 2" "(i, 0) \<in> A" "(i, 0) \<notin> P" "off_lists z L heads {(i, 0)} s"
    "page_zone_idx (zone_first_page (zone_of s z) + i) s = z" "\<not> z_locked (zone_of s z)"
  shows "\<exists>s' L'. free_hot_cold_page (zone_first_page (zone_of s z) + i) c s = Some s' \<and> \<not> z_locked (zone_of s' z) \<and>
    cache_inv z N P L' (abs_free_list (drained z c C s) F) (A - pages0 (drained z c C s)) (C(c := i # kept z c C s)) s' \<and>
    z_free_pages (zone_of s' z) = z_free_pages (zone_of s z) + int (length (drained z c C s)) \<and>
    wakeups s' = wakeups s @ [z]"
  by (rule free_hot_cold_page_correct [OF assms])

text \<open>The small machine after its first page has been taken out of the buddy system, all page flags
  clear.\<close>

lemma tiny_boot_taken:
  obtains s i L F where "cache_inv KERN_ZONE 3 {} L F {(i, 0)} (\<lambda>_. []) s" "off_lists KERN_ZONE L heads {(i, 0)} s"
    "pflag s = (\<lambda>_. 0)" "\<not> z_locked (zone_of s KERN_ZONE)"
proof -
  obtain s L F j k where s: "buddy_rel KERN_ZONE 3 L F {} s" "(j, k) \<in> F" "cache_inv KERN_ZONE 3 {} L F {} (\<lambda>_. []) s"
    "\<not> z_locked (zone_of s KERN_ZONE)"
    by (rule tiny_boot_free)
  obtain i c s1 L1 where r: "buddy_rel KERN_ZONE 3 L1 (F - {(i, c)} \<union> upper_halves i 0 c) {(i, 0)} s1"
    "off_lists KERN_ZONE L1 heads {(i, 0)} s1" "buddy_same KERN_ZONE s s1" "same_other KERN_ZONE L L1"
    using rmqueue_succeed [OF s(1,2) le0] by (elim exE conjE) (rule that; assumption)
  let ?s = "s1\<lparr>pflag := \<lambda>_. 0\<rparr>"
  have "cache_inv KERN_ZONE 3 {} L1 (F - {(i, c)} \<union> upper_halves i 0 c) {(i, 0)} (\<lambda>_. []) s1"
    by (rule cache_inv_buddy [OF s(3) r(1,3,4)]) (simp_all add: pages0_def)
  moreover have "cache_inv KERN_ZONE 3 {} L1 F' A C ?s = cache_inv KERN_ZONE 3 {} L1 F' A C s1" for F' A C
    by (rule cache_inv_cong, rule buddy_rel_cong) simp_all
  moreover have "off_lists KERN_ZONE L1 heads {(i, 0)} ?s" using r(2) by (simp add: off_lists_def)
  moreover have "\<not> z_locked (zone_of ?s KERN_ZONE)" using r(3) s(4) by (simp add: buddy_same_def)
  ultimately show thesis using that [of L1 _ i ?s] by auto
qed

theorem free_hot_cold_page_keeps_cache_witness:
  "\<exists>s i s' L' F A C. free_hot_cold_page (zone_first_page (zone_of s KERN_ZONE) + i) HOT_ZONE_PAGESET s = Some s' \<and>
     cache_inv KERN_ZONE 3 {} L' F A C s' \<and> wakeups s' = wakeups s @ [KERN_ZONE]"
proof -
  obtain s i L F where s: "cache_inv KERN_ZONE 3 {} L F {(i, 0)} (\<lambda>_. []) s" "off_lists KERN_ZONE L heads {(i, 0)} s"
    "pflag s = (\<lambda>_. 0)" "\<not> z_locked (zone_of s KERN_ZONE)"
    by (rule tiny_boot_taken)
  have z: "page_zone_idx (zone_first_page (zone_of s KERN_ZONE) + i) s = KERN_ZONE"
    by (simp add: page_zone_idx_def s(3) KERN_ZONE_def)
  have c: "HOT_ZONE_PAGESET < 2" "(i, 0) \<notin> {}" by (simp_all add: HOT_ZONE_PAGESET_def)
  from free_hot_cold_page_keeps_cache [OF s(1) c(1) singletonI c(2) s(2) z s(4)]
  show ?thesis by (elim exE conjE) (intro exI conjI)
qed

text \<open>C5: an allocation of one page through the page caches (\<^verbatim>\<open>buffered_rmqueue\<close>) never hands out a
  page that a client holds: it always returns; on success the page was owned by no client, is on
  no list, is marked as outside the buddy system and is zeroed when asked for; on failure the
  clients hold what they held; the invariants are kept in both cases.\<close>

theorem buffered_rmqueue_no_double_allocation:
  assumes "cache_inv z N P L F A C s"
  shows "\<exists>r s'. buffered_rmqueue z 0 g s = Some (r, s') \<and> page_alloc_post z N P (owned C A) s r s' \<and>
    (\<forall>p. r = Some p \<longrightarrow> p_private s' p = OUT_OF_BUDDY \<and> (g AND GFP_ZERO \<noteq> 0 \<longrightarrow> pmem s' p = (\<lambda>_. 0)))"
  by (rule buffered_rmqueue_page_correct [OF assms])

theorem buffered_rmqueue_no_double_allocation_witness:
  "\<exists>s r s'. tiny_boot = Some s \<and> buffered_rmqueue KERN_ZONE 0 GFP_ZERO s = Some (r, s') \<and>
     page_alloc_post KERN_ZONE 3 {} (owned (\<lambda>_. []) {}) s r s'"
proof -
  obtain s L F j k where s: "tiny_boot = Some s" "cache_inv KERN_ZONE 3 {} L F {} (\<lambda>_. []) s"
    by (rule tiny_boot_free)
  show ?thesis using buffered_rmqueue_no_double_allocation [OF s(2), of GFP_ZERO] s(1) by blast
qed

text \<open>The zone loop keeps locks that are held, and leaves the lock of a zone held that could not serve the request
  although it was above its low mark.\<close>

lemma zone_unlock_frame:
  assumes "zone_unlock z s = Some s'"
  shows "y \<noteq> z \<Longrightarrow> zone_of s' y = zone_of s y" "z_free_pages (zone_of s' y) = z_free_pages (zone_of s y)" "z_pages_low (zone_of s' y) = z_pages_low (zone_of s y)"
  using assms by (auto simp: zone_unlock_def bupd split: if_splits)

lemma zone_lock_frame:
  assumes "zone_lock z s = Some s'"
  shows "\<not> locked s z" "locked s' z" "y \<noteq> z \<Longrightarrow> zone_of s' y = zone_of s y" "z_free_pages (zone_of s' y) = z_free_pages (zone_of s y)"
    "z_pages_low (zone_of s' y) = z_pages_low (zone_of s y)"
  using assms by (auto simp: zone_lock_def bupd split: if_splits)

lemma alloc_zones_locked: "alloc_zones zs k g s = Some (None, s') \<Longrightarrow> locked s y \<Longrightarrow> locked s' y"
proof (induction zs arbitrary: s)
  case (Cons z zs)
  obtain s1 where s1: "zone_lock z s = Some s1" using Cons.prems(1) by auto
  have "y \<noteq> z" using zone_lock_frame(1) [OF s1] Cons.prems(2) by blast
  then have y: "y \<noteq> z" "locked s1 y" using zone_lock_frame(3) [OF s1] Cons.prems(2) by simp_all
  show ?case
  proof (cases "z_free_pages (zone_of s1 z) - 2 ^ k \<le> z_pages_low (zone_of s1 z)")
    case True
    then obtain s2 where "zone_unlock z s1 = Some s2" "alloc_zones zs k g s2 = Some (None, s')" using Cons.prems(1) s1 by auto
    then show ?thesis using Cons.IH [of s2] zone_unlock_frame(1) [of z s1 s2 y] y by simp
  next
    case False
    then obtain s2 where "buffered_rmqueue z k g s1 = Some (None, s2)" "alloc_zones zs k g s2 = Some (None, s')"
      using Cons.prems(1) s1 by (auto split: option.splits)
    then show ?thesis using Cons.IH [of s2] buffered_rmqueue_locked y(2) by blast
  qed
qed simp

lemma alloc_zones_leaks:
  assumes "alloc_zones (z # zs) k g s = Some (None, s')" "z_pages_low (zone_of s z) < z_free_pages (zone_of s z) - 2 ^ k"
  shows "locked s' z"
proof -
  obtain s1 where s1: "zone_lock z s = Some s1" using assms(1) by auto
  then have "\<not> z_free_pages (zone_of s1 z) - 2 ^ k \<le> z_pages_low (zone_of s1 z)" using zone_lock_frame [OF s1] assms(2) by simp
  then obtain s2 where "buffered_rmqueue z k g s1 = Some (None, s2)" "alloc_zones zs k g s2 = Some (None, s')"
    using assms(1) s1 by (auto split: option.splits)
  then show ?thesis using alloc_zones_locked buffered_rmqueue_locked zone_lock_frame(2) [OF s1] by blast
qed

lemma alloc_zones_skip:
  assumes "z_free_pages (zone_of s z) - 2 ^ k \<le> z_pages_low (zone_of s z)" "alloc_zones (z # zs) k g s = Some r"
  obtains t where "alloc_zones zs k g t = Some r" "\<And>y. y \<noteq> z \<Longrightarrow> zone_of t y = zone_of s y"
proof -
  obtain s1 where s1: "zone_lock z s = Some s1" using assms(2) by auto
  then obtain t where t: "zone_unlock z s1 = Some t" "alloc_zones zs k g t = Some r" using assms zone_lock_frame(4,5) [OF s1] by auto
  then show thesis using that zone_unlock_frame(1) [OF t(1)] zone_lock_frame(3) [OF s1] by auto
qed

text \<open>C6: a failed allocation leaks a lock.  When \<^verbatim>\<open>buffered_rmqueue\<close> fails on a zone, the zone loop of \<^verbatim>\<open>__alloc_pages\<close> goes on without
  releasing the lock of that zone.  So after an ordinary allocation that reports failure: if the normal zone was above its
  low mark, every later ordinary allocation runs into the deadlock panic of its lock; otherwise, if the kernel zone was
  above its low mark, every later allocation for devices or interrupts and every ordinary one that the normal zone
  is too low to serve runs into the deadlock panic of the lock of the kernel zone.\<close>

theorem failed_allocation_leaks_lock:
  assumes "0 \<le> order" "order < int MEMLEVEL" "g AND GFP_DMA = 0" "g AND GFP_IRQ = 0" "alloc_pages order g s = Some (NoPage, s')"
  shows "if z_pages_low (zone_of s NORMAL_ZONE) < z_free_pages (zone_of s NORMAL_ZONE) - 2 ^ nat order
    then \<forall>n h. 0 \<le> n \<and> n < int MEMLEVEL \<and> h AND GFP_DMA = 0 \<and> h AND GFP_IRQ = 0 \<longrightarrow> alloc_pages n h s' = None
    else z_pages_low (zone_of s KERN_ZONE) < z_free_pages (zone_of s KERN_ZONE) - 2 ^ nat order \<longrightarrow>
      (\<forall>n h. 0 \<le> n \<and> n < int MEMLEVEL \<and> (h AND GFP_DMA \<noteq> 0 \<or> h AND GFP_IRQ \<noteq> 0 \<or>
         z_free_pages (zone_of s' NORMAL_ZONE) - 2 ^ nat n \<le> z_pages_low (zone_of s' NORMAL_ZONE)) \<longrightarrow> alloc_pages n h s' = None)"
proof -
  have r: "alloc_zones [NORMAL_ZONE, KERN_ZONE] (nat order) (g AND NOT GFP_COLD) s = Some (None, s')"
    using assms by (auto simp: alloc_pages_def Let_def split: option.splits if_splits)
  show ?thesis
  proof (cases "z_pages_low (zone_of s NORMAL_ZONE) < z_free_pages (zone_of s NORMAL_ZONE) - 2 ^ nat order")
    case True
    have "zone_lock NORMAL_ZONE s' = None" using alloc_zones_leaks [OF r True] by (simp add: zone_lock_def)
    then show ?thesis using True by (simp add: alloc_pages_def Let_def)
  next
    case False
    have ne: "KERN_ZONE \<noteq> NORMAL_ZONE" by (simp add: KERN_ZONE_def NORMAL_ZONE_def)
    obtain t where t: "alloc_zones [KERN_ZONE] (nat order) (g AND NOT GFP_COLD) t = Some (None, s')" "zone_of t KERN_ZONE = zone_of s KERN_ZONE"
      using alloc_zones_skip [OF _ r] False ne by (metis not_less)
    have "alloc_pages n h s' = None"
      if k: "z_pages_low (zone_of s KERN_ZONE) < z_free_pages (zone_of s KERN_ZONE) - 2 ^ nat order" and n: "0 \<le> n" "n < int MEMLEVEL"
        and h: "h AND GFP_DMA \<noteq> 0 \<or> h AND GFP_IRQ \<noteq> 0 \<or> z_free_pages (zone_of s' NORMAL_ZONE) - 2 ^ nat n \<le> z_pages_low (zone_of s' NORMAL_ZONE)"
      for n h
    proof -
      have l: "locked s' KERN_ZONE" using alloc_zones_leaks [OF t(1)] t(2) k by simp
      then have zl: "zone_lock KERN_ZONE s' = None" by (simp add: zone_lock_def)
      have none: "alloc_zones [NORMAL_ZONE, KERN_ZONE] (nat n) f s' = None"
        if low: "z_free_pages (zone_of s' NORMAL_ZONE) - 2 ^ nat n \<le> z_pages_low (zone_of s' NORMAL_ZONE)" for f
      proof (rule ccontr)
        assume "alloc_zones [NORMAL_ZONE, KERN_ZONE] (nat n) f s' \<noteq> None"
        then obtain r where "alloc_zones [NORMAL_ZONE, KERN_ZONE] (nat n) f s' = Some r" by blast
        then obtain u where u: "alloc_zones [KERN_ZONE] (nat n) f u = Some r" "zone_of u KERN_ZONE = zone_of s' KERN_ZONE"
          using alloc_zones_skip [OF low] ne by metis
        then show False using l by (simp add: zone_lock_def)
      qed
      show ?thesis using h n zl none by (auto simp: alloc_pages_def alloc_dma_def alloc_irq_def Let_def simp del: alloc_zones.simps)
    qed
    then show ?thesis using False by simp
  qed
qed

theorem failed_allocation_leaks_lock_witness:
  "\<exists>s s'. tiny_boot = Some s \<and> alloc_pages 0 0 s = Some (NoPage, s') \<and> alloc_pages 0 GFP_DMA s' = None"
proof -
  obtain s L F where s: "tiny_boot = Some s" "cache_inv KERN_ZONE 3 {} L F {} (\<lambda>_. []) s"
    "\<not> z_locked (zone_of s KERN_ZONE)" "z_free_pages (zone_of s KERN_ZONE) = 3" "z_pages_low (zone_of s KERN_ZONE) = 0"
    "\<forall>c<2. z_pageset (zone_of s KERN_ZONE) c = boot_pageset"
    "\<not> z_locked (zone_of s NORMAL_ZONE)" "z_free_pages (zone_of s NORMAL_ZONE) = 0" "z_pages_low (zone_of s NORMAL_ZONE) = 0"
    using tiny_boot_inv by blast
  let ?t = "upd_zone NORMAL_ZONE (\<lambda>r. r\<lparr>z_locked := False\<rparr>) (upd_zone NORMAL_ZONE (\<lambda>r. r\<lparr>z_locked := True\<rparr>) s)"
  let ?s = "upd_zone KERN_ZONE (\<lambda>r. r\<lparr>z_locked := True\<rparr>) ?t"
  have ne: "KERN_ZONE \<noteq> NORMAL_ZONE" by (simp add: KERN_ZONE_def NORMAL_ZONE_def)
  have "?t = s" using s(7) by (cases s) (simp add: upd_zone_def fun_upd_idem)
  then have ci: "cache_inv KERN_ZONE 3 {} L F {} (\<lambda>_. []) ?s" using s(2) by simp
  have ps: "z_pageset (zone_of ?s KERN_ZONE) 0 = boot_pageset" using s(6) ne by (simp add: bupd)
  have "\<exists>s'. pcp_alloc KERN_ZONE 0 ?s = Some (None, s')"
    by (rule pcp_alloc_small_zone [OF ci]) (simp_all add: ps boot_pageset_def)
  then obtain s' where "pcp_alloc KERN_ZONE 0 ?s = Some (None, s')" ..
  then have b: "buffered_rmqueue KERN_ZONE 0 0 ?s = Some (None, s')" by (simp add: buffered_rmqueue_def)
  have a: "alloc_pages 0 0 s = Some (NoPage, s')"
    using s(3-9) b ne by (simp add: alloc_pages_def MEMLEVEL_def zone_lock_def zone_unlock_def Let_def) (simp add: bupd)
  have low: "\<not> z_pages_low (zone_of s NORMAL_ZONE) < z_free_pages (zone_of s NORMAL_ZONE) - 2 ^ nat 0"
    "z_pages_low (zone_of s KERN_ZONE) < z_free_pages (zone_of s KERN_ZONE) - 2 ^ nat 0" using s(4,5,8,9) by simp_all
  have "alloc_pages 0 GFP_DMA s' = None"
    using failed_allocation_leaks_lock [OF _ _ _ _ a] low by (simp add: MEMLEVEL_def GFP_DMA_def)
  then show ?thesis using s(1) a by blast
qed

end
