(* ===== verification/Slab.thy ===== *)
theory Slab
  imports Buddy
begin

text \<open>
  The object allocator: slab caches (include/slab.h, kern/slab.c) and \<^verbatim>\<open>kmalloc\<close>/\<^verbatim>\<open>kfree\<close>
  (kern/kmalloc.c).

  A slab descriptor is found by its address.  Its array of free-list links \<^verbatim>\<open>objs_desc_array\<close> is
  a function from index to \<^verbatim>\<open>ushort\<close>; the number of entries is the one of its cache, an access
  behind it is a fault.  Caches are numbered: \<open>0 .. 15\<close> are \<^verbatim>\<open>normal_caches\<close>, \<open>META\<close> is
  \<^verbatim>\<open>meta_cache\<close>.  Like the source, the allocator stores the cache and the slab of a page in the
  \<^verbatim>\<open>lru\<close> field of its descriptor.  An allocation that puts the process to sleep in the page
  allocator ends with \<open>KBlocked\<close>.
\<close>

section \<open>Data\<close>

definition SLAB_SIZE :: nat where "SLAB_SIZE = 4096"
definition SLAB_OBJ_DESP :: nat where "SLAB_OBJ_DESP = 8"
definition BUFCTL_END :: u16 where "BUFCTL_END = 0xFFFF"
definition NKMEMCACHE :: nat where "NKMEMCACHE = 16"
definition META :: nat where "META = 16"

text \<open>\<^verbatim>\<open>sizeof(struct slab)\<close> on the 32-bit target: 4 + 2 + 2 + 4 + 16 + 8.\<close>

definition sizeof_slab :: nat where "sizeof_slab = 36"

datatype snode = SlabNode u32 | SlabsFull nat | SlabsEmpty nat | SlabsPartitial nat

record slab =
  first_obj_mem :: u32
  n_inuse :: u16
  sfree :: u16
  objs_desc_array :: "nat \<Rightarrow> u16"

record kmem_cache =
  free_objects :: u32
  obj_size :: nat
  n_objs_per_slab :: nat
  n_pages_per_slab :: nat
  gfp_flags :: u16
  kc_locked :: bool

record kstate =
  kb :: bstate
  sl :: "snode list_heap"
  slabs :: "u32 \<Rightarrow> slab"
  caches :: "nat \<Rightarrow> kmem_cache"
  omem :: "u32 \<Rightarrow> u8"

datatype kres = KGot u32 | KNull | KBlocked

section \<open>Field updates, locks and lists\<close>

definition upd_cache :: "nat \<Rightarrow> (kmem_cache \<Rightarrow> kmem_cache) \<Rightarrow> kstate \<Rightarrow> kstate" where
  "upd_cache c f s = s\<lparr>caches := (caches s)(c := f (caches s c))\<rparr>"

definition upd_slab :: "u32 \<Rightarrow> (slab \<Rightarrow> slab) \<Rightarrow> kstate \<Rightarrow> kstate" where
  "upd_slab a f s = s\<lparr>slabs := (slabs s)(a := f (slabs s a))\<rparr>"

definition cache_lock :: "nat \<Rightarrow> kstate \<Rightarrow> kstate option" where
  "cache_lock c s = (if kc_locked (caches s c) then None else Some (upd_cache c (\<lambda>r. r\<lparr>kc_locked := True\<rparr>) s))"

definition cache_unlock :: "nat \<Rightarrow> kstate \<Rightarrow> kstate option" where
  "cache_unlock c s = (if kc_locked (caches s c) then Some (upd_cache c (\<lambda>r. r\<lparr>kc_locked := False\<rparr>) s) else None)"

definition add_free_objects :: "nat \<Rightarrow> u32 \<Rightarrow> kstate \<Rightarrow> kstate" where
  "add_free_objects c d = upd_cache c (\<lambda>r. r\<lparr>free_objects := free_objects r + d\<rparr>)"

definition s_list_add_tail :: "snode \<Rightarrow> snode \<Rightarrow> kstate \<Rightarrow> kstate option" where
  "s_list_add_tail n h s = map_option (\<lambda>l. s\<lparr>sl := l\<rparr>) (list_add_tail n h (sl s))"

definition s_list_del :: "snode \<Rightarrow> kstate \<Rightarrow> kstate option" where
  "s_list_del n s = map_option (\<lambda>l. s\<lparr>sl := l\<rparr>) (list_del n (sl s))"

fun slab_entry :: "snode \<Rightarrow> u32 option" where
  "slab_entry (SlabNode a) = Some a"
| "slab_entry _ = None"

text \<open>\<^verbatim>\<open>memset(addr, 0, n)\<close>.\<close>

definition kzero :: "u32 \<Rightarrow> nat \<Rightarrow> kstate \<Rightarrow> kstate" where
  "kzero a n s = s\<lparr>omem := (\<lambda>x. if unat (x - a) < n then 0 else omem s x)\<rparr>"

section \<open>Initialisation\<close>

definition objs_per_slab :: "nat \<Rightarrow> nat" where
  "objs_per_slab osize = (if osize < 512 then SLAB_SIZE div (osize + 2) else SLAB_SIZE div osize)"

definition kmem_cache_init :: "nat \<Rightarrow> nat \<Rightarrow> u16 \<Rightarrow> kstate \<Rightarrow> kstate" where
  "kmem_cache_init c osize g s =
     (let s = upd_cache c (\<lambda>_. \<lparr>free_objects = 0, obj_size = osize, n_objs_per_slab = objs_per_slab osize,
                n_pages_per_slab = 1, gfp_flags = g, kc_locked = False\<rparr>) s
      in s\<lparr>sl := LIST_HEAD_INIT (SlabsPartitial c) (LIST_HEAD_INIT (SlabsEmpty c) (LIST_HEAD_INIT (SlabsFull c) (sl s)))\<rparr>)"

fun slab_init_loop :: "nat \<Rightarrow> nat \<Rightarrow> nat \<Rightarrow> kstate \<Rightarrow> kstate" where
  "slab_init_loop 0 i osize s = s"
| "slab_init_loop (Suc n) i osize s =
     (let s = kmem_cache_init i osize (GFP_ZERO OR GFP_WAIT) s;
          s = kmem_cache_init (i + NKMEMCACHE div 2) osize (GFP_ZERO OR GFP_DMA) s
      in slab_init_loop n (Suc i) (osize * 2) s)"

definition slab_init :: "kstate \<Rightarrow> kstate" where
  "slab_init s = slab_init_loop (NKMEMCACHE div 2) 0 32 (kmem_cache_init META sizeof_slab (GFP_ZERO OR GFP_WAIT) s)"

section \<open>Pages for slabs\<close>

definition set_page_slab :: "nat \<Rightarrow> kstate \<Rightarrow> kstate" where
  "set_page_slab p s = s\<lparr>kb := set_flag p (pflag (kb s) p OR PAGE_IN_SLAB) (kb s)\<rparr>"

definition clear_page_slab :: "nat \<Rightarrow> kstate \<Rightarrow> kstate" where
  "clear_page_slab p s = s\<lparr>kb := set_flag p (pflag (kb s) p AND NOT PAGE_IN_SLAB) (kb s)\<rparr>"

definition kmem_get_page :: "nat \<Rightarrow> u16 \<Rightarrow> kstate \<Rightarrow> (alloc_res \<times> kstate) option" where
  "kmem_get_page c g s = do {
     (r, b) \<leftarrow> alloc_page (g OR gfp_flags (caches s c)) (kb s);
     let s = s\<lparr>kb := b\<rparr>;
     Some (r, case r of Got p \<Rightarrow> set_page_slab p s | _ \<Rightarrow> s)
   }"

definition kmem_free_page :: "u32 \<Rightarrow> kstate \<Rightarrow> kstate option" where
  "kmem_free_page va s = (case va2page (kb s) va of None \<Rightarrow> Some s
     | Some p \<Rightarrow> do {
         let s = clear_page_slab p s;
         b \<leftarrow> buddy_free_page (Some p) (kb s);
         Some (s\<lparr>kb := b\<rparr>)
       })"

text \<open>\<^verbatim>\<open>page->lru.next = cachep; page->lru.prev = slab\<close> and the two reads in \<^verbatim>\<open>kfree\<close>.\<close>

definition page_set_owner :: "nat \<Rightarrow> nat \<Rightarrow> u32 \<Rightarrow> kstate \<Rightarrow> kstate" where
  "page_set_owner p c a s = s\<lparr>kb := (kb s)\<lparr>lh := set_prev (Lru p) (Some (SlabAddr (unat a)))
     (set_next (Lru p) (Some (CacheAddr c)) (lh (kb s)))\<rparr>\<rparr>"

definition page_clear_owner :: "nat \<Rightarrow> kstate \<Rightarrow> kstate" where
  "page_clear_owner p s = s\<lparr>kb := (kb s)\<lparr>lh := set_prev (Lru p) None (set_next (Lru p) None (lh (kb s)))\<rparr>\<rparr>"

definition page_owner :: "nat \<Rightarrow> kstate \<Rightarrow> (nat \<times> u32) option" where
  "page_owner p s = (case (lnext (lh (kb s)) (Lru p), lprev (lh (kb s)) (Lru p)) of
     (Some (CacheAddr c), Some (SlabAddr a)) \<Rightarrow> Some (c, of_nat a) | _ \<Rightarrow> None)"

section \<open>Growing a cache\<close>

text \<open>The initial links: every object points to the next, the last one to \<open>BUFCTL_END\<close>.\<close>

definition init_links :: "nat \<Rightarrow> nat \<Rightarrow> u16" where
  "init_links n i = (if i + 1 < n then of_nat (i + 1) else if i + 1 = n then BUFCTL_END else 0)"

text \<open>\<^verbatim>\<open>cache_grow\<close>; the argument \<open>alloc_desc\<close> is the call of \<^verbatim>\<open>alloc_slab_desc\<close>, which is made for
  the normal caches only.  The new slab is returned with the cache lock held.\<close>

definition grow_finish :: "nat \<Rightarrow> nat \<Rightarrow> u32 \<Rightarrow> kstate \<Rightarrow> (kres \<times> kstate) option" where
  "grow_finish c page slab s = do {
     let p_va = page2va page;
     let cp = caches s c;
     let first = p_va + of_nat (n_objs_per_slab cp * 2);
     let s = page_set_owner page c slab s;
     let s = upd_slab slab (\<lambda>r. r\<lparr>first_obj_mem := (if obj_size cp < 512 then first else p_va),
               objs_desc_array := init_links (n_objs_per_slab cp)\<rparr>) s;
     s \<leftarrow> cache_lock c s;
     let s = add_free_objects c (of_nat (n_objs_per_slab cp)) s;
     s \<leftarrow> (if c = META then do {
             s \<leftarrow> s_list_add_tail (SlabNode slab) (SlabsPartitial c) s;
             Some (add_free_objects c (- 1) s)
           } else s_list_add_tail (SlabNode slab) (SlabsEmpty c) s);
     Some (KGot slab, s)
   }"

definition cache_grow_body :: "(kstate \<Rightarrow> (kres \<times> kstate) option) \<Rightarrow> nat \<Rightarrow> u16 \<Rightarrow> kstate \<Rightarrow> (kres \<times> kstate) option" where
  "cache_grow_body alloc_desc c g s = do {
     (r, s) \<leftarrow> kmem_get_page c g s;
     case r of NoPage \<Rightarrow> Some (KNull, s) | Asleep \<Rightarrow> Some (KBlocked, s)
     | Got page \<Rightarrow>
         let p_va = page2va page;
             first = p_va + of_nat (n_objs_per_slab (caches s c) * 2)
         in if c = META then
              grow_finish c page first (upd_slab first (\<lambda>r. r\<lparr>n_inuse := 1, sfree := 1\<rparr>) s)
            else do {
              (d, s) \<leftarrow> alloc_desc s;
              case d of KGot slab \<Rightarrow>
                  grow_finish c page slab (upd_slab slab (\<lambda>r. r\<lparr>n_inuse := 0, sfree := 0\<rparr>) s)
              | KNull \<Rightarrow> do { s \<leftarrow> kmem_free_page p_va s; Some (KNull, s) }
              | KBlocked \<Rightarrow> Some (KBlocked, s)
            }
   }"

section \<open>Allocation of objects\<close>

text \<open>The search in \<^verbatim>\<open>slabs_partitial\<close>, from its tail: the last slab with a free object.\<close>

fun find_partitial :: "nat \<Rightarrow> snode \<Rightarrow> nat \<Rightarrow> kstate \<Rightarrow> u32 option option" where
  "find_partitial 0 n c s = None"
| "find_partitial (Suc m) n c s =
     (if n = SlabsPartitial c then Some None
      else do {
        a \<leftarrow> slab_entry n;
        if sfree (slabs s a) \<noteq> BUFCTL_END then Some (Some a)
        else do { n' \<leftarrow> lprev (sl s) n; find_partitial m n' c s }
      })"

text \<open>The code behind the label \<^verbatim>\<open>find_slab\<close>.  The link array of a slab has as many entries as its
  cache has objects per slab.\<close>

definition take_object :: "nat \<Rightarrow> u32 \<Rightarrow> kstate \<Rightarrow> (kres \<times> kstate) option" where
  "take_object c a s = do {
     let sb = slabs s a;
     let idx = unat (sfree sb);
     if n_objs_per_slab (caches s c) \<le> idx then None
     else do {
       let s = upd_slab a (\<lambda>r. r\<lparr>sfree := objs_desc_array r idx, n_inuse := n_inuse r + 1\<rparr>) s;
       let s = add_free_objects c (- 1) s;
       s \<leftarrow> cache_unlock c s;
       let obj = first_obj_mem sb + of_nat (idx * obj_size (caches s c));
       Some (KGot obj, kzero obj (obj_size (caches s c)) s)
     }
   }"

text \<open>\<^verbatim>\<open>kmem_cache_alloc\<close>; \<open>m\<close> bounds the length of the walk through \<^verbatim>\<open>slabs_partitial\<close>.\<close>

definition cache_alloc_body :: "(nat \<Rightarrow> u16 \<Rightarrow> kstate \<Rightarrow> (kres \<times> kstate) option) \<Rightarrow> nat \<Rightarrow> nat \<Rightarrow> u16 \<Rightarrow> kstate \<Rightarrow> (kres \<times> kstate) option" where
  "cache_alloc_body grow m c g s = do {
     s \<leftarrow> cache_lock c s;
     if 0 < free_objects (caches s c) then do {
       n \<leftarrow> lprev (sl s) (SlabsPartitial c);
       f \<leftarrow> find_partitial m n c s;
       case f of Some a \<Rightarrow> take_object c a s
       | None \<Rightarrow> do {
           e \<leftarrow> lprev (sl s) (SlabsEmpty c);
           a \<leftarrow> slab_entry e;
           take_object c a s
         }
     }
     else do {
       s \<leftarrow> cache_unlock c s;
       (r, s) \<leftarrow> grow c g s;
       case r of KGot a \<Rightarrow> take_object c a s | _ \<Rightarrow> Some (r, s)
     }
   }"

definition meta_alloc :: "nat \<Rightarrow> u16 \<Rightarrow> kstate \<Rightarrow> (kres \<times> kstate) option" where
  "meta_alloc m g = cache_alloc_body (\<lambda>c. cache_grow_body (\<lambda>_. None) META) m META g"

definition cache_grow :: "nat \<Rightarrow> nat \<Rightarrow> u16 \<Rightarrow> kstate \<Rightarrow> (kres \<times> kstate) option" where
  "cache_grow m c = cache_grow_body (meta_alloc m GFP_ZERO) c"

definition kmem_cache_alloc :: "nat \<Rightarrow> nat \<Rightarrow> u16 \<Rightarrow> kstate \<Rightarrow> (kres \<times> kstate) option" where
  "kmem_cache_alloc m c g = cache_alloc_body (cache_grow m) m c g"

section \<open>Release of objects\<close>

text \<open>The part of \<^verbatim>\<open>kmem_cache_free\<close> that links the object back.\<close>

definition put_object :: "nat \<Rightarrow> u32 \<Rightarrow> u32 \<Rightarrow> kstate \<Rightarrow> kstate option" where
  "put_object c a obj s = do {
     let idx = unat (ucast (obj - first_obj_mem (slabs s a)) :: u16) div obj_size (caches s c);
     s \<leftarrow> cache_lock c s;
     if n_objs_per_slab (caches s c) \<le> idx then None
     else do {
       let s = upd_slab a (\<lambda>r. r\<lparr>objs_desc_array := (objs_desc_array r)(idx := sfree r), sfree := of_nat idx,
                 n_inuse := n_inuse r - 1\<rparr>) s;
       Some (add_free_objects c 1 s)
     }
   }"

text \<open>\<^verbatim>\<open>slab_destroy\<close> without the release of the descriptor: \<open>free_desc\<close> is \<^verbatim>\<open>destroy_slab_desc\<close>.\<close>

definition slab_destroy_body :: "(u32 \<Rightarrow> kstate \<Rightarrow> kstate option) \<Rightarrow> u32 \<Rightarrow> kstate \<Rightarrow> kstate option" where
  "slab_destroy_body free_desc a s = do {
     page \<leftarrow> va2page (kb s) (first_obj_mem (slabs s a));
     let page_va = page2va page;
     (c, _) \<leftarrow> page_owner page s;
     s \<leftarrow> s_list_del (SlabNode a) s;
     let s = add_free_objects c (- (of_nat (n_objs_per_slab (caches s c)) - ucast (n_inuse (slabs s a)))) s;
     let s = kzero page_va SLAB_SIZE s;
     s \<leftarrow> (if c \<noteq> META then free_desc a s else Some s);
     kmem_free_page page_va (page_clear_owner page s)
   }"

text \<open>\<^verbatim>\<open>kmem_cache_free\<close>, \<^verbatim>\<open>slab_destroy\<close> and \<^verbatim>\<open>kfree\<close> call each other: freeing the last object of
  a slab frees its descriptor, an object of the meta cache.  The first argument bounds the depth of
  that recursion.\<close>

fun kfree_depth :: "nat \<Rightarrow> u32 \<Rightarrow> kstate \<Rightarrow> kstate option" where
  "kfree_depth 0 obj s = None"
| "kfree_depth (Suc d) obj s =
     (case va2page (kb s) obj of None \<Rightarrow> Some s
      | Some page \<Rightarrow>
          if pflag (kb s) page AND RESERVED_PAGE \<noteq> 0 then Some s
          else if pflag (kb s) page AND PAGE_IN_SLAB = 0 then Some s
          else do {
            (c, a) \<leftarrow> page_owner page s;
            s \<leftarrow> put_object c a obj s;
            s \<leftarrow> (if n_inuse (slabs s a) = 0 then slab_destroy_body (kfree_depth d) a s else Some s);
            cache_unlock c s
          })"

definition kmem_cache_free :: "nat \<Rightarrow> u32 \<Rightarrow> u32 \<Rightarrow> kstate \<Rightarrow> kstate option" where
  "kmem_cache_free c a obj s = do {
     s \<leftarrow> put_object c a obj s;
     s \<leftarrow> (if n_inuse (slabs s a) = 0 then slab_destroy_body (kfree_depth 2) a s else Some s);
     cache_unlock c s
   }"

definition kfree :: "u32 \<Rightarrow> kstate \<Rightarrow> kstate option" where
  "kfree = kfree_depth 3"

section \<open>General-purpose allocation\<close>

text \<open>The loop of \<^verbatim>\<open>kmalloc\<close> that chooses the cache.\<close>

function kmalloc_index :: "nat \<Rightarrow> nat \<Rightarrow> nat \<Rightarrow> nat" where
  "kmalloc_index osize tmp i = (if 0 < tmp \<and> tmp < osize then kmalloc_index osize (tmp * 2) (Suc i) else i)"
  by pat_completeness auto
termination
  by (relation "measure (\<lambda>(osize, tmp, i). osize - tmp)") auto

definition kmalloc :: "nat \<Rightarrow> nat \<Rightarrow> u16 \<Rightarrow> kstate \<Rightarrow> (kres \<times> kstate) option" where
  "kmalloc m osize g s =
     (if SLAB_SIZE < osize \<or> osize = 0 then Some (KNull, s)
      else let i = kmalloc_index osize 32 0 + (if g AND GFP_DMA \<noteq> 0 then NKMEMCACHE div 2 else 0)
           in kmem_cache_alloc m i g s)"

end
