(* ===== verification/Slab_Props.thy ===== *)
theory Slab_Props
  imports Slab
begin

text \<open>The free list inside a slab, the geometry of slabs and the choice of the cache in
  \<^verbatim>\<open>kmalloc\<close>.\<close>

section \<open>The free list of a slab\<close>

text \<open>\<open>chain d n x fs\<close>: following the links \<open>d\<close> from \<open>x\<close> visits exactly the indices \<open>fs\<close>, all
  below \<open>n\<close>, and ends with \<open>BUFCTL_END\<close>.\<close>

fun chain :: "(nat \<Rightarrow> u16) \<Rightarrow> nat \<Rightarrow> u16 \<Rightarrow> nat list \<Rightarrow> bool" where
  "chain d n x [] \<longleftrightarrow> x = BUFCTL_END"
| "chain d n x (i # fs) \<longleftrightarrow> unat x = i \<and> i < n \<and> chain d n (d i) fs"

text \<open>The slab invariant: \<open>fs\<close> are the free objects of slab \<open>a\<close> of cache \<open>c\<close>.\<close>

definition slab_ok :: "nat \<Rightarrow> u32 \<Rightarrow> nat list \<Rightarrow> kstate \<Rightarrow> bool" where
  "slab_ok c a fs s \<longleftrightarrow> n_objs_per_slab (caches s c) < 0xFFFF \<and> distinct fs \<and>
     chain (objs_desc_array (slabs s a)) (n_objs_per_slab (caches s c)) (sfree (slabs s a)) fs \<and>
     unat (n_inuse (slabs s a)) + length fs = n_objs_per_slab (caches s c)"

lemma chain_less: "chain d n x fs \<Longrightarrow> i \<in> set fs \<Longrightarrow> i < n"
  by (induction fs arbitrary: x) auto

lemma chain_upd: "k \<notin> set fs \<Longrightarrow> chain (d(k := v)) n x fs \<longleftrightarrow> chain d n x fs"
  by (induction fs arbitrary: x) auto

lemma unat_of_nat16: "i < 0xFFFF \<Longrightarrow> unat (of_nat i :: u16) = i"
  by (simp add: unat_of_nat take_bit_nat_eq_self_iff)

lemma chain_init: "0 < k \<Longrightarrow> x + k < 0xFFFF \<Longrightarrow> chain (init_links (x + k)) (x + k) (of_nat x) [x..<x + k]"
proof (induction k arbitrary: x)
  case (Suc k)
  have u: "[x..<x + Suc k] = x # [Suc x..<Suc x + k]" by (simp add: upt_conv_Cons del: upt_Suc)
  show ?case
  proof (cases "k = 0")
    case True
    then show ?thesis using Suc.prems by (simp add: unat_of_nat16) (simp add: init_links_def)
  next
    case False
    have "init_links (x + Suc k) x = of_nat (Suc x)" using False by (simp add: init_links_def)
    then show ?thesis unfolding u using Suc.IH [of "Suc x"] Suc.prems False by (simp add: unat_of_nat16)
  qed
qed simp

lemma cache_upd_sel [simp]:
  "caches (upd_slab a f s) = caches s" "slabs (upd_cache c g s) = slabs s"
  "slabs (upd_slab a f s) = (slabs s)(a := f (slabs s a))" "caches (upd_cache c g s) = (caches s)(c := g (caches s c))"
  "sl (upd_slab a f s) = sl s" "sl (upd_cache c g s) = sl s" "kb (upd_slab a f s) = kb s" "kb (upd_cache c g s) = kb s"
  "slabs (kzero x n s) = slabs s" "caches (kzero x n s) = caches s" "sl (kzero x n s) = sl s" "kb (kzero x n s) = kb s"
  by (simp_all add: upd_slab_def upd_cache_def kzero_def)

section \<open>Taking and returning an object\<close>

lemma take_object_ok:
  assumes ok: "slab_ok c a (i # fs) s" and lk: "kc_locked (caches s c)"
  defines "obj \<equiv> first_obj_mem (slabs s a) + of_nat (i * obj_size (caches s c))"
  shows "\<exists>s'. take_object c a s = Some (KGot obj, s') \<and> slab_ok c a fs s' \<and> \<not> kc_locked (caches s' c) \<and>
    free_objects (caches s' c) = free_objects (caches s c) - 1 \<and>
    first_obj_mem (slabs s' a) = first_obj_mem (slabs s a) \<and> obj_size (caches s' c) = obj_size (caches s c) \<and>
    (\<forall>x. unat (x - obj) < obj_size (caches s c) \<longrightarrow> omem s' x = 0) \<and>
    (\<forall>x. \<not> unat (x - obj) < obj_size (caches s c) \<longrightarrow> omem s' x = omem s x) \<and>
    (\<forall>b. b \<noteq> a \<longrightarrow> slabs s' b = slabs s b) \<and> (\<forall>d. d \<noteq> c \<longrightarrow> caches s' d = caches s d) \<and> sl s' = sl s \<and> kb s' = kb s"
proof -
  have i: "unat (sfree (slabs s a)) = i" "i < n_objs_per_slab (caches s c)" using ok by (auto simp: slab_ok_def)
  have cnt: "unat (n_inuse (slabs s a) + 1) = unat (n_inuse (slabs s a)) + 1"
    using ok by (simp add: slab_ok_def unat_word_ariths)
  define s1 where "s1 = add_free_objects c (- 1) (upd_slab a (\<lambda>r. r\<lparr>sfree := objs_desc_array r i, n_inuse := n_inuse r + 1\<rparr>) s)"
  define s2 where "s2 = upd_cache c (\<lambda>r. r\<lparr>kc_locked := False\<rparr>) s1"
  have run: "take_object c a s = Some (KGot obj, kzero obj (obj_size (caches s c)) s2)"
    using i lk by (simp add: take_object_def Let_def cache_unlock_def s2_def s1_def add_free_objects_def obj_def)
  have "slab_ok c a fs (kzero obj (obj_size (caches s c)) s2)"
    using ok i cnt by (simp add: slab_ok_def s2_def s1_def add_free_objects_def)
  then show ?thesis
    using run by (simp add: s2_def s1_def add_free_objects_def kzero_def upd_slab_def upd_cache_def)
qed

lemma take_object_full: "slab_ok c a [] s \<Longrightarrow> take_object c a s = None"
  by (simp add: slab_ok_def take_object_def BUFCTL_END_def)

lemma put_object_ok:
  assumes ok: "slab_ok c a fs s" and i: "i < n_objs_per_slab (caches s c)" "i \<notin> set fs" and lk: "\<not> kc_locked (caches s c)"
    and sz: "0 < obj_size (caches s c)" "n_objs_per_slab (caches s c) * obj_size (caches s c) \<le> SLAB_SIZE"
  defines "obj \<equiv> first_obj_mem (slabs s a) + of_nat (i * obj_size (caches s c))"
  shows "\<exists>s'. put_object c a obj s = Some s' \<and> slab_ok c a (i # fs) s' \<and> kc_locked (caches s' c) \<and>
    free_objects (caches s' c) = free_objects (caches s c) + 1 \<and> omem s' = omem s \<and>
    (\<forall>b. b \<noteq> a \<longrightarrow> slabs s' b = slabs s b) \<and> (\<forall>d. d \<noteq> c \<longrightarrow> caches s' d = caches s d) \<and> sl s' = sl s \<and> kb s' = kb s"
proof -
  let ?n = "n_objs_per_slab (caches s c)" and ?sz = "obj_size (caches s c)"
  have "(i + 1) * ?sz \<le> ?n * ?sz" using i(1) by (intro mult_right_mono) auto
  then have small: "i * ?sz < 4096" using sz unfolding SLAB_SIZE_def by simp
  have "unat (ucast (obj - first_obj_mem (slabs s a)) :: u16) = i * ?sz"
  proof -
    have "ucast (obj - first_obj_mem (slabs s a)) = (of_nat (i * ?sz) :: u16)"
      unfolding obj_def add_diff_cancel_left' unsigned_of_nat using small by (simp add: take_bit_nat_eq_self)
    then show ?thesis using small by (simp add: unat_of_nat16 del: of_nat_mult)
  qed
  then have idx: "unat (ucast (obj - first_obj_mem (slabs s a)) :: u16) div ?sz = i" using sz(1) by simp
  have pos: "length fs < ?n"
  proof -
    have "set fs \<subseteq> {..<?n} - {i}" using ok i(2) chain_less by (fastforce simp: slab_ok_def)
    then have "card (set fs) \<le> card ({..<?n} - {i})" by (intro card_mono) auto
    also have "\<dots> < ?n" using i(1) by simp
    finally show ?thesis using ok distinct_card by (metis slab_ok_def)
  qed
  have n16: "?n < 0xFFFF" using ok by (simp add: slab_ok_def)
  have cnt: "unat (n_inuse (slabs s a) - 1) = unat (n_inuse (slabs s a)) - 1"
    using ok pos by (simp add: slab_ok_def unat_sub word_le_nat_alt)
  have "slab_ok c a (i # fs) (add_free_objects c 1 (upd_slab a (\<lambda>r. r\<lparr>objs_desc_array := (objs_desc_array r)(i := sfree r),
      sfree := of_nat i, n_inuse := n_inuse r - 1\<rparr>) (upd_cache c (\<lambda>r. r\<lparr>kc_locked := True\<rparr>) s)))"
    using ok i pos cnt n16 by (auto simp: slab_ok_def add_free_objects_def chain_upd unat_of_nat16)
  then show ?thesis
    using lk i(1) idx by (simp add: put_object_def Let_def cache_lock_def add_free_objects_def)
      (simp add: upd_slab_def upd_cache_def)
qed

section \<open>Geometry\<close>

text \<open>Below 512 bytes the links precede the objects in the page; from 512 bytes on they fit into the
  eight entries of the descriptor.\<close>

lemma objs_per_slab_fit:
  assumes "0 < osize"
  shows "osize < 512 \<Longrightarrow> objs_per_slab osize * 2 + objs_per_slab osize * osize \<le> SLAB_SIZE"
    and "512 \<le> osize \<Longrightarrow> objs_per_slab osize * osize \<le> SLAB_SIZE \<and> objs_per_slab osize \<le> SLAB_OBJ_DESP"
    and "objs_per_slab osize < 0xFFFF"
proof -
  show "objs_per_slab osize * 2 + objs_per_slab osize * osize \<le> SLAB_SIZE" if "osize < 512"
    using that times_div_less_eq_dividend [of "osize + 2" SLAB_SIZE]
    by (simp add: objs_per_slab_def algebra_simps)
  show "objs_per_slab osize * osize \<le> SLAB_SIZE \<and> objs_per_slab osize \<le> SLAB_OBJ_DESP" if "512 \<le> osize"
    using that div_le_mono2 [of 512 osize SLAB_SIZE]
    by (simp add: objs_per_slab_def SLAB_OBJ_DESP_def SLAB_SIZE_def)
  have "4096 div k < (65535 :: nat)" for k using div_le_dividend [of 4096 k] by linarith
  then show "objs_per_slab osize < 0xFFFF" by (simp add: objs_per_slab_def SLAB_SIZE_def)
qed

section \<open>Choice of the cache\<close>

declare kmalloc_index.simps [simp del]

lemma kmalloc_index_spec:
  "0 < tmp \<Longrightarrow> osize \<le> tmp * 2 ^ (kmalloc_index osize tmp i - i) \<and> i \<le> kmalloc_index osize tmp i \<and>
    (i < kmalloc_index osize tmp i \<longrightarrow> tmp * 2 ^ (kmalloc_index osize tmp i - i - 1) < osize)"
proof (induction osize tmp i rule: kmalloc_index.induct)
  case (1 osize tmp i)
  show ?case
  proof (cases "tmp < osize")
    case False
    with "1.prems" show ?thesis by (simp add: kmalloc_index.simps [of osize tmp i])
  next
    case True
    let ?k = "kmalloc_index osize (tmp * 2) (Suc i)"
    have eq: "kmalloc_index osize tmp i = ?k" using True "1.prems" by (simp add: kmalloc_index.simps [of osize tmp i])
    have ih: "osize \<le> tmp * 2 * 2 ^ (?k - Suc i)" "Suc i \<le> ?k" "Suc i < ?k \<longrightarrow> tmp * 2 * 2 ^ (?k - Suc i - 1) < osize"
      using "1.IH" True "1.prems" by auto
    obtain e where e: "?k = Suc i + e" using ih(2) by (auto simp: le_iff_add)
    show ?thesis unfolding eq using ih True by (cases e) (auto simp: e)
  qed
qed

lemma kmalloc_index_bounds:
  assumes "osize \<le> SLAB_SIZE"
  shows "kmalloc_index osize 32 0 < 8 \<and> osize \<le> 32 * 2 ^ kmalloc_index osize 32 0"
proof -
  let ?k = "kmalloc_index osize 32 0"
  have k: "osize \<le> 32 * 2 ^ ?k" "0 < ?k \<longrightarrow> 32 * 2 ^ (?k - 1) < osize" using kmalloc_index_spec [of 32 osize 0] by auto
  have "?k < 8"
  proof (rule ccontr)
    assume "\<not> ?k < 8"
    then have "(2 :: nat) ^ 7 \<le> 2 ^ (?k - 1)" by (intro power_increasing) auto
    then show False using k(2) \<open>\<not> ?k < 8\<close> assms by (simp add: SLAB_SIZE_def)
  qed
  with k(1) show ?thesis by simp
qed

section \<open>Properties\<close>

text \<open>C7: \<^verbatim>\<open>kmem_cache_alloc\<close> on a cache whose last empty slab has the free objects \<open>i # fs\<close> returns
  object \<open>i\<close>: its address lies at the \<open>i\<close>-th slot, its memory is cleared and no other byte of object
  memory changes, the slab has the free objects \<open>fs\<close> afterwards, the count of free objects drops by
  one and the lock is released.\<close>

theorem kmem_cache_alloc_pops:
  assumes "slab_ok c a (i # fs) s" "\<not> kc_locked (caches s c)" "0 < free_objects (caches s c)" "0 < m"
    "lprev (sl s) (SlabsPartitial c) = Some (SlabsPartitial c)" "lprev (sl s) (SlabsEmpty c) = Some (SlabNode a)"
  defines "obj \<equiv> first_obj_mem (slabs s a) + of_nat (i * obj_size (caches s c))"
  shows "\<exists>s'. kmem_cache_alloc m c g s = Some (KGot obj, s') \<and> slab_ok c a fs s' \<and> \<not> kc_locked (caches s' c) \<and>
    free_objects (caches s' c) = free_objects (caches s c) - 1 \<and>
    (\<forall>x. omem s' x = (if unat (x - obj) < obj_size (caches s c) then 0 else omem s x)) \<and>
    (\<forall>b. b \<noteq> a \<longrightarrow> slabs s' b = slabs s b)"
proof -
  let ?s = "upd_cache c (\<lambda>r. r\<lparr>kc_locked := True\<rparr>) s"
  have ok: "slab_ok c a (i # fs) ?s" using assms(1) by (simp add: slab_ok_def)
  have lk: "kc_locked (caches ?s c)" by simp
  have "find_partitial m (SlabsPartitial c) c ?s = Some None" using assms(4) by (cases m) auto
  then have run: "kmem_cache_alloc m c g s = take_object c a ?s"
    using assms(2,3,5,6) by (simp add: kmem_cache_alloc_def cache_alloc_body_def cache_lock_def)
  from take_object_ok [OF ok lk] show ?thesis
    unfolding run obj_def by (auto simp: upd_cache_def)
qed

text \<open>A slab of four objects of 32 bytes at address \<open>0x2000\<close>, all free.\<close>

definition tiny_slab :: kstate where
  "tiny_slab = \<lparr>kb = \<lparr>lh = \<lparr>lnext = (\<lambda>_. None), lprev = (\<lambda>_. None)\<rparr>, pflag = (\<lambda>_. 0),
       p_private = (\<lambda>_. 0), p_ref = (\<lambda>_. 0), pmem = (\<lambda>_ _. 0),
       zone_of = (\<lambda>_. \<lparr>z_free_pages = 0, z_pages_low = 0, z_pages_reserved = 0, z_nr_free = (\<lambda>_. 0),
         z_pageset = (\<lambda>_. boot_pageset), z_locked = False, zone_first_page = 0\<rparr>),
       npages_num = 0, wakeups = []\<rparr>,
     sl = \<lparr>lnext = (\<lambda>_. None), lprev = (\<lambda>n. case n of SlabsEmpty c \<Rightarrow> Some (SlabNode 0x1000) | _ \<Rightarrow> Some n)\<rparr>,
     slabs = (\<lambda>_. \<lparr>first_obj_mem = 0x2000, n_inuse = 0, sfree = 0, objs_desc_array = init_links 4\<rparr>),
     caches = (\<lambda>_. \<lparr>free_objects = 4, obj_size = 32, n_objs_per_slab = 4, n_pages_per_slab = 1, gfp_flags = 0, kc_locked = False\<rparr>),
     omem = (\<lambda>_. 1)\<rparr>"

lemma tiny_slab_ok: "slab_ok 0 0x1000 [0, 1, 2, 3] tiny_slab"
  by (simp add: slab_ok_def tiny_slab_def init_links_def)

theorem kmem_cache_alloc_pops_witness:
  "\<exists>s'. kmem_cache_alloc 1 0 0 tiny_slab = Some (KGot 0x2000, s') \<and> slab_ok 0 0x1000 [1, 2, 3] s'"
proof -
  have "\<not> kc_locked (caches tiny_slab 0)" "0 < free_objects (caches tiny_slab 0)" "0 < (1 :: nat)"
    "lprev (sl tiny_slab) (SlabsPartitial 0) = Some (SlabsPartitial 0)" "lprev (sl tiny_slab) (SlabsEmpty 0) = Some (SlabNode 0x1000)"
    "first_obj_mem (slabs tiny_slab 0x1000) = 0x2000"
    by (simp_all add: tiny_slab_def)
  then show ?thesis using kmem_cache_alloc_pops [OF tiny_slab_ok, of 1 0] by auto
qed

text \<open>An object that was just allocated from a slab can be freed, and freeing it while another
  object of the slab is in use gives the old free list back.\<close>

theorem slab_object_roundtrip:
  assumes "slab_ok c a (i # fs) s" "kc_locked (caches s c)" "0 < obj_size (caches s c)"
    "n_objs_per_slab (caches s c) * obj_size (caches s c) \<le> SLAB_SIZE" "n_inuse (slabs s a) \<noteq> 0"
  shows "\<exists>obj s1 s2. take_object c a s = Some (KGot obj, s1) \<and> kmem_cache_free c a obj s1 = Some s2 \<and>
    slab_ok c a (i # fs) s2 \<and> free_objects (caches s2 c) = free_objects (caches s c) \<and> \<not> kc_locked (caches s2 c)"
proof -
  let ?obj = "first_obj_mem (slabs s a) + of_nat (i * obj_size (caches s c))"
  obtain s1 where s1: "take_object c a s = Some (KGot ?obj, s1)" "slab_ok c a fs s1" "\<not> kc_locked (caches s1 c)"
    "free_objects (caches s1 c) = free_objects (caches s c) - 1"
    "first_obj_mem (slabs s1 a) = first_obj_mem (slabs s a)" "obj_size (caches s1 c) = obj_size (caches s c)"
    using take_object_ok [OF assms(1,2)] by blast
  have n: "n_objs_per_slab (caches s1 c) = n_objs_per_slab (caches s c)"
    using s1(1) by (auto simp: take_object_def Let_def cache_unlock_def add_free_objects_def split: if_splits)
  have i: "i < n_objs_per_slab (caches s1 c)" "i \<notin> set fs" using assms(1) n by (auto simp: slab_ok_def)
  obtain s2 where s2: "put_object c a ?obj s1 = Some s2" "slab_ok c a (i # fs) s2" "kc_locked (caches s2 c)"
    "free_objects (caches s2 c) = free_objects (caches s1 c) + 1"
    using put_object_ok [OF s1(2) i s1(3)] assms(3,4) n s1(5,6) by auto
  have "n_objs_per_slab (caches s2 c) = n_objs_per_slab (caches s1 c)"
    using s2(1) by (auto simp: put_object_def Let_def cache_lock_def add_free_objects_def split: if_splits)
  then have "unat (n_inuse (slabs s2 a)) = unat (n_inuse (slabs s a))"
    using s2(2) assms(1) n by (simp add: slab_ok_def)
  then have "n_inuse (slabs s2 a) \<noteq> 0" using assms(5) by (auto simp: unat_eq_0)
  then have "kmem_cache_free c a ?obj s1 = Some (upd_cache c (\<lambda>r. r\<lparr>kc_locked := False\<rparr>) s2)"
    using s2(1,3) by (simp add: kmem_cache_free_def cache_unlock_def)
  moreover have "slab_ok c a (i # fs) (upd_cache c (\<lambda>r. r\<lparr>kc_locked := False\<rparr>) s2)"
    using s2(2) by (simp add: slab_ok_def)
  moreover have "free_objects (caches (upd_cache c (\<lambda>r. r\<lparr>kc_locked := False\<rparr>) s2) c) = free_objects (caches s c)"
    "\<not> kc_locked (caches (upd_cache c (\<lambda>r. r\<lparr>kc_locked := False\<rparr>) s2) c)"
    using s1(4) s2(4) by simp_all
  ultimately show ?thesis using s1(1) by blast
qed

theorem slab_object_roundtrip_witness:
  "\<exists>s obj s1 s2. take_object 0 0x1000 s = Some (KGot obj, s1) \<and> kmem_cache_free 0 0x1000 obj s1 = Some s2 \<and>
     slab_ok 0 0x1000 [1, 2, 3] s2"
proof -
  obtain s where s: "take_object 0 0x1000 (upd_cache 0 (\<lambda>r. r\<lparr>kc_locked := True\<rparr>) tiny_slab) = Some (KGot 0x2000, s)"
    by (simp add: take_object_def Let_def tiny_slab_def cache_unlock_def add_free_objects_def upd_cache_def upd_slab_def)
  have ok0: "slab_ok 0 0x1000 [0, 1, 2, 3] (upd_cache 0 (\<lambda>r. r\<lparr>kc_locked := True\<rparr>) tiny_slab)"
    using tiny_slab_ok by (simp add: slab_ok_def)
  have "kc_locked (caches (upd_cache 0 (\<lambda>r. r\<lparr>kc_locked := True\<rparr>) tiny_slab) 0)" by simp
  from take_object_ok [OF ok0 this] s have ok: "slab_ok 0 0x1000 [1, 2, 3] s"
    "obj_size (caches s 0) = 32" by (auto simp: tiny_slab_def upd_cache_def)
  let ?s = "upd_cache 0 (\<lambda>r. r\<lparr>kc_locked := True\<rparr>) s"
  have n: "n_objs_per_slab (caches s 0) = 4" "n_inuse (slabs s 0x1000) = 1"
    using s by (auto simp: take_object_def Let_def tiny_slab_def cache_unlock_def add_free_objects_def upd_cache_def upd_slab_def kzero_def)
  have "slab_ok 0 0x1000 [1, 2, 3] ?s" using ok(1) by (simp add: slab_ok_def)
  from slab_object_roundtrip [OF this] show ?thesis
    using n ok(2) by (fastforce simp: SLAB_SIZE_def)
qed

text \<open>When the last slab of \<^verbatim>\<open>slabs_empty\<close> has no free object left although the cache counts free
  objects (in another slab of the list), \<^verbatim>\<open>kmem_cache_alloc\<close> reads the link array at index
  \<open>BUFCTL_END\<close>, outside the array: the loop that would skip full slabs is commented out.\<close>

theorem kmem_cache_alloc_full_tail_faults:
  assumes "slab_ok c a [] s" "\<not> kc_locked (caches s c)" "0 < free_objects (caches s c)" "0 < m"
    "lprev (sl s) (SlabsPartitial c) = Some (SlabsPartitial c)" "lprev (sl s) (SlabsEmpty c) = Some (SlabNode a)"
  shows "kmem_cache_alloc m c g s = None"
proof -
  let ?s = "upd_cache c (\<lambda>r. r\<lparr>kc_locked := True\<rparr>) s"
  have "slab_ok c a [] ?s" using assms(1) by (simp add: slab_ok_def)
  then have "take_object c a ?s = None" by (rule take_object_full)
  moreover have "find_partitial m (SlabsPartitial c) c ?s = Some None" using assms(4) by (cases m) auto
  ultimately show ?thesis
    using assms(2,3,5,6) by (simp add: kmem_cache_alloc_def cache_alloc_body_def cache_lock_def)
qed

theorem kmem_cache_alloc_full_tail_faults_witness:
  "kmem_cache_alloc 1 0 0 (upd_slab 0x1000 (\<lambda>r. r\<lparr>n_inuse := 4, sfree := BUFCTL_END\<rparr>) tiny_slab) = None"
  by (rule kmem_cache_alloc_full_tail_faults [where a = "0x1000"])
    (simp_all add: slab_ok_def tiny_slab_def)

text \<open>\<^verbatim>\<open>kmalloc\<close> serves a request of 1 to 4096 bytes from one of the eight caches of its kind, whose
  objects, as \<^verbatim>\<open>slab_init\<close> sets them up, are at least as large as the request and less than twice as large
  (or the smallest size).\<close>

lemma slab_init_loop_sizes:
  "k < i \<or> i + n \<le> k \<Longrightarrow> k < i + 8 \<or> i + n + 8 \<le> k \<Longrightarrow> caches (slab_init_loop n i sz s) k = caches s k"
  "k < n \<Longrightarrow> n \<le> 8 \<Longrightarrow> obj_size (caches (slab_init_loop n i sz s) (i + k)) = sz * 2 ^ k \<and>
     obj_size (caches (slab_init_loop n i sz s) (i + k + 8)) = sz * 2 ^ k"
proof (induction n arbitrary: i sz s k)
  case (Suc n)
  {
    case 1
    then have "k < Suc i \<or> Suc i + n \<le> k" "k < Suc i + 8 \<or> Suc i + n + 8 \<le> k" "k \<noteq> i" "k \<noteq> i + 8" by auto
    then show ?case using Suc.IH(1) [of k "Suc i"] by (simp add: kmem_cache_init_def upd_cache_def NKMEMCACHE_def)
  next
    case 2
    show ?case
    proof (cases k)
      case 0
      then show ?thesis
        using Suc.IH(1) [of i "Suc i"] Suc.IH(1) [of "i + 8" "Suc i"] 2
        by (simp add: kmem_cache_init_def upd_cache_def NKMEMCACHE_def)
    next
      case (Suc j)
      then show ?thesis using Suc.IH(2) [of j "Suc i"] 2 by (simp add: ac_simps)
    qed
  }
qed simp_all

theorem kmalloc_size_class:
  fixes g :: u16
  assumes "0 < osize" "osize \<le> SLAB_SIZE"
  defines "k \<equiv> kmalloc_index osize 32 0"
  defines "c \<equiv> k + (if g AND GFP_DMA \<noteq> 0 then NKMEMCACHE div 2 else 0)"
  shows "kmalloc m osize g s = kmem_cache_alloc m c g s \<and> c < NKMEMCACHE \<and>
    osize \<le> obj_size (caches (slab_init s0) c) \<and>
    (obj_size (caches (slab_init s0) c) < 2 * osize \<or> obj_size (caches (slab_init s0) c) = 32)"
proof -
  have k: "k < 8" "osize \<le> 32 * 2 ^ k" using kmalloc_index_bounds [OF assms(2)] by (simp_all add: k_def)
  have up: "0 < k \<longrightarrow> 32 * 2 ^ (k - 1) < osize" using kmalloc_index_spec [of 32 osize 0] by (simp add: k_def)
  have sz: "obj_size (caches (slab_init s0) c) = 32 * 2 ^ k"
    using slab_init_loop_sizes(2) [of k 8 0 32] k(1) by (simp add: slab_init_def c_def NKMEMCACHE_def)
  have "32 * 2 ^ k < 2 * osize \<or> 32 * 2 ^ k = (32 :: nat)"
    using up by (cases k) auto
  moreover have "kmalloc m osize g s = kmem_cache_alloc m c g s"
    using assms(1,2) by (simp add: kmalloc_def c_def k_def)
  moreover have "c < NKMEMCACHE" using k(1) by (simp add: c_def NKMEMCACHE_def)
  ultimately show ?thesis using k(2) by (simp add: sz)
qed

theorem kmalloc_size_class_witness: "kmalloc 1 100 0 tiny_slab = kmem_cache_alloc 1 2 0 tiny_slab"
proof -
  have "kmalloc_index 100 32 0 = 2" by (simp add: kmalloc_index.simps)
  then show ?thesis using kmalloc_size_class [of 100 1 0 tiny_slab] by (simp add: SLAB_SIZE_def)
qed

text \<open>The layout of a slab page: the objects of a slab and, below 512 bytes, the link array in front
  of them fit into the page of the slab, the link array of larger objects fits into the descriptor, two
  different objects do not overlap, and every index is distinguishable from \<open>BUFCTL_END\<close>.\<close>

theorem slab_layout:
  assumes "0 < osize"
  defines "n \<equiv> objs_per_slab osize"
  shows "(if osize < 512 then n * 2 else 0) + n * osize \<le> SLAB_SIZE \<and> (512 \<le> osize \<longrightarrow> n \<le> SLAB_OBJ_DESP) \<and>
    (i < j \<longrightarrow> i * osize + osize \<le> j * osize) \<and> (i < n \<longrightarrow> (of_nat i :: u16) \<noteq> BUFCTL_END)"
proof (intro conjI impI)
  show "(if osize < 512 then n * 2 else 0) + n * osize \<le> SLAB_SIZE" "512 \<le> osize \<Longrightarrow> n \<le> SLAB_OBJ_DESP"
    using objs_per_slab_fit [OF assms(1)] by (auto simp: n_def)
  show "i * osize + osize \<le> j * osize" if "i < j"
    using mult_le_mono1 [of "Suc i" j osize] that by simp
  show "(of_nat i :: u16) \<noteq> BUFCTL_END" if "i < n"
  proof
    assume "(of_nat i :: u16) = BUFCTL_END"
    then have "unat (of_nat i :: u16) = 0xFFFF" by (simp add: BUFCTL_END_def)
    then show False using that objs_per_slab_fit(3) [OF assms(1)] by (simp add: n_def unat_of_nat16)
  qed
qed

theorem slab_layout_witness: "objs_per_slab 64 * 2 + objs_per_slab 64 * 64 \<le> SLAB_SIZE"
  using slab_layout [of 64] by simp

end
