(* ===== verification/KString.thy ===== *)
theory KString
  imports Prelude
begin

text \<open>
  The string and memory functions of lib/string.c over a byte memory with 32-bit addresses.  A loop
  that ends only at a terminator is a partial function: without a terminator it does not return.
\<close>

unbundle bit_operations_syntax

type_synonym memory = "u32 \<Rightarrow> u8"

section \<open>Functions that read\<close>

partial_function (option) strlen_loop :: "memory \<Rightarrow> u32 \<Rightarrow> nat \<Rightarrow> nat option" where
  "strlen_loop m s i = (if m (s + of_nat i) \<noteq> 0 then strlen_loop m s (Suc i) else Some i)"

definition strlen :: "memory \<Rightarrow> u32 \<Rightarrow> int option" where
  "strlen m s = (if s = 0 then Some (- 1) else map_option int (strlen_loop m s 0))"

partial_function (option) strcmp :: "memory \<Rightarrow> u32 \<Rightarrow> u32 \<Rightarrow> int option" where
  "strcmp m str1 str2 =
     (if m str1 \<noteq> 0 \<and> m str1 = m str2 then strcmp m (str1 + 1) (str2 + 1)
      else Some (uint (m str1) - uint (m str2)))"

function strncmp :: "memory \<Rightarrow> u32 \<Rightarrow> u32 \<Rightarrow> int \<Rightarrow> int" where
  "strncmp m str1 str2 n =
     (if 0 < n \<and> m str1 \<noteq> 0 \<and> m str1 = m str2 then strncmp m (str1 + 1) (str2 + 1) (n - 1)
      else if n = 0 then 0
      else uint (m str1) - uint (m str2))"
  by pat_completeness auto
termination
  by (relation "measure (\<lambda>(m, a, b, n). nat n)") auto

partial_function (option) strchr_loop :: "memory \<Rightarrow> u32 \<Rightarrow> u8 \<Rightarrow> u32 option" where
  "strchr_loop m s c =
     (if m s \<noteq> 0 then if m s = c then Some s else strchr_loop m (s + 1) c else Some 0)"

definition strchr :: "memory \<Rightarrow> u32 \<Rightarrow> u8 \<Rightarrow> u32 option" where
  "strchr m s c = (if s = 0 then Some 0 else strchr_loop m s c)"

fun memcmp :: "memory \<Rightarrow> u32 \<Rightarrow> u32 \<Rightarrow> nat \<Rightarrow> int" where
  "memcmp m v1 v2 0 = 0"
| "memcmp m v1 v2 (Suc n) = (if m v1 \<noteq> m v2 then uint (m v1) - uint (m v2) else memcmp m (v1 + 1) (v2 + 1) n)"

section \<open>Functions that write\<close>

partial_function (option) strcpy_loop :: "u32 \<Rightarrow> u32 \<Rightarrow> memory \<Rightarrow> memory option" where
  "strcpy_loop des src m =
     (let c = m src; m = m(des := c) in if c \<noteq> 0 then strcpy_loop (des + 1) (src + 1) m else Some m)"

definition strcpy :: "u32 \<Rightarrow> u32 \<Rightarrow> memory \<Rightarrow> (u32 \<times> memory) option" where
  "strcpy des src m = (if des = 0 \<or> src = 0 then Some (0, m) else map_option (\<lambda>m. (des, m)) (strcpy_loop des src m))"

text \<open>The loop of \<^verbatim>\<open>strncpy\<close> copies at least one byte; the result is the address behind the last byte
  copied, where the terminator is written.\<close>

function strncpy_loop :: "u32 \<Rightarrow> u32 \<Rightarrow> int \<Rightarrow> memory \<Rightarrow> u32 \<times> memory" where
  "strncpy_loop des src n m =
     (let c = m src; m = m(des := c) in
      if c \<noteq> 0 \<and> 0 < n - 1 then strncpy_loop (des + 1) (src + 1) (n - 1) m else (des + 1, m))"
  by pat_completeness auto
termination
  by (relation "measure (\<lambda>(d, s, n, m). nat n)") auto

definition strncpy :: "u32 \<Rightarrow> u32 \<Rightarrow> int \<Rightarrow> memory \<Rightarrow> u32 \<times> memory" where
  "strncpy des src n m =
     (if des = 0 \<or> src = 0 then (0, m)
      else let (d, m) = strncpy_loop des src n m in (d, m(d := 0)))"

definition strcat :: "u32 \<Rightarrow> u32 \<Rightarrow> memory \<Rightarrow> (u32 \<times> memory) option" where
  "strcat des src m = do { len \<leftarrow> strlen m des; (_, m) \<leftarrow> strcpy (des + word_of_int len) src m; Some (des, m) }"

definition strncat :: "u32 \<Rightarrow> u32 \<Rightarrow> int \<Rightarrow> memory \<Rightarrow> (u32 \<times> memory) option" where
  "strncat des src nbytes m = do {
     len \<leftarrow> strlen m des;
     let (_, m) = strncpy (des + word_of_int len) src nbytes m;
     Some (des, m)
   }"

fun memset :: "u32 \<Rightarrow> u8 \<Rightarrow> nat \<Rightarrow> memory \<Rightarrow> memory" where
  "memset s ch 0 m = m"
| "memset s ch (Suc n) m = memset (s + 1) ch n (m(s := ch))"

fun copy_up :: "u32 \<Rightarrow> u32 \<Rightarrow> nat \<Rightarrow> memory \<Rightarrow> memory" where
  "copy_up d s 0 m = m"
| "copy_up d s (Suc n) m = copy_up (d + 1) (s + 1) n (m(d := m s))"

fun copy_down :: "u32 \<Rightarrow> u32 \<Rightarrow> nat \<Rightarrow> memory \<Rightarrow> memory" where
  "copy_down d s 0 m = m"
| "copy_down d s (Suc n) m = copy_down (d - 1) (s - 1) n (m(d - 1 := m (s - 1)))"

definition memmove :: "u32 \<Rightarrow> u32 \<Rightarrow> nat \<Rightarrow> memory \<Rightarrow> memory" where
  "memmove dst src n m =
     (if src < dst \<and> dst < src + of_nat n then copy_down (dst + of_nat n) (src + of_nat n) n m
      else copy_up dst src n m)"

definition memcpy :: "u32 \<Rightarrow> u32 \<Rightarrow> nat \<Rightarrow> memory \<Rightarrow> memory" where
  "memcpy = memmove"

function safestrcpy_loop :: "u32 \<Rightarrow> u32 \<Rightarrow> int \<Rightarrow> memory \<Rightarrow> u32 \<times> memory" where
  "safestrcpy_loop s t n m =
     (if 0 < n - 1
      then let c = m t; m = m(s := c) in
           if c \<noteq> 0 then safestrcpy_loop (s + 1) (t + 1) (n - 1) m else (s + 1, m)
      else (s, m))"
  by pat_completeness auto
termination
  by (relation "measure (\<lambda>(s, t, n, m). nat n)") auto

definition safestrcpy :: "u32 \<Rightarrow> u32 \<Rightarrow> int \<Rightarrow> memory \<Rightarrow> memory" where
  "safestrcpy s t n m = (if n \<le> 0 then m else let (e, m) = safestrcpy_loop s t n m in m(e := 0))"

text \<open>\<^verbatim>\<open>char\<close> is signed; the upper bound of the range in \<^verbatim>\<open>lowercase\<close> is the letter \<^verbatim>\<open>a\<close>.\<close>

partial_function (option) lowercase_loop :: "u32 \<Rightarrow> memory \<Rightarrow> memory option" where
  "lowercase_loop s m =
     (if m s \<noteq> 0
      then lowercase_loop (s + 1) (if 65 \<le> sint (m s) \<and> sint (m s) \<le> 97 then m(s := m s OR 0x20) else m)
      else Some m)"

definition lowercase :: "u32 \<Rightarrow> memory \<Rightarrow> memory option" where
  "lowercase s m = (if s = 0 then Some m else lowercase_loop s m)"

end
