(* ===== verification/KString_Props.thy ===== *)
theory KString_Props
  imports KString
begin

text \<open>Correctness of the string and memory functions.\<close>

section \<open>C strings in memory\<close>

fun cstr :: "memory \<Rightarrow> u32 \<Rightarrow> u8 list \<Rightarrow> bool" where
  "cstr m a [] \<longleftrightarrow> m a = 0"
| "cstr m a (x # xs) \<longleftrightarrow> m a = x \<and> x \<noteq> 0 \<and> cstr m (a + 1) xs"

lemma strlen_loop_cstr: "cstr m (s + of_nat i) xs \<Longrightarrow> strlen_loop m s i = Some (i + length xs)"
proof (induction xs arbitrary: i)
  case Nil
  then show ?case by (subst strlen_loop.simps) simp
next
  case (Cons x xs)
  then have "strlen_loop m s (Suc i) = Some (Suc i + length xs)"
    by (intro Cons.IH) (simp add: algebra_simps)
  with Cons.prems show ?case by (subst strlen_loop.simps) simp
qed

text \<open>The comparison that \<^verbatim>\<open>strcmp\<close> computes: the difference of the first bytes that differ, the
  terminator counting as 0.\<close>

fun byte_compare :: "u8 list \<Rightarrow> u8 list \<Rightarrow> int" where
  "byte_compare [] [] = 0"
| "byte_compare [] (y # ys) = - uint y"
| "byte_compare (x # xs) [] = uint x"
| "byte_compare (x # xs) (y # ys) = (if x = y then byte_compare xs ys else uint x - uint y)"

lemma strcmp_cstr: "cstr m a xs \<Longrightarrow> cstr m b ys \<Longrightarrow> strcmp m a b = Some (byte_compare xs ys)"
proof (induction xs ys arbitrary: a b rule: byte_compare.induct)
  case (4 x xs y ys)
  then show ?case by (subst strcmp.simps) auto
qed (subst strcmp.simps; simp)+

lemma byte_compare_0: "0 \<notin> set xs \<Longrightarrow> 0 \<notin> set ys \<Longrightarrow> byte_compare xs ys = 0 \<longleftrightarrow> xs = ys"
  by (induction xs ys rule: byte_compare.induct) (simp_all add: uint_0_iff word_uint_eq_iff [symmetric])

lemma byte_compare_neg:
  "0 \<notin> set xs \<Longrightarrow> 0 \<notin> set ys \<Longrightarrow> byte_compare xs ys < 0 \<longleftrightarrow> (xs, ys) \<in> lexord {(x, y). x < y}"
proof (induction xs ys rule: byte_compare.induct)
  case (2 y ys)
  then have "0 < uint y" using uint_0_iff [of y] uint_ge_0 [of y] by (simp add: order.order_iff_strict)
  then show ?case by simp
next
  case (3 x xs)
  have "0 \<le> uint x" by simp
  then show ?case by simp
next
  case (4 x xs y ys)
  have "uint x - uint y < 0 \<longleftrightarrow> x < y" by (simp add: word_less_def)
  with 4 show ?case by simp
qed simp

lemma cstr_nonzero: "cstr m a xs \<Longrightarrow> 0 \<notin> set xs"
  by (induction xs arbitrary: a) auto

section \<open>Copying\<close>

lemma unat_pred: "x \<noteq> (0 :: u32) \<Longrightarrow> unat x = Suc (unat (x - 1))"
  by (metis Suc_pred' unat_gt_0 unat_minus_one)

lemma unat_minus1: "unat (- 1 :: u32) = 2 ^ 32 - 1"
  by (simp add: unsigned_minus_1_eq_mask mask_eq_exp_minus_1)

lemma copy_up_spec:
  assumes "unat (d - s) = 0 \<or> n \<le> unat (d - s)" "n \<le> 2 ^ 32"
  shows "copy_up d s n m x = (if unat (x - d) < n then m (s + (x - d)) else m x)"
  using assms
proof (induction n arbitrary: d s m)
  case (Suc n)
  have ih: "copy_up (d + 1) (s + 1) n (m(d := m s)) x =
      (if unat (x - (d + 1)) < n then (m(d := m s)) (s + 1 + (x - (d + 1))) else (m(d := m s)) x)"
    by (rule Suc.IH) (use Suc.prems in auto)
  have e: "x - (d + 1) = (x - d) - 1" "s + 1 + (x - (d + 1)) = s + (x - d)" by simp_all
  show ?case
  proof (cases "x = d")
    case True
    then show ?thesis using ih Suc.prems(2) by (simp add: unat_minus1)
  next
    case False
    then have u: "unat (x - d) = Suc (unat (x - d - 1))" by (intro unat_pred) simp
    have "s + (x - d) \<noteq> d" if "unat (x - d) < Suc n"
    proof
      assume "s + (x - d) = d"
      then have "x - d = d - s" by (metis add_diff_cancel_left')
      then show False using Suc.prems(1) that False by (auto simp: unat_eq_0)
    qed
    then show ?thesis using ih u False unfolding e by auto
  qed
qed simp

lemma copy_down_spec:
  assumes "unat (s - d) = 0 \<or> n \<le> unat (s - d)" "n \<le> 2 ^ 32"
  shows "copy_down (d + of_nat n) (s + of_nat n) n m x = (if unat (x - d) < n then m (s + (x - d)) else m x)"
  using assms
proof (induction n arbitrary: m)
  case (Suc n)
  let ?m = "m(d + of_nat n := m (s + of_nat n))"
  have step: "copy_down (d + of_nat (Suc n)) (s + of_nat (Suc n)) (Suc n) m x = copy_down (d + of_nat n) (s + of_nat n) n ?m x"
    by simp
  have ih: "copy_down (d + of_nat n) (s + of_nat n) n ?m x = (if unat (x - d) < n then ?m (s + (x - d)) else ?m x)"
    by (rule Suc.IH) (use Suc.prems in auto)
  have un: "unat (of_nat n :: u32) = n" using Suc.prems(2) by (simp add: unat_of_nat take_bit_nat_eq_self_iff)
  have x: "x = d + of_nat n \<longleftrightarrow> unat (x - d) = n"
    by (metis un add_diff_cancel_left' diff_eq_eq word_unat_eq_iff add.commute)
  have "s + (x - d) \<noteq> d + of_nat n" if lt: "unat (x - d) < n"
  proof
    assume "s + (x - d) = d + of_nat n"
    then have "s - d = of_nat n - (x - d)" by (simp add: algebra_simps)
    moreover have "unat (of_nat n - (x - d)) = n - unat (x - d)" using lt un by (simp add: unat_sub word_le_nat_alt)
    ultimately have "unat (s - d) = n - unat (x - d)" by metis
    then show False using Suc.prems(1) lt by linarith
  qed
  then show ?case unfolding step ih using x by (auto simp: less_Suc_eq)
qed simp

lemma memmove_spec:
  assumes "unat dst + n \<le> 2 ^ 32" "unat src + n < 2 ^ 32"
  shows "memmove dst src n m x = (if unat (x - dst) < n then m (src + (x - dst)) else m x)"
proof -
  have n: "unat (of_nat n :: u32) = n" using assms by (simp add: unat_of_nat take_bit_nat_eq_self_iff)
  have sn: "unat (src + of_nat n) = unat src + n" using assms n by (simp add: unat_word_ariths)
  show ?thesis
  proof (cases "src < dst \<and> dst < src + of_nat n")
    case True
    have "dst - src \<noteq> 0" "unat (dst - src) = unat dst - unat src" using True by (auto simp: unat_sub order.strict_implies_order)
    moreover have "unat (src - dst) = 2 ^ 32 - unat (dst - src)"
      using True unat_sub_if' [of src dst] by (simp add: word_less_nat_alt unat_sub_if')
    ultimately have "n \<le> unat (src - dst)" using True sn assms by (simp add: word_less_nat_alt)
    then show ?thesis using True assms by (simp add: memmove_def copy_down_spec)
  next
    case False
    have "unat (dst - src) = 0 \<or> n \<le> unat (dst - src)"
    proof (cases "src < dst")
      case True
      then show ?thesis using False sn by (auto simp: word_less_nat_alt unat_sub_if')
    next
      case lt: False
      show ?thesis
      proof (cases "src = dst")
        case False
        then have "unat (dst - src) = 2 ^ 32 + unat dst - unat src"
          using lt unat_sub_if' [of dst src] by (auto simp: word_less_nat_alt word_unat_eq_iff)
        then show ?thesis using assms by simp
      qed simp
    qed
    then have "copy_up dst src n m x = (if unat (x - dst) < n then m (src + (x - dst)) else m x)"
      using assms by (intro copy_up_spec) auto
    moreover have "memmove dst src n m = copy_up dst src n m" unfolding memmove_def using False by (rule if_not_P)
    ultimately show ?thesis by simp
  qed
qed

section \<open>Bounded copies\<close>

declare safestrcpy_loop.simps [simp del] strncpy_loop.simps [simp del]

lemma safestrcpy_loop_bounds:
  "0 < n \<Longrightarrow> n \<le> 2 ^ 31 \<Longrightarrow> safestrcpy_loop s t n m = (e, m') \<Longrightarrow>
    (\<exists>k<nat n. e = s + of_nat k) \<and> (\<forall>x. nat n \<le> unat (x - s) \<longrightarrow> m' x = m x)"
proof (induction s t n m arbitrary: e m' rule: safestrcpy_loop.induct)
  case (1 s t n m)
  show ?case
  proof (cases "0 < n - 1")
    case False
    then show ?thesis using "1.prems" by (auto simp: safestrcpy_loop.simps [of s t n m] intro!: exI [of _ 0])
  next
    case True
    show ?thesis
    proof (cases "m t = 0")
      case zero: True
      then have "e = s + 1" "m' = m(s := 0)" using "1.prems" True by (auto simp: safestrcpy_loop.simps [of s t n m])
      then show ?thesis using True by (auto intro!: exI [of _ 1])
    next
      case nz: False
      then have rec: "safestrcpy_loop (s + 1) (t + 1) (n - 1) (m(s := m t)) = (e, m')"
        using "1.prems" True by (simp add: safestrcpy_loop.simps [of s t n m] Let_def)
      have le: "n - 1 \<le> 2 ^ 31" using "1.prems"(2) by linarith
      obtain k where k: "k < nat (n - 1)" "e = s + 1 + of_nat k"
        and fr: "\<forall>x. nat (n - 1) \<le> unat (x - (s + 1)) \<longrightarrow> m' x = (m(s := m t)) x"
        using "1.IH" [OF True refl refl nz True le rec] by blast
      have "m' x = m x" if x: "nat n \<le> unat (x - s)" for x
      proof -
        have "x \<noteq> s" using x "1.prems"(1) by auto
        then have "unat (x - s) = Suc (unat (x - s - 1))" by (intro unat_pred) simp
        then have "nat (n - 1) \<le> unat (x - (s + 1))" using x by (simp add: diff_diff_eq)
        then show ?thesis using fr \<open>x \<noteq> s\<close> by simp
      qed
      moreover have "e = s + of_nat (Suc k)" "Suc k < nat n" using k True by (simp_all add: algebra_simps)
      ultimately show ?thesis by blast
    qed
  qed
qed

lemma strncpy_loop_full:
  assumes "0 < n" "\<forall>i<nat n. m (src + of_nat i) \<noteq> 0" "\<forall>i<nat n. \<forall>j<nat n. des + of_nat i \<noteq> src + of_nat j"
  shows "fst (strncpy_loop des src n m) = des + of_nat (nat n)"
  using assms
proof (induction des src n m rule: strncpy_loop.induct)
  case (1 des src n m)
  have nz: "m src \<noteq> 0" using "1.prems"(1,2) spec [of _ 0] by fastforce
  show ?case
  proof (cases "0 < n - 1")
    case False
    then have "n = 1" using "1.prems"(1) by simp
    then show ?thesis by (simp add: strncpy_loop.simps [of des src 1 m] Let_def)
  next
    case True
    let ?m = "m(des := m src)"
    have src: "src + 1 + of_nat i = src + of_nat (Suc i)" "des + 1 + of_nat i = des + of_nat (Suc i)" for i
      by (simp_all add: algebra_simps)
    have "\<forall>i<nat (n - 1). ?m (src + 1 + of_nat i) \<noteq> 0"
    proof (intro allI impI)
      fix i assume "i < nat (n - 1)"
      then have "Suc i < nat n" "0 < nat n" by auto
      then have "m (src + of_nat (Suc i)) \<noteq> 0" "des + of_nat 0 \<noteq> src + of_nat (Suc i)" using "1.prems"(2,3) by blast+
      then show "?m (src + 1 + of_nat i) \<noteq> 0" unfolding src by simp
    qed
    moreover have "\<forall>i<nat (n - 1). \<forall>j<nat (n - 1). des + 1 + of_nat i \<noteq> src + 1 + of_nat j"
    proof (intro allI impI)
      fix i j assume "i < nat (n - 1)" "j < nat (n - 1)"
      then have "Suc i < nat n" "Suc j < nat n" by auto
      then show "des + 1 + of_nat i \<noteq> src + 1 + of_nat j" unfolding src using "1.prems"(3) by blast
    qed
    ultimately have "fst (strncpy_loop (des + 1) (src + 1) (n - 1) ?m) = des + 1 + of_nat (nat (n - 1))"
      by (rule "1.IH" [OF refl refl conjI [OF nz True] True])
    moreover have "Suc (nat (n - 1)) = nat n" using True by simp
    ultimately have "fst (strncpy_loop (des + 1) (src + 1) (n - 1) ?m) = des + of_nat (nat n)"
      by (metis src(2))
    then show ?thesis using nz True by (simp add: strncpy_loop.simps [of des src n m] Let_def)
  qed
qed

section \<open>Properties\<close>

text \<open>\<^verbatim>\<open>strlen\<close> and \<^verbatim>\<open>strcmp\<close> return on C strings: \<^verbatim>\<open>strlen\<close> the length, \<^verbatim>\<open>strcmp\<close> zero exactly for equal
  strings and a negative value exactly when the first string precedes the second lexicographically
  by unsigned bytes.\<close>

theorem strlen_strcmp_correct:
  assumes "cstr m a xs" "cstr m b ys" "a \<noteq> 0"
  shows "strlen m a = Some (int (length xs)) \<and>
    (\<exists>r. strcmp m a b = Some r \<and> (r = 0 \<longleftrightarrow> xs = ys) \<and> (r < 0 \<longleftrightarrow> (xs, ys) \<in> lexord {(x, y). x < y}))"
  using strlen_loop_cstr [of m a 0 xs] strcmp_cstr [OF assms(1,2)] assms
    byte_compare_0 [OF cstr_nonzero [OF assms(1)] cstr_nonzero [OF assms(2)]]
    byte_compare_neg [OF cstr_nonzero [OF assms(1)] cstr_nonzero [OF assms(2)]]
  by (simp add: strlen_def)

definition tiny_text :: memory where
  "tiny_text = (\<lambda>_. 0)(16 := 97, 17 := 98, 32 := 97, 33 := 99)"

theorem strlen_strcmp_correct_witness:
  "strlen tiny_text 16 = Some 2 \<and> (\<exists>r. strcmp tiny_text 16 32 = Some r \<and> r \<noteq> 0)"
  using strlen_strcmp_correct [of tiny_text 16 "[97, 98]" 32 "[97, 99]"] by (auto simp: tiny_text_def)

text \<open>\<^verbatim>\<open>memmove\<close> copies correctly also when the two areas overlap: afterwards the destination holds
  what the source held before, and no other byte has changed.\<close>

theorem memmove_correct:
  assumes "unat dst + n \<le> 2 ^ 32" "unat src + n < 2 ^ 32"
  shows "memmove dst src n m = (\<lambda>x. if unat (x - dst) < n then m (src + (x - dst)) else m x)"
  using memmove_spec [OF assms] by blast

theorem memmove_correct_witness: "memmove 17 16 2 tiny_text 18 = 98"
  using memmove_correct [of 17 2 16 tiny_text] by (simp add: tiny_text_def)

text \<open>\<^verbatim>\<open>safestrcpy\<close> with a buffer of \<open>n\<close> bytes writes inside the buffer only and leaves a terminator
  in it, whatever the source is.\<close>

theorem safestrcpy_in_bounds:
  assumes "0 < n" "n \<le> 2 ^ 31"
  shows "(\<forall>x. nat n \<le> unat (x - s) \<longrightarrow> safestrcpy s t n m x = m x) \<and> (\<exists>k<nat n. safestrcpy s t n m (s + of_nat k) = 0)"
proof -
  obtain e m' where l: "safestrcpy_loop s t n m = (e, m')" by (cases "safestrcpy_loop s t n m")
  obtain k where k: "k < nat n" "e = s + of_nat k" and fr: "\<forall>x. nat n \<le> unat (x - s) \<longrightarrow> m' x = m x"
    using safestrcpy_loop_bounds [OF assms l] by blast
  have "unat (e - s) = k" using k assms(2) by (simp add: unat_of_nat take_bit_nat_eq_self_iff nat_less_iff)
  then have "x \<noteq> e" if "nat n \<le> unat (x - s)" for x using that k(1) by auto
  then show ?thesis using fr k assms(1) by (auto simp: safestrcpy_def l)
qed

theorem safestrcpy_in_bounds_witness: "safestrcpy 64 16 2 tiny_text 66 = tiny_text 66"
  using safestrcpy_in_bounds [of 2 64 16 tiny_text] by simp

text \<open>\<^verbatim>\<open>strncpy\<close> does not respect its bound: when the first \<open>n\<close> bytes of the source are not zero, it
  writes a zero byte at offset \<open>n\<close>, one behind the buffer.\<close>

theorem strncpy_overruns:
  assumes "des \<noteq> 0" "src \<noteq> 0" "0 < n" "\<forall>i<nat n. m (src + of_nat i) \<noteq> 0"
    "\<forall>i<nat n. \<forall>j<nat n. des + of_nat i \<noteq> src + of_nat j"
  shows "snd (strncpy des src n m) (des + of_nat (nat n)) = 0"
  using strncpy_loop_full [OF assms(3,4,5)] assms(1,2)
  by (cases "strncpy_loop des src n m") (simp add: strncpy_def)

theorem strncpy_overruns_witness:
  "snd (strncpy 64 16 1 (tiny_text(65 := 7))) 65 = 0 \<and> (tiny_text(65 := 7)) 65 = 7"
  using strncpy_overruns [of 64 16 1 "tiny_text(65 := 7)"] by (simp add: tiny_text_def)

end
