(* ===== verification/Lock.thy ===== *)
theory Lock
  imports Prelude
begin

text \<open>
  Interrupt nesting, spin locks and sleep locks (kern/lock.c, include/lock.h).

  A CPU has the interrupt flag of its EFLAGS register, the nesting depth \<^verbatim>\<open>n_clis\<close> and the saved flag
  \<^verbatim>\<open>int_enabled\<close>.  A call of \<^verbatim>\<open>panic\<close>, and a spin on a lock that another CPU holds, do not return.
  A sleep lock is used by processes that may be put to sleep in the middle of \<^verbatim>\<open>sleep_lock\<close>; its use is
  a step relation between the points where the lock's spin lock is free.
\<close>

section \<open>Interrupt nesting\<close>

record cpu_st =
  if_flag :: bool
  n_clis :: int
  int_enabled :: bool

definition special_cli :: "cpu_st \<Rightarrow> cpu_st" where
  "special_cli c =
     (let eflags = if_flag c;
          c = c\<lparr>if_flag := False\<rparr>;
          c = (if n_clis c = 0 then c\<lparr>int_enabled := eflags\<rparr> else c)
      in c\<lparr>n_clis := n_clis c + 1\<rparr>)"

definition special_sli :: "cpu_st \<Rightarrow> cpu_st option" where
  "special_sli c =
     (if if_flag c then None
      else let c = c\<lparr>n_clis := n_clis c - 1\<rparr> in
           if n_clis c < 0 then None
           else if n_clis c = 0 \<and> int_enabled c then Some (c\<lparr>if_flag := True\<rparr>)
           else Some c)"

section \<open>Spin locks\<close>

record spinlock =
  sl_locked :: bool
  sl_cpu :: "nat option"

definition spinlock_init :: spinlock where
  "spinlock_init = \<lparr>sl_locked = False, sl_cpu = None\<rparr>"

definition holding_spinlock :: "nat \<Rightarrow> spinlock \<Rightarrow> bool" where
  "holding_spinlock me lk \<longleftrightarrow> sl_locked lk \<and> sl_cpu lk = Some me"

definition spin_lock_irqsave :: "nat \<Rightarrow> spinlock \<Rightarrow> cpu_st \<Rightarrow> (spinlock \<times> cpu_st) option" where
  "spin_lock_irqsave me lk c =
     (let c = special_cli c in
      if holding_spinlock me lk then None
      else if sl_locked lk then None
      else Some (lk\<lparr>sl_locked := True, sl_cpu := Some me\<rparr>, c))"

definition spin_unlock_irqrestore :: "nat \<Rightarrow> spinlock \<Rightarrow> cpu_st \<Rightarrow> (spinlock \<times> cpu_st) option" where
  "spin_unlock_irqrestore me lk c =
     (if \<not> holding_spinlock me lk then None
      else map_option (\<lambda>c. (lk\<lparr>sl_cpu := None, sl_locked := False\<rparr>, c)) (special_sli c))"

text \<open>The state of a CPU between critical sections: depth and flag agree.\<close>

definition cpu_ok :: "cpu_st \<Rightarrow> bool" where
  "cpu_ok c \<longleftrightarrow> 0 \<le> n_clis c \<and> (0 < n_clis c \<longrightarrow> \<not> if_flag c)"

fun cli_times :: "nat \<Rightarrow> cpu_st \<Rightarrow> cpu_st" where
  "cli_times 0 c = c"
| "cli_times (Suc n) c = cli_times n (special_cli c)"

fun sli_times :: "nat \<Rightarrow> cpu_st \<Rightarrow> cpu_st option" where
  "sli_times 0 c = Some c"
| "sli_times (Suc n) c = do { c \<leftarrow> special_sli c; sli_times n c }"

lemma special_cli_ok: "cpu_ok c \<Longrightarrow> cpu_ok (special_cli c) \<and> \<not> if_flag (special_cli c) \<and> 0 < n_clis (special_cli c)"
  by (simp add: special_cli_def cpu_ok_def Let_def)

lemma cli_sli: "cpu_ok c \<Longrightarrow> special_sli (special_cli c) = Some (c\<lparr>int_enabled := int_enabled (special_cli c)\<rparr>)"
  by (cases c) (auto simp: special_cli_def special_sli_def cpu_ok_def Let_def)

text \<open>Once interrupts are saved, deeper nesting does not disturb the saved flag.\<close>

lemma cli_sli_nested: "cpu_ok c \<Longrightarrow> 0 < n_clis c \<Longrightarrow> special_sli (special_cli c) = Some c"
  by (cases c) (auto simp: special_cli_def special_sli_def cpu_ok_def Let_def)

lemma sli_times_snoc: "sli_times (Suc n) c = do { c \<leftarrow> sli_times n c; special_sli c }"
proof (induction n arbitrary: c)
  case (Suc n)
  have "sli_times (Suc (Suc n)) c = do { c \<leftarrow> special_sli c; sli_times (Suc n) c }" by (rule sli_times.simps(2))
  also have "\<dots> = do { c \<leftarrow> special_sli c; c \<leftarrow> sli_times n c; special_sli c }" unfolding Suc ..
  also have "\<dots> = do { c \<leftarrow> sli_times (Suc n) c; special_sli c }" by simp
  finally show ?case .
next
  case 0
  show ?case by (cases "special_sli c") auto
qed

lemma cli_sli_times_nested: "cpu_ok c \<Longrightarrow> 0 < n_clis c \<Longrightarrow> sli_times n (cli_times n c) = Some c"
proof (induction n arbitrary: c)
  case (Suc n)
  have "sli_times n (cli_times n (special_cli c)) = Some (special_cli c)"
    by (rule Suc.IH) (use special_cli_ok [OF Suc.prems(1)] in auto)
  then show ?case using cli_sli_nested [OF Suc.prems] by (simp only: sli_times_snoc cli_times.simps) simp
qed simp

section \<open>Sleep locks\<close>

text \<open>A process outside, on its way to the test of \<^verbatim>\<open>slk->locked\<close> (entering or woken), asleep in the
  queue of the lock, or holding the lock.\<close>

datatype slk_pc = SOut | STest | SAsleep | SHold

record sleeplock =
  slk_locked :: bool
  sleep_procs :: "nat list"
  slk_at :: "nat \<Rightarrow> slk_pc"

definition sleeplock_init :: sleeplock where
  "sleeplock_init = \<lparr>slk_locked = False, sleep_procs = [], slk_at = (\<lambda>_. SOut)\<rparr>"

text \<open>The loop test of \<^verbatim>\<open>sleep_lock\<close> and what follows it.\<close>

definition sleep_lock :: "nat \<Rightarrow> sleeplock \<Rightarrow> sleeplock" where
  "sleep_lock p s =
     (if slk_locked s
      then s\<lparr>sleep_procs := sleep_procs s @ [p], slk_at := (slk_at s)(p := SAsleep)\<rparr>
      else s\<lparr>slk_locked := True, slk_at := (slk_at s)(p := SHold)\<rparr>)"

definition sleep_unlock :: "nat \<Rightarrow> sleeplock \<Rightarrow> sleeplock" where
  "sleep_unlock p s =
     s\<lparr>slk_locked := False, sleep_procs := [],
       slk_at := (\<lambda>q. if q = p then SOut else if q \<in> set (sleep_procs s) then STest else slk_at s q)\<rparr>"

definition holding_sleeplock :: "sleeplock \<Rightarrow> bool" where
  "holding_sleeplock s = slk_locked s"

inductive slk_step :: "sleeplock \<Rightarrow> sleeplock \<Rightarrow> bool" where
  slk_call: "slk_at s p = SOut \<Longrightarrow> slk_step s (s\<lparr>slk_at := (slk_at s)(p := STest)\<rparr>)"
| slk_test: "slk_at s p = STest \<Longrightarrow> slk_step s (sleep_lock p s)"
| slk_release: "slk_at s p = SHold \<Longrightarrow> slk_step s (sleep_unlock p s)"

definition slk_inv :: "sleeplock \<Rightarrow> bool" where
  "slk_inv s \<longleftrightarrow> (\<forall>p q. slk_at s p = SHold \<and> slk_at s q = SHold \<longrightarrow> p = q) \<and>
     (slk_locked s \<longleftrightarrow> (\<exists>p. slk_at s p = SHold)) \<and>
     (\<forall>p. slk_at s p = SAsleep \<longleftrightarrow> p \<in> set (sleep_procs s)) \<and>
     (sleep_procs s \<noteq> [] \<longrightarrow> slk_locked s)"

lemma slk_inv_init: "slk_inv sleeplock_init"
  by (simp add: slk_inv_def sleeplock_init_def)

lemma slk_ex_upd:
  "f p \<noteq> SHold \<Longrightarrow> v \<noteq> SHold \<Longrightarrow> (\<exists>q. (f(p := v)) q = SHold) \<longleftrightarrow> (\<exists>q. f q = SHold)"
  by (metis fun_upd_other fun_upd_same)

lemma slk_inv_step: "slk_step s t \<Longrightarrow> slk_inv s \<Longrightarrow> slk_inv t"
proof (induction rule: slk_step.induct)
  case (slk_call s p)
  then have ex: "(\<exists>q. ((slk_at s)(p := STest)) q = SHold) \<longleftrightarrow> (\<exists>q. slk_at s q = SHold)"
    by (intro slk_ex_upd) auto
  have "slk_at s p \<noteq> SAsleep" using slk_call(1) by simp
  then have "p \<notin> set (sleep_procs s)" using slk_call(2) unfolding slk_inv_def by blast
  then show ?case using slk_call ex unfolding slk_inv_def by (auto simp del: fun_upd_apply) (auto split: if_splits)
next
  case (slk_test s p)
  then have ex: "(\<exists>q. ((slk_at s)(p := SAsleep)) q = SHold) \<longleftrightarrow> (\<exists>q. slk_at s q = SHold)"
    by (intro slk_ex_upd) auto
  show ?case
  proof (cases "slk_locked s")
    case True
    then show ?thesis using slk_test ex unfolding slk_inv_def sleep_lock_def
      by (auto simp del: fun_upd_apply) (auto split: if_splits)
  next
    case False
    then show ?thesis using slk_test unfolding slk_inv_def sleep_lock_def by (auto split: if_splits)
  qed
next
  case (slk_release s p)
  then show ?case unfolding slk_inv_def sleep_unlock_def by (auto split: if_splits)
qed

lemma slk_inv_reachable: "slk_step\<^sup>*\<^sup>* sleeplock_init s \<Longrightarrow> slk_inv s"
  by (induction rule: rtranclp_induct) (auto intro: slk_inv_init slk_inv_step)

section \<open>Properties\<close>

text \<open>Critical sections nest: after any number of nested \<^verbatim>\<open>special_cli\<close> and as many
  \<^verbatim>\<open>special_sli\<close> the depth and the interrupt flag are those before, no call panics, and interrupts are
  off in between.\<close>

theorem cli_sli_balanced:
  assumes "cpu_ok c" "0 < n"
  shows "\<not> if_flag (cli_times n c) \<and> (\<exists>c'. sli_times n (cli_times n c) = Some c' \<and> if_flag c' = if_flag c \<and> n_clis c' = n_clis c)"
proof -
  obtain m where m: "n = Suc m" using assms(2) gr0_implies_Suc by blast
  let ?c = "special_cli c"
  have ok: "cpu_ok ?c" "0 < n_clis ?c" using special_cli_ok [OF assms(1)] by auto
  have "cpu_ok c \<and> 0 < n_clis c \<Longrightarrow> \<not> if_flag (cli_times k c)" for k c
    by (induction k arbitrary: c) (use special_cli_ok cpu_ok_def in auto)
  then have "\<not> if_flag (cli_times n c)" using ok by (simp add: m)
  moreover have "sli_times n (cli_times n c) = Some (c\<lparr>int_enabled := int_enabled (special_cli c)\<rparr>)"
    using cli_sli_times_nested [OF ok, of m] cli_sli [OF assms(1)]
    by (simp only: m sli_times_snoc cli_times.simps) simp
  ultimately show ?thesis by simp
qed

theorem cli_sli_balanced_witness:
  "\<exists>c'. sli_times 2 (cli_times 2 \<lparr>if_flag = True, n_clis = 0, int_enabled = False\<rparr>) = Some c' \<and> if_flag c'"
  using cli_sli_balanced [of "\<lparr>if_flag = True, n_clis = 0, int_enabled = False\<rparr>" 2] by (auto simp: cpu_ok_def)

text \<open>A spin lock is exclusive: taking a free lock succeeds with interrupts off and the lock held by
  this CPU, taking it again panics, another CPU can neither take nor release it, and releasing it gives
  back the free lock, the depth and the interrupt flag.\<close>

theorem spinlock_exclusive:
  assumes "cpu_ok c" "\<not> sl_locked lk"
  shows "\<exists>lk1 c1. spin_lock_irqsave me lk c = Some (lk1, c1) \<and> holding_spinlock me lk1 \<and> \<not> if_flag c1 \<and>
    (\<forall>c'. spin_lock_irqsave me lk1 c' = None) \<and>
    (\<forall>you c'. you \<noteq> me \<longrightarrow> spin_lock_irqsave you lk1 c' = None \<and> spin_unlock_irqrestore you lk1 c' = None) \<and>
    (\<exists>c2. spin_unlock_irqrestore me lk1 c1 = Some (lk\<lparr>sl_cpu := None\<rparr>, c2) \<and> if_flag c2 = if_flag c \<and> n_clis c2 = n_clis c)"
proof -
  have "lk\<lparr>sl_locked := False, sl_cpu := None\<rparr> = lk\<lparr>sl_cpu := None\<rparr>" using assms(2) by (cases lk) auto
  then show ?thesis
    using assms cli_sli [OF assms(1)] special_cli_ok [OF assms(1)]
    by (auto simp: spin_lock_irqsave_def spin_unlock_irqrestore_def holding_spinlock_def Let_def)
qed

theorem spinlock_exclusive_witness:
  "\<exists>lk1 c1. spin_lock_irqsave 0 spinlock_init \<lparr>if_flag = True, n_clis = 0, int_enabled = False\<rparr> = Some (lk1, c1) \<and>
     holding_spinlock 0 lk1"
  using spinlock_exclusive [of "\<lparr>if_flag = True, n_clis = 0, int_enabled = False\<rparr>" spinlock_init 0]
  by (auto simp: cpu_ok_def spinlock_init_def)

text \<open>C8: in every reachable state of a sleep lock at most one process holds it, it is marked locked exactly
  while it is held, and no wake-up is lost: while some process is asleep in its queue the lock is held, so
  that its release will wake it.\<close>

theorem sleeplock_mutex:
  assumes "slk_step\<^sup>*\<^sup>* sleeplock_init s"
  shows "(\<forall>p q. slk_at s p = SHold \<and> slk_at s q = SHold \<longrightarrow> p = q) \<and> (holding_sleeplock s \<longleftrightarrow> (\<exists>p. slk_at s p = SHold)) \<and>
    (\<forall>p. slk_at s p = SAsleep \<longrightarrow> (\<exists>q. slk_at s q = SHold) \<and> p \<in> set (sleep_procs s))"
  using slk_inv_reachable [OF assms] unfolding slk_inv_def holding_sleeplock_def by (metis empty_iff empty_set)

theorem sleeplock_mutex_witness:
  "\<exists>s. slk_step\<^sup>*\<^sup>* sleeplock_init s \<and> slk_at s 1 = SHold \<and> holding_sleeplock s"
proof -
  define s1 where "s1 = sleeplock_init\<lparr>slk_at := (slk_at sleeplock_init)(1 := STest)\<rparr>"
  have a: "slk_step sleeplock_init s1" unfolding s1_def by (rule slk_call) (simp add: sleeplock_init_def)
  have b: "slk_step s1 (sleep_lock 1 s1)" by (rule slk_test) (simp add: s1_def)
  have "slk_at (sleep_lock 1 s1) 1 = SHold" by (simp add: sleep_lock_def s1_def sleeplock_init_def)
  then show ?thesis
    using sleeplock_mutex [of "sleep_lock 1 s1"] a b by (meson converse_rtranclp_into_rtranclp rtranclp.rtrancl_refl)
qed

end
