(* ===== verification/Pipe.thy ===== *)
theory Pipe
  imports Prelude
begin

text \<open>
  Pipes (kern/pipe.c, struct pipe of include/file.h): a ring buffer of \<open>PIPESIZE\<close> bytes whose read and
  write counters are 32-bit words that only grow and wrap around.

  \<^verbatim>\<open>pipe_read\<close> and \<^verbatim>\<open>pipe_write\<close> may put the caller to sleep in their first loop; each is described by
  what happens when it is entered and what happens when it continues after a wake-up.
\<close>

section \<open>Data and operations\<close>

definition PIPESIZE :: nat where "PIPESIZE = 512"

record pipe =
  pdata :: "nat \<Rightarrow> u8"
  nread :: u32
  nwrite :: u32
  readopen :: bool
  writeopen :: bool

text \<open>The fields that \<^verbatim>\<open>pipe_alloc\<close> sets in a new pipe.\<close>

definition pipe_new :: "(nat \<Rightarrow> u8) \<Rightarrow> pipe" where
  "pipe_new d = \<lparr>pdata = d, nread = 0, nwrite = 0, readopen = True, writeopen = True\<rparr>"

datatype pipe_res = PSleep | PFail | PDone int

text \<open>The copy loop of \<^verbatim>\<open>pipe_read\<close>, with the bytes delivered.\<close>

fun pipe_get :: "nat \<Rightarrow> pipe \<Rightarrow> u8 list \<times> pipe" where
  "pipe_get 0 p = ([], p)"
| "pipe_get (Suc n) p =
     (if nwrite p = nread p then ([], p)
      else let b = pdata p (unat (nread p mod of_nat PIPESIZE));
               (bs, p') = pipe_get n (p\<lparr>nread := nread p + 1\<rparr>)
           in (b # bs, p'))"

text \<open>The copy loop of \<^verbatim>\<open>pipe_write\<close>, with the number of bytes taken.\<close>

fun pipe_put :: "u8 list \<Rightarrow> pipe \<Rightarrow> nat \<times> pipe" where
  "pipe_put [] p = (0, p)"
| "pipe_put (b # bs) p =
     (if nwrite p - nread p = of_nat PIPESIZE then (0, p)
      else let (k, p') = pipe_put bs (p\<lparr>pdata := (pdata p)(unat (nwrite p mod of_nat PIPESIZE) := b), nwrite := nwrite p + 1\<rparr>)
           in (Suc k, p'))"

definition pipe_read :: "int \<Rightarrow> pipe \<Rightarrow> pipe_res \<times> u8 list \<times> pipe" where
  "pipe_read nbytes p =
     (if nwrite p = nread p then (PSleep, [], p)
      else let (bs, p') = pipe_get (nat nbytes) p in (PDone (int (length bs)), bs, p'))"

definition pipe_read_woken :: "bool \<Rightarrow> int \<Rightarrow> pipe \<Rightarrow> pipe_res \<times> u8 list \<times> pipe" where
  "pipe_read_woken killed nbytes p = (if \<not> writeopen p \<or> killed then (PFail, [], p) else pipe_read nbytes p)"

definition pipe_write :: "u8 list \<Rightarrow> pipe \<Rightarrow> pipe_res \<times> pipe" where
  "pipe_write src p =
     (if nwrite p - nread p = of_nat PIPESIZE then (PSleep, p)
      else let (k, p') = pipe_put src p in (PDone (int k), p'))"

definition pipe_write_woken :: "bool \<Rightarrow> u8 list \<Rightarrow> pipe \<Rightarrow> pipe_res \<times> pipe" where
  "pipe_write_woken killed src p = (if \<not> readopen p \<or> killed then (PFail, p) else pipe_write src p)"

text \<open>\<^verbatim>\<open>pipe_close\<close>; the second component tells whether the pipe was freed.\<close>

definition pipe_close :: "bool \<Rightarrow> pipe \<Rightarrow> pipe \<times> bool" where
  "pipe_close writend p =
     (let p = (if writend then p\<lparr>writeopen := False\<rparr> else p\<lparr>readopen := False\<rparr>)
      in (p, \<not> readopen p \<and> \<not> writeopen p))"

section \<open>Bounded byte queues\<close>

datatype 'b qop = QPut "'b list" | QGet nat

text \<open>A sequence of operations, the data accepted and the data delivered by it.\<close>

fun queue_run :: "('b list \<Rightarrow> 's \<Rightarrow> nat \<times> 's) \<Rightarrow> (nat \<Rightarrow> 's \<Rightarrow> 'b list \<times> 's) \<Rightarrow> 'b qop list \<Rightarrow> 's \<Rightarrow> 'b list \<times> 'b list \<times> 's" where
  "queue_run put get [] s = ([], [], s)"
| "queue_run put get (QPut xs # ops) s =
     (case put xs s of (k, s1) \<Rightarrow> case queue_run put get ops s1 of (ins, outs, s2) \<Rightarrow> (take k xs @ ins, outs, s2))"
| "queue_run put get (QGet n # ops) s =
     (case get n s of (ys, s1) \<Rightarrow> case queue_run put get ops s1 of (ins, outs, s2) \<Rightarrow> (ins, ys @ outs, s2))"

text \<open>What the users of a bounded queue rely on.\<close>

locale bounded_queue =
  fixes qinv :: "'s \<Rightarrow> bool" and content :: "'s \<Rightarrow> 'b list" and cap :: nat
    and put :: "'b list \<Rightarrow> 's \<Rightarrow> nat \<times> 's" and get :: "nat \<Rightarrow> 's \<Rightarrow> 'b list \<times> 's"
  assumes bounded: "qinv s \<Longrightarrow> length (content s) \<le> cap"
    and put_inv: "qinv s \<Longrightarrow> qinv (snd (put xs s))"
    and put_count: "qinv s \<Longrightarrow> fst (put xs s) = min (length xs) (cap - length (content s))"
    and put_content: "qinv s \<Longrightarrow> content (snd (put xs s)) = content s @ take (fst (put xs s)) xs"
    and get_inv: "qinv s \<Longrightarrow> qinv (snd (get n s))"
    and get_bytes: "qinv s \<Longrightarrow> fst (get n s) = take n (content s)"
    and get_content: "qinv s \<Longrightarrow> content (snd (get n s)) = drop n (content s)"
begin

lemma fifo:
  "qinv s \<Longrightarrow> queue_run put get ops s = (ins, outs, s') \<Longrightarrow> qinv s' \<and> content s @ ins = outs @ content s'"
proof (induction ops arbitrary: s ins outs)
  case (Cons op ops)
  show ?case
  proof (cases op)
    case (QPut xs)
    obtain k s1 where p: "put xs s = (k, s1)" by (cases "put xs s")
    obtain i o2 s2 where r: "queue_run put get ops s1 = (i, o2, s2)" by (cases "queue_run put get ops s1")
    have "qinv s1" "content s1 = content s @ take k xs"
      using put_inv [OF Cons.prems(1), of xs] put_content [OF Cons.prems(1), of xs] by (simp_all add: p)
    moreover have "ins = take k xs @ i" "outs = o2" "s' = s2" using Cons.prems(2) by (simp_all add: QPut p r)
    ultimately show ?thesis using Cons.IH [of s1 i o2] r by simp
  next
    case (QGet n)
    obtain ys s1 where g: "get n s = (ys, s1)" by (cases "get n s")
    obtain i o2 s2 where r: "queue_run put get ops s1 = (i, o2, s2)" by (cases "queue_run put get ops s1")
    have s1: "qinv s1" "content s1 = drop n (content s)" "ys = take n (content s)"
      using get_inv [OF Cons.prems(1), of n] get_content [OF Cons.prems(1), of n] get_bytes [OF Cons.prems(1), of n]
      by (simp_all add: g)
    have eq: "ins = i" "outs = ys @ o2" "s' = s2" using Cons.prems(2) by (simp_all add: QGet g r)
    have ih: "qinv s2 \<and> content s1 @ i = o2 @ content s2" using Cons.IH [OF s1(1)] r eq(3) by simp
    have "content s @ i = ys @ content s1 @ i" by (simp add: s1(2,3) flip: append.assoc)
    then show ?thesis using ih by (simp add: eq)
  qed
qed simp

end

section \<open>The pipe as a bounded queue\<close>

definition pipe_len :: "pipe \<Rightarrow> nat" where
  "pipe_len p = unat (nwrite p - nread p)"

definition pipe_inv :: "pipe \<Rightarrow> bool" where
  "pipe_inv p \<longleftrightarrow> pipe_len p \<le> PIPESIZE"

definition pipe_content :: "pipe \<Rightarrow> u8 list" where
  "pipe_content p = map (\<lambda>i. pdata p ((unat (nread p) + i) mod PIPESIZE)) [0..<pipe_len p]"

lemma pipe_index: "unat ((w + of_nat i :: u32) mod of_nat PIPESIZE) = (unat w + i) mod PIPESIZE"
proof -
  have "unat (w + of_nat i) = (unat w + i) mod 2 ^ 32"
    by (simp add: unat_word_ariths unat_of_nat take_bit_eq_mod mod_add_right_eq)
  moreover have "(unat w + i) mod 2 ^ 32 mod PIPESIZE = (unat w + i) mod PIPESIZE"
    by (rule mod_mod_cancel) (simp add: PIPESIZE_def)
  ultimately show ?thesis by (simp add: PIPESIZE_def unat_mod_distrib)
qed

lemma pipe_index0: "unat (w mod of_nat PIPESIZE :: u32) = unat w mod PIPESIZE"
  using pipe_index [of w 0] by simp

lemma pipe_len_0: "pipe_len p = 0 \<longleftrightarrow> nwrite p = nread p"
  by (simp add: pipe_len_def unat_eq_0)

lemma pipe_content_length [simp]: "length (pipe_content p) = pipe_len p"
  by (simp add: pipe_content_def)

text \<open>One byte is taken.\<close>

lemma pipe_take_byte:
  assumes "nwrite p \<noteq> nread p"
  defines "q \<equiv> p\<lparr>nread := nread p + 1\<rparr>"
  shows "pipe_len p = Suc (pipe_len q)"
    and "pipe_content p = pdata p (unat (nread p mod of_nat PIPESIZE)) # pipe_content q"
proof -
  have "nwrite p - nread p \<noteq> 0" using assms(1) by simp
  then have "unat (nwrite p - nread p) = Suc (unat (nwrite p - nread p - 1))"
    by (metis Suc_pred' unat_gt_0 unat_minus_one)
  then show len: "pipe_len p = Suc (pipe_len q)" by (simp add: pipe_len_def q_def diff_diff_eq)
  have idx: "(unat (nread p) + Suc i) mod PIPESIZE = (unat (nread q) + i) mod PIPESIZE" for i
    using pipe_index [of "nread p" "Suc i"] pipe_index [of "nread q" i] by (simp add: q_def algebra_simps)
  have "[0..<pipe_len p] = 0 # map Suc [0..<pipe_len q]" by (simp add: len map_Suc_upt upt_conv_Cons)
  then show "pipe_content p = pdata p (unat (nread p mod of_nat PIPESIZE)) # pipe_content q"
    unfolding pipe_content_def pipe_index0 using idx by (simp add: q_def)
qed

text \<open>One byte is appended.\<close>

lemma pipe_put_byte:
  fixes b :: u8
  assumes "pipe_inv p" "nwrite p - nread p \<noteq> of_nat PIPESIZE"
  defines "q \<equiv> p\<lparr>pdata := (pdata p)(unat (nwrite p mod of_nat PIPESIZE) := b), nwrite := nwrite p + 1\<rparr>"
  shows "pipe_len p < PIPESIZE" and "pipe_len q = Suc (pipe_len p)" and "pipe_content q = pipe_content p @ [b]"
proof -
  have "pipe_len p \<noteq> PIPESIZE" using assms(2) by (auto simp: pipe_len_def PIPESIZE_def word_unat_eq_iff)
  then show lt: "pipe_len p < PIPESIZE" using assms(1) by (simp add: pipe_inv_def)
  have "nwrite q - nread q = (nwrite p - nread p) + 1" by (simp add: q_def)
  then show len: "pipe_len q = Suc (pipe_len p)"
    using lt by (simp add: pipe_len_def PIPESIZE_def unat_word_ariths)
  have nw: "nwrite p = nread p + of_nat (pipe_len p)" by (simp add: pipe_len_def)
  then have last: "unat (nwrite p mod of_nat PIPESIZE) = (unat (nread p) + pipe_len p) mod PIPESIZE"
    using pipe_index by metis
  have other: "(unat (nread p) + i) mod PIPESIZE \<noteq> (unat (nread p) + pipe_len p) mod PIPESIZE" if "i < pipe_len p" for i
  proof
    assume "(unat (nread p) + i) mod PIPESIZE = (unat (nread p) + pipe_len p) mod PIPESIZE"
    then have "(unat (nread p) + pipe_len p) mod PIPESIZE = (unat (nread p) + i) mod PIPESIZE" ..
    then have "PIPESIZE dvd (unat (nread p) + pipe_len p) - (unat (nread p) + i)"
      by (rule mod_eq_dvd_iff_nat [THEN iffD1, rotated]) (use that in simp)
    then have "PIPESIZE dvd pipe_len p - i" by simp
    then have "PIPESIZE \<le> pipe_len p - i" by (rule dvd_imp_le) (use that in simp)
    then show False using lt by simp
  qed
  have "pdata q ((unat (nread p) + i) mod PIPESIZE) = pdata p ((unat (nread p) + i) mod PIPESIZE)" if "i < pipe_len p" for i
    using other [OF that] by (simp add: q_def last)
  moreover have "pdata q ((unat (nread p) + pipe_len p) mod PIPESIZE) = b" by (simp add: q_def last)
  ultimately show "pipe_content q = pipe_content p @ [b]"
    unfolding pipe_content_def len by (simp add: q_def)
qed

lemma pipe_get_spec:
  "pipe_inv p \<Longrightarrow> pipe_inv (snd (pipe_get n p)) \<and> fst (pipe_get n p) = take n (pipe_content p) \<and>
    pipe_content (snd (pipe_get n p)) = drop n (pipe_content p)"
proof (induction n arbitrary: p)
  case (Suc n)
  show ?case
  proof (cases "nwrite p = nread p")
    case True
    then have "pipe_content p = []" using pipe_len_0 by (simp add: pipe_content_def)
    with True Suc.prems show ?thesis by simp
  next
    case False
    let ?q = "p\<lparr>nread := nread p + 1\<rparr>"
    have "pipe_inv ?q" using pipe_take_byte(1) [OF False] Suc.prems by (simp add: pipe_inv_def)
    then show ?thesis
      using Suc.IH [of ?q] False pipe_take_byte(2) [OF False] by (cases "pipe_get n ?q") simp
  qed
qed simp

lemma pipe_put_spec:
  "pipe_inv p \<Longrightarrow> pipe_inv (snd (pipe_put bs p)) \<and> fst (pipe_put bs p) = min (length bs) (PIPESIZE - pipe_len p) \<and>
    pipe_content (snd (pipe_put bs p)) = pipe_content p @ take (fst (pipe_put bs p)) bs"
proof (induction bs arbitrary: p)
  case (Cons b bs)
  show ?case
  proof (cases "nwrite p - nread p = of_nat PIPESIZE")
    case True
    then have "pipe_len p = PIPESIZE" by (simp add: pipe_len_def PIPESIZE_def)
    with True Cons.prems show ?thesis by simp
  next
    case False
    let ?q = "p\<lparr>pdata := (pdata p)(unat (nwrite p mod of_nat PIPESIZE) := b), nwrite := nwrite p + 1\<rparr>"
    note one = pipe_put_byte(1) [OF Cons.prems False] pipe_put_byte(2,3) [OF Cons.prems False, where b = b]
    have "pipe_inv ?q" using one(1,2) by (simp add: pipe_inv_def)
    then show ?thesis
      using Cons.IH [of ?q] False one by (cases "pipe_put bs ?q") auto
  qed
qed simp

interpretation pq: bounded_queue pipe_inv pipe_content PIPESIZE pipe_put pipe_get
proof
  fix p n bs assume "pipe_inv p"
  then show "length (pipe_content p) \<le> PIPESIZE" "pipe_inv (snd (pipe_put bs p))"
    "fst (pipe_put bs p) = min (length bs) (PIPESIZE - length (pipe_content p))"
    "pipe_content (snd (pipe_put bs p)) = pipe_content p @ take (fst (pipe_put bs p)) bs"
    "pipe_inv (snd (pipe_get n p))" "fst (pipe_get n p) = take n (pipe_content p)"
    "pipe_content (snd (pipe_get n p)) = drop n (pipe_content p)"
    using pipe_get_spec pipe_put_spec by (auto simp: pipe_inv_def)
qed

section \<open>Properties\<close>

text \<open>C9: a pipe is a first-in first-out queue across the wrap-around of its counters: for every sequence
  of reads and writes the bytes delivered followed by the bytes still buffered are the bytes buffered at
  the start followed by the bytes accepted, in order; nothing is lost, duplicated or overwritten, and the
  buffer never exceeds its size.\<close>

theorem pipe_fifo:
  assumes "pipe_inv p" "queue_run pipe_put pipe_get ops p = (accepted, delivered, p')"
  shows "pipe_content p @ accepted = delivered @ pipe_content p' \<and> pipe_inv p' \<and> length (pipe_content p') \<le> PIPESIZE"
  using pq.fifo [OF assms] pq.bounded by blast

definition tiny_pipe :: pipe where
  "tiny_pipe = (pipe_new (\<lambda>_. 0))\<lparr>nread := - 1, nwrite := - 1\<rparr>"

theorem pipe_fifo_witness:
  "\<exists>a d p'. queue_run pipe_put pipe_get [QPut [1, 2, 3], QGet 2] tiny_pipe = (a, d, p') \<and> a = d @ pipe_content p'"
proof -
  have inv: "pipe_inv tiny_pipe" "pipe_content tiny_pipe = []"
    by (simp_all add: pipe_inv_def pipe_content_def pipe_len_def tiny_pipe_def PIPESIZE_def)
  obtain a d p' where r: "queue_run pipe_put pipe_get [QPut [1, 2, 3], QGet 2] tiny_pipe = (a, d, p')"
    by (cases "queue_run pipe_put pipe_get [QPut [1, 2, 3], QGet 2] tiny_pipe")
  show ?thesis using pipe_fifo [OF inv(1) r] inv(2) r by simp
qed

text \<open>What the two calls do on every branch: a read of an empty pipe and a write to a full pipe sleep
  and change nothing; otherwise a read delivers the first bytes and a write appends as many bytes as there
  is room for, at least one unless none was asked for.\<close>

theorem pipe_read_write_cases:
  assumes "pipe_inv p"
  shows "pipe_read n p = (if pipe_content p = [] then (PSleep, [], p)
      else (PDone (int (length (take (nat n) (pipe_content p)))), take (nat n) (pipe_content p), snd (pipe_get (nat n) p))) \<and>
    pipe_content (snd (pipe_get (nat n) p)) = drop (nat n) (pipe_content p) \<and>
    (length (pipe_content p) = PIPESIZE \<longrightarrow> pipe_write src p = (PSleep, p)) \<and>
    (length (pipe_content p) < PIPESIZE \<longrightarrow> (\<exists>k p'. pipe_write src p = (PDone (int k), p') \<and>
      k = min (length src) (PIPESIZE - length (pipe_content p)) \<and> pipe_content p' = pipe_content p @ take k src))"
proof (intro conjI impI)
  have e: "pipe_content p = [] \<longleftrightarrow> nwrite p = nread p"
    using pipe_len_0 [of p] by (metis length_0_conv pipe_content_length)
  show "pipe_read n p = (if pipe_content p = [] then (PSleep, [], p)
      else (PDone (int (length (take (nat n) (pipe_content p)))), take (nat n) (pipe_content p), snd (pipe_get (nat n) p)))"
    unfolding e using pq.get_bytes [OF assms, of "nat n"] by (cases "pipe_get (nat n) p") (simp add: pipe_read_def)
  show "pipe_content (snd (pipe_get (nat n) p)) = drop (nat n) (pipe_content p)" by (rule pq.get_content [OF assms])
  have full: "length (pipe_content p) = PIPESIZE \<longleftrightarrow> nwrite p - nread p = of_nat PIPESIZE"
    by (auto simp: pipe_len_def PIPESIZE_def word_unat_eq_iff)
  show "pipe_write src p = (PSleep, p)" if "length (pipe_content p) = PIPESIZE"
    using that full by (simp add: pipe_write_def)
  show "\<exists>k p'. pipe_write src p = (PDone (int k), p') \<and> k = min (length src) (PIPESIZE - length (pipe_content p)) \<and>
      pipe_content p' = pipe_content p @ take k src" if "length (pipe_content p) < PIPESIZE"
    using that full pq.put_count [OF assms, of src] pq.put_content [OF assms, of src]
    by (cases "pipe_put src p") (auto simp: pipe_write_def)
qed

theorem pipe_read_write_cases_witness: "pipe_read 1 tiny_pipe = (PSleep, [], tiny_pipe)"
  using pipe_read_write_cases [of tiny_pipe 1] by (simp add: pipe_inv_def pipe_content_def pipe_len_def tiny_pipe_def PIPESIZE_def)

text \<open>A reader that finds the pipe empty after the write end was closed goes to sleep although no writer
  is left to wake it: the end of the data is noticed only by readers that were already asleep.\<close>

theorem pipe_read_after_close_sleeps:
  assumes "pipe_content p = []"
  shows "pipe_read n (fst (pipe_close True p)) = (PSleep, [], fst (pipe_close True p)) \<and>
    pipe_read_woken killed n (fst (pipe_close True p)) = (PFail, [], fst (pipe_close True p))"
proof -
  have "nwrite p = nread p" using assms pipe_len_0 [of p] by (metis length_0_conv pipe_content_length)
  then show ?thesis by (simp add: pipe_read_def pipe_read_woken_def pipe_close_def)
qed

theorem pipe_read_after_close_sleeps_witness:
  "fst (pipe_read 1 (fst (pipe_close True tiny_pipe))) = PSleep"
  using pipe_read_after_close_sleeps [of tiny_pipe 1] by (simp add: pipe_content_def pipe_len_def tiny_pipe_def)

end
