(* ===== verification/Sched.thy ===== *)
theory Sched
  imports KList
begin

text \<open>
  Processes and their scheduling: struct proc, struct proc_queue and the process table (include/proc.h,
  include/sched.h), the run queues and the scheduler (kern/sched.c), process identifiers and descriptors
  (kern/proc.c), sleeping, waking, killing, exiting, cloning and inter-process messages (kern/sysfunc.c) and
  the timer tick (kern/trap.c).

  A process descriptor is a number, its address.  The intrusive lists are kept in one store; a node names
  the field it is.  The lock of the process table is held by the callers and not part of the state.  What
  a function gets from the memory management (a new descriptor from \<^verbatim>\<open>kmalloc\<close>, the success of setting up
  page tables) is an argument.
\<close>

unbundle bit_operations_syntax

section \<open>Data\<close>

datatype pnode =
    Kinds nat
  | PQueue nat nat
  | WaitQ nat
  | SleepAlone nat
  | Children nat
  | Siblings nat
  | DescCache

datatype proc_status = RUNNABLE | RUNNING | READY | SLEEPING | ZOMBLE | FREE

definition NPROC :: nat where "NPROC = 1024"
definition N_PRIORITY :: nat where "N_PRIORITY = 40"
definition MAX_USER_PRIO :: int where "MAX_USER_PRIO = 40"
definition MIN_USER_PRIO :: int where "MIN_USER_PRIO = 0"
definition DEFAULT_USER_PRIO :: nat where "DEFAULT_USER_PRIO = 19"
definition MIN_TIMESLICE :: int where "MIN_TIMESLICE = 5"
definition DEFAULT_TIMESLICE :: int where "DEFAULT_TIMESLICE = 100"
definition MAX_BONUS :: int where "MAX_BONUS = MAX_USER_PRIO * 25 div 100"
definition MAX_SLEEP_AVG :: int where "MAX_SLEEP_AVG = DEFAULT_TIMESLICE * MAX_BONUS"
definition E_IPC_NOT_RECV :: int where "E_IPC_NOT_RECV = 7"
definition UTOP :: u32 where "UTOP = 0xEE800000"
definition HEAPTOP :: u32 where "HEAPTOP = 0xC0000000"
definition P_PGSIZE :: u32 where "P_PGSIZE = 4096"

record proc =
  pid :: nat
  ppid :: nat
  base_mem_sz :: u32
  heap_ptr :: u32
  status :: proc_status
  timeslice :: u32
  timeslice_left :: u32
  sleep_avg :: u32
  sleep_start_jiffs :: u32
  killed :: bool
  preempted :: bool
  wait_for_child :: bool
  alarmticks_left :: u32
  alarmticks :: u32
  alarmhandler :: u32
  ipc_recving :: bool
  ipc_dstva :: u32
  ipc_value :: u32
  ipc_perm :: u32
  ipc_from :: nat
  proc_queue :: "nat option"
  priority :: nat

record pstate =
  ph :: "pnode list_heap"
  proc_of :: "nat \<Rightarrow> proc"
  q_nprocs :: "nat \<Rightarrow> u32"
  q_bitmap :: "nat \<Rightarrow> u64"
  run_queue :: nat
  exhausted_queue :: nat
  cpu_proc :: "nat option"
  jiffs :: u32
  id_bitmap :: "nat \<Rightarrow> u32"
  proc_table :: "nat \<Rightarrow> nat option"
  n_procs_alive :: u32
  rootproc :: nat

definition zero_proc :: proc where
  "zero_proc = \<lparr>pid = 0, ppid = 0, base_mem_sz = 0, heap_ptr = 0, status = RUNNABLE, timeslice = 0, timeslice_left = 0,
     sleep_avg = 0, sleep_start_jiffs = 0, killed = False, preempted = False, wait_for_child = False,
     alarmticks_left = 0, alarmticks = 0, alarmhandler = 0, ipc_recving = False, ipc_dstva = 0, ipc_value = 0,
     ipc_perm = 0, ipc_from = 0, proc_queue = None, priority = 0\<rparr>"

definition upd_proc :: "nat \<Rightarrow> (proc \<Rightarrow> proc) \<Rightarrow> pstate \<Rightarrow> pstate" where
  "upd_proc p f s = s\<lparr>proc_of := (proc_of s)(p := f (proc_of s p))\<rparr>"

definition p_list_add :: "pnode \<Rightarrow> pnode \<Rightarrow> pstate \<Rightarrow> pstate option" where
  "p_list_add n h s = map_option (\<lambda>l. s\<lparr>ph := l\<rparr>) (list_add n h (ph s))"

definition p_list_add_tail :: "pnode \<Rightarrow> pnode \<Rightarrow> pstate \<Rightarrow> pstate option" where
  "p_list_add_tail n h s = map_option (\<lambda>l. s\<lparr>ph := l\<rparr>) (list_add_tail n h (ph s))"

definition p_list_del :: "pnode \<Rightarrow> pstate \<Rightarrow> pstate option" where
  "p_list_del n s = map_option (\<lambda>l. s\<lparr>ph := l\<rparr>) (list_del n (ph s))"

fun kinds_entry :: "pnode \<Rightarrow> nat option" where
  "kinds_entry (Kinds p) = Some p"
| "kinds_entry _ = None"

fun siblings_entry :: "pnode \<Rightarrow> nat option" where
  "siblings_entry (Siblings p) = Some p"
| "siblings_entry _ = None"

section \<open>Run queues\<close>

text \<open>The bitmap is accessed as two 32-bit words, and the processor takes the shift count of
  \<^verbatim>\<open>1 << p->priority\<close> modulo 32.\<close>

definition prio_bit :: "nat \<Rightarrow> u64" where
  "prio_bit prio = push_bit ((if 32 \<le> prio then 32 else 0) + prio mod 32) 1"

definition add_proc_to_queue :: "nat \<Rightarrow> nat \<Rightarrow> pstate \<Rightarrow> pstate option" where
  "add_proc_to_queue q p s = do {
     let prio = priority (proc_of s p);
     if N_PRIORITY \<le> prio then None
     else do {
       let s = s\<lparr>q_bitmap := (q_bitmap s)(q := q_bitmap s q OR prio_bit prio)\<rparr>;
       s \<leftarrow> p_list_add_tail (Kinds p) (PQueue q prio) s;
       let s = s\<lparr>q_nprocs := (q_nprocs s)(q := q_nprocs s q + 1)\<rparr>;
       Some (upd_proc p (\<lambda>r. r\<lparr>proc_queue := Some q\<rparr>) s)
     }
   }"

definition del_proc_fron_queue :: "nat \<Rightarrow> pstate \<Rightarrow> pstate option" where
  "del_proc_fron_queue p s = do {
     q \<leftarrow> proc_queue (proc_of s p);
     let prio = priority (proc_of s p);
     s \<leftarrow> p_list_del (Kinds p) s;
     if N_PRIORITY \<le> prio then None
     else do {
       let s = (if list_empty (PQueue q prio) (ph s)
                then s\<lparr>q_bitmap := (q_bitmap s)(q := q_bitmap s q AND NOT (prio_bit prio))\<rparr> else s);
       let s = s\<lparr>q_nprocs := (q_nprocs s)(q := q_nprocs s q - 1)\<rparr>;
       Some (upd_proc p (\<lambda>r. r\<lparr>proc_queue := None\<rparr>) s)
     }
   }"

function find_first_from :: "nat \<Rightarrow> u64 \<Rightarrow> u64 \<Rightarrow> nat" where
  "find_first_from idx prior bitmap =
     (if idx < N_PRIORITY then
        if prior AND bitmap \<noteq> 0 then idx else find_first_from (Suc idx) (push_bit 1 prior) bitmap
      else idx)"
  by pat_completeness auto
termination
  by (relation "measure (\<lambda>(i, p, b). N_PRIORITY - i)") auto

definition find_first_set :: "nat \<Rightarrow> pstate \<Rightarrow> nat" where
  "find_first_set q s = find_first_from 0 1 (q_bitmap s q)"

section \<open>Priorities and time slices\<close>

text \<open>\<^verbatim>\<open>CURRENT_BONUS\<close> is computed in 32-bit unsigned arithmetic.\<close>

definition current_bonus :: "proc \<Rightarrow> int" where
  "current_bonus p = uint (sleep_avg p * word_of_int MAX_BONUS) div MAX_SLEEP_AVG"

definition recalculate_priority :: "proc \<Rightarrow> nat" where
  "recalculate_priority p =
     (let bonus = current_bonus p - MAX_BONUS div 2;
          prio = int (priority p) - bonus;
          prio = (if prio < MIN_USER_PRIO then MIN_USER_PRIO else prio);
          prio = (if MAX_USER_PRIO - 1 < prio then MAX_USER_PRIO - 1 else prio)
      in nat prio)"

definition SCALE_PRIO :: "int \<Rightarrow> int \<Rightarrow> int" where
  "SCALE_PRIO x prio = max (x * (MAX_USER_PRIO - prio) div (MAX_USER_PRIO div 2)) MIN_TIMESLICE"

definition task_timeslice :: "proc \<Rightarrow> u32" where
  "task_timeslice p =
     (if int (priority p) < 0 + 20 then word_of_int (SCALE_PRIO (DEFAULT_TIMESLICE * 4) (int (priority p)))
      else word_of_int (SCALE_PRIO DEFAULT_TIMESLICE (int (priority p))))"

text \<open>The new priority and time slice of a process that has run or slept, as \<^verbatim>\<open>scheduler\<close> and \<^verbatim>\<open>wakeup1\<close> assign them.\<close>

definition new_turn :: "proc \<Rightarrow> proc" where
  "new_turn r = (let r = r\<lparr>priority := recalculate_priority r\<rparr> in r\<lparr>timeslice := task_timeslice r div 2, sleep_avg := 0\<rparr>)"

section \<open>The scheduler\<close>

text \<open>The part of a round of \<^verbatim>\<open>scheduler\<close> that puts the process that just ran back into a queue.\<close>

definition sched_requeue :: "nat option \<Rightarrow> pstate \<Rightarrow> pstate option" where
  "sched_requeue prev s =
     (case prev of None \<Rightarrow> Some s
      | Some p \<Rightarrow>
          if status (proc_of s p) = RUNNABLE then do {
            s \<leftarrow> (if proc_queue (proc_of s p) \<noteq> None then del_proc_fron_queue p s else Some s);
            let left = timeslice_left (proc_of s p);
            let s = upd_proc p new_turn s;
            if left = 0
            then add_proc_to_queue (exhausted_queue s) p (upd_proc p (\<lambda>r. r\<lparr>timeslice_left := timeslice r\<rparr>) s)
            else add_proc_to_queue (run_queue s) p s
          }
          else Some s)"

text \<open>One round up to the switch to the chosen process, or to the halt when there is none.\<close>

definition scheduler_round :: "nat option \<Rightarrow> pstate \<Rightarrow> (nat option \<times> pstate) option" where
  "scheduler_round prev s = do {
     s \<leftarrow> sched_requeue prev s;
     let s = (if q_nprocs s (run_queue s) = 0
              then s\<lparr>run_queue := exhausted_queue s, exhausted_queue := run_queue s\<rparr> else s);
     let prior = find_first_set (run_queue s) s;
     if prior < N_PRIORITY then do {
       n \<leftarrow> lnext (ph s) (PQueue (run_queue s) prior);
       p \<leftarrow> kinds_entry n;
       s \<leftarrow> del_proc_fron_queue p s;
       Some (Some p, upd_proc p (\<lambda>r. r\<lparr>status := RUNNING\<rparr>) (s\<lparr>cpu_proc := Some p\<rparr>))
     }
     else Some (None, s\<lparr>cpu_proc := None\<rparr>)
   }"

text \<open>\<^verbatim>\<open>sched\<close> panics when the current process is still running.\<close>

definition sched :: "pstate \<Rightarrow> pstate option" where
  "sched s = do { p \<leftarrow> cpu_proc s; if status (proc_of s p) = RUNNING then None else Some s }"

definition yield :: "pstate \<Rightarrow> pstate option" where
  "yield s = do { p \<leftarrow> cpu_proc s; sched (upd_proc p (\<lambda>r. r\<lparr>status := RUNNABLE\<rparr>) s) }"

text \<open>The timer interrupt, up to the call of \<^verbatim>\<open>yield\<close>; \<open>user\<close> tells whether user code was interrupted
  (\<^verbatim>\<open>p->tf->cs & 3\<close>).  The boolean result tells whether the process gives up the processor.\<close>

definition timer_tick :: "bool \<Rightarrow> pstate \<Rightarrow> (bool \<times> pstate) option" where
  "timer_tick user s = do {
     let s = s\<lparr>jiffs := jiffs s + 1\<rparr>;
     case cpu_proc s of None \<Rightarrow> Some (False, s)
     | Some p \<Rightarrow>
         if user then do {
           let s = upd_proc p (\<lambda>r. r\<lparr>sleep_avg := (if sleep_avg r \<noteq> 0 then sleep_avg r - 1 else sleep_avg r)\<rparr>) s;
           let s = upd_proc p (\<lambda>r. r\<lparr>timeslice_left := timeslice_left r - 1\<rparr>) s;
           if timeslice_left (proc_of s p) = 0 then do { s \<leftarrow> yield s; Some (True, s) } else Some (False, s)
         }
         else Some (False, s)
   }"

text \<open>The rest of the interrupt, when the process has the processor again: whether its alarm handler is
  entered.\<close>

definition timer_alarm :: "nat \<Rightarrow> pstate \<Rightarrow> bool \<times> pstate" where
  "timer_alarm p s =
     (if alarmhandler (proc_of s p) = 0 then (False, s)
      else let s = upd_proc p (\<lambda>r. r\<lparr>alarmticks_left := alarmticks_left r - 1\<rparr>) s in
        if alarmticks_left (proc_of s p) = 0
        then (True, upd_proc p (\<lambda>r. r\<lparr>alarmticks_left := alarmticks r\<rparr>) s)
        else (False, s))"

section \<open>Sleeping and waking\<close>

definition sleep :: "pnode \<Rightarrow> pstate \<Rightarrow> pstate option" where
  "sleep sleep_list s = do {
     p \<leftarrow> cpu_proc s;
     let s = upd_proc p (\<lambda>r. r\<lparr>status := SLEEPING, sleep_start_jiffs := jiffs s\<rparr>) s;
     s \<leftarrow> p_list_add_tail (Kinds p) sleep_list s;
     sched s
   }"

text \<open>The body of the loop of \<^verbatim>\<open>wakeup1\<close>.\<close>

definition wake_one :: "nat \<Rightarrow> pstate \<Rightarrow> pstate option" where
  "wake_one p s = do {
     s \<leftarrow> p_list_del (Kinds p) s;
     let s = upd_proc p (\<lambda>r. r\<lparr>sleep_avg := sleep_avg r + (jiffs s - sleep_start_jiffs r), sleep_start_jiffs := 0,
               status := RUNNABLE\<rparr>) s;
     let s = upd_proc p new_turn s;
     add_proc_to_queue (run_queue s) p s
   }"

partial_function (option) wakeup_loop :: "pnode \<Rightarrow> pnode \<Rightarrow> nat \<Rightarrow> pstate \<Rightarrow> (nat \<times> pstate) option" where
  "wakeup_loop sleep_list t_node prio s =
     (if t_node = sleep_list then Some (prio, s)
      else do {
        p \<leftarrow> kinds_entry t_node;
        t_node \<leftarrow> lnext (ph s) t_node;
        s \<leftarrow> wake_one p s;
        wakeup_loop sleep_list t_node (if priority (proc_of s p) < prio then priority (proc_of s p) else prio) s
      })"

definition wakeup :: "pnode \<Rightarrow> pstate \<Rightarrow> pstate option" where
  "wakeup sleep_list s = do {
     t_node \<leftarrow> lnext (ph s) sleep_list;
     (prio, s) \<leftarrow> wakeup_loop sleep_list t_node N_PRIORITY s;
     case cpu_proc s of None \<Rightarrow> Some s
     | Some p \<Rightarrow> Some (if prio < priority (proc_of s p) then upd_proc p (\<lambda>r. r\<lparr>preempted := True\<rparr>) s else s)
   }"

section \<open>Identifiers and descriptors\<close>

text \<open>The two loops of \<^verbatim>\<open>get_pid\<close> visit the identifiers in ascending order; a set bit is a free one.\<close>

fun get_pid_from :: "nat \<Rightarrow> nat \<Rightarrow> pstate \<Rightarrow> nat \<times> pstate" where
  "get_pid_from 0 i s = (0, s)"
| "get_pid_from (Suc n) i s =
     (if push_bit (i mod 32) 1 AND id_bitmap s (i div 32) \<noteq> 0
      then (i, s\<lparr>id_bitmap := (id_bitmap s)(i div 32 := id_bitmap s (i div 32) AND NOT (push_bit (i mod 32) 1))\<rparr>)
      else get_pid_from n (Suc i) s)"

definition get_pid :: "pstate \<Rightarrow> nat \<times> pstate" where
  "get_pid s = get_pid_from (32 * 32) 0 s"

text \<open>\<^verbatim>\<open>clear_pid\<close> divides by \<^verbatim>\<open>sizeof(uint32_t)\<close>, which is 4; the bitmap has 32 words.\<close>

definition clear_pid :: "nat \<Rightarrow> pstate \<Rightarrow> pstate option" where
  "clear_pid i s =
     (let t_no = i div 4; idx = i mod 4 in
      if 32 \<le> t_no then None
      else Some (s\<lparr>id_bitmap := (id_bitmap s)(t_no := id_bitmap s t_no OR push_bit idx 1)\<rparr>))"

text \<open>\<open>fresh\<close> is what \<^verbatim>\<open>kmalloc\<close> returns, cleared memory.\<close>

definition get_proc_desc :: "nat option \<Rightarrow> pstate \<Rightarrow> (nat option \<times> pstate) option" where
  "get_proc_desc fresh s =
     (if \<not> list_empty DescCache (ph s) then do {
        n \<leftarrow> lnext (ph s) DescCache;
        p \<leftarrow> kinds_entry n;
        s \<leftarrow> p_list_del (Kinds p) s;
        Some (Some p, upd_proc p (\<lambda>_. zero_proc) s)
      }
      else Some (fresh, case fresh of None \<Rightarrow> s | Some p \<Rightarrow> upd_proc p (\<lambda>_. zero_proc) s))"

definition proc_desc_destroy :: "nat \<Rightarrow> pstate \<Rightarrow> pstate option" where
  "proc_desc_destroy p s = do {
     s \<leftarrow> clear_pid (pid (proc_of s p)) s;
     let s = s\<lparr>proc_table := (proc_table s)(pid (proc_of s p) := None)\<rparr>;
     let s = upd_proc p (\<lambda>r. r\<lparr>status := FREE\<rparr>) s;
     let s = s\<lparr>n_procs_alive := n_procs_alive s - 1\<rparr>;
     p_list_add (Kinds p) DescCache s
   }"

text \<open>\<^verbatim>\<open>pid2proc\<close>: the error code and the process stored.  The table has \<open>NPROC\<close> entries; an empty entry is
  dereferenced.\<close>

definition pid2proc :: "nat \<Rightarrow> bool \<Rightarrow> pstate \<Rightarrow> (int \<times> nat option) option" where
  "pid2proc i check s =
     (if i = 0 then Some (0, cpu_proc s)
      else if NPROC < i then Some (- E_BAD_PROC, None)
      else if i = NPROC then None
      else do {
        p \<leftarrow> proc_table s i;
        if status (proc_of s p) = FREE \<or> pid (proc_of s p) \<noteq> i then Some (- E_BAD_PROC, None)
        else do {
          if check \<and> cpu_proc s \<noteq> Some p
          then do {
            c \<leftarrow> cpu_proc s;
            if ppid (proc_of s p) \<noteq> pid (proc_of s c) then Some (- E_BAD_PROC, None) else Some (0, Some p)
          }
          else Some (0, Some p)
        }
      })"

text \<open>\<^verbatim>\<open>proc_alloc\<close>; \<open>vm_ok\<close> and \<open>stack_ok\<close> are the success of \<^verbatim>\<open>proc_setup_vm\<close> and of the
  \<^verbatim>\<open>proc_region_alloc\<close> for the kernel stack.\<close>

definition proc_alloc :: "nat option \<Rightarrow> bool \<Rightarrow> bool \<Rightarrow> pstate \<Rightarrow> (int \<times> nat option \<times> pstate) option" where
  "proc_alloc fresh vm_ok stack_ok s =
     (if n_procs_alive s = of_nat NPROC then Some (- E_NO_FREE_PROC, None, s)
      else do {
        (d, s) \<leftarrow> get_proc_desc fresh s;
        case d of None \<Rightarrow> Some (- E_NO_MEM, None, s)
        | Some p \<Rightarrow>
            if \<not> vm_ok then do { s \<leftarrow> proc_desc_destroy p s; Some (- E_NO_MEM, None, s) }
            else do {
              let s = s\<lparr>n_procs_alive := n_procs_alive s + 1\<rparr>;
              let (i, s) = get_pid s;
              let s = upd_proc p (\<lambda>r. r\<lparr>pid := i\<rparr>) s;
              let s = s\<lparr>proc_table := (proc_table s)(i := Some p)\<rparr>;
              let s = upd_proc p (\<lambda>r. r\<lparr>status := READY\<rparr>) s;
              let s = s\<lparr>ph := LIST_HEAD_INIT (SleepAlone p) (LIST_HEAD_INIT (Children p) (ph s))\<rparr>;
              if \<not> stack_ok then do { s \<leftarrow> proc_desc_destroy p s; Some (0, None, s) }
              else Some (0, Some p, s)
            }
      })"

section \<open>Killing, exiting, waiting\<close>

definition kill_proc :: "bool \<Rightarrow> nat \<Rightarrow> pstate \<Rightarrow> (int \<times> pstate) option" where
  "kill_proc check i s =
     (if NPROC < i then Some (- E_BAD_PROC, s)
      else do {
        (r, d) \<leftarrow> pid2proc i check s;
        if r \<noteq> 0 then Some (r, s)
        else do {
          p \<leftarrow> d;
          let s = upd_proc p (\<lambda>r. r\<lparr>killed := True\<rparr>) s;
          if status (proc_of s p) = SLEEPING then do {
            let s = upd_proc p (\<lambda>r. r\<lparr>status := RUNNABLE\<rparr>) s;
            s \<leftarrow> p_list_del (Kinds p) s;
            s \<leftarrow> add_proc_to_queue (run_queue s) p s;
            Some (0, s)
          }
          else Some (0, s)
        }
      })"

definition murder :: "nat \<Rightarrow> pstate \<Rightarrow> (int \<times> pstate) option" where
  "murder = kill_proc False"

definition kill :: "nat \<Rightarrow> pstate \<Rightarrow> (int \<times> pstate) option" where
  "kill = kill_proc True"

text \<open>The loop of \<^verbatim>\<open>exit\<close> that gives the children to the root process.\<close>

partial_function (option) reparent_loop :: "pnode \<Rightarrow> pnode \<Rightarrow> pstate \<Rightarrow> pstate option" where
  "reparent_loop head node s =
     (if node = head then Some s
      else do {
        p \<leftarrow> siblings_entry node;
        nxt \<leftarrow> lnext (ph s) node;
        s \<leftarrow> p_list_del (Siblings p) s;
        let s = upd_proc p (\<lambda>r. r\<lparr>ppid := pid (proc_of s (rootproc s))\<rparr>) s;
        s \<leftarrow> p_list_add (Siblings p) (Children (rootproc s)) s;
        reparent_loop head nxt s
      })"

text \<open>\<^verbatim>\<open>exit\<close> without the release of memory and files: the children move, the process becomes a zombie, its
  parent is woken.\<close>

definition exit_proc :: "pstate \<Rightarrow> pstate option" where
  "exit_proc s = do {
     me \<leftarrow> cpu_proc s;
     if me = rootproc s then None
     else do {
       first \<leftarrow> lnext (ph s) (Children me);
       s \<leftarrow> reparent_loop (Children me) first s;
       let s = upd_proc me (\<lambda>r. r\<lparr>proc_queue := None, status := ZOMBLE\<rparr>) s;
       parent \<leftarrow> (if ppid (proc_of s me) \<noteq> 0
                   then do { (_, d) \<leftarrow> pid2proc (ppid (proc_of s me)) False s; d }
                   else Some (rootproc s));
       s \<leftarrow> (if wait_for_child (proc_of s parent) then wakeup (SleepAlone parent) s else Some s);
       sched s
     }
   }"

text \<open>The scan of \<^verbatim>\<open>wait\<close>: the identifier of the first zombie child, whose descriptor is destroyed, or
  going to sleep.\<close>

partial_function (option) wait_scan :: "pnode \<Rightarrow> pnode \<Rightarrow> pstate \<Rightarrow> (nat option \<times> pstate) option" where
  "wait_scan head node s =
     (if node = head then Some (None, s)
      else do {
        p \<leftarrow> siblings_entry node;
        nxt \<leftarrow> lnext (ph s) node;
        if status (proc_of s p) = ZOMBLE then do {
          let i = pid (proc_of s p);
          s \<leftarrow> p_list_del (Siblings p) s;
          s \<leftarrow> proc_desc_destroy p s;
          Some (Some i, s)
        }
        else wait_scan head nxt s
      })"

definition wait :: "pstate \<Rightarrow> (nat option \<times> pstate) option" where
  "wait s = do {
     me \<leftarrow> cpu_proc s;
     first \<leftarrow> lnext (ph s) (Children me);
     (r, s) \<leftarrow> wait_scan (Children me) first s;
     case r of Some i \<Rightarrow> Some (Some i, s)
     | None \<Rightarrow> do {
         s \<leftarrow> sleep (SleepAlone me) (upd_proc me (\<lambda>r. r\<lparr>wait_for_child := True\<rparr>) s);
         Some (None, s)
       }
   }"

section \<open>Cloning\<close>

text \<open>The scheduling fields that \<^verbatim>\<open>dup_proc_struct\<close> sets in the child, and the halved slice of the
  parent.\<close>

definition dup_proc_fields :: "nat \<Rightarrow> nat \<Rightarrow> pstate \<Rightarrow> pstate" where
  "dup_proc_fields cur son s =
     (let c = proc_of s cur;
          s = upd_proc son (\<lambda>r. r\<lparr>base_mem_sz := base_mem_sz c, heap_ptr := heap_ptr c, ppid := pid c, status := RUNNABLE\<rparr>) s;
          s = upd_proc cur (\<lambda>r. r\<lparr>timeslice_left := timeslice_left r div 2\<rparr>) s;
          s = (if timeslice_left (proc_of s cur) = 0 then upd_proc cur (\<lambda>r. r\<lparr>timeslice_left := 1\<rparr>) s else s);
          left = timeslice_left (proc_of s cur)
      in upd_proc son (\<lambda>r. r\<lparr>timeslice_left := left, timeslice := word_of_int DEFAULT_TIMESLICE, sleep_avg := sleep_avg c,
           alarmticks_left := alarmticks_left c, alarmticks := alarmticks c, alarmhandler := alarmhandler c,
           priority := DEFAULT_USER_PRIO\<rparr>) s)"

definition CLONE_FORK :: u32 where "CLONE_FORK = 0x19960912"
definition CLONE_VFORK :: u32 where "CLONE_VFORK = 0x19970717"

text \<open>\<^verbatim>\<open>clone\<close>; \<open>cow_ok\<close> is the success of \<^verbatim>\<open>cow_fork\<close>.\<close>

definition clone :: "u32 \<Rightarrow> nat option \<Rightarrow> bool \<Rightarrow> bool \<Rightarrow> bool \<Rightarrow> pstate \<Rightarrow> (int \<times> pstate) option" where
  "clone cflg fresh vm_ok stack_ok cow_ok s = do {
     me \<leftarrow> cpu_proc s;
     (r, d, s) \<leftarrow> proc_alloc fresh vm_ok stack_ok s;
     if r \<noteq> 0 then Some (r, s)
     else do {
       son \<leftarrow> d;
       let s = dup_proc_fields me son s;
       if cflg = CLONE_FORK \<or> cflg = CLONE_VFORK then
         if \<not> cow_ok then Some (- 1, s)
         else do {
           s \<leftarrow> p_list_add_tail (Siblings son) (Children me) s;
           s \<leftarrow> add_proc_to_queue (run_queue s) son s;
           Some (int (pid (proc_of s son)), s)
         }
       else Some (- 1, s)
     }
   }"

section \<open>The heap of a process\<close>

text \<open>The loops that remove the pages of a shrunk heap: \<^verbatim>\<open>sbrk\<close> goes up from the new end, \<^verbatim>\<open>brk\<close> goes
  down to it.  The result lists the arguments of \<^verbatim>\<open>page_remove\<close>.\<close>

partial_function (option) sbrk_remove :: "u32 \<Rightarrow> u32 \<Rightarrow> u32 list \<Rightarrow> u32 list option" where
  "sbrk_remove end_addr base removed =
     (if end_addr < base then sbrk_remove (end_addr + P_PGSIZE) base (removed @ [end_addr]) else Some removed)"

partial_function (option) brk_remove :: "u32 \<Rightarrow> u32 \<Rightarrow> u32 list \<Rightarrow> (u32 \<times> u32 list) option" where
  "brk_remove hp heap_break removed =
     (if heap_break < hp then brk_remove (hp - P_PGSIZE) heap_break (removed @ [hp - P_PGSIZE])
      else Some (hp, removed))"

text \<open>\<^verbatim>\<open>n % (~0x80000000)\<close> is an unsigned remainder.\<close>

definition sbrk :: "nat \<Rightarrow> int \<Rightarrow> pstate \<Rightarrow> (u32 \<times> u32 list \<times> pstate) option" where
  "sbrk p n s =
     (let base = heap_ptr (proc_of s p) in
      if n < 0 then
        let real_n = word_of_int n mod (NOT 0x80000000);
            end_addr = ROUNDDOWN (base - real_n) P_PGSIZE
        in if end_addr < ROUNDUP (base_mem_sz (proc_of s p)) P_PGSIZE then Some (0, [], s)
           else do {
             removed \<leftarrow> sbrk_remove end_addr base [];
             Some (end_addr, removed, upd_proc p (\<lambda>r. r\<lparr>heap_ptr := end_addr\<rparr>) s)
           }
      else if 0 < n then
        let real_n = ROUNDUP (word_of_int n) P_PGSIZE;
            end_addr = base + real_n
        in if HEAPTOP < end_addr \<or> end_addr < base then Some (0, [], s)
           else Some (end_addr, [], upd_proc p (\<lambda>r. r\<lparr>heap_ptr := heap_ptr r + end_addr\<rparr>) s)
      else Some (base, [], s))"

definition brk :: "nat \<Rightarrow> u32 \<Rightarrow> pstate \<Rightarrow> (int \<times> u32 list \<times> pstate) option" where
  "brk p heap_break s =
     (let hp = heap_ptr (proc_of s p) in
      if hp < heap_break then
        let heap_break = ROUNDUP heap_break P_PGSIZE in
        if heap_break \<le> HEAPTOP then Some (0, [], upd_proc p (\<lambda>r. r\<lparr>heap_ptr := heap_break\<rparr>) s)
        else Some (- 1, [], s)
      else if heap_break < hp then
        let heap_break = ROUNDDOWN heap_break P_PGSIZE in
        if heap_break < ROUNDUP (base_mem_sz (proc_of s p)) P_PGSIZE then Some (- 1, [], s)
        else do {
          (hp, removed) \<leftarrow> brk_remove hp heap_break [];
          Some (0, removed, upd_proc p (\<lambda>r. r\<lparr>heap_ptr := hp\<rparr>) s)
        }
      else Some (0, [], s))"

section \<open>Messages between processes\<close>

text \<open>\<^verbatim>\<open>ipc_try_send\<close>; \<open>pte\<close> is the page-table entry of the sender at \<open>srcva\<close>, if mapped, and \<open>insert_ok\<close>
  the success of \<^verbatim>\<open>page_insert\<close> into the receiver.\<close>

definition PTE_W :: u32 where "PTE_W = 2"
definition PTE_SYSCALL :: u32 where "PTE_SYSCALL = 0xE07"

definition ipc_try_send :: "nat \<Rightarrow> u32 \<Rightarrow> u32 \<Rightarrow> u32 \<Rightarrow> u32 option \<Rightarrow> bool \<Rightarrow> pstate \<Rightarrow> (int \<times> pstate) option" where
  "ipc_try_send i val srcva perm pte insert_ok s = do {
     (e, d) \<leftarrow> pid2proc i False s;
     if e \<noteq> 0 then Some (- E_BAD_PROC, s)
     else do {
       rc \<leftarrow> d;
       me \<leftarrow> cpu_proc s;
       let finish = (\<lambda>pm. do {
           let s = upd_proc rc (\<lambda>r. r\<lparr>ipc_perm := pm, ipc_recving := False, ipc_from := pid (proc_of s me), ipc_value := val\<rparr>) s;
           s \<leftarrow> wakeup (SleepAlone rc) s;
           Some (0, s) });
       if \<not> ipc_recving (proc_of s rc) then Some (- E_IPC_NOT_RECV, s)
       else if ipc_dstva (proc_of s rc) < UTOP \<and> srcva < UTOP then
         if srcva mod P_PGSIZE \<noteq> 0 then Some (- E_INVAL, s)
         else case pte of None \<Rightarrow> Some (- E_INVAL, s)
           | Some e \<Rightarrow>
               if perm AND NOT PTE_SYSCALL \<noteq> 0 then Some (- E_INVAL, s)
               else if perm AND PTE_W \<noteq> 0 \<and> e AND PTE_W = 0 then Some (- E_INVAL, s)
               else if \<not> insert_ok then Some (- E_NO_MEM, s)
               else finish perm
       else finish 0
     }
   }"

definition ipc_recv :: "u32 \<Rightarrow> pstate \<Rightarrow> (int \<times> pstate) option" where
  "ipc_recv dstva s =
     (if dstva < UTOP \<and> dstva mod P_PGSIZE \<noteq> 0 then Some (- E_INVAL, s)
      else do {
        me \<leftarrow> cpu_proc s;
        s \<leftarrow> sleep (SleepAlone me) (upd_proc me (\<lambda>r. r\<lparr>ipc_dstva := dstva, ipc_recving := True\<rparr>) s);
        Some (0, s)
      })"

end
