(* ===== verification/Sched_Props.thy ===== *)
theory Sched_Props
  imports Sched
begin

text \<open>
  Properties of the scheduler.  \<open>sched_rel H L s\<close> relates the state to the lists \<open>L\<close> of its heads \<open>H\<close>: in
  both queues a bit of the bitmap is set exactly when the list of its priority is not empty, the counter is
  the number of queued processes, and the processes of a list have that priority and name that queue.
\<close>

section \<open>The relation\<close>

definition queue_ok :: "(pnode \<Rightarrow> pnode list) \<Rightarrow> nat \<Rightarrow> pstate \<Rightarrow> bool" where
  "queue_ok L q s \<longleftrightarrow>
     (\<forall>k<40. bit (q_bitmap s q) k \<longleftrightarrow> L (PQueue q k) \<noteq> []) \<and>
     (\<forall>k<40. \<forall>n\<in>set (L (PQueue q k)). \<exists>p. n = Kinds p \<and> priority (proc_of s p) = k \<and>
        proc_queue (proc_of s p) = Some q) \<and>
     unat (q_nprocs s q) = (\<Sum>k<40. length (L (PQueue q k)))"

definition sched_rel :: "pnode set \<Rightarrow> (pnode \<Rightarrow> pnode list) \<Rightarrow> pstate \<Rightarrow> bool" where
  "sched_rel H L s \<longleftrightarrow> lists_on H L (ph s) \<and> (\<forall>q<2. (\<forall>k<40. PQueue q k \<in> H) \<and> queue_ok L q s) \<and>
     run_queue s < 2 \<and> exhausted_queue s = 1 - run_queue s"

text \<open>A process that is on no list.\<close>

definition unlinked :: "pnode set \<Rightarrow> (pnode \<Rightarrow> pnode list) \<Rightarrow> nat \<Rightarrow> bool" where
  "unlinked H L p \<longleftrightarrow> Kinds p \<notin> H \<and> Kinds p \<notin> nodes_of H L"

lemma sched_rel_lists: "sched_rel H L s \<Longrightarrow> lists_on H L (ph s)"
  by (simp add: sched_rel_def)

lemma sched_rel_head: "sched_rel H L s \<Longrightarrow> q < 2 \<Longrightarrow> k < 40 \<Longrightarrow> PQueue q k \<in> H"
  by (simp add: sched_rel_def)

lemma sched_rel_queue: "sched_rel H L s \<Longrightarrow> q < 2 \<Longrightarrow> queue_ok L q s"
  by (simp add: sched_rel_def)

lemma upd_proc_sel [simp]:
  "ph (upd_proc p f s) = ph s" "q_bitmap (upd_proc p f s) = q_bitmap s" "q_nprocs (upd_proc p f s) = q_nprocs s"
  "run_queue (upd_proc p f s) = run_queue s" "exhausted_queue (upd_proc p f s) = exhausted_queue s"
  "cpu_proc (upd_proc p f s) = cpu_proc s" "jiffs (upd_proc p f s) = jiffs s"
  "proc_of (upd_proc p f s) = (proc_of s)(p := f (proc_of s p))"
  by (simp_all add: upd_proc_def)

lemma queue_ok_upd_proc:
  assumes "queue_ok L q s" and "unlinked H L p" and "\<And>k. k < 40 \<Longrightarrow> PQueue q k \<in> H"
  shows "queue_ok L q (upd_proc p f s)"
proof -
  have "Kinds p \<notin> set (L (PQueue q k))" if "k < 40" for k
    using assms(2) assms(3) [OF that] by (auto simp: unlinked_def nodes_of_def)
  then show ?thesis
    using assms(1) unfolding queue_ok_def by simp metis
qed

lemma sched_rel_upd_proc: "sched_rel H L s \<Longrightarrow> unlinked H L p \<Longrightarrow> sched_rel H L (upd_proc p f s)"
  using queue_ok_upd_proc unfolding sched_rel_def by simp

lemma sched_rel_cpu_proc [simp]: "sched_rel H L (s\<lparr>cpu_proc := c\<rparr>) = sched_rel H L s"
  by (simp add: sched_rel_def queue_ok_def)

lemma sched_rel_jiffs [simp]: "sched_rel H L (s\<lparr>jiffs := c\<rparr>) = sched_rel H L s"
  by (simp add: sched_rel_def queue_ok_def)

section \<open>Bits of the priority map\<close>

lemma prio_bit_eq: "k < 40 \<Longrightarrow> prio_bit k = 2 ^ k"
proof (cases "k < 32")
  case False
  moreover assume "k < 40"
  ultimately have "32 + k mod 32 = k"
    by presburger
  then show ?thesis
    using False by (simp add: prio_bit_def)
qed (simp add: prio_bit_def)

lemma bit_prio_bit: "k < 40 \<Longrightarrow> bit (prio_bit k) j \<longleftrightarrow> j = k"
  by (auto simp: prio_bit_eq bit_exp_iff possible_bit_word)

lemma bit_set_prio: "k < 40 \<Longrightarrow> bit (w OR prio_bit k) j \<longleftrightarrow> bit w j \<or> j = k"
  by (simp add: bit_or_iff bit_prio_bit)

lemma bit_clear_prio: "k < 40 \<Longrightarrow> j < 40 \<Longrightarrow> bit (w AND NOT (prio_bit k)) j \<longleftrightarrow> bit w j \<and> j \<noteq> k"
  by (auto simp: bit_and_iff bit_not_iff bit_prio_bit possible_bit_word)

declare find_first_from.simps [simp del]

lemma exp_and_iff:
  fixes w :: u64
  assumes "k < 64"
  shows "2 ^ k AND w = 0 \<longleftrightarrow> \<not> bit w k"
proof -
  have b: "bit (2 ^ k AND w) j \<longleftrightarrow> j = k \<and> bit w k" for j
    using assms by (auto simp: bit_and_iff bit_exp_iff possible_bit_word)
  have "2 ^ k AND w = 0 \<longleftrightarrow> (\<forall>j. \<not> bit (2 ^ k AND w) j)"
    by (metis bit_0_eq bit_eqI bot_apply bot_bool_def)
  then show ?thesis
    unfolding b by simp
qed

lemma find_first_from_least:
  assumes "i \<le> 40" "\<And>j. j < i \<Longrightarrow> \<not> bit w j"
  shows "find_first_from i (2 ^ i) w = (LEAST k. k = 40 \<or> bit w k)"
  using assms
proof (induction "40 - i" arbitrary: i)
  case 0
  then have i: "i = 40" by simp
  show ?case
    using 0(3) i by (subst find_first_from.simps, intro Least_equality [symmetric])
      (auto simp: N_PRIORITY_def not_less [symmetric])
next
  case (Suc n)
  then have i: "i < 40" by simp
  show ?case
  proof (cases "bit w i")
    case True
    then have "find_first_from i (2 ^ i) w = i"
      using i by (subst find_first_from.simps) (simp add: N_PRIORITY_def exp_and_iff)
    moreover have "(LEAST k. k = 40 \<or> bit w k) = i"
      using True i Suc.prems(2) by (intro Least_equality) (auto simp: not_less [symmetric])
    ultimately show ?thesis by simp
  next
    case False
    have "find_first_from i (2 ^ i) w = find_first_from (Suc i) (2 ^ Suc i) w"
      using i False by (subst find_first_from.simps) (simp add: N_PRIORITY_def exp_and_iff mult.commute)
    moreover have "\<not> bit w j" if "j < Suc i" for j
      using that False Suc.prems(2) by (cases "j = i") auto
    ultimately show ?thesis
      using Suc.hyps(1) [of "Suc i"] Suc.hyps(2) i by simp
  qed
qed

lemma find_first_set_least: "find_first_set q s = (LEAST k. k = 40 \<or> bit (q_bitmap s q) k)"
  using find_first_from_least [of 0 "q_bitmap s q"] by (simp add: find_first_set_def)

text \<open>On a related state it is the first non-empty list, or 40.\<close>

lemma find_first_set_rel:
  assumes "sched_rel H L s" "q < 2"
  shows "find_first_set q s = k \<longleftrightarrow> k \<le> 40 \<and> (k < 40 \<longrightarrow> L (PQueue q k) \<noteq> []) \<and> (\<forall>j<k. L (PQueue q j) = [])"
proof -
  have b: "bit (q_bitmap s q) j \<longleftrightarrow> L (PQueue q j) \<noteq> []" if "j < 40" for j
    using sched_rel_queue [OF assms] that by (simp add: queue_ok_def)
  define m where "m = (LEAST k. k = 40 \<or> bit (q_bitmap s q) k)"
  have m: "m = 40 \<or> bit (q_bitmap s q) m"
    unfolding m_def by (rule LeastI [of _ 40]) simp
  have le: "m \<le> 40"
    unfolding m_def by (rule Least_le) simp
  have below: "L (PQueue q j) = []" if "j < m" for j
    using not_less_Least [of j "\<lambda>k. k = 40 \<or> bit (q_bitmap s q) k"] that le b [of j] by (simp add: m_def)
  have ne: "m < 40 \<longrightarrow> L (PQueue q m) \<noteq> []"
    using m b [of m] less_irrefl [of "40 :: nat"] by blast
  have "k = m" if "k \<le> 40" "k < 40 \<longrightarrow> L (PQueue q k) \<noteq> []" "\<forall>j<k. L (PQueue q j) = []"
  proof (cases k m rule: linorder_cases)
    case less
    then show ?thesis using that(2) le below [OF less] by simp
  next
    case greater
    then show ?thesis using that(1,3) ne le by simp
  qed
  moreover have "find_first_set q s = m"
    by (simp add: find_first_set_least m_def)
  ultimately show ?thesis
    using le below ne by metis
qed

lemma queue_empty_iff:
  assumes "sched_rel H L s" "q < 2"
  shows "q_nprocs s q = 0 \<longleftrightarrow> (\<forall>k<40. L (PQueue q k) = [])"
proof -
  have "unat (q_nprocs s q) = (\<Sum>k<40. length (L (PQueue q k)))"
    using sched_rel_queue [OF assms] by (simp add: queue_ok_def)
  then show ?thesis
    by (auto simp: unat_eq_0 [symmetric])
qed

section \<open>Queue operations\<close>

lemma sum_length_upd:
  assumes "k < (40 :: nat)"
  shows "(\<Sum>j<40. length ((L(PQueue q k := xs)) (PQueue q j))) + length (L (PQueue q k)) =
     (\<Sum>j<40. length (L (PQueue q j))) + length xs"
proof -
  have s: "(\<Sum>j<40. f j) = f k + (\<Sum>j\<in>{..<40} - {k}. f j)" for f :: "nat \<Rightarrow> nat"
    using assms by (intro sum.remove) auto
  show ?thesis
    unfolding s [of "\<lambda>j. length ((L(PQueue q k := xs)) (PQueue q j))"] s [of "\<lambda>j. length (L (PQueue q j))"]
    by simp
qed

lemma add_proc_to_queue_rel:
  assumes r: "sched_rel H L s" and q: "q < 2" and u: "unlinked H L p"
    and k: "priority (proc_of s p) = k" "k < 40" and n: "unat (q_nprocs s q) + 1 < 2 ^ 32"
  defines "L' \<equiv> L(PQueue q k := L (PQueue q k) @ [Kinds p])"
  obtains s' where "add_proc_to_queue q p s = Some s'" "sched_rel H L' s'"
    "proc_of s' = (proc_of s)(p := (proc_of s p)\<lparr>proc_queue := Some q\<rparr>)"
    "q_nprocs s' = (q_nprocs s)(q := q_nprocs s q + 1)"
    "cpu_proc s' = cpu_proc s" "run_queue s' = run_queue s" "exhausted_queue s' = exhausted_queue s" "jiffs s' = jiffs s"
proof -
  note l = sched_rel_lists [OF r]
  note hd = sched_rel_head [OF r q k(2)]
  obtain h' where h': "list_add_tail (Kinds p) (PQueue q k) (ph s) = Some h'" "lists_on H L' h'"
    using kl.add_back [OF l hd] u unfolding unlinked_def L'_def by blast
  define s' where "s' = upd_proc p (\<lambda>r. r\<lparr>proc_queue := Some q\<rparr>) (s\<lparr>ph := h',
    q_bitmap := (q_bitmap s)(q := q_bitmap s q OR prio_bit k), q_nprocs := (q_nprocs s)(q := q_nprocs s q + 1)\<rparr>)"
  have ex: "add_proc_to_queue q p s = Some s'"
    using h'(1) k by (simp add: add_proc_to_queue_def p_list_add_tail_def N_PRIORITY_def s'_def upd_proc_def)
  have np: "Kinds p \<notin> set (L (PQueue q' j))" if "q' < 2" "j < 40" for q' j
    using u sched_rel_head [OF r that] by (auto simp: unlinked_def nodes_of_def)
  have "queue_ok L' q' s'" if q': "q' < 2" for q'
  proof -
    note ok = sched_rel_queue [OF r q', unfolded queue_ok_def]
    have "unat (q_nprocs s q + 1) = unat (q_nprocs s q) + 1"
      using n by (simp add: unat_word_ariths)
    then have c: "unat (q_nprocs s' q') = (\<Sum>j<40. length (L' (PQueue q' j)))"
      using ok sum_length_upd [OF k(2), of L q "L (PQueue q k) @ [Kinds p]"]
      by (cases "q' = q") (simp_all add: s'_def L'_def)
    have b: "bit (q_bitmap s' q') j \<longleftrightarrow> L' (PQueue q' j) \<noteq> []" if "j < 40" for j
      using ok that k(2) by (cases "q' = q") (simp_all add: s'_def L'_def bit_set_prio)
    have m: "\<exists>p'. x = Kinds p' \<and> priority (proc_of s' p') = j \<and> proc_queue (proc_of s' p') = Some q'"
      if "j < 40" "x \<in> set (L' (PQueue q' j))" for j x
    proof (cases "x = Kinds p")
      case True
      then show ?thesis
        using that np [OF q' that(1)] k(1) by (auto simp: s'_def L'_def split: if_splits)
    next
      case False
      then show ?thesis
        using that ok by (fastforce simp: s'_def L'_def split: if_splits)
    qed
    show ?thesis
      unfolding queue_ok_def using b m c by blast
  qed
  then have "sched_rel H L' s'"
    using r h'(2) unfolding sched_rel_def by (simp add: s'_def)
  with ex show ?thesis
    by (rule that) (simp_all add: s'_def)
qed

lemma del_proc_fron_queue_rel:
  assumes r: "sched_rel H L s" and q: "q < 2" and k: "k < 40" and p: "Kinds p \<in> set (L (PQueue q k))"
  defines "L' \<equiv> L(PQueue q k := remove1 (Kinds p) (L (PQueue q k)))"
  obtains s' where "del_proc_fron_queue p s = Some s'" "sched_rel H L' s'" "unlinked H L' p"
    "proc_of s' = (proc_of s)(p := (proc_of s p)\<lparr>proc_queue := None\<rparr>)"
    "q_nprocs s' = (q_nprocs s)(q := q_nprocs s q - 1)"
    "cpu_proc s' = cpu_proc s" "run_queue s' = run_queue s" "exhausted_queue s' = exhausted_queue s" "jiffs s' = jiffs s"
proof -
  note l = sched_rel_lists [OF r]
  note hd = sched_rel_head [OF r q k]
  note ok = sched_rel_queue [OF r q, unfolded queue_ok_def]
  have pr: "priority (proc_of s p) = k" "proc_queue (proc_of s p) = Some q"
    using ok k p by auto
  obtain h' where h': "list_del (Kinds p) (ph s) = Some h'" "lists_on H L' h'"
    using kl.del_remove1 [OF l hd p] unfolding L'_def by blast
  have e: "list_empty (PQueue q k) h' \<longleftrightarrow> L' (PQueue q k) = []"
    by (rule list_empty_iff [OF h'(2) hd])
  define bm where "bm = (if L' (PQueue q k) = [] then q_bitmap s q AND NOT (prio_bit k) else q_bitmap s q)"
  define s' where "s' = upd_proc p (\<lambda>r. r\<lparr>proc_queue := None\<rparr>) (s\<lparr>ph := h',
    q_bitmap := (q_bitmap s)(q := bm), q_nprocs := (q_nprocs s)(q := q_nprocs s q - 1)\<rparr>)"
  have ex: "del_proc_fron_queue p s = Some s'"
    using h'(1) pr k e by (auto simp: del_proc_fron_queue_def p_list_del_def N_PRIORITY_def s'_def upd_proc_def bm_def)
  have "Kinds p \<notin> set (L' c)" if "c \<in> H" for c
    using kl.invar_unique [OF l hd that p] kl.invar_distinct [OF l hd] by (cases "c = PQueue q k") (auto simp: L'_def)
  moreover have "Kinds p \<notin> H"
    using p hd kl.invar_heads [OF l, of "Kinds p"] by (auto simp: nodes_of_def)
  ultimately have u: "unlinked H L' p"
    by (simp add: unlinked_def nodes_of_def)
  have len: "0 < length (L (PQueue q k))"
    using p by auto
  have "queue_ok L' q' s'" if q': "q' < 2" for q'
  proof -
    note ok = sched_rel_queue [OF r q', unfolded queue_ok_def]
    have "length (L (PQueue q k)) \<le> (\<Sum>j<40. length (L (PQueue q j)))"
      using k by (intro member_le_sum) auto
    then have "0 < unat (q_nprocs s q)"
      using sched_rel_queue [OF r q, unfolded queue_ok_def] len by linarith
    then have "unat (q_nprocs s q - 1) + 1 = unat (q_nprocs s q)"
      by (simp add: unat_sub_if' word_le_nat_alt)
    moreover have "Suc (length (remove1 (Kinds p) (L (PQueue q k)))) = length (L (PQueue q k))"
      using p len by (simp add: length_remove1)
    ultimately have c: "unat (q_nprocs s' q') = (\<Sum>j<40. length (L' (PQueue q' j)))"
      using ok sum_length_upd [OF k, of L q "remove1 (Kinds p) (L (PQueue q k))"]
      by (cases "q' = q") (simp_all add: s'_def L'_def)
    have b: "bit (q_bitmap s' q') j \<longleftrightarrow> L' (PQueue q' j) \<noteq> []" if "j < 40" for j
      using ok that k len by (cases "q' = q"; cases "j = k") (auto simp: s'_def L'_def bm_def bit_clear_prio)
    have m: "\<exists>p'. x = Kinds p' \<and> priority (proc_of s' p') = j \<and> proc_queue (proc_of s' p') = Some q'"
      if "j < 40" "x \<in> set (L' (PQueue q' j))" for j x
    proof -
      have "x \<in> set (L (PQueue q' j))"
        using that(2) subsetD [OF set_remove1_subset] by (auto simp: L'_def split: if_splits)
      moreover have "x \<noteq> Kinds p"
        using that u sched_rel_head [OF r q' that(1)] by (auto simp: unlinked_def nodes_of_def)
      ultimately show ?thesis
        using ok that(1) by (fastforce simp: s'_def)
    qed
    show ?thesis
      unfolding queue_ok_def using b m c by blast
  qed
  then have "sched_rel H L' s'"
    using r h'(2) unfolding sched_rel_def by (simp add: s'_def)
  from ex this u show ?thesis
    by (rule that) (simp_all add: s'_def)
qed

section \<open>Priorities and time slices\<close>

lemma recalculate_priority_less: "recalculate_priority p < 40"
  by (auto simp: recalculate_priority_def MAX_USER_PRIO_def MIN_USER_PRIO_def Let_def)

section \<open>Requeueing and choosing\<close>

text \<open>A process the scheduler comes back from is on no list, or was put into a run queue by a wake-up in between.\<close>

definition prev_ok :: "pnode set \<Rightarrow> (pnode \<Rightarrow> pnode list) \<Rightarrow> pstate \<Rightarrow> nat \<Rightarrow> bool" where
  "prev_ok H L s p \<longleftrightarrow> unlinked H L p \<and> proc_queue (proc_of s p) = None \<or>
     (\<exists>q<2. \<exists>k<40. Kinds p \<in> set (L (PQueue q k)))"

definition queues_room :: "pstate \<Rightarrow> bool" where
  "queues_room s \<longleftrightarrow> (\<forall>q<2. unat (q_nprocs s q) + 1 < 2 ^ 32)"

lemma unqueue_prev:
  assumes r: "sched_rel H L s" and ok: "prev_ok H L s p" and room: "queues_room s"
  obtains s' L' where
    "(if proc_queue (proc_of s p) \<noteq> None then del_proc_fron_queue p s else Some s) = Some s'"
    "sched_rel H L' s'" "unlinked H L' p" "queues_room s'"
    "proc_of s' = (proc_of s)(p := (proc_of s p)\<lparr>proc_queue := None\<rparr>)"
    "run_queue s' = run_queue s" "exhausted_queue s' = exhausted_queue s" "cpu_proc s' = cpu_proc s"
    "\<forall>q<2. \<forall>k<40. L' (PQueue q k) = removeAll (Kinds p) (L (PQueue q k))"
proof (cases "\<exists>q<2. \<exists>k<40. Kinds p \<in> set (L (PQueue q k))")
  case True
  then obtain q k where q: "q < 2" and k: "k < 40" and m: "Kinds p \<in> set (L (PQueue q k))" by blast
  obtain s' where s': "del_proc_fron_queue p s = Some s'"
    "sched_rel H (L(PQueue q k := remove1 (Kinds p) (L (PQueue q k)))) s'"
    "unlinked H (L(PQueue q k := remove1 (Kinds p) (L (PQueue q k)))) p"
    "proc_of s' = (proc_of s)(p := (proc_of s p)\<lparr>proc_queue := None\<rparr>)"
    "q_nprocs s' = (q_nprocs s)(q := q_nprocs s q - 1)"
    "cpu_proc s' = cpu_proc s" "run_queue s' = run_queue s" "exhausted_queue s' = exhausted_queue s"
    by (rule del_proc_fron_queue_rel [OF r q k m]) (rule that; assumption)
  have nz: "q_nprocs s q \<noteq> 0"
    using queue_empty_iff [OF r q] k m by force
  have "unat (q_nprocs s q - 1) \<le> unat (q_nprocs s q)"
    using nz by (simp add: unat_sub_if' word_le_nat_alt unat_eq_0 Suc_le_eq)
  then have room': "queues_room s'"
    using room q unfolding queues_room_def s'(5) by fastforce
  have pq: "proc_queue (proc_of s p) \<noteq> None"
    using sched_rel_queue [OF r q] k m by (fastforce simp: queue_ok_def)
  have rm: "(L(PQueue q k := remove1 (Kinds p) (L (PQueue q k)))) (PQueue q' j) = removeAll (Kinds p) (L (PQueue q' j))"
    if "q' < 2" "j < 40" for q' j
  proof (cases "q' = q \<and> j = k")
    case True
    then show ?thesis
      using kl.invar_distinct [OF sched_rel_lists [OF r] sched_rel_head [OF r q k]]
      by (simp add: distinct_remove1_removeAll)
  next
    case False
    then have "Kinds p \<notin> set (L (PQueue q' j))"
      using kl.invar_unique [OF sched_rel_lists [OF r] sched_rel_head [OF r q k] sched_rel_head [OF r that] m] by blast
    then show ?thesis
      using False by auto
  qed
  show ?thesis
    using s' room' pq rm by (intro that [of s' "L(PQueue q k := remove1 (Kinds p) (L (PQueue q k)))"]) simp_all
next
  case False
  then have u: "unlinked H L p" and pq: "proc_queue (proc_of s p) = None"
    using ok unfolding prev_ok_def by blast+
  then have "(proc_of s p)\<lparr>proc_queue := None\<rparr> = proc_of s p" by simp
  then show ?thesis
    using r u pq room False by (intro that [of s L]) (simp_all add: fun_upd_idem)
qed

text \<open>The queue and the priority a process that still wants to run goes to.\<close>

definition requeue_target :: "pstate \<Rightarrow> nat \<Rightarrow> pnode" where
  "requeue_target s p = PQueue (if timeslice_left (proc_of s p) = 0 then exhausted_queue s else run_queue s)
     (recalculate_priority (proc_of s p))"

lemma sched_rel_runq: "sched_rel H L s \<Longrightarrow> run_queue s < 2" "sched_rel H L s \<Longrightarrow> exhausted_queue s < 2"
  by (auto simp: sched_rel_def)

lemma recalculate_proc_queue [simp]:
  "recalculate_priority (r\<lparr>proc_queue := x\<rparr>) = recalculate_priority r"
  by (simp add: recalculate_priority_def current_bonus_def)

lemma new_turn_sel [simp]:
  "priority (new_turn r) = recalculate_priority r" "status (new_turn r) = status r" "timeslice_left (new_turn r) = timeslice_left r"
  by (simp_all add: new_turn_def Let_def)

lemma sched_requeue_rel:
  assumes r: "sched_rel H L s" and ok: "prev_ok H L s p" and room: "queues_room s"
    and st: "status (proc_of s p) = RUNNABLE"
  obtains s' L' where "sched_requeue (Some p) s = Some s'" "sched_rel H L' s'"
    "\<forall>q<2. \<forall>k<40. L' (PQueue q k) = removeAll (Kinds p) (L (PQueue q k)) @
       (if PQueue q k = requeue_target s p then [Kinds p] else [])"
    "run_queue s' = run_queue s" "exhausted_queue s' = exhausted_queue s"
    "status (proc_of s' p) = RUNNABLE" "priority (proc_of s' p) = recalculate_priority (proc_of s p)"
    "timeslice_left (proc_of s' p) = (if timeslice_left (proc_of s p) = 0 then timeslice (proc_of s' p)
       else timeslice_left (proc_of s p))"
proof -
  obtain s1 L1 where s1:
    "(if proc_queue (proc_of s p) \<noteq> None then del_proc_fron_queue p s else Some s) = Some s1"
    "sched_rel H L1 s1" "unlinked H L1 p" "queues_room s1"
    "proc_of s1 = (proc_of s)(p := (proc_of s p)\<lparr>proc_queue := None\<rparr>)"
    "run_queue s1 = run_queue s" "exhausted_queue s1 = exhausted_queue s"
    "\<forall>q<2. \<forall>k<40. L1 (PQueue q k) = removeAll (Kinds p) (L (PQueue q k))"
    by (rule unqueue_prev [OF r ok room]) (rule that; assumption)
  define s2 where "s2 = upd_proc p new_turn s1"
  define left where "left = timeslice_left (proc_of s p)"
  define s3 where "s3 = (if left = 0 then upd_proc p (\<lambda>r. r\<lparr>timeslice_left := timeslice r\<rparr>) s2 else s2)"
  define q where "q = (if left = 0 then exhausted_queue s else run_queue s)"
  define k where "k = recalculate_priority (proc_of s p)"
  have r3: "sched_rel H L1 s3"
    unfolding s3_def s2_def by (simp add: sched_rel_upd_proc s1(2,3))
  have q: "q < 2" and k: "k < 40"
    using sched_rel_runq [OF r] by (simp_all add: q_def k_def recalculate_priority_less)
  have pk: "priority (proc_of s3 p) = k"
    by (simp add: s3_def s2_def s1(5) k_def)
  have "unat (q_nprocs s3 q) + 1 < 2 ^ 32"
    using s1(4) q by (simp add: queues_room_def s3_def s2_def)
  then obtain s4 where s4: "add_proc_to_queue q p s3 = Some s4"
    "sched_rel H (L1(PQueue q k := L1 (PQueue q k) @ [Kinds p])) s4"
    "proc_of s4 = (proc_of s3)(p := (proc_of s3 p)\<lparr>proc_queue := Some q\<rparr>)"
    "run_queue s4 = run_queue s3" "exhausted_queue s4 = exhausted_queue s3"
    by (rule add_proc_to_queue_rel [OF r3 q s1(3) pk k]) (rule that; assumption)
  have ex: "sched_requeue (Some p) s = Some s4"
    using s4(1) st s1(5-7) s1(1) unfolding s3_def s2_def q_def left_def
    by (cases "left = 0") (simp_all add: sched_requeue_def s1(1) left_def Let_def)
  have tgt: "requeue_target s p = PQueue q k"
    by (simp add: requeue_target_def q_def k_def left_def)
  show ?thesis
    using ex s4(2)
  proof (rule that)
    show "\<forall>q'<2. \<forall>k'<40. (L1(PQueue q k := L1 (PQueue q k) @ [Kinds p])) (PQueue q' k') =
        removeAll (Kinds p) (L (PQueue q' k')) @ (if PQueue q' k' = requeue_target s p then [Kinds p] else [])"
      using s1(8) q k by (simp add: tgt)
  qed (simp_all add: s4 s3_def s2_def s1 st k_def left_def)
qed

text \<open>The queue the next process is taken from: the run queue, or the other one when it is empty.\<close>

definition active_queue :: "(pnode \<Rightarrow> pnode list) \<Rightarrow> pstate \<Rightarrow> nat" where
  "active_queue L s = (if \<forall>k<40. L (PQueue (run_queue s) k) = [] then exhausted_queue s else run_queue s)"

text \<open>The second half of a round, on the state after requeueing.\<close>

lemma scheduler_choice:
  assumes r: "sched_rel H L s"
  defines "q \<equiv> active_queue L s"
  obtains (idle) s' where "\<forall>q<2. \<forall>k<40. L (PQueue q k) = []"
      "sched_requeue prev s0 = Some s \<Longrightarrow> scheduler_round prev s0 = Some (None, s')"
      "sched_rel H L s'" "cpu_proc s' = None"
  | (run) p k xs s' where "k < 40" "L (PQueue q k) = Kinds p # xs" "\<forall>j<k. L (PQueue q j) = []"
      "sched_requeue prev s0 = Some s \<Longrightarrow> scheduler_round prev s0 = Some (Some p, s')"
      "sched_rel H (L(PQueue q k := xs)) s'" "unlinked H (L(PQueue q k := xs)) p"
      "cpu_proc s' = Some p" "status (proc_of s' p) = RUNNING" "run_queue s' = q"
proof -
  define s1 where "s1 = (if q_nprocs s (run_queue s) = 0
    then s\<lparr>run_queue := exhausted_queue s, exhausted_queue := run_queue s\<rparr> else s)"
  note rq = sched_rel_runq [OF r]
  have q: "run_queue s1 = q" and q2: "q < 2"
    using queue_empty_iff [OF r rq(1)] rq by (auto simp: s1_def q_def active_queue_def)
  have r1: "sched_rel H L s1"
    using r by (auto simp: s1_def sched_rel_def queue_ok_def)
  define k where "k = find_first_set q s1"
  have k: "k \<le> 40" "k < 40 \<longrightarrow> L (PQueue q k) \<noteq> []" "\<forall>j<k. L (PQueue q j) = []"
    using find_first_set_rel [OF r1 q2, of k] by (simp_all add: k_def)
  show ?thesis
  proof (cases "k < 40")
    case False
    then have all: "\<forall>j<40. L (PQueue q j) = []" using k by simp
    then have "\<forall>j<40. L (PQueue (run_queue s) j) = []" "q = exhausted_queue s"
      by (auto simp: q_def active_queue_def split: if_splits)
    then have emp: "\<forall>q<2. \<forall>k<40. L (PQueue q k) = []"
      using all r unfolding sched_rel_def less_2_cases_iff by (auto simp: less_2_cases_iff)
    show ?thesis
    proof (rule idle [OF emp])
      show "sched_requeue prev s0 = Some s \<Longrightarrow> scheduler_round prev s0 = Some (None, s1\<lparr>cpu_proc := None\<rparr>)"
        using False q unfolding k_def s1_def by (simp add: scheduler_round_def Let_def N_PRIORITY_def)
    qed (simp_all add: r1)
  next
    case True
    then obtain n xs where xs: "L (PQueue q k) = n # xs"
      using k(2) by (cases "L (PQueue q k)") auto
    then obtain p where n: "n = Kinds p"
      using sched_rel_queue [OF r1 q2] True by (fastforce simp: queue_ok_def)
    have nx: "lnext (ph s1) (PQueue q k) = Some (Kinds p)"
      using kl.next_head [OF sched_rel_lists [OF r1] sched_rel_head [OF r1 q2 True]] xs n by simp
    have m: "Kinds p \<in> set (L (PQueue q k))" by (simp add: xs n)
    obtain s2 where s2: "del_proc_fron_queue p s1 = Some s2" "sched_rel H (L(PQueue q k := xs)) s2"
      "unlinked H (L(PQueue q k := xs)) p" "run_queue s2 = run_queue s1"
      by (rule del_proc_fron_queue_rel [OF r1 q2 True m]) (simp add: that xs n)
    define s' where "s' = upd_proc p (\<lambda>r. r\<lparr>status := RUNNING\<rparr>) (s2\<lparr>cpu_proc := Some p\<rparr>)"
    have ex: "scheduler_round prev s0 = Some (Some p, s')" if "sched_requeue prev s0 = Some s"
      using that True q s2(1) nx unfolding s1_def [symmetric] k_def
      by (simp add: scheduler_round_def Let_def N_PRIORITY_def s1_def [symmetric] k_def [symmetric] s'_def)
    show ?thesis
    proof (rule run [OF True _ k(3) ex _ s2(3)])
      show "L (PQueue q k) = Kinds p # xs" by (simp add: xs n)
      show "sched_rel H (L(PQueue q k := xs)) s'"
        unfolding s'_def using s2(2,3) by (simp add: sched_rel_upd_proc)
    qed (simp_all add: s'_def s2 q)
  qed
qed

section \<open>Waking\<close>

lemma unlinked_after_del:
  assumes l: "lists_on H L h" and a: "a \<in> H" and La: "L a = Kinds p # xs"
  shows "unlinked H (L(a := xs)) p"
proof -
  have "Kinds p \<notin> set ((L(a := xs)) c)" if "c \<in> H" for c
    using kl.invar_unique [OF l a that, of "Kinds p"] kl.invar_distinct [OF l a] La by (cases "c = a") auto
  moreover have "Kinds p \<in> nodes_of H L"
    using a La by (auto simp: nodes_of_def intro: bexI [of _ a])
  then have "Kinds p \<notin> H"
    using kl.invar_heads [OF l] by blast
  ultimately show ?thesis
    by (simp add: unlinked_def nodes_of_def)
qed

text \<open>The descriptor a woken process gets, and its priority.\<close>

definition woken :: "u32 \<Rightarrow> proc \<Rightarrow> proc" where
  "woken now r = new_turn (r\<lparr>sleep_avg := sleep_avg r + (now - sleep_start_jiffs r), sleep_start_jiffs := 0, status := RUNNABLE\<rparr>)"

lemma priority_woken_less: "priority (woken now r) < 40"
  by (simp add: woken_def recalculate_priority_less)

lemma wake_one_rel:
  assumes r: "sched_rel H L s" and a: "a \<in> H" "\<forall>q k. a \<noteq> PQueue q k" and La: "L a = Kinds p # xs"
    and room: "unat (q_nprocs s (run_queue s)) + 1 < 2 ^ 32"
  defines "w \<equiv> woken (jiffs s) (proc_of s p)"
  obtains s' where "wake_one p s = Some s'"
    "sched_rel H (L(a := xs, PQueue (run_queue s) (priority w) := L (PQueue (run_queue s) (priority w)) @ [Kinds p])) s'"
    "proc_of s' = (proc_of s)(p := w\<lparr>proc_queue := Some (run_queue s)\<rparr>)"
    "unat (q_nprocs s' (run_queue s)) = unat (q_nprocs s (run_queue s)) + 1"
    "run_queue s' = run_queue s" "jiffs s' = jiffs s" "cpu_proc s' = cpu_proc s"
proof -
  note l = sched_rel_lists [OF r]
  obtain h' where h': "list_del (Kinds p) (ph s) = Some h'" "lists_on H (L(a := xs)) h'"
    using kl.pop_front [OF l a(1) La] by blast
  define s1 where "s1 = s\<lparr>ph := h'\<rparr>"
  note u = unlinked_after_del [OF l a(1) La]
  have keep: "(L(a := xs)) (PQueue q k) = L (PQueue q k)" for q k
    using a(2) by (metis fun_upd_other)
  have "queue_ok (L(a := xs)) q s1" if "q < 2" for q
    using sched_rel_queue [OF r that] unfolding queue_ok_def keep by (simp add: s1_def)
  then have r1: "sched_rel H (L(a := xs)) s1"
    using r h'(2) unfolding sched_rel_def by (simp add: s1_def)
  define s2 where "s2 = upd_proc p (woken (jiffs s)) s1"
  have r2: "sched_rel H (L(a := xs)) s2"
    unfolding s2_def by (rule sched_rel_upd_proc [OF r1 u])
  have pk: "priority (proc_of s2 p) = priority w"
    by (simp add: s2_def s1_def w_def)
  have rq: "run_queue s < 2" by (rule sched_rel_runq(1) [OF r])
  have k: "priority w < 40" by (simp add: w_def priority_woken_less)
  have room2: "unat (q_nprocs s2 (run_queue s)) + 1 < 2 ^ 32"
    using room by (simp add: s2_def s1_def)
  obtain s3 where s3: "add_proc_to_queue (run_queue s) p s2 = Some s3"
    "sched_rel H ((L(a := xs))(PQueue (run_queue s) (priority w) := (L(a := xs)) (PQueue (run_queue s) (priority w)) @ [Kinds p])) s3"
    "proc_of s3 = (proc_of s2)(p := (proc_of s2 p)\<lparr>proc_queue := Some (run_queue s)\<rparr>)"
    "q_nprocs s3 = (q_nprocs s2)(run_queue s := q_nprocs s2 (run_queue s) + 1)"
    "cpu_proc s3 = cpu_proc s2" "run_queue s3 = run_queue s2" "jiffs s3 = jiffs s2"
    by (rule add_proc_to_queue_rel [OF r2 rq u pk k room2]) (rule that; assumption)
  have s2_eq: "upd_proc p new_turn
      (upd_proc p (\<lambda>r. r\<lparr>sleep_avg := sleep_avg r + (jiffs s - sleep_start_jiffs r), sleep_start_jiffs := 0,
               status := RUNNABLE\<rparr>) s1) = s2"
    by (simp add: s2_def upd_proc_def woken_def)
  have ex: "wake_one p s = Some s3"
    using h'(1) s3(1) s2_eq unfolding wake_one_def p_list_del_def
    by (simp add: s1_def Let_def)
  have r3: "sched_rel H (L(a := xs, PQueue (run_queue s) (priority w) := L (PQueue (run_queue s) (priority w)) @ [Kinds p])) s3"
    using s3(2) by (simp only: keep)
  show ?thesis
    using ex r3 by (rule that) (use room in \<open>simp_all add: s3 s2_def s1_def w_def unat_word_ariths\<close>)
qed

text \<open>What waking the processes \<open>ps\<close> of the list \<open>a\<close> leaves behind.\<close>

definition woken_post :: "pnode \<Rightarrow> nat list \<Rightarrow> pnode set \<Rightarrow> (pnode \<Rightarrow> pnode list) \<Rightarrow> pstate \<Rightarrow> (pnode \<Rightarrow> pnode list) \<Rightarrow> pstate \<Rightarrow> bool" where
  "woken_post a ps H L s L' s' \<longleftrightarrow> sched_rel H L' s' \<and> L' a = [] \<and>
     (\<forall>k. L' (PQueue (run_queue s) k) = L (PQueue (run_queue s) k) @
        map Kinds (filter (\<lambda>p. priority (woken (jiffs s) (proc_of s p)) = k) ps)) \<and>
     (\<forall>b. b \<noteq> a \<longrightarrow> (\<forall>k. b \<noteq> PQueue (run_queue s) k) \<longrightarrow> L' b = L b) \<and>
     (\<forall>p. proc_of s' p = (if p \<in> set ps then (woken (jiffs s) (proc_of s p))\<lparr>proc_queue := Some (run_queue s)\<rparr>
        else proc_of s p)) \<and>
     cpu_proc s' = cpu_proc s \<and> run_queue s' = run_queue s"

lemma wakeup_loop_rel:
  assumes "sched_rel H L s" "a \<in> H" "\<forall>q k. a \<noteq> PQueue q k" "L a = map Kinds ps"
    "unat (q_nprocs s (run_queue s)) + length ps < 2 ^ 32"
  shows "\<exists>prio' s' L'. wakeup_loop a (hd (map Kinds ps @ [a])) prio s = Some (prio', s') \<and> woken_post a ps H L s L' s' \<and>
    (\<forall>n. prio' < n \<longleftrightarrow> prio < n \<or> (\<exists>p\<in>set ps. priority (woken (jiffs s) (proc_of s p)) < n))"
  using assms
proof (induction ps arbitrary: L s prio)
  case Nil
  have "wakeup_loop a a prio s = Some (prio, s)"
    by (subst wakeup_loop.simps) simp
  then show ?case
    using Nil by (intro exI [of _ prio] exI [of _ s] exI [of _ L]) (simp add: woken_post_def)
next
  case (Cons p ps)
  note r = Cons.prems(1) and a = Cons.prems(2,3)
  have La: "L a = Kinds p # map Kinds ps" using Cons.prems(4) by simp
  define w where "w = woken (jiffs s) (proc_of s p)"
  define L1 where "L1 = L(a := map Kinds ps, PQueue (run_queue s) (priority w) := L (PQueue (run_queue s) (priority w)) @ [Kinds p])"
  have room: "unat (q_nprocs s (run_queue s)) + 1 < 2 ^ 32" using Cons.prems(5) by simp
  obtain s1 where s1: "wake_one p s = Some s1" "sched_rel H L1 s1"
    "proc_of s1 = (proc_of s)(p := w\<lparr>proc_queue := Some (run_queue s)\<rparr>)"
    "unat (q_nprocs s1 (run_queue s)) = unat (q_nprocs s (run_queue s)) + 1"
    "run_queue s1 = run_queue s" "jiffs s1 = jiffs s" "cpu_proc s1 = cpu_proc s"
    by (rule wake_one_rel [OF r a La room, folded w_def, folded L1_def]) (rule that; assumption)
  have "distinct (map Kinds (p # ps))"
    using kl.invar_distinct [OF sched_rel_lists [OF r] a(1)] Cons.prems(4) by simp
  then have np: "p \<notin> set ps" by auto
  have nq: "a \<noteq> PQueue q k" "PQueue q k \<noteq> a" for q k using a(2) by metis+
  have L1a: "L1 a = map Kinds ps" by (simp add: L1_def nq)
  define prio1 where "prio1 = (if priority w < prio then priority w else prio)"
  have room1: "unat (q_nprocs s1 (run_queue s1)) + length ps < 2 ^ 32"
    using Cons.prems(5) s1(4,5) by simp
  obtain prio' s' L' where ih: "wakeup_loop a (hd (map Kinds ps @ [a])) prio1 s1 = Some (prio', s')"
    "woken_post a ps H L1 s1 L' s'"
    "\<forall>n. prio' < n \<longleftrightarrow> prio1 < n \<or> (\<exists>p\<in>set ps. priority (woken (jiffs s1) (proc_of s1 p)) < n)"
    using Cons.IH [OF s1(2) a L1a room1, of prio1] by (elim exE conjE) (rule that; assumption)
  have eqw: "woken (jiffs s1) (proc_of s1 x) = woken (jiffs s) (proc_of s x)" if "x \<in> set ps" for x
    using that np by (auto simp: s1(3,6))
  have nx: "lnext (ph s) (Kinds p) = Some (hd (map Kinds ps @ [a]))"
    using kl.next_node [OF sched_rel_lists [OF r] a(1), of "[]" "Kinds p" "map Kinds ps"] La by (cases ps) simp_all
  have ka: "Kinds p \<noteq> a"
    using kl.invar_heads [OF sched_rel_lists [OF r] a(1)] La a(1) by (auto simp: nodes_of_def)
  have pw: "priority (proc_of s1 p) = priority w" by (simp add: s1(3))
  have ex: "wakeup_loop a (hd (map Kinds (p # ps) @ [a])) prio s = Some (prio', s')"
    using ih(1) ka nx s1(1) pw by (subst wakeup_loop.simps) (auto simp: prio1_def split: if_splits)
  have fw: "filter (\<lambda>x. priority (woken (jiffs s1) (proc_of s1 x)) = k) ps = filter (\<lambda>x. priority (woken (jiffs s) (proc_of s x)) = k) ps" for k
    by (rule filter_cong) (simp_all add: eqw)
  have post: "woken_post a (p # ps) H L s L' s'"
    using ih(2) np unfolding woken_post_def s1(5,7) fw
    by (auto simp: L1_def nq eqw w_def [symmetric]) (simp_all add: s1(3,6) w_def)
  have "prio' < n \<longleftrightarrow> prio < n \<or> (\<exists>x\<in>set (p # ps). priority (woken (jiffs s) (proc_of s x)) < n)" for n
    using ih(3) eqw by (auto simp: prio1_def w_def)
  with ex post show ?case by blast
qed

section \<open>Identifiers\<close>

definition pid_free :: "pstate \<Rightarrow> nat \<Rightarrow> bool" where
  "pid_free s i \<longleftrightarrow> bit (id_bitmap s (i div 32)) (i mod 32)"

lemma exp_and_iff32:
  fixes w :: u32
  assumes "k < 32"
  shows "2 ^ k AND w = 0 \<longleftrightarrow> \<not> bit w k"
proof -
  have b: "bit (2 ^ k AND w) j \<longleftrightarrow> j = k \<and> bit w k" for j
    using assms by (auto simp: bit_and_iff bit_exp_iff possible_bit_word)
  have "2 ^ k AND w = 0 \<longleftrightarrow> (\<forall>j. \<not> bit (2 ^ k AND w) j)"
    by (metis bit_0_eq bit_eqI bot_apply bot_bool_def)
  then show ?thesis
    unfolding b by simp
qed

lemma get_pid_from_found:
  assumes "pid_free s i" "j \<le> i" "i < j + n" "\<forall>l. j \<le> l \<and> l < i \<longrightarrow> \<not> pid_free s l"
  shows "get_pid_from n j s = (i, s\<lparr>id_bitmap := (id_bitmap s)(i div 32 := id_bitmap s (i div 32) AND NOT (2 ^ (i mod 32)))\<rparr>)"
  using assms
proof (induction n arbitrary: j)
  case (Suc n)
  show ?case
  proof (cases "j = i")
    case True
    then show ?thesis
      using Suc.prems(1) by (simp add: exp_and_iff32 pid_free_def fun_upd_def)
  next
    case False
    then have "\<not> pid_free s j" using Suc.prems(2,4) by simp
    then have "get_pid_from (Suc n) j s = get_pid_from n (Suc j) s"
      by (simp add: exp_and_iff32 pid_free_def)
    then show ?thesis
      using Suc False by simp
  qed
qed simp

lemma get_pid_from_none:
  assumes "\<forall>l. j \<le> l \<and> l < j + n \<longrightarrow> \<not> pid_free s l"
  shows "get_pid_from n j s = (0, s)"
  using assms
proof (induction n arbitrary: j)
  case (Suc n)
  then have "\<not> pid_free s j" by simp
  then show ?case
    using Suc by (simp add: exp_and_iff32 pid_free_def)
qed simp

lemma div_mod_32_eq_iff: "l div 32 = i div 32 \<Longrightarrow> l mod 32 = i mod 32 \<longleftrightarrow> l = (i :: nat)"
  by (metis div_mult_mod_eq)

lemma pid_free_taken:
  "pid_free (s\<lparr>id_bitmap := (id_bitmap s)(i div 32 := id_bitmap s (i div 32) AND NOT (2 ^ (i mod 32)))\<rparr>) l \<longleftrightarrow> pid_free s l \<and> l \<noteq> i"
proof (cases "l div 32 = i div 32")
  case True
  then show ?thesis
    using div_mod_32_eq_iff [OF True] by (auto simp: pid_free_def bit_and_iff bit_not_iff bit_exp_iff possible_bit_word)
next
  case False
  then show ?thesis by (auto simp: pid_free_def)
qed

section \<open>Properties\<close>

text \<open>The queues after the process that ran has been put back.\<close>

definition requeued :: "nat option \<Rightarrow> pstate \<Rightarrow> (pnode \<Rightarrow> pnode list) \<Rightarrow> (pnode \<Rightarrow> pnode list) \<Rightarrow> bool" where
  "requeued prev s L L1 \<longleftrightarrow> (\<forall>q<2. \<forall>k<40. L1 (PQueue q k) =
     (case prev of None \<Rightarrow> L (PQueue q k)
      | Some p \<Rightarrow> if status (proc_of s p) = RUNNABLE
          then removeAll (Kinds p) (L (PQueue q k)) @ (if PQueue q k = requeue_target s p then [Kinds p] else [])
          else L (PQueue q k)))"

lemma sched_requeue_any:
  assumes r: "sched_rel H L s" and room: "queues_room s"
    and ok: "\<forall>p. prev = Some p \<longrightarrow> status (proc_of s p) = RUNNABLE \<longrightarrow> prev_ok H L s p"
  obtains s1 L1 where "sched_requeue prev s = Some s1" "sched_rel H L1 s1" "requeued prev s L L1"
    "run_queue s1 = run_queue s" "exhausted_queue s1 = exhausted_queue s"
proof (cases "\<exists>p. prev = Some p \<and> status (proc_of s p) = RUNNABLE")
  case True
  then obtain p where p: "prev = Some p" "status (proc_of s p) = RUNNABLE" by blast
  then have "prev_ok H L s p" using ok by blast
  from sched_requeue_rel [OF r this room p(2)] obtain s1 L1 where "sched_requeue (Some p) s = Some s1" "sched_rel H L1 s1"
    "\<forall>q<2. \<forall>k<40. L1 (PQueue q k) = removeAll (Kinds p) (L (PQueue q k)) @
       (if PQueue q k = requeue_target s p then [Kinds p] else [])"
    "run_queue s1 = run_queue s" "exhausted_queue s1 = exhausted_queue s" by metis
  then show ?thesis
    using p by (intro that [of s1 L1]) (simp_all add: requeued_def)
next
  case False
  then have "sched_requeue prev s = Some s"
    by (cases prev) (auto simp: sched_requeue_def)
  moreover have "requeued prev s L L"
    using False by (cases prev) (auto simp: requeued_def)
  ultimately show ?thesis
    using r by (intro that [of s L]) simp_all
qed

text \<open>C10: a round of the scheduler.  The process that ran is put at the end of the list of its new priority, in
  the exhausted queue when its slice is used up; then the first process of the non-empty list with the least
  number is taken from the run queue, or from the exhausted queue when the run queue is empty, and the two
  change places.  The processor idles only when both queues are empty.  The invariant of bitmaps, counters and
  lists is kept, and the chosen process is on no list.\<close>

theorem scheduler_round_picks_best:
  assumes "sched_rel H L s" and "queues_room s"
    and "\<forall>p. prev = Some p \<longrightarrow> status (proc_of s p) = RUNNABLE \<longrightarrow> prev_ok H L s p"
  shows "\<exists>r s' L1. scheduler_round prev s = Some (r, s') \<and> requeued prev s L L1 \<and>
    (case r of None \<Rightarrow> (\<forall>q<2. \<forall>k<40. L1 (PQueue q k) = []) \<and> cpu_proc s' = None \<and> sched_rel H L1 s'
     | Some p \<Rightarrow> cpu_proc s' = Some p \<and> status (proc_of s' p) = RUNNING \<and> run_queue s' = active_queue L1 s \<and>
         (\<exists>k<40. \<exists>xs. L1 (PQueue (active_queue L1 s) k) = Kinds p # xs \<and> (\<forall>j<k. L1 (PQueue (active_queue L1 s) j) = []) \<and>
            sched_rel H (L1(PQueue (active_queue L1 s) k := xs)) s' \<and> unlinked H (L1(PQueue (active_queue L1 s) k := xs)) p))"
proof -
  obtain s1 L1 where s1: "sched_requeue prev s = Some s1" "sched_rel H L1 s1" "requeued prev s L L1"
    "run_queue s1 = run_queue s" "exhausted_queue s1 = exhausted_queue s"
    by (rule sched_requeue_any [OF assms])
  have aq: "active_queue L1 s1 = active_queue L1 s"
    unfolding active_queue_def s1(4,5) ..
  show ?thesis
  proof (rule scheduler_choice [OF s1(2), where prev = prev and ?s0.0 = s])
    fix s'
    assume "\<forall>q<2. \<forall>k<40. L1 (PQueue q k) = []"
      "sched_requeue prev s = Some s1 \<Longrightarrow> scheduler_round prev s = Some (None, s')"
      "sched_rel H L1 s'" "cpu_proc s' = None"
    then show ?thesis
      using s1 by (intro exI [of _ None] exI [of _ s'] exI [of _ L1]) simp
  next
    fix k p xs s'
    assume run: "k < 40" "L1 (PQueue (active_queue L1 s1) k) = Kinds p # xs" "\<forall>j<k. L1 (PQueue (active_queue L1 s1) j) = []"
      "sched_requeue prev s = Some s1 \<Longrightarrow> scheduler_round prev s = Some (Some p, s')"
      "sched_rel H (L1(PQueue (active_queue L1 s1) k := xs)) s'" "unlinked H (L1(PQueue (active_queue L1 s1) k := xs)) p"
      "cpu_proc s' = Some p" "status (proc_of s' p) = RUNNING" "run_queue s' = active_queue L1 s1"
    note run' = run [unfolded aq]
    show ?thesis
      by (intro exI [of _ "Some p"] exI [of _ s'] exI [of _ L1] conjI)
        (use run' s1(1,3) in \<open>simp_all\<close>, blast)
  qed
qed

text \<open>A small machine: one process on no list, all lists empty.\<close>

definition one_proc :: pstate where
  "one_proc = \<lparr>ph = \<lparr>lnext = Some, lprev = Some\<rparr>, proc_of = (\<lambda>_. zero_proc\<lparr>priority := 19, timeslice_left := 7\<rparr>),
     q_nprocs = (\<lambda>_. 0), q_bitmap = (\<lambda>_. 0), run_queue = 0, exhausted_queue = 1, cpu_proc = None, jiffs = 0,
     id_bitmap = (\<lambda>_. 0xFFFFFFFE), proc_table = (\<lambda>_. None), n_procs_alive = 0, rootproc = 0\<rparr>"

definition queue_heads :: "pnode set" where
  "queue_heads = {n. case n of PQueue q k \<Rightarrow> True | WaitQ _ \<Rightarrow> True | _ \<Rightarrow> False}"

lemma one_proc_rel: "sched_rel queue_heads (\<lambda>_. []) one_proc"
  by (auto simp: sched_rel_def lists_on_def ring_def one_proc_def queue_heads_def queue_ok_def)

lemma one_proc_unlinked: "unlinked queue_heads (\<lambda>_. []) p"
  by (simp add: unlinked_def queue_heads_def nodes_of_def)

theorem scheduler_round_picks_best_witness:
  "\<exists>s'. scheduler_round (Some 7) one_proc = Some (Some 7, s') \<and> status (proc_of s' 7) = RUNNING"
proof -
  have ok: "\<forall>p. Some 7 = Some p \<longrightarrow> status (proc_of one_proc p) = RUNNABLE \<longrightarrow> prev_ok queue_heads (\<lambda>_. []) one_proc p"
    by (auto simp: prev_ok_def one_proc_unlinked) (simp add: one_proc_def zero_proc_def)
  have room: "queues_room one_proc" by (simp add: queues_room_def one_proc_def)
  have tgt: "requeue_target one_proc 7 = PQueue 0 24"
    by (simp add: requeue_target_def one_proc_def zero_proc_def recalculate_priority_def current_bonus_def MAX_BONUS_def
        MAX_USER_PRIO_def MIN_USER_PRIO_def MAX_SLEEP_AVG_def DEFAULT_TIMESLICE_def Let_def)
  have st: "status (proc_of one_proc 7) = RUNNABLE" by (simp add: one_proc_def zero_proc_def)
  obtain r s' L1 where r: "scheduler_round (Some 7) one_proc = Some (r, s')" "requeued (Some 7) one_proc (\<lambda>_. []) L1"
    "case r of None \<Rightarrow> (\<forall>q<2. \<forall>k<40. L1 (PQueue q k) = []) \<and> cpu_proc s' = None \<and> sched_rel queue_heads L1 s'
     | Some p \<Rightarrow> cpu_proc s' = Some p \<and> status (proc_of s' p) = RUNNING \<and> run_queue s' = active_queue L1 one_proc \<and>
         (\<exists>k<40. \<exists>xs. L1 (PQueue (active_queue L1 one_proc) k) = Kinds p # xs \<and> (\<forall>j<k. L1 (PQueue (active_queue L1 one_proc) j) = []) \<and>
            sched_rel queue_heads (L1(PQueue (active_queue L1 one_proc) k := xs)) s' \<and> unlinked queue_heads (L1(PQueue (active_queue L1 one_proc) k := xs)) p)"
    using scheduler_round_picks_best [OF one_proc_rel room ok] by (elim exE conjE) (rule that; assumption)
  have L1: "L1 (PQueue q k) = (if PQueue q k = PQueue 0 24 then [Kinds 7] else [])" if "q < 2" "k < 40" for q k
    using r(2) that by (simp add: requeued_def st tgt)
  have aq: "active_queue L1 one_proc < 2"
    by (simp add: active_queue_def one_proc_def)
  have "r \<noteq> None"
  proof
    assume "r = None"
    then have "L1 (PQueue 0 24) = []" using r(3) by simp
    then show False using L1 [of 0 24] by simp
  qed
  then obtain p where p: "r = Some p" by blast
  then obtain k xs where k: "k < 40" "L1 (PQueue (active_queue L1 one_proc) k) = Kinds p # xs" "status (proc_of s' p) = RUNNING"
    using r(3) by auto
  then have "p = 7"
    using L1 [OF aq k(1)] by (simp split: if_splits)
  then show ?thesis
    using r(1) p k(3) by simp
qed

text \<open>C11: a wake-up empties the wait queue and returns: every process of it becomes runnable, with the priority and
  slice computed from the time it slept, and is appended to the list of that priority of the run queue, in the
  order of the wait queue; nothing else is moved, the invariant of the queues is kept, and the running process
  is marked for preemption exactly when one of the woken processes has a better priority.\<close>

theorem wakeup_wakes_all:
  assumes "sched_rel H L s" and "a \<in> H" "\<forall>q k. a \<noteq> PQueue q k" "L a = map Kinds ps"
    and "unat (q_nprocs s (run_queue s)) + length ps < 2 ^ 32"
    and "cpu_proc s = Some c" "c \<notin> set ps" "unlinked H L c" "priority (proc_of s c) \<le> 40"
  shows "\<exists>s1 L'. wakeup a s = Some (if \<exists>p\<in>set ps. priority (woken (jiffs s) (proc_of s p)) < priority (proc_of s c)
      then upd_proc c (\<lambda>r. r\<lparr>preempted := True\<rparr>) s1 else s1) \<and> woken_post a ps H L s L' s1"
proof -
  obtain prio' s1 L' where s1: "wakeup_loop a (hd (map Kinds ps @ [a])) N_PRIORITY s = Some (prio', s1)"
    "woken_post a ps H L s L' s1"
    "\<forall>n. prio' < n \<longleftrightarrow> N_PRIORITY < n \<or> (\<exists>p\<in>set ps. priority (woken (jiffs s) (proc_of s p)) < n)"
    using wakeup_loop_rel [OF assms(1-5), of N_PRIORITY] by (elim exE conjE) (rule that; assumption)
  have nx: "lnext (ph s) a = Some (hd (map Kinds ps @ [a]))"
    using kl.next_head [OF sched_rel_lists [OF assms(1)] assms(2)] assms(4) by (cases ps) simp_all
  have c: "cpu_proc s1 = Some c" "proc_of s1 c = proc_of s c"
    using s1(2) assms(6,7) by (simp_all add: woken_post_def)
  have "wakeup a s = Some (if prio' < priority (proc_of s c) then upd_proc c (\<lambda>r. r\<lparr>preempted := True\<rparr>) s1 else s1)"
    using nx s1(1) c by (simp add: wakeup_def)
  moreover have "prio' < priority (proc_of s c) \<longleftrightarrow> (\<exists>p\<in>set ps. priority (woken (jiffs s) (proc_of s p)) < priority (proc_of s c))"
    using s1(3) assms(9) by (simp add: N_PRIORITY_def)
  ultimately show ?thesis
    using s1(2) by (intro exI [of _ s1] exI [of _ L']) simp
qed

theorem wakeup_wakes_all_witness:
  "\<exists>s s'. lnext (ph s) (WaitQ 0) = Some (Kinds 5) \<and> status (proc_of s 5) = SLEEPING \<and>
     wakeup (WaitQ 0) s = Some s' \<and> lnext (ph s') (WaitQ 0) = Some (WaitQ 0) \<and> status (proc_of s' 5) = RUNNABLE"
proof -
  define L where "L = (\<lambda>_. [])(WaitQ 0 := [Kinds 5])"
  obtain h where h: "lists_on queue_heads L h"
    using kl.add_back [OF sched_rel_lists [OF one_proc_rel], of "WaitQ 0" "Kinds 5"] one_proc_unlinked [of 5]
    by (auto simp: L_def unlinked_def queue_heads_def)
  define s where "s = one_proc\<lparr>ph := h, cpu_proc := Some 7, proc_of := (\<lambda>_. zero_proc)(5 := zero_proc\<lparr>status := SLEEPING\<rparr>)\<rparr>"
  have w: "WaitQ 0 \<in> queue_heads" "\<forall>q k. WaitQ 0 \<noteq> PQueue q k" by (simp_all add: queue_heads_def)
  have r: "sched_rel queue_heads L s"
    using h by (auto simp: sched_rel_def queue_ok_def s_def L_def one_proc_def queue_heads_def)
  have La: "L (WaitQ 0) = map Kinds [5]" by (simp add: L_def)
  have u: "unlinked queue_heads L 7"
    by (auto simp: unlinked_def L_def queue_heads_def nodes_of_def)
  have rest: "unat (q_nprocs s (run_queue s)) + length [5 :: nat] < 2 ^ 32" "cpu_proc s = Some 7" "7 \<notin> set [5 :: nat]"
    "priority (proc_of s 7) \<le> 40"
    by (simp_all add: s_def one_proc_def zero_proc_def)
  obtain s1 L' where s1: "wakeup (WaitQ 0) s = Some (if \<exists>p\<in>set [5]. priority (woken (jiffs s) (proc_of s p)) < priority (proc_of s 7)
      then upd_proc 7 (\<lambda>r. r\<lparr>preempted := True\<rparr>) s1 else s1)" "woken_post (WaitQ 0) [5] queue_heads L s L' s1"
    using wakeup_wakes_all [OF r w La rest(1-3) u rest(4)] by blast
  have p: "sched_rel queue_heads L' s1" "L' (WaitQ 0) = []" "status (proc_of s1 5) = RUNNABLE"
    using s1(2) by (simp_all add: woken_post_def woken_def Let_def)
  have nx: "lnext (ph s1) (WaitQ 0) = Some (WaitQ 0)"
    using kl.next_head [OF sched_rel_lists [OF p(1)] w(1)] p(2) by simp
  have nx0: "lnext (ph s) (WaitQ 0) = Some (Kinds 5)"
    using kl.next_head [OF sched_rel_lists [OF r] w(1)] La by simp
  show ?thesis
    by (rule exI [of _ s], rule exI, intro conjI) (use nx nx0 p s1(1) in \<open>simp_all add: s_def zero_proc_def\<close>)
qed

text \<open>Priorities and slices in numbers.\<close>

lemma new_priority:
  assumes "unat (sleep_avg p) * 10 < 2 ^ 32"
  shows "int (recalculate_priority p) = max 0 (min 39 (int (priority p) + 5 - int (unat (sleep_avg p) div 100)))"
proof -
  have "int (unat (sleep_avg p) * 10) < int (2 ^ 32)" using assms by (simp only: of_nat_less_iff)
  then have "uint (sleep_avg p) * 10 < 2 ^ 32" by simp
  then have "uint (sleep_avg p * 10) = uint (sleep_avg p) * 10"
    by (simp add: uint_word_ariths)
  then have "current_bonus p = uint (sleep_avg p) div 100"
    by (simp add: current_bonus_def MAX_BONUS_def MAX_SLEEP_AVG_def MAX_USER_PRIO_def DEFAULT_TIMESLICE_def)
  also have "\<dots> = int (unat (sleep_avg p) div 100)" by (simp add: zdiv_int)
  finally have b: "current_bonus p = int (unat (sleep_avg p) div 100)" .
  show ?thesis unfolding recalculate_priority_def b Let_def MAX_USER_PRIO_def MIN_USER_PRIO_def MAX_BONUS_def by auto
qed

definition half_slice :: "nat \<Rightarrow> nat" where
  "half_slice k = (if k < 20 then 10 * (40 - k) else 5 * (40 - k) div 2)"

lemma turn_slice: "unat (timeslice (new_turn p)) = half_slice (priority (new_turn p))"
proof -
  define k where "k = recalculate_priority p"
  have k: "k < 40" unfolding k_def by (rule recalculate_priority_less)
  define v where "v = (if k < 20 then 20 * (40 - int k) else 5 * (40 - int k))"
  have "task_timeslice (p\<lparr>priority := k\<rparr>) = word_of_int v"
    using k by (simp add: task_timeslice_def v_def SCALE_PRIO_def MAX_USER_PRIO_def DEFAULT_TIMESLICE_def MIN_TIMESLICE_def)
  moreover have "0 \<le> v" "v \<le> 800" using k by (auto simp: v_def)
  moreover from this have "take_bit 32 v = v" by (intro take_bit_int_eq_self) simp_all
  ultimately have "unat (task_timeslice (p\<lparr>priority := k\<rparr>)) = nat v"
    by (simp add: unat_eq_nat_uint uint_word_of_int_eq)
  moreover have "nat v div 2 = half_slice k" using k by (auto simp: v_def half_slice_def nat_mult_distrib nat_diff_distrib')
  ultimately show ?thesis by (simp add: new_turn_def k_def [symmetric] Let_def unat_div)
qed

lemma slice_mono: "j \<le> k \<Longrightarrow> k < 40 \<Longrightarrow> half_slice k \<le> half_slice j"
  unfolding half_slice_def by (auto intro!: div_le_mono)

lemma slice_strict: "j < k \<Longrightarrow> k < 40 \<Longrightarrow> half_slice k < half_slice j"
proof -
  assume "j < k" "k < 40"
  moreover have "5 * m div 2 < 5 * n div 2" if "m < n" for m n :: nat
  proof -
    have "5 * m div 2 + 2 \<le> (5 * m + 4) div 2" "(5 * m + 4) div 2 \<le> 5 * n div 2" using that by (simp, intro div_le_mono) simp
    then show ?thesis by linarith
  qed
  ultimately show ?thesis unfolding half_slice_def by (auto intro: less_le_trans)
qed

lemma slice_bounds: "k < 40 \<Longrightarrow> 2 \<le> half_slice k \<and> half_slice k \<le> 400"
  using slice_mono [of k 39] slice_mono [of 0 k] by (simp add: half_slice_def)

text \<open>C12: sleep is rewarded.  Of two processes of the same priority the one with the larger sleep average gets at least as
  good a priority (a smaller number) and at least as long a slice, and both are strictly better when its average is
  larger by 100 ticks, as long as the other one has not reached an end of the scale.  An average of 500 to 599 ticks keeps the priority; a sleep average is
  never cut to its maximum of 1000 ticks, and enough sleep gives the best priority 0.  Priorities stay indices of the run
  queues and slices between 2 and 400 ticks.  The averages are those for which the product with \<^verbatim>\<open>MAX_BONUS\<close> does not wrap.\<close>

theorem sleepers_get_better_turns:
  assumes "priority p < N_PRIORITY" "priority q = priority p" "sleep_avg p \<le> sleep_avg q" "unat (sleep_avg q) * 10 < 2 ^ 32"
  shows "priority (new_turn q) \<le> priority (new_turn p) \<and> timeslice (new_turn p) \<le> timeslice (new_turn q) \<and>
    (unat (sleep_avg p) + 100 \<le> unat (sleep_avg q) \<and> 0 < priority (new_turn p) \<and> priority (new_turn p) < N_PRIORITY - 1 \<longrightarrow>
       priority (new_turn q) < priority (new_turn p) \<and> timeslice (new_turn p) < timeslice (new_turn q)) \<and>
    (500 \<le> unat (sleep_avg p) \<and> unat (sleep_avg p) < 600 \<longrightarrow> priority (new_turn p) = priority p) \<and>
    (100 * (priority p + 5) \<le> unat (sleep_avg p) \<longrightarrow> priority (new_turn p) = 0) \<and>
    priority (new_turn p) < N_PRIORITY \<and> 2 \<le> timeslice (new_turn p) \<and> timeslice (new_turn p) \<le> 400"
proof -
  define a b where "a = unat (sleep_avg p)" and "b = unat (sleep_avg q)"
  have ab: "a \<le> b" "a * 10 < 2 ^ 32" "b * 10 < 2 ^ 32" using assms(3,4) by (simp_all add: a_def b_def word_le_nat_alt)
  have pr: "int (priority (new_turn p)) = max 0 (min 39 (int (priority p) + 5 - int (a div 100)))"
    "int (priority (new_turn q)) = max 0 (min 39 (int (priority p) + 5 - int (b div 100)))"
    using new_priority [of p] new_priority [of q] ab assms(2) by (simp_all add: a_def b_def)
  have k: "priority p < 40" "priority (new_turn p) < 40" "priority (new_turn q) < 40"
    using assms(1) recalculate_priority_less by (simp_all add: N_PRIORITY_def)
  note sl = turn_slice [of p] turn_slice [of q]
  have le: "priority (new_turn q) \<le> priority (new_turn p)" using pr div_le_mono [OF ab(1), of 100] by linarith
  have eq: "priority (new_turn p) = priority p" if "500 \<le> a" "a < 600"
  proof -
    have "a div 100 = 5" using that by (intro div_nat_eqI) simp_all
    then show ?thesis using pr(1) k(1) by simp
  qed
  have zero: "priority (new_turn p) = 0" if "100 * (priority p + 5) \<le> a"
  proof -
    have "priority p + 5 \<le> a div 100" using div_le_mono [OF that, of 100] by simp
    then show ?thesis using pr(1) by simp
  qed
  have strict: "priority (new_turn q) < priority (new_turn p)" if "a + 100 \<le> b" "0 < priority (new_turn p)" "priority (new_turn p) < 39"
  proof -
    have "a div 100 + 1 \<le> b div 100" using div_le_mono [OF that(1), of 100] by simp
    then show ?thesis using pr that(2,3) by linarith
  qed
  have n: "N_PRIORITY - 1 = 39" "N_PRIORITY = 40" by (simp_all add: N_PRIORITY_def)
  show ?thesis
    unfolding a_def [symmetric] b_def [symmetric] n word_le_nat_alt word_less_nat_alt sl
    using le eq zero strict k slice_mono [OF le k(2)] slice_strict [OF _ k(2)] slice_bounds [OF k(2)] by simp
qed

theorem sleepers_get_better_turns_witness:
  "timeslice (new_turn (zero_proc\<lparr>priority := 19\<rparr>)) < timeslice (new_turn (zero_proc\<lparr>priority := 19, sleep_avg := 300\<rparr>))"
  using sleepers_get_better_turns [of "zero_proc\<lparr>priority := 19\<rparr>" "zero_proc\<lparr>priority := 19, sleep_avg := 300\<rparr>"]
  by (simp add: zero_proc_def N_PRIORITY_def recalculate_priority_def current_bonus_def MAX_BONUS_def MAX_SLEEP_AVG_def MAX_USER_PRIO_def
      MIN_USER_PRIO_def DEFAULT_TIMESLICE_def Let_def)

text \<open>C13: process identifiers.  \<^verbatim>\<open>get_pid\<close> hands out the least free identifier and marks exactly it as taken; but
  \<^verbatim>\<open>clear_pid\<close> releases the bit at \<open>32 * (i div 4) + i mod 4\<close> and writes outside the bitmap from identifier 128
  on, so an identifier from 4 on that has been taken stays taken after it was cleared.\<close>

theorem pid_lifecycle:
  assumes "pid_free s i" "i < NPROC" "\<forall>j<i. \<not> pid_free s j"
  shows "\<exists>s1. get_pid s = (i, s1) \<and> (\<forall>j. pid_free s1 j \<longleftrightarrow> pid_free s j \<and> j \<noteq> i) \<and>
    (128 \<le> i \<longrightarrow> clear_pid i s1 = None) \<and>
    (i < 128 \<longrightarrow> (\<exists>s2. clear_pid i s1 = Some s2 \<and> (\<forall>j. pid_free s2 j \<longleftrightarrow> pid_free s1 j \<or> j = 32 * (i div 4) + i mod 4))) \<and>
    (4 \<le> i \<and> i < 128 \<longrightarrow> (\<exists>s2. clear_pid i s1 = Some s2 \<and> \<not> pid_free s2 i))"
proof -
  define s1 where "s1 = s\<lparr>id_bitmap := (id_bitmap s)(i div 32 := id_bitmap s (i div 32) AND NOT (2 ^ (i mod 32)))\<rparr>"
  have g: "get_pid s = (i, s1)"
    using get_pid_from_found [OF assms(1), of 0 "32 * 32"] assms(2,3) by (simp add: get_pid_def NPROC_def s1_def)
  have f: "pid_free s1 j \<longleftrightarrow> pid_free s j \<and> j \<noteq> i" for j
    unfolding s1_def by (rule pid_free_taken)
  define s2 where "s2 = s1\<lparr>id_bitmap := (id_bitmap s1)(i div 4 := id_bitmap s1 (i div 4) OR 2 ^ (i mod 4))\<rparr>"
  have c: "clear_pid i s1 = Some s2" if "i < 128"
    using that by (simp add: clear_pid_def s2_def Let_def)
  have f2: "pid_free s2 j \<longleftrightarrow> pid_free s1 j \<or> j = 32 * (i div 4) + i mod 4" for j
  proof -
    have i4: "i mod 4 < 32" by (rule order.strict_trans [of _ 4]) simp_all
    have eq: "j = 32 * (i div 4) + i mod 4 \<longleftrightarrow> j div 32 = i div 4 \<and> j mod 32 = i mod 4"
      using i4 div_mult_mod_eq [of j 32] by (metis div_mult_self4 div_less add_0_right mod_mult_self4 mod_less mult.commute zero_neq_numeral)
    show ?thesis
    proof (cases "j div 32 = i div 4")
      case True
      have "pid_free s2 j \<longleftrightarrow> pid_free s1 j \<or> j mod 32 = i mod 4"
        using True i4 by (auto simp: s2_def pid_free_def bit_or_iff bit_exp_iff possible_bit_word)
      then show ?thesis using True eq by simp
    next
      case False
      then have "pid_free s2 j = pid_free s1 j" by (simp add: s2_def pid_free_def)
      then show ?thesis using False eq by simp
    qed
  qed
  have ne: "i \<noteq> 32 * (i div 4) + i mod 4" if "4 \<le> i"
  proof -
    have "4 * (i div 4) + i mod 4 = i" by simp
    moreover have "0 < i div 4" using that by (simp add: div_greater_zero_iff)
    ultimately show ?thesis by linarith
  qed
  have oob: "clear_pid i s1 = None" if "128 \<le> i"
    using that by (simp add: clear_pid_def Let_def)
  have stays: "\<not> pid_free s2 i" if "4 \<le> i"
    using f2 [of i] f [of i] ne [OF that] by simp
  show ?thesis
    using g f c f2 oob stays by blast
qed

theorem pid_lifecycle_witness:
  "\<exists>s1. get_pid (one_proc\<lparr>id_bitmap := (\<lambda>_. 16)\<rparr>) = (4, s1) \<and> (\<exists>s2. clear_pid 4 s1 = Some s2 \<and> \<not> pid_free s2 4)"
proof -
  let ?s = "one_proc\<lparr>id_bitmap := (\<lambda>_. 16)\<rparr>"
  have b: "bit (16 :: u32) n \<longleftrightarrow> n = 4" for n
    using bit_exp_iff [where 'a = u32, of 4 n] by (auto simp: possible_bit_word)
  have f: "pid_free ?s j \<longleftrightarrow> j mod 32 = 4" for j
    unfolding pid_free_def using b [of "j mod 32"] by simp
  have "pid_free ?s 4" "\<forall>j<4. \<not> pid_free ?s j" unfolding f by simp_all
  from pid_lifecycle [OF this(1) _ this(2)] show ?thesis
    by (auto simp: NPROC_def)
qed

text \<open>Growing the heap with \<^verbatim>\<open>sbrk\<close> returns the new end of the heap but adds that address, not the size, to the
  heap pointer: the pointer is not the value returned whenever the heap does not start at address 0.\<close>

theorem sbrk_grow_corrupts_heap_ptr:
  assumes "0 < n" "heap_ptr (proc_of s p) + ROUNDUP (word_of_int n) P_PGSIZE \<le> HEAPTOP"
    "heap_ptr (proc_of s p) \<le> heap_ptr (proc_of s p) + ROUNDUP (word_of_int n) P_PGSIZE" "heap_ptr (proc_of s p) \<noteq> 0"
  shows "\<exists>a s'. sbrk p n s = Some (a, [], s') \<and> a = heap_ptr (proc_of s p) + ROUNDUP (word_of_int n) P_PGSIZE \<and>
    heap_ptr (proc_of s' p) = heap_ptr (proc_of s p) + a \<and> heap_ptr (proc_of s' p) \<noteq> a"
  using assms by (simp add: sbrk_def Let_def not_less [symmetric])

theorem sbrk_grow_corrupts_heap_ptr_witness:
  "\<exists>s'. sbrk 7 4096 (upd_proc 7 (\<lambda>r. r\<lparr>heap_ptr := 0x08049000\<rparr>) one_proc) = Some (0x0804A000, [], s') \<and>
     heap_ptr (proc_of s' 7) = 0x10093000"
proof -
  have "ROUNDUP (word_of_int 4096) P_PGSIZE = 4096" by (simp add: ROUNDUP_def ROUNDDOWN_def P_PGSIZE_def)
  then show ?thesis
    using sbrk_grow_corrupts_heap_ptr [of 4096 "upd_proc 7 (\<lambda>r. r\<lparr>heap_ptr := 0x08049000\<rparr>) one_proc" 7]
    by (auto simp: HEAPTOP_def)
qed

end
