(* ===== verification/Ide.thy ===== *)
theory Ide
  imports Prelude "HOL-Library.Multiset"
begin

text \<open>
  The disk driver (kern/ide.c) and the buffer headers it works on (include/buffer.h).

  A buffer is a number; the request queue is the list of the buffers on it, first element first.  There are two drives, the
  master 0 and the slave 1, and \<open>platter d n\<close> is block \<open>n\<close> of drive \<open>d\<close>; the controller executes one command at a
  time: \<open>drive\<close> is the command that \<^verbatim>\<open>ide_start\<close> has issued and that has not been answered by an interrupt.  The three bits of \<^verbatim>\<open>b->flag\<close> are three booleans.  A call of
  \<^verbatim>\<open>wakeup\<close> is recorded in \<open>woken\<close>; \<^verbatim>\<open>sleep\<close> in the waiting loops ends the part of a call that is modelled
  here, the caller continues when its buffer is valid.
\<close>

section \<open>Data\<close>

type_synonym block = "nat \<Rightarrow> u8"

definition BLKSIZE :: nat where "BLKSIZE = 4096"
definition FSSIZE :: nat where "FSSIZE = 5000"

record buf =
  bdata :: block
  b_busy :: bool
  b_valid :: bool
  b_dirty :: bool
  bdev :: nat
  blockno :: nat
  dozen_ptr :: "nat option"

text \<open>A command of the controller carries the drive, the block and, for a write, the data.\<close>

datatype command = DRead nat nat | DWrite nat nat block

datatype waiters = ForBuf nat | ForDozen nat

record ide =
  ibufs :: "nat \<Rightarrow> buf"
  n_requests :: nat
  ide_queue :: "nat list"
  drive :: "command option"
  platter :: "nat \<Rightarrow> nat \<Rightarrow> block"
  slave_disk_existed :: bool
  dozen_n_bufs :: "nat \<Rightarrow> nat"
  dozen_n_request :: "nat \<Rightarrow> int"
  woken_up :: "waiters list"

definition upd_ibuf :: "nat \<Rightarrow> (buf \<Rightarrow> buf) \<Rightarrow> ide \<Rightarrow> ide" where
  "upd_ibuf b f s = s\<lparr>ibufs := (ibufs s)(b := f (ibufs s b))\<rparr>"

section \<open>The request queue\<close>

text \<open>The forward scan: behind the first element, after all elements that are not larger.\<close>

fun insert_forward :: "(nat \<Rightarrow> nat) \<Rightarrow> nat \<Rightarrow> nat list \<Rightarrow> nat list" where
  "insert_forward no b [] = [b]"
| "insert_forward no b (fb # q) = (if no b < no fb then b # fb # q else fb # insert_forward no b q)"

text \<open>The backward scan, on the reversed queue: before the last element that is not smaller; when there is none
  the new element goes behind the element seen last, the first of the queue.\<close>

fun insert_backward :: "(nat \<Rightarrow> nat) \<Rightarrow> nat \<Rightarrow> nat list \<Rightarrow> nat list option" where
  "insert_backward no b [] = None"
| "insert_backward no b (fb # r) =
     (if no b \<le> no fb then Some (fb # b # r) else map_option ((#) fb) (insert_backward no b r))"

definition update_idequeue :: "nat \<Rightarrow> ide \<Rightarrow> ide" where
  "update_idequeue b s =
     (let no = \<lambda>x. blockno (ibufs s x);
          q = (case ide_queue s of [] \<Rightarrow> [b]
               | tb # q \<Rightarrow>
                   if no tb < no b then tb # insert_forward no b q
                   else if no b < no tb then
                     (case insert_backward no b (rev (tb # q)) of Some r \<Rightarrow> rev r | None \<Rightarrow> tb # b # q)
                   else tb # b # q)
      in s\<lparr>n_requests := n_requests s + 1, ide_queue := q\<rparr>)"

section \<open>Commands and interrupts\<close>

text \<open>The drive that the last bit of the device number selects.  \<^verbatim>\<open>ide_start\<close> does nothing for a block behind the end of
  the file system.\<close>

definition drive_no :: "buf \<Rightarrow> nat" where
  "drive_no r = bdev r mod 2"

definition ide_start :: "nat \<Rightarrow> ide \<Rightarrow> ide" where
  "ide_start b s =
     (let r = ibufs s b in
      if FSSIZE \<le> blockno r then s
      else s\<lparr>drive := Some (if b_dirty r then DWrite (drive_no r) (blockno r) (bdata r) else DRead (drive_no r) (blockno r))\<rparr>)"

text \<open>\<^verbatim>\<open>ide_intr\<close>, when the drive has finished its command; \<open>ok\<close> is the absence of an error in the status
  that \<^verbatim>\<open>ide_wait(1)\<close> reads.  The data that \<^verbatim>\<open>insl\<close> transfers are those of the block the drive has read.\<close>

definition drive_finish :: "ide \<Rightarrow> ide" where
  "drive_finish s = (case drive s of Some (DWrite dr n d) \<Rightarrow> s\<lparr>platter := (platter s)(dr := (platter s dr)(n := d))\<rparr> | _ \<Rightarrow> s)"

definition drive_data :: "ide \<Rightarrow> block \<Rightarrow> block" where
  "drive_data s old = (case drive s of Some (DRead dr n) \<Rightarrow> platter s dr n | _ \<Rightarrow> old)"

definition ide_complete :: "bool \<Rightarrow> nat \<Rightarrow> ide \<Rightarrow> ide" where
  "ide_complete ok b s =
     (let s = (if \<not> b_dirty (ibufs s b) \<and> ok then upd_ibuf b (\<lambda>r. r\<lparr>bdata := drive_data s (bdata r)\<rparr>) s else s);
          s = upd_ibuf b (\<lambda>r. r\<lparr>b_valid := True, b_dirty := False\<rparr>) s
      in case dozen_ptr (ibufs s b) of
           Some d \<Rightarrow>
             let s = upd_ibuf b (\<lambda>r. r\<lparr>dozen_ptr := None\<rparr>) s;
                 s = s\<lparr>dozen_n_request := (dozen_n_request s)(d := dozen_n_request s d - 1)\<rparr>
             in if dozen_n_request s d = 0 then s\<lparr>woken_up := woken_up s @ [ForDozen d]\<rparr> else s
         | None \<Rightarrow> s\<lparr>woken_up := woken_up s @ [ForBuf b]\<rparr>)"

definition ide_intr :: "bool \<Rightarrow> ide \<Rightarrow> ide option" where
  "ide_intr ok s =
     (let s = drive_finish s in
      if n_requests s = 0 then Some s
      else case ide_queue s of [] \<Rightarrow> None
        | b # q \<Rightarrow>
            let s = ide_complete ok b (s\<lparr>ide_queue := q, n_requests := n_requests s - 1\<rparr>);
                s = s\<lparr>drive := None\<rparr>
            in if n_requests s \<noteq> 0
               then (case ide_queue s of [] \<Rightarrow> None | b # _ \<Rightarrow> Some (ide_start b s))
               else Some s)"

section \<open>Requests\<close>

text \<open>\<^verbatim>\<open>ide_read_write\<close> up to its waiting loop: the return value when it returns at once, nothing when it waits.\<close>

definition ide_read_write :: "nat \<Rightarrow> ide \<Rightarrow> int option \<times> ide" where
  "ide_read_write b s =
     (if b_valid (ibufs s b) \<and> \<not> b_dirty (ibufs s b) then (Some 0, s)
      else if bdev (ibufs s b) \<noteq> 0 \<and> \<not> slave_disk_existed s then (Some (- 1), s)
      else let s = update_idequeue b s in (None, if n_requests s = 1 then ide_start b s else s))"

text \<open>\<^verbatim>\<open>ide_write_dozens\<close> for the buffers \<open>bs\<close> of the group \<open>d\<close>.\<close>

definition ide_write_dozens :: "nat \<Rightarrow> nat list \<Rightarrow> ide \<Rightarrow> int option \<times> ide" where
  "ide_write_dozens d bs s =
     (case bs of [] \<Rightarrow> (Some (- 1), s)
      | b # _ \<Rightarrow>
          if bdev (ibufs s b) \<noteq> 0 \<and> \<not> slave_disk_existed s then (Some (- 1), s)
          else let s = fold update_idequeue bs s;
                   s = (if n_requests s = length bs
                        then (case ide_queue s of [] \<Rightarrow> s | tb # _ \<Rightarrow> ide_start tb s) else s)
               in (if dozen_n_request s d \<le> 0 then Some 0 else None, s))"

end
