(* ===== verification/Ide_Props.thy ===== *)
theory Ide_Props
  imports Ide
begin

text \<open>
  The disk driver serves the request at the head of its queue: the invariant \<open>ide_inv\<close> says that the drive is
  executing that request.  It is kept by interrupts, and by new requests whose block is not below the
  active one.
\<close>

section \<open>The queue\<close>

lemma mset_insert_forward: "mset (insert_forward no b q) = add_mset b (mset q)"
  by (induction q) auto

lemma mset_insert_backward: "insert_backward no b q = Some r \<Longrightarrow> mset r = add_mset b (mset q)"
  by (induction q arbitrary: r) (auto split: if_splits)

lemma insert_backward_found: "\<exists>x\<in>set q. no b \<le> no x \<Longrightarrow> insert_backward no b q \<noteq> None"
  by (induction q) auto

lemma update_idequeue_frame [simp]:
  "ibufs (update_idequeue b s) = ibufs s" "drive (update_idequeue b s) = drive s" "platter (update_idequeue b s) = platter s"
  "slave_disk_existed (update_idequeue b s) = slave_disk_existed s" "n_requests (update_idequeue b s) = n_requests s + 1"
  "dozen_n_request (update_idequeue b s) = dozen_n_request s" "woken_up (update_idequeue b s) = woken_up s"
  by (simp_all add: update_idequeue_def Let_def)

lemma mset_update_idequeue: "mset (ide_queue (update_idequeue b s)) = add_mset b (mset (ide_queue s))"
proof (cases "ide_queue s")
  case (Cons t q)
  show ?thesis
  proof (cases "insert_backward (\<lambda>x. blockno (ibufs s x)) b (rev (t # q))")
    case None
    then show ?thesis by (simp add: update_idequeue_def Let_def Cons mset_insert_forward)
  next
    case (Some r)
    then have "mset r = add_mset b (mset (rev (t # q)))" by (rule mset_insert_backward)
    then show ?thesis using Some by (simp add: update_idequeue_def Let_def Cons mset_insert_forward)
  qed
qed (simp add: update_idequeue_def)

lemma set_update_idequeue: "set (ide_queue (update_idequeue b s)) = insert b (set (ide_queue s))"
  using mset_update_idequeue by (metis set_mset_add_mset_insert set_mset_mset)

lemma length_update_idequeue: "length (ide_queue (update_idequeue b s)) = length (ide_queue s) + 1"
  using mset_update_idequeue [of b s] by (metis Suc_eq_plus1 size_add_mset size_mset)

lemma distinct_update_idequeue:
  "distinct (ide_queue s) \<Longrightarrow> b \<notin> set (ide_queue s) \<Longrightarrow> distinct (ide_queue (update_idequeue b s))"
  using set_update_idequeue [of b s] length_update_idequeue [of b s] distinct_card [of "ide_queue s"]
  by (intro card_distinct) simp

lemma update_idequeue_head:
  assumes "ide_queue s = t # q" "blockno (ibufs s t) \<le> blockno (ibufs s b)"
  shows "\<exists>q'. ide_queue (update_idequeue b s) = t # q'"
  using assms by (auto simp: update_idequeue_def Let_def)

section \<open>Serving requests\<close>

definition cmd_of :: "buf \<Rightarrow> command" where
  "cmd_of r = (if b_dirty r then DWrite (drive_no r) (blockno r) (bdata r) else DRead (drive_no r) (blockno r))"

definition ide_inv :: "ide \<Rightarrow> bool" where
  "ide_inv s \<longleftrightarrow> n_requests s = length (ide_queue s) \<and> distinct (ide_queue s) \<and>
     (\<forall>b\<in>set (ide_queue s). blockno (ibufs s b) < FSSIZE) \<and>
     drive s = (case ide_queue s of [] \<Rightarrow> None | b # _ \<Rightarrow> Some (cmd_of (ibufs s b)))"

lemma ide_start_inv_drive: "blockno (ibufs s b) < FSSIZE \<Longrightarrow> ide_start b s = s\<lparr>drive := Some (cmd_of (ibufs s b))\<rparr>"
  by (simp add: ide_start_def cmd_of_def Let_def)

text \<open>The effect of serving the buffer \<open>b\<close>.\<close>

definition serve_buf :: "(nat \<Rightarrow> nat \<Rightarrow> block) \<Rightarrow> buf \<Rightarrow> buf" where
  "serve_buf pl r = r\<lparr>bdata := (if b_dirty r then bdata r else pl (drive_no r) (blockno r)), b_valid := True, b_dirty := False, dozen_ptr := None\<rparr>"

definition serve_platter :: "buf \<Rightarrow> (nat \<Rightarrow> nat \<Rightarrow> block) \<Rightarrow> nat \<Rightarrow> nat \<Rightarrow> block" where
  "serve_platter r pl = (if b_dirty r then pl(drive_no r := (pl (drive_no r))(blockno r := bdata r)) else pl)"

text \<open>The requests of the groups that are left, and who is woken.\<close>

definition serve_count :: "nat option \<Rightarrow> (nat \<Rightarrow> int) \<Rightarrow> nat \<Rightarrow> int" where
  "serve_count dz nr = (case dz of None \<Rightarrow> nr | Some d \<Rightarrow> nr(d := nr d - 1))"

definition serve_wakes :: "nat \<Rightarrow> nat option \<Rightarrow> (nat \<Rightarrow> int) \<Rightarrow> waiters list" where
  "serve_wakes b dz nr = (case dz of None \<Rightarrow> [ForBuf b] | Some d \<Rightarrow> if nr d = 1 then [ForDozen d] else [])"

definition served :: "nat \<Rightarrow> ide \<Rightarrow> ide \<Rightarrow> bool" where
  "served b s s' \<longleftrightarrow> ibufs s' = (ibufs s)(b := serve_buf (platter s) (ibufs s b)) \<and>
     platter s' = serve_platter (ibufs s b) (platter s) \<and>
     dozen_n_request s' = serve_count (dozen_ptr (ibufs s b)) (dozen_n_request s) \<and>
     woken_up s' = woken_up s @ serve_wakes b (dozen_ptr (ibufs s b)) (dozen_n_request s)"

lemma ide_complete_fields:
  "ide_queue (ide_complete ok b s) = ide_queue s" "n_requests (ide_complete ok b s) = n_requests s"
  "drive (ide_complete ok b s) = drive s" "platter (ide_complete ok b s) = platter s"
  "ibufs (ide_complete ok b s) = (ibufs s)(b := (ibufs s b)\<lparr>
     bdata := (if \<not> b_dirty (ibufs s b) \<and> ok then drive_data s (bdata (ibufs s b)) else bdata (ibufs s b)),
     b_valid := True, b_dirty := False, dozen_ptr := None\<rparr>)"
  by (cases "ibufs s b"; simp add: ide_complete_def upd_ibuf_def Let_def split: option.split)+

lemma ide_complete_served:
  assumes "drive s = Some (cmd_of (ibufs s b))"
  defines "s1 \<equiv> ide_complete True b (drive_finish s)"
  shows "ibufs s1 = (ibufs s)(b := serve_buf (platter s) (ibufs s b))" "platter s1 = serve_platter (ibufs s b) (platter s)"
    "ide_queue s1 = ide_queue s" "n_requests s1 = n_requests s" "drive s1 = drive s"
    "dozen_n_request s1 = serve_count (dozen_ptr (ibufs s b)) (dozen_n_request s)"
    "woken_up s1 = woken_up s @ serve_wakes b (dozen_ptr (ibufs s b)) (dozen_n_request s)"
proof -
  obtain d0 bu v di dv no dz where b: "ibufs s b = \<lparr>bdata = d0, b_busy = bu, b_valid = v, b_dirty = di, bdev = dv, blockno = no, dozen_ptr = dz\<rparr>"
    by (cases "ibufs s b") simp
  note defs = s1_def ide_complete_def drive_finish_def drive_data_def cmd_of_def serve_buf_def serve_platter_def upd_ibuf_def Let_def
  show "ibufs s1 = (ibufs s)(b := serve_buf (platter s) (ibufs s b))" "platter s1 = serve_platter (ibufs s b) (platter s)"
    "ide_queue s1 = ide_queue s" "n_requests s1 = n_requests s" "drive s1 = drive s"
    using assms(1) b by (cases di; cases dz; simp add: defs)+
  show "dozen_n_request s1 = serve_count (dozen_ptr (ibufs s b)) (dozen_n_request s)"
    using assms(1) b by (cases di; cases dz; simp add: defs serve_count_def)
  show "woken_up s1 = woken_up s @ serve_wakes b (dozen_ptr (ibufs s b)) (dozen_n_request s)"
    using assms(1) b by (cases di; cases dz; simp add: defs serve_wakes_def)
qed

lemma ide_intr_serves:
  assumes inv: "ide_inv s" and q: "ide_queue s = b # q"
  obtains s' where "ide_intr True s = Some s'" "ide_inv s'" "ide_queue s' = q" "served b s s'"
proof -
  define s0 where "s0 = s\<lparr>ide_queue := q, n_requests := n_requests s - 1\<rparr>"
  have dr: "drive s0 = Some (cmd_of (ibufs s0 b))" and n: "n_requests s = length (b # q)" and d: "distinct (b # q)"
    and r: "\<forall>x\<in>set (b # q). blockno (ibufs s x) < FSSIZE"
    using inv q by (simp_all add: ide_inv_def s0_def)
  have df: "(drive_finish s)\<lparr>ide_queue := q, n_requests := n_requests (drive_finish s) - 1\<rparr> = drive_finish s0"
    by (simp add: s0_def drive_finish_def split: option.split command.split)
  have dq: "ide_queue (drive_finish s) = b # q" "n_requests (drive_finish s) = n_requests s"
    by (simp_all add: drive_finish_def q split: option.split command.split)
  define s1 where "s1 = ide_complete True b (drive_finish s0)"
  note c = ide_complete_served [OF dr, folded s1_def]
  define s2 where "s2 = s1\<lparr>drive := None\<rparr>"
  have ib: "ibufs s2 = (ibufs s)(b := serve_buf (platter s) (ibufs s b))" using c(1) by (simp add: s2_def s0_def)
  have s0_same: "dozen_n_request s0 = dozen_n_request s" "ibufs s0 = ibufs s" "platter s0 = platter s" "woken_up s0 = woken_up s"
    by (simp_all add: s0_def)
  have sv: "served b s s2"
    using c unfolding served_def s2_def s0_same by simp
  have step: "ide_intr True s = (if n_requests s2 \<noteq> 0 then (case ide_queue s2 of [] \<Rightarrow> None | b # _ \<Rightarrow> Some (ide_start b s2)) else Some s2)"
    by (simp only: ide_intr_def Let_def dq(1) list.case df s1_def [symmetric] s2_def [symmetric]) (simp add: dq(2) n)
  have blk: "blockno (ibufs s2 x) = blockno (ibufs s x)" for x
    by (simp add: ib serve_buf_def)
  show ?thesis
  proof (cases q)
    case Nil
    have "ide_intr True s = Some s2"
      using n c(3,4) by (simp add: step) (simp add: s2_def s0_def Nil)
    moreover have "ide_inv s2"
      using c(3,4) n by (simp add: ide_inv_def s2_def s0_def Nil)
    ultimately show ?thesis
      using c(3) sv by (intro that [of s2]) (simp_all add: s2_def s0_def)
  next
    case (Cons y ys)
    have y: "ide_start y s2 = s2\<lparr>drive := Some (cmd_of (ibufs s2 y))\<rparr>"
      using r Cons by (intro ide_start_inv_drive) (simp add: blk)
    have "ide_intr True s = Some (ide_start y s2)"
      using n c(3,4) by (simp add: step) (simp add: s2_def s0_def Cons)
    moreover have "ide_inv (ide_start y s2)"
      unfolding y ide_inv_def using c(3,4) n d r blk by (simp add: s2_def s0_def Cons)
    moreover have "served b s (ide_start y s2)"
      using sv by (simp add: served_def y)
    ultimately show ?thesis
      using c(3) by (intro that [of "ide_start y s2"]) (simp_all add: y, simp add: s2_def s0_def)
  qed
qed

lemma ide_read_write_inv:
  assumes inv: "ide_inv s" and b: "b \<notin> set (ide_queue s)" "blockno (ibufs s b) < FSSIZE"
    and h: "\<And>t q. ide_queue s = t # q \<Longrightarrow> blockno (ibufs s t) \<le> blockno (ibufs s b)"
  shows "ide_inv (snd (ide_read_write b s))"
proof -
  define s1 where "s1 = update_idequeue b s"
  have q1: "n_requests s1 = length (ide_queue s1)" "distinct (ide_queue s1)" "\<forall>x\<in>set (ide_queue s1). blockno (ibufs s1 x) < FSSIZE"
    using inv b by (simp_all add: s1_def ide_inv_def length_update_idequeue distinct_update_idequeue set_update_idequeue)
  have "ide_inv (if n_requests s1 = 1 then ide_start b s1 else s1)"
  proof (cases "ide_queue s")
    case Nil
    then have "ide_queue s1 = [b]" "n_requests s1 = 1" using inv by (simp_all add: s1_def update_idequeue_def ide_inv_def)
    then show ?thesis
      using q1 b by (simp add: ide_inv_def ide_start_inv_drive)
  next
    case (Cons t q)
    obtain q' where q': "ide_queue s1 = t # q'"
      using update_idequeue_head [OF Cons h [OF Cons]] unfolding s1_def by blast
    have n1: "n_requests s1 \<noteq> 1" using inv Cons by (simp add: s1_def ide_inv_def)
    have "drive s1 = Some (cmd_of (ibufs s1 t))" using inv Cons by (simp add: s1_def ide_inv_def)
    then have "ide_inv s1" using q1 q' by (simp add: ide_inv_def)
    then show ?thesis using n1 by simp
  qed
  then show ?thesis
    using inv by (simp add: ide_read_write_def s1_def [symmetric] Let_def)
qed

text \<open>A number of interrupts.\<close>

fun ide_intrs :: "nat \<Rightarrow> ide \<Rightarrow> ide option" where
  "ide_intrs 0 s = Some s"
| "ide_intrs (Suc n) s = do { s \<leftarrow> ide_intr True s; ide_intrs n s }"

text \<open>The contents of the disk and of the buffers when the requests of a queue are served in order.\<close>

fun serve_all :: "nat list \<Rightarrow> (nat \<Rightarrow> buf) \<times> (nat \<Rightarrow> nat \<Rightarrow> block) \<Rightarrow> (nat \<Rightarrow> buf) \<times> (nat \<Rightarrow> nat \<Rightarrow> block)" where
  "serve_all [] st = st"
| "serve_all (b # q) (bs, pl) = serve_all q (bs(b := serve_buf pl (bs b)), serve_platter (bs b) pl)"

text \<open>The wake-ups on the way; \<open>dz\<close> gives the group of a buffer and \<open>nr\<close> the open requests of the groups.\<close>

fun wakes :: "(nat \<Rightarrow> nat option) \<Rightarrow> nat list \<Rightarrow> (nat \<Rightarrow> int) \<Rightarrow> waiters list" where
  "wakes dz [] nr = []"
| "wakes dz (b # q) nr = serve_wakes b (dz b) nr @ wakes dz q (serve_count (dz b) nr)"

lemma wakes_cong: "(\<And>x. x \<in> set q \<Longrightarrow> dz x = dz' x) \<Longrightarrow> wakes dz q nr = wakes dz' q nr"
  by (induction q arbitrary: nr) auto

lemma wakes_buf: "ForBuf x \<in> set (wakes dz q nr) \<longleftrightarrow> x \<in> set q \<and> dz x = None"
  by (induction q arbitrary: nr) (auto simp: serve_wakes_def split: option.splits)

definition members :: "(nat \<Rightarrow> nat option) \<Rightarrow> nat list \<Rightarrow> nat \<Rightarrow> int" where
  "members dz q d = int (length (filter (\<lambda>x. dz x = Some d) q))"

text \<open>The waiter of a group is woken when all requests of the group are in the queue.\<close>

lemma wakes_dozen:
  "members dz q d \<le> nr d \<Longrightarrow> ForDozen d \<in> set (wakes dz q nr) \<longleftrightarrow> 0 < nr d \<and> members dz q d = nr d"
proof (induction q arbitrary: nr)
  case Nil
  then show ?case by (simp add: members_def)
next
  case (Cons b q)
  show ?case
  proof (cases "dz b = Some d")
    case True
    then have m: "members dz (b # q) d = members dz q d + 1" "0 \<le> members dz q d" by (simp_all add: members_def)
    define nr' where "nr' = serve_count (Some d) nr"
    have n: "nr' d = nr d - 1" using True by (simp add: nr'_def serve_count_def)
    have "ForDozen d \<in> set (wakes dz q nr') \<longleftrightarrow> 0 < nr' d \<and> members dz q d = nr' d" using Cons.prems m n by (intro Cons.IH) simp
    then show ?thesis using Cons.prems m n True by (auto simp: nr'_def [symmetric] serve_wakes_def)
  next
    case False
    then have m: "members dz (b # q) d = members dz q d" "serve_count (dz b) nr d = nr d"
      by (auto simp: members_def serve_count_def split: option.split)
    then show ?thesis using Cons.IH [of "serve_count (dz b) nr"] Cons.prems False by (auto simp: serve_wakes_def split: option.split if_splits)
  qed
qed

lemma ide_intrs_serve_all:
  assumes "ide_inv s"
  shows "\<exists>s'. ide_intrs (length (ide_queue s)) s = Some s' \<and> ide_inv s' \<and> ide_queue s' = [] \<and>
    (ibufs s', platter s') = serve_all (ide_queue s) (ibufs s, platter s) \<and>
    woken_up s' = woken_up s @ wakes (\<lambda>x. dozen_ptr (ibufs s x)) (ide_queue s) (dozen_n_request s)"
  using assms
proof (induction "ide_queue s" arbitrary: s)
  case Nil
  then show ?case by auto
next
  case (Cons b q)
  obtain s1 where s1: "ide_intr True s = Some s1" "ide_inv s1" "ide_queue s1 = q" "served b s s1"
    by (rule ide_intr_serves [OF Cons.prems Cons.hyps(2) [symmetric]])
  have "b \<notin> set q" using Cons.prems Cons.hyps(2) [symmetric] by (simp add: ide_inv_def)
  then have "wakes (\<lambda>x. dozen_ptr (ibufs s1 x)) q nr = wakes (\<lambda>x. dozen_ptr (ibufs s x)) q nr" for nr
    using s1(4) by (intro wakes_cong) (auto simp: served_def)
  then show ?case
    using Cons.hyps(1) [of s1] Cons.hyps(2) [symmetric] s1 by (auto simp: served_def)
qed

lemma serve_all_valid:
  "b_valid (bs x) \<and> \<not> b_dirty (bs x) \<or> x \<in> set q \<Longrightarrow>
    b_valid (fst (serve_all q (bs, pl)) x) \<and> \<not> b_dirty (fst (serve_all q (bs, pl)) x)"
  by (induction q arbitrary: bs pl) (auto simp: serve_buf_def)

section \<open>Properties\<close>

text \<open>C25: the driver serves its queue.  In a state in which the controller executes the first request, a new request whose block is
  not below that of the first request is added to the queue, and as many interrupts as there are requests then empty the
  queue.  Every request has been executed in queue order: written blocks are on their drive, read buffers hold the contents
  of their block, and the new buffer is valid and clean.  Every waiter is woken: the waiters of exactly those buffers that
  were in the queue on their own, and the waiter of a group exactly when all its open requests were in the queue.\<close>

theorem ide_serves_requests:
  assumes "ide_inv s" and "b \<notin> set (ide_queue s)" "blockno (ibufs s b) < FSSIZE"
    and "\<not> (b_valid (ibufs s b) \<and> \<not> b_dirty (ibufs s b))" "bdev (ibufs s b) = 0 \<or> slave_disk_existed s"
    and "case ide_queue s of [] \<Rightarrow> True | t # _ \<Rightarrow> blockno (ibufs s t) \<le> blockno (ibufs s b)"
  shows "\<exists>s1 s2 ws. ide_read_write b s = (None, s1) \<and> mset (ide_queue s1) = add_mset b (mset (ide_queue s)) \<and>
    ide_intrs (length (ide_queue s1)) s1 = Some s2 \<and> ide_queue s2 = [] \<and>
    (ibufs s2, platter s2) = serve_all (ide_queue s1) (ibufs s, platter s) \<and>
    b_valid (ibufs s2 b) \<and> \<not> b_dirty (ibufs s2 b) \<and> woken_up s2 = woken_up s @ ws \<and>
    (\<forall>x. ForBuf x \<in> set ws \<longleftrightarrow> x \<in> insert b (set (ide_queue s)) \<and> dozen_ptr (ibufs s x) = None) \<and>
    (\<forall>d. members (\<lambda>x. dozen_ptr (ibufs s x)) (b # ide_queue s) d \<le> dozen_n_request s d \<longrightarrow>
       (ForDozen d \<in> set ws \<longleftrightarrow> 0 < dozen_n_request s d \<and> members (\<lambda>x. dozen_ptr (ibufs s x)) (b # ide_queue s) d = dozen_n_request s d))"
proof -
  define s1 where "s1 = snd (ide_read_write b s)"
  have ex: "ide_read_write b s = (None, s1)"
    using assms(4,5) by (auto simp: s1_def ide_read_write_def Let_def)
  have inv: "ide_inv s1"
    unfolding s1_def by (rule ide_read_write_inv [OF assms(1-3)]) (use assms(6) in simp)
  have fr: "ibufs s1 = ibufs s" "platter s1 = platter s" "ide_queue s1 = ide_queue (update_idequeue b s)" "woken_up s1 = woken_up s"
    "dozen_n_request s1 = dozen_n_request s"
    using assms(4,5) by (auto simp: s1_def ide_read_write_def ide_start_def Let_def)
  define ws where "ws = wakes (\<lambda>x. dozen_ptr (ibufs s x)) (ide_queue s1) (dozen_n_request s)"
  obtain s2 where s2: "ide_intrs (length (ide_queue s1)) s1 = Some s2" "ide_queue s2 = []"
    "(ibufs s2, platter s2) = serve_all (ide_queue s1) (ibufs s1, platter s1)" "woken_up s2 = woken_up s @ ws"
    using ide_intrs_serve_all [OF inv] by (auto simp: fr(1,4,5) ws_def)
  have ms: "mset (ide_queue s1) = add_mset b (mset (ide_queue s))" and st: "set (ide_queue s1) = insert b (set (ide_queue s))"
    using mset_update_idequeue [of b s] set_update_idequeue [of b s] fr(3) by simp_all
  have mb: "members dz (ide_queue s1) d = members dz (b # ide_queue s) d" for dz d
  proof -
    have "mset (filter (\<lambda>x. dz x = Some d) (ide_queue s1)) = mset (filter (\<lambda>x. dz x = Some d) (b # ide_queue s))" using ms by simp
    then show ?thesis unfolding members_def by (metis size_mset)
  qed
  have "b_valid (ibufs s2 b) \<and> \<not> b_dirty (ibufs s2 b)"
    using serve_all_valid [of "ibufs s1" b "ide_queue s1" "platter s1"] s2(3) st by (metis fst_conv insertI1)
  moreover have "ForBuf x \<in> set ws \<longleftrightarrow> x \<in> insert b (set (ide_queue s)) \<and> dozen_ptr (ibufs s x) = None" for x
    unfolding ws_def wakes_buf st ..
  moreover have "ForDozen d \<in> set ws \<longleftrightarrow> 0 < dozen_n_request s d \<and> members (\<lambda>x. dozen_ptr (ibufs s x)) (b # ide_queue s) d = dozen_n_request s d"
    if "members (\<lambda>x. dozen_ptr (ibufs s x)) (b # ide_queue s) d \<le> dozen_n_request s d" for d
    unfolding ws_def using wakes_dozen [of "\<lambda>x. dozen_ptr (ibufs s x)" "ide_queue s1" d "dozen_n_request s"] that unfolding mb .
  ultimately show ?thesis using ex s2 ms unfolding fr(1,2) by blast
qed

definition tiny_ide :: ide where
  "tiny_ide = \<lparr>ibufs = (\<lambda>n. \<lparr>bdata = (\<lambda>_. 0), b_busy = True, b_valid = False, b_dirty = False, bdev = 0, blockno = n, dozen_ptr = None\<rparr>),
     n_requests = 1, ide_queue = [9], drive = Some (DRead 0 9), platter = (\<lambda>d n _. of_nat n), slave_disk_existed = True,
     dozen_n_bufs = (\<lambda>_. 0), dozen_n_request = (\<lambda>_. 0), woken_up = []\<rparr>"

lemma tiny_ide_inv: "ide_inv tiny_ide"
  by (simp add: ide_inv_def tiny_ide_def cmd_of_def drive_no_def FSSIZE_def)

theorem ide_serves_requests_witness:
  "\<exists>s1 s2. ide_read_write 12 tiny_ide = (None, s1) \<and> ide_intrs (length (ide_queue s1)) s1 = Some s2 \<and> b_valid (ibufs s2 12) \<and>
     ForBuf 12 \<in> set (woken_up s2) \<and> ForBuf 9 \<in> set (woken_up s2)"
proof -
  have "12 \<notin> set (ide_queue tiny_ide)" "blockno (ibufs tiny_ide 12) < FSSIZE" "\<not> (b_valid (ibufs tiny_ide 12) \<and> \<not> b_dirty (ibufs tiny_ide 12))"
    "bdev (ibufs tiny_ide 12) = 0 \<or> slave_disk_existed tiny_ide"
    "case ide_queue tiny_ide of [] \<Rightarrow> True | t # _ \<Rightarrow> blockno (ibufs tiny_ide t) \<le> blockno (ibufs tiny_ide 12)"
    by (simp_all add: tiny_ide_def FSSIZE_def)
  note r = ide_serves_requests [OF tiny_ide_inv this]
  have t: "ide_queue tiny_ide = [9]" "dozen_ptr (ibufs tiny_ide x) = None" for x by (simp_all add: tiny_ide_def)
  obtain s1 s2 ws where "ide_read_write 12 tiny_ide = (None, s1)" "ide_intrs (length (ide_queue s1)) s1 = Some s2" "b_valid (ibufs s2 12)"
    "woken_up s2 = woken_up tiny_ide @ ws" "ForBuf 12 \<in> set ws" "ForBuf 9 \<in> set ws"
    using r unfolding t by (elim exE conjE) (rule that, assumption+, simp_all)
  then show ?thesis by auto
qed

text \<open>A request below the active one takes its place at the head of the queue although the drive is executing
  the other one.  The next interrupt completes the wrong request: a reader gets the contents of the block
  the drive has read for the other request, and the data of a writer are dropped while its buffer is marked
  clean.\<close>

theorem ide_lower_request_steals_completion:
  assumes "ide_inv s" "ide_queue s = [t]" "b \<noteq> t" "blockno (ibufs s b) < blockno (ibufs s t)"
    and "\<not> (b_valid (ibufs s b) \<and> \<not> b_dirty (ibufs s b))" "bdev (ibufs s b) = 0 \<or> slave_disk_existed s"
    and "\<not> b_dirty (ibufs s t)"
  shows "\<exists>s1 s2. ide_read_write b s = (None, s1) \<and> ide_queue s1 = [b, t] \<and> drive s1 = Some (DRead (drive_no (ibufs s t)) (blockno (ibufs s t))) \<and>
    ide_intr True s1 = Some s2 \<and> b_valid (ibufs s2 b) \<and> \<not> b_dirty (ibufs s2 b) \<and> platter s2 = platter s \<and>
    (b_dirty (ibufs s b) \<longrightarrow> bdata (ibufs s2 b) = bdata (ibufs s b)) \<and>
    (\<not> b_dirty (ibufs s b) \<longrightarrow> bdata (ibufs s2 b) = platter s (drive_no (ibufs s t)) (blockno (ibufs s t)))"
proof -
  define s1 where "s1 = s\<lparr>n_requests := 2, ide_queue := [b, t]\<rparr>"
  have inv: "n_requests s = 1" "drive s = Some (DRead (drive_no (ibufs s t)) (blockno (ibufs s t)))" "blockno (ibufs s t) < FSSIZE"
    using assms(1,2,7) by (simp_all add: ide_inv_def cmd_of_def)
  have u: "update_idequeue b s = s1"
    using assms(2,4) inv(1) by (simp add: update_idequeue_def s1_def Let_def)
  have ex: "ide_read_write b s = (None, s1)"
    using assms(5,6) by (auto simp: ide_read_write_def u Let_def s1_def)
  define s3 where "s3 = (ide_complete True b (s1\<lparr>ide_queue := [t], n_requests := 1\<rparr>))\<lparr>drive := None\<rparr>"
  have df: "drive_finish s1 = s1" using inv(2) by (simp add: drive_finish_def s1_def)
  have b3: "ibufs s3 = (ibufs s)(b := (ibufs s b)\<lparr>
     bdata := (if \<not> b_dirty (ibufs s b) then platter s (drive_no (ibufs s t)) (blockno (ibufs s t)) else bdata (ibufs s b)),
     b_valid := True, b_dirty := False, dozen_ptr := None\<rparr>)" "platter s3 = platter s" "n_requests s3 = 1" "ide_queue s3 = [t]"
    using inv(2) by (simp_all add: s3_def ide_complete_fields s1_def drive_data_def)
  define s2 where "s2 = ide_start t s3"
  have "ide_intr True s1 = Some s2"
    using b3(3,4) by (simp add: ide_intr_def df Let_def s2_def s3_def [symmetric]) (simp add: s1_def s3_def)
  moreover have "ibufs s2 = ibufs s3" "platter s2 = platter s"
    using b3(2) by (simp_all add: s2_def ide_start_def Let_def)
  ultimately have "ide_intr True s1 = Some s2" "b_valid (ibufs s2 b)" "\<not> b_dirty (ibufs s2 b)" "platter s2 = platter s"
    "bdata (ibufs s2 b) = (if b_dirty (ibufs s b) then bdata (ibufs s b) else platter s (drive_no (ibufs s t)) (blockno (ibufs s t)))"
    by (simp_all add: b3(1))
  then show ?thesis
    using ex inv(2) by (intro exI [of _ s1] exI [of _ s2]) (auto simp: s1_def)
qed

theorem ide_lower_request_steals_completion_witness:
  "\<exists>s1 s2. ide_read_write 3 tiny_ide = (None, s1) \<and> ide_intr True s1 = Some s2 \<and> b_valid (ibufs s2 3) \<and>
     bdata (ibufs s2 3) = platter tiny_ide 0 9"
  using ide_lower_request_steals_completion [OF tiny_ide_inv, of 9 3] by (auto simp: tiny_ide_def drive_no_def)

end
