(* ===== verification/Fs_State.thy ===== *)
theory Fs_State
  imports Ide Pipe
begin

text \<open>
  The state of the file system: the block cache (include/buffer.h), the log (include/log.h), the super block and
  the on-disk structures (include/fs.h), the inode cache, the open files and the pipes (include/file.h), and
  the part of struct proc that names files.  Structures on disk are little-endian bytes of a block.

  The operations of the file system describe a process that runs alone: a sleep for a buffer, an inode or log
  space that only another process could release does not come back and is \<open>None\<close>.  The lists of this component
  are lists of buffer, inode and file numbers; an element is on a list exactly when its link is not NULL.
\<close>

section \<open>Constants\<close>

definition HASHSLOT :: nat where "HASHSLOT = 7"
definition NBUF :: nat where "NBUF = 120"
definition LOGSIZE :: nat where "LOGSIZE = 120"
definition MAXOPBLOCKS :: nat where "MAXOPBLOCKS = 40"
definition NINODE :: nat where "NINODE = 60"
definition NFILE :: nat where "NFILE = 200"
definition NOFILE :: nat where "NOFILE = 16"
definition NDEV :: nat where "NDEV = 10"
definition ROOTDEV :: nat where "ROOTDEV = 1"
definition ROOTINO :: nat where "ROOTINO = 1"
definition NDIRECT :: nat where "NDIRECT = 11"
definition NINDIRECT :: nat where "NINDIRECT = BLKSIZE div 4"
definition NDINDIRECT :: nat where "NDINDIRECT = NINDIRECT * NINDIRECT"
definition MAXFILESIZ :: nat where "MAXFILESIZ = (NDIRECT + NINDIRECT + NDINDIRECT) * BLKSIZE mod 2 ^ 32"
definition IPB :: nat where "IPB = BLKSIZE div 64"
definition BITPB :: nat where "BITPB = BLKSIZE * 8"
definition DIRSIZ :: nat where "DIRSIZ = 14"
definition DIRENT_SIZE :: nat where "DIRENT_SIZE = 16"

definition T_DIR :: nat where "T_DIR = 1"
definition T_FILE :: nat where "T_FILE = 2"
definition T_DEV :: nat where "T_DEV = 3"

definition E_BAD_DEV :: int where "E_BAD_DEV = 9"
definition E_BAD_OFFSET :: int where "E_BAD_OFFSET = 10"
definition E_BAD_PATH :: int where "E_BAD_PATH = 14"
definition E_FILE_EXISTS :: int where "E_FILE_EXISTS = 15"

section \<open>Numbers in blocks\<close>

definition get16 :: "block \<Rightarrow> nat \<Rightarrow> nat" where
  "get16 d i = unat (d i) + 256 * unat (d (i + 1))"

definition put16 :: "nat \<Rightarrow> nat \<Rightarrow> block \<Rightarrow> block" where
  "put16 i v d = d(i := of_nat v, i + 1 := of_nat (v div 256))"

definition get32 :: "block \<Rightarrow> nat \<Rightarrow> nat" where
  "get32 d i = get16 d i + 65536 * get16 d (i + 2)"

definition put32 :: "nat \<Rightarrow> nat \<Rightarrow> block \<Rightarrow> block" where
  "put32 i v d = put16 (i + 2) (v div 65536) (put16 i v d)"

section \<open>Records\<close>

record superblock =
  sb_size :: nat
  data_blks :: nat
  inode_blks :: nat
  log_blks :: nat
  log_start :: nat
  inode_start :: nat
  bitmap_start :: nat

record log_manager =
  lg_dev :: nat
  lg_size :: nat
  lg_start :: nat
  committing :: bool
  n_occupiers :: nat
  nblks :: nat
  blks_no :: "nat \<Rightarrow> nat"

record inode =
  idev :: nat
  ino :: nat
  iref_cnt :: nat
  ivalid :: bool
  ilocked :: bool
  itype :: nat
  imajor :: nat
  iminor :: nat
  nlink :: nat
  file_siz :: nat
  blk_addrs :: "nat \<Rightarrow> nat"

definition FS_NONE :: nat where "FS_NONE = 0"
definition FS_PIPE :: nat where "FS_PIPE = 5"
definition O_RDONLY :: u16 where "O_RDONLY = 0x1"
definition O_WRONLY :: u16 where "O_WRONLY = 0x2"
definition O_RDWR :: u16 where "O_RDWR = 0x4"
definition O_CREAT :: u16 where "O_CREAT = 0x8"

record filed =
  ftyp :: nat
  fref :: nat
  foffset :: nat
  fflag :: u16
  fpipe :: "nat option"
  finode :: "nat option"

datatype bwait = ForFree | ForBlock nat

record fs =
  bufs :: "nat \<Rightarrow> buf"
  free_list :: "nat list"
  hash_table :: "nat \<Rightarrow> nat list"
  bwakeups :: "bwait list"
  disk :: "nat \<Rightarrow> block"
  slave_ok :: bool
  writes :: "(nat \<times> block) list"
  sb :: superblock
  lm :: log_manager
  log_copies :: "nat \<Rightarrow> block"
  inodes :: "nat \<Rightarrow> inode"
  i_free :: "nat list"
  i_hash :: "nat \<Rightarrow> nat list"
  icache_locked :: bool
  dev_read :: "nat \<Rightarrow> (nat \<Rightarrow> nat \<Rightarrow> int \<times> u8 list) option"
  dev_write :: "nat \<Rightarrow> (nat \<Rightarrow> u8 list \<Rightarrow> int) option"
  files :: "nat \<Rightarrow> filed"
  f_free :: "nat list"
  n_openfiles :: int
  pipes :: "nat \<Rightarrow> pipe"
  pwd :: nat
  open_file_table :: "nat \<Rightarrow> nat option"
  n_opfiles :: int

definition upd_buf :: "nat \<Rightarrow> (buf \<Rightarrow> buf) \<Rightarrow> fs \<Rightarrow> fs" where
  "upd_buf b f s = s\<lparr>bufs := (bufs s)(b := f (bufs s b))\<rparr>"

definition upd_lm :: "(log_manager \<Rightarrow> log_manager) \<Rightarrow> fs \<Rightarrow> fs" where
  "upd_lm f s = s\<lparr>lm := f (lm s)\<rparr>"

definition upd_inode :: "nat \<Rightarrow> (inode \<Rightarrow> inode) \<Rightarrow> fs \<Rightarrow> fs" where
  "upd_inode i f s = s\<lparr>inodes := (inodes s)(i := f (inodes s i))\<rparr>"

definition upd_file :: "nat \<Rightarrow> (filed \<Rightarrow> filed) \<Rightarrow> fs \<Rightarrow> fs" where
  "upd_file x f s = s\<lparr>files := (files s)(x := f (files s x))\<rparr>"

section \<open>Round trips\<close>

lemma get16_put16 [simp]: "v < 65536 \<Longrightarrow> get16 (put16 i v d) i = v"
  by (simp add: get16_def put16_def unsigned_of_nat take_bit_eq_mod)

lemma get16_put16_other [simp]: "j + 1 < i \<or> i + 1 < j \<Longrightarrow> get16 (put16 i v d) j = get16 d j"
  by (auto simp: get16_def put16_def)

lemma get16_put16_low [simp]: "get16 (put16 i v d) i = v mod 65536"
proof -
  have "v mod 65536 = v mod 256 + 256 * (v div 256 mod 256)"
    using mod_mult2_eq [of v 256 256] by simp
  then show ?thesis
    by (simp add: get16_def put16_def unsigned_of_nat take_bit_eq_mod)
qed

lemma get32_put32 [simp]: "v < 2 ^ 32 \<Longrightarrow> get32 (put32 i v d) i = v"
proof -
  assume v: "v < 2 ^ 32"
  have "v div 65536 < 65536"
    using v by (simp add: less_mult_imp_div_less)
  then show ?thesis
    by (simp add: get32_def put32_def)
qed

lemma get32_put32_other [simp]: "j + 3 < i \<or> i + 3 < j \<Longrightarrow> get32 (put32 i v d) j = get32 d j"
  by (auto simp: get32_def put32_def)

end
