(* ===== verification/Bio.thy ===== *)
theory Bio
  imports Fs_State
begin

text \<open>
  The block cache (kern/bio.c), \<^verbatim>\<open>read_superblock\<close> (kern/fs.c) and \<^verbatim>\<open>log_write\<close> (kern/log.c), which the block
  allocator of bio.c calls.  Disk transfers are carried out to their end: \<open>ide_sync\<close> is the effect of
  \<^verbatim>\<open>ide_read_write\<close> with its waiting loop; that it is what the driver does is proved with the properties of the
  block cache.  All transfers of the file system go to the root device, and \<open>disk\<close> is the drive of that device.  The field \<open>writes\<close> is the history of the blocks written to the disk.
\<close>

section \<open>Transfers\<close>

definition ide_sync :: "nat \<Rightarrow> fs \<Rightarrow> fs option" where
  "ide_sync b s =
     (let r = bufs s b in
      if b_valid r \<and> \<not> b_dirty r then Some s
      else if bdev r \<noteq> 0 \<and> \<not> slave_ok s then Some s
      else if FSSIZE \<le> blockno r then None
      else if b_dirty r
      then Some (upd_buf b (\<lambda>r. r\<lparr>b_valid := True, b_dirty := False, dozen_ptr := None\<rparr>)
             (s\<lparr>disk := (disk s)(blockno r := bdata r), writes := writes s @ [(blockno r, bdata r)]\<rparr>))
      else Some (upd_buf b (\<lambda>r. r\<lparr>bdata := disk s (blockno r), b_valid := True, dozen_ptr := None\<rparr>) s))"

text \<open>The order in which the driver serves a group of requests that it puts into the empty queue.\<close>

definition elevator_order :: "(nat \<Rightarrow> buf) \<Rightarrow> nat list \<Rightarrow> nat list" where
  "elevator_order bs xs = ide_queue (fold update_idequeue xs
     \<lparr>ibufs = bs, n_requests = 0, ide_queue = [], drive = None, platter = (\<lambda>_ _ _. 0), slave_disk_existed = True,
      dozen_n_bufs = (\<lambda>_. 0), dozen_n_request = (\<lambda>_. 0), woken_up = []\<rparr>)"

fun ide_sync_all :: "nat list \<Rightarrow> fs \<Rightarrow> fs option" where
  "ide_sync_all [] s = Some s"
| "ide_sync_all (b # xs) s = do { s \<leftarrow> ide_sync b s; ide_sync_all xs s }"

definition ide_dozens_sync :: "nat list \<Rightarrow> fs \<Rightarrow> fs option" where
  "ide_dozens_sync xs s =
     (case xs of [] \<Rightarrow> Some s
      | b # _ \<Rightarrow> if bdev (bufs s b) \<noteq> 0 \<and> \<not> slave_ok s then Some s
                else ide_sync_all (elevator_order (bufs s) xs) s)"

section \<open>Finding and taking buffers\<close>

definition hash_func :: "nat \<Rightarrow> nat \<Rightarrow> nat" where
  "hash_func dev blkno = (dev * 5 + blkno) mod 2 ^ 32 mod HASHSLOT"

text \<open>The condition of the loop assigns the device number instead of comparing it.\<close>

fun find_in_chain :: "nat \<Rightarrow> nat \<Rightarrow> nat list \<Rightarrow> (nat \<Rightarrow> buf) \<Rightarrow> nat option \<times> (nat \<Rightarrow> buf)" where
  "find_in_chain dev blkno [] bs = (None, bs)"
| "find_in_chain dev blkno (b # xs) bs =
     (let bs = bs(b := (bs b)\<lparr>bdev := dev\<rparr>) in
      if dev \<noteq> 0 \<and> blockno (bs b) = blkno then (Some b, bs) else find_in_chain dev blkno xs bs)"

definition find_blk_in_hash :: "nat \<Rightarrow> nat \<Rightarrow> fs \<Rightarrow> nat option \<times> fs" where
  "find_blk_in_hash dev blkno s =
     (case find_in_chain dev blkno (hash_table s (hash_func dev blkno)) (bufs s) of (r, bs) \<Rightarrow> (r, s\<lparr>bufs := bs\<rparr>))"

definition put_blk_in_hash :: "nat \<Rightarrow> fs \<Rightarrow> fs" where
  "put_blk_in_hash b s =
     (let slot = hash_func (bdev (bufs s b)) (blockno (bufs s b)) in
      s\<lparr>hash_table := (hash_table s)(slot := hash_table s slot @ [b])\<rparr>)"

definition buffer_init :: "fs \<Rightarrow> fs" where
  "buffer_init s = s\<lparr>bufs := (\<lambda>b. if b < NBUF then \<lparr>bdata = (\<lambda>_. 0), b_busy = False, b_valid = False, b_dirty = False,
       bdev = 0, blockno = 0, dozen_ptr = None\<rparr> else bufs s b),
     free_list := rev [0..<NBUF], hash_table := (\<lambda>_. [])\<rparr>"

definition getblk :: "nat \<Rightarrow> nat \<Rightarrow> fs \<Rightarrow> (nat \<times> fs) option" where
  "getblk dev blkno s =
     (let (r, s) = find_blk_in_hash dev blkno s in
      case r of
        Some b \<Rightarrow>
          if b_busy (bufs s b) then None
          else let s = upd_buf b (\<lambda>r. r\<lparr>b_busy := True\<rparr>) s
               in Some (b, s\<lparr>free_list := removeAll b (free_list s)\<rparr>)
      | None \<Rightarrow>
          (case free_list s of [] \<Rightarrow> None
           | b # fl \<Rightarrow>
               let s = s\<lparr>free_list := fl, hash_table := (\<lambda>k. removeAll b (hash_table s k))\<rparr>;
                   s = upd_buf b (\<lambda>r. r\<lparr>b_busy := True, bdev := dev, blockno := blkno, b_valid := False\<rparr>) s
               in Some (b, put_blk_in_hash b s)))"

definition brelse :: "nat \<Rightarrow> fs \<Rightarrow> fs" where
  "brelse b s =
     (let s = upd_buf b (\<lambda>r. r\<lparr>b_busy := False\<rparr>) s in
      if b_valid (bufs s b) \<and> \<not> b_dirty (bufs s b)
      then s\<lparr>free_list := free_list s @ [b], bwakeups := bwakeups s @ [ForFree, ForBlock b]\<rparr> else s)"

definition bread :: "nat \<Rightarrow> nat \<Rightarrow> fs \<Rightarrow> (nat \<times> fs) option" where
  "bread dev blkno s = do {
     (b, s) \<leftarrow> getblk dev blkno s;
     if b_valid (bufs s b) then Some (b, s)
     else do { s \<leftarrow> ide_sync b s; Some (b, s) }
   }"

definition breada :: "nat \<Rightarrow> nat \<Rightarrow> fs \<Rightarrow> (nat \<times> fs) option" where
  "breada dev blkno s = do {
     let (r1, s) = find_blk_in_hash dev blkno s;
     (b1, s) \<leftarrow> (case r1 of Some b \<Rightarrow> Some (b, s) | None \<Rightarrow> bread dev blkno s);
     let (r2, s) = find_blk_in_hash dev (blkno + 1) s;
     case r2 of Some _ \<Rightarrow> Some (b1, s)
     | None \<Rightarrow> do {
         (b2, s) \<leftarrow> getblk dev (blkno + 1) s;
         s \<leftarrow> (if b_valid (bufs s b2) then Some (brelse b2 s) else ide_sync b2 s);
         Some (b1, s)
       }
   }"

section \<open>Writing\<close>

definition mark_dirty :: "nat \<Rightarrow> fs \<Rightarrow> fs" where
  "mark_dirty b = upd_buf b (\<lambda>r. r\<lparr>b_valid := False, b_dirty := True\<rparr>)"

definition bwrite :: "nat \<Rightarrow> fs \<Rightarrow> fs option" where
  "bwrite b s = ide_sync b (mark_dirty b s)"

definition bwrite_delay :: "nat \<Rightarrow> fs \<Rightarrow> fs" where
  "bwrite_delay b s = brelse b (mark_dirty b s)"

definition bwrite_dozens :: "nat list \<Rightarrow> fs \<Rightarrow> fs option" where
  "bwrite_dozens xs s = ide_dozens_sync xs (fold mark_dirty xs s)"

definition brelse_dozens :: "nat list \<Rightarrow> fs \<Rightarrow> fs" where
  "brelse_dozens xs s = fold brelse xs s"

text \<open>\<^verbatim>\<open>log_write\<close> of kern/log.c.\<close>

fun log_slot :: "nat \<Rightarrow> nat \<Rightarrow> nat \<Rightarrow> (nat \<Rightarrow> nat) \<Rightarrow> nat" where
  "log_slot 0 i blkno f = i"
| "log_slot (Suc n) i blkno f = (if f i = blkno then i else log_slot n (Suc i) blkno f)"

definition log_write :: "nat \<Rightarrow> fs \<Rightarrow> int \<times> fs" where
  "log_write b s =
     (let m = lm s in
      if LOGSIZE \<le> nblks m \<or> lg_size m \<le> nblks m + 1 then (- 1, s)
      else if n_occupiers m < 1 then (- 1, s)
      else let i = log_slot (nblks m) 0 (blockno (bufs s b)) (blks_no m);
               s = upd_lm (\<lambda>m. m\<lparr>blks_no := (blks_no m)(i := blockno (bufs s b)),
                     nblks := nblks m + (if i = nblks m then 1 else 0)\<rparr>) s
           in (0, mark_dirty b s))"

section \<open>Allocating blocks\<close>

text \<open>A function applied to the data of a buffer, and the sequence of calls that records it in the log.\<close>

definition set_data :: "nat \<Rightarrow> (block \<Rightarrow> block) \<Rightarrow> fs \<Rightarrow> fs" where
  "set_data b f = upd_buf b (\<lambda>r. r\<lparr>bdata := f (bdata r)\<rparr>)"

definition log_and_release :: "nat \<Rightarrow> fs \<Rightarrow> fs" where
  "log_and_release b s = brelse b (snd (log_write b s))"

definition read_superblock :: "nat \<Rightarrow> fs \<Rightarrow> fs option" where
  "read_superblock dev s = do {
     (b, s) \<leftarrow> bread dev 1 s;
     let d = bdata (bufs s b);
     let s = s\<lparr>sb := \<lparr>sb_size = get32 d 0, data_blks = get32 d 4, inode_blks = get32 d 8, log_blks = get32 d 12,
       log_start = get32 d 16, inode_start = get32 d 20, bitmap_start = get32 d 24\<rparr>\<rparr>;
     Some (brelse b s)
   }"

definition bzero :: "nat \<Rightarrow> nat \<Rightarrow> fs \<Rightarrow> fs option" where
  "bzero dev blkno s = do {
     (b, s) \<leftarrow> bread dev blkno s;
     let s = set_data b (\<lambda>d i. if i < BLKSIZE then 0 else d i) s;
     Some (log_and_release b s)
   }"

definition bitmap_bit :: "block \<Rightarrow> nat \<Rightarrow> bool" where
  "bitmap_bit d j = bit (d (j div 8)) (j mod 8)"

definition BITBLOCK :: "nat \<Rightarrow> fs \<Rightarrow> nat" where
  "BITBLOCK b s = b div BITPB + bitmap_start (sb s)"

fun balloc_blocks :: "nat \<Rightarrow> nat list \<Rightarrow> fs \<Rightarrow> (nat \<times> fs) option" where
  "balloc_blocks dev [] s = Some (0, s)"
| "balloc_blocks dev (i # is) s = do {
     (b, s) \<leftarrow> bread dev (BITBLOCK i s) s;
     case find (\<lambda>j. \<not> bitmap_bit (bdata (bufs s b)) j) [0..<min BITPB (sb_size (sb s) - i)] of
       Some j \<Rightarrow> do {
         let s = set_data b (\<lambda>d. d(j div 8 := set_bit (j mod 8) (d (j div 8)))) s;
         s \<leftarrow> bzero dev (i + j) (log_and_release b s);
         Some (i + j, s)
       }
     | None \<Rightarrow> balloc_blocks dev is (brelse b s)
   }"

definition balloc :: "nat \<Rightarrow> fs \<Rightarrow> (nat \<times> fs) option" where
  "balloc dev s = balloc_blocks dev (map ((*) BITPB) [0..<(sb_size (sb s) + BITPB - 1) div BITPB]) s"

text \<open>\<^verbatim>\<open>bfree\<close> returns with the bitmap buffer still busy when the block was free already.\<close>

definition bfree :: "nat \<Rightarrow> nat \<Rightarrow> fs \<Rightarrow> (int \<times> fs) option" where
  "bfree dev blkno s = do {
     s \<leftarrow> read_superblock dev s;
     (b, s) \<leftarrow> bread dev (BITBLOCK blkno s) s;
     let j = blkno mod BITPB;
     if \<not> bitmap_bit (bdata (bufs s b)) j then Some (- 1, s)
     else do {
       let s = set_data b (\<lambda>d. d(j div 8 := unset_bit (j mod 8) (d (j div 8)))) s;
       Some (0, log_and_release b s)
     }
   }"

end
