(* ===== verification/Bio_Props.thy ===== *)
theory Bio_Props
  imports Bio Ide_Props
begin

text \<open>
  The block cache implements a store of blocks.  \<open>view s n\<close> is the current contents of block \<open>n\<close>: that of the
  buffer that holds it, or that of the disk.  \<open>bio_inv\<close> is the invariant of hash chains, free list and flags:
  a block has at most one buffer, free buffers agree with the disk, and a buffer that is neither busy nor
  free is dirty.
\<close>

section \<open>Invariant and view\<close>

definition chained :: "fs \<Rightarrow> nat set" where
  "chained s = (\<Union>k. set (hash_table s k))"

definition bio_inv :: "fs \<Rightarrow> bool" where
  "bio_inv s \<longleftrightarrow> slave_ok s \<and> (\<forall>k. distinct (hash_table s k)) \<and>
     (\<forall>k. \<forall>b\<in>set (hash_table s k). hash_func ROOTDEV (blockno (bufs s b)) = k \<and> bdev (bufs s b) = ROOTDEV) \<and>
     (\<forall>b\<in>chained s. \<forall>c\<in>chained s. blockno (bufs s b) = blockno (bufs s c) \<longrightarrow> b = c) \<and>
     distinct (free_list s) \<and>
     (\<forall>b\<in>set (free_list s). \<not> b_busy (bufs s b) \<and> \<not> b_dirty (bufs s b)) \<and>
     (\<forall>b\<in>set (free_list s). b \<in> chained s \<longrightarrow> b_valid (bufs s b) \<and> bdata (bufs s b) = disk s (blockno (bufs s b))) \<and>
     (\<forall>b\<in>chained s. \<not> b_busy (bufs s b) \<longrightarrow> b \<notin> set (free_list s) \<longrightarrow> b_dirty (bufs s b)) \<and>
     (\<forall>b\<in>chained s. b_valid (bufs s b) \<longleftrightarrow> \<not> b_dirty (bufs s b))"

definition cached :: "fs \<Rightarrow> nat \<Rightarrow> nat option" where
  "cached s n = find (\<lambda>b. blockno (bufs s b) = n) (hash_table s (hash_func ROOTDEV n))"

definition view :: "fs \<Rightarrow> nat \<Rightarrow> block" where
  "view s n = (case cached s n of None \<Rightarrow> disk s n | Some b \<Rightarrow> bdata (bufs s b))"

lemma bio_invD:
  assumes "bio_inv s"
  shows "slave_ok s" "distinct (hash_table s k)" "distinct (free_list s)"
    "b \<in> set (hash_table s k) \<Longrightarrow> hash_func ROOTDEV (blockno (bufs s b)) = k"
    "b \<in> set (hash_table s k) \<Longrightarrow> bdev (bufs s b) = ROOTDEV"
    "b \<in> chained s \<Longrightarrow> c \<in> chained s \<Longrightarrow> blockno (bufs s b) = blockno (bufs s c) \<Longrightarrow> b = c"
    "b \<in> set (free_list s) \<Longrightarrow> \<not> b_busy (bufs s b)" "b \<in> set (free_list s) \<Longrightarrow> \<not> b_dirty (bufs s b)"
    "b \<in> set (free_list s) \<Longrightarrow> b \<in> chained s \<Longrightarrow> b_valid (bufs s b)"
    "b \<in> set (free_list s) \<Longrightarrow> b \<in> chained s \<Longrightarrow> bdata (bufs s b) = disk s (blockno (bufs s b))"
    "b \<in> chained s \<Longrightarrow> \<not> b_busy (bufs s b) \<Longrightarrow> b \<notin> set (free_list s) \<Longrightarrow> b_dirty (bufs s b)"
    "b \<in> chained s \<Longrightarrow> b_valid (bufs s b) \<longleftrightarrow> \<not> b_dirty (bufs s b)"
  using assms unfolding bio_inv_def by blast+

lemma chained_hash: "bio_inv s \<Longrightarrow> b \<in> chained s \<longleftrightarrow> b \<in> set (hash_table s (hash_func ROOTDEV (blockno (bufs s b))))"
  unfolding chained_def using bio_invD(4) by (metis UN_iff UNIV_I)

lemma cached_Some_iff:
  assumes "bio_inv s"
  shows "cached s n = Some b \<longleftrightarrow> b \<in> chained s \<and> blockno (bufs s b) = n"
proof
  assume "cached s n = Some b"
  then have "b \<in> set (hash_table s (hash_func ROOTDEV n))" "blockno (bufs s b) = n"
    by (auto simp: cached_def find_Some_iff)
  then show "b \<in> chained s \<and> blockno (bufs s b) = n" by (auto simp: chained_def)
next
  assume b: "b \<in> chained s \<and> blockno (bufs s b) = n"
  then have m: "b \<in> set (hash_table s (hash_func ROOTDEV n))" using chained_hash [OF assms] by blast
  then have "cached s n \<noteq> None" using b by (auto simp: cached_def find_None_iff)
  then obtain c where c: "cached s n = Some c" by blast
  then have "c \<in> set (hash_table s (hash_func ROOTDEV n))" "blockno (bufs s c) = n"
    by (auto simp: cached_def find_Some_iff)
  then have "c = b" using b bio_invD(6) [OF assms, of c b] by (auto simp: chained_def)
  then show "cached s n = Some b" using c by simp
qed

lemma cached_None_iff: "bio_inv s \<Longrightarrow> cached s n = None \<longleftrightarrow> (\<forall>b\<in>chained s. blockno (bufs s b) \<noteq> n)"
  using cached_Some_iff [of s n] by (metis option.exhaust option.simps(3))

lemma ROOTDEV_nz [simp]: "ROOTDEV \<noteq> 0"
  by (simp add: ROOTDEV_def)

lemma find_in_chain_eq:
  assumes "\<forall>b\<in>set xs. bdev (bs b) = ROOTDEV"
  shows "find_in_chain ROOTDEV n xs bs = (find (\<lambda>b. blockno (bs b) = n) xs, bs)"
  using assms
proof (induction xs)
  case (Cons b xs)
  then have "bs(b := (bs b)\<lparr>bdev := ROOTDEV\<rparr>) = bs" by (simp add: fun_upd_idem)
  then show ?case using Cons by simp
qed simp

lemma find_blk_in_hash_eq: "bio_inv s \<Longrightarrow> find_blk_in_hash ROOTDEV n s = (cached s n, s)"
  using find_in_chain_eq [of "hash_table s (hash_func ROOTDEV n)" "bufs s" n] bio_invD(5)
  by (simp add: find_blk_in_hash_def cached_def)

text \<open>The parts of the state that the block cache does not touch.\<close>

definition other_parts :: "fs \<Rightarrow> fs" where
  "other_parts s = s\<lparr>bufs := (\<lambda>_. undefined), free_list := [], hash_table := (\<lambda>_. []), bwakeups := [], disk := (\<lambda>_ _. 0),
     writes := []\<rparr>"

text \<open>What holds of a buffer that the running process holds after \<^verbatim>\<open>bread\<close>.\<close>

definition holds :: "fs \<Rightarrow> nat \<Rightarrow> nat \<Rightarrow> bool" where
  "holds s b n \<longleftrightarrow> b \<in> chained s \<and> blockno (bufs s b) = n \<and> b_busy (bufs s b) \<and> b_valid (bufs s b) \<and> \<not> b_dirty (bufs s b)"

definition bread_post :: "nat \<Rightarrow> fs \<Rightarrow> nat \<Rightarrow> fs \<Rightarrow> bool" where
  "bread_post n s b s' \<longleftrightarrow> bio_inv s' \<and> view s' = view s \<and> holds s' b n \<and> bdata (bufs s' b) = view s n \<and> bdata (bufs s' b) = disk s' n \<and>
     other_parts s' = other_parts s \<and> (\<forall>c. c \<noteq> b \<longrightarrow> bufs s' c = bufs s c) \<and>
     set (free_list s') = set (free_list s) - {b} \<and> chained s' = insert b (chained s) \<and> \<not> b_busy (bufs s b) \<and>
     ((\<forall>c\<in>chained s. \<not> b_dirty (bufs s c)) \<longrightarrow> disk s' = disk s \<and> writes s' = writes s)"

section \<open>Reading\<close>

lemma upd_buf_sel [simp]:
  "bufs (upd_buf b f s) = (bufs s)(b := f (bufs s b))" "free_list (upd_buf b f s) = free_list s"
  "hash_table (upd_buf b f s) = hash_table s" "disk (upd_buf b f s) = disk s" "slave_ok (upd_buf b f s) = slave_ok s"
  "writes (upd_buf b f s) = writes s" "chained (upd_buf b f s) = chained s" "lm (upd_buf b f s) = lm s"
  "other_parts (upd_buf b f s) = other_parts s"
  by (simp_all add: upd_buf_def chained_def other_parts_def)

lemma view_eqI:
  assumes "bio_inv s" "bio_inv s'" and "chained s' = chained s"
    and "\<And>b. b \<in> chained s \<Longrightarrow> blockno (bufs s' b) = blockno (bufs s b) \<and> bdata (bufs s' b) = bdata (bufs s b)"
    and "\<And>n. (\<forall>b\<in>chained s. blockno (bufs s b) \<noteq> n) \<Longrightarrow> disk s' n = disk s n"
  shows "view s' = view s"
proof
  fix n
  show "view s' n = view s n"
  proof (cases "cached s n")
    case None
    then have n: "\<forall>b\<in>chained s. blockno (bufs s b) \<noteq> n" using cached_None_iff [OF assms(1)] by blast
    then have "cached s' n = None" using cached_None_iff [OF assms(2)] assms(3,4) by simp
    then show ?thesis using None n assms(5) by (simp add: view_def)
  next
    case (Some b)
    then have b: "b \<in> chained s" "blockno (bufs s b) = n" using cached_Some_iff [OF assms(1)] by simp_all
    then have "cached s' n = Some b" using cached_Some_iff [OF assms(2)] assms(3,4) by simp
    then show ?thesis using Some b assms(4) by (simp add: view_def)
  qed
qed

lemma view_cached: "bio_inv s \<Longrightarrow> b \<in> chained s \<Longrightarrow> view s (blockno (bufs s b)) = bdata (bufs s b)"
  using cached_Some_iff [of s "blockno (bufs s b)" b] by (simp add: view_def)

text \<open>Changing one buffer on a chain keeps the invariant when it stays busy with some contents.\<close>

lemma bio_inv_upd:
  assumes inv: "bio_inv s" and b: "b \<in> chained s"
    and s': "hash_table s' = hash_table s" "slave_ok s'" "\<And>c. c \<noteq> b \<Longrightarrow> bufs s' c = bufs s c"
      "blockno (bufs s' b) = blockno (bufs s b)" "bdev (bufs s' b) = ROOTDEV"
      "distinct (free_list s')" "set (free_list s') - {b} = set (free_list s) - {b}"
      "\<And>n. n \<noteq> blockno (bufs s b) \<Longrightarrow> disk s' n = disk s n"
      "b_valid (bufs s' b) \<longleftrightarrow> \<not> b_dirty (bufs s' b)"
      "b \<in> set (free_list s') \<Longrightarrow> \<not> b_busy (bufs s' b) \<and> \<not> b_dirty (bufs s' b) \<and> bdata (bufs s' b) = disk s' (blockno (bufs s b))"
      "b \<notin> set (free_list s') \<Longrightarrow> \<not> b_busy (bufs s' b) \<Longrightarrow> b_dirty (bufs s' b)"
  shows "bio_inv s'"
proof -
  have ch: "chained s' = chained s" by (simp add: chained_def s'(1))
  have blk: "blockno (bufs s' c) = blockno (bufs s c)" for c
    using s'(3,4) by (cases "c = b") auto
  have fl: "c \<in> set (free_list s') \<longleftrightarrow> c \<in> set (free_list s)" if "c \<noteq> b" for c
    using s'(7) that by blast
  show ?thesis
    unfolding bio_inv_def ch
  proof (intro conjI allI ballI impI)
    show "slave_ok s'" "distinct (free_list s')" by fact+
    show "distinct (hash_table s' k)" for k using bio_invD(2) [OF inv] s'(1) by simp
  next
    fix k c assume c: "c \<in> set (hash_table s' k)"
    then have c': "c \<in> set (hash_table s k)" by (simp add: s'(1))
    show "hash_func ROOTDEV (blockno (bufs s' c)) = k" using bio_invD(4) [OF inv c'] by (simp add: blk)
    show "bdev (bufs s' c) = ROOTDEV" using bio_invD(5) [OF inv c'] s'(3,5) by (cases "c = b") auto
  next
    fix c d assume "c \<in> chained s" "d \<in> chained s" "blockno (bufs s' c) = blockno (bufs s' d)"
    then show "c = d" using bio_invD(6) [OF inv] by (simp add: blk)
  next
    fix c assume c: "c \<in> set (free_list s')"
    show "\<not> b_busy (bufs s' c)" using bio_invD(7) [OF inv, of c] s'(3,10) fl c by (cases "c = b") auto
    show "\<not> b_dirty (bufs s' c)" using bio_invD(8) [OF inv, of c] s'(3,10) fl c by (cases "c = b") auto
    assume cc: "c \<in> chained s"
    show "b_valid (bufs s' c)" using bio_invD(9) [OF inv, of c] s'(3,9,10) fl c cc by (cases "c = b") auto
    show "bdata (bufs s' c) = disk s' (blockno (bufs s' c))"
    proof (cases "c = b")
      case True
      then show ?thesis using s'(10) c by (simp add: blk)
    next
      case False
      then have "blockno (bufs s c) \<noteq> blockno (bufs s b)" using bio_invD(6) [OF inv cc b] by blast
      then show ?thesis using False fl c cc bio_invD(10) [OF inv, of c] s'(3,8) by (simp add: blk)
    qed
  next
    fix c assume "c \<in> chained s" "\<not> b_busy (bufs s' c)" "c \<notin> set (free_list s')"
    then show "b_dirty (bufs s' c)" using bio_invD(11) [OF inv, of c] s'(3,11) fl by (cases "c = b") auto
  next
    fix c assume "c \<in> chained s"
    then show "b_valid (bufs s' c) \<longleftrightarrow> \<not> b_dirty (bufs s' c)" using bio_invD(12) [OF inv, of c] s'(3,9) by (cases "c = b") auto
  qed
qed

lemma bread_hit:
  assumes inv: "bio_inv s" and c: "cached s n = Some b" and nb: "\<not> b_busy (bufs s b)" and n: "n < FSSIZE"
  obtains s' where "bread ROOTDEV n s = Some (b, s')" "bread_post n s b s'"
    "b_dirty (bufs s b) \<Longrightarrow> disk s' = (disk s)(n := bdata (bufs s b)) \<and> writes s' = writes s @ [(n, bdata (bufs s b))]"
    "b_valid (bufs s b) \<Longrightarrow> \<not> b_dirty (bufs s b) \<Longrightarrow> disk s' = disk s \<and> writes s' = writes s"
proof -
  have b: "b \<in> chained s" "blockno (bufs s b) = n" using c cached_Some_iff [OF inv] by simp_all
  have dev: "bdev (bufs s b) = ROOTDEV" using b(1) bio_invD(5) [OF inv] by (auto simp: chained_def)
  define s1 where "s1 = (upd_buf b (\<lambda>r. r\<lparr>b_busy := True\<rparr>) s)\<lparr>free_list := removeAll b (free_list s)\<rparr>"
  have g: "getblk ROOTDEV n s = Some (b, s1)"
    using c nb by (simp add: getblk_def find_blk_in_hash_eq [OF inv] s1_def Let_def)
  have vw: "view s n = bdata (bufs s b)" using view_cached [OF inv b(1)] b(2) by simp
  define s2 where "s2 = (if b_dirty (bufs s b) then upd_buf b (\<lambda>r. r\<lparr>b_valid := True, b_dirty := False, dozen_ptr := None\<rparr>)
             (s1\<lparr>disk := (disk s)(n := bdata (bufs s b)), writes := writes s @ [(n, bdata (bufs s b))]\<rparr>) else s1)"
  have vd: "b_valid (bufs s b) \<longleftrightarrow> \<not> b_dirty (bufs s b)" by (rule bio_invD(12) [OF inv b(1)])
  have sl: "slave_ok s1" using bio_invD(1) [OF inv] by (simp add: s1_def)
  have ex: "bread ROOTDEV n s = Some (b, s2)"
    using vd sl n b(2) by (auto simp: bread_def g ide_sync_def s1_def s2_def Let_def)
  have f2: "hash_table s2 = hash_table s" "slave_ok s2" "free_list s2 = removeAll b (free_list s)"
    "b_busy (bufs s2 b)" "b_valid (bufs s2 b)" "\<not> b_dirty (bufs s2 b)" "bdata (bufs s2 b) = bdata (bufs s b)"
    "blockno (bufs s2 b) = n" "bdev (bufs s2 b) = ROOTDEV" "other_parts s2 = other_parts s"
    "\<And>c. c \<noteq> b \<Longrightarrow> bufs s2 c = bufs s c"
    using sl b(2) dev vd by (simp_all add: s2_def s1_def other_parts_def upd_buf_def)
  have inv2: "bio_inv s2"
  proof (rule bio_inv_upd [OF inv b(1)])
    show "disk s2 m = disk s m" if "m \<noteq> blockno (bufs s b)" for m using that b(2) by (simp add: s2_def s1_def)
  qed (use f2 b(2) bio_invD(3) [OF inv] in \<open>auto simp: distinct_removeAll\<close>)
  have ch: "chained s2 = chained s" by (simp add: f2 chained_def)
  have vw2: "view s2 = view s"
  proof (rule view_eqI [OF inv inv2 ch])
    show "blockno (bufs s2 c) = blockno (bufs s c) \<and> bdata (bufs s2 c) = bdata (bufs s c)" for c
      using f2 b(2) by (cases "c = b") simp_all
    show "disk s2 m = disk s m" if "\<forall>c\<in>chained s. blockno (bufs s c) \<noteq> m" for m
      using that b by (auto simp: s2_def s1_def)
  qed
  have "bdata (bufs s2 b) = disk s2 n"
  proof (cases "b_dirty (bufs s b)")
    case False
    then have "b \<in> set (free_list s)" using bio_invD(11) [OF inv b(1) nb] by blast
    then show ?thesis using bio_invD(10) [OF inv _ b(1)] b(2) False by (simp add: s2_def s1_def)
  qed (simp add: s2_def s1_def)
  then have "bread_post n s b s2"
    unfolding bread_post_def holds_def
    using inv2 vw2 vw b nb ch f2 by (auto simp: insert_absorb) (auto simp: s2_def s1_def)
  with ex show ?thesis
    by (rule that) (simp_all add: s2_def s1_def)
qed

text \<open>A block that is not cached gets the first free buffer.\<close>

lemma bread_miss:
  assumes inv: "bio_inv s" and c: "cached s n = None" and f: "free_list s = b # fl" and n: "n < FSSIZE"
  obtains s' where "bread ROOTDEV n s = Some (b, s')" "bread_post n s b s'" "disk s' = disk s" "writes s' = writes s" "free_list s' = fl"
proof -
  have fb: "\<not> b_busy (bufs s b)" "\<not> b_dirty (bufs s b)" using bio_invD(7,8) [OF inv, of b] f by simp_all
  define s1 where "s1 = upd_buf b (\<lambda>r. r\<lparr>b_busy := True, bdev := ROOTDEV, blockno := n, b_valid := False\<rparr>)
    (s\<lparr>free_list := fl, hash_table := (\<lambda>k. removeAll b (hash_table s k))\<rparr>)"
  define h where "h = hash_func ROOTDEV n"
  define s2 where "s2 = s1\<lparr>hash_table := (hash_table s1)(h := hash_table s1 h @ [b])\<rparr>"
  have g: "getblk ROOTDEV n s = Some (b, s2)"
    using c f by (simp add: getblk_def find_blk_in_hash_eq [OF inv] Let_def put_blk_in_hash_def s1_def s2_def h_def)
  define s3 where "s3 = upd_buf b (\<lambda>r. r\<lparr>bdata := disk s n, b_valid := True, dozen_ptr := None\<rparr>) s2"
  have ex: "bread ROOTDEV n s = Some (b, s3)"
    using fb n bio_invD(1) [OF inv] by (simp add: bread_def g ide_sync_def s3_def s2_def s1_def Let_def upd_buf_def)
  have ht: "hash_table s3 k = removeAll b (hash_table s k) @ (if k = h then [b] else [])" for k
    by (simp add: s3_def s2_def s1_def)
  have ch: "chained s3 = insert b (chained s)"
    unfolding chained_def ht by auto
  have oth: "bufs s3 x = bufs s x" if "x \<noteq> b" for x using that by (simp add: s3_def s2_def s1_def)
  have fbk: "bufs s3 b = (bufs s b)\<lparr>b_busy := True, bdev := ROOTDEV, blockno := n, bdata := disk s n, b_valid := True, dozen_ptr := None\<rparr>"
    by (simp add: s3_def s2_def s1_def)
  have nn: "blockno (bufs s x) \<noteq> n" if "x \<in> chained s" for x using c cached_None_iff [OF inv] that by blast
  have fl: "free_list s3 = fl" "disk s3 = disk s" "slave_ok s3 = slave_ok s" "writes s3 = writes s"
    by (simp_all add: s3_def s2_def s1_def)
  have inv3: "bio_inv s3"
    unfolding bio_inv_def
  proof (intro conjI allI ballI impI)
    show "slave_ok s3" using bio_invD(1) [OF inv] fl by simp
    show "distinct (hash_table s3 k)" for k using bio_invD(2) [OF inv] by (simp add: ht distinct_removeAll)
    show "distinct (free_list s3)" using bio_invD(3) [OF inv] f fl by simp
  next
    fix k x assume x: "x \<in> set (hash_table s3 k)"
    show "hash_func ROOTDEV (blockno (bufs s3 x)) = k"
    proof (cases "x = b")
      case True
      then show ?thesis using x ht fbk by (auto simp: h_def split: if_splits)
    next
      case False
      then show ?thesis using x ht oth bio_invD(4) [OF inv, of x k] by (auto split: if_splits)
    qed
    show "bdev (bufs s3 x) = ROOTDEV"
      using x ht oth fbk bio_invD(5) [OF inv, of x k] by (cases "x = b") (auto split: if_splits)
  next
    fix x y assume xy: "x \<in> chained s3" "y \<in> chained s3" "blockno (bufs s3 x) = blockno (bufs s3 y)"
    then show "x = y"
      using ch oth fbk nn bio_invD(6) [OF inv, of x y] by (cases "x = b"; cases "y = b") auto
  next
    fix x assume x: "x \<in> set (free_list s3)"
    then have xb: "x \<noteq> b" "x \<in> set (free_list s)" using f fl bio_invD(3) [OF inv] by auto
    show "\<not> b_busy (bufs s3 x)" "\<not> b_dirty (bufs s3 x)" using xb oth bio_invD(7,8) [OF inv, of x] by simp_all
    assume "x \<in> chained s3"
    then have "x \<in> chained s" using ch xb by auto
    then show "b_valid (bufs s3 x)" "bdata (bufs s3 x) = disk s3 (blockno (bufs s3 x))"
      using xb oth fl bio_invD(9,10) [OF inv, of x] by simp_all
  next
    fix x assume "x \<in> chained s3" "\<not> b_busy (bufs s3 x)" "x \<notin> set (free_list s3)"
    then show "b_dirty (bufs s3 x)"
      using ch oth fbk f fl bio_invD(11) [OF inv, of x] by (cases "x = b") auto
  next
    fix x assume "x \<in> chained s3"
    then show "b_valid (bufs s3 x) \<longleftrightarrow> \<not> b_dirty (bufs s3 x)"
      using ch oth fbk fb bio_invD(12) [OF inv, of x] by (cases "x = b") auto
  qed
  have "view s3 m = view s m" for m
  proof (cases "cached s3 m")
    case None
    then have nm: "\<forall>x\<in>insert b (chained s). blockno (bufs s3 x) \<noteq> m" using cached_None_iff [OF inv3] ch by simp
    show ?thesis
    proof (cases "cached s m")
      case (Some x)
      then have x: "x \<in> chained s" "blockno (bufs s x) = m" using cached_Some_iff [OF inv] by simp_all
      have "x = b"
      proof (rule ccontr)
        assume "x \<noteq> b"
        then show False using bspec [OF nm, of x] oth [of x] x by simp
      qed
      then have "bdata (bufs s b) = disk s m" using bio_invD(10) [OF inv, of b] f x by simp
      then show ?thesis using None Some \<open>x = b\<close> fl by (simp add: view_def)
    qed (use None fl in \<open>simp add: view_def\<close>)
  next
    case (Some x)
    then have x: "x \<in> insert b (chained s)" "blockno (bufs s3 x) = m" using cached_Some_iff [OF inv3] ch by simp_all
    show ?thesis
    proof (cases "x = b")
      case True
      then have "m = n" using x fbk by simp
      then show ?thesis using Some True c fbk by (simp add: view_def)
    next
      case False
      then have "cached s m = Some x" using x oth cached_Some_iff [OF inv] by simp
      then show ?thesis using Some False oth by (simp add: view_def)
    qed
  qed
  then have vw: "view s3 = view s" by blast
  have vn: "view s n = disk s n" using c by (simp add: view_def)
  have op: "other_parts s3 = other_parts s"
    by (simp add: s3_def s2_def s1_def other_parts_def upd_buf_def)
  have "bread_post n s b s3"
    unfolding bread_post_def holds_def
    using inv3 vw vn fbk fb ch f fl op oth bio_invD(3) [OF inv] by auto
  with ex show ?thesis
    by (rule that) (simp_all add: fl)
qed

text \<open>A block can be read when its buffer is not busy and, if it has none, a buffer is free.\<close>

definition readable :: "fs \<Rightarrow> nat \<Rightarrow> bool" where
  "readable s n \<longleftrightarrow> n < FSSIZE \<and> (case cached s n of Some b \<Rightarrow> \<not> b_busy (bufs s b) | None \<Rightarrow> free_list s \<noteq> [])"

lemma bread_correct:
  assumes "bio_inv s" "readable s n"
  obtains b s' where "bread ROOTDEV n s = Some (b, s')" "bread_post n s b s'"
proof (cases "cached s n")
  case None
  then obtain b fl where "free_list s = b # fl" using assms(2) by (cases "free_list s") (auto simp: readable_def)
  with None assms show ?thesis
    using bread_miss [OF assms(1) None] that by (metis readable_def)
next
  case (Some b)
  then show ?thesis
    using assms bread_hit [OF assms(1) Some] that by (metis readable_def option.simps(5))
qed

section \<open>Writing\<close>

lemma holds_dev: "bio_inv s \<Longrightarrow> holds s b n \<Longrightarrow> bdev (bufs s b) = ROOTDEV"
  using bio_invD(5) by (auto simp: holds_def chained_def)

lemma holds_not_free: "bio_inv s \<Longrightarrow> holds s b n \<Longrightarrow> b \<notin> set (free_list s)"
  using bio_invD(7) by (auto simp: holds_def)

lemma set_data_view:
  assumes inv: "bio_inv s" and h: "holds s b n"
  shows "bio_inv (set_data b f s)" "holds (set_data b f s) b n" "view (set_data b f s) = (view s)(n := f (view s n))"
proof -
  let ?s = "set_data b f s"
  have b: "b \<in> chained s" "blockno (bufs s b) = n" "b_busy (bufs s b)" "b_valid (bufs s b)" "\<not> b_dirty (bufs s b)"
    using h by (simp_all add: holds_def)
  show inv': "bio_inv ?s"
    by (rule bio_inv_upd [OF inv b(1)])
      (use b holds_dev [OF inv h] holds_not_free [OF inv h] bio_invD(1,3) [OF inv] in \<open>auto simp: set_data_def\<close>)
  show "holds ?s b n" using b by (simp add: holds_def set_data_def)
  have ch: "chained ?s = chained s" by (simp add: set_data_def)
  show "view ?s = (view s)(n := f (view s n))"
  proof
    fix m
    show "view ?s m = ((view s)(n := f (view s n))) m"
    proof (cases "m = n")
      case True
      have "cached ?s n = Some b" using b ch cached_Some_iff [OF inv'] by (simp add: set_data_def)
      moreover have "view s n = bdata (bufs s b)" using view_cached [OF inv b(1)] b(2) by simp
      ultimately show ?thesis using True by (simp add: view_def set_data_def)
    next
      case False
      have "cached ?s m = cached s m"
      proof (cases "cached s m")
        case None
        then have "\<forall>c\<in>chained s. blockno (bufs s c) \<noteq> m" using cached_None_iff [OF inv] by blast
        then have "cached ?s m = None" unfolding cached_None_iff [OF inv'] ch by (simp add: set_data_def)
        then show ?thesis using None by simp
      next
        case (Some c)
        then have "c \<in> chained s" "blockno (bufs s c) = m" using cached_Some_iff [OF inv] by simp_all
        then have "cached ?s m = Some c" using cached_Some_iff [OF inv'] ch by (auto simp: set_data_def)
        then show ?thesis using Some by simp
      qed
      moreover have "c \<noteq> b" if "cached s m = Some c" for c
        using that False b(2) cached_Some_iff [OF inv] by auto
      ultimately show ?thesis using False by (auto simp: view_def set_data_def split: option.split)
    qed
  qed
qed

text \<open>The header of the log in memory.\<close>

definition logged :: "fs \<Rightarrow> nat set" where
  "logged s = blks_no (lm s) ` {..<nblks (lm s)}"

definition log_room :: "fs \<Rightarrow> bool" where
  "log_room s \<longleftrightarrow> nblks (lm s) < LOGSIZE \<and> nblks (lm s) + 1 < lg_size (lm s) \<and> 1 \<le> n_occupiers (lm s)"

definition log_inv :: "fs \<Rightarrow> bool" where
  "log_inv s \<longleftrightarrow> inj_on (blks_no (lm s)) {..<nblks (lm s)} \<and> nblks (lm s) \<le> LOGSIZE"

lemma log_slot_le: "i \<le> log_slot k i n f \<and> log_slot k i n f \<le> i + k"
proof (induction k arbitrary: i)
  case (Suc k)
  show ?case using Suc.IH [of "Suc i"] by auto
qed simp

lemma log_slot_found: "log_slot k i n f < i + k \<Longrightarrow> f (log_slot k i n f) = n"
  by (induction k arbitrary: i) (auto split: if_splits)

lemma log_slot_none: "log_slot k i n f = i + k \<Longrightarrow> j < k \<Longrightarrow> f (i + j) \<noteq> n"
proof (induction k arbitrary: i j)
  case (Suc k)
  have "f i \<noteq> n" using Suc.prems by (auto split: if_splits)
  moreover have "f (Suc i + (j - 1)) \<noteq> n" if "0 < j"
    using Suc.prems that \<open>f i \<noteq> n\<close> by (intro Suc.IH) auto
  ultimately show ?case by (cases j) auto
qed simp

lemma log_write_room:
  assumes "log_room s"
  obtains m where "log_write b s = (0, mark_dirty b (s\<lparr>lm := m\<rparr>))" "blks_no m ` {..<nblks m} = insert (blockno (bufs s b)) (logged s)"
    "inj_on (blks_no (lm s)) {..<nblks (lm s)} \<Longrightarrow> inj_on (blks_no m) {..<nblks m}" "nblks m \<le> LOGSIZE"
    "nblks m \<le> nblks (lm s) + 1" "n_occupiers m = n_occupiers (lm s)" "lg_size m = lg_size (lm s)" "lg_start m = lg_start (lm s)"
    "lg_dev m = lg_dev (lm s)" "committing m = committing (lm s)"
proof -
  let ?k = "nblks (lm s)" and ?f = "blks_no (lm s)" and ?n = "blockno (bufs s b)"
  define i where "i = log_slot ?k 0 ?n ?f"
  define m where "m = (lm s)\<lparr>blks_no := ?f(i := ?n), nblks := ?k + (if i = ?k then 1 else 0)\<rparr>"
  have le: "i \<le> ?k" using log_slot_le [of 0 ?k ?n ?f] by (simp add: i_def)
  have ex: "log_write b s = (0, mark_dirty b (s\<lparr>lm := m\<rparr>))"
    using assms by (simp add: log_write_def log_room_def Let_def upd_lm_def m_def i_def)
  show ?thesis
  proof (cases "i = ?k")
    case True
    have nin: "\<forall>j<?k. ?f j \<noteq> ?n \<and> ?n \<noteq> ?f j"
      using log_slot_none [of ?k 0 ?n ?f] True by (fastforce simp: i_def)
    have "blks_no m ` {..<nblks m} = insert ?n (logged s)"
      using True by (auto simp: m_def logged_def lessThan_Suc image_def)
    moreover have "inj_on (blks_no m) {..<nblks m}" if "inj_on ?f {..<?k}"
      using that nin True by (auto simp: m_def inj_on_def lessThan_Suc)
    ultimately show ?thesis
      using ex assms by (intro that [of m]) (simp_all add: m_def True log_room_def)
  next
    case False
    then have lt: "i < ?k" using le by simp
    then have fi: "?f i = ?n" using log_slot_found [of ?k 0 ?n ?f] by (simp add: i_def)
    then have m: "blks_no m = ?f" "nblks m = ?k" using False by (auto simp: m_def)
    have "?n \<in> logged s" unfolding logged_def fi [symmetric] using lt by (intro imageI) simp
    then show ?thesis
      using ex assms by (intro that [of m]) (simp_all add: m insert_absorb logged_def [symmetric] log_room_def, simp_all add: m_def)
  qed
qed

definition release_post :: "nat \<Rightarrow> nat \<Rightarrow> fs \<Rightarrow> fs \<Rightarrow> bool" where
  "release_post b n s s' \<longleftrightarrow> bio_inv s' \<and> view s' = view s \<and> cached s' n = Some b \<and> \<not> b_busy (bufs s' b) \<and> b_dirty (bufs s' b) \<and>
     disk s' = disk s \<and> writes s' = writes s \<and> logged s' = insert n (logged s) \<and> (log_inv s \<longrightarrow> log_inv s') \<and>
     nblks (lm s') \<le> nblks (lm s) + 1 \<and> n_occupiers (lm s') = n_occupiers (lm s) \<and> lg_size (lm s') = lg_size (lm s) \<and>
     free_list s' = free_list s \<and> (\<forall>c. c \<noteq> b \<longrightarrow> bufs s' c = bufs s c) \<and> chained s' = chained s"

lemma log_and_release_view:
  assumes inv: "bio_inv s" and h: "holds s b n" and room: "log_room s"
  shows "release_post b n s (log_and_release b s)"
proof -
  have b: "b \<in> chained s" "blockno (bufs s b) = n" "b_busy (bufs s b)" using h by (simp_all add: holds_def)
  obtain m where m: "log_write b s = (0, mark_dirty b (s\<lparr>lm := m\<rparr>))" "blks_no m ` {..<nblks m} = insert n (logged s)"
    "inj_on (blks_no (lm s)) {..<nblks (lm s)} \<Longrightarrow> inj_on (blks_no m) {..<nblks m}" "nblks m \<le> LOGSIZE"
    "nblks m \<le> nblks (lm s) + 1" "n_occupiers m = n_occupiers (lm s)" "lg_size m = lg_size (lm s)"
    using log_write_room [OF room, of b] b(2) by metis
  define s' where "s' = log_and_release b s"
  have s': "s' = upd_buf b (\<lambda>r. r\<lparr>b_valid := False, b_dirty := True, b_busy := False\<rparr>) (s\<lparr>lm := m\<rparr>)"
    by (simp add: s'_def log_and_release_def m(1) brelse_def mark_dirty_def upd_buf_def Let_def)
  have ch: "chained s' = chained s" by (simp add: s' chained_def)
  have inv': "bio_inv s'"
    by (rule bio_inv_upd [OF inv b(1)])
      (use b holds_dev [OF inv h] holds_not_free [OF inv h] bio_invD(1,3) [OF inv] in \<open>auto simp: s'\<close>)
  have vw: "view s' = view s"
    by (rule view_eqI [OF inv inv' ch]) (auto simp: s')
  have "cached s' n = Some b" using cached_Some_iff [OF inv'] ch b by (simp add: s')
  then show ?thesis
    using inv' vw ch m unfolding s'_def [symmetric] release_post_def by (auto simp: s' logged_def log_inv_def)
qed

lemma brelse_clean:
  assumes inv: "bio_inv s" and h: "holds s b n" and d: "bdata (bufs s b) = disk s n"
  shows "bio_inv (brelse b s)" "view (brelse b s) = view s" "free_list (brelse b s) = free_list s @ [b]"
proof -
  have b: "b \<in> chained s" "blockno (bufs s b) = n" "b_valid (bufs s b)" "\<not> b_dirty (bufs s b)" using h by (simp_all add: holds_def)
  define s' where "s' = brelse b s"
  have s': "s' = (upd_buf b (\<lambda>r. r\<lparr>b_busy := False\<rparr>) s)\<lparr>free_list := free_list s @ [b], bwakeups := bwakeups s @ [ForFree, ForBlock b]\<rparr>"
    using b by (simp add: s'_def brelse_def Let_def upd_buf_def)
  have ch: "chained s' = chained s" by (simp add: s' chained_def)
  have inv': "bio_inv s'"
    by (rule bio_inv_upd [OF inv b(1)])
      (use b d holds_dev [OF inv h] holds_not_free [OF inv h] bio_invD(1,3) [OF inv] in \<open>auto simp: s'\<close>)
  have "view s' = view s"
    by (rule view_eqI [OF inv inv' ch]) (auto simp: s')
  with inv' show "bio_inv (brelse b s)" "view (brelse b s) = view s" "free_list (brelse b s) = free_list s @ [b]"
    by (simp_all add: s'_def [symmetric]) (simp add: s')
qed

section \<open>Properties\<close>

text \<open>A file system whose cache is empty, inside one transaction.\<close>

definition tiny_fs :: fs where
  "tiny_fs = buffer_init \<lparr>bufs = (\<lambda>_. undefined), free_list = [], hash_table = (\<lambda>_. []), bwakeups = [],
     disk = (\<lambda>_ _. 0), slave_ok = True, writes = [],
     sb = \<lparr>sb_size = 5000, data_blks = 4800, inode_blks = 10, log_blks = 120, log_start = 2, inode_start = 130, bitmap_start = 140\<rparr>,
     lm = \<lparr>lg_dev = ROOTDEV, lg_size = 120, lg_start = 2, committing = False, n_occupiers = 1, nblks = 0, blks_no = (\<lambda>_. 0)\<rparr>,
     log_copies = (\<lambda>_ _. 0), inodes = (\<lambda>_. undefined), i_free = [], i_hash = (\<lambda>_. []), icache_locked = False,
     dev_read = (\<lambda>_. None), dev_write = (\<lambda>_. None), files = (\<lambda>_. undefined), f_free = [], n_openfiles = 0,
     pipes = (\<lambda>_. undefined), pwd = 0, open_file_table = (\<lambda>_. None), n_opfiles = 0\<rparr>"

lemma tiny_fs_sel:
  "hash_table tiny_fs = (\<lambda>_. [])" "free_list tiny_fs = rev [0..<NBUF]" "slave_ok tiny_fs" "disk tiny_fs = (\<lambda>_ _. 0)"
  "b < NBUF \<Longrightarrow> \<not> b_busy (bufs tiny_fs b) \<and> \<not> b_dirty (bufs tiny_fs b)" "writes tiny_fs = []"
  "lm tiny_fs = \<lparr>lg_dev = ROOTDEV, lg_size = 120, lg_start = 2, committing = False, n_occupiers = 1, nblks = 0, blks_no = (\<lambda>_. 0)\<rparr>"
  by (simp_all add: tiny_fs_def buffer_init_def)

lemma tiny_fs_inv: "bio_inv tiny_fs"
  unfolding bio_inv_def chained_def tiny_fs_sel by (auto simp: tiny_fs_sel)

lemma tiny_fs_view: "view tiny_fs n = (\<lambda>_. 0)"
  by (simp add: view_def cached_def tiny_fs_sel)

lemma tiny_fs_readable: "n < FSSIZE \<Longrightarrow> readable tiny_fs n"
  by (simp add: readable_def cached_def tiny_fs_sel NBUF_def)

lemma tiny_fs_log_room: "log_room tiny_fs"
  by (simp add: log_room_def tiny_fs_sel LOGSIZE_def)

text \<open>The synchronous transfers of the block cache are what the driver does: on an idle drive, \<^verbatim>\<open>ide_read_write\<close>
  followed by the interrupt of the drive (when the call waits for one) leaves the same buffers and the same
  contents of the drive of the buffer; \<open>disk\<close> is the drive of the root device, the only one that the file system uses.\<close>

theorem ide_sync_refines_driver:
  assumes "ide_sync b s = Some s'" and "ide_inv i" "ide_queue i = []"
    and "ibufs i = bufs s" "platter i (drive_no (bufs s b)) = disk s" "slave_disk_existed i = slave_ok s"
  shows "\<exists>i'. (case ide_read_write b i of (Some r, i1) \<Rightarrow> i' = i1 | (None, i1) \<Rightarrow> ide_intr True i1 = Some i') \<and>
    ibufs i' = bufs s' \<and> platter i' (drive_no (bufs s b)) = disk s' \<and> ide_queue i' = []"
proof (cases "b_valid (bufs s b) \<and> \<not> b_dirty (bufs s b) \<or> bdev (bufs s b) \<noteq> 0 \<and> \<not> slave_ok s")
  case True
  then have "s' = s" using assms(1) by (auto simp: ide_sync_def Let_def split: if_splits)
  moreover have "\<exists>r. ide_read_write b i = (Some r, i)" using True assms(4,6) by (auto simp: ide_read_write_def)
  ultimately show ?thesis using assms(3-5) by auto
next
  case False
  then have blk: "blockno (bufs s b) < FSSIZE" using assms(1) by (auto simp: ide_sync_def Let_def split: if_splits)
  define i1 where "i1 = snd (ide_read_write b i)"
  have rw: "ide_read_write b i = (None, i1)" using False assms(4,6) by (auto simp: ide_read_write_def i1_def Let_def)
  have n0: "n_requests i = 0" using assms(2,3) by (simp add: ide_inv_def)
  have i1: "i1 = (update_idequeue b i)\<lparr>drive := Some (cmd_of (bufs s b))\<rparr>"
    using False assms(4,6) n0 blk by (auto simp: i1_def ide_read_write_def Let_def ide_start_inv_drive)
  have inv1: "ide_inv i1"
    unfolding i1_def by (rule ide_read_write_inv [OF assms(2)]) (use assms(3,4) blk in simp_all)
  have q1: "ide_queue i1 = [b]" using assms(3) by (simp add: i1 update_idequeue_def)
  obtain i2 where i2: "ide_intr True i1 = Some i2" "ide_queue i2 = []" "served b i1 i2"
    by (rule ide_intr_serves [OF inv1 q1])
  have "ibufs i1 = bufs s" "platter i1 (drive_no (bufs s b)) = disk s" using assms(4,5) by (simp_all add: i1)
  then have "ibufs i2 = bufs s'" "platter i2 (drive_no (bufs s b)) = disk s'"
    using i2(3) assms(1) False blk
    by (cases "b_dirty (bufs s b)"; auto simp: served_def serve_buf_def serve_platter_def ide_sync_def Let_def upd_buf_def split: if_splits)+
  then show ?thesis using rw i2 by auto
qed

theorem ide_sync_refines_driver_witness:
  "\<exists>i'. ide_intr True (snd (ide_read_write 0 (tiny_ide\<lparr>ibufs := bufs tiny_fs, platter := (\<lambda>_. disk tiny_fs), ide_queue := [], n_requests := 0, drive := None\<rparr>))) = Some i' \<and>
     b_valid (ibufs i' 0)"
proof -
  let ?i = "tiny_ide\<lparr>ibufs := bufs tiny_fs, platter := (\<lambda>_. disk tiny_fs), ide_queue := [], n_requests := 0, drive := None\<rparr>"
  have b0: "bufs tiny_fs 0 = \<lparr>bdata = (\<lambda>_. 0), b_busy = False, b_valid = False, b_dirty = False, bdev = 0, blockno = 0, dozen_ptr = None\<rparr>"
    by (simp add: tiny_fs_def buffer_init_def NBUF_def)
  have sl: "slave_ok tiny_fs" "slave_disk_existed ?i" by (simp_all add: tiny_fs_sel tiny_ide_def)
  have sync: "ide_sync 0 tiny_fs = Some (upd_buf 0 (\<lambda>r. r\<lparr>bdata := disk tiny_fs (blockno r), b_valid := True, dozen_ptr := None\<rparr>) tiny_fs)"
    by (simp add: ide_sync_def b0 sl FSSIZE_def Let_def)
  have "ide_inv ?i" by (simp add: ide_inv_def)
  from ide_sync_refines_driver [OF sync this] show ?thesis
    by (auto simp: sl ide_read_write_def b0 Let_def)
qed

text \<open>C34: the block cache implements a store of blocks.  Reading a block that is not busy returns its current
  contents and changes no block; releasing the unchanged buffer neither; changing the data, recording it in
  the log and releasing the buffer changes exactly that block.  The invariant of chains, free list and flags
  is kept, the block is in the header of the log, and no block has two buffers.\<close>

theorem block_cache_refines_store:
  assumes "bio_inv s" "readable s n" "log_room s"
  shows "\<exists>b s1. bread ROOTDEV n s = Some (b, s1) \<and> bdata (bufs s1 b) = view s n \<and> view s1 = view s \<and> bio_inv s1 \<and>
    bio_inv (brelse b s1) \<and> view (brelse b s1) = view s \<and>
    bio_inv (log_and_release b (set_data b f s1)) \<and>
    view (log_and_release b (set_data b f s1)) = (view s)(n := f (view s n)) \<and>
    n \<in> logged (log_and_release b (set_data b f s1))"
proof -
  obtain b s1 where s1: "bread ROOTDEV n s = Some (b, s1)" "bread_post n s b s1"
    by (rule bread_correct [OF assms(1,2)])
  have inv1: "bio_inv s1" and h1: "holds s1 b n" and v1: "view s1 = view s" and d1: "bdata (bufs s1 b) = view s n" "bdata (bufs s1 b) = disk s1 n"
    and o1: "other_parts s1 = other_parts s"
    using s1(2) by (auto simp: bread_post_def)
  note sd = set_data_view [OF inv1 h1, of f]
  have "lm s1 = lm s" using arg_cong [OF o1, of lm] by (simp add: other_parts_def)
  then have room: "log_room (set_data b f s1)" using assms(3) by (simp add: log_room_def set_data_def)
  have "release_post b n (set_data b f s1) (log_and_release b (set_data b f s1))"
    by (rule log_and_release_view [OF sd(1,2) room])
  then show ?thesis
    using s1(1) inv1 v1 d1 sd(3) brelse_clean(1,2) [OF inv1 h1 d1(2)] by (auto simp: release_post_def)
qed

theorem block_cache_refines_store_witness:
  "\<exists>b s1. bread ROOTDEV 5 tiny_fs = Some (b, s1) \<and>
     view (log_and_release b (set_data b (\<lambda>d. d(0 := 7)) s1)) 5 0 = 7 \<and> view (log_and_release b (set_data b (\<lambda>d. d(0 := 7)) s1)) 6 0 = 0"
proof -
  have "readable tiny_fs 5" by (rule tiny_fs_readable) (simp add: FSSIZE_def)
  from block_cache_refines_store [OF tiny_fs_inv this tiny_fs_log_room, of "\<lambda>d. d(0 := 7)"]
  show ?thesis by (auto simp: tiny_fs_view)
qed

text \<open>C35: the log does not protect its blocks.  \<^verbatim>\<open>log_write\<close> clears \<open>B_VALID\<close> and sets \<open>B_DIRTY\<close>, so the next \<^verbatim>\<open>bread\<close> of a
  logged block starts a transfer, and the driver writes a dirty buffer: the block goes to its home location
  on the disk while the transaction is open and the header of the log on the disk has not been written.\<close>

theorem logged_block_written_home_before_commit:
  assumes "bio_inv s" "holds s b n" "n < FSSIZE" "log_room s"
  shows "\<exists>s2. bread ROOTDEV n (log_and_release b s) = Some (b, s2) \<and> disk s2 = (disk s)(n := view s n) \<and>
    writes s2 = writes s @ [(n, view s n)] \<and> n \<in> logged s2 \<and> lm s2 = lm (log_and_release b s)"
proof -
  define s1 where "s1 = log_and_release b s"
  have r: "release_post b n s s1" unfolding s1_def by (rule log_and_release_view [OF assms(1,2,4)])
  then have s1: "bio_inv s1" "view s1 = view s" "cached s1 n = Some b" "\<not> b_busy (bufs s1 b)" "b_dirty (bufs s1 b)"
    "disk s1 = disk s" "writes s1 = writes s" "logged s1 = insert n (logged s)"
    by (simp_all add: release_post_def)
  have b: "b \<in> chained s1" "blockno (bufs s1 b) = n" using s1(3) cached_Some_iff [OF s1(1)] by simp_all
  have d: "bdata (bufs s1 b) = view s n" using view_cached [OF s1(1) b(1)] b(2) s1(2) by simp
  obtain s2 where s2: "bread ROOTDEV n s1 = Some (b, s2)" "bread_post n s1 b s2"
    "b_dirty (bufs s1 b) \<Longrightarrow> disk s2 = (disk s1)(n := bdata (bufs s1 b)) \<and> writes s2 = writes s1 @ [(n, bdata (bufs s1 b))]"
    by (rule bread_hit [OF s1(1,3,4) assms(3)]) (rule that; assumption)
  have "other_parts s2 = other_parts s1" using s2(2) by (simp add: bread_post_def)
  then have "lm (other_parts s2) = lm (other_parts s1)" by simp
  then have lm: "lm s2 = lm s1" by (simp add: other_parts_def)
  then have "n \<in> logged s2" using s1(8) by (simp add: logged_def)
  then show ?thesis
    using s2(1,3) s1 d lm unfolding s1_def [symmetric] by auto
qed

theorem logged_block_written_home_before_commit_witness:
  "\<exists>b s1 s2. bread ROOTDEV 5 tiny_fs = Some (b, s1) \<and>
     bread ROOTDEV 5 (log_and_release b (set_data b (\<lambda>d. d(0 := 7)) s1)) = Some (b, s2) \<and> disk s2 5 0 = 7"
proof -
  have r: "readable tiny_fs 5" by (rule tiny_fs_readable) (simp add: FSSIZE_def)
  obtain b s1 where s1: "bread ROOTDEV 5 tiny_fs = Some (b, s1)" "bread_post 5 tiny_fs b s1"
    by (rule bread_correct [OF tiny_fs_inv r])
  have inv1: "bio_inv s1" and h1: "holds s1 b 5" and v1: "view s1 = view tiny_fs" and o1: "other_parts s1 = other_parts tiny_fs"
    using s1(2) by (auto simp: bread_post_def)
  note sd = set_data_view [OF inv1 h1, of "\<lambda>d. d(0 := 7)"]
  have "lm s1 = lm tiny_fs" using arg_cong [OF o1, of lm] by (simp add: other_parts_def)
  then have room: "log_room (set_data b (\<lambda>d. d(0 := 7)) s1)" using tiny_fs_log_room by (simp add: log_room_def set_data_def)
  have "5 < FSSIZE" by (simp add: FSSIZE_def)
  from logged_block_written_home_before_commit [OF sd(1,2) this room] s1(1) sd(3) show ?thesis by fastforce
qed

end
