(* ===== verification/Log.thy ===== *)
theory Log
  imports Bio
begin

text \<open>
  The log of the file system (kern/log.c): the header on disk and in memory, transactions, commit and
  recovery.  \<^verbatim>\<open>log_write\<close> is part of the theory of the block cache, whose allocator calls it.
\<close>

section \<open>The header\<close>

text \<open>A count that does not fit the array of the header in memory does not come back: the copy loop of
  \<^verbatim>\<open>read_log_header\<close> leaves the array, and for a negative count \<^verbatim>\<open>dozens_init\<close> panics.\<close>

definition read_log_header :: "fs \<Rightarrow> fs option" where
  "read_log_header s = do {
     (b, s) \<leftarrow> bread (lg_dev (lm s)) (lg_start (lm s)) s;
     let d = bdata (bufs s b);
     let n = get32 d 0;
     if LOGSIZE < n then None
     else do {
       let s = upd_lm (\<lambda>m. m\<lparr>nblks := n, blks_no := (\<lambda>i. if i < n then get32 d (4 + 4 * i) else blks_no m i)\<rparr>) s;
       Some (brelse b s)
     }
   }"

fun put_blks_no :: "nat \<Rightarrow> (nat \<Rightarrow> nat) \<Rightarrow> block \<Rightarrow> block" where
  "put_blks_no 0 f d = d"
| "put_blks_no (Suc n) f d = put32 (4 + 4 * n) (f n) (put_blks_no n f d)"

definition write_log_header :: "fs \<Rightarrow> fs option" where
  "write_log_header s = do {
     (b, s) \<leftarrow> bread (lg_dev (lm s)) (lg_start (lm s)) s;
     let m = lm s;
     let s = set_data b (\<lambda>d. put_blks_no (nblks m) (blks_no m) (put32 0 (nblks m) d)) s;
     s \<leftarrow> bwrite b s;
     Some (brelse b s)
   }"

section \<open>Copying between the log and the home locations\<close>

text \<open>The loops of \<^verbatim>\<open>keep_consistent_on_disk\<close>: for each entry of the header the buffer of its home location is
  read, joins the group and gets the data of the log, from the log blocks at boot and from the copies in
  memory after a commit.\<close>

fun install_boot :: "nat list \<Rightarrow> nat list \<Rightarrow> fs \<Rightarrow> (nat list \<times> fs) option" where
  "install_boot [] xs s = Some (xs, s)"
| "install_boot (i # is) xs s = do {
     (l, s) \<leftarrow> bread (lg_dev (lm s)) (lg_start (lm s) + i + 1) s;
     (b, s) \<leftarrow> bread (lg_dev (lm s)) (blks_no (lm s) i) s;
     let s = upd_buf b (\<lambda>r. r\<lparr>dozen_ptr := Some 0\<rparr>) s;
     let d = bdata (bufs s l);
     let s = set_data b (\<lambda>_. d) s;
     install_boot is (xs @ [b]) (brelse l s)
   }"

fun install_commit :: "nat list \<Rightarrow> nat list \<Rightarrow> fs \<Rightarrow> (nat list \<times> fs) option" where
  "install_commit [] xs s = Some (xs, s)"
| "install_commit (i # is) xs s = do {
     (b, s) \<leftarrow> bread (lg_dev (lm s)) (blks_no (lm s) i) s;
     let s = upd_buf b (\<lambda>r. r\<lparr>dozen_ptr := Some 0\<rparr>) s;
     let s = set_data b (\<lambda>_. log_copies s i) s;
     install_commit is (xs @ [b]) s
   }"

definition keep_consistent_on_disk :: "bool \<Rightarrow> fs \<Rightarrow> fs option" where
  "keep_consistent_on_disk boot s =
     (if nblks (lm s) = 0 then Some s
      else do {
        (xs, s) \<leftarrow> (if boot then install_boot [0..<nblks (lm s)] [] s else install_commit [0..<nblks (lm s)] [] s);
        s \<leftarrow> bwrite_dozens xs s;
        Some (brelse_dozens xs s)
      })"

text \<open>The loop of \<^verbatim>\<open>write_log_blk\<close>, which also keeps a copy of each block in memory.\<close>

fun copy_to_log :: "nat list \<Rightarrow> nat list \<Rightarrow> fs \<Rightarrow> (nat list \<times> fs) option" where
  "copy_to_log [] xs s = Some (xs, s)"
| "copy_to_log (i # is) xs s = do {
     (t, s) \<leftarrow> bread (lg_dev (lm s)) (lg_start (lm s) + i + 1) s;
     (f, s) \<leftarrow> bread (lg_dev (lm s)) (blks_no (lm s) i) s;
     let d = bdata (bufs s f);
     let s = upd_buf t (\<lambda>r. r\<lparr>dozen_ptr := Some 0\<rparr>) (set_data t (\<lambda>_. d) s);
     let s = brelse f s;
     let s = s\<lparr>log_copies := (log_copies s)(i := bdata (bufs s t))\<rparr>;
     copy_to_log is (xs @ [t]) s
   }"

definition write_log_blk :: "fs \<Rightarrow> fs option" where
  "write_log_blk s = do {
     (xs, s) \<leftarrow> copy_to_log [0..<nblks (lm s)] [] s;
     s \<leftarrow> bwrite_dozens xs s;
     Some (brelse_dozens xs s)
   }"

section \<open>Commit and recovery\<close>

definition clear_log :: "fs \<Rightarrow> fs option" where
  "clear_log s = write_log_header (upd_lm (\<lambda>m. m\<lparr>nblks := 0\<rparr>) s)"

definition commit :: "fs \<Rightarrow> fs option" where
  "commit s =
     (if 0 < nblks (lm s) then do {
        s \<leftarrow> write_log_blk s;
        s \<leftarrow> write_log_header s;
        s \<leftarrow> keep_consistent_on_disk False s;
        clear_log s
      }
      else Some s)"

definition recover_from_log :: "fs \<Rightarrow> fs option" where
  "recover_from_log s = do {
     s \<leftarrow> read_log_header s;
     s \<leftarrow> keep_consistent_on_disk True s;
     clear_log s
   }"

definition log_init :: "nat \<Rightarrow> fs \<Rightarrow> fs option" where
  "log_init dev s = recover_from_log
     (upd_lm (\<lambda>m. m\<lparr>lg_start := log_start (sb s), lg_size := log_blks (sb s), lg_dev := dev\<rparr>) s)"

section \<open>Transactions\<close>

definition begin_transaction :: "fs \<Rightarrow> fs option" where
  "begin_transaction s =
     (if committing (lm s) then None
      else if LOGSIZE < nblks (lm s) + (n_occupiers (lm s) + 1) * MAXOPBLOCKS then None
      else Some (upd_lm (\<lambda>m. m\<lparr>n_occupiers := n_occupiers m + 1\<rparr>) s))"

definition end_transaction :: "fs \<Rightarrow> fs option" where
  "end_transaction s =
     (let s = upd_lm (\<lambda>m. m\<lparr>n_occupiers := n_occupiers m - 1\<rparr>) s in
      if committing (lm s) then None
      else if n_occupiers (lm s) = 0 then do {
        s \<leftarrow> commit (upd_lm (\<lambda>m. m\<lparr>committing := True\<rparr>) s);
        Some (upd_lm (\<lambda>m. m\<lparr>committing := False\<rparr>) s)
      }
      else Some s)"

end
