(* ===== verification/Log_Props.thy ===== *)
theory Log_Props
  imports Log Bio_Props
begin

text \<open>
  Recovery from the log, and the admission of transactions.  \<open>pool s B\<close> says that the cache is in order, that
  the process holds exactly the buffers \<open>B\<close>, that no buffer is dirty and that all other buffers are free.
\<close>

section \<open>Holding several buffers\<close>

definition pool :: "fs \<Rightarrow> nat set \<Rightarrow> bool" where
  "pool s B \<longleftrightarrow> bio_inv s \<and> (\<forall>c\<in>chained s. \<not> b_dirty (bufs s c)) \<and> {..<NBUF} \<subseteq> set (free_list s) \<union> B \<and> finite B \<and>
     (\<forall>c\<in>chained s. b_busy (bufs s c) \<longrightarrow> c \<in> B) \<and> (\<forall>c\<in>B. c \<in> chained s \<and> b_busy (bufs s c))"

lemma poolD:
  assumes "pool s B"
  shows "bio_inv s" "\<And>c. c \<in> chained s \<Longrightarrow> \<not> b_dirty (bufs s c)" "{..<NBUF} \<subseteq> set (free_list s) \<union> B" "finite B"
    "\<And>c. c \<in> chained s \<Longrightarrow> b_busy (bufs s c) \<Longrightarrow> c \<in> B" "\<And>c. c \<in> B \<Longrightarrow> c \<in> chained s" "\<And>c. c \<in> B \<Longrightarrow> b_busy (bufs s c)"
  using assms by (auto simp: pool_def)

lemma pool_holds: "pool s B \<Longrightarrow> c \<in> B \<Longrightarrow> holds s c (blockno (bufs s c))"
  using bio_invD(12) [OF poolD(1), of s B c] poolD(2,6,7) [of s B c] by (simp add: holds_def)

lemma pool_bread:
  assumes p: "pool s B" and n: "n < FSSIZE" "\<forall>c\<in>B. blockno (bufs s c) \<noteq> n" and B: "card B < NBUF"
  obtains b s' where "bread ROOTDEV n s = Some (b, s')" "pool s' (insert b B)" "b \<notin> B" "blockno (bufs s' b) = n"
    "bdata (bufs s' b) = disk s n" "disk s' = disk s" "writes s' = writes s" "other_parts s' = other_parts s"
    "\<forall>c\<in>B. bufs s' c = bufs s c"
proof -
  note inv = poolD(1) [OF p]
  have "\<not> {..<NBUF} \<subseteq> B"
    using B card_mono [OF poolD(4) [OF p], of "{..<NBUF}"] by auto
  then have free: "free_list s \<noteq> []" using poolD(3) [OF p] by auto
  have "readable s n"
    unfolding readable_def
  proof (cases "cached s n")
    case (Some c)
    then have "c \<in> chained s" "blockno (bufs s c) = n" using cached_Some_iff [OF inv] by simp_all
    then show "n < FSSIZE \<and> (case cached s n of None \<Rightarrow> free_list s \<noteq> [] | Some b \<Rightarrow> \<not> b_busy (bufs s b))"
      using Some n poolD(5) [OF p] by auto
  qed (use n free in simp)
  then obtain b s' where s': "bread ROOTDEV n s = Some (b, s')" "bread_post n s b s'"
    by (rule bread_correct [OF inv])
  have post: "bio_inv s'" "holds s' b n" "bdata (bufs s' b) = disk s' n" "other_parts s' = other_parts s"
    "\<And>c. c \<noteq> b \<Longrightarrow> bufs s' c = bufs s c" "set (free_list s') = set (free_list s) - {b}" "chained s' = insert b (chained s)"
    "\<not> b_busy (bufs s b)" "disk s' = disk s" "writes s' = writes s"
    using s'(2) poolD(2) [OF p] unfolding bread_post_def by blast+
  have nb: "b \<notin> B" using post(8) poolD(7) [OF p] by blast
  have "pool s' (insert b B)"
    unfolding pool_def
  proof (intro conjI ballI impI)
    show "bio_inv s'" "finite (insert b B)" using post(1) poolD(4) [OF p] by simp_all
    show "{..<NBUF} \<subseteq> set (free_list s') \<union> insert b B" using poolD(3) [OF p] post(6) by auto
    show "\<not> b_dirty (bufs s' c)" if "c \<in> chained s'" for c
      using that post(2,5,7) poolD(2) [OF p] by (cases "c = b") (auto simp: holds_def)
    show "c \<in> insert b B" if "c \<in> chained s'" "b_busy (bufs s' c)" for c
      using that post(5,7) poolD(5) [OF p] by (cases "c = b") auto
    show "c \<in> chained s'" "b_busy (bufs s' c)" if "c \<in> insert b B" for c
      using that post(2,5,7) poolD(6,7) [OF p] by (cases "c = b"; auto simp: holds_def)+
  qed
  moreover have "bufs s' c = bufs s c" if "c \<in> B" for c
    using that nb by (intro post(5)) auto
  moreover have "blockno (bufs s' b) = n" using post(2) by (simp add: holds_def)
  ultimately show ?thesis
    using s'(1) post nb by (intro that [of b s']) simp_all
qed

text \<open>Changing data or group of a held buffer.\<close>

lemma pool_upd:
  assumes p: "pool s B" and b: "b \<in> B"
    and f: "\<And>r. blockno (f r) = blockno r \<and> bdev (f r) = bdev r \<and> b_busy (f r) = b_busy r \<and> b_valid (f r) = b_valid r \<and> b_dirty (f r) = b_dirty r"
  shows "pool (upd_buf b f s) B"
proof -
  note h = pool_holds [OF p b] and inv = poolD(1) [OF p]
  have hb: "b \<in> chained s" "b_busy (bufs s b)" "b_valid (bufs s b)" "\<not> b_dirty (bufs s b)" using h by (simp_all add: holds_def)
  have "bio_inv (upd_buf b f s)"
    by (rule bio_inv_upd [OF inv hb(1)])
      (use hb f holds_dev [OF inv h] holds_not_free [OF inv h] bio_invD(1,3) [OF inv] in auto)
  then show ?thesis
    using p f by (auto simp: pool_def)
qed

lemma pool_brelse:
  assumes p: "pool s (insert b B)" and b: "b \<notin> B" and d: "bdata (bufs s b) = disk s (blockno (bufs s b))"
  shows "pool (brelse b s) B" "disk (brelse b s) = disk s" "writes (brelse b s) = writes s" "other_parts (brelse b s) = other_parts s"
    "\<And>c. c \<noteq> b \<Longrightarrow> bufs (brelse b s) c = bufs s c"
proof -
  note h = pool_holds [OF p insertI1] and inv = poolD(1) [OF p]
  have hb: "b_valid (bufs s b)" "\<not> b_dirty (bufs s b)" using h by (simp_all add: holds_def)
  have s': "brelse b s = (upd_buf b (\<lambda>r. r\<lparr>b_busy := False\<rparr>) s)\<lparr>free_list := free_list s @ [b], bwakeups := bwakeups s @ [ForFree, ForBlock b]\<rparr>"
    using hb by (simp add: brelse_def Let_def upd_buf_def)
  show fr: "disk (brelse b s) = disk s" "writes (brelse b s) = writes s" "other_parts (brelse b s) = other_parts s"
    "\<And>c. c \<noteq> b \<Longrightarrow> bufs (brelse b s) c = bufs s c"
    by (simp_all add: s' other_parts_def upd_buf_def)
  have ch: "chained (brelse b s) = chained s" by (simp add: s' chained_def)
  have bb: "b_dirty (bufs (brelse b s) b) = b_dirty (bufs s b)" "\<not> b_busy (bufs (brelse b s) b)" by (simp_all add: s')
  show "pool (brelse b s) B"
    unfolding pool_def ch
  proof (intro conjI ballI impI)
    show "bio_inv (brelse b s)" by (rule brelse_clean(1) [OF inv h d])
    show "{..<NBUF} \<subseteq> set (free_list (brelse b s)) \<union> B" using poolD(3) [OF p] by (auto simp: s')
    show "finite B" using poolD(4) [OF p] by simp
    show "\<not> b_dirty (bufs (brelse b s) c)" if "c \<in> chained s" for c
      using that poolD(2) [OF p that] fr(4) bb by (cases "c = b") auto
    show "c \<in> B" if "c \<in> chained s" "b_busy (bufs (brelse b s) c)" for c
      using that poolD(5) [OF p that(1)] fr(4) bb by (cases "c = b") auto
    show "c \<in> chained s" "b_busy (bufs (brelse b s) c)" if "c \<in> B" for c
      using that b poolD(6,7) [OF p, of c] fr(4) [of c] by (cases "c = b"; simp)+
  qed
qed

section \<open>Writing several buffers\<close>

lemma mset_elevator_order: "mset (elevator_order bs xs) = mset xs"
proof -
  have "mset (ide_queue (fold update_idequeue xs i)) = mset (ide_queue i) + mset xs" for i
    by (induction xs arbitrary: i) (simp_all add: mset_update_idequeue)
  then show ?thesis by (simp add: elevator_order_def)
qed

lemma ide_sync_all_dirty:
  assumes "distinct ys" "\<forall>b\<in>set ys. b_dirty (bufs s b) \<and> blockno (bufs s b) < FSSIZE" "slave_ok s"
    "inj_on (\<lambda>b. blockno (bufs s b)) (set ys)"
  shows "\<exists>s'. ide_sync_all ys s = Some s' \<and>
    (\<forall>b. bufs s' b = (if b \<in> set ys then (bufs s b)\<lparr>b_valid := True, b_dirty := False, dozen_ptr := None\<rparr> else bufs s b)) \<and>
    (\<forall>b\<in>set ys. disk s' (blockno (bufs s b)) = bdata (bufs s b)) \<and>
    (\<forall>n. n \<notin> (\<lambda>b. blockno (bufs s b)) ` set ys \<longrightarrow> disk s' n = disk s n) \<and>
    hash_table s' = hash_table s \<and> free_list s' = free_list s \<and> slave_ok s' \<and> other_parts s' = other_parts s"
  using assms
proof (induction ys arbitrary: s)
  case (Cons y ys)
  define s1 where "s1 = upd_buf y (\<lambda>r. r\<lparr>b_valid := True, b_dirty := False, dozen_ptr := None\<rparr>)
    (s\<lparr>disk := (disk s)(blockno (bufs s y) := bdata (bufs s y)), writes := writes s @ [(blockno (bufs s y), bdata (bufs s y))]\<rparr>)"
  have st: "ide_sync y s = Some s1"
    using Cons.prems(2,3) by (auto simp: ide_sync_def s1_def Let_def)
  have other: "bufs s1 b = bufs s b" if "b \<in> set ys" for b
    using that Cons.prems(1) by (auto simp: s1_def)
  have pre: "distinct ys" "\<forall>b\<in>set ys. b_dirty (bufs s1 b) \<and> blockno (bufs s1 b) < FSSIZE" "slave_ok s1"
    "inj_on (\<lambda>b. blockno (bufs s1 b)) (set ys)"
    using Cons.prems other by (auto simp: inj_on_def) (simp add: s1_def)
  obtain s' where s': "ide_sync_all ys s1 = Some s'"
    "\<forall>b. bufs s' b = (if b \<in> set ys then (bufs s1 b)\<lparr>b_valid := True, b_dirty := False, dozen_ptr := None\<rparr> else bufs s1 b)"
    "\<forall>b\<in>set ys. disk s' (blockno (bufs s1 b)) = bdata (bufs s1 b)"
    "\<forall>n. n \<notin> (\<lambda>b. blockno (bufs s1 b)) ` set ys \<longrightarrow> disk s' n = disk s1 n"
    "hash_table s' = hash_table s1" "free_list s' = free_list s1" "slave_ok s'" "other_parts s' = other_parts s1"
    using Cons.IH [OF pre] by blast
  have img: "(\<lambda>b. blockno (bufs s1 b)) ` set ys = (\<lambda>b. blockno (bufs s b)) ` set ys" using other by (intro image_cong) auto
  have ny: "blockno (bufs s y) \<notin> (\<lambda>b. blockno (bufs s b)) ` set ys"
    using Cons.prems(1,4) by (auto simp: inj_on_def)
  show ?case
  proof (intro exI [of _ s'] conjI allI ballI impI)
    show "ide_sync_all (y # ys) s = Some s'" using st s'(1) by simp
    show "bufs s' b = (if b \<in> set (y # ys) then (bufs s b)\<lparr>b_valid := True, b_dirty := False, dozen_ptr := None\<rparr> else bufs s b)" for b
      using s'(2) other Cons.prems(1) by (auto simp: s1_def)
    show "disk s' (blockno (bufs s b)) = bdata (bufs s b)" if "b \<in> set (y # ys)" for b
      using that s'(3,4) other ny img by (cases "b = y") (auto simp: s1_def)
    show "disk s' n = disk s n" if "n \<notin> (\<lambda>b. blockno (bufs s b)) ` set (y # ys)" for n
      using that s'(4) img by (auto simp: s1_def)
    show "hash_table s' = hash_table s" "free_list s' = free_list s" "slave_ok s'" "other_parts s' = other_parts s"
      using s'(5-8) by (simp_all add: s1_def) (simp add: upd_buf_def other_parts_def)
  qed
qed simp

lemma mark_dirty_fold:
  "bufs (fold mark_dirty xs s) b = (if b \<in> set xs then (bufs s b)\<lparr>b_valid := False, b_dirty := True\<rparr> else bufs s b)"
  "hash_table (fold mark_dirty xs s) = hash_table s" "free_list (fold mark_dirty xs s) = free_list s" "disk (fold mark_dirty xs s) = disk s"
  "slave_ok (fold mark_dirty xs s) = slave_ok s" "other_parts (fold mark_dirty xs s) = other_parts s" "writes (fold mark_dirty xs s) = writes s"
  by (induction xs arbitrary: s) (auto simp: mark_dirty_def)

lemma pool_write_held:
  assumes p: "pool s B" and sub: "set ys \<subseteq> B" "distinct ys" "mset zs = mset ys" and blk: "\<forall>b\<in>set ys. blockno (bufs s b) < FSSIZE"
  obtains s' where "ide_sync_all zs (fold mark_dirty ys s) = Some s'" "pool s' B"
    "\<And>b. b \<in> set ys \<Longrightarrow> blockno (bufs s' b) = blockno (bufs s b) \<and> bdata (bufs s' b) = bdata (bufs s b) \<and> disk s' (blockno (bufs s b)) = bdata (bufs s b)"
    "\<And>b. b \<notin> set ys \<Longrightarrow> bufs s' b = bufs s b"
    "\<And>n. n \<notin> (\<lambda>b. blockno (bufs s b)) ` set ys \<Longrightarrow> disk s' n = disk s n" "other_parts s' = other_parts s"
proof -
  note inv = poolD(1) [OF p]
  define s1 where "s1 = fold mark_dirty ys s"
  have zs: "set zs = set ys" "distinct zs"
    using sub(2,3) mset_eq_setD mset_eq_imp_distinct_iff by blast+
  have b1: "bufs s1 b = (if b \<in> set ys then (bufs s b)\<lparr>b_valid := False, b_dirty := True\<rparr> else bufs s b)" for b
    by (simp add: s1_def mark_dirty_fold)
  have inj: "inj_on (\<lambda>b. blockno (bufs s b)) (set ys)"
    using bio_invD(6) [OF inv] poolD(6) [OF p] sub(1) by (auto simp: inj_on_def)
  have pre: "\<forall>b\<in>set zs. b_dirty (bufs s1 b) \<and> blockno (bufs s1 b) < FSSIZE" "slave_ok s1" "inj_on (\<lambda>b. blockno (bufs s1 b)) (set zs)"
    using blk bio_invD(1) [OF inv] inj by (simp_all add: zs b1 inj_on_def) (simp add: s1_def mark_dirty_fold)
  obtain s' where s': "ide_sync_all zs s1 = Some s'"
    "\<forall>b. bufs s' b = (if b \<in> set zs then (bufs s1 b)\<lparr>b_valid := True, b_dirty := False, dozen_ptr := None\<rparr> else bufs s1 b)"
    "\<forall>b\<in>set zs. disk s' (blockno (bufs s1 b)) = bdata (bufs s1 b)"
    "\<forall>n. n \<notin> (\<lambda>b. blockno (bufs s1 b)) ` set zs \<longrightarrow> disk s' n = disk s1 n"
    "hash_table s' = hash_table s1" "free_list s' = free_list s1" "slave_ok s'" "other_parts s' = other_parts s1"
    using ide_sync_all_dirty [OF zs(2) pre] by blast
  have bs: "bufs s' b = (if b \<in> set ys then (bufs s b)\<lparr>b_valid := True, b_dirty := False, dozen_ptr := None\<rparr> else bufs s b)" for b
    using s'(2) by (simp add: zs b1)
  have ds: "disk s' (blockno (bufs s b)) = bdata (bufs s b)" if "b \<in> set ys" for b
    using s'(3) that by (simp add: zs b1)
  have img: "(\<lambda>b. blockno (bufs s1 b)) ` set zs = (\<lambda>b. blockno (bufs s b)) ` set ys"
    unfolding zs by (intro image_cong) (simp_all add: b1)
  have dn: "disk s' n = disk s n" if "n \<notin> (\<lambda>b. blockno (bufs s b)) ` set ys" for n
    using s'(4) that unfolding img by (simp add: s1_def mark_dirty_fold)
  have hf: "hash_table s' = hash_table s" "free_list s' = free_list s" "other_parts s' = other_parts s"
    using s'(5,6,8) by (simp_all add: s1_def mark_dirty_fold)
  have ch: "chained s' = chained s" by (simp add: chained_def hf)
  have same: "blockno (bufs s' b) = blockno (bufs s b)" "bdev (bufs s' b) = bdev (bufs s b)" "bdata (bufs s' b) = bdata (bufs s b)"
    "b_busy (bufs s' b) = b_busy (bufs s b)" for b
    by (simp_all add: bs)
  have clean: "\<not> b_dirty (bufs s' b) \<and> b_valid (bufs s' b)" if "b \<in> chained s" for b
    using that poolD(2) [OF p that] bio_invD(12) [OF inv that] by (simp add: bs)
  have nf: "b \<notin> set ys" if "b \<in> set (free_list s)" for b
    using that bio_invD(7) [OF inv] poolD(7) [OF p] sub(1) by blast
  have "bio_inv s'"
    unfolding bio_inv_def ch same hf
  proof (intro conjI allI ballI impI)
    show "slave_ok s'" by fact
    show "distinct (hash_table s k)" "distinct (free_list s)" for k using bio_invD(2,3) [OF inv] by blast+
    show "hash_func ROOTDEV (blockno (bufs s b)) = k" "bdev (bufs s b) = ROOTDEV" if "b \<in> set (hash_table s k)" for k b
      using bio_invD(4,5) [OF inv that] by blast+
    show "b = c" if "b \<in> chained s" "c \<in> chained s" "blockno (bufs s b) = blockno (bufs s c)" for b c
      by (rule bio_invD(6) [OF inv that])
    show "\<not> b_busy (bufs s b)" "\<not> b_dirty (bufs s' b)" if "b \<in> set (free_list s)" for b
      using bio_invD(7,8) [OF inv that] nf [OF that] by (simp_all add: bs)
    show "b_valid (bufs s' b)" if "b \<in> chained s" for b using clean [OF that] by blast
    show "bdata (bufs s b) = disk s' (blockno (bufs s b))" if b: "b \<in> set (free_list s)" "b \<in> chained s" for b
    proof -
      have "blockno (bufs s b) \<notin> (\<lambda>b. blockno (bufs s b)) ` set ys"
        using nf [OF b(1)] bio_invD(6) [OF inv b(2)] poolD(6) [OF p] sub(1) by (auto simp: image_iff)
      then show ?thesis using dn bio_invD(10) [OF inv b] by simp
    qed
    show "b_dirty (bufs s' b)" if "b \<in> chained s" "\<not> b_busy (bufs s b)" "b \<notin> set (free_list s)" for b
      using bio_invD(11) [OF inv that] poolD(2) [OF p that(1)] by blast
    show "b_valid (bufs s' b) \<longleftrightarrow> \<not> b_dirty (bufs s' b)" if "b \<in> chained s" for b using clean [OF that] by blast
  qed
  then have "pool s' B"
    using p clean unfolding pool_def ch same hf by blast
  then show ?thesis
    using s'(1) ds dn hf(3) unfolding s1_def by (intro that [of s']) (auto simp: bs)
qed

lemma pool_brelse_all:
  assumes "pool s (set xs)" "distinct xs" "\<forall>b\<in>set xs. bdata (bufs s b) = disk s (blockno (bufs s b))"
  shows "pool (fold brelse xs s) {} \<and> disk (fold brelse xs s) = disk s \<and> other_parts (fold brelse xs s) = other_parts s"
  using assms
proof (induction xs arbitrary: s)
  case (Cons x xs)
  have "pool s (insert x (set xs))" "x \<notin> set xs" "bdata (bufs s x) = disk s (blockno (bufs s x))" using Cons.prems by simp_all
  note br = pool_brelse [OF this]
  have "bufs (brelse x s) c = bufs s c" if "c \<in> set xs" for c
    using that Cons.prems(2) by (intro br(5)) auto
  then have "\<forall>b\<in>set xs. bdata (bufs (brelse x s) b) = disk (brelse x s) (blockno (bufs (brelse x s) b))"
    using Cons.prems(3) by (simp add: br(2))
  then show ?case using Cons.IH [of "brelse x s"] br Cons.prems(2) by simp
qed simp

section \<open>Installing the log\<close>

text \<open>The header \<open>m\<close> names \<open>n\<close> blocks outside the log, without duplicates, that fit into the cache.\<close>

definition header_ok :: "log_manager \<Rightarrow> nat \<Rightarrow> bool" where
  "header_ok m n \<longleftrightarrow> lg_dev m = ROOTDEV \<and> n < NBUF \<and> inj_on (blks_no m) {..<n} \<and> lg_start m + n < FSSIZE \<and>
     (\<forall>i<n. blks_no m i < FSSIZE \<and> blks_no m i \<notin> {lg_start m..lg_start m + n})"

lemma other_parts_lm: "other_parts s' = other_parts s \<Longrightarrow> lm s' = lm s"
proof -
  assume "other_parts s' = other_parts s"
  then have "lm (other_parts s') = lm (other_parts s)" by simp
  then show ?thesis by (simp add: other_parts_def)
qed

lemma install_boot_step:
  assumes p: "pool s (set xs)" and xs: "distinct xs" "length xs = k" and h: "header_ok (lm s) n" "k < n"
    and blk: "\<forall>i<k. blockno (bufs s (xs ! i)) = blks_no (lm s) i"
  obtains b s' where "\<And>is. install_boot (k # is) xs s = install_boot is (xs @ [b]) s'" "pool s' (set (xs @ [b]))" "b \<notin> set xs"
    "blockno (bufs s' b) = blks_no (lm s) k" "bdata (bufs s' b) = disk s (lg_start (lm s) + k + 1)"
    "\<And>c. c \<in> set xs \<Longrightarrow> bufs s' c = bufs s c" "disk s' = disk s" "other_parts s' = other_parts s"
proof -
  let ?m = "lm s" and ?l = "lg_start (lm s) + k + 1" and ?h = "blks_no (lm s) k"
  have hd: "lg_dev ?m = ROOTDEV" "n < NBUF" "inj_on (blks_no ?m) {..<n}" "?l < FSSIZE" "?h < FSSIZE"
    "\<And>i. i < n \<Longrightarrow> blks_no ?m i \<noteq> ?l"
    using h by (auto simp: header_ok_def)
  have mem: "\<exists>i<k. c = xs ! i" if "c \<in> set xs" for c using that xs(2) by (metis in_set_conv_nth)
  have nl: "\<forall>c\<in>set xs. blockno (bufs s c) \<noteq> ?l" using mem blk hd(6) h(2) by force
  have nh: "blockno (bufs s c) \<noteq> ?h" if c: "c \<in> set xs" for c
  proof -
    obtain i where "i < k" "c = xs ! i" using mem [OF c] by blast
    then show ?thesis using blk inj_onD [OF hd(3), of i k] h(2) by auto
  qed
  have card: "card (set xs) = k" using xs by (simp add: distinct_card)
  then have cardlt: "card (set xs) < NBUF" using h(2) hd(2) by simp
  obtain l s1 where s1: "bread ROOTDEV ?l s = Some (l, s1)" "pool s1 (insert l (set xs))" "l \<notin> set xs" "blockno (bufs s1 l) = ?l"
    "bdata (bufs s1 l) = disk s ?l" "disk s1 = disk s" "other_parts s1 = other_parts s" "\<forall>c\<in>set xs. bufs s1 c = bufs s c"
    by (rule pool_bread [OF p hd(4) nl cardlt]) (rule that; assumption)
  have lm1: "lm s1 = ?m" using other_parts_lm [OF s1(7)] .
  have nh1: "\<forall>c\<in>insert l (set xs). blockno (bufs s1 c) \<noteq> ?h"
    using s1(4,8) nh hd(6) [OF h(2)] by auto
  have card1: "card (insert l (set xs)) < NBUF" using card s1(3) h(2) hd(2) by simp
  obtain b s2 where s2: "bread ROOTDEV ?h s1 = Some (b, s2)" "pool s2 (insert b (insert l (set xs)))" "b \<notin> insert l (set xs)"
    "blockno (bufs s2 b) = ?h" "disk s2 = disk s1" "other_parts s2 = other_parts s1" "\<forall>c\<in>insert l (set xs). bufs s2 c = bufs s1 c"
    by (rule pool_bread [OF s1(2) hd(5) nh1 card1]) (rule that; assumption)
  define s3 where "s3 = set_data b (\<lambda>_. bdata (bufs s2 l)) (upd_buf b (\<lambda>r. r\<lparr>dozen_ptr := Some 0\<rparr>) s2)"
  have p3: "pool s3 (insert l (insert b (set xs)))"
    unfolding s3_def set_data_def insert_commute [of l] by (intro pool_upd s2(2)) auto
  have lb: "l \<noteq> b" "l \<notin> insert b (set xs)" using s2(3) s1(3) by auto
  have l3: "bufs s3 c = bufs s2 c" if "c \<noteq> b" for c using that by (simp add: s3_def set_data_def)
  have ll: "bufs s3 l = bufs s1 l" using l3 [OF lb(1)] s2(7) by simp
  have d3: "disk s3 = disk s" using s1(6) s2(5) by (simp add: s3_def set_data_def)
  have "bdata (bufs s3 l) = disk s3 (blockno (bufs s3 l))" using s1(4,5) by (simp add: ll d3)
  note br = pool_brelse [OF p3 lb(2) this]
  define s' where "s' = brelse l s3"
  have b': "bufs s' b = bufs s3 b" using br(5) lb(1) by (simp add: s'_def)
  have bl: "bdata (bufs s2 l) = disk s ?l" using s2(7) s1(5) by simp
  show ?thesis
  proof (rule that [of b s'])
    have "dozen_ptr_update (\<lambda>_. Some 0) r = r\<lparr>dozen_ptr := Some 0\<rparr>" for r :: buf by simp
    show "install_boot (k # is) xs s = install_boot is (xs @ [b]) s'" for "is"
      using s1(1) s2(1) lb(1) by (simp add: hd(1) lm1 s'_def s3_def)
    show "pool s' (set (xs @ [b]))" using br(1) by (simp add: s'_def)
    show "b \<notin> set xs" using s2(3) by simp
    show "blockno (bufs s' b) = ?h" "bdata (bufs s' b) = disk s ?l"
      using s2(4) bl by (simp_all add: b') (simp_all add: s3_def set_data_def)
    show "bufs s' c = bufs s c" if "c \<in> set xs" for c
    proof -
      have "c \<noteq> l" "c \<noteq> b" using that s1(3) s2(3) by auto
      then show ?thesis using that br(5) l3 s2(7) s1(8) by (simp add: s'_def)
    qed
    show "disk s' = disk s" using br(2) d3 by (simp add: s'_def)
    show "other_parts s' = other_parts s" using br(4) s2(6) s1(7) by (simp add: s'_def s3_def set_data_def)
  qed
qed

lemma install_boot_all:
  assumes "pool s (set xs)" "distinct xs" "length xs = k" "k \<le> n" "header_ok (lm s) n"
    "\<forall>i<k. blockno (bufs s (xs ! i)) = blks_no (lm s) i \<and> bdata (bufs s (xs ! i)) = disk s (lg_start (lm s) + i + 1)"
  shows "\<exists>ys s'. install_boot [k..<n] xs s = Some (ys, s') \<and> pool s' (set ys) \<and> distinct ys \<and> length ys = n \<and>
    (\<forall>i<n. blockno (bufs s' (ys ! i)) = blks_no (lm s) i \<and> bdata (bufs s' (ys ! i)) = disk s (lg_start (lm s) + i + 1)) \<and>
    disk s' = disk s \<and> other_parts s' = other_parts s"
  using assms
proof (induction "n - k" arbitrary: k xs s)
  case 0
  then show ?case by auto
next
  case (Suc d)
  then have kn: "k < n" by simp
  have blk: "\<forall>i<k. blockno (bufs s (xs ! i)) = blks_no (lm s) i" using Suc.prems(6) by blast
  obtain b s1 where s1: "\<And>is. install_boot (k # is) xs s = install_boot is (xs @ [b]) s1" "pool s1 (set (xs @ [b]))" "b \<notin> set xs"
    "blockno (bufs s1 b) = blks_no (lm s) k" "bdata (bufs s1 b) = disk s (lg_start (lm s) + k + 1)"
    "\<And>c. c \<in> set xs \<Longrightarrow> bufs s1 c = bufs s c" "disk s1 = disk s" "other_parts s1 = other_parts s"
    by (rule install_boot_step [OF Suc.prems(1-3,5) kn blk]) (rule that; assumption)
  have lm1: "lm s1 = lm s" using other_parts_lm [OF s1(8)] .
  have "\<forall>i<Suc k. blockno (bufs s1 ((xs @ [b]) ! i)) = blks_no (lm s1) i \<and> bdata (bufs s1 ((xs @ [b]) ! i)) = disk s1 (lg_start (lm s1) + i + 1)"
    using Suc.prems(3,6) s1(4-7) by (auto simp: nth_append lm1 less_Suc_eq)
  then have "\<exists>ys s'. install_boot [Suc k..<n] (xs @ [b]) s1 = Some (ys, s') \<and> pool s' (set ys) \<and> distinct ys \<and> length ys = n \<and>
    (\<forall>i<n. blockno (bufs s' (ys ! i)) = blks_no (lm s1) i \<and> bdata (bufs s' (ys ! i)) = disk s1 (lg_start (lm s1) + i + 1)) \<and>
    disk s' = disk s1 \<and> other_parts s' = other_parts s1"
    using Suc.hyps(2) Suc.prems(2,3,5) kn s1(2,3) lm1 by (intro Suc.hyps(1)) auto
  then show ?case
    using s1(1,7,8) lm1 kn by (simp add: upt_conv_Cons)
qed

lemma keep_consistent_boot:
  assumes p: "pool s {}" and h: "header_ok (lm s) (nblks (lm s))"
  obtains s' where "keep_consistent_on_disk True s = Some s'" "pool s' {}" "other_parts s' = other_parts s"
    "\<forall>i<nblks (lm s). disk s' (blks_no (lm s) i) = disk s (lg_start (lm s) + i + 1)"
    "\<forall>n. n \<notin> blks_no (lm s) ` {..<nblks (lm s)} \<longrightarrow> disk s' n = disk s n"
proof (cases "nblks (lm s) = 0")
  case True
  then show ?thesis using p by (intro that [of s]) (simp_all add: keep_consistent_on_disk_def)
next
  case False
  let ?n = "nblks (lm s)" and ?f = "blks_no (lm s)"
  have p0: "pool s (set [])" using p by simp
  have "\<exists>ys s'. install_boot [0..<?n] [] s = Some (ys, s') \<and> pool s' (set ys) \<and> distinct ys \<and> length ys = ?n \<and>
    (\<forall>i<?n. blockno (bufs s' (ys ! i)) = ?f i \<and> bdata (bufs s' (ys ! i)) = disk s (lg_start (lm s) + i + 1)) \<and>
    disk s' = disk s \<and> other_parts s' = other_parts s"
    by (rule install_boot_all [OF p0]) (use h in simp_all)
  then obtain ys s1 where s1: "install_boot [0..<?n] [] s = Some (ys, s1)" "pool s1 (set ys)" "distinct ys" "length ys = ?n"
    "\<forall>i<?n. blockno (bufs s1 (ys ! i)) = ?f i \<and> bdata (bufs s1 (ys ! i)) = disk s (lg_start (lm s) + i + 1)"
    "disk s1 = disk s" "other_parts s1 = other_parts s"
    by (elim exE conjE) (rule that; assumption)
  have mem: "\<exists>i<?n. c = ys ! i" if "c \<in> set ys" for c using that s1(4) by (metis in_set_conv_nth)
  have img: "(\<lambda>b. blockno (bufs s1 b)) ` set ys = ?f ` {..<?n}"
  proof -
    have "(\<lambda>b. blockno (bufs s1 b)) ` set ys = (\<lambda>i. blockno (bufs s1 (ys ! i))) ` {..<?n}"
      using s1(4) by (auto simp: set_conv_nth image_iff)
    then show ?thesis using s1(5) by (auto simp: image_iff)
  qed
  have blk: "\<forall>b\<in>set ys. blockno (bufs s1 b) < FSSIZE"
    using mem s1(5) h unfolding header_ok_def by force
  have ms: "mset (elevator_order (bufs (fold mark_dirty ys s1)) ys) = mset ys" by (rule mset_elevator_order)
  obtain s2 where s2: "ide_sync_all (elevator_order (bufs (fold mark_dirty ys s1)) ys) (fold mark_dirty ys s1) = Some s2" "pool s2 (set ys)"
    "\<And>b. b \<in> set ys \<Longrightarrow> blockno (bufs s2 b) = blockno (bufs s1 b) \<and> bdata (bufs s2 b) = bdata (bufs s1 b) \<and> disk s2 (blockno (bufs s1 b)) = bdata (bufs s1 b)"
    "\<And>n. n \<notin> (\<lambda>b. blockno (bufs s1 b)) ` set ys \<Longrightarrow> disk s2 n = disk s1 n" "other_parts s2 = other_parts s1"
    by (rule pool_write_held [OF s1(2) subset_refl s1(3) ms blk]) (rule that; assumption)
  have sl: "slave_ok s1" using bio_invD(1) [OF poolD(1) [OF s1(2)]] .
  have bw: "bwrite_dozens ys s1 = Some s2"
    using s2(1) sl False s1(4) by (cases ys) (simp_all add: bwrite_dozens_def ide_dozens_sync_def mark_dirty_fold mark_dirty_def)
  have "pool (fold brelse ys s2) {} \<and> disk (fold brelse ys s2) = disk s2 \<and> other_parts (fold brelse ys s2) = other_parts s2"
    using s2(3) by (intro pool_brelse_all [OF s2(2) s1(3)]) simp
  moreover have "keep_consistent_on_disk True s = Some (fold brelse ys s2)"
    using False s1(1) bw by (simp add: keep_consistent_on_disk_def brelse_dozens_def)
  moreover have "disk s2 (?f i) = disk s (lg_start (lm s) + i + 1)" if "i < ?n" for i
    using s2(3) [of "ys ! i"] s1(4,5) that by simp
  moreover have "disk s2 n = disk s n" if "n \<notin> ?f ` {..<?n}" for n
    using s2(4) [of n] that unfolding img by (simp add: s1(6))
  ultimately show ?thesis
    using s2(5) s1(7) by (intro that [of "fold brelse ys s2"]) simp_all
qed

text \<open>Reading the header changes the header in memory only.\<close>

lemma read_log_header_pool:
  assumes p: "pool s {}" and l: "lg_dev (lm s) = ROOTDEV" "lg_start (lm s) < FSSIZE" and n: "get32 (disk s (lg_start (lm s))) 0 \<le> LOGSIZE"
  obtains s' where "read_log_header s = Some s'" "pool s' {}" "disk s' = disk s"
    "lm s' = (lm s)\<lparr>nblks := get32 (disk s (lg_start (lm s))) 0, blks_no := (\<lambda>i. if i < get32 (disk s (lg_start (lm s))) 0
       then get32 (disk s (lg_start (lm s))) (4 + 4 * i) else blks_no (lm s) i)\<rparr>"
proof -
  have n0: "\<forall>c\<in>{}. blockno (bufs s c) \<noteq> lg_start (lm s)" "card ({} :: nat set) < NBUF" by (simp_all add: NBUF_def)
  obtain b s1 where s1: "bread ROOTDEV (lg_start (lm s)) s = Some (b, s1)" "pool s1 (insert b {})" "blockno (bufs s1 b) = lg_start (lm s)"
    "bdata (bufs s1 b) = disk s (lg_start (lm s))" "disk s1 = disk s" "other_parts s1 = other_parts s"
    by (rule pool_bread [OF p l(2) n0]) (rule that; assumption)
  have lm1: "lm s1 = lm s" using other_parts_lm [OF s1(6)] .
  define g :: "log_manager \<Rightarrow> log_manager" where "g = (\<lambda>m. m\<lparr>nblks := get32 (disk s (lg_start (lm s))) 0, blks_no := (\<lambda>i. if i < get32 (disk s (lg_start (lm s))) 0
       then get32 (disk s (lg_start (lm s))) (4 + 4 * i) else blks_no m i)\<rparr>)"
  define s2 where "s2 = upd_lm g s1"
  have s2f: "bufs s2 = bufs s1" "disk s2 = disk s1" "chained s2 = chained s1" "hash_table s2 = hash_table s1" "free_list s2 = free_list s1" "slave_ok s2 = slave_ok s1"
    by (simp_all add: s2_def upd_lm_def chained_def)
  have p2: "pool s2 (insert b {})"
    using s1(2) by (simp add: pool_def bio_inv_def s2f)
  have d2: "bdata (bufs s2 b) = disk s2 (blockno (bufs s2 b))" using s1(3-5) by (simp add: s2f)
  note br = pool_brelse [OF p2 _ d2]
  have "read_log_header s = Some (brelse b s2)"
    using s1(1,4) n by (simp add: read_log_header_def l(1) s2_def g_def Let_def cong: if_cong)
  moreover have "lm (brelse b s2) = g (lm s)"
    using other_parts_lm [OF br(4)] lm1 by (simp add: s2_def upd_lm_def)
  ultimately show ?thesis
    using br s1(5) by (intro that [of "brelse b s2"]) (simp_all add: s2f g_def)
qed

lemma write_log_header_pool:
  assumes p: "pool s {}" and l: "lg_dev (lm s) = ROOTDEV" "lg_start (lm s) < FSSIZE"
  obtains s' where "write_log_header s = Some s'" "pool s' {}" "lm s' = lm s"
    "disk s' = (disk s)(lg_start (lm s) := put_blks_no (nblks (lm s)) (blks_no (lm s)) (put32 0 (nblks (lm s)) (disk s (lg_start (lm s)))))"
proof -
  let ?h = "lg_start (lm s)"
  have n0: "\<forall>c\<in>{}. blockno (bufs s c) \<noteq> ?h" "card ({} :: nat set) < NBUF" by (simp_all add: NBUF_def)
  obtain b s1 where s1: "bread ROOTDEV ?h s = Some (b, s1)" "pool s1 (insert b {})" "blockno (bufs s1 b) = ?h"
    "bdata (bufs s1 b) = disk s ?h" "disk s1 = disk s" "other_parts s1 = other_parts s"
    by (rule pool_bread [OF p l(2) n0]) (rule that; assumption)
  have lm1: "lm s1 = lm s" using other_parts_lm [OF s1(6)] .
  define D where "D = put_blks_no (nblks (lm s)) (blks_no (lm s)) (put32 0 (nblks (lm s)) (disk s ?h))"
  define s2 where "s2 = set_data b (\<lambda>d. put_blks_no (nblks (lm s)) (blks_no (lm s)) (put32 0 (nblks (lm s)) d)) s1"
  have p2: "pool s2 {b}" unfolding s2_def set_data_def by (intro pool_upd s1(2)) auto
  have s2f: "disk s2 = disk s" "bdata (bufs s2 b) = D" "blockno (bufs s2 b) = ?h" "other_parts s2 = other_parts s"
    using s1(3-6) by (simp_all add: s2_def set_data_def D_def)
  have hyp: "set [b] \<subseteq> {b}" "distinct [b]" "mset [b] = mset [b]" "\<forall>c\<in>set [b]. blockno (bufs s2 c) < FSSIZE"
    using s2f(3) l(2) by simp_all
  obtain s3 where s3: "ide_sync_all [b] (fold mark_dirty [b] s2) = Some s3" "pool s3 {b}"
    "\<And>c. c \<in> set [b] \<Longrightarrow> blockno (bufs s3 c) = blockno (bufs s2 c) \<and> bdata (bufs s3 c) = bdata (bufs s2 c) \<and> disk s3 (blockno (bufs s2 c)) = bdata (bufs s2 c)"
    "\<And>n. n \<notin> (\<lambda>c. blockno (bufs s2 c)) ` set [b] \<Longrightarrow> disk s3 n = disk s2 n" "other_parts s3 = other_parts s2"
    by (rule pool_write_held [OF p2 hyp]) (rule that; assumption)
  have b3: "blockno (bufs s3 b) = ?h" "bdata (bufs s3 b) = D" "disk s3 ?h = D" using s3(3) [of b] s2f(2,3) by simp_all
  have d3: "disk s3 = (disk s)(?h := D)"
    using s3(4) b3(3) s2f(1,3) by (intro ext) auto
  have bw: "bwrite b s2 = Some s3" using s3(1) by (cases "ide_sync b (mark_dirty b s2)") (simp_all add: bwrite_def)
  have "pool s3 (insert b {})" "bdata (bufs s3 b) = disk s3 (blockno (bufs s3 b))" using s3(2) b3 by simp_all
  note br = pool_brelse [OF this(1) _ this(2)]
  have "write_log_header s = Some (brelse b s3)"
    using s1(1) bw lm1 by (simp add: write_log_header_def l(1) s2_def)
  moreover have "lm (brelse b s3) = lm s" using other_parts_lm br(4) s3(5) s2f(4) by (metis empty_iff)
  ultimately show ?thesis
    using br d3 by (intro that [of "brelse b s3"]) (simp_all add: D_def)
qed

section \<open>Properties\<close>

text \<open>C36: recovery installs a committed transaction: when the header of the log on the disk names \<open>n\<close> blocks, all
  different and outside the log, \<^verbatim>\<open>recover_from_log\<close> on a clean cache returns with every one of them copied from
  the log to its home location, the header cleared, and no other block changed.  It needs one buffer per
  block and one more, hence \<open>n < NBUF\<close>.\<close>

theorem recovery_installs_committed:
  assumes "pool s {}" and "lg_dev (lm s) = ROOTDEV"
    and "n = get32 (disk s (lg_start (lm s))) 0" "f = (\<lambda>i. get32 (disk s (lg_start (lm s))) (4 + 4 * i))"
    and "n < NBUF" "inj_on f {..<n}" "lg_start (lm s) + n < FSSIZE"
    and "\<forall>i<n. f i < FSSIZE \<and> f i \<notin> {lg_start (lm s)..lg_start (lm s) + n}"
  shows "\<exists>s'. recover_from_log s = Some s' \<and> pool s' {} \<and> nblks (lm s') = 0 \<and> get32 (disk s' (lg_start (lm s))) 0 = 0 \<and>
    (\<forall>i<n. disk s' (f i) = disk s (lg_start (lm s) + i + 1)) \<and>
    (\<forall>m. m \<noteq> lg_start (lm s) \<and> m \<notin> f ` {..<n} \<longrightarrow> disk s' m = disk s m)"
proof -
  let ?l = "lg_start (lm s)"
  have l: "?l < FSSIZE" "get32 (disk s ?l) 0 \<le> LOGSIZE" using assms(3,5,7) by (simp_all add: LOGSIZE_def NBUF_def)
  obtain s1 where s1: "read_log_header s = Some s1" "pool s1 {}" "disk s1 = disk s"
    "lm s1 = (lm s)\<lparr>nblks := get32 (disk s ?l) 0, blks_no := (\<lambda>i. if i < get32 (disk s ?l) 0
       then get32 (disk s ?l) (4 + 4 * i) else blks_no (lm s) i)\<rparr>"
    by (rule read_log_header_pool [OF assms(1,2) l])
  have m1: "nblks (lm s1) = n" "lg_start (lm s1) = ?l" "lg_dev (lm s1) = ROOTDEV" "\<And>i. i < n \<Longrightarrow> blks_no (lm s1) i = f i"
    using assms(2-4) by (simp_all add: s1(4))
  have img: "blks_no (lm s1) ` {..<n} = f ` {..<n}" using m1(4) by (auto intro!: image_cong)
  have ok: "header_ok (lm s1) (nblks (lm s1))"
    using assms(5-8) m1 by (auto simp: header_ok_def inj_on_def)
  obtain s2 where s2: "keep_consistent_on_disk True s1 = Some s2" "pool s2 {}" "other_parts s2 = other_parts s1"
    "\<forall>i<nblks (lm s1). disk s2 (blks_no (lm s1) i) = disk s1 (lg_start (lm s1) + i + 1)"
    "\<forall>m. m \<notin> blks_no (lm s1) ` {..<nblks (lm s1)} \<longrightarrow> disk s2 m = disk s1 m"
    by (rule keep_consistent_boot [OF s1(2) ok])
  have lm2: "lm s2 = lm s1" using other_parts_lm [OF s2(3)] .
  define s3 where "s3 = upd_lm (\<lambda>m. m\<lparr>nblks := 0\<rparr>) s2"
  have s3f: "bufs s3 = bufs s2" "disk s3 = disk s2" "chained s3 = chained s2" "hash_table s3 = hash_table s2" "free_list s3 = free_list s2" "slave_ok s3 = slave_ok s2"
    by (simp_all add: s3_def upd_lm_def chained_def)
  have p3: "pool s3 {}" using s2(2) by (simp add: pool_def bio_inv_def s3f)
  have lm3: "lg_dev (lm s3) = ROOTDEV" "lg_start (lm s3) = ?l" "nblks (lm s3) = 0" using m1 lm2 by (simp_all add: s3_def upd_lm_def)
  obtain s4 where s4: "write_log_header s3 = Some s4" "pool s4 {}" "lm s4 = lm s3"
    "disk s4 = (disk s3)(lg_start (lm s3) := put_blks_no (nblks (lm s3)) (blks_no (lm s3)) (put32 0 (nblks (lm s3)) (disk s3 (lg_start (lm s3)))))"
    by (rule write_log_header_pool [OF p3]) (use lm3 l in simp_all)
  have d4: "disk s4 = (disk s2)(?l := put32 0 0 (disk s2 ?l))" using s4(4) by (simp add: lm3 s3f)
  have ex: "recover_from_log s = Some s4"
    using s1(1) s2(1) s4(1) by (simp add: recover_from_log_def clear_log_def s3_def)
  have nl: "f i \<noteq> ?l" if "i < n" for i using assms(8) that by auto
  show ?thesis
  proof (intro exI [of _ s4] conjI allI impI)
    show "disk s4 (f i) = disk s (?l + i + 1)" if "i < n" for i
      using s2(4) that nl m1 s1(3) by (simp add: d4)
    show "disk s4 m = disk s m" if "m \<noteq> ?l \<and> m \<notin> f ` {..<n}" for m
      using s2(5) that m1(1) s1(3) by (simp add: d4 img)
  qed (use ex s4 lm3 d4 in simp_all)
qed

lemma tiny_fs_pool: "pool tiny_fs {}"
  using tiny_fs_inv by (auto simp: pool_def chained_def tiny_fs_sel)

text \<open>A disk with the committed block 4321 in the log.\<close>

definition crashed_fs :: fs where
  "crashed_fs = tiny_fs\<lparr>disk := (\<lambda>_ _. 0)(2 := put32 4 4321 (put32 0 1 (\<lambda>_. 0)), 3 := (\<lambda>_. 9))\<rparr>"

theorem recovery_installs_committed_witness:
  "\<exists>s'. recover_from_log crashed_fs = Some s' \<and> disk s' 4321 = (\<lambda>_. 9) \<and> get32 (disk s' 2) 0 = 0"
proof -
  have f: "bufs crashed_fs = bufs tiny_fs" "chained crashed_fs = {}" "hash_table crashed_fs = (\<lambda>_. [])" "free_list crashed_fs = free_list tiny_fs"
    "slave_ok crashed_fs" "lm crashed_fs = lm tiny_fs"
    by (simp_all add: crashed_fs_def chained_def tiny_fs_sel)
  have p: "pool crashed_fs {}" using tiny_fs_pool by (auto simp: pool_def bio_inv_def f tiny_fs_sel)
  have h: "get32 (disk crashed_fs 2) 0 = 1" "get32 (disk crashed_fs 2) 4 = 4321" by (simp_all add: crashed_fs_def)
  have l: "lm crashed_fs = \<lparr>lg_dev = ROOTDEV, lg_size = 120, lg_start = 2, committing = False, n_occupiers = 1, nblks = 0, blks_no = (\<lambda>_. 0)\<rparr>"
    by (simp add: f tiny_fs_sel)
  have "\<exists>s'. recover_from_log crashed_fs = Some s' \<and> pool s' {} \<and> nblks (lm s') = 0 \<and> get32 (disk s' (lg_start (lm crashed_fs))) 0 = 0 \<and>
    (\<forall>i<1. disk s' ((\<lambda>i. get32 (disk crashed_fs (lg_start (lm crashed_fs))) (4 + 4 * i)) i) = disk crashed_fs (lg_start (lm crashed_fs) + i + 1)) \<and>
    (\<forall>m. m \<noteq> lg_start (lm crashed_fs) \<and> m \<notin> (\<lambda>i. get32 (disk crashed_fs (lg_start (lm crashed_fs))) (4 + 4 * i)) ` {..<1} \<longrightarrow> disk s' m = disk crashed_fs m)"
    by (rule recovery_installs_committed [OF p]) (simp_all add: l h NBUF_def FSSIZE_def inj_on_def)
  then show ?thesis by (simp add: l h) (auto simp: crashed_fs_def)
qed

text \<open>Transactions reserve log space: \<^verbatim>\<open>begin_transaction\<close> admits an operation exactly when no commit is running
  and the blocks logged so far plus \<open>MAXOPBLOCKS\<close> for every open operation, the new one included, fit into the
  log; while this bound holds, an operation that logs a block can do so without exceeding the header.\<close>

theorem transaction_reserves_space:
  "(begin_transaction s \<noteq> None \<longleftrightarrow> \<not> committing (lm s) \<and> nblks (lm s) + (n_occupiers (lm s) + 1) * MAXOPBLOCKS \<le> LOGSIZE) \<and>
   (\<forall>s'. begin_transaction s = Some s' \<longrightarrow> n_occupiers (lm s') = n_occupiers (lm s) + 1 \<and>
      nblks (lm s') + n_occupiers (lm s') * MAXOPBLOCKS \<le> LOGSIZE \<and> nblks (lm s') < LOGSIZE \<and>
      (LOGSIZE < lg_size (lm s') \<longrightarrow> log_room s'))"
proof (intro conjI allI impI)
  show "begin_transaction s \<noteq> None \<longleftrightarrow> \<not> committing (lm s) \<and> nblks (lm s) + (n_occupiers (lm s) + 1) * MAXOPBLOCKS \<le> LOGSIZE"
    by (simp add: begin_transaction_def not_less)
  fix s' assume "begin_transaction s = Some s'"
  then have s': "s' = upd_lm (\<lambda>m. m\<lparr>n_occupiers := n_occupiers m + 1\<rparr>) s" and le: "nblks (lm s) + (n_occupiers (lm s) + 1) * MAXOPBLOCKS \<le> LOGSIZE"
    by (simp_all add: begin_transaction_def split: if_splits)
  show 1: "n_occupiers (lm s') = n_occupiers (lm s) + 1" by (simp add: s' upd_lm_def)
  show "nblks (lm s') + n_occupiers (lm s') * MAXOPBLOCKS \<le> LOGSIZE" using le by (simp add: s' upd_lm_def)
  show 2: "nblks (lm s') < LOGSIZE" using le by (simp add: s' upd_lm_def MAXOPBLOCKS_def)
  show "log_room s'" if "LOGSIZE < lg_size (lm s')" using 1 2 that by (simp add: log_room_def)
qed

theorem transaction_reserves_space_witness: "begin_transaction tiny_fs \<noteq> None"
  using transaction_reserves_space [of tiny_fs] by (simp add: tiny_fs_sel MAXOPBLOCKS_def LOGSIZE_def)

end
