(* ===== verification/Inode.thy ===== *)
theory Inode
  imports Log
begin

text \<open>
  Inodes, directories and path names (kern/inode.c).  Inodes in memory are numbered; the inode cache has a free
  list and hash chains.  The lock of an inode is held by the running process or free; a lock that cannot be taken
  does not come back.  A pointer that the code tests for NULL is a \<^typ>\<open>nat option\<close>; a local variable that may be
  used before it is assigned has one \<open>option\<close> more.  Names are the bytes of a C string without the
  terminator.
\<close>

section \<open>The inode cache\<close>

definition inode_zero :: inode where
  "inode_zero = \<lparr>idev = 0, ino = 0, iref_cnt = 0, ivalid = False, ilocked = False, itype = 0, imajor = 0, iminor = 0,
     nlink = 0, file_siz = 0, blk_addrs = (\<lambda>_. 0)\<rparr>"

definition inode_init :: "fs \<Rightarrow> fs option" where
  "inode_init s = read_superblock ROOTDEV
     (s\<lparr>inodes := (\<lambda>i. if i < NINODE then inode_zero else inodes s i), i_free := rev [0..<NINODE], i_hash := (\<lambda>_. []),
        icache_locked := False\<rparr>)"

definition icache_hash_func :: "nat \<Rightarrow> nat \<Rightarrow> nat" where
  "icache_hash_func dev n = (dev * 5 + n) mod 2 ^ 32 mod HASHSLOT"

definition find_inode_in_hash :: "nat \<Rightarrow> nat \<Rightarrow> fs \<Rightarrow> nat option" where
  "find_inode_in_hash dev n s = find (\<lambda>i. idev (inodes s i) = dev \<and> ino (inodes s i) = n) (i_hash s (icache_hash_func dev n))"

definition put_inode_in_hash :: "nat \<Rightarrow> fs \<Rightarrow> fs" where
  "put_inode_in_hash i s =
     (let slot = icache_hash_func (idev (inodes s i)) (ino (inodes s i)) in
      s\<lparr>i_hash := (i_hash s)(slot := i_hash s slot @ [i])\<rparr>)"

text \<open>The second half of \<^verbatim>\<open>iget\<close>, which takes the first inode of the free list.  Taking the spin lock of the cache a
  second time panics; \<^verbatim>\<open>iget\<close> keeps the lock when it finds neither the inode nor a free one.\<close>

definition iget_new :: "nat \<Rightarrow> nat \<Rightarrow> fs \<Rightarrow> nat option \<times> fs" where
  "iget_new dev n s =
     (case i_free s of [] \<Rightarrow> (None, s\<lparr>icache_locked := True\<rparr>)
      | i # fl \<Rightarrow>
          let s = s\<lparr>i_free := fl\<rparr>;
              s = upd_inode i (\<lambda>r. r\<lparr>iref_cnt := 1, idev := dev, ino := n, ivalid := False\<rparr>) s;
              s = s\<lparr>i_hash := (\<lambda>k. removeAll i (i_hash s k))\<rparr>
          in (Some i, put_inode_in_hash i s))"

definition iget :: "nat \<Rightarrow> nat \<Rightarrow> fs \<Rightarrow> (nat option \<times> fs) option" where
  "iget dev n s =
     (if icache_locked s then None
      else case find_inode_in_hash dev n s of
        Some i \<Rightarrow>
          if 0 < iref_cnt (inodes s i)
          then Some (Some i, upd_inode i (\<lambda>r. r\<lparr>iref_cnt := (iref_cnt r + 1) mod 2 ^ 32\<rparr>) (s\<lparr>i_free := removeAll i (i_free s)\<rparr>))
          else Some (iget_new dev n s)
      | None \<Rightarrow> Some (iget_new dev n s))"

section \<open>Inodes on disk\<close>

definition IBLOCK :: "nat \<Rightarrow> fs \<Rightarrow> nat" where
  "IBLOCK n s = n div IPB + inode_start (sb s)"

definition d_inode_off :: "nat \<Rightarrow> nat" where
  "d_inode_off n = 64 * (n mod IPB)"

fun put_addrs :: "nat \<Rightarrow> nat \<Rightarrow> (nat \<Rightarrow> nat) \<Rightarrow> block \<Rightarrow> block" where
  "put_addrs 0 off f d = d"
| "put_addrs (Suc n) off f d = put32 (off + 12 + 4 * n) (f n) (put_addrs n off f d)"

definition put_d_inode :: "nat \<Rightarrow> inode \<Rightarrow> block \<Rightarrow> block" where
  "put_d_inode off r d = put_addrs (NDIRECT + 2) off (blk_addrs r) (put32 (off + 8) (file_siz r) (put16 (off + 6) (nlink r)
     (put16 (off + 4) (iminor r) (put16 (off + 2) (imajor r) (put16 off (itype r) d)))))"

definition get_d_inode :: "nat \<Rightarrow> block \<Rightarrow> inode \<Rightarrow> inode" where
  "get_d_inode off d r = r\<lparr>itype := get16 d off, imajor := get16 d (off + 2), iminor := get16 d (off + 4),
     nlink := get16 d (off + 6), file_siz := get32 d (off + 8),
     blk_addrs := (\<lambda>j. if j < NDIRECT + 2 then get32 d (off + 12 + 4 * j) else blk_addrs r j)\<rparr>"

fun ialloc_from :: "nat \<Rightarrow> nat \<Rightarrow> nat list \<Rightarrow> fs \<Rightarrow> (nat option \<times> fs) option" where
  "ialloc_from dev type [] s = Some (None, s)"
| "ialloc_from dev type (n # ns) s = do {
     (b, s) \<leftarrow> bread dev (IBLOCK n s) s;
     if get16 (bdata (bufs s b)) (d_inode_off n) = 0
     then do {
       let off = d_inode_off n;
       let s = set_data b (\<lambda>d. put16 off type (\<lambda>j. if off \<le> j \<and> j < off + 64 then 0 else d j)) s;
       iget dev n (log_and_release b s)
     }
     else ialloc_from dev type ns (brelse b s)
   }"

definition ialloc :: "nat \<Rightarrow> nat \<Rightarrow> fs \<Rightarrow> (nat option \<times> fs) option" where
  "ialloc dev type s = ialloc_from dev type [1..<inode_blks (sb s)] s"

section \<open>Locking, updating and releasing inodes\<close>

definition ilock :: "nat option \<Rightarrow> fs \<Rightarrow> (int \<times> fs) option" where
  "ilock ip s =
     (case ip of None \<Rightarrow> Some (- 1, s)
      | Some i \<Rightarrow>
          if iref_cnt (inodes s i) < 1 then Some (- 1, s)
          else if ilocked (inodes s i) then None
          else do {
            let s = upd_inode i (\<lambda>r. r\<lparr>ilocked := True\<rparr>) s;
            if ivalid (inodes s i) then Some (0, s)
            else do {
              (b, s) \<leftarrow> bread (idev (inodes s i)) (IBLOCK (ino (inodes s i)) s) s;
              let s = upd_inode i (get_d_inode (d_inode_off (ino (inodes s i))) (bdata (bufs s b))) s;
              let s = brelse b s;
              if itype (inodes s i) = 0 then None
              else Some (0, upd_inode i (\<lambda>r. r\<lparr>ivalid := True\<rparr>) s)
            }
          })"

definition iunlock :: "nat option \<Rightarrow> fs \<Rightarrow> int \<times> fs" where
  "iunlock ip s =
     (case ip of None \<Rightarrow> (- 1, s)
      | Some i \<Rightarrow> if \<not> ilocked (inodes s i) \<or> iref_cnt (inodes s i) < 1 then (- 1, s)
                 else (0, upd_inode i (\<lambda>r. r\<lparr>ilocked := False\<rparr>) s))"

definition iupdate :: "nat \<Rightarrow> fs \<Rightarrow> fs option" where
  "iupdate i s = do {
     (b, s) \<leftarrow> bread (idev (inodes s i)) (IBLOCK (ino (inodes s i)) s) s;
     let s = set_data b (put_d_inode (d_inode_off (ino (inodes s i))) (inodes s i)) s;
     Some (log_and_release b s)
   }"

text \<open>The loops of \<^verbatim>\<open>ifree\<close>: over the direct addresses, over the entries of an indirect block, and over the
  indirect blocks of a double-indirect block.\<close>

fun free_direct :: "nat \<Rightarrow> nat list \<Rightarrow> fs \<Rightarrow> fs option" where
  "free_direct i [] s = Some s"
| "free_direct i (j # js) s =
     (if blk_addrs (inodes s i) j \<noteq> 0
      then do {
        (_, s) \<leftarrow> bfree (idev (inodes s i)) (blk_addrs (inodes s i) j) s;
        free_direct i js (upd_inode i (\<lambda>r. r\<lparr>blk_addrs := (blk_addrs r)(j := 0)\<rparr>) s)
      }
      else free_direct i js s)"

fun free_entries :: "nat \<Rightarrow> nat \<Rightarrow> nat list \<Rightarrow> fs \<Rightarrow> fs option" where
  "free_entries dev b [] s = Some s"
| "free_entries dev b (j # js) s =
     (if get32 (bdata (bufs s b)) (4 * j) \<noteq> 0
      then do { (_, s) \<leftarrow> bfree dev (get32 (bdata (bufs s b)) (4 * j)) s; free_entries dev b js s }
      else free_entries dev b js s)"

fun free_indirects :: "nat \<Rightarrow> nat \<Rightarrow> nat list \<Rightarrow> fs \<Rightarrow> fs option" where
  "free_indirects dev b2 [] s = Some s"
| "free_indirects dev b2 (j # js) s =
     (if get32 (bdata (bufs s b2)) (4 * j) = 0 then free_indirects dev b2 js s
      else do {
        (b, s) \<leftarrow> bread dev (get32 (bdata (bufs s b2)) (4 * j)) s;
        s \<leftarrow> free_entries dev b [0..<NINDIRECT] s;
        let s = brelse b s;
        (_, s) \<leftarrow> bfree dev (get32 (bdata (bufs s b2)) (4 * j)) s;
        free_indirects dev b2 js (set_data b2 (put32 (4 * j) 0) s)
      })"

definition clear_addr :: "nat \<Rightarrow> nat \<Rightarrow> fs \<Rightarrow> fs option" where
  "clear_addr i k s = do {
     (_, s) \<leftarrow> bfree (idev (inodes s i)) (blk_addrs (inodes s i) k) s;
     Some (upd_inode i (\<lambda>r. r\<lparr>blk_addrs := (blk_addrs r)(k := 0)\<rparr>) s)
   }"

definition ifree :: "nat \<Rightarrow> fs \<Rightarrow> fs option" where
  "ifree i s = do {
     s \<leftarrow> free_direct i [0..<NDIRECT] s;
     s \<leftarrow> (if blk_addrs (inodes s i) NDIRECT \<noteq> 0
           then do {
             (b, s) \<leftarrow> bread (idev (inodes s i)) (blk_addrs (inodes s i) NDIRECT) s;
             s \<leftarrow> free_entries (idev (inodes s i)) b [0..<NINDIRECT] s;
             clear_addr i NDIRECT (brelse b s)
           }
           else Some s);
     s \<leftarrow> (if blk_addrs (inodes s i) (NDIRECT + 1) \<noteq> 0
           then do {
             (b2, s) \<leftarrow> bread (idev (inodes s i)) (blk_addrs (inodes s i) (NDIRECT + 1)) s;
             s \<leftarrow> free_indirects (idev (inodes s i)) b2 [0..<NINDIRECT] s;
             clear_addr i (NDIRECT + 1) (brelse b2 s)
           }
           else Some s);
     iupdate i (upd_inode i (\<lambda>r. r\<lparr>file_siz := 0\<rparr>) s)
   }"

definition iput :: "nat \<Rightarrow> fs \<Rightarrow> fs option" where
  "iput i s =
     (if ilocked (inodes s i) then None
      else do {
        let s = upd_inode i (\<lambda>r. r\<lparr>ilocked := True\<rparr>) s;
        s \<leftarrow> (if ivalid (inodes s i) \<and> nlink (inodes s i) = 0
              then if icache_locked s then None
                   else if iref_cnt (inodes s i) = 1
                   then do {
                     s \<leftarrow> ifree i s;
                     s \<leftarrow> iupdate i (upd_inode i (\<lambda>r. r\<lparr>itype := 0\<rparr>) s);
                     Some (upd_inode i (\<lambda>r. r\<lparr>ivalid := False\<rparr>) s)
                   }
                   else Some s
              else Some s);
        if icache_locked s then None
        else do {
          let s = upd_inode i (\<lambda>r. r\<lparr>iref_cnt := (iref_cnt r + 2 ^ 32 - 1) mod 2 ^ 32\<rparr>) s;
          let s = (if iref_cnt (inodes s i) = 0 then s\<lparr>i_free := i_free s @ [i]\<rparr> else s);
          Some (upd_inode i (\<lambda>r. r\<lparr>ilocked := False\<rparr>) s)
        }
      })"

definition iunlockput :: "nat option \<Rightarrow> fs \<Rightarrow> fs option" where
  "iunlockput ip s = (case (ip, iunlock ip s) of (Some i, r, s) \<Rightarrow> (if r = 0 then iput i s else Some s) | (None, _, s) \<Rightarrow> Some s)"

definition iref :: "nat \<Rightarrow> fs \<Rightarrow> (nat \<times> fs) option" where
  "iref i s =
     (if icache_locked s then None
      else Some (i, upd_inode i (\<lambda>r. r\<lparr>iref_cnt := (iref_cnt r + 1) mod 2 ^ 32\<rparr>) s))"

section \<open>The blocks of a file\<close>

text \<open>One level of \<^verbatim>\<open>bmap\<close>: an address of the inode, or an entry of an indirect block, is filled with a new block
  when it is 0.  When the disk is full the buffer of the indirect block is not released.\<close>

definition bmap_addr :: "nat \<Rightarrow> nat \<Rightarrow> fs \<Rightarrow> (nat \<times> fs) option" where
  "bmap_addr i k s =
     (if blk_addrs (inodes s i) k = 0
      then do {
        (addr, s) \<leftarrow> balloc (idev (inodes s i)) s;
        if addr = 0 then Some (0, s)
        else Some (addr, upd_inode i (\<lambda>r. r\<lparr>blk_addrs := (blk_addrs r)(k := addr)\<rparr>) s)
      }
      else Some (blk_addrs (inodes s i) k, s))"

definition bmap_entry :: "nat \<Rightarrow> nat \<Rightarrow> nat \<Rightarrow> fs \<Rightarrow> (nat \<times> fs) option" where
  "bmap_entry dev blkno k s = do {
     (b, s) \<leftarrow> bread dev blkno s;
     if get32 (bdata (bufs s b)) (4 * k) = 0
     then do {
       (addr, s) \<leftarrow> balloc dev s;
       if addr = 0 then Some (0, s)
       else Some (addr, log_and_release b (set_data b (put32 (4 * k) addr) s))
     }
     else Some (get32 (bdata (bufs s b)) (4 * k), brelse b s)
   }"

text \<open>In the double-indirect level a failed allocation is stored in the entry before it is tested.  The last index is
  \<open>r - 1\<close>: for \<open>r = 0\<close> the access is in front of the block.\<close>

definition bmap_entry2 :: "nat \<Rightarrow> nat \<Rightarrow> nat \<Rightarrow> fs \<Rightarrow> (nat \<times> fs) option" where
  "bmap_entry2 dev blkno k s = do {
     (b, s) \<leftarrow> bread dev blkno s;
     if get32 (bdata (bufs s b)) (4 * k) = 0
     then do {
       (addr, s) \<leftarrow> balloc dev s;
       let s = set_data b (put32 (4 * k) addr) s;
       if addr = 0 then Some (0, s)
       else Some (addr, log_and_release b s)
     }
     else Some (get32 (bdata (bufs s b)) (4 * k), brelse b s)
   }"

definition bmap :: "nat \<Rightarrow> nat \<Rightarrow> fs \<Rightarrow> (nat \<times> fs) option" where
  "bmap i lblkno s =
     (if lblkno < NDIRECT then bmap_addr i lblkno s
      else let lblkno = lblkno - NDIRECT in
      if lblkno < NINDIRECT
      then do {
        (addr, s) \<leftarrow> bmap_addr i NDIRECT s;
        if addr = 0 then Some (0, s) else bmap_entry (idev (inodes s i)) addr lblkno s
      }
      else let lblkno = lblkno - NINDIRECT in
      if lblkno < NDINDIRECT
      then do {
        (addr, s) \<leftarrow> bmap_addr i (NDIRECT + 1) s;
        if addr = 0 then Some (0, s)
        else do {
          (addr, s) \<leftarrow> bmap_entry2 (idev (inodes s i)) addr (lblkno div NINDIRECT) s;
          if addr = 0 then Some (0, s)
          else if lblkno mod NINDIRECT = 0 then None
          else bmap_entry (idev (inodes s i)) addr (lblkno mod NINDIRECT - 1) s
        }
      }
      else Some (0, s))"

section \<open>Reading and writing\<close>

text \<open>A \<^verbatim>\<open>uint32_t\<close> returned as \<^verbatim>\<open>int\<close>.\<close>

definition int32 :: "nat \<Rightarrow> int" where
  "int32 n = (if n < 2 ^ 31 then int n else int n - 2 ^ 32)"

definition u32add :: "nat \<Rightarrow> nat \<Rightarrow> nat" where
  "u32add a b = (a + b) mod 2 ^ 32"

definition get_bytes :: "block \<Rightarrow> nat \<Rightarrow> nat \<Rightarrow> u8 list" where
  "get_bytes d off k = map (\<lambda>j. d (off + j)) [0..<k]"

definition put_bytes :: "nat \<Rightarrow> u8 list \<Rightarrow> block \<Rightarrow> block" where
  "put_bytes off xs d = (\<lambda>j. if off \<le> j \<and> j < off + length xs then xs ! (j - off) else d j)"

text \<open>The number of bytes of one round of the loops, and the loops; \<open>n\<close> is the number of bytes left.\<close>

definition chunk :: "nat \<Rightarrow> nat \<Rightarrow> nat" where
  "chunk off n = min n (BLKSIZE - off mod BLKSIZE)"

lemma chunk_pos: "0 < n \<Longrightarrow> 0 < chunk off n"
  by (simp add: chunk_def BLKSIZE_def)

function readi_loop :: "nat \<Rightarrow> nat \<Rightarrow> nat \<Rightarrow> fs \<Rightarrow> (u8 list \<times> fs) option" where
  "readi_loop i off n s =
     (if n = 0 then Some ([], s)
      else do {
        (blkno, s) \<leftarrow> bmap i (off div BLKSIZE) s;
        (b, s) \<leftarrow> bread (idev (inodes s i)) blkno s;
        let k = chunk off n;
        let xs = get_bytes (bdata (bufs s b)) (off mod BLKSIZE) k;
        (ys, s) \<leftarrow> readi_loop i (u32add off k) (n - k) (brelse b s);
        Some (xs @ ys, s)
      })"
  by pat_completeness auto
termination
  by (relation "measure (\<lambda>(i, off, n, s). n)") (auto simp: chunk_pos)

definition readi :: "nat \<Rightarrow> nat \<Rightarrow> nat \<Rightarrow> fs \<Rightarrow> (int \<times> u8 list \<times> fs) option" where
  "readi i off n s =
     (if itype (inodes s i) = T_DEV
      then Some (if NDEV \<le> imajor (inodes s i) then (- E_BAD_DEV, [], s)
                 else case dev_read s (imajor (inodes s i)) of None \<Rightarrow> (- E_BAD_DEV, [], s)
                   | Some f \<Rightarrow> (case f i n of (r, xs) \<Rightarrow> (r, xs, s)))
      else if file_siz (inodes s i) < off \<or> u32add off n < off then Some (- E_BAD_OFFSET, [], s)
      else do {
        let n = (if file_siz (inodes s i) < u32add off n then file_siz (inodes s i) - off else n);
        (xs, s) \<leftarrow> readi_loop i off n s;
        Some (int32 n, xs, s)
      })"

text \<open>The loop of \<^verbatim>\<open>writei\<close> also returns the final offset.  Reading behind the end of the source does not
  come back.\<close>

function writei_loop :: "nat \<Rightarrow> u8 list \<Rightarrow> nat \<Rightarrow> nat \<Rightarrow> fs \<Rightarrow> (nat \<times> fs) option" where
  "writei_loop i src off n s =
     (if n = 0 then Some (off, s)
      else do {
        (blkno, s) \<leftarrow> bmap i (off div BLKSIZE) s;
        (b, s) \<leftarrow> bread (idev (inodes s i)) blkno s;
        let k = chunk off n;
        if length src < k then None
        else do {
          let s = set_data b (put_bytes (off mod BLKSIZE) (take k src)) s;
          writei_loop i (drop k src) (u32add off k) (n - k) (log_and_release b s)
        }
      })"
  by pat_completeness auto
termination
  by (relation "measure (\<lambda>(i, src, off, n, s). n)") (auto simp: chunk_pos)

declare readi_loop.simps [simp del] writei_loop.simps [simp del]

definition writei :: "nat \<Rightarrow> u8 list \<Rightarrow> nat \<Rightarrow> nat \<Rightarrow> fs \<Rightarrow> (int \<times> fs) option" where
  "writei i src off n s =
     (if itype (inodes s i) = T_DEV
      then Some (if NDEV \<le> imajor (inodes s i) then (- E_BAD_DEV, s)
                 else case dev_write s (imajor (inodes s i)) of None \<Rightarrow> (- E_BAD_DEV, s) | Some f \<Rightarrow> (f i (take n src), s))
      else if file_siz (inodes s i) < off \<or> u32add off n < off then Some (- E_BAD_OFFSET, s)
      else do {
        let n = (if MAXFILESIZ < u32add off n then (MAXFILESIZ + 2 ^ 32 - off) mod 2 ^ 32 else n);
        (off', s) \<leftarrow> writei_loop i src off n s;
        s \<leftarrow> (if file_siz (inodes s i) < off' then iupdate i (upd_inode i (\<lambda>r. r\<lparr>file_siz := off'\<rparr>) s) else Some s);
        Some (int32 n, s)
      })"

section \<open>Directories\<close>

text \<open>\<^verbatim>\<open>strncmp\<close> and \<^verbatim>\<open>strncpy\<close> of lib/string.c on names.  The end of a list reads as the terminator.  \<^verbatim>\<open>strncpy\<close>
  writes into a buffer of the given length; writing behind it does not come back.\<close>

fun strncmp_name :: "u8 list \<Rightarrow> u8 list \<Rightarrow> nat \<Rightarrow> int" where
  "strncmp_name xs ys 0 = 0"
| "strncmp_name xs ys (Suc n) =
     (let c = (case xs of [] \<Rightarrow> 0 | x # _ \<Rightarrow> x); d = (case ys of [] \<Rightarrow> 0 | y # _ \<Rightarrow> y) in
      if c \<noteq> 0 \<and> c = d then strncmp_name (tl xs) (tl ys) n else uint c - uint d)"

fun strncpy_buf :: "u8 list \<Rightarrow> nat \<Rightarrow> u8 list \<Rightarrow> int \<Rightarrow> u8 list option" where
  "strncpy_buf buf k src n =
     (if length buf \<le> k then None
      else case src of
        c # src' \<Rightarrow>
          if c \<noteq> 0 \<and> 0 < n - 1 then strncpy_buf (buf[k := c]) (Suc k) src' (n - 1)
          else if length buf \<le> Suc k then None else Some (buf[k := c, Suc k := 0])
      | [] \<Rightarrow> if length buf \<le> Suc k then None else Some (buf[k := 0, Suc k := 0]))"

definition cstr :: "u8 list \<Rightarrow> u8 list" where
  "cstr buf = takeWhile (\<lambda>c. c \<noteq> 0) buf"

definition dirent_ino :: "u8 list \<Rightarrow> nat" where
  "dirent_ino xs = unat (xs ! 0) + 256 * unat (xs ! 1)"

definition dirent_name :: "u8 list \<Rightarrow> u8 list" where
  "dirent_name xs = drop 2 xs"

text \<open>\<^verbatim>\<open>dirlookup\<close> stores the inode through \<^verbatim>\<open>istore\<close> and its offset only when it finds the name; \<open>ist\<close> is the old value
  of the variable.\<close>

fun dirlookup_from :: "nat \<Rightarrow> u8 list \<Rightarrow> nat option option \<Rightarrow> nat list \<Rightarrow> fs \<Rightarrow> (int \<times> nat option option \<times> nat \<times> fs) option" where
  "dirlookup_from di name ist [] s = Some (- E_FILE_EXISTS, ist, 0, s)"
| "dirlookup_from di name ist (off # offs) s = do {
     (r, ent, s) \<leftarrow> readi di off DIRENT_SIZE s;
     if r \<noteq> int DIRENT_SIZE then Some (r, ist, 0, s)
     else if dirent_ino ent = 0 then dirlookup_from di name ist offs s
     else if strncmp_name (dirent_name ent) name DIRSIZ = 0
     then do {
       (ip, s) \<leftarrow> iget (idev (inodes s di)) (dirent_ino ent) s;
       Some (0, Some ip, off, s)
     }
     else dirlookup_from di name ist offs s
   }"

definition dirent_offsets :: "nat \<Rightarrow> nat list" where
  "dirent_offsets siz = map ((*) DIRENT_SIZE) [0..<(siz + DIRENT_SIZE - 1) div DIRENT_SIZE]"

definition dirlookup :: "nat \<Rightarrow> u8 list \<Rightarrow> nat option option \<Rightarrow> fs \<Rightarrow> (int \<times> nat option option \<times> nat \<times> fs) option" where
  "dirlookup di name ist s =
     (if itype (inodes s di) \<noteq> T_DIR then Some (- E_BAD_PATH, ist, 0, s)
      else dirlookup_from di name ist (dirent_offsets (file_siz (inodes s di))) s)"

text \<open>The search of \<^verbatim>\<open>dirlink\<close> for a free entry, with the entry read last; behind the last entry the offset is the size
  rounded up.  The bytes of the local entry that are never written are taken as 0.\<close>

fun find_free_entry :: "nat \<Rightarrow> nat list \<Rightarrow> nat \<Rightarrow> u8 list \<Rightarrow> fs \<Rightarrow> (nat \<times> u8 list \<times> fs) option" where
  "find_free_entry di [] endoff ent s = Some (endoff, ent, s)"
| "find_free_entry di (off # offs) endoff ent s = do {
     (r, ent, s) \<leftarrow> readi di off DIRENT_SIZE s;
     if r \<noteq> int DIRENT_SIZE then None
     else if dirent_ino ent = 0 then Some (off, ent, s)
     else find_free_entry di offs endoff ent s
   }"

definition dirlink :: "nat \<Rightarrow> u8 list \<Rightarrow> nat \<Rightarrow> fs \<Rightarrow> (int \<times> fs) option" where
  "dirlink di name n s = do {
     (r, ist, _, s) \<leftarrow> dirlookup di name None s;
     if r = 0 then do { ip \<leftarrow> ist; i \<leftarrow> ip; s \<leftarrow> iput i s; Some (- 1, s) }
     else do {
       let offs = dirent_offsets (file_siz (inodes s di));
       (off, ent, s) \<leftarrow> find_free_entry di offs (DIRENT_SIZE * length offs) (replicate DIRENT_SIZE 0) s;
       nm \<leftarrow> strncpy_buf (dirent_name ent) 0 (name @ [0]) (int DIRSIZ);
       (r, s) \<leftarrow> writei di ([of_nat n, of_nat (n div 256)] @ nm) off DIRENT_SIZE s;
       if r \<noteq> int DIRENT_SIZE then None else Some (0, s)
     }
   }"

section \<open>Path names\<close>

definition slash :: u8 where "slash = 47"

text \<open>The loop of \<^verbatim>\<open>namex\<close> on the rest of the path; \<open>nx\<close> is the local variable \<^verbatim>\<open>next\<close>.  The result is the inode and
  the name in the buffer of the caller.\<close>

function namex_loop :: "bool \<Rightarrow> nat option \<Rightarrow> nat option option \<Rightarrow> u8 list \<Rightarrow> fs \<Rightarrow> (nat option \<times> u8 list \<times> fs) option" where
  "namex_loop nameiparent curi nx start s = do {
     (_, s) \<leftarrow> ilock curi s;
     let comp = takeWhile (\<lambda>c. c \<noteq> slash) start;
     let rest = dropWhile (\<lambda>c. c \<noteq> slash) start;
     buf \<leftarrow> strncpy_buf (replicate DIRSIZ 0) 0 (start @ [0]) (int (length comp));
     let name = cstr buf;
     if rest = [] \<and> nameiparent then Some (curi, name, snd (iunlock curi s))
     else do {
       di \<leftarrow> curi;
       (r, nx, _, s) \<leftarrow> dirlookup di name nx s;
       if r < 0 then do { s \<leftarrow> iunlockput curi s; Some (None, name, s) }
       else do {
         s \<leftarrow> iunlockput curi s;
         curi \<leftarrow> nx;
         if rest = [] \<or> tl rest = [] then Some (curi, name, s)
         else namex_loop nameiparent curi nx (tl rest) s
       }
     }
   }"
  by pat_completeness auto
termination
proof (relation "measure (\<lambda>(p, c, nx, start, s). length start)", goal_cases)
  case (2 nameiparent curi nx start s)
  have le: "length (dropWhile (\<lambda>c. c \<noteq> slash) start) \<le> length start" by (rule length_dropWhile_le)
  show ?case
  proof (cases "dropWhile (\<lambda>c. c \<noteq> slash) start")
    case (Cons a list)
    then show ?thesis using 2 le by simp
  qed (use 2 in simp)
qed simp

declare namex_loop.simps [simp del]

text \<open>The name is absent when \<^verbatim>\<open>namex\<close> has not written the buffer.\<close>

definition namex :: "u8 list \<Rightarrow> bool \<Rightarrow> fs \<Rightarrow> (nat option \<times> u8 list option \<times> fs) option" where
  "namex path nameiparent s =
     (case path of
        c # start \<Rightarrow>
          if c = slash
          then do {
            (curi, s) \<leftarrow> iget ROOTDEV ROOTINO s;
            if start = [] then Some (curi, None, s)
            else do { (ip, name, s) \<leftarrow> namex_loop nameiparent curi None start s; Some (ip, Some name, s) }
          }
          else do {
            (curi, s) \<leftarrow> iref (pwd s) s;
            (ip, name, s) \<leftarrow> namex_loop nameiparent (Some curi) None path s;
            Some (ip, Some name, s)
          }
      | [] \<Rightarrow> do {
          (curi, s) \<leftarrow> iref (pwd s) s;
          (ip, name, s) \<leftarrow> namex_loop nameiparent (Some curi) None path s;
          Some (ip, Some name, s)
        })"

definition namei :: "u8 list \<Rightarrow> fs \<Rightarrow> (nat option \<times> fs) option" where
  "namei path s = do { (ip, _, s) \<leftarrow> namex path False s; Some (ip, s) }"

definition namep :: "u8 list \<Rightarrow> fs \<Rightarrow> (nat option \<times> u8 list option \<times> fs) option" where
  "namep path s = namex path True s"

record stat =
  st_type :: nat
  st_dev :: nat
  st_ino :: nat
  st_nlink :: nat
  st_size :: nat

definition stati :: "nat option \<Rightarrow> stat \<Rightarrow> fs \<Rightarrow> stat" where
  "stati ip st s =
     (case ip of None \<Rightarrow> st
      | Some i \<Rightarrow> let r = inodes s i in
          st\<lparr>st_dev := idev r, st_ino := ino r, st_size := file_siz r, st_type := itype r, st_nlink := nlink r\<rparr>)"

end
