(* ===== verification/Inode_Props.thy ===== *)
theory Inode_Props
  imports Inode Log_Props
begin

text \<open>
  Inodes over the block cache.  \<open>ready k s\<close> describes a state between two file system operations of an open
  transaction: no buffer is busy, and at least \<open>k\<close> buffers and \<open>k\<close> entries of the log are free, so that \<open>k\<close> blocks
  can be changed.  The bytes of a file whose blocks are all direct and present are those of its blocks; reading and
  writing such a file refines an array of bytes, and a directory refines a map from names to inode numbers.
\<close>

section \<open>Changing blocks inside a transaction\<close>

definition upper :: "fs \<Rightarrow> fs" where
  "upper s = (other_parts s)\<lparr>lm := undefined\<rparr>"

lemma upper_sel:
  assumes "upper s' = upper s"
  shows "sb s' = sb s" "inodes s' = inodes s" "i_free s' = i_free s" "i_hash s' = i_hash s" "icache_locked s' = icache_locked s"
    "dev_read s' = dev_read s" "dev_write s' = dev_write s" "files s' = files s" "f_free s' = f_free s" "n_openfiles s' = n_openfiles s"
    "pipes s' = pipes s" "pwd s' = pwd s" "open_file_table s' = open_file_table s" "n_opfiles s' = n_opfiles s"
proof -
  note * = assms [unfolded upper_def other_parts_def]
  show "sb s' = sb s" using arg_cong [OF *, of sb] by simp
  show "inodes s' = inodes s" using arg_cong [OF *, of inodes] by simp
  show "i_free s' = i_free s" using arg_cong [OF *, of i_free] by simp
  show "i_hash s' = i_hash s" using arg_cong [OF *, of i_hash] by simp
  show "icache_locked s' = icache_locked s" using arg_cong [OF *, of icache_locked] by simp
  show "dev_read s' = dev_read s" using arg_cong [OF *, of dev_read] by simp
  show "dev_write s' = dev_write s" using arg_cong [OF *, of dev_write] by simp
  show "files s' = files s" using arg_cong [OF *, of files] by simp
  show "f_free s' = f_free s" using arg_cong [OF *, of f_free] by simp
  show "n_openfiles s' = n_openfiles s" using arg_cong [OF *, of n_openfiles] by simp
  show "pipes s' = pipes s" using arg_cong [OF *, of pipes] by simp
  show "pwd s' = pwd s" using arg_cong [OF *, of pwd] by simp
  show "open_file_table s' = open_file_table s" using arg_cong [OF *, of open_file_table] by simp
  show "n_opfiles s' = n_opfiles s" using arg_cong [OF *, of n_opfiles] by simp
qed

definition ready :: "nat \<Rightarrow> fs \<Rightarrow> bool" where
  "ready k s \<longleftrightarrow> bio_inv s \<and> (\<forall>b\<in>chained s. \<not> b_busy (bufs s b)) \<and> k \<le> length (free_list s) \<and>
     nblks (lm s) + k \<le> LOGSIZE \<and> nblks (lm s) + k < lg_size (lm s) \<and> 1 \<le> n_occupiers (lm s)"

lemma ready_mono: "ready k s \<Longrightarrow> j \<le> k \<Longrightarrow> ready j s"
  by (auto simp: ready_def)

lemma brelse_sel [simp]:
  "bufs (brelse b s) = (bufs s)(b := (bufs s b)\<lparr>b_busy := False\<rparr>)" "chained (brelse b s) = chained s"
  "lm (brelse b s) = lm s" "other_parts (brelse b s) = other_parts s" "inodes (brelse b s) = inodes s" "sb (brelse b s) = sb s"
  by (simp_all add: brelse_def Let_def upd_buf_def chained_def other_parts_def)

lemma set_data_sel [simp]:
  "inodes (set_data b f s) = inodes s" "sb (set_data b f s) = sb s" "lm (set_data b f s) = lm s" "free_list (set_data b f s) = free_list s"
  "chained (set_data b f s) = chained s" "other_parts (set_data b f s) = other_parts s" "upper (set_data b f s) = upper s"
  by (simp_all add: set_data_def upper_def) (simp_all add: upd_buf_def)

lemma upper_log_write: "upper (snd (log_write b s)) = upper s"
  by (simp add: log_write_def Let_def upper_def mark_dirty_def upd_lm_def other_parts_def upd_buf_def)

lemma upper_log_and_release [simp]: "upper (log_and_release b s) = upper s"
  using upper_log_write [of b s] by (simp add: log_and_release_def upper_def)

lemma ready_block:
  assumes r: "ready k s" and k: "0 < k" and n: "n < FSSIZE"
  obtains b s1 where "bread ROOTDEV n s = Some (b, s1)" "bdata (bufs s1 b) = view s n" "upper s1 = upper s"
    "ready k (brelse b s1)" "view (brelse b s1) = view s" "upper (brelse b s1) = upper s"
    "\<forall>f. ready (k - 1) (log_and_release b (set_data b f s1)) \<and> view (log_and_release b (set_data b f s1)) = (view s)(n := f (view s n))"
proof -
  have inv: "bio_inv s" and nb: "\<forall>b\<in>chained s. \<not> b_busy (bufs s b)" and fl: "k \<le> length (free_list s)"
    and lg: "nblks (lm s) + k \<le> LOGSIZE" "nblks (lm s) + k < lg_size (lm s)" "1 \<le> n_occupiers (lm s)"
    using r by (simp_all add: ready_def)
  have "readable s n"
    unfolding readable_def using n nb fl k cached_Some_iff [OF inv, of n] by (auto split: option.split)
  then obtain b s1 where s1: "bread ROOTDEV n s = Some (b, s1)" and post: "bread_post n s b s1"
    by (rule bread_correct [OF inv])
  have p: "bio_inv s1" "view s1 = view s" "holds s1 b n" "bdata (bufs s1 b) = view s n" "bdata (bufs s1 b) = disk s1 n"
    "other_parts s1 = other_parts s" "\<And>c. c \<noteq> b \<Longrightarrow> bufs s1 c = bufs s c" "set (free_list s1) = set (free_list s) - {b}"
    "chained s1 = insert b (chained s)"
    using post unfolding bread_post_def by blast+
  have lm1: "lm s1 = lm s" using other_parts_lm [OF p(6)] .
  have fl1: "k - 1 \<le> length (free_list s1)"
  proof -
    have "length (free_list s1) = card (set (free_list s) - {b})"
      using distinct_card [OF bio_invD(3) [OF p(1)]] p(8) by simp
    moreover have "card (set (free_list s)) - 1 \<le> card (set (free_list s) - {b})"
      using diff_card_le_card_Diff [of "{b}" "set (free_list s)"] by simp
    ultimately show ?thesis using fl distinct_card [OF bio_invD(3) [OF inv]] by simp
  qed
  have nb1: "\<forall>c\<in>chained s1. c \<noteq> b \<longrightarrow> \<not> b_busy (bufs s1 c)" using p(7,9) nb by auto
  note cl = brelse_clean [OF p(1,3,5)]
  have "ready k (brelse b s1)"
    using cl(1,3) nb1 fl1 lg k by (auto simp: ready_def lm1)
  moreover have "ready (k - 1) (log_and_release b (set_data b f s1)) \<and> view (log_and_release b (set_data b f s1)) = (view s)(n := f (view s n))" for f
  proof -
    note sd = set_data_view [OF p(1,3), of f]
    have "log_room (set_data b f s1)" using lg k by (simp add: log_room_def lm1)
    then have rp: "release_post b n (set_data b f s1) (log_and_release b (set_data b f s1))"
      by (rule log_and_release_view [OF sd(1,2)])
    define s2 where "s2 = log_and_release b (set_data b f s1)"
    have q: "bio_inv s2" "view s2 = view (set_data b f s1)" "\<not> b_busy (bufs s2 b)" "nblks (lm s2) \<le> nblks (lm s) + 1"
      "n_occupiers (lm s2) = n_occupiers (lm s)" "lg_size (lm s2) = lg_size (lm s)" "free_list s2 = free_list s1"
      "\<forall>c. c \<noteq> b \<longrightarrow> bufs s2 c = bufs (set_data b f s1) c" "chained s2 = chained s1"
      using rp by (simp_all add: release_post_def s2_def lm1)
    have "\<not> b_busy (bufs s2 c)" if "c \<in> chained s2" for c
      using that q(3,8,9) nb1 by (cases "c = b") (auto simp: set_data_def)
    then have "ready (k - 1) s2"
      using q fl1 lg k by (auto simp: ready_def)
    then show ?thesis using q(2) sd(3) p(2) by (simp add: s2_def)
  qed
  moreover have "upper s1 = upper s" using p(6) by (simp add: upper_def)
  moreover from this have "upper (brelse b s1) = upper s" by (simp add: upper_def)
  ultimately show ?thesis
    using s1 p(4) cl(2) p(2) by (intro that [of b s1]) simp_all
qed

lemma upd_inode_low [simp]:
  "bufs (upd_inode j f s) = bufs s" "lm (upd_inode j f s) = lm s" "sb (upd_inode j f s) = sb s" "icache_locked (upd_inode j f s) = icache_locked s"
  "i_free (upd_inode j f s) = i_free s" "i_hash (upd_inode j f s) = i_hash s"
  "inodes (upd_inode j f s) = (inodes s)(j := f (inodes s j))" "view (upd_inode j f s) = view s" "ready k (upd_inode j f s) = ready k s"
proof -
  show "view (upd_inode j f s) = view s"
    by (rule ext) (simp add: view_def cached_def upd_inode_def split: option.split)
  show "ready k (upd_inode j f s) = ready k s"
    unfolding ready_def bio_inv_def chained_def upd_inode_def by simp
qed (simp_all add: upd_inode_def)

section \<open>The bytes of a file\<close>

definition mapped :: "inode \<Rightarrow> nat \<Rightarrow> bool" where
  "mapped r m \<longleftrightarrow> idev r = ROOTDEV \<and> m \<le> NDIRECT * BLKSIZE \<and>
     (\<forall>k. k * BLKSIZE < m \<longrightarrow> 0 < blk_addrs r k \<and> blk_addrs r k < FSSIZE) \<and> inj_on (blk_addrs r) {k. k * BLKSIZE < m}"

definition fbyte :: "fs \<Rightarrow> nat \<Rightarrow> nat \<Rightarrow> u8" where
  "fbyte s i j = view s (blk_addrs (inodes s i) (j div BLKSIZE)) (j mod BLKSIZE)"

lemma BLKSIZE_pos [simp]: "0 < BLKSIZE"
  by (simp add: BLKSIZE_def)

lemma fbyte_cong: "view s' = view s \<Longrightarrow> inodes s' = inodes s \<Longrightarrow> fbyte s' = fbyte s"
  by (intro ext) (simp add: fbyte_def)

lemma mapped_block:
  assumes "mapped r m" "off < m"
  shows "off div BLKSIZE < NDIRECT" "0 < blk_addrs r (off div BLKSIZE)" "blk_addrs r (off div BLKSIZE) < FSSIZE"
proof -
  have "off div BLKSIZE * BLKSIZE < m" using assms(2) by (rule le_less_trans [OF div_times_less_eq_dividend])
  then show "0 < blk_addrs r (off div BLKSIZE)" "blk_addrs r (off div BLKSIZE) < FSSIZE" using assms(1) by (auto simp: mapped_def)
  show "off div BLKSIZE < NDIRECT" using assms by (auto simp: mapped_def less_mult_imp_div_less)
qed

lemma mapped_bmap:
  assumes "mapped (inodes s i) m" "off < m"
  shows "bmap i (off div BLKSIZE) s = Some (blk_addrs (inodes s i) (off div BLKSIZE), s)"
  using mapped_block [OF assms] by (simp add: bmap_def bmap_addr_def)

lemma mapped_bound: "mapped r m \<Longrightarrow> off + n \<le> m \<Longrightarrow> u32add off n = off + n"
  by (simp add: mapped_def u32add_def NDIRECT_def BLKSIZE_def)

lemma chunk_le: "chunk off n \<le> n" "off mod BLKSIZE + chunk off n \<le> BLKSIZE"
proof -
  have "off mod BLKSIZE < BLKSIZE" by simp
  then show "off mod BLKSIZE + chunk off n \<le> BLKSIZE" unfolding chunk_def by linarith
  show "chunk off n \<le> n" by (simp add: chunk_def)
qed

lemma in_chunk:
  assumes "j < chunk off n"
  shows "(off + j) div BLKSIZE = off div BLKSIZE" "(off + j) mod BLKSIZE = off mod BLKSIZE + j"
proof -
  have lt: "off mod BLKSIZE + j < BLKSIZE" using chunk_le(2) [of off n] assms by simp
  have "off + j = off div BLKSIZE * BLKSIZE + (off mod BLKSIZE + j)"
    using div_mult_mod_eq [of off BLKSIZE] by simp
  with lt show "(off + j) div BLKSIZE = off div BLKSIZE" "(off + j) mod BLKSIZE = off mod BLKSIZE + j"
    by (metis div_mult_self3 div_less add_0_right BLKSIZE_pos less_irrefl, metis mod_mult_self3 mod_less)
qed

lemma next_chunk:
  assumes "chunk off n < n"
  shows "(off + chunk off n) div BLKSIZE = off div BLKSIZE + 1"
proof -
  have "chunk off n = BLKSIZE - off mod BLKSIZE" using assms by (auto simp: chunk_def min_def split: if_splits)
  moreover have "off mod BLKSIZE < BLKSIZE" by simp
  ultimately have "off + chunk off n = off div BLKSIZE * BLKSIZE + BLKSIZE"
    using div_mult_mod_eq [of off BLKSIZE] by linarith
  then have "off + chunk off n = (off div BLKSIZE + 1) * BLKSIZE" by simp
  then show ?thesis by (simp only: nonzero_mult_div_cancel_right div_mult_self_is_m BLKSIZE_pos)
qed

text \<open>One chunk of the bytes of a file lies in one block.\<close>

lemma chunk_bytes:
  "get_bytes (view s (blk_addrs (inodes s i) (off div BLKSIZE))) (off mod BLKSIZE) (chunk off n) = map (fbyte s i) [off..<off + chunk off n]"
proof -
  have "map (fbyte s i) [off..<off + chunk off n] = map (\<lambda>j. fbyte s i (off + j)) [0..<chunk off n]"
    by (rule nth_equalityI) simp_all
  then show ?thesis by (simp add: get_bytes_def fbyte_def in_chunk)
qed

lemma readi_loop_bytes:
  assumes "mapped (inodes s i) m" "off + n \<le> m" "ready k s" "0 < k"
  shows "\<exists>s'. readi_loop i off n s = Some (map (fbyte s i) [off..<off + n], s') \<and> ready k s' \<and> view s' = view s \<and> upper s' = upper s"
  using assms
proof (induction n arbitrary: off s rule: less_induct)
  case (less n)
  show ?case
  proof (cases "n = 0")
    case True
    then show ?thesis using less.prems by (simp add: readi_loop.simps)
  next
    case False
    let ?c = "chunk off n"
    have off: "off < m" using less.prems False by simp
    note mb = mapped_block [OF less.prems(1) off]
    obtain b s1 where s1: "bread ROOTDEV (blk_addrs (inodes s i) (off div BLKSIZE)) s = Some (b, s1)"
      "bdata (bufs s1 b) = view s (blk_addrs (inodes s i) (off div BLKSIZE))"
      "ready k (brelse b s1)" "view (brelse b s1) = view s" "upper (brelse b s1) = upper s"
      by (rule ready_block [OF less.prems(3,4) mb(3)]) (rule that; assumption)
    have c: "0 < ?c" "?c \<le> n" using False chunk_pos [of n off] chunk_le(1) [of off n] by simp_all
    have u: "u32add off ?c = off + ?c" using less.prems(1,2) c by (intro mapped_bound) auto
    have i1: "inodes (brelse b s1) = inodes s" by (rule upper_sel(2) [OF s1(5)])
    have fb: "fbyte (brelse b s1) = fbyte s" by (rule fbyte_cong [OF s1(4) i1])
    have e: "off + ?c + (n - ?c) = off + n" using c by simp
    have "\<exists>s'. readi_loop i (off + ?c) (n - ?c) (brelse b s1) = Some (map (fbyte (brelse b s1) i) [off + ?c..<off + ?c + (n - ?c)], s') \<and>
      ready k s' \<and> view s' = view (brelse b s1) \<and> upper s' = upper (brelse b s1)"
      using less.prems c s1(3) i1 by (intro less.IH) auto
    then obtain s' where s': "readi_loop i (off + ?c) (n - ?c) (brelse b s1) = Some (map (fbyte s i) [off + ?c..<off + n], s')"
      "ready k s'" "view s' = view s" "upper s' = upper s"
      unfolding fb s1(4,5) e by (elim exE conjE) (rule that; assumption)
    have "readi_loop i off n s = Some (map (fbyte s i) [off..<off + ?c] @ map (fbyte s i) [off + ?c..<off + n], s')"
      using False mapped_bmap [OF less.prems(1) off] s1(1,2) s'(1) less.prems(1) i1 u
      by (subst readi_loop.simps) (simp add: chunk_bytes mapped_def Let_def)
    moreover have "[off..<off + n] = [off..<off + ?c] @ [off + ?c..<off + n]"
      using c upt_add_eq_append [of off "off + ?c" "n - ?c"] by simp
    ultimately show ?thesis using s'(2-4) by simp
  qed
qed

text \<open>Changing one chunk in its block changes these bytes of the file and no other block.\<close>

lemma fbyte_put_chunk:
  assumes mp: "mapped (inodes s i) m" and off: "off < m" and n: "n \<le> length src"
    and s': "view s' = (view s)(blk_addrs (inodes s i) (off div BLKSIZE) := put_bytes (off mod BLKSIZE) (take (chunk off n) src) (view s (blk_addrs (inodes s i) (off div BLKSIZE))))"
      "inodes s' = inodes s" and j: "j < m"
  shows "fbyte s' i j = (if off \<le> j \<and> j < off + chunk off n then src ! (j - off) else fbyte s i j)"
proof -
  let ?a = "blk_addrs (inodes s i)" and ?c = "chunk off n"
  have c: "?c \<le> n" by (rule chunk_le(1))
  have inj: "?a (j div BLKSIZE) = ?a (off div BLKSIZE) \<longleftrightarrow> j div BLKSIZE = off div BLKSIZE"
  proof
    assume *: "?a (j div BLKSIZE) = ?a (off div BLKSIZE)"
    have "j div BLKSIZE * BLKSIZE < m" "off div BLKSIZE * BLKSIZE < m"
      using j off by (auto intro: le_less_trans [OF div_times_less_eq_dividend])
    then show "j div BLKSIZE = off div BLKSIZE" using mp * by (auto simp: mapped_def inj_on_def)
  qed simp
  show ?thesis
  proof (cases "off \<le> j \<and> j < off + ?c")
    case True
    then obtain d where d: "j = off + d" "d < ?c" using le_Suc_ex [of off j] by auto
    then show ?thesis using in_chunk [OF d(2)] n c by (simp add: fbyte_def s' put_bytes_def)
  next
    case False
    have "j mod BLKSIZE < off mod BLKSIZE \<or> off mod BLKSIZE + ?c \<le> j mod BLKSIZE" if "j div BLKSIZE = off div BLKSIZE"
    proof -
      have "j = off div BLKSIZE * BLKSIZE + j mod BLKSIZE" "off = off div BLKSIZE * BLKSIZE + off mod BLKSIZE"
        using div_mult_mod_eq [of j BLKSIZE] div_mult_mod_eq [of off BLKSIZE] that by simp_all
      then show ?thesis using False by linarith
    qed
    then have "\<not> (off mod BLKSIZE \<le> j mod BLKSIZE \<and> j mod BLKSIZE < off mod BLKSIZE + length (take ?c src))"
      if "j div BLKSIZE = off div BLKSIZE" using that by auto
    then show ?thesis using False inj by (auto simp: fbyte_def s' put_bytes_def)
  qed
qed

lemma writei_loop_bytes:
  assumes "mapped (inodes s i) m" "off + n \<le> m" "n \<le> length src" "ready (k + (NDIRECT - off div BLKSIZE)) s"
  shows "\<exists>s'. writei_loop i src off n s = Some (off + n, s') \<and> ready k s' \<and> upper s' = upper s \<and>
    (\<forall>j<m. fbyte s' i j = (if off \<le> j \<and> j < off + n then src ! (j - off) else fbyte s i j)) \<and>
    (\<forall>a. a \<notin> blk_addrs (inodes s i) ` {q. q * BLKSIZE < m} \<longrightarrow> view s' a = view s a)"
  using assms
proof (induction n arbitrary: off s src rule: less_induct)
  case (less n)
  show ?case
  proof (cases "n = 0")
    case True
    then show ?thesis using less.prems ready_mono [OF less.prems(4), of k] by (auto simp: writei_loop.simps)
  next
    case False
    let ?c = "chunk off n" and ?a = "blk_addrs (inodes s i)" and ?q = "off div BLKSIZE"
    define K where "K = k + (NDIRECT - ?q)"
    have off: "off < m" using less.prems False by simp
    note mb = mapped_block [OF less.prems(1) off]
    have K: "ready K s" "0 < K" using less.prems(4) mb(1) by (simp_all add: K_def)
    define f where "f = put_bytes (off mod BLKSIZE) (take ?c src)"
    obtain b s1 where s1: "bread ROOTDEV (?a ?q) s = Some (b, s1)" "bdata (bufs s1 b) = view s (?a ?q)" "upper s1 = upper s"
      "\<forall>f. ready (K - 1) (log_and_release b (set_data b f s1)) \<and> view (log_and_release b (set_data b f s1)) = (view s)(?a ?q := f (view s (?a ?q)))"
      by (rule ready_block [OF K mb(3)]) (rule that; assumption)
    define s2 where "s2 = log_and_release b (set_data b f s1)"
    have s2: "ready (K - 1) s2" "view s2 = (view s)(?a ?q := f (view s (?a ?q)))" "upper s2 = upper s"
      using s1(3,4) by (simp_all add: s2_def)
    have i2: "inodes s2 = inodes s" by (rule upper_sel(2) [OF s2(3)])
    have c: "0 < ?c" "?c \<le> n" using False chunk_pos [of n off] chunk_le(1) [of off n] by simp_all
    have u: "u32add off ?c = off + ?c" using less.prems(1,2) c by (intro mapped_bound) auto
    have step: "writei_loop i src off n s = writei_loop i (drop ?c src) (off + ?c) (n - ?c) s2"
      using False mapped_bmap [OF less.prems(1) off] s1(1) less.prems(1,3) c u upper_sel(2) [OF s1(3)]
      by (subst writei_loop.simps) (simp add: mapped_def Let_def s2_def f_def)
    have K1: "ready (k + (NDIRECT - (off + ?c) div BLKSIZE)) s2" if "?c < n"
      using s2(1) mb(1) unfolding next_chunk [OF that] K_def by (auto elim: ready_mono)
    have fb: "\<forall>j<m. fbyte s2 i j = (if off \<le> j \<and> j < off + ?c then src ! (j - off) else fbyte s i j)"
      using fbyte_put_chunk [OF less.prems(1) off less.prems(3) _ i2] s2(2) by (simp add: f_def)
    have vw: "\<forall>a. a \<notin> ?a ` {q. q * BLKSIZE < m} \<longrightarrow> view s2 a = view s a"
      using s2(2) off le_less_trans [OF div_times_less_eq_dividend off] by (auto simp: image_iff)
    show ?thesis
    proof (cases "?c < n")
      case False
      then have "?c = n" using c by simp
      then have "writei_loop i src off n s = Some (off + n, s2)" using step by (simp add: writei_loop.simps)
      moreover have "ready k s2" using s2(1) mb(1) by (auto simp: K_def elim: ready_mono)
      ultimately show ?thesis using fb vw s2(3) \<open>?c = n\<close> by simp
    next
      case True
      have "\<exists>s'. writei_loop i (drop ?c src) (off + ?c) (n - ?c) s2 = Some (off + ?c + (n - ?c), s') \<and> ready k s' \<and> upper s' = upper s2 \<and>
        (\<forall>j<m. fbyte s' i j = (if off + ?c \<le> j \<and> j < off + ?c + (n - ?c) then drop ?c src ! (j - (off + ?c)) else fbyte s2 i j)) \<and>
        (\<forall>a. a \<notin> blk_addrs (inodes s2 i) ` {q. q * BLKSIZE < m} \<longrightarrow> view s' a = view s2 a)"
        using less.prems c i2 K1 [OF True] by (intro less.IH) auto
      then obtain s' where s': "writei_loop i (drop ?c src) (off + ?c) (n - ?c) s2 = Some (off + ?c + (n - ?c), s')" "ready k s'" "upper s' = upper s2"
        "\<forall>j<m. fbyte s' i j = (if off + ?c \<le> j \<and> j < off + ?c + (n - ?c) then drop ?c src ! (j - (off + ?c)) else fbyte s2 i j)"
        "\<forall>a. a \<notin> blk_addrs (inodes s2 i) ` {q. q * BLKSIZE < m} \<longrightarrow> view s' a = view s2 a"
        by (elim exE conjE) (rule that; assumption)
      have "fbyte s' i j = (if off \<le> j \<and> j < off + n then src ! (j - off) else fbyte s i j)" if "j < m" for j
        using s'(4) fb that c less.prems(3) by (auto simp: nth_drop)
      then show ?thesis using step s'(1-3,5) s2(3) vw i2 c by (intro exI [of _ s']) auto
    qed
  qed
qed

section \<open>Random access files\<close>

definition overlay :: "nat \<Rightarrow> u8 list \<Rightarrow> (nat \<Rightarrow> u8) \<Rightarrow> nat \<Rightarrow> u8" where
  "overlay off xs c = (\<lambda>j. if off \<le> j \<and> j < off + length xs then xs ! (j - off) else c j)"

definition overlays :: "(nat \<times> u8 list) list \<Rightarrow> (nat \<Rightarrow> u8) \<Rightarrow> nat \<Rightarrow> u8" where
  "overlays ops c = fold (\<lambda>(off, xs). overlay off xs) ops c"

lemma overlays_simps [simp]: "overlays [] c = c" "overlays ((off, xs) # ops) c = overlays ops (overlay off xs c)"
  by (simp_all add: overlays_def)

lemma overlays_cong: "c j = d j \<Longrightarrow> overlays ops c j = overlays ops d j"
proof (induction ops arbitrary: c d)
  case (Cons op ops)
  obtain off xs where "op = (off, xs)" by (cases op)
  moreover have "overlay off xs c j = overlay off xs d j" using Cons.prems by (simp add: overlay_def)
  ultimately show ?case using Cons.IH [of "overlay off xs c" "overlay off xs d"] by simp
qed simp

fun run_writes :: "(u8 list \<Rightarrow> nat \<Rightarrow> nat \<Rightarrow> 's \<Rightarrow> (int \<times> 's) option) \<Rightarrow> (nat \<times> u8 list) list \<Rightarrow> 's \<Rightarrow> 's option" where
  "run_writes wr [] s = Some s"
| "run_writes wr ((off, xs) # ops) s = do { (_, s) \<leftarrow> wr xs off (length xs) s; run_writes wr ops s }"

text \<open>What the users of a file inside its size rely on: \<open>inv k\<close> is the invariant with resources for \<open>k\<close> units, of which
  a write uses \<open>cost\<close>.\<close>

locale random_access =
  fixes inv :: "nat \<Rightarrow> 's \<Rightarrow> bool"
    and siz :: "'s \<Rightarrow> nat"
    and content :: "'s \<Rightarrow> nat \<Rightarrow> u8"
    and rd :: "nat \<Rightarrow> nat \<Rightarrow> 's \<Rightarrow> (int \<times> u8 list \<times> 's) option"
    and wr :: "u8 list \<Rightarrow> nat \<Rightarrow> nat \<Rightarrow> 's \<Rightarrow> (int \<times> 's) option"
    and cost :: nat
  assumes rd_bytes: "inv k s \<Longrightarrow> 0 < k \<Longrightarrow> off + n \<le> siz s \<Longrightarrow>
      \<exists>s'. rd off n s = Some (int n, map (content s) [off..<off + n], s') \<and> inv k s' \<and> siz s' = siz s \<and> content s' = content s"
    and wr_bytes: "inv (k + cost) s \<Longrightarrow> off + length xs \<le> siz s \<Longrightarrow>
      \<exists>s'. wr xs off (length xs) s = Some (int (length xs), s') \<and> inv k s' \<and> siz s' = siz s \<and>
        (\<forall>j < siz s. content s' j = overlay off xs (content s) j)"
begin

lemma run_writes_overlay:
  assumes "inv (k + cost * length ops) s" "\<forall>(off, xs)\<in>set ops. off + length xs \<le> siz s"
  shows "\<exists>s'. run_writes wr ops s = Some s' \<and> inv k s' \<and> siz s' = siz s \<and>
    (\<forall>j < siz s. content s' j = overlays ops (content s) j)"
  using assms
proof (induction ops arbitrary: s)
  case (Cons op ops)
  obtain off xs where op: "op = (off, xs)" by (cases op)
  have i: "inv (k + cost * length ops + cost) s" using Cons.prems(1) by (simp add: ac_simps)
  have o: "off + length xs \<le> siz s" using Cons.prems(2) op by auto
  obtain s1 where s1: "wr xs off (length xs) s = Some (int (length xs), s1)" "inv (k + cost * length ops) s1" "siz s1 = siz s"
    "\<forall>j < siz s. content s1 j = overlay off xs (content s) j"
    using wr_bytes [OF i o] by (elim exE conjE) (rule that; assumption)
  have b: "\<forall>(off, xs)\<in>set ops. off + length xs \<le> siz s1" using Cons.prems(2) s1(3) by auto
  obtain s' where s': "run_writes wr ops s1 = Some s'" "inv k s'" "siz s' = siz s1"
    "\<forall>j < siz s1. content s' j = overlays ops (content s1) j"
    using Cons.IH [OF s1(2) b] by (elim exE conjE) (rule that; assumption)
  have "content s' j = overlays ops (overlay off xs (content s)) j" if "j < siz s" for j
    using s'(4) s1(3,4) that overlays_cong [of "content s1" j "overlay off xs (content s)" ops] by simp
  then show ?case using s1(1,3) s'(1-3) op by simp
qed simp

lemma read_after_writes:
  assumes "inv (k + cost * length ops) s" "0 < k" "\<forall>(off, xs)\<in>set ops. off + length xs \<le> siz s" "off + n \<le> siz s"
  shows "\<exists>s1 s2. run_writes wr ops s = Some s1 \<and> rd off n s1 = Some (int n, map (overlays ops (content s)) [off..<off + n], s2) \<and>
    inv k s2 \<and> siz s2 = siz s"
proof -
  obtain s1 where s1: "run_writes wr ops s = Some s1" "inv k s1" "siz s1 = siz s"
    "\<forall>j < siz s. content s1 j = overlays ops (content s) j"
    using run_writes_overlay [OF assms(1,3)] by (elim exE conjE) (rule that; assumption)
  then obtain s2 where s2: "rd off n s1 = Some (int n, map (content s1) [off..<off + n], s2)" "inv k s2" "siz s2 = siz s1"
    using rd_bytes [OF s1(2) assms(2), of off n] assms(4) by auto
  moreover have "map (content s1) [off..<off + n] = map (overlays ops (content s)) [off..<off + n]"
    using s1(4) assms(4) by simp
  ultimately show ?thesis using s1(1,3) by simp
qed

end

definition file_inv :: "nat \<Rightarrow> nat \<Rightarrow> fs \<Rightarrow> bool" where
  "file_inv i k s \<longleftrightarrow> ready k s \<and> mapped (inodes s i) (file_siz (inodes s i)) \<and> itype (inodes s i) \<noteq> T_DEV"

lemma mapped_small: "mapped r m \<Longrightarrow> m < 2 ^ 31 \<and> m \<le> MAXFILESIZ"
  by (simp add: mapped_def NDIRECT_def BLKSIZE_def MAXFILESIZ_def NINDIRECT_def NDINDIRECT_def)

lemma readi_bytes:
  assumes inv: "file_inv i k s" and k: "0 < k" and off: "off + n \<le> file_siz (inodes s i)"
  shows "\<exists>s'. readi i off n s = Some (int n, map (fbyte s i) [off..<off + n], s') \<and> ready k s' \<and> view s' = view s \<and> upper s' = upper s"
proof -
  have mp: "mapped (inodes s i) (file_siz (inodes s i))" and r: "ready k s" and ty: "itype (inodes s i) \<noteq> T_DEV"
    using inv by (simp_all add: file_inv_def)
  obtain s' where "readi_loop i off n s = Some (map (fbyte s i) [off..<off + n], s')" "ready k s'" "view s' = view s" "upper s' = upper s"
    using readi_loop_bytes [OF mp off r k] by (elim exE conjE) (rule that; assumption)
  moreover have "int32 n = int n" using mapped_small [OF mp] off by (simp add: int32_def)
  ultimately show ?thesis
    using ty off mapped_bound [OF mp off] by (auto simp: readi_def)
qed

lemma writei_bytes:
  assumes inv: "file_inv i (k + NDIRECT) s" and off: "off + length xs \<le> file_siz (inodes s i)"
  shows "\<exists>s'. writei i xs off (length xs) s = Some (int (length xs), s') \<and> ready k s' \<and> upper s' = upper s \<and>
    (\<forall>j<file_siz (inodes s i). fbyte s' i j = overlay off xs (fbyte s i) j) \<and>
    (\<forall>a. a \<notin> blk_addrs (inodes s i) ` {q. q * BLKSIZE < file_siz (inodes s i)} \<longrightarrow> view s' a = view s a)"
proof -
  have mp: "mapped (inodes s i) (file_siz (inodes s i))" and r: "ready (k + NDIRECT) s" and ty: "itype (inodes s i) \<noteq> T_DEV"
    using inv by (simp_all add: file_inv_def)
  have r': "ready (k + (NDIRECT - off div BLKSIZE)) s" using r by (rule ready_mono) simp
  obtain s' where s': "writei_loop i xs off (length xs) s = Some (off + length xs, s')" "ready k s'" "upper s' = upper s"
    "\<forall>j<file_siz (inodes s i). fbyte s' i j = (if off \<le> j \<and> j < off + length xs then xs ! (j - off) else fbyte s i j)"
    "\<forall>a. a \<notin> blk_addrs (inodes s i) ` {q. q * BLKSIZE < file_siz (inodes s i)} \<longrightarrow> view s' a = view s a"
    using writei_loop_bytes [OF mp off order_refl r'] by (elim exE conjE) (rule that; assumption)
  have "int32 (length xs) = int (length xs)" "off + length xs \<le> MAXFILESIZ" using mapped_small [OF mp] off by (simp_all add: int32_def)
  then have "writei i xs off (length xs) s = Some (int (length xs), s')"
    using ty off mapped_bound [OF mp off] s'(1) upper_sel(2) [OF s'(3)] by (simp add: writei_def)
  then show ?thesis using s'(2-5) by (simp add: overlay_def)
qed

interpretation inode_file: random_access "file_inv i" "\<lambda>s. file_siz (inodes s i)" "\<lambda>s. fbyte s i" "\<lambda>off n s. readi i off n s" "\<lambda>xs off n s. writei i xs off n s" NDIRECT
  for i
proof
  fix k s off n assume a: "file_inv i k s" "0 < k" "off + n \<le> file_siz (inodes s i)"
  then obtain s' where s': "readi i off n s = Some (int n, map (fbyte s i) [off..<off + n], s')" "ready k s'" "view s' = view s" "upper s' = upper s"
    using readi_bytes by metis
  have "inodes s' = inodes s" by (rule upper_sel(2) [OF s'(4)])
  then show "\<exists>s'. readi i off n s = Some (int n, map (fbyte s i) [off..<off + n], s') \<and> file_inv i k s' \<and>
    file_siz (inodes s' i) = file_siz (inodes s i) \<and> fbyte s' i = fbyte s i"
    using s' a(1) fbyte_cong [OF s'(3)] by (auto simp: file_inv_def)
next
  fix k s off and xs :: "u8 list" assume a: "file_inv i (k + NDIRECT) s" "off + length xs \<le> file_siz (inodes s i)"
  then obtain s' where s': "writei i xs off (length xs) s = Some (int (length xs), s')" "ready k s'" "upper s' = upper s"
    "\<forall>j<file_siz (inodes s i). fbyte s' i j = overlay off xs (fbyte s i) j"
    using writei_bytes [OF a] by blast
  have "inodes s' = inodes s" by (rule upper_sel(2) [OF s'(3)])
  then show "\<exists>s'. writei i xs off (length xs) s = Some (int (length xs), s') \<and> file_inv i k s' \<and> file_siz (inodes s' i) = file_siz (inodes s i) \<and>
    (\<forall>j<file_siz (inodes s i). fbyte s' i j = overlay off xs (fbyte s i) j)"
    using s' a(1) by (auto simp: file_inv_def)
qed

section \<open>Directories\<close>

definition dentry :: "fs \<Rightarrow> nat \<Rightarrow> nat \<Rightarrow> u8 list" where
  "dentry s di q = map (fbyte s di) [DIRENT_SIZE * q..<DIRENT_SIZE * q + DIRENT_SIZE]"

definition matches :: "u8 list \<Rightarrow> u8 list \<Rightarrow> bool" where
  "matches name ent \<longleftrightarrow> dirent_ino ent \<noteq> 0 \<and> take DIRSIZ (cstr (dirent_name ent)) = take DIRSIZ name"

definition dir_lookup :: "fs \<Rightarrow> nat \<Rightarrow> nat \<Rightarrow> u8 list \<Rightarrow> nat option" where
  "dir_lookup s di m name = map_option (\<lambda>q. dirent_ino (dentry s di q)) (find (\<lambda>q. matches name (dentry s di q)) [0..<m])"

definition dir_inv :: "nat \<Rightarrow> nat \<Rightarrow> nat \<Rightarrow> fs \<Rightarrow> bool" where
  "dir_inv di m k s \<longleftrightarrow> file_inv di k s \<and> itype (inodes s di) = T_DIR \<and> file_siz (inodes s di) = DIRENT_SIZE * m"

lemma strncmp_name_eq_0: "strncmp_name xs ys n = 0 \<longleftrightarrow> take n (cstr xs) = take n (cstr ys)"
proof (induction n arbitrary: xs ys)
  case (Suc n)
  show ?case
  proof (cases xs)
    case Nil
    then show ?thesis by (cases ys) (simp_all add: cstr_def Let_def unsigned_eq_0_iff)
  next
    case (Cons x xs')
    then show ?thesis using Suc.IH [of xs' "tl ys"] by (cases ys) (auto simp: cstr_def Let_def unsigned_eq_0_iff dest: unsigned_word_eqI)
  qed
qed simp

lemma cstr_id: "0 \<notin> set xs \<Longrightarrow> cstr xs = xs"
  by (auto simp: cstr_def takeWhile_eq_all_conv)

lemma strncpy_buf_name:
  assumes "0 \<notin> set xs" "k + length xs + 2 \<le> length buf" "int (length xs) < n"
  shows "strncpy_buf buf k (xs @ [0]) n = Some (take k buf @ xs @ [0, 0] @ drop (k + length xs + 2) buf)"
  using assms
proof (induction xs arbitrary: k buf n)
  case Nil
  then have k: "Suc k < length buf" by simp
  then have "buf[k := 0, Suc k := 0] = take k buf @ [0, 0] @ drop (Suc (Suc k)) buf"
    by (intro nth_equalityI) (auto simp: nth_list_update nth_append nth_Cons' min_def intro: arg_cong [of _ _ "(!) buf"])
  then show ?case using k by simp
next
  case (Cons x xs)
  have "take (Suc k) (buf[k := x]) = take k buf @ [x]"
    using Cons.prems(2) by (simp add: take_Suc_conv_app_nth)
  moreover have "drop (Suc k + length xs + 2) (buf[k := x]) = drop (Suc k + length xs + 2) buf" by simp
  moreover have "0 < n - 1" using Cons.prems by simp
  ultimately show ?case
    using Cons.prems Cons.IH [of "Suc k" "buf[k := x]" "n - 1"] by simp
qed

lemma dir_inv_cong:
  "ready k s' \<Longrightarrow> upper s' = upper s \<Longrightarrow> dir_inv di m j s \<Longrightarrow> dir_inv di m k s'"
  using upper_sel(2) [of s' s] by (auto simp: dir_inv_def file_inv_def)

lemma readi_dentry:
  assumes inv: "dir_inv di m k s" and k: "0 < k" and q: "q < m"
  obtains s' where "readi di (DIRENT_SIZE * q) DIRENT_SIZE s = Some (int DIRENT_SIZE, dentry s di q, s')"
    "dir_inv di m k s'" "view s' = view s" "upper s' = upper s" "dentry s' = dentry s"
proof -
  have fi: "file_inv di k s" and sz: "file_siz (inodes s di) = DIRENT_SIZE * m" using inv by (simp_all add: dir_inv_def)
  have "DIRENT_SIZE * q + DIRENT_SIZE \<le> file_siz (inodes s di)"
    unfolding sz using q mult_le_mono2 [of "Suc q" m DIRENT_SIZE] by simp
  then obtain s' where s': "readi di (DIRENT_SIZE * q) DIRENT_SIZE s = Some (int DIRENT_SIZE, dentry s di q, s')" "ready k s'" "view s' = view s" "upper s' = upper s"
    unfolding dentry_def using readi_bytes [OF fi k] by metis
  moreover have "dir_inv di m k s'" by (rule dir_inv_cong [OF s'(2,4) inv])
  moreover have "fbyte s' = fbyte s" by (rule fbyte_cong [OF s'(3) upper_sel(2) [OF s'(4)]])
  then have "dentry s' = dentry s" by (intro ext) (simp add: dentry_def)
  ultimately show ?thesis by (intro that)
qed

text \<open>\<^verbatim>\<open>dirlookup\<close> finds the first entry with the name and gets its inode.\<close>

definition found_inode :: "nat option option \<Rightarrow> fs \<Rightarrow> nat \<Rightarrow> fs \<Rightarrow> nat option \<Rightarrow> (int \<times> nat option option \<times> nat \<times> fs) option" where
  "found_inode ist s di s' r =
     (case r of None \<Rightarrow> Some (- E_FILE_EXISTS, ist, 0, s')
      | Some q \<Rightarrow> map_option (\<lambda>(ip, t). (0, Some ip, DIRENT_SIZE * q, t)) (iget ROOTDEV (dirent_ino (dentry s di q)) s'))"

lemma dirlookup_from_finds:
  assumes "dir_inv di m k s" "0 < k" "\<forall>q\<in>set qs. q < m" "0 \<notin> set name"
  shows "\<exists>s'. dir_inv di m k s' \<and> view s' = view s \<and> upper s' = upper s \<and>
    dirlookup_from di name ist (map ((*) DIRENT_SIZE) qs) s = found_inode ist s di s' (find (\<lambda>q. matches name (dentry s di q)) qs)"
  using assms
proof (induction qs arbitrary: s)
  case Nil
  then show ?case by (auto simp: found_inode_def)
next
  case (Cons q qs)
  have q: "q < m" "\<forall>q\<in>set qs. q < m" using Cons.prems(3) by auto
  obtain s1 where s1: "readi di (DIRENT_SIZE * q) DIRENT_SIZE s = Some (int DIRENT_SIZE, dentry s di q, s1)"
    "dir_inv di m k s1" "view s1 = view s" "upper s1 = upper s" "dentry s1 = dentry s"
    by (rule readi_dentry [OF Cons.prems(1,2) q(1)])
  have cmp: "strncmp_name (dirent_name (dentry s di q)) name DIRSIZ = 0 \<longleftrightarrow> take DIRSIZ (cstr (dirent_name (dentry s di q))) = take DIRSIZ name"
    by (simp add: strncmp_name_eq_0 cstr_id [OF Cons.prems(4)])
  have dev: "idev (inodes s1 di) = ROOTDEV" using s1(2) by (simp add: dir_inv_def file_inv_def mapped_def)
  show ?case
  proof (cases "matches name (dentry s di q)")
    case True
    then have "dirlookup_from di name ist (map ((*) DIRENT_SIZE) (q # qs)) s = found_inode ist s di s1 (Some q)"
      using s1(1) cmp dev by (cases "iget ROOTDEV (dirent_ino (dentry s di q)) s1") (auto simp: matches_def found_inode_def split: prod.split)
    then show ?thesis using True s1(2-4) by auto
  next
    case False
    obtain s' where s': "dir_inv di m k s'" "view s' = view s1" "upper s' = upper s1"
      "dirlookup_from di name ist (map ((*) DIRENT_SIZE) qs) s1 = found_inode ist s1 di s' (find (\<lambda>q. matches name (dentry s1 di q)) qs)"
      using Cons.IH [OF s1(2) Cons.prems(2) q(2) Cons.prems(4)] by (elim exE conjE) (rule that; assumption)
    have "dirlookup_from di name ist (map ((*) DIRENT_SIZE) (q # qs)) s = dirlookup_from di name ist (map ((*) DIRENT_SIZE) qs) s1"
      using s1(1) cmp False by (auto simp: matches_def)
    then show ?thesis using False s'(1-3) s'(4) [unfolded s1(5) found_inode_def] s1(3,4)
      by (intro exI [of _ s']) (simp add: found_inode_def s1(5) del: dirlookup_from.simps)
  qed
qed

lemma dirent_offsets_mult: "dirent_offsets (DIRENT_SIZE * m) = map ((*) DIRENT_SIZE) [0..<m]"
  by (simp add: dirent_offsets_def DIRENT_SIZE_def)

lemma dirlookup_finds:
  assumes "dir_inv di m k s" "0 < k" "0 \<notin> set name"
  obtains s' where "dir_inv di m k s'" "view s' = view s" "upper s' = upper s"
    "dirlookup di name ist s = found_inode ist s di s' (find (\<lambda>q. matches name (dentry s di q)) [0..<m])"
proof -
  have "dirlookup di name ist s = dirlookup_from di name ist (map ((*) DIRENT_SIZE) [0..<m]) s"
    using assms(1) by (simp add: dirlookup_def dir_inv_def dirent_offsets_mult)
  then show ?thesis
    using dirlookup_from_finds [OF assms(1,2) _ assms(3), of "[0..<m]" ist] that by auto
qed

lemma find_free_entry_finds:
  assumes "dir_inv di m k s" "0 < k" "\<forall>q\<in>set qs. q < m" "find (\<lambda>q. dirent_ino (dentry s di q) = 0) qs = Some e"
  shows "\<exists>s'. find_free_entry di (map ((*) DIRENT_SIZE) qs) endoff ent s = Some (DIRENT_SIZE * e, dentry s di e, s') \<and>
    dir_inv di m k s' \<and> view s' = view s \<and> upper s' = upper s"
  using assms
proof (induction qs arbitrary: s ent)
  case (Cons q qs)
  have q: "q < m" "\<forall>q\<in>set qs. q < m" using Cons.prems(3) by auto
  obtain s1 where s1: "readi di (DIRENT_SIZE * q) DIRENT_SIZE s = Some (int DIRENT_SIZE, dentry s di q, s1)"
    "dir_inv di m k s1" "view s1 = view s" "upper s1 = upper s" "dentry s1 = dentry s"
    by (rule readi_dentry [OF Cons.prems(1,2) q(1)])
  show ?case
  proof (cases "dirent_ino (dentry s di q) = 0")
    case True
    then show ?thesis using Cons.prems(4) s1 by simp
  next
    case False
    then have "find (\<lambda>q. dirent_ino (dentry s1 di q) = 0) qs = Some e" using Cons.prems(4) s1(5) by simp
    from Cons.IH [OF s1(2) Cons.prems(2) q(2) this] show ?thesis using False s1 by simp
  qed
qed simp

lemma dirent_bytes:
  assumes "n < 65536" "length nm = DIRSIZ"
  shows "dirent_ino ([of_nat n, of_nat (n div 256)] @ nm) = n" "dirent_name ([of_nat n, of_nat (n div 256)] @ nm) = nm"
  using assms by (simp_all add: dirent_ino_def dirent_name_def unsigned_of_nat take_bit_eq_mod)

lemma dentry_overlay:
  assumes "\<forall>j<DIRENT_SIZE * m. fbyte s' di j = overlay (DIRENT_SIZE * e) ent (fbyte s di) j" "length ent = DIRENT_SIZE" "q < m"
  shows "dentry s' di q = (if q = e then ent else dentry s di q)"
proof (rule nth_equalityI)
  fix j assume "j < length (dentry s' di q)"
  then have j: "j < DIRENT_SIZE" by (simp add: dentry_def)
  have "DIRENT_SIZE * q + j < DIRENT_SIZE * m"
    using j assms(3) mult_le_mono2 [of "Suc q" m DIRENT_SIZE] by simp
  moreover have "\<not> (DIRENT_SIZE * e \<le> DIRENT_SIZE * q + j \<and> DIRENT_SIZE * q + j < DIRENT_SIZE * e + DIRENT_SIZE)" if "q \<noteq> e"
    using that j by (simp add: DIRENT_SIZE_def)
  ultimately show "dentry s' di q ! j = (if q = e then ent else dentry s di q) ! j"
    using j assms(1,2) by (auto simp: dentry_def overlay_def)
qed (simp add: dentry_def assms(2))

text \<open>A new entry changes the map of the directory at its name only.\<close>

lemma dir_lookup_new:
  assumes d: "\<And>q. q < m \<Longrightarrow> dentry s' di q = (if q = e then ent else dentry s di q)" and e: "e < m" "dirent_ino (dentry s di e) = 0"
    and ent: "dirent_ino ent = n" "0 < n" "cstr (dirent_name ent) = name" "length name \<le> DIRSIZ" and abs: "dir_lookup s di m name = None"
  shows "dir_lookup s' di m x = (if take DIRSIZ x = name then Some n else dir_lookup s di m x)"
proof (cases "take DIRSIZ x = name")
  case True
  have nm: "\<not> matches name (dentry s di q)" if "q < m" for q
    using abs that by (auto simp: dir_lookup_def find_None_iff)
  have "take DIRSIZ name = name" using ent(4) by simp
  then have "matches x (dentry s' di q) \<longleftrightarrow> q = e" if "q < m" for q
    using d [OF that] nm [OF that] ent True by (auto simp: matches_def)
  then have "find (\<lambda>q. matches x (dentry s' di q)) [0..<m] = Some e"
    using e(1) by (auto simp: find_Some_iff intro!: exI [of _ e])
  then show ?thesis using True d [OF e(1)] ent(1) by (simp add: dir_lookup_def)
next
  case False
  have "matches x (dentry s' di q) \<longleftrightarrow> matches x (dentry s di q)" if "q < m" for q
    using d [OF that] e(2) ent(3,4) False by (auto simp: matches_def)
  then have "find (\<lambda>q. matches x (dentry s' di q)) [0..<m] = find (\<lambda>q. matches x (dentry s di q)) [0..<m]"
    by (intro find_cong) auto
  moreover have "dirent_ino (dentry s' di q) = dirent_ino (dentry s di q)" if "find (\<lambda>q. matches x (dentry s di q)) [0..<m] = Some q" for q
    using that d [of q] e(2) by (auto simp: find_Some_iff matches_def)
  ultimately show ?thesis using False by (cases "find (\<lambda>q. matches x (dentry s di q)) [0..<m]") (simp_all add: dir_lookup_def)
qed

lemma dirlink_adds:
  assumes inv: "dir_inv di m (k + NDIRECT) s" and name: "0 \<notin> set name" "length name + 2 \<le> DIRSIZ" and n: "0 < n" "n < 65536"
    and abs: "dir_lookup s di m name = None" and e: "find (\<lambda>q. dirent_ino (dentry s di q) = 0) [0..<m] = Some e"
  obtains s' where "dirlink di name n s = Some (0, s')" "dir_inv di m k s'" "upper s' = upper s"
    "\<forall>x. dir_lookup s' di m x = (if take DIRSIZ x = name then Some n else dir_lookup s di m x)"
proof -
  have K: "0 < k + NDIRECT" by (simp add: NDIRECT_def)
  have fn: "find (\<lambda>q. matches name (dentry s di q)) [0..<m] = None" using abs by (simp add: dir_lookup_def)
  obtain s1 where s1: "dir_inv di m (k + NDIRECT) s1" "view s1 = view s" "upper s1 = upper s" "dirlookup di name None s = Some (- E_FILE_EXISTS, None, 0, s1)"
    by (rule dirlookup_finds [OF inv K name(1), of None]) (use fn in \<open>simp add: found_inode_def\<close>)
  have de1: "dentry s1 = dentry s" using fbyte_cong [OF s1(2) upper_sel(2) [OF s1(3)]] by (intro ext) (simp add: dentry_def)
  have offs: "dirent_offsets (file_siz (inodes s1 di)) = map ((*) DIRENT_SIZE) [0..<m]"
    using s1(1) by (simp add: dir_inv_def dirent_offsets_mult)
  have e1: "find (\<lambda>q. dirent_ino (dentry s1 di q) = 0) [0..<m] = Some e" using e de1 by simp
  have em: "e < m" "dirent_ino (dentry s di e) = 0" using e by (auto simp: find_Some_iff)
  obtain s2 where s2: "find_free_entry di (map ((*) DIRENT_SIZE) [0..<m]) (DIRENT_SIZE * m) (replicate DIRENT_SIZE 0) s1 = Some (DIRENT_SIZE * e, dentry s1 di e, s2)"
    "dir_inv di m (k + NDIRECT) s2" "view s2 = view s1" "upper s2 = upper s1"
    using find_free_entry_finds [OF s1(1) K _ e1, of "DIRENT_SIZE * m" "replicate DIRENT_SIZE 0"] by auto
  define old where "old = dirent_name (dentry s di e)"
  have lo: "length old = DIRSIZ" by (simp add: old_def dirent_name_def dentry_def DIRENT_SIZE_def DIRSIZ_def)
  define nm where "nm = name @ [0, 0] @ drop (length name + 2) old"
  have cp: "strncpy_buf old 0 (name @ [0]) (int DIRSIZ) = Some nm"
    using strncpy_buf_name [of name 0 old "int DIRSIZ"] name lo by (simp add: nm_def)
  have ln: "length nm = DIRSIZ" using name(2) lo by (simp add: nm_def)
  have cn: "cstr nm = name" using name(1) by (auto simp: nm_def cstr_def takeWhile_append)
  define ent where "ent = [of_nat n, of_nat (n div 256)] @ nm"
  have le: "length ent = DIRENT_SIZE" using ln by (simp add: ent_def DIRSIZ_def DIRENT_SIZE_def)
  have fi: "file_inv di (k + NDIRECT) s2" and sz: "file_siz (inodes s2 di) = DIRENT_SIZE * m" using s2(2) by (simp_all add: dir_inv_def)
  have "DIRENT_SIZE * e + length ent \<le> file_siz (inodes s2 di)"
    unfolding sz le using em(1) mult_le_mono2 [of "Suc e" m DIRENT_SIZE] by simp
  then obtain s3 where s3: "writei di ent (DIRENT_SIZE * e) (length ent) s2 = Some (int (length ent), s3)" "ready k s3" "upper s3 = upper s2"
    "\<forall>j<file_siz (inodes s2 di). fbyte s3 di j = overlay (DIRENT_SIZE * e) ent (fbyte s2 di) j"
    using writei_bytes [OF fi] by metis
  have link: "dirlink di name n s = Some (0, s3)"
    using s1(4) s2(1) cp s3(1) le by (simp add: dirlink_def offs de1 E_FILE_EXISTS_def old_def ent_def)
  have fb2: "fbyte s2 = fbyte s" using fbyte_cong [of s2 s] s2(3) s1(2) upper_sel(2) [OF s2(4)] upper_sel(2) [OF s1(3)] by simp
  have d3: "dentry s3 di q = (if q = e then ent else dentry s di q)" if "q < m" for q
    using dentry_overlay [OF _ le that, of s3 di e s] s3(4) sz fb2 by simp
  have "dir_lookup s3 di m x = (if take DIRSIZ x = name then Some n else dir_lookup s di m x)" for x
    using dir_lookup_new [OF d3 em _ n(1) _ _ abs, of x] dirent_bytes [OF n(2) ln] cn name(2) by (simp add: ent_def)
  then show ?thesis
    using link dir_inv_cong [OF s3(2,3) s2(2)] s3(3) s2(4) s1(3) by (intro that [of s3]) simp_all
qed

section \<open>Inodes on disk\<close>

definition inode_range :: "inode \<Rightarrow> bool" where
  "inode_range r \<longleftrightarrow> itype r < 65536 \<and> imajor r < 65536 \<and> iminor r < 65536 \<and> nlink r < 65536 \<and> file_siz r < 2 ^ 32 \<and>
     (\<forall>j<NDIRECT + 2. blk_addrs r j < 2 ^ 32)"

lemma put_bytes_other:
  "j < i \<or> i + 2 \<le> j \<Longrightarrow> put16 i v d j = d j" "j < i \<or> i + 4 \<le> j \<Longrightarrow> put32 i v d j = d j"
  by (auto simp: put16_def put32_def)

lemma put_addrs_other: "j < off + 12 \<or> off + 12 + 4 * n \<le> j \<Longrightarrow> put_addrs n off f d j = d j"
  by (induction n) (auto simp: put_bytes_other)

lemma get32_put_addrs: "j < n \<Longrightarrow> \<forall>j<n. f j < 2 ^ 32 \<Longrightarrow> get32 (put_addrs n off f d) (off + 12 + 4 * j) = f j"
proof (induction n)
  case (Suc n)
  then show ?case by (cases "j = n") auto
qed simp

lemma get_put_addrs_low:
  "p + 2 \<le> off + 12 \<Longrightarrow> get16 (put_addrs n off f d) p = get16 d p" "p + 4 \<le> off + 12 \<Longrightarrow> get32 (put_addrs n off f d) p = get32 d p"
  by (simp_all add: get16_def get32_def put_addrs_other)

lemma get16_put32_low: "p + 2 \<le> i \<Longrightarrow> get16 (put32 i v d) p = get16 d p"
  by (simp add: get16_def put_bytes_other)

text \<open>The field of an inode that the cache and not the disk determines.\<close>

lemma get_put_d_inode:
  assumes "inode_range r"
  shows "get_d_inode off (put_d_inode off r d) x = x\<lparr>itype := itype r, imajor := imajor r, iminor := iminor r, nlink := nlink r,
    file_siz := file_siz r, blk_addrs := (\<lambda>j. if j < NDIRECT + 2 then blk_addrs r j else blk_addrs x j)\<rparr>"
proof -
  have a: "get32 (put_d_inode off r d) (off + 12 + 4 * j) = blk_addrs r j" if "j < NDIRECT + 2" for j
    unfolding put_d_inode_def by (rule get32_put_addrs [OF that]) (use assms in \<open>simp add: inode_range_def\<close>)
  have h: "get16 (put_d_inode off r d) off = itype r" "get16 (put_d_inode off r d) (off + 2) = imajor r" "get16 (put_d_inode off r d) (off + 4) = iminor r"
    "get16 (put_d_inode off r d) (off + 6) = nlink r" "get32 (put_d_inode off r d) (off + 8) = file_siz r"
    using assms by (simp_all add: put_d_inode_def inode_range_def get_put_addrs_low get16_put32_low)
  show ?thesis unfolding get_d_inode_def h using a by (simp cong: if_cong)
qed

lemma put_d_inode_other: "j < off \<or> off + 64 \<le> j \<Longrightarrow> put_d_inode off r d j = d j"
  by (auto simp: put_d_inode_def put_addrs_other put_bytes_other NDIRECT_def)

lemma get_d_inode_cong:
  assumes "\<And>j. off \<le> j \<Longrightarrow> j < off + 64 \<Longrightarrow> d j = e j"
  shows "get_d_inode off d x = get_d_inode off e x"
proof -
  have 16: "get16 d (off + p) = get16 e (off + p)" if "p + 2 \<le> 64" for p using assms that by (simp add: get16_def)
  have 32: "get32 d (off + p) = get32 e (off + p)" if "p + 4 \<le> 64" for p using assms that by (simp add: get32_def get16_def)
  have "get32 d (off + 12 + 4 * j) = get32 e (off + 12 + 4 * j)" if "j < NDIRECT + 2" for j
    using 32 [of "12 + 4 * j"] that by (simp add: NDIRECT_def add.assoc)
  moreover have "get16 d off = get16 e off" using assms by (simp add: get16_def)
  ultimately show ?thesis
    using 16 [of 2] 16 [of 4] 16 [of 6] 32 [of 8] by (simp add: get_d_inode_def cong: if_cong)
qed

text \<open>C37: an inode survives its way through the disk.  \<^verbatim>\<open>iupdate\<close> writes it into its slot of its block, and when \<^verbatim>\<open>ilock\<close>
  later fills an entry of the inode cache for the same number it gets the same type, device numbers, link
  count, size and block addresses; no other inode on the disk changes.\<close>

theorem inode_disk_roundtrip:
  assumes "ready (Suc k) s" "0 < k" "idev (inodes s i) = ROOTDEV" "IBLOCK (ino (inodes s i)) s < FSSIZE" "inode_range (inodes s i)"
    "itype (inodes s i) \<noteq> 0" "idev (inodes s j) = ROOTDEV" "ino (inodes s j) = ino (inodes s i)" "1 \<le> iref_cnt (inodes s j)"
    "\<not> ilocked (inodes s j)" "\<not> ivalid (inodes s j)"
  shows "\<exists>s1 s2. iupdate i s = Some s1 \<and> ilock (Some j) s1 = Some (0, s2) \<and>
    inodes s2 j = (inodes s i)\<lparr>iref_cnt := iref_cnt (inodes s j), ivalid := True, ilocked := True,
      blk_addrs := (\<lambda>q. if q < NDIRECT + 2 then blk_addrs (inodes s i) q else blk_addrs (inodes s j) q)\<rparr> \<and>
    (\<forall>n x. n \<noteq> ino (inodes s i) \<longrightarrow> get_d_inode (d_inode_off n) (view s1 (IBLOCK n s)) x = get_d_inode (d_inode_off n) (view s (IBLOCK n s)) x)"
proof -
  let ?r = "inodes s i" and ?n = "ino (inodes s i)"
  let ?B = "IBLOCK ?n s" and ?o = "d_inode_off ?n"
  obtain b s1 where s1: "bread ROOTDEV ?B s = Some (b, s1)" "upper s1 = upper s"
    "\<forall>f. ready (Suc k - 1) (log_and_release b (set_data b f s1)) \<and> view (log_and_release b (set_data b f s1)) = (view s)(?B := f (view s ?B))"
    by (rule ready_block [OF assms(1) zero_less_Suc assms(4)]) (rule that; assumption)
  define s2 where "s2 = log_and_release b (set_data b (put_d_inode ?o ?r) s1)"
  have i1: "inodes s1 = inodes s" by (rule upper_sel(2) [OF s1(2)])
  have up: "iupdate i s = Some s2"
    using s1(1) assms(3) by (simp add: iupdate_def i1 s2_def)
  have s2: "ready k s2" "view s2 = (view s)(?B := put_d_inode ?o ?r (view s ?B))" "upper s2 = upper s"
    using s1(2,3) by (simp_all add: s2_def)
  have i2: "inodes s2 = inodes s" "sb s2 = sb s" by (rule upper_sel [OF s2(3)])+
  define t where "t = upd_inode j (\<lambda>r. r\<lparr>ilocked := True\<rparr>) s2"
  have tr: "ready k t" "view t = view s2" using s2(1) by (simp_all add: t_def)
  obtain c s3 where s3: "bread ROOTDEV ?B t = Some (c, s3)" "bdata (bufs s3 c) = view t ?B" "upper s3 = upper t"
    by (rule ready_block [OF tr(1) assms(2,4)]) (rule that; assumption)
  have i3: "inodes s3 = inodes t" "sb s3 = sb t" by (rule upper_sel [OF s3(3)])+
  define x where "x = get_d_inode ?o (put_d_inode ?o ?r (view s ?B)) ((inodes s j)\<lparr>ilocked := True\<rparr>)"
  have x: "x = ?r\<lparr>iref_cnt := iref_cnt (inodes s j), ivalid := False, ilocked := True,
      blk_addrs := (\<lambda>q. if q < NDIRECT + 2 then blk_addrs ?r q else blk_addrs (inodes s j) q)\<rparr>"
    unfolding x_def get_put_d_inode [OF assms(5)] using assms(3,7,8,11) by (cases "inodes s i"; cases "inodes s j") (simp cong: if_cong)
  have xj: "get_d_inode ?o (view t ?B) (inodes t j) = x" by (simp add: x_def tr(2) s2(2) t_def i2)
  have it: "inodes t j = (inodes s j)\<lparr>ilocked := True\<rparr>" "IBLOCK ?n t = ?B" by (simp_all add: t_def i2 IBLOCK_def)
  have "ilock (Some j) s2 = Some (0, upd_inode j (\<lambda>r. r\<lparr>ivalid := True\<rparr>) (brelse c (upd_inode j (get_d_inode ?o (bdata (bufs s3 c))) s3)))"
    using assms(6-11) s3(1,2) xj x
    by (simp add: ilock_def i2 Let_def t_def [symmetric] it i3)
  moreover have "get_d_inode (d_inode_off n) (view s2 (IBLOCK n s)) y = get_d_inode (d_inode_off n) (view s (IBLOCK n s)) y" if "n \<noteq> ?n" for n y
  proof (rule get_d_inode_cong)
    fix p assume p: "d_inode_off n \<le> p" "p < d_inode_off n + 64"
    have "n mod IPB \<noteq> ?n mod IPB" if "IBLOCK n s = ?B"
      using that \<open>n \<noteq> ?n\<close> div_mult_mod_eq [of n IPB] div_mult_mod_eq [of ?n IPB] by (auto simp: IBLOCK_def)
    then have "p < ?o \<or> ?o + 64 \<le> p" if "IBLOCK n s = ?B" using that p by (auto simp: d_inode_off_def)
    then show "view s2 (IBLOCK n s) p = view s (IBLOCK n s) p" using s2(2) by (auto simp: put_d_inode_other)
  qed
  ultimately show ?thesis
    using up x xj s3(2) i3 by (intro exI [of _ s2] exI conjI) auto
qed

text \<open>A file system with one inode in use whose blocks start at block 200, a stale cache entry for the same number
  and three free entries.\<close>

definition demo_fs :: "nat \<Rightarrow> nat \<Rightarrow> fs" where
  "demo_fs ty sz = tiny_fs\<lparr>inodes := (\<lambda>i. if i = 0 then inode_zero\<lparr>idev := ROOTDEV, ino := 1, iref_cnt := 1, itype := ty, nlink := 1,
     file_siz := sz, blk_addrs := (\<lambda>k. 200 + k)\<rparr> else inode_zero\<lparr>idev := ROOTDEV, ino := 1, iref_cnt := 1\<rparr>), i_free := [2, 3, 4]\<rparr>"

lemma demo_fs_sel:
  "inodes (demo_fs ty sz) 0 = inode_zero\<lparr>idev := ROOTDEV, ino := 1, iref_cnt := 1, itype := ty, nlink := 1, file_siz := sz, blk_addrs := (\<lambda>k. 200 + k)\<rparr>"
  "inodes (demo_fs ty sz) (Suc i) = inode_zero\<lparr>idev := ROOTDEV, ino := 1, iref_cnt := 1\<rparr>"
  "i_free (demo_fs ty sz) = [2, 3, 4]" "i_hash (demo_fs ty sz) = (\<lambda>_. [])" "\<not> icache_locked (demo_fs ty sz)" "inode_start (sb (demo_fs ty sz)) = 130"
  by (simp_all add: demo_fs_def tiny_fs_def buffer_init_def)

lemma demo_fs_view: "view (demo_fs ty sz) n = (\<lambda>_. 0)"
  by (simp add: demo_fs_def view_def cached_def tiny_fs_sel)

lemma demo_fs_ready: "k < 120 \<Longrightarrow> ready k (demo_fs ty sz)"
proof -
  assume k: "k < 120"
  have "bio_inv (demo_fs ty sz)" using tiny_fs_inv unfolding bio_inv_def chained_def demo_fs_def by simp
  then show ?thesis using k by (simp add: ready_def demo_fs_def chained_def tiny_fs_sel NBUF_def LOGSIZE_def)
qed

lemma demo_fs_mapped: "sz \<le> NDIRECT * BLKSIZE \<Longrightarrow> mapped (inodes (demo_fs ty sz) 0) sz"
proof -
  assume sz: "sz \<le> NDIRECT * BLKSIZE"
  then have "k < 11" if "k * BLKSIZE < sz" for k using that by (simp add: NDIRECT_def BLKSIZE_def)
  then show ?thesis using sz by (fastforce simp: mapped_def demo_fs_sel inode_zero_def inj_on_def FSSIZE_def)
qed

lemma demo_fs_file: "sz \<le> NDIRECT * BLKSIZE \<Longrightarrow> k < 120 \<Longrightarrow> ty \<noteq> T_DEV \<Longrightarrow> file_inv 0 k (demo_fs ty sz)"
  using demo_fs_mapped [of sz ty] demo_fs_ready [of k ty sz] by (simp add: file_inv_def demo_fs_sel)

theorem inode_disk_roundtrip_witness:
  "\<exists>s1 s2. iupdate 0 (demo_fs T_FILE 5000) = Some s1 \<and> ilock (Some 1) s1 = Some (0, s2) \<and> file_siz (inodes s2 1) = 5000"
proof -
  let ?s = "demo_fs T_FILE 5000"
  have "inode_range (inodes ?s 0)" by (auto simp: inode_range_def demo_fs_sel inode_zero_def T_FILE_def NDIRECT_def)
  then have "\<exists>s1 s2. iupdate 0 ?s = Some s1 \<and> ilock (Some 1) s1 = Some (0, s2) \<and>
    inodes s2 1 = (inodes ?s 0)\<lparr>iref_cnt := iref_cnt (inodes ?s 1), ivalid := True, ilocked := True,
      blk_addrs := (\<lambda>q. if q < NDIRECT + 2 then blk_addrs (inodes ?s 0) q else blk_addrs (inodes ?s 1) q)\<rparr> \<and>
    (\<forall>n x. n \<noteq> ino (inodes ?s 0) \<longrightarrow> get_d_inode (d_inode_off n) (view s1 (IBLOCK n ?s)) x = get_d_inode (d_inode_off n) (view ?s (IBLOCK n ?s)) x)"
    by (intro inode_disk_roundtrip [OF demo_fs_ready [of "Suc 1"]])
       (use demo_fs_sel(2) [of T_FILE 5000 0] in \<open>simp_all add: demo_fs_sel(1,6) inode_zero_def T_FILE_def IBLOCK_def IPB_def BLKSIZE_def FSSIZE_def\<close>)
  then show ?thesis by (elim exE conjE) (auto simp: demo_fs_sel)
qed

text \<open>C38: reading and writing a file refines an array of bytes.  After any sequence of writes inside a file whose blocks
  are direct and present, across block boundaries and overlapping, a read returns the bytes the writes have put
  there and the old bytes elsewhere, all operations return the full count, and the file keeps its size.\<close>

theorem file_refines_byte_array:
  assumes "file_inv i (k + NDIRECT * length ops) s" "0 < k" "\<forall>(off, xs)\<in>set ops. off + length xs \<le> file_siz (inodes s i)"
    "off + n \<le> file_siz (inodes s i)"
  shows "\<exists>s1 s2. run_writes (\<lambda>xs off n s. writei i xs off n s) ops s = Some s1 \<and>
    readi i off n s1 = Some (int n, map (overlays ops (fbyte s i)) [off..<off + n], s2) \<and>
    file_inv i k s2 \<and> file_siz (inodes s2 i) = file_siz (inodes s i)"
  by (rule inode_file.read_after_writes [OF assms])

theorem file_refines_byte_array_witness:
  "\<exists>s1 s2. run_writes (\<lambda>xs off n s. writei 0 xs off n s) [(4094, [1, 2, 3, 4]), (4095, [7])] (demo_fs T_FILE 5000) = Some s1 \<and>
     readi 0 4093 5 s1 = Some (5, [0, 1, 7, 3, 4], s2)"
proof -
  let ?s = "demo_fs T_FILE 5000" and ?ops = "[(4094, [1, 2, 3, 4]), (4095, [7])] :: (nat \<times> u8 list) list"
  have "file_inv 0 (1 + NDIRECT * length ?ops) ?s"
    by (rule demo_fs_file) (simp_all add: NDIRECT_def BLKSIZE_def T_FILE_def T_DEV_def)
  then have "\<exists>s1 s2. run_writes (\<lambda>xs off n s. writei 0 xs off n s) ?ops ?s = Some s1 \<and>
    readi 0 4093 5 s1 = Some (int 5, map (overlays ?ops (fbyte ?s 0)) [4093..<4093 + 5], s2) \<and>
    file_inv 0 1 s2 \<and> file_siz (inodes s2 0) = file_siz (inodes ?s 0)"
    by (rule file_refines_byte_array) (simp_all add: demo_fs_sel)
  moreover have "map (overlays ?ops (fbyte ?s 0)) [4093..<4093 + 5] = [0, 1, 7, 3, 4]"
    by (simp add: upt_rec overlay_def fbyte_def demo_fs_view)
  ultimately show ?thesis by auto
qed

text \<open>C39: a directory refines a map from names to inode numbers.  \<^verbatim>\<open>dirlink\<close> with a name of at most 12 bytes that is not in
  the directory fills a free entry: the name is then mapped to the inode and every other name to what it was
  mapped to before; a following \<^verbatim>\<open>dirlookup\<close> of the name succeeds with the inode of this number, and of a name that is
  not in the map fails without changing a block.\<close>

theorem directory_refines_map:
  assumes "dir_inv di m (k + NDIRECT) s" "0 < k" "0 \<notin> set name" "length name + 2 \<le> DIRSIZ" "0 < n" "n < 65536"
    "dir_lookup s di m name = None" "\<exists>q<m. dirent_ino (dentry s di q) = 0"
  shows "\<exists>s'. dirlink di name n s = Some (0, s') \<and> dir_inv di m k s' \<and>
    (\<forall>x. dir_lookup s' di m x = (if take DIRSIZ x = name then Some n else dir_lookup s di m x)) \<and>
    (\<exists>t off. view t = view s' \<and> dirlookup di name None s' = map_option (\<lambda>(ip, t). (0, Some ip, off, t)) (iget ROOTDEV n t)) \<and>
    (\<forall>x. 0 \<notin> set x \<and> dir_lookup s' di m x = None \<longrightarrow> (\<exists>t. view t = view s' \<and> dirlookup di x None s' = Some (- E_FILE_EXISTS, None, 0, t)))"
proof -
  obtain e where e: "find (\<lambda>q. dirent_ino (dentry s di q) = 0) [0..<m] = Some e"
    using assms(8) by (cases "find (\<lambda>q. dirent_ino (dentry s di q) = 0) [0..<m]") (auto simp: find_None_iff)
  obtain s' where s': "dirlink di name n s = Some (0, s')" "dir_inv di m k s'"
    "\<forall>x. dir_lookup s' di m x = (if take DIRSIZ x = name then Some n else dir_lookup s di m x)"
    by (rule dirlink_adds [OF assms(1,3-7) e]) (rule that; assumption)
  have look: "\<exists>t. view t = view s' \<and> dirlookup di x None s' = found_inode None s' di t (find (\<lambda>q. matches x (dentry s' di q)) [0..<m])" if "0 \<notin> set x" for x
    by (rule dirlookup_finds [OF s'(2) assms(2) that, of None]) blast
  have "dir_lookup s' di m name = Some n" using s'(3) assms(4) by simp
  then obtain q where q: "find (\<lambda>q. matches name (dentry s' di q)) [0..<m] = Some q" "dirent_ino (dentry s' di q) = n"
    by (auto simp: dir_lookup_def)
  have "\<exists>t off. view t = view s' \<and> dirlookup di name None s' = map_option (\<lambda>(ip, t). (0, Some ip, off, t)) (iget ROOTDEV n t)"
    using look [OF assms(3)] q by (auto simp: found_inode_def)
  moreover have "\<exists>t. view t = view s' \<and> dirlookup di x None s' = Some (- E_FILE_EXISTS, None, 0, t)" if "0 \<notin> set x" "dir_lookup s' di m x = None" for x
    using look [OF that(1)] that(2) by (auto simp: dir_lookup_def found_inode_def)
  ultimately show ?thesis using s' by blast
qed

theorem directory_refines_map_witness:
  "\<exists>s'. dirlink 0 [97, 98] 5 (demo_fs T_DIR 32) = Some (0, s') \<and> dir_lookup s' 0 2 [97, 98] = Some 5 \<and> dir_lookup s' 0 2 [97] = None"
proof -
  let ?s = "demo_fs T_DIR 32"
  have inv: "dir_inv 0 2 (1 + NDIRECT) ?s"
    using demo_fs_file [of 32 "1 + NDIRECT" T_DIR] by (simp add: dir_inv_def demo_fs_sel DIRENT_SIZE_def NDIRECT_def BLKSIZE_def T_DIR_def T_DEV_def)
  have z: "dirent_ino (dentry ?s 0 q) = 0" for q
    by (simp add: dentry_def dirent_ino_def fbyte_def demo_fs_view DIRENT_SIZE_def)
  then have none: "dir_lookup ?s 0 2 x = None" for x
    by (simp add: dir_lookup_def find_None_iff matches_def)
  have "\<exists>s'. dirlink 0 [97, 98] 5 ?s = Some (0, s') \<and> dir_inv 0 2 1 s' \<and>
    (\<forall>x. dir_lookup s' 0 2 x = (if take DIRSIZ x = [97, 98] then Some 5 else dir_lookup ?s 0 2 x)) \<and>
    (\<exists>t off. view t = view s' \<and> dirlookup 0 [97, 98] None s' = map_option (\<lambda>(ip, t). (0, Some ip, off, t)) (iget ROOTDEV 5 t)) \<and>
    (\<forall>x. 0 \<notin> set x \<and> dir_lookup s' 0 2 x = None \<longrightarrow> (\<exists>t. view t = view s' \<and> dirlookup 0 x None s' = Some (- E_FILE_EXISTS, None, 0, t)))"
    by (rule directory_refines_map [OF inv]) (use z none in \<open>simp_all add: DIRSIZ_def exI [of _ 0]\<close>)
  then show ?thesis by (elim exE conjE) (auto simp: none DIRSIZ_def)
qed

section \<open>Duplicates in the inode cache\<close>

lemma find_removeAll:
  assumes "\<And>c. c \<noteq> a \<Longrightarrow> Q c = P c"
  shows "find P xs = None \<Longrightarrow> Q a \<Longrightarrow> find Q (removeAll a xs @ [a]) = Some a"
    "find P xs = Some z \<Longrightarrow> z \<noteq> a \<Longrightarrow> find Q (removeAll a xs @ ys) = Some z"
  using assms by (induction xs) (auto split: if_splits)

text \<open>The second half of \<^verbatim>\<open>iget\<close> with a free entry: the search for this number finds the new entry only when there was
  no old one.\<close>

lemma iget_new_entry:
  assumes "i_free s = a # fl"
  obtains s' where "iget_new dev n s = (Some a, s')" "i_free s' = fl" "icache_locked s' = icache_locked s"
    "inodes s' = (inodes s)(a := (inodes s a)\<lparr>iref_cnt := 1, idev := dev, ino := n, ivalid := False\<rparr>)"
    "find_inode_in_hash dev n s = None \<Longrightarrow> find_inode_in_hash dev n s' = Some a"
    "\<And>z. find_inode_in_hash dev n s = Some z \<Longrightarrow> z \<noteq> a \<Longrightarrow> find_inode_in_hash dev n s' = Some z"
proof -
  define s' where "s' = snd (iget_new dev n s)"
  let ?h = "icache_hash_func dev n"
  have ex: "iget_new dev n s = (Some a, s')" "i_free s' = fl" "icache_locked s' = icache_locked s"
    "inodes s' = (inodes s)(a := (inodes s a)\<lparr>iref_cnt := 1, idev := dev, ino := n, ivalid := False\<rparr>)"
    "i_hash s' ?h = removeAll a (i_hash s ?h) @ [a]"
    by (simp_all add: s'_def iget_new_def assms Let_def put_inode_in_hash_def upd_inode_def)
  have eq: "find_inode_in_hash dev n s' = find (\<lambda>i. idev (inodes s' i) = dev \<and> ino (inodes s' i) = n) (removeAll a (i_hash s ?h) @ [a])"
    by (simp add: find_inode_in_hash_def ex(5))
  have P: "(idev (inodes s' c) = dev \<and> ino (inodes s' c) = n) = (idev (inodes s c) = dev \<and> ino (inodes s c) = n)" if "c \<noteq> a" for c
    using that by (simp add: ex(4))
  note fr = find_removeAll [of a "\<lambda>i. idev (inodes s' i) = dev \<and> ino (inodes s' i) = n" "\<lambda>i. idev (inodes s i) = dev \<and> ino (inodes s i) = n", OF P]
  show ?thesis
  proof (rule that [OF ex(1-4)])
    show "find_inode_in_hash dev n s' = Some a" if "find_inode_in_hash dev n s = None"
      unfolding eq using that by (intro fr(1)) (simp_all add: find_inode_in_hash_def ex(4))
    show "find_inode_in_hash dev n s' = Some z" if "find_inode_in_hash dev n s = Some z" "z \<noteq> a" for z
      unfolding eq using that by (intro fr(2)) (simp_all add: find_inode_in_hash_def)
  qed
qed

text \<open>The inode cache can hold one inode twice.  After \<^verbatim>\<open>iget\<close> and \<^verbatim>\<open>iput\<close> an entry without references stays first on
  its hash chain; \<^verbatim>\<open>iget\<close> finds only this entry, rejects it because its count is 0 and takes another entry, and
  so does the next \<^verbatim>\<open>iget\<close>: two entries with different locks and contents now stand for the same inode.\<close>

theorem iget_duplicates_inode:
  assumes "\<not> icache_locked s" "find_inode_in_hash dev n s = None" "i_free s = x # a # b # fl" "distinct (i_free s)" "\<not> ilocked (inodes s x)"
  shows "\<exists>s1 s2 s3 s4. iget dev n s = Some (Some x, s1) \<and> iput x s1 = Some s2 \<and> iget dev n s2 = Some (Some a, s3) \<and> iget dev n s3 = Some (Some b, s4) \<and>
    a \<noteq> b \<and> idev (inodes s4 a) = dev \<and> ino (inodes s4 a) = n \<and> idev (inodes s4 b) = dev \<and> ino (inodes s4 b) = n \<and>
    iref_cnt (inodes s4 a) = 1 \<and> iref_cnt (inodes s4 b) = 1"
proof -
  have d: "x \<noteq> a" "x \<noteq> b" "a \<noteq> b" using assms(3,4) by auto
  obtain s1 where s1: "iget_new dev n s = (Some x, s1)" "i_free s1 = a # b # fl" "icache_locked s1 = icache_locked s"
    "inodes s1 = (inodes s)(x := (inodes s x)\<lparr>iref_cnt := 1, idev := dev, ino := n, ivalid := False\<rparr>)" "find_inode_in_hash dev n s1 = Some x"
    by (rule iget_new_entry [OF assms(3), of dev n]) (use assms(2) in simp)
  have g1: "iget dev n s = Some (Some x, s1)" using assms(1,2) s1(1) by (simp add: iget_def)
  define s2 where "s2 = upd_inode x (\<lambda>r. r\<lparr>iref_cnt := 0, ilocked := False\<rparr>) (s1\<lparr>i_free := a # b # fl @ [x]\<rparr>)"
  have p: "iput x s1 = Some s2"
    using assms(1,5) s1(2-4) by (simp add: iput_def Let_def upd_inode_def s2_def)
  have f2: "find_inode_in_hash dev n s2 = Some x" "i_free s2 = a # b # fl @ [x]" "icache_locked s2 = icache_locked s" "iref_cnt (inodes s2 x) = 0"
    using s1(3,5) by (simp_all add: s2_def upd_inode_def find_inode_in_hash_def) (erule trans [rotated], rule arg_cong2 [of _ _ _ _ find], auto)
  obtain s3 where s3: "iget_new dev n s2 = (Some a, s3)" "i_free s3 = b # fl @ [x]" "icache_locked s3 = icache_locked s2"
    "inodes s3 = (inodes s2)(a := (inodes s2 a)\<lparr>iref_cnt := 1, idev := dev, ino := n, ivalid := False\<rparr>)" "find_inode_in_hash dev n s3 = Some x"
    by (rule iget_new_entry [OF f2(2), of dev n]) (use f2(1) d in simp)
  have g3: "iget dev n s2 = Some (Some a, s3)" using assms(1) f2 s3(1) by (simp add: iget_def)
  obtain s4 where s4: "iget_new dev n s3 = (Some b, s4)"
    "inodes s4 = (inodes s3)(b := (inodes s3 b)\<lparr>iref_cnt := 1, idev := dev, ino := n, ivalid := False\<rparr>)"
    by (rule iget_new_entry [OF s3(2), of dev n]) (rule that; assumption)
  have g4: "iget dev n s3 = Some (Some b, s4)" using assms(1) f2(3,4) s3(3-5) s4(1) d by (simp add: iget_def)
  show ?thesis using g1 p g3 g4 d s3(4) s4(2) by (intro exI conjI) auto
qed

theorem iget_duplicates_inode_witness:
  "\<exists>s1 s2 s3 s4. iget ROOTDEV 7 (demo_fs T_FILE 0) = Some (Some 2, s1) \<and> iput 2 s1 = Some s2 \<and> iget ROOTDEV 7 s2 = Some (Some 3, s3) \<and>
     iget ROOTDEV 7 s3 = Some (Some 4, s4) \<and> ino (inodes s4 3) = 7 \<and> ino (inodes s4 4) = 7 \<and> iref_cnt (inodes s4 3) = 1 \<and> iref_cnt (inodes s4 4) = 1"
proof -
  let ?s = "demo_fs T_FILE 0"
  have "find_inode_in_hash ROOTDEV 7 ?s = None" by (simp add: find_inode_in_hash_def demo_fs_sel)
  moreover have "\<not> ilocked (inodes ?s 2)" by (simp add: demo_fs_def inode_zero_def)
  ultimately show ?thesis
    using iget_duplicates_inode [of ?s ROOTDEV 7 2 3 4 "[]"] by (auto simp: demo_fs_sel)
qed

end
