(* ===== verification/File.thy ===== *)
theory File
  imports Inode
begin

text \<open>
  Open files (kern/file.c) and the creation of pipes (kern/pipe.c): the system-wide table of open files with its
  free list, reference counts, and reading and writing through a file.  A pipe operation that has to wait for
  the other end does not come back here; its steps are those of the theory of pipes.
\<close>

unbundle bit_operations_syntax

section \<open>The table of open files\<close>

definition filed_zero :: filed where
  "filed_zero = \<lparr>ftyp = FS_NONE, fref = 0, foffset = 0, fflag = 0, fpipe = None, finode = None\<rparr>"

definition ftable_init :: "fs \<Rightarrow> fs" where
  "ftable_init s = s\<lparr>n_openfiles := 0, f_free := rev [0..<NFILE], files := (\<lambda>f. if f < NFILE then filed_zero else files s f)\<rparr>"

definition file_alloc :: "fs \<Rightarrow> (nat option \<times> fs) option" where
  "file_alloc s =
     (if n_openfiles s = int NFILE then Some (None, s)
      else case f_free s of [] \<Rightarrow> None
        | f # fl \<Rightarrow> Some (Some f, (upd_file f (\<lambda>_. filed_zero\<lparr>fref := 1\<rparr>) s)\<lparr>f_free := fl, n_openfiles := n_openfiles s + 1\<rparr>))"

definition file_dup :: "nat \<Rightarrow> fs \<Rightarrow> (nat \<times> fs) option" where
  "file_dup f s = (if fref (files s f) = 0 then None else Some (f, upd_file f (\<lambda>r. r\<lparr>fref := fref r + 1\<rparr>) s))"

definition file_close :: "nat \<Rightarrow> fs \<Rightarrow> fs option" where
  "file_close f s =
     (if fref (files s f) = 0 then None
      else do {
        let s = upd_file f (\<lambda>r. r\<lparr>fref := fref r - 1\<rparr>) s;
        if 0 < fref (files s f) then Some s
        else do {
          let ftmp = files s f;
          let s = upd_file f (\<lambda>r. r\<lparr>ftyp := FS_NONE\<rparr>) s;
          let s = s\<lparr>n_openfiles := n_openfiles s - 1, f_free := f # f_free s\<rparr>;
          if ftyp ftmp = FS_NONE then Some s
          else if ftyp ftmp \<noteq> FS_PIPE
          then do {
            s \<leftarrow> begin_transaction s;
            i \<leftarrow> finode ftmp;
            s \<leftarrow> iput i s;
            end_transaction s
          }
          else do {
            p \<leftarrow> fpipe ftmp;
            Some (s\<lparr>pipes := (pipes s)(p := fst (pipe_close (fflag ftmp AND O_WRONLY \<noteq> 0) (pipes s p)))\<rparr>)
          }
        }
      })"

section \<open>Files\<close>

definition file_stat :: "nat option \<Rightarrow> stat option \<Rightarrow> fs \<Rightarrow> (int \<times> stat option \<times> fs) option" where
  "file_stat fp st s =
     (case (fp, st) of
        (Some f, Some b) \<Rightarrow>
          if finode (files s f) = None \<or> ftyp (files s f) = FS_PIPE then Some (- 1, st, s)
          else do {
            (_, s) \<leftarrow> ilock (finode (files s f)) s;
            let b = stati (finode (files s f)) b s;
            Some (0, Some b, snd (iunlock (finode (files s f)) s))
          }
      | _ \<Rightarrow> Some (- 1, st, s))"

definition file_read :: "nat option \<Rightarrow> int \<Rightarrow> fs \<Rightarrow> (int \<times> u8 list \<times> fs) option" where
  "file_read fp nbytes s =
     (case fp of None \<Rightarrow> Some (- 1, [], s)
      | Some f \<Rightarrow>
          if ftyp (files s f) = FS_NONE \<or> fflag (files s f) AND (O_RDONLY OR O_RDWR) = 0 then Some (- 1, [], s)
          else if ftyp (files s f) \<noteq> FS_PIPE
          then do {
            (_, s) \<leftarrow> ilock (finode (files s f)) s;
            i \<leftarrow> finode (files s f);
            (r, xs, s) \<leftarrow> readi i (foffset (files s f)) (nat (nbytes mod 2 ^ 32)) s;
            let s = (if 0 \<le> r then upd_file f (\<lambda>x. x\<lparr>foffset := u32add (foffset x) (nat r)\<rparr>) s else s);
            Some (r, xs, snd (iunlock (Some i) s))
          }
          else do {
            p \<leftarrow> fpipe (files s f);
            case pipe_read nbytes (pipes s p) of
              (PDone r, xs, p') \<Rightarrow> Some (r, xs, s\<lparr>pipes := (pipes s)(p := p')\<rparr>)
            | (PFail, xs, p') \<Rightarrow> Some (- 1, xs, s\<lparr>pipes := (pipes s)(p := p')\<rparr>)
            | (PSleep, _, _) \<Rightarrow> None
          })"

definition maxbytes :: int where
  "maxbytes = (int MAXOPBLOCKS - 4) div 2 * int BLKSIZE"

function file_write_loop :: "nat \<Rightarrow> u8 list \<Rightarrow> int \<Rightarrow> int \<Rightarrow> fs \<Rightarrow> (int \<times> fs) option" where
  "file_write_loop f src tot nbytes s =
     (if tot < nbytes
      then do {
        let perop = (if maxbytes < nbytes - tot then maxbytes else nbytes - tot);
        s \<leftarrow> begin_transaction s;
        (_, s) \<leftarrow> ilock (finode (files s f)) s;
        i \<leftarrow> finode (files s f);
        (wr, s) \<leftarrow> writei i (drop (nat tot) src) (foffset (files s f)) (nat perop) s;
        let s = (if 0 < wr then upd_file f (\<lambda>x. x\<lparr>foffset := u32add (foffset x) (nat wr)\<rparr>) s else s);
        let s = snd (iunlock (Some i) s);
        s \<leftarrow> end_transaction s;
        if wr < 0 \<or> wr \<noteq> perop then Some (- 1, s)
        else file_write_loop f src (tot + wr) nbytes s
      }
      else Some (tot, s))"
  by pat_completeness auto
termination
  by (relation "measure (\<lambda>(f, src, tot, nbytes, s). nat (nbytes - tot))")
     (auto simp: maxbytes_def MAXOPBLOCKS_def BLKSIZE_def split: if_splits)

declare file_write_loop.simps [simp del]

definition file_write :: "nat option \<Rightarrow> u8 list \<Rightarrow> int \<Rightarrow> fs \<Rightarrow> (int \<times> fs) option" where
  "file_write fp src nbytes s =
     (case fp of None \<Rightarrow> Some (- 1, s)
      | Some f \<Rightarrow>
          if ftyp (files s f) = FS_NONE \<or> fflag (files s f) AND (O_WRONLY OR O_RDWR) = 0 then Some (- 1, s)
          else if ftyp (files s f) = FS_PIPE
          then do {
            p \<leftarrow> fpipe (files s f);
            case pipe_write (take (nat nbytes) src) (pipes s p) of
              (PDone r, p') \<Rightarrow> Some (r, s\<lparr>pipes := (pipes s)(p := p')\<rparr>)
            | (PFail, p') \<Rightarrow> Some (- 1, s\<lparr>pipes := (pipes s)(p := p')\<rparr>)
            | (PSleep, _) \<Rightarrow> None
          }
          else file_write_loop f src 0 nbytes s)"

section \<open>New pipes\<close>

text \<open>\<^verbatim>\<open>pipe_alloc\<close> fills two slots of the table of descriptors.  \<open>mem\<close> is the result of the allocation of the pipe and
  \<open>mem_data\<close> the bytes of its buffer, when it could be allocated.\<close>

definition set_slot :: "nat \<Rightarrow> nat option \<Rightarrow> fs \<Rightarrow> fs" where
  "set_slot fd fp s = s\<lparr>open_file_table := (open_file_table s)(fd := fp)\<rparr>"

definition close_slot :: "nat \<Rightarrow> fs \<Rightarrow> fs option" where
  "close_slot fd s = (case open_file_table s fd of None \<Rightarrow> Some s | Some f \<Rightarrow> file_close f s)"

definition pipe_alloc_failure :: "nat \<Rightarrow> nat \<Rightarrow> fs \<Rightarrow> (int \<times> fs) option" where
  "pipe_alloc_failure fd1 fd2 s = do { s \<leftarrow> close_slot fd1 s; s \<leftarrow> close_slot fd2 s; Some (- 1, s) }"

definition pipe_alloc :: "nat option \<Rightarrow> (nat \<Rightarrow> u8) option \<Rightarrow> nat \<Rightarrow> nat \<Rightarrow> fs \<Rightarrow> (int \<times> fs) option" where
  "pipe_alloc mem mem_data fd1 fd2 s =
     (if NOFILE \<le> fd1 then None
      else do {
        (f1, s) \<leftarrow> file_alloc s;
        let s = set_slot fd1 f1 s;
        if NOFILE \<le> fd2 then None
        else if f1 = None then pipe_alloc_failure fd1 fd2 s
        else do {
          (f2, s) \<leftarrow> file_alloc s;
          let s = set_slot fd2 f2 s;
          case (f1, f2, mem, mem_data) of
            (Some x, Some y, Some p, Some d) \<Rightarrow>
              let s = s\<lparr>pipes := (pipes s)(p := pipe_new d)\<rparr>;
                  s = upd_file x (\<lambda>r. r\<lparr>ftyp := FS_PIPE, fflag := fflag r OR O_RDONLY, fpipe := Some p\<rparr>) s;
                  s = upd_file y (\<lambda>r. r\<lparr>ftyp := FS_PIPE, fflag := fflag r OR O_WRONLY, fpipe := Some p\<rparr>) s
              in Some (0, s)
          | _ \<Rightarrow> pipe_alloc_failure fd1 fd2 s
        }
      })"

end
