(* ===== verification/Sysfile.thy ===== *)
theory Sysfile
  imports File
begin

text \<open>
  The file system calls (kern/sysfile.c) of the running process.  Paths and buffers are lists of bytes; a NULL
  buffer is \<open>None\<close>.
\<close>

section \<open>Descriptors\<close>

definition first_slot :: "(nat option \<Rightarrow> bool) \<Rightarrow> nat \<Rightarrow> fs \<Rightarrow> nat option" where
  "first_slot P k s = find (\<lambda>fd. P (open_file_table s fd)) [k..<NOFILE]"

text \<open>\<^verbatim>\<open>pipe\<close> looks for two slots that are in use.\<close>

definition sys_pipe :: "nat option \<Rightarrow> (nat \<Rightarrow> u8) option \<Rightarrow> fs \<Rightarrow> (int \<times> (nat \<times> nat) option \<times> fs) option" where
  "sys_pipe mem mem_data s =
     (if int NOFILE - n_opfiles s < 2 then Some (- 1, None, s)
      else do {
        let fd1 = (case first_slot (\<lambda>x. x \<noteq> None) 0 s of Some fd \<Rightarrow> fd | None \<Rightarrow> NOFILE);
        let fd2 = (case first_slot (\<lambda>x. x \<noteq> None) (fd1 + 1) s of Some fd \<Rightarrow> fd | None \<Rightarrow> max NOFILE (fd1 + 1));
        (r, s) \<leftarrow> pipe_alloc mem mem_data fd1 fd2 s;
        if r < 0 then Some (- 1, None, s) else Some (0, Some (fd1, fd2), s)
      })"

definition fd_alloc :: "fs \<Rightarrow> int" where
  "fd_alloc s =
     (if n_opfiles s = int NOFILE then - 1
      else case first_slot (\<lambda>x. x = None) 0 s of Some fd \<Rightarrow> int fd | None \<Rightarrow> - 1)"

definition is_bad_fd :: "int \<Rightarrow> bool" where
  "is_bad_fd fd \<longleftrightarrow> fd < 0 \<or> int NOFILE \<le> fd"

definition fd_file :: "int \<Rightarrow> fs \<Rightarrow> nat option" where
  "fd_file fd s = open_file_table s (nat fd)"

definition dup :: "int \<Rightarrow> fs \<Rightarrow> (int \<times> fs) option" where
  "dup fd s =
     (if is_bad_fd fd then Some (- 1, s)
      else case fd_file fd s of None \<Rightarrow> Some (- 1, s)
        | Some f \<Rightarrow>
            if n_opfiles s = int NOFILE then Some (- 1, s)
            else let fd2 = fd_alloc s in
            if fd2 < 0 then Some (- 1, s)
            else do {
              (f, s) \<leftarrow> file_dup f s;
              Some (fd2, (set_slot (nat fd2) (Some f) s)\<lparr>n_opfiles := n_opfiles s + 1\<rparr>)
            })"

definition dup2 :: "int \<Rightarrow> int \<Rightarrow> fs \<Rightarrow> (int \<times> fs) option" where
  "dup2 oldfd newfd s =
     (if is_bad_fd oldfd \<or> is_bad_fd newfd then Some (- 1, s)
      else if oldfd = newfd then Some (newfd, s)
      else do {
        s \<leftarrow> (case fd_file newfd s of None \<Rightarrow> Some s
              | Some f \<Rightarrow> do { s \<leftarrow> file_close f s; Some (s\<lparr>n_opfiles := n_opfiles s - 1\<rparr>) });
        let s = set_slot (nat newfd) (fd_file oldfd s) s;
        case fd_file oldfd s of None \<Rightarrow> Some (0, s)
        | Some f \<Rightarrow> do { (_, s) \<leftarrow> file_dup f s; Some (0, s\<lparr>n_opfiles := n_opfiles s + 1\<rparr>) }
      })"

text \<open>The byte count of \<^verbatim>\<open>read\<close> and \<^verbatim>\<open>write\<close> is unsigned and passed on as \<^verbatim>\<open>int\<close>.\<close>

definition sys_read :: "int \<Rightarrow> bool \<Rightarrow> nat \<Rightarrow> fs \<Rightarrow> (int \<times> u8 list \<times> fs) option" where
  "sys_read fd des nbytes s =
     (if is_bad_fd fd \<or> \<not> des then Some (- 1, [], s) else file_read (fd_file fd s) (int32 nbytes) s)"

definition sys_write :: "int \<Rightarrow> u8 list option \<Rightarrow> nat \<Rightarrow> fs \<Rightarrow> (int \<times> fs) option" where
  "sys_write fd src nbytes s =
     (case src of Some xs \<Rightarrow> if is_bad_fd fd then Some (- 1, s) else file_write (fd_file fd s) xs (int32 nbytes) s
      | None \<Rightarrow> Some (- 1, s))"

definition close :: "int \<Rightarrow> fs \<Rightarrow> (int \<times> fs) option" where
  "close fd s =
     (if is_bad_fd fd then Some (- 1, s)
      else do {
        s \<leftarrow> (case fd_file fd s of None \<Rightarrow> Some s
              | Some f \<Rightarrow> do { s \<leftarrow> file_close f s; Some (s\<lparr>n_opfiles := n_opfiles s - 1\<rparr>) });
        Some (0, set_slot (nat fd) None s)
      })"

definition fstat :: "int \<Rightarrow> stat option \<Rightarrow> fs \<Rightarrow> (int \<times> stat option \<times> fs) option" where
  "fstat fd sbuf s = (if is_bad_fd fd then Some (- 1, sbuf, s) else file_stat (fd_file fd s) sbuf s)"

section \<open>Links\<close>

definition fail_end :: "fs \<Rightarrow> (int \<times> fs) option" where
  "fail_end s = do { s \<leftarrow> end_transaction s; Some (- 1, s) }"

definition put_and_fail :: "nat \<Rightarrow> fs \<Rightarrow> (int \<times> fs) option" where
  "put_and_fail i s = do { s \<leftarrow> iunlockput (Some i) s; fail_end s }"

definition dec_nlink :: "nat \<Rightarrow> fs \<Rightarrow> fs" where
  "dec_nlink i = upd_inode i (\<lambda>r. r\<lparr>nlink := (nlink r + 65535) mod 65536\<rparr>)"

definition link_err :: "nat \<Rightarrow> fs \<Rightarrow> (int \<times> fs) option" where
  "link_err i s = do {
     (_, s) \<leftarrow> ilock (Some i) s;
     s \<leftarrow> iupdate i (dec_nlink i s);
     put_and_fail i s
   }"

definition link :: "u8 list \<Rightarrow> u8 list \<Rightarrow> fs \<Rightarrow> (int \<times> fs) option" where
  "link oldpname newpname s = do {
     s \<leftarrow> begin_transaction s;
     (ip, s) \<leftarrow> namei oldpname s;
     case ip of None \<Rightarrow> fail_end s
     | Some i \<Rightarrow> do {
         (_, s) \<leftarrow> ilock (Some i) s;
         if itype (inodes s i) = T_DIR then put_and_fail i s
         else do {
           s \<leftarrow> iupdate i (upd_inode i (\<lambda>r. r\<lparr>nlink := (nlink r + 1) mod 65536\<rparr>) s);
           let s = snd (iunlock (Some i) s);
           (dp, name, s) \<leftarrow> namep newpname s;
           case dp of None \<Rightarrow> link_err i s
           | Some di \<Rightarrow> do {
               (_, s) \<leftarrow> ilock (Some di) s;
               (r, s) \<leftarrow> (if idev (inodes s i) \<noteq> idev (inodes s di) then Some (- 1, s)
                         else do { nm \<leftarrow> name; dirlink di nm (ino (inodes s i)) s });
               if r < 0
               then do { s \<leftarrow> iunlockput (Some di) s; link_err i s }
               else do {
                 s \<leftarrow> iupdate di s;
                 s \<leftarrow> iput i s;
                 s \<leftarrow> iunlockput (Some di) s;
                 s \<leftarrow> end_transaction s;
                 Some (0, s)
               }
             }
         }
       }
   }"

definition DOT :: "u8 list" where "DOT = [46]"
definition DOTDOT :: "u8 list" where "DOTDOT = [46, 46]"

fun is_dir_empty_from :: "nat \<Rightarrow> nat list \<Rightarrow> u8 list \<Rightarrow> fs \<Rightarrow> (bool \<times> fs) option" where
  "is_dir_empty_from i [] ent s = Some (True, s)"
| "is_dir_empty_from i (off # offs) ent s = do {
     (r, xs, s) \<leftarrow> readi i off DIRENT_SIZE s;
     if r < 0 then None
     else do {
       let ent = xs @ drop (length xs) ent;
       if dirent_ino ent = 0 then is_dir_empty_from i offs ent s
       else if cstr (dirent_name ent) \<noteq> DOTDOT \<and> cstr (dirent_name ent) \<noteq> DOT then Some (False, s)
       else is_dir_empty_from i offs ent s
     }
   }"

definition is_dir_empty :: "nat \<Rightarrow> fs \<Rightarrow> (bool \<times> fs) option" where
  "is_dir_empty i s = is_dir_empty_from i (dirent_offsets (file_siz (inodes s i))) (replicate DIRENT_SIZE 0) s"

text \<open>The last part of \<^verbatim>\<open>unlink\<close>, from the clearing of the directory entry on.\<close>

definition unlink_entry :: "nat \<Rightarrow> nat \<Rightarrow> nat \<Rightarrow> fs \<Rightarrow> (int \<times> fs) option" where
  "unlink_entry di i off s = do {
     (w, s) \<leftarrow> writei di (replicate DIRENT_SIZE 0) off DIRENT_SIZE s;
     if w \<noteq> int DIRENT_SIZE then None
     else do {
       s \<leftarrow> iupdate di s;
       s \<leftarrow> iunlockput (Some di) s;
       s \<leftarrow> iupdate i (dec_nlink i s);
       s \<leftarrow> iunlockput (Some i) s;
       s \<leftarrow> end_transaction s;
       Some (0, s)
     }
   }"

definition unlink :: "u8 list \<Rightarrow> fs \<Rightarrow> (int \<times> fs) option" where
  "unlink pathname s = do {
     s \<leftarrow> begin_transaction s;
     (dp, name, s) \<leftarrow> namep pathname s;
     case dp of None \<Rightarrow> fail_end s
     | Some di \<Rightarrow> do {
         (_, s) \<leftarrow> ilock (Some di) s;
         nm \<leftarrow> name;
         (r, ist, off, s) \<leftarrow> dirlookup di nm None s;
         if r < 0 then do { s \<leftarrow> iunlockput (Some di) s; fail_end s }
         else do {
           ip \<leftarrow> ist;
           (_, s) \<leftarrow> ilock ip s;
           i \<leftarrow> ip;
           if itype (inodes s i) = T_DIR
           then do {
             (e, s) \<leftarrow> is_dir_empty i s;
             if \<not> e
             then do { s \<leftarrow> iunlockput (Some i) s; s \<leftarrow> iunlockput (Some di) s; fail_end s }
             else unlink_entry di i off (dec_nlink di s)
           }
           else unlink_entry di i off s
         }
       }
   }"

section \<open>Creating and opening\<close>

text \<open>\<^verbatim>\<open>creat\<close> returns the new or old inode locked.  When a new directory cannot be linked to itself the directory
  above it stays locked.\<close>

definition creat_new :: "nat \<Rightarrow> u8 list \<Rightarrow> nat \<Rightarrow> nat \<Rightarrow> nat \<Rightarrow> fs \<Rightarrow> (nat option \<times> fs) option" where
  "creat_new di name type major minor s = do {
     (ip, s) \<leftarrow> ialloc (idev (inodes s di)) type s;
     i \<leftarrow> ip;
     (_, s) \<leftarrow> ilock (Some i) s;
     s \<leftarrow> iupdate i (upd_inode i (\<lambda>r. r\<lparr>imajor := major, iminor := minor, nlink := 1\<rparr>) s);
     (ok, s) \<leftarrow> (if type = T_DIR
       then do {
         (r, s) \<leftarrow> dirlink i DOT (ino (inodes s i)) s;
         (r, s) \<leftarrow> (if r < 0 then Some (r, s) else dirlink i DOTDOT (ino (inodes s di)) s);
         if r < 0 then do { s \<leftarrow> iunlockput (Some i) s; Some (False, s) }
         else do { s \<leftarrow> iupdate di (upd_inode di (\<lambda>r. r\<lparr>nlink := (nlink r + 1) mod 65536\<rparr>) s); Some (True, s) }
       }
       else Some (True, s));
     if \<not> ok then Some (None, s)
     else do {
       (r, s) \<leftarrow> dirlink di name (ino (inodes s i)) s;
       if r < 0 then None
       else do { s \<leftarrow> iunlockput (Some di) s; Some (Some i, s) }
     }
   }"

definition creat :: "u8 list \<Rightarrow> nat \<Rightarrow> nat \<Rightarrow> nat \<Rightarrow> fs \<Rightarrow> (nat option \<times> fs) option" where
  "creat pathname type major minor s = do {
     (dp, name, s) \<leftarrow> namep pathname s;
     case dp of None \<Rightarrow> Some (None, s)
     | Some di \<Rightarrow> do {
         (_, s) \<leftarrow> ilock (Some di) s;
         nm \<leftarrow> name;
         (r, ist, _, s) \<leftarrow> dirlookup di nm None s;
         if 0 \<le> r
         then do {
           s \<leftarrow> iunlockput (Some di) s;
           ip \<leftarrow> ist;
           (_, s) \<leftarrow> ilock ip s;
           i \<leftarrow> ip;
           if itype (inodes s i) = type \<and> itype (inodes s i) = T_FILE then Some (Some i, s)
           else do { s \<leftarrow> iunlockput (Some i) s; Some (None, s) }
         }
         else creat_new di nm type major minor s
       }
   }"

definition creat_and_put :: "u8 list \<Rightarrow> nat \<Rightarrow> nat \<Rightarrow> nat \<Rightarrow> fs \<Rightarrow> (int \<times> fs) option" where
  "creat_and_put pathname type major minor s = do {
     s \<leftarrow> begin_transaction s;
     (ip, s) \<leftarrow> creat pathname type major minor s;
     case ip of None \<Rightarrow> fail_end s
     | Some i \<Rightarrow> do { s \<leftarrow> iunlockput (Some i) s; s \<leftarrow> end_transaction s; Some (0, s) }
   }"

definition mknod :: "u8 list \<Rightarrow> nat \<Rightarrow> nat \<Rightarrow> fs \<Rightarrow> (int \<times> fs) option" where
  "mknod pathname major minor s = creat_and_put pathname T_DEV major minor s"

definition mkdir :: "u8 list \<Rightarrow> fs \<Rightarrow> (int \<times> fs) option" where
  "mkdir pathname s = creat_and_put pathname T_DIR 0 0 s"

definition has_flag :: "u32 \<Rightarrow> u16 \<Rightarrow> bool" where
  "has_flag flag f \<longleftrightarrow> flag AND ucast f \<noteq> 0"

text \<open>\<^verbatim>\<open>open\<close>, whose first half finds the inode: nothing when the label \<^verbatim>\<open>open_failure2\<close> is taken, otherwise the inode
  and whether to go on.\<close>

definition open_inode :: "u8 list \<Rightarrow> u32 \<Rightarrow> fs \<Rightarrow> ((nat \<times> bool) option \<times> fs) option" where
  "open_inode pathname flag s =
     (if has_flag flag O_CREAT
      then do { (ip, s) \<leftarrow> creat pathname T_FILE 0 0 s; Some (map_option (\<lambda>i. (i, True)) ip, s) }
      else do {
        (ip, s) \<leftarrow> namei pathname s;
        case ip of None \<Rightarrow> Some (None, s)
        | Some i \<Rightarrow> do {
            (_, s) \<leftarrow> ilock (Some i) s;
            Some (Some (i, \<not> (itype (inodes s i) = T_DIR \<and> \<not> has_flag flag O_RDONLY)), s)
          }
      })"

definition open_file :: "u8 list \<Rightarrow> u32 \<Rightarrow> fs \<Rightarrow> (int \<times> fs) option" where
  "open_file pathname flag s =
     (if 1 < (flag AND ucast O_RDONLY) + drop_bit 1 (flag AND ucast O_WRONLY) + drop_bit 2 (flag AND ucast O_RDWR) then Some (- 1, s)
      else do {
        s \<leftarrow> begin_transaction s;
        (r, s) \<leftarrow> open_inode pathname flag s;
        case r of None \<Rightarrow> fail_end s
        | Some (i, ok) \<Rightarrow>
            let fd = fd_alloc s in
            if \<not> ok \<or> fd < 0 then put_and_fail i s
            else do {
              (fp, s) \<leftarrow> file_alloc s;
              case fp of None \<Rightarrow> put_and_fail i s
              | Some f \<Rightarrow> do {
                  s \<leftarrow> end_transaction (snd (iunlock (Some i) s));
                  let s = upd_file f (\<lambda>x. x\<lparr>finode := Some i, ftyp := itype (inodes s i), foffset := 0,
                        fflag := fflag x OR ucast flag\<rparr>) s;
                  Some (fd, (set_slot (nat fd) (Some f) s)\<lparr>n_opfiles := n_opfiles s + 1\<rparr>)
                }
            }
      })"

definition chdir :: "u8 list \<Rightarrow> fs \<Rightarrow> (int \<times> fs) option" where
  "chdir pathname s = do {
     s \<leftarrow> begin_transaction s;
     (ip, s) \<leftarrow> namei pathname s;
     case ip of None \<Rightarrow> fail_end s
     | Some i \<Rightarrow> do {
         (_, s) \<leftarrow> ilock (Some i) s;
         if itype (inodes s i) \<noteq> T_DIR then put_and_fail i s
         else do {
           let s = snd (iunlock (Some i) s);
           s \<leftarrow> iput (pwd s) s;
           s \<leftarrow> end_transaction (s\<lparr>pwd := i\<rparr>);
           Some (0, s)
         }
       }
   }"

end
