(* ===== verification/Sysfile_Props.thy ===== *)
theory Sysfile_Props
  imports Sysfile Inode_Props
begin

text \<open>
  Descriptors and open files.  Block cache, log and inodes never touch the table of open files and the
  descriptors of the process; \<open>fd_inv\<close> relates the two: free list, reference counts, number of open files and number
  of descriptors agree exactly.
\<close>

section \<open>What lies below does not touch files\<close>

definition fpart :: "fs \<Rightarrow> (nat \<Rightarrow> filed) \<times> nat list \<times> int \<times> (nat \<Rightarrow> nat option) \<times> int \<times> (nat \<Rightarrow> pipe)" where
  "fpart s = (files s, f_free s, n_openfiles s, open_file_table s, n_opfiles s, pipes s)"

lemma fpart_upd [simp]:
  "fpart (s\<lparr>bufs := a\<rparr>) = fpart s" "fpart (s\<lparr>free_list := b\<rparr>) = fpart s" "fpart (s\<lparr>hash_table := c\<rparr>) = fpart s" "fpart (s\<lparr>bwakeups := d\<rparr>) = fpart s"
  "fpart (s\<lparr>disk := e\<rparr>) = fpart s" "fpart (s\<lparr>writes := f\<rparr>) = fpart s" "fpart (s\<lparr>sb := g\<rparr>) = fpart s" "fpart (s\<lparr>lm := h\<rparr>) = fpart s"
  "fpart (s\<lparr>log_copies := i\<rparr>) = fpart s" "fpart (s\<lparr>inodes := j\<rparr>) = fpart s" "fpart (s\<lparr>i_free := k\<rparr>) = fpart s" "fpart (s\<lparr>i_hash := l\<rparr>) = fpart s"
  "fpart (s\<lparr>icache_locked := m\<rparr>) = fpart s" "fpart (s\<lparr>pwd := n\<rparr>) = fpart s"
  "fpart (upd_buf x p s) = fpart s" "fpart (upd_lm q s) = fpart s" "fpart (upd_inode y r s) = fpart s"
  by (simp_all add: fpart_def upd_buf_def upd_lm_def upd_inode_def)

lemma fpart_brelse [simp]: "fpart (brelse b s) = fpart s" "fpart (brelse_dozens xs s) = fpart s" "fpart (mark_dirty b s) = fpart s" "fpart (set_data b f s) = fpart s"
proof -
  show *: "fpart (brelse b s) = fpart s" for b s by (simp add: brelse_def Let_def)
  show "fpart (brelse_dozens xs s) = fpart s" unfolding brelse_dozens_def by (induction xs arbitrary: s) (simp_all add: *)
qed (simp_all add: mark_dirty_def set_data_def)

lemma fpart_log_write [simp]: "fpart (snd (log_write b s)) = fpart s" "fpart (log_and_release b s) = fpart s"
  by (simp_all add: log_write_def log_and_release_def Let_def)

lemma fpart_find_blk: "find_blk_in_hash dev n s = (r, s') \<Longrightarrow> fpart s' = fpart s"
  by (auto simp: find_blk_in_hash_def split: prod.splits)

lemma fpart_ide_sync: "ide_sync b s = Some s' \<Longrightarrow> fpart s' = fpart s"
  by (auto simp: ide_sync_def Let_def split: if_splits)

lemma fpart_ide_sync_all: "ide_sync_all xs s = Some s' \<Longrightarrow> fpart s' = fpart s"
  by (induction xs arbitrary: s) (auto dest: fpart_ide_sync)

lemma fpart_getblk: "getblk dev n s = Some (b, s') \<Longrightarrow> fpart s' = fpart s"
  by (auto simp: getblk_def put_blk_in_hash_def Let_def dest!: fpart_find_blk split: prod.splits option.splits list.splits if_splits)

lemma fpart_bread: "bread dev n s = Some (b, s') \<Longrightarrow> fpart s' = fpart s"
  by (auto simp: bread_def dest!: fpart_getblk fpart_ide_sync split: if_splits)

lemma fpart_bwrite: "bwrite b s = Some s' \<Longrightarrow> fpart s' = fpart s"
  by (auto simp: bwrite_def dest!: fpart_ide_sync)

lemma fpart_bwrite_dozens: "bwrite_dozens xs s = Some s' \<Longrightarrow> fpart s' = fpart s"
proof -
  have "fpart (fold mark_dirty xs s) = fpart s" by (induction xs arbitrary: s) simp_all
  moreover assume "bwrite_dozens xs s = Some s'"
  ultimately show ?thesis
    by (auto simp: bwrite_dozens_def ide_dozens_sync_def dest!: fpart_ide_sync_all split: list.splits if_splits)
qed

lemma fpart_read_superblock: "read_superblock dev s = Some s' \<Longrightarrow> fpart s' = fpart s"
  by (auto simp: read_superblock_def Let_def dest!: fpart_bread)

lemma fpart_bzero: "bzero dev n s = Some s' \<Longrightarrow> fpart s' = fpart s"
  by (auto simp: bzero_def dest!: fpart_bread)

lemma fpart_balloc_blocks: "balloc_blocks dev is s = Some (n, s') \<Longrightarrow> fpart s' = fpart s"
  by (induction "is" arbitrary: s) (auto dest!: fpart_bread fpart_bzero split: option.splits)

lemma fpart_balloc: "balloc dev s = Some (n, s') \<Longrightarrow> fpart s' = fpart s"
  by (auto simp: balloc_def dest!: fpart_balloc_blocks)

lemma fpart_bfree: "bfree dev n s = Some (r, s') \<Longrightarrow> fpart s' = fpart s"
  by (auto simp: bfree_def Let_def dest!: fpart_read_superblock fpart_bread split: if_splits)

lemma fpart_write_log_header: "write_log_header s = Some s' \<Longrightarrow> fpart s' = fpart s"
  by (auto simp: write_log_header_def Let_def dest!: fpart_bread fpart_bwrite)

lemma fpart_install: "install_commit is xs s = Some (ys, s') \<Longrightarrow> fpart s' = fpart s" "install_boot is xs s = Some (ys, s') \<Longrightarrow> fpart s' = fpart s"
  by (induction "is" arbitrary: s xs) (auto simp: Let_def dest!: fpart_bread)

lemma fpart_keep_consistent: "keep_consistent_on_disk boot s = Some s' \<Longrightarrow> fpart s' = fpart s"
  by (auto simp: keep_consistent_on_disk_def dest!: fpart_install fpart_bwrite_dozens split: if_splits)

lemma fpart_copy_to_log: "copy_to_log is xs s = Some (ys, s') \<Longrightarrow> fpart s' = fpart s"
  by (induction "is" arbitrary: s xs) (auto simp: Let_def dest!: fpart_bread)

lemma fpart_commit: "commit s = Some s' \<Longrightarrow> fpart s' = fpart s"
  by (auto simp: commit_def write_log_blk_def clear_log_def dest!: fpart_copy_to_log fpart_bwrite_dozens fpart_write_log_header fpart_keep_consistent split: if_splits)

lemma fpart_transaction: "begin_transaction s = Some s' \<Longrightarrow> fpart s' = fpart s" "end_transaction s = Some s' \<Longrightarrow> fpart s' = fpart s"
  by (auto simp: begin_transaction_def end_transaction_def Let_def dest!: fpart_commit split: if_splits)

lemmas fpart_block = fpart_bread fpart_balloc fpart_bfree

lemma fpart_iget_new: "fpart (snd (iget_new dev n s)) = fpart s"
  by (simp add: iget_new_def put_inode_in_hash_def Let_def split: list.split)

lemma fpart_iget: "iget dev n s = Some (ip, s') \<Longrightarrow> fpart s' = fpart s"
proof -
  assume a: "iget dev n s = Some (ip, s')"
  have "fpart s' = fpart s" if "iget_new dev n s = (ip, s')" using fpart_iget_new [of dev n s] that by simp
  then show ?thesis
    using a by (cases "find_inode_in_hash dev n s") (auto simp: iget_def split: if_splits)
qed

lemma fpart_ialloc: "ialloc dev ty s = Some (ip, s') \<Longrightarrow> fpart s' = fpart s"
proof -
  have "ialloc_from dev ty ns s = Some (ip, s') \<Longrightarrow> fpart s' = fpart s" for ns
  proof (induction ns arbitrary: s)
    case (Cons n ns)
    from Cons.prems show ?case by (auto simp: Let_def dest!: Cons.IH fpart_bread fpart_iget split: if_splits)
  qed simp
  then show "ialloc dev ty s = Some (ip, s') \<Longrightarrow> fpart s' = fpart s" by (simp add: ialloc_def)
qed

lemma fpart_ilock: "ilock ip s = Some (r, s') \<Longrightarrow> fpart s' = fpart s"
  by (auto simp: ilock_def Let_def dest!: fpart_bread split: option.splits if_splits)

lemma fpart_iunlock [simp]: "fpart (snd (iunlock ip s)) = fpart s"
  by (simp add: iunlock_def split: option.split)

lemma fpart_iupdate: "iupdate i s = Some s' \<Longrightarrow> fpart s' = fpart s"
  by (auto simp: iupdate_def Let_def dest!: fpart_bread)

lemma fpart_free_entries: "free_entries dev b js s = Some s' \<Longrightarrow> fpart s' = fpart s"
proof (induction js arbitrary: s)
  case (Cons j js)
  from Cons.prems show ?case by (auto dest!: Cons.IH fpart_bfree split: if_splits)
qed simp

lemma fpart_ifree: "ifree i s = Some s' \<Longrightarrow> fpart s' = fpart s"
proof -
  have d: "free_direct i js s = Some s' \<Longrightarrow> fpart s' = fpart s" for js s s'
  proof (induction js arbitrary: s)
    case (Cons j js)
    from Cons.prems show ?case by (auto dest!: Cons.IH fpart_bfree split: if_splits)
  qed simp
  have n: "free_indirects dev b js s = Some s' \<Longrightarrow> fpart s' = fpart s" for dev b js s s'
  proof (induction js arbitrary: s)
    case (Cons j js)
    from Cons.prems show ?case by (auto dest!: Cons.IH fpart_bfree fpart_bread fpart_free_entries split: if_splits)
  qed simp
  have c: "clear_addr i k s = Some s' \<Longrightarrow> fpart s' = fpart s" for k s s'
    by (auto simp: clear_addr_def dest!: fpart_bfree)
  show "ifree i s = Some s' \<Longrightarrow> fpart s' = fpart s"
    by (auto simp: ifree_def dest!: d n c fpart_bread fpart_free_entries fpart_iupdate split: if_splits)
qed

lemma fpart_iput: "iput i s = Some s' \<Longrightarrow> fpart s' = fpart s"
  by (auto simp: iput_def Let_def dest!: fpart_ifree fpart_iupdate split: if_splits)

lemma fpart_iunlockput: "iunlockput ip s = Some s' \<Longrightarrow> fpart s' = fpart s"
proof -
  assume a: "iunlockput ip s = Some s'"
  obtain r s1 where u: "iunlock ip s = (r, s1)" by (cases "iunlock ip s")
  then have "fpart s1 = fpart s" using fpart_iunlock [of ip s] by simp
  then show ?thesis using a u by (auto simp: iunlockput_def dest!: fpart_iput split: option.splits if_splits)
qed

lemma fpart_iref: "iref i s = Some (j, s') \<Longrightarrow> fpart s' = fpart s"
  by (auto simp: iref_def split: if_splits)

lemma fpart_bmap: "bmap i n s = Some (a, s') \<Longrightarrow> fpart s' = fpart s"
proof -
  have a: "bmap_addr i k s = Some (a, s') \<Longrightarrow> fpart s' = fpart s" for k s a s'
    by (auto simp: bmap_addr_def dest!: fpart_balloc split: if_splits)
  have e: "bmap_entry dev n k s = Some (a, s') \<Longrightarrow> fpart s' = fpart s" "bmap_entry2 dev n k s = Some (a, s') \<Longrightarrow> fpart s' = fpart s" for dev n k s a s'
    by (auto simp: bmap_entry_def bmap_entry2_def Let_def dest!: fpart_balloc fpart_bread split: if_splits)
  assume "bmap i n s = Some (a, s')"
  then show ?thesis by (auto simp: bmap_def Let_def dest!: a e split: if_splits)
qed

lemma fpart_readi_loop: "readi_loop i off n s = Some (xs, s') \<Longrightarrow> fpart s' = fpart s"
proof (induction n arbitrary: off s xs rule: less_induct)
  case (less n)
  show ?case
  proof (cases "n = 0")
    case False
    then have "n - chunk off n < n" using chunk_pos [of n off] by simp
    from less.IH [OF this] less.prems False show ?thesis
      by (subst (asm) (2) readi_loop.simps) (auto simp: Let_def dest!: fpart_bmap fpart_bread)
  qed (use less.prems in \<open>simp add: readi_loop.simps\<close>)
qed

lemma fpart_writei_loop: "writei_loop i src off n s = Some (o', s') \<Longrightarrow> fpart s' = fpart s"
proof (induction n arbitrary: src off s rule: less_induct)
  case (less n)
  show ?case
  proof (cases "n = 0")
    case False
    then have "n - chunk off n < n" using chunk_pos [of n off] by simp
    from less.IH [OF this] less.prems False show ?thesis
      by (subst (asm) (2) writei_loop.simps) (auto simp: Let_def dest!: fpart_bmap fpart_bread split: if_splits)
  qed (use less.prems in \<open>simp add: writei_loop.simps\<close>)
qed

lemma fpart_readi: "readi i off n s = Some (r, xs, s') \<Longrightarrow> fpart s' = fpart s"
  by (auto simp: readi_def Let_def dest!: fpart_readi_loop split: if_splits option.splits prod.splits)

lemma fpart_writei: "writei i src off n s = Some (r, s') \<Longrightarrow> fpart s' = fpart s"
  by (auto simp: writei_def Let_def dest!: fpart_writei_loop fpart_iupdate split: if_splits option.splits)

lemma fpart_dirlookup: "dirlookup di name ist s = Some (r, ist', off, s') \<Longrightarrow> fpart s' = fpart s"
proof -
  have "dirlookup_from di name ist offs s = Some (r, ist', off, s') \<Longrightarrow> fpart s' = fpart s" for offs
  proof (induction offs arbitrary: s)
    case (Cons o' offs)
    from Cons.prems show ?case by (auto dest!: Cons.IH fpart_readi fpart_iget split: if_splits)
  qed simp
  then show "dirlookup di name ist s = Some (r, ist', off, s') \<Longrightarrow> fpart s' = fpart s" by (auto simp: dirlookup_def split: if_splits)
qed

lemma fpart_dirlink: "dirlink di name n s = Some (r, s') \<Longrightarrow> fpart s' = fpart s"
proof -
  have f: "find_free_entry di offs e ent s = Some (off, ent', s') \<Longrightarrow> fpart s' = fpart s" for offs e ent s off ent' s'
  proof (induction offs arbitrary: s ent)
    case (Cons o' offs)
    from Cons.prems show ?case by (auto dest!: Cons.IH fpart_readi split: if_splits)
  qed simp
  assume "dirlink di name n s = Some (r, s')"
  then show ?thesis by (auto simp: dirlink_def Let_def dest!: f fpart_dirlookup fpart_iput fpart_writei split: if_splits)
qed

lemma fpart_namex_loop: "namex_loop p curi nx start s = Some (ip, name, s') \<Longrightarrow> fpart s' = fpart s"
proof (induction start arbitrary: curi nx s rule: measure_induct_rule [where f = length])
  case (less start)
  let ?rest = "dropWhile (\<lambda>c. c \<noteq> slash) start"
  have rec: "fpart s' = fpart t" if "namex_loop p c n (tl ?rest) t = Some (ip, name, s')" "?rest \<noteq> []" for c n t
  proof (rule less.IH [OF _ that(1)])
    show "length (tl ?rest) < length start"
      using that(2) length_dropWhile_le [of "\<lambda>c. c \<noteq> slash" start] by (cases ?rest) simp_all
  qed
  from less.prems show ?case
    by (subst (asm) namex_loop.simps)
       (auto simp: Let_def simp del: strncpy_buf.simps dest!: rec fpart_ilock fpart_dirlookup fpart_iunlockput split: if_splits)
qed

lemma fpart_namex: "namex path p s = Some (ip, name, s') \<Longrightarrow> fpart s' = fpart s"
  by (auto simp: namex_def dest!: fpart_namex_loop fpart_iget fpart_iref split: list.splits if_splits)

lemma fpart_namei: "namei path s = Some (ip, s') \<Longrightarrow> fpart s' = fpart s"
  by (auto simp: namei_def dest!: fpart_namex)

lemma fpart_creat_new: "creat_new di name ty ma mi s = Some (ip, s') \<Longrightarrow> fpart s' = fpart s"
  by (auto simp: creat_new_def dest!: fpart_ialloc fpart_ilock fpart_iupdate fpart_dirlink fpart_iunlockput split: if_splits)

lemma fpart_creat: "creat path ty ma mi s = Some (ip, s') \<Longrightarrow> fpart s' = fpart s"
  by (auto simp: creat_def namep_def dest!: fpart_namex fpart_ilock fpart_dirlookup fpart_iunlockput fpart_creat_new split: if_splits option.splits)

lemma fpart_open_inode: "open_inode path flag s = Some (r, s') \<Longrightarrow> fpart s' = fpart s"
  by (auto simp: open_inode_def dest!: fpart_creat fpart_namei fpart_ilock split: if_splits option.splits)

lemma fpart_put_and_fail: "put_and_fail i s = Some (r, s') \<Longrightarrow> fpart s' = fpart s \<and> r = - 1"
  by (auto simp: put_and_fail_def fail_end_def dest!: fpart_iunlockput fpart_transaction)

section \<open>Descriptors\<close>

definition ftable_inv :: "fs \<Rightarrow> bool" where
  "ftable_inv s \<longleftrightarrow> distinct (f_free s) \<and> (\<forall>f. f \<in> set (f_free s) \<longleftrightarrow> f < NFILE \<and> fref (files s f) = 0) \<and>
     n_openfiles s + int (length (f_free s)) = int NFILE"

text \<open>The descriptors of the process that refer to a file, and the invariant: the references of a file are the descriptors of
  the process and the \<open>ext f\<close> references of other processes, descriptors refer to open files, and their number is kept.\<close>

definition fds :: "fs \<Rightarrow> nat \<Rightarrow> nat set" where
  "fds s f = {fd. fd < NOFILE \<and> open_file_table s fd = Some f}"

definition used_fds :: "fs \<Rightarrow> nat set" where
  "used_fds s = {fd. fd < NOFILE \<and> open_file_table s fd \<noteq> None}"

definition fd_inv :: "(nat \<Rightarrow> nat) \<Rightarrow> fs \<Rightarrow> bool" where
  "fd_inv ext s \<longleftrightarrow> ftable_inv s \<and> (\<forall>f. fref (files s f) = card (fds s f) + ext f) \<and> (\<forall>f. fds s f \<noteq> {} \<longrightarrow> f < NFILE) \<and>
     n_opfiles s = int (card (used_fds s))"

lemma fd_inv_fpart: "fpart s' = fpart s \<Longrightarrow> fd_inv ext s' \<longleftrightarrow> fd_inv ext s"
  by (simp add: fpart_def fd_inv_def ftable_inv_def fds_def used_fds_def)

lemma finite_fds [simp]: "finite (fds s f)" "finite (used_fds s)"
  by (simp_all add: fds_def used_fds_def)

lemma fd_invD:
  assumes "fd_inv ext s"
  shows "ftable_inv s" "fref (files s f) = card (fds s f) + ext f" "fds s f \<noteq> {} \<Longrightarrow> f < NFILE" "n_opfiles s = int (card (used_fds s))"
  using assms by (auto simp: fd_inv_def)

lemma fd_alloc_free:
  assumes "0 \<le> fd_alloc s"
  shows "nat (fd_alloc s) < NOFILE" "open_file_table s (nat (fd_alloc s)) = None" "\<forall>j<nat (fd_alloc s). open_file_table s j \<noteq> None"
proof -
  obtain k where k: "find (\<lambda>fd. open_file_table s fd = None) [0..<NOFILE] = Some k" "fd_alloc s = int k"
    using assms by (cases "first_slot (\<lambda>x. x = None) 0 s") (auto simp: fd_alloc_def first_slot_def split: if_splits)
  then show "nat (fd_alloc s) < NOFILE" "open_file_table s (nat (fd_alloc s)) = None" "\<forall>j<nat (fd_alloc s). open_file_table s j \<noteq> None"
    by (auto simp: find_Some_iff)
qed

lemma fd_alloc_full:
  assumes "fd_inv ext s" "fd_alloc s < 0" "fd < NOFILE"
  shows "open_file_table s fd \<noteq> None"
proof (cases "n_opfiles s = int NOFILE")
  case True
  then have "card (used_fds s) = card {..<NOFILE}" using fd_invD(4) [OF assms(1)] by simp
  moreover have "used_fds s \<subseteq> {..<NOFILE}" by (auto simp: used_fds_def)
  ultimately have "used_fds s = {..<NOFILE}" by (intro card_subset_eq) simp_all
  then show ?thesis using assms(3) by (auto simp: used_fds_def)
next
  case False
  then have "find (\<lambda>fd. open_file_table s fd = None) [0..<NOFILE] = None"
    using assms(2) by (auto simp: fd_alloc_def first_slot_def split: option.splits if_splits)
  then show ?thesis using assms(3) by (auto simp: find_None_iff)
qed

text \<open>A reference more together with a descriptor more, and a reference less with a descriptor less.\<close>

lemma slot_sel [simp]:
  "files (set_slot fd x s) = files s" "f_free (set_slot fd x s) = f_free s" "n_openfiles (set_slot fd x s) = n_openfiles s" "n_opfiles (set_slot fd x s) = n_opfiles s"
  "open_file_table (upd_file f g s) = open_file_table s" "n_opfiles (upd_file f g s) = n_opfiles s" "n_openfiles (upd_file f g s) = n_openfiles s" "f_free (upd_file f g s) = f_free s"
  "files (upd_file f g s) = (files s)(f := g (files s f))"
  by (simp_all add: set_slot_def upd_file_def)

lemma fd_inv_add:
  assumes inv: "fd_inv ext s" and fd: "fd < NOFILE" "open_file_table s fd = None"
    and s': "open_file_table s' = (open_file_table s)(fd := Some f)" "n_opfiles s' = n_opfiles s + 1" "ftable_inv s'" "f < NFILE"
      "fref (files s' f) = fref (files s f) + 1" "\<forall>g. g \<noteq> f \<longrightarrow> fref (files s' g) = fref (files s g)"
  shows "fd_inv ext s'"
proof -
  have f: "fds s' g = (if g = f then insert fd (fds s g) else fds s g)" "fd \<notin> fds s g" for g
    using fd by (auto simp: fds_def s'(1))
  have u: "used_fds s' = insert fd (used_fds s)" "fd \<notin> used_fds s" using fd by (auto simp: used_fds_def s'(1))
  have "fref (files s' g) = card (fds s' g) + ext g" for g
    using fd_invD(2) [OF inv, of g] s'(5,6) f by (cases "g = f") auto
  moreover have "fds s' g \<noteq> {} \<longrightarrow> g < NFILE" for g using fd_invD(3) [OF inv, of g] s'(4) f by auto
  ultimately show ?thesis using s'(2,3) u fd_invD(4) [OF inv] by (simp add: fd_inv_def)
qed

lemma fd_inv_remove:
  assumes inv: "fd_inv ext s" and fd: "fd < NOFILE" "open_file_table s fd = Some f"
    and s': "open_file_table s' = (open_file_table s)(fd := None)" "n_opfiles s' = n_opfiles s - 1" "ftable_inv s'"
      "fref (files s' f) = fref (files s f) - 1" "\<forall>g. g \<noteq> f \<longrightarrow> fref (files s' g) = fref (files s g)"
  shows "fd_inv ext s'"
proof -
  have f: "fds s' g = fds s g - {fd}" for g using fd by (auto simp: fds_def s'(1))
  have m: "fd \<in> fds s f" "\<And>g. g \<noteq> f \<Longrightarrow> fd \<notin> fds s g" using fd by (auto simp: fds_def)
  have u: "used_fds s' = used_fds s - {fd}" "fd \<in> used_fds s" using fd by (auto simp: used_fds_def s'(1))
  have "fref (files s' g) = card (fds s' g) + ext g" for g
  proof (cases "g = f")
    case True
    then show ?thesis using fd_invD(2) [OF inv, of f] s'(4) card.remove [OF finite_fds(1) m(1)] by (simp add: f)
  next
    case False
    then show ?thesis using fd_invD(2) [OF inv, of g] s'(5) m(2) by (simp add: f)
  qed
  moreover have "fds s' g \<noteq> {} \<longrightarrow> g < NFILE" for g using fd_invD(3) [OF inv, of g] f by auto
  moreover have "card (used_fds s) = Suc (card (used_fds s - {fd}))" by (rule card.remove [OF finite_fds(2) u(2)])
  ultimately show ?thesis using s'(2,3) u fd_invD(4) [OF inv] by (simp add: fd_inv_def)
qed

lemma fd_open:
  assumes "fd_inv ext s" "fd < NOFILE" "open_file_table s fd = Some f"
  shows "0 < fref (files s f)" "f < NFILE"
proof -
  have "fd \<in> fds s f" using assms by (simp add: fds_def)
  then have "0 < card (fds s f)" by (auto simp: card_gt_0_iff)
  then show "0 < fref (files s f)" using fd_invD(2) [OF assms(1), of f] by simp
  show "f < NFILE" using \<open>fd \<in> fds s f\<close> fd_invD(3) [OF assms(1)] by blast
qed

text \<open>The table of open files after the operations of kern/file.c.\<close>

lemma file_dup_open: "0 < fref (files s f) \<Longrightarrow> file_dup f s = Some (f, upd_file f (\<lambda>r. r\<lparr>fref := fref r + 1\<rparr>) s)"
  by (simp add: file_dup_def)

lemma ftable_inv_ref:
  assumes "ftable_inv s" "f_free s' = f_free s" "n_openfiles s' = n_openfiles s" "\<forall>g. fref (files s' g) = 0 \<longleftrightarrow> fref (files s g) = 0"
  shows "ftable_inv s'"
  using assms by (simp add: ftable_inv_def)

lemma file_alloc_correct:
  assumes "ftable_inv s"
  shows "\<exists>fp s'. file_alloc s = Some (fp, s') \<and> ftable_inv s' \<and> open_file_table s' = open_file_table s \<and> n_opfiles s' = n_opfiles s \<and>
    (case fp of None \<Rightarrow> s' = s \<and> (\<forall>f<NFILE. 0 < fref (files s f))
     | Some f \<Rightarrow> f < NFILE \<and> fref (files s f) = 0 \<and> files s' = (files s)(f := filed_zero\<lparr>fref := 1\<rparr>))"
proof (cases "f_free s")
  case Nil
  then have "n_openfiles s = int NFILE" "\<forall>f<NFILE. 0 < fref (files s f)" using assms by (auto simp: ftable_inv_def)
  then show ?thesis using assms by (simp add: file_alloc_def)
next
  case (Cons f fl)
  have f: "f < NFILE" "fref (files s f) = 0" "f \<notin> set fl" "distinct fl" using assms Cons by (auto simp: ftable_inv_def)
  have mem: "g \<in> set fl \<longleftrightarrow> g \<noteq> f \<and> g < NFILE \<and> fref (files s g) = 0" for g
  proof -
    have "g \<in> set (f # fl) \<longleftrightarrow> g < NFILE \<and> fref (files s g) = 0" using assms Cons by (auto simp: ftable_inv_def)
    then show ?thesis using f(3) by auto
  qed
  define s' where "s' = (upd_file f (\<lambda>_. filed_zero\<lparr>fref := 1\<rparr>) s)\<lparr>f_free := fl, n_openfiles := n_openfiles s + 1\<rparr>"
  have "n_openfiles s \<noteq> int NFILE" using assms Cons by (auto simp: ftable_inv_def)
  then have "file_alloc s = Some (Some f, s')" using Cons by (simp add: file_alloc_def s'_def)
  moreover have "ftable_inv s'"
    using assms Cons f(4) mem by (auto simp: ftable_inv_def s'_def)
  ultimately show ?thesis using f by (auto simp: s'_def)
qed

lemma file_close_correct:
  assumes inv: "ftable_inv s" and f: "f < NFILE" and c: "file_close f s = Some s'"
  shows "0 < fref (files s f) \<and> ftable_inv s' \<and> open_file_table s' = open_file_table s \<and> n_opfiles s' = n_opfiles s \<and>
    fref (files s' f) = fref (files s f) - 1 \<and> (\<forall>g. g \<noteq> f \<longrightarrow> files s' g = files s g)"
proof -
  have pos: "0 < fref (files s f)" using c by (auto simp: file_close_def split: if_splits)
  define s1 where "s1 = upd_file f (\<lambda>r. r\<lparr>fref := fref r - 1\<rparr>) s"
  define s2 where "s2 = (upd_file f (\<lambda>r. r\<lparr>ftyp := FS_NONE\<rparr>) s1)\<lparr>n_openfiles := n_openfiles s - 1, f_free := f # f_free s\<rparr>"
  show ?thesis
  proof (cases "1 < fref (files s f)")
    case True
    then have "s' = s1" using c pos by (auto simp: file_close_def s1_def Let_def split: if_splits)
    moreover have "ftable_inv s1" using True by (intro ftable_inv_ref [OF inv]) (auto simp: s1_def)
    ultimately show ?thesis using pos by (simp add: s1_def)
  next
    case False
    then have one: "fref (files s f) = 1" using pos by simp
    have i2: "ftable_inv s2" using inv f one by (auto simp: ftable_inv_def s2_def s1_def)
    have "files s' = files s2 \<and> f_free s' = f_free s2 \<and> n_openfiles s' = n_openfiles s2 \<and> open_file_table s' = open_file_table s2 \<and> n_opfiles s' = n_opfiles s2"
    proof -
      consider "ftyp (files s f) = FS_NONE" | "ftyp (files s f) = FS_PIPE" | "ftyp (files s f) \<noteq> FS_NONE" "ftyp (files s f) \<noteq> FS_PIPE" by blast
      then show ?thesis
      proof cases
        case 1
        then have "s' = s2" using c one by (simp add: file_close_def s2_def s1_def Let_def)
        then show ?thesis by simp
      next
        case 2
        then obtain p' where "s' = s2\<lparr>pipes := p'\<rparr>"
          using c one by (auto simp: file_close_def s2_def s1_def Let_def FS_PIPE_def FS_NONE_def)
        then show ?thesis by simp
      next
        case 3
        then obtain t1 t2 i where "begin_transaction s2 = Some t1" "iput i t1 = Some t2" "end_transaction t2 = Some s'"
          using c one by (auto simp: file_close_def s2_def s1_def Let_def)
        then have "fpart s' = fpart s2" using fpart_transaction fpart_iput by metis
        then show ?thesis by (simp add: fpart_def)
      qed
    qed
    then show ?thesis using i2 pos one by (auto simp: ftable_inv_def s2_def s1_def)
  qed
qed

section \<open>System calls on descriptors\<close>

lemma bad_fd: "\<not> is_bad_fd fd \<longleftrightarrow> 0 \<le> fd \<and> nat fd < NOFILE"
  by (auto simp: is_bad_fd_def)

lemma dup_correct:
  assumes inv: "fd_inv ext s"
  shows "\<exists>r s'. dup fd s = Some (r, s') \<and> fd_inv ext s' \<and>
    (if 0 \<le> r then nat r < NOFILE \<and> open_file_table s (nat r) = None \<and> (\<forall>j<nat r. open_file_table s j \<noteq> None) \<and>
       open_file_table s' = (open_file_table s)(nat r := open_file_table s (nat fd)) \<and> open_file_table s (nat fd) \<noteq> None
     else r = - 1 \<and> s' = s)"
proof (cases "is_bad_fd fd \<or> fd_file fd s = None \<or> n_opfiles s = int NOFILE \<or> fd_alloc s < 0")
  case True
  then have "dup fd s = Some (- 1, s)" by (auto simp: dup_def split: option.split)
  then show ?thesis using inv by simp
next
  case False
  then obtain f where f: "open_file_table s (nat fd) = Some f" by (auto simp: fd_file_def)
  have nfd: "nat fd < NOFILE" using False bad_fd by blast
  note o = fd_open [OF inv nfd f]
  define k where "k = nat (fd_alloc s)"
  have k: "k < NOFILE" "open_file_table s k = None" "\<forall>j<k. open_file_table s j \<noteq> None" "fd_alloc s = int k"
    using fd_alloc_free [of s] False by (auto simp: k_def)
  define s' where "s' = (set_slot k (Some f) (upd_file f (\<lambda>r. r\<lparr>fref := fref r + 1\<rparr>) s))\<lparr>n_opfiles := n_opfiles s + 1\<rparr>"
  have "dup fd s = Some (int k, s')"
    using False f k(4) o(1) by (simp add: dup_def fd_file_def file_dup_open Let_def s'_def)
  moreover have "fd_inv ext s'"
  proof (rule fd_inv_add [OF inv k(1,2)])
    show "ftable_inv s'" using o(1) by (intro ftable_inv_ref [OF fd_invD(1) [OF inv]]) (auto simp: s'_def)
  qed (use o(2) in \<open>simp_all add: s'_def set_slot_def\<close>)
  ultimately show ?thesis using k f by (auto simp: s'_def set_slot_def)
qed

text \<open>Closing a descriptor, when it returns.\<close>

definition close_fd :: "nat \<Rightarrow> fs \<Rightarrow> fs option" where
  "close_fd fd s = (case open_file_table s fd of None \<Rightarrow> Some s | Some f \<Rightarrow> do { s \<leftarrow> file_close f s; Some (s\<lparr>n_opfiles := n_opfiles s - 1\<rparr>) })"

lemma close_fd_correct:
  assumes inv: "fd_inv ext s" and fd: "fd < NOFILE" and c: "close_fd fd s = Some s1"
  shows "fd_inv ext (set_slot fd None s1) \<and> open_file_table s1 = open_file_table s"
proof (cases "open_file_table s fd")
  case None
  then have "s1 = s" "set_slot fd None s = s" using c by (simp_all add: close_fd_def set_slot_def fun_upd_idem)
  then show ?thesis using inv by simp
next
  case (Some f)
  note o = fd_open [OF inv fd Some]
  obtain s0 where s0: "file_close f s = Some s0" "s1 = s0\<lparr>n_opfiles := n_opfiles s0 - 1\<rparr>" using c Some by (auto simp: close_fd_def)
  note fc = file_close_correct [OF fd_invD(1) [OF inv] o(2) s0(1)]
  have "fd_inv ext (set_slot fd None s1)"
    by (rule fd_inv_remove [OF inv fd Some]) (use fc in \<open>simp_all add: s0(2) set_slot_def ftable_inv_def\<close>)
  then show ?thesis using fc s0(2) by simp
qed

lemma close_correct:
  assumes inv: "fd_inv ext s" and c: "close fd s = Some (r, s')"
  shows "fd_inv ext s' \<and> (if is_bad_fd fd then r = - 1 \<and> s' = s else r = 0 \<and> open_file_table s' = (open_file_table s)(nat fd := None))"
proof (cases "is_bad_fd fd")
  case True
  then show ?thesis using c inv by (simp add: close_def)
next
  case False
  then have fd: "nat fd < NOFILE" using bad_fd by blast
  obtain s1 where s1: "close_fd (nat fd) s = Some s1" "s' = set_slot (nat fd) None s1" "r = 0"
    using c False by (auto simp: close_def close_fd_def fd_file_def split: option.splits)
  show ?thesis using close_fd_correct [OF inv fd s1(1)] s1(2,3) False by (auto simp: set_slot_def)
qed

lemma close_returns:
  assumes "\<not> is_bad_fd fd" "\<And>f. open_file_table s (nat fd) = Some f \<Longrightarrow> 1 < fref (files s f)"
  shows "\<exists>s'. close fd s = Some (0, s')"
  using assms by (cases "open_file_table s (nat fd)") (simp_all add: close_def fd_file_def file_close_def Let_def)

lemma dup2_correct:
  assumes inv: "fd_inv ext s" and d: "dup2 oldfd newfd s = Some (r, s')"
  shows "fd_inv ext s' \<and> (if is_bad_fd oldfd \<or> is_bad_fd newfd then r = - 1 \<and> s' = s
    else open_file_table s' = (open_file_table s)(nat newfd := open_file_table s (nat oldfd)))"
proof (cases "is_bad_fd oldfd \<or> is_bad_fd newfd \<or> oldfd = newfd")
  case True
  then show ?thesis using d inv by (auto simp: dup2_def split: if_splits)
next
  case False
  then have fd: "nat newfd < NOFILE" "nat oldfd < NOFILE" "nat oldfd \<noteq> nat newfd" using bad_fd [of newfd] bad_fd [of oldfd] by auto
  have d': "(do { s1 \<leftarrow> close_fd (nat newfd) s;
       let s = set_slot (nat newfd) (open_file_table s1 (nat oldfd)) s1;
       case open_file_table s (nat oldfd) of None \<Rightarrow> Some (0, s)
       | Some f \<Rightarrow> do { (_, s) \<leftarrow> file_dup f s; Some (0, s\<lparr>n_opfiles := n_opfiles s + 1\<rparr>) } }) = Some (r, s')"
    using d False by (simp add: dup2_def close_fd_def fd_file_def)
  then obtain s1 where s1: "close_fd (nat newfd) s = Some s1" by auto
  note c = close_fd_correct [OF inv fd(1) s1]
  define t where "t = set_slot (nat newfd) None s1"
  have t: "fd_inv ext t" "open_file_table t (nat newfd) = None" "open_file_table t (nat oldfd) = open_file_table s (nat oldfd)"
    using c fd(3) by (auto simp: t_def set_slot_def)
  show ?thesis
  proof (cases "open_file_table s (nat oldfd)")
    case None
    then have "s' = t" using d' s1 c fd(3) by (simp add: t_def set_slot_def)
    then show ?thesis using t(1) c False None by (simp add: t_def set_slot_def)
  next
    case (Some f)
    have tf: "open_file_table t (nat oldfd) = Some f" using t(3) Some by simp
    note o = fd_open [OF t(1) fd(2) tf]
    have ft: "files t = files s1" by (simp add: t_def)
    have s': "s' = (upd_file f (\<lambda>r. r\<lparr>fref := fref r + 1\<rparr>) (set_slot (nat newfd) (Some f) s1))\<lparr>n_opfiles := n_opfiles s1 + 1\<rparr>"
      using d' s1 c Some fd(3) o(1) by (auto simp: ft file_dup_def set_slot_def upd_file_def)
    have "fd_inv ext s'"
    proof (rule fd_inv_add [OF t(1) fd(1) t(2)])
      show "ftable_inv s'" using o(1) by (intro ftable_inv_ref [OF fd_invD(1) [OF t(1)]]) (auto simp: s' t_def)
    qed (use o(2) in \<open>simp_all add: s' t_def set_slot_def upd_file_def\<close>)
    then show ?thesis using c False Some by (simp add: s' set_slot_def upd_file_def)
  qed
qed

text \<open>The last part of \<^verbatim>\<open>open\<close>, from the allocation of the descriptor on.\<close>

definition open_rest :: "nat \<Rightarrow> u32 \<Rightarrow> fs \<Rightarrow> (int \<times> fs) option" where
  "open_rest i flag s = do {
     (fp, t) \<leftarrow> file_alloc s;
     case fp of None \<Rightarrow> put_and_fail i t
     | Some f \<Rightarrow> do {
         t \<leftarrow> end_transaction (snd (iunlock (Some i) t));
         let t = upd_file f (\<lambda>x. x\<lparr>finode := Some i, ftyp := itype (inodes t i), foffset := 0, fflag := fflag x OR ucast flag\<rparr>) t;
         Some (fd_alloc s, (set_slot (nat (fd_alloc s)) (Some f) t)\<lparr>n_opfiles := n_opfiles t + 1\<rparr>)
       }
   }"

definition fd_post :: "(nat \<Rightarrow> nat) \<Rightarrow> fs \<Rightarrow> int \<Rightarrow> fs \<Rightarrow> bool" where
  "fd_post ext s r s' \<longleftrightarrow> fd_inv ext s' \<and> (if 0 \<le> r then nat r < NOFILE \<and> open_file_table s (nat r) = None \<and> (\<forall>j<nat r. open_file_table s j \<noteq> None) \<and>
       (\<exists>f. fref (files s f) = 0 \<and> open_file_table s' = (open_file_table s)(nat r := Some f) \<and> fref (files s' f) = 1 \<and> foffset (files s' f) = 0)
     else fpart s' = fpart s)"

lemma fd_post_fail: "fd_inv ext s \<Longrightarrow> fpart s' = fpart s \<Longrightarrow> fd_post ext s (- 1) s'"
  using fd_inv_fpart [of s' s] by (simp add: fd_post_def)

lemma fd_post_cong: "fpart s1 = fpart s \<Longrightarrow> fd_post ext s1 r s' \<Longrightarrow> fd_post ext s r s'"
  by (auto simp: fd_post_def fpart_def)

lemma open_rest_correct:
  assumes inv: "fd_inv ext s" and fd: "0 \<le> fd_alloc s" and o: "open_rest i flag s = Some (r, s')"
  shows "fd_post ext s r s'"
proof -
  obtain fp t where t: "file_alloc s = Some (fp, t)" "ftable_inv t" "open_file_table t = open_file_table s" "n_opfiles t = n_opfiles s"
    "case fp of None \<Rightarrow> t = s \<and> (\<forall>f<NFILE. 0 < fref (files s f))
     | Some f \<Rightarrow> f < NFILE \<and> fref (files s f) = 0 \<and> files t = (files s)(f := filed_zero\<lparr>fref := 1\<rparr>)"
    using file_alloc_correct [OF fd_invD(1) [OF inv]] by (elim exE conjE) (rule that; assumption)
  show ?thesis
  proof (cases fp)
    case None
    then have "put_and_fail i s = Some (r, s')" using o t(1,5) by (simp add: open_rest_def)
    then show ?thesis using fpart_put_and_fail fd_post_fail [OF inv] by blast
  next
    case (Some f)
    have f: "f < NFILE" "fref (files s f) = 0" "files t = (files s)(f := filed_zero\<lparr>fref := 1\<rparr>)" using t(5) Some by simp_all
    obtain u where u: "end_transaction (snd (iunlock (Some i) t)) = Some u" "r = fd_alloc s"
      "s' = (set_slot (nat r) (Some f) (upd_file f (\<lambda>x. x\<lparr>finode := Some i, ftyp := itype (inodes u i), foffset := 0, fflag := fflag x OR ucast flag\<rparr>) u))
        \<lparr>n_opfiles := n_opfiles u + 1\<rparr>"
      using o t(1) Some by (auto simp: open_rest_def Let_def)
    have "fpart u = fpart t" using fpart_transaction(2) [OF u(1)] by simp
    then have pu: "files u = files t" "f_free u = f_free t" "n_openfiles u = n_openfiles t" "open_file_table u = open_file_table t" "n_opfiles u = n_opfiles t"
      by (simp_all add: fpart_def)
    note k = fd_alloc_free [OF fd, folded u(2)]
    have "fd_inv ext s'"
    proof (rule fd_inv_add [OF inv k(1,2)])
      show "ftable_inv s'" by (rule ftable_inv_ref [OF t(2)]) (simp_all add: u(3) pu)
    qed (use f t(3,4) in \<open>simp_all add: u(3) pu set_slot_def upd_file_def\<close>)
    moreover have "open_file_table s' = (open_file_table s)(nat r := Some f)" "fref (files s' f) = 1" "foffset (files s' f) = 0"
      using f t(3) by (simp_all add: u(3) pu set_slot_def upd_file_def)
    moreover have "0 \<le> r" using fd u(2) by simp
    ultimately show ?thesis using k f(2) by (auto simp: fd_post_def)
  qed
qed

lemma open_correct:
  assumes inv: "fd_inv ext s" and o: "open_file path flag s = Some (r, s')"
  shows "fd_post ext s r s'"
proof (cases "1 < (flag AND ucast O_RDONLY) + drop_bit 1 (flag AND ucast O_WRONLY) + drop_bit 2 (flag AND ucast O_RDWR)")
  case True
  then show ?thesis using o fd_post_fail [OF inv] by (simp add: open_file_def)
next
  case False
  have eq: "open_file path flag s = do { s1 \<leftarrow> begin_transaction s; (q, s2) \<leftarrow> open_inode path flag s1;
      case q of None \<Rightarrow> fail_end s2
      | Some (i, ok) \<Rightarrow> if \<not> ok \<or> fd_alloc s2 < 0 then put_and_fail i s2 else open_rest i flag s2 }"
    unfolding open_file_def open_rest_def Let_def by (simp only: False if_False)
  obtain s1 q s2 where s1: "begin_transaction s = Some s1" and s2: "open_inode path flag s1 = Some (q, s2)"
    and rest: "(case q of None \<Rightarrow> fail_end s2
        | Some (i, ok) \<Rightarrow> if \<not> ok \<or> fd_alloc s2 < 0 then put_and_fail i s2 else open_rest i flag s2) = Some (r, s')"
    using o unfolding eq by auto
  have p2: "fpart s2 = fpart s" using fpart_transaction(1) [OF s1] fpart_open_inode [OF s2] by simp
  then have inv2: "fd_inv ext s2" using inv fd_inv_fpart by blast
  have "fd_post ext s2 r s'"
  proof (cases q)
    case None
    then have "fpart s' = fpart s2" "r = - 1" using rest by (auto simp: fail_end_def dest!: fpart_transaction)
    then show ?thesis using fd_post_fail [OF inv2] by simp
  next
    case (Some x)
    then obtain i ok where x: "q = Some (i, ok)" by (cases x) simp
    show ?thesis
    proof (cases "\<not> ok \<or> fd_alloc s2 < 0")
      case True
      then have "put_and_fail i s2 = Some (r, s')" using rest x by simp
      then show ?thesis using fpart_put_and_fail fd_post_fail [OF inv2] by blast
    next
      case False
      then show ?thesis using rest x by (intro open_rest_correct [OF inv2]) simp_all
    qed
  qed
  then show ?thesis by (rule fd_post_cong [OF p2])
qed

text \<open>C40: descriptors and open files stay consistent.  The references of every file are exactly the descriptors of the
  process and the references \<open>ext\<close> of other processes, a file is on the free list exactly when it has no
  reference, and the numbers of open files and of descriptors are right, after \<^verbatim>\<open>dup\<close>, \<^verbatim>\<open>dup2\<close>, \<^verbatim>\<open>close\<close> and \<^verbatim>\<open>open\<close>, on
  success and on failure: no reference is lost and none is left behind.  \<^verbatim>\<open>dup\<close> always returns, and \<^verbatim>\<open>close\<close> returns when it
  does not drop the last reference; \<^verbatim>\<open>dup\<close> and \<^verbatim>\<open>open\<close> use the least free descriptor, \<^verbatim>\<open>dup2\<close> the one it is given, and a
  failed call leaves files and descriptors unchanged; a file opened is one nobody referred to.\<close>

theorem descriptors_consistent:
  assumes "fd_inv ext s"
  shows "(\<exists>r s'. dup fd s = Some (r, s') \<and> fd_inv ext s' \<and>
      (if 0 \<le> r then nat r < NOFILE \<and> open_file_table s (nat r) = None \<and> (\<forall>j<nat r. open_file_table s j \<noteq> None) \<and>
         open_file_table s' = (open_file_table s)(nat r := open_file_table s (nat fd)) \<and> open_file_table s (nat fd) \<noteq> None
       else r = - 1 \<and> s' = s)) \<and>
    (\<forall>newfd r s'. dup2 fd newfd s = Some (r, s') \<longrightarrow> fd_inv ext s' \<and>
      (if is_bad_fd fd \<or> is_bad_fd newfd then r = - 1 \<and> s' = s
       else open_file_table s' = (open_file_table s)(nat newfd := open_file_table s (nat fd)))) \<and>
    (\<forall>r s'. close fd s = Some (r, s') \<longrightarrow> fd_inv ext s' \<and>
      (if is_bad_fd fd then r = - 1 \<and> s' = s else r = 0 \<and> open_file_table s' = (open_file_table s)(nat fd := None))) \<and>
    (\<not> is_bad_fd fd \<and> (\<forall>f. open_file_table s (nat fd) = Some f \<longrightarrow> 1 < fref (files s f)) \<longrightarrow> (\<exists>s'. close fd s = Some (0, s'))) \<and>
    (\<forall>path flag r s'. open_file path flag s = Some (r, s') \<longrightarrow> fd_post ext s r s')"
proof (intro conjI)
  show "\<forall>newfd r s'. dup2 fd newfd s = Some (r, s') \<longrightarrow> fd_inv ext s' \<and> (if is_bad_fd fd \<or> is_bad_fd newfd then r = - 1 \<and> s' = s
      else open_file_table s' = (open_file_table s)(nat newfd := open_file_table s (nat fd)))"
    by (intro allI impI) (rule dup2_correct [OF assms])
  show "\<forall>r s'. close fd s = Some (r, s') \<longrightarrow> fd_inv ext s' \<and>
      (if is_bad_fd fd then r = - 1 \<and> s' = s else r = 0 \<and> open_file_table s' = (open_file_table s)(nat fd := None))"
    by (intro allI impI) (rule close_correct [OF assms])
  show "\<not> is_bad_fd fd \<and> (\<forall>f. open_file_table s (nat fd) = Some f \<longrightarrow> 1 < fref (files s f)) \<longrightarrow> (\<exists>s'. close fd s = Some (0, s'))"
    using close_returns [of fd s] by blast
  show "\<forall>path flag r s'. open_file path flag s = Some (r, s') \<longrightarrow> fd_post ext s r s'"
    by (intro allI impI) (rule open_correct [OF assms])
qed (rule dup_correct [OF assms])

text \<open>A process with two open files.\<close>

definition fd_fs :: fs where
  "fd_fs = tiny_fs\<lparr>f_free := [2..<NFILE], n_openfiles := 2, files := (\<lambda>f. if f < 2 then filed_zero\<lparr>fref := 1\<rparr> else filed_zero),
     open_file_table := [0 \<mapsto> 0, 1 \<mapsto> 1], n_opfiles := 2\<rparr>"

lemma fd_fs_inv: "fd_inv (\<lambda>_. 0) fd_fs"
proof -
  have "2 \<le> NFILE" by (simp add: NFILE_def)
  then have "ftable_inv fd_fs" by (auto simp: ftable_inv_def fd_fs_def filed_zero_def of_nat_diff)
  moreover have f: "fds fd_fs f = (if f < 2 then {f} else {})" for f
    by (auto simp: fds_def fd_fs_def NOFILE_def less_2_cases_iff)
  moreover have "used_fds fd_fs = {0, 1}" by (auto simp: used_fds_def fd_fs_def NOFILE_def split: if_splits)
  ultimately show ?thesis by (auto simp: fd_inv_def fd_fs_def filed_zero_def NFILE_def)
qed

lemma fd_fs_calls: "\<exists>s'. dup 0 fd_fs = Some (2, s')" "\<exists>s'. close 0 fd_fs = Some (0, s')"
proof -
  have "fd_alloc fd_fs = 2" by (simp add: fd_alloc_def first_slot_def fd_fs_def NOFILE_def upt_rec)
  then show "\<exists>s'. dup 0 fd_fs = Some (2, s')"
    by (simp add: dup_def is_bad_fd_def fd_file_def file_dup_def NOFILE_def) (simp add: fd_fs_def filed_zero_def file_dup_def NOFILE_def)
  have f: "files fd_fs 0 = filed_zero\<lparr>fref := 1\<rparr>" "open_file_table fd_fs 0 = Some 0" by (simp_all add: fd_fs_def)
  then show "\<exists>s'. close 0 fd_fs = Some (0, s')"
    by (simp add: close_def is_bad_fd_def fd_file_def file_close_def filed_zero_def NOFILE_def Let_def)
qed

theorem descriptors_consistent_witness:
  "(\<exists>s'. dup 0 fd_fs = Some (2, s') \<and> fd_inv (\<lambda>_. 0) s') \<and> (\<exists>s'. close 0 fd_fs = Some (0, s') \<and> fd_inv (\<lambda>_. 0) s')"
proof -
  obtain s1 s2 where s: "dup 0 fd_fs = Some (2, s1)" "close 0 fd_fs = Some (0, s2)" using fd_fs_calls by blast
  note d = descriptors_consistent [OF fd_fs_inv, of 0]
  have "fd_inv (\<lambda>_. 0) s1" using d [THEN conjunct1] s(1) by (elim exE conjE) simp
  moreover have "fd_inv (\<lambda>_. 0) s2" using d [THEN conjunct2, THEN conjunct2, THEN conjunct1] s(2) by blast
  ultimately show ?thesis using s by blast
qed

text \<open>The slots that \<^verbatim>\<open>pipe\<close> finds: the first two that are in use.\<close>

lemma pipe_needs_two_open:
  assumes "card (used_fds s) < 2" "first_slot (\<lambda>x. x \<noteq> None) 0 s = Some a"
  shows "first_slot (\<lambda>x. x \<noteq> None) (a + 1) s = None"
proof (rule ccontr)
  assume "first_slot (\<lambda>x. x \<noteq> None) (a + 1) s \<noteq> None"
  then obtain b where "a < b" "b \<in> used_fds s" by (auto simp: first_slot_def find_None_iff used_fds_def Suc_le_eq)
  moreover have "a \<in> used_fds s" using assms(2) by (auto simp: first_slot_def find_Some_iff used_fds_def)
  ultimately have "card {a, b} \<le> card (used_fds s)" by (intro card_mono) auto
  then show False using \<open>a < b\<close> assms(1) by simp
qed

lemma pipe_finds_open:
  assumes ab: "a < b" "b < NOFILE" "used_fds s \<inter> {..b} = {a, b}"
  shows "first_slot (\<lambda>x. x \<noteq> None) 0 s = Some a" "first_slot (\<lambda>x. x \<noteq> None) (a + 1) s = Some b"
proof -
  have used: "open_file_table s j \<noteq> None \<longleftrightarrow> j = a \<or> j = b" if "j \<le> b" for j
  proof -
    have "open_file_table s j \<noteq> None \<longleftrightarrow> j \<in> used_fds s \<inter> {..b}" using that ab(2) by (simp add: used_fds_def)
    then show ?thesis using ab(3) by blast
  qed
  show "first_slot (\<lambda>x. x \<noteq> None) 0 s = Some a"
    unfolding first_slot_def find_Some_iff using ab(1,2) used by (intro exI [of _ a]) simp
  have "open_file_table s ([Suc a..<NOFILE] ! j) = None" if "j < b - Suc a" for j
  proof -
    have "Suc a + j < b" using that by simp
    then show ?thesis using used [of "Suc a + j"] ab(2) by (simp add: nth_upt)
  qed
  moreover have "b - Suc a < NOFILE - Suc a" using ab(1,2) by (intro diff_less_mono) auto
  moreover have "open_file_table s b \<noteq> None" using used [of b] by simp
  ultimately show "first_slot (\<lambda>x. x \<noteq> None) (a + 1) s = Some b"
    unfolding first_slot_def find_Some_iff using ab(1,2) by (intro exI [of _ "b - Suc a"]) simp
qed

text \<open>\<^verbatim>\<open>pipe\<close> looks for descriptors in use.  With two or more open descriptors it replaces the first two by the ends of
  the pipe without closing their files, which keep their references, and does not count the new
  descriptors; with fewer it writes behind the table of descriptors.\<close>

theorem pipe_overwrites_open_descriptors:
  assumes "fd_inv ext s" "n_opfiles s + 2 \<le> int NOFILE"
  shows "(card (used_fds s) < 2 \<longrightarrow> sys_pipe mem d s = None) \<and>
    (\<forall>a b f g x y fl p dat. a < b \<and> b < NOFILE \<and> used_fds s \<inter> {..b} = {a, b} \<and> open_file_table s a = Some f \<and> open_file_table s b = Some g \<and> f_free s = x # y # fl \<longrightarrow>
      (\<exists>s'. sys_pipe (Some p) (Some dat) s = Some (0, Some (a, b), s') \<and> open_file_table s' = (open_file_table s)(a := Some x, b := Some y) \<and>
         n_opfiles s' = n_opfiles s \<and> files s' f = files s f \<and> files s' g = files s g \<and> 0 < fref (files s' f) \<and> 0 < fref (files s' g)))"
proof (intro conjI allI impI)
  have room: "\<not> int NOFILE - n_opfiles s < 2" using assms(2) by simp
  assume c: "card (used_fds s) < 2"
  show "sys_pipe mem d s = None"
    using room pipe_needs_two_open [OF c]
    by (cases "first_slot (\<lambda>x. x \<noteq> None) 0 s") (simp_all add: sys_pipe_def pipe_alloc_def Let_def split: option.split prod.split)
next
  fix a b f g x y fl p dat
  assume h: "a < b \<and> b < NOFILE \<and> used_fds s \<inter> {..b} = {a, b} \<and> open_file_table s a = Some f \<and> open_file_table s b = Some g \<and> f_free s = x # y # fl"
  have room: "\<not> int NOFILE - n_opfiles s < 2" using assms(2) by simp
  have ab: "a < b" "b < NOFILE" "open_file_table s a = Some f" "open_file_table s b = Some g" "f_free s = x # y # fl" "a < NOFILE"
    "used_fds s \<inter> {..b} = {a, b}" using h by auto
  note slots = pipe_finds_open [OF ab(1,2,7)]
  have ft: "n_openfiles s \<noteq> int NFILE" "n_openfiles s + 1 \<noteq> int NFILE" "x \<noteq> y" "fref (files s x) = 0" "fref (files s y) = 0"
    using fd_invD(1) [OF assms(1)] ab by (auto simp: ftable_inv_def)
  have fg: "0 < fref (files s f)" "0 < fref (files s g)" using fd_open(1) [OF assms(1) ab(6,3)] fd_open(1) [OF assms(1) ab(2,4)] by simp_all
  then have "f \<noteq> x" "f \<noteq> y" "g \<noteq> x" "g \<noteq> y" using ft(4,5) by auto
  then show "\<exists>s'. sys_pipe (Some p) (Some dat) s = Some (0, Some (a, b), s') \<and> open_file_table s' = (open_file_table s)(a := Some x, b := Some y) \<and>
      n_opfiles s' = n_opfiles s \<and> files s' f = files s f \<and> files s' g = files s g \<and> 0 < fref (files s' f) \<and> 0 < fref (files s' g)"
    using room ab slots ft fg by (simp add: sys_pipe_def pipe_alloc_def file_alloc_def set_slot_def upd_file_def Let_def)
qed

theorem pipe_overwrites_open_descriptors_witness:
  "\<exists>s'. sys_pipe (Some 9) (Some (\<lambda>_. 0)) fd_fs = Some (0, Some (0, 1), s') \<and> open_file_table s' 0 = Some 2 \<and> 0 < fref (files s' 0)"
proof -
  have u: "used_fds fd_fs \<inter> {..1} = {0, 1}" by (auto simp: used_fds_def fd_fs_def NOFILE_def split: if_splits)
  have n: "n_opfiles fd_fs + 2 \<le> int NOFILE" "(1::nat) < NOFILE" by (simp_all add: fd_fs_def NOFILE_def)
  have fl: "f_free fd_fs = 2 # 3 # [4..<NFILE]" by (simp add: fd_fs_def NFILE_def upt_rec)
  have t: "open_file_table fd_fs 0 = Some 0" "open_file_table fd_fs 1 = Some 1" by (simp_all add: fd_fs_def)
  from pipe_overwrites_open_descriptors [OF fd_fs_inv n(1), of None None, THEN conjunct2, rule_format, of 0 1 0 1 2 3 "[4..<NFILE]" 9 "\<lambda>_. 0"]
  show ?thesis using u n(2) fl t by auto
qed

end
