(* ===== verification/Pmap.thy ===== *)
theory Pmap
  imports Slab Sched
begin

text \<open>
  Page tables and the management of address spaces (kern/pmap.c, include/pmap.h, the paging part of
  include/mmu.h and include/mem.h).

  Page directories and page tables are words of the byte memory of the slab allocator, at the kernel
  addresses the source computes: a page directory is its kernel virtual address, a pointer to an entry is
  the address of the entry, 0 is the null pointer.  Page descriptors, reference counts and \<^verbatim>\<open>kmalloc\<close> are
  those of the allocators, the current process is that of the scheduler.  \<^const>\<open>None\<close> is an execution that does
  not come back; an allocation that puts the process to sleep ends that way, too.  The bound \<open>m\<close> is the
  one of \<^const>\<open>kmalloc\<close>.  \<^verbatim>\<open>invlpg\<close> is recorded in the field \<open>tlb\<close>.
\<close>

section \<open>Constants\<close>

definition PTE_P :: u32 where "PTE_P = 0x001"
definition PTE_U :: u32 where "PTE_U = 0x004"
definition PTE_PS :: u32 where "PTE_PS = 0x080"
definition PTE_COW :: u32 where "PTE_COW = 0x800"
definition PTE_SHARE :: u32 where "PTE_SHARE = 0x400"
definition PTE_USTK :: u32 where "PTE_USTK = PTE_P OR PTE_W OR PTE_U"
definition PDENTRIES :: nat where "PDENTRIES = 1024"
definition PTSIZE :: u32 where "PTSIZE = 0x400000"
definition KSTACKTOP :: u32 where "KSTACKTOP = KERNBASE"
definition KSTACKSIZE :: u32 where "KSTACKSIZE = 4096"
definition ULIM :: u32 where "ULIM = 0xEF400000"
definition UVPT :: u32 where "UVPT = 0xEF000000"
definition UPAGES :: u32 where "UPAGES = 0xEEC00000"

definition PDINDEX :: "u32 \<Rightarrow> nat" where "PDINDEX x = unat (drop_bit 22 x AND 0x3ff)"
definition PTINDEX :: "u32 \<Rightarrow> nat" where "PTINDEX x = unat (drop_bit 12 x AND 0x3ff)"
definition PTE_ADDR :: "u32 \<Rightarrow> u32" where "PTE_ADDR x = x AND NOT 0xFFF"
definition PADDR :: "u32 \<Rightarrow> u32" where "PADDR x = x - KERNBASE"
definition KADDR :: "u32 \<Rightarrow> u32" where "KADDR x = x + KERNBASE"

section \<open>State and memory\<close>

record vm =
  vk :: kstate
  vp :: pstate
  proc_pgdir :: "nat \<Rightarrow> u32"
  kern_pgdir :: u32
  boot_next_free :: u32
  npages_base_num :: nat
  user_mem_check_addr :: u32
  tlb :: "u32 list"

text \<open>A \<^verbatim>\<open>uint32_t\<close> in memory, least significant byte first.\<close>

definition rd32 :: "(u32 \<Rightarrow> u8) \<Rightarrow> u32 \<Rightarrow> u32" where
  "rd32 b a = ucast (b a) OR push_bit 8 (ucast (b (a + 1))) OR push_bit 16 (ucast (b (a + 2))) OR push_bit 24 (ucast (b (a + 3)))"

definition wr32 :: "u32 \<Rightarrow> u32 \<Rightarrow> (u32 \<Rightarrow> u8) \<Rightarrow> u32 \<Rightarrow> u8" where
  "wr32 a v b = b(a := ucast v, a + 1 := ucast (drop_bit 8 v), a + 2 := ucast (drop_bit 16 v), a + 3 := ucast (drop_bit 24 v))"

definition load :: "vm \<Rightarrow> u32 \<Rightarrow> u32" where
  "load s a = rd32 (omem (vk s)) a"

definition store :: "u32 \<Rightarrow> u32 \<Rightarrow> vm \<Rightarrow> vm" where
  "store a v s = s\<lparr>vk := (vk s)\<lparr>omem := wr32 a v (omem (vk s))\<rparr>\<rparr>"

text \<open>\<^verbatim>\<open>t[i]\<close> for a table at address \<open>t\<close>.\<close>

definition entry :: "u32 \<Rightarrow> nat \<Rightarrow> u32" where
  "entry t i = t + of_nat (4 * i)"

definition upd_kb :: "(bstate \<Rightarrow> bstate) \<Rightarrow> vm \<Rightarrow> vm" where
  "upd_kb f s = s\<lparr>vk := (vk s)\<lparr>kb := f (kb (vk s))\<rparr>\<rparr>"

definition vzero :: "u32 \<Rightarrow> nat \<Rightarrow> vm \<Rightarrow> vm" where
  "vzero a n s = s\<lparr>vk := kzero a n (vk s)\<rparr>"

abbreviation page_ref :: "vm \<Rightarrow> nat \<Rightarrow> u32" where
  "page_ref s \<equiv> p_ref (kb (vk s))"

section \<open>Page frames\<close>

definition page_alloc :: "nat \<Rightarrow> bool \<Rightarrow> vm \<Rightarrow> (nat option \<times> vm) option" where
  "page_alloc m alloc_zero s = do {
     (r, k) \<leftarrow> kmalloc m PGSIZE (if alloc_zero then GFP_ZERO else 0) (vk s);
     let s = s\<lparr>vk := k\<rparr>;
     case r of KBlocked \<Rightarrow> None
     | KNull \<Rightarrow> Some (None, s)
     | KGot a \<Rightarrow> (case va2page (kb k) a of None \<Rightarrow> Some (None, s)
         | Some p \<Rightarrow> Some (Some p, upd_kb (set_ref p 0) s))
   }"

definition page_free :: "nat \<Rightarrow> vm \<Rightarrow> vm option" where
  "page_free pp s = do { k \<leftarrow> kfree (page2va pp) (vk s); Some (s\<lparr>vk := k\<rparr>) }"

definition page_decrease_ref :: "nat \<Rightarrow> vm \<Rightarrow> vm option" where
  "page_decrease_ref p s =
     (let s = upd_kb (set_ref p (page_ref s p - 1)) s
      in if page_ref s p = 0 then page_free p s else Some s)"

definition tlb_invalidate :: "u32 \<Rightarrow> u32 \<Rightarrow> vm \<Rightarrow> vm" where
  "tlb_invalidate pgdir va s =
     (case cpu_proc (vp s) of None \<Rightarrow> s\<lparr>tlb := tlb s @ [va]\<rparr>
      | Some p \<Rightarrow> if proc_pgdir s p = pgdir then s\<lparr>tlb := tlb s @ [va]\<rparr> else s)"

section \<open>Page tables\<close>

definition pgdir_walk :: "nat \<Rightarrow> u32 \<Rightarrow> u32 \<Rightarrow> bool \<Rightarrow> vm \<Rightarrow> (u32 \<times> vm) option" where
  "pgdir_walk m pgdir va create s = do {
     let entry_addr = entry pgdir (PDINDEX va);
     (ok, s) \<leftarrow> (if load s entry_addr AND PTE_P = 0
                 then if \<not> create then Some (False, s)
                      else do {
                        (r, s) \<leftarrow> page_alloc m True s;
                        case r of None \<Rightarrow> Some (False, s)
                        | Some tp \<Rightarrow>
                            let s = upd_kb (set_ref tp (page_ref s tp + 1)) s
                            in Some (True, store entry_addr (page2pa tp OR PTE_P) s)
                      }
                 else Some (True, s));
     if \<not> ok then Some (0, s)
     else Some (entry (KADDR (PTE_ADDR (load s entry_addr))) (PTINDEX va), s)
   }"

definition page_lookup :: "u32 \<Rightarrow> u32 \<Rightarrow> vm \<Rightarrow> ((nat option \<times> u32) \<times> vm) option" where
  "page_lookup pgdir va s = do {
     (pte, s) \<leftarrow> pgdir_walk 0 pgdir va False s;
     if pte = 0 then Some ((None, 0), s)
     else Some ((pa2page (kb (vk s)) (PTE_ADDR (load s pte)), pte), s)
   }"

definition page_remove :: "u32 \<Rightarrow> u32 \<Rightarrow> vm \<Rightarrow> vm option" where
  "page_remove pgdir va s = do {
     ((pinfo, pte), s) \<leftarrow> page_lookup pgdir va s;
     case pinfo of None \<Rightarrow> Some s
     | Some p \<Rightarrow> do {
         s \<leftarrow> page_decrease_ref p s;
         Some (tlb_invalidate pgdir va (store pte 0 s))
       }
   }"

definition or_entry :: "u32 \<Rightarrow> u32 \<Rightarrow> vm \<Rightarrow> vm" where
  "or_entry a v s = store a (load s a OR v) s"

definition page_insert :: "nat \<Rightarrow> u32 \<Rightarrow> nat \<Rightarrow> u32 \<Rightarrow> u32 \<Rightarrow> vm \<Rightarrow> (int \<times> vm) option" where
  "page_insert m pgdir pp va perm s = do {
     let pa = page2pa pp;
     (pte, s) \<leftarrow> pgdir_walk m pgdir va True s;
     if pte = 0 then Some (- E_NO_MEM, s)
     else do {
       let tpa = load s pte;
       if tpa AND PTE_P \<noteq> 0 \<and> PTE_ADDR tpa = pa
       then do {
         let s = store pte (pa OR perm OR PTE_P) s;
         let s = or_entry (entry pgdir (PDINDEX va)) perm s;
         Some (0, tlb_invalidate pgdir va s)
       }
       else do {
         s \<leftarrow> (if tpa AND PTE_P \<noteq> 0 then page_remove pgdir va s else Some s);
         let s = store pte (pa OR perm OR PTE_P) s;
         let s = or_entry (entry pgdir (PDINDEX va)) perm s;
         let s = upd_kb (set_ref pp (page_ref s pp + 1)) s;
         Some (0, tlb_invalidate pgdir va s)
       }
     }
   }"

section \<open>Access checks\<close>

text \<open>The loop of \<^verbatim>\<open>user_mem_check\<close>: the first page without the permission, or \<open>va_end\<close>.\<close>

partial_function (option) check_pages :: "vm \<Rightarrow> u32 \<Rightarrow> u32 \<Rightarrow> u32 \<Rightarrow> u32 \<Rightarrow> u32 option" where
  "check_pages s pgdir perm va_end va_t =
     (if va_t < va_end then
        let pde = load s (entry pgdir (PDINDEX va_t)) in
        if pde AND perm = 0 then Some va_t
        else if load s (entry (KADDR (PTE_ADDR pde)) (PTINDEX va_t)) AND perm = 0 then Some va_t
        else check_pages s pgdir perm va_end (va_t + 4096)
      else Some va_t)"

definition user_mem_check :: "nat \<Rightarrow> u32 \<Rightarrow> u32 \<Rightarrow> u32 \<Rightarrow> vm \<Rightarrow> (int \<times> vm) option" where
  "user_mem_check p va len perm s =
     (let va_start = va; va_end = va_start + len in
      if ULIM \<le> va_start then Some (- E_FAULT, s\<lparr>user_mem_check_addr := va_start\<rparr>)
      else if ULIM \<le> va_end then Some (- E_FAULT, s\<lparr>user_mem_check_addr := ULIM\<rparr>)
      else do {
        let va_start = ROUNDDOWN va_start 4096;
        let va_end = ROUNDUP va_end 4096;
        va_t \<leftarrow> check_pages s (proc_pgdir s p) perm va_end va_start;
        if va_t < va_end
        then Some (- E_FAULT, s\<lparr>user_mem_check_addr := (if va_end - va < 4096 then va else va_t)\<rparr>)
        else Some (0, s)
      })"

text \<open>The process is left to the scheduler when the check fails.\<close>

definition user_mem_assert :: "nat \<Rightarrow> u32 \<Rightarrow> u32 \<Rightarrow> u32 \<Rightarrow> vm \<Rightarrow> vm option" where
  "user_mem_assert p va len perm s = do {
     (r, s) \<leftarrow> user_mem_check p va len (perm OR PTE_U) s;
     if r < 0 then
       if cpu_proc (vp s) = Some p then do { q \<leftarrow> exit_proc (vp s); Some (s\<lparr>vp := q\<rparr>) }
       else do { (_, q) \<leftarrow> murder (pid (proc_of (vp s) p)) (vp s); Some (s\<lparr>vp := q\<rparr>) }
     else Some s
   }"

section \<open>Growing an address space\<close>

partial_function (option) grow_loop :: "nat \<Rightarrow> u32 \<Rightarrow> u32 \<Rightarrow> u32 \<Rightarrow> vm \<Rightarrow> (u32 \<times> vm) option" where
  "grow_loop m pgdir newsz va s =
     (if va < newsz then do {
        (pte, s) \<leftarrow> pgdir_walk m pgdir va True s;
        if pte = 0 then Some (0, s)
        else if load s pte AND PTE_P \<noteq> 0 then grow_loop m pgdir newsz (va + 4096) s
        else do {
          (r, s) \<leftarrow> page_alloc m True s;
          case r of None \<Rightarrow> Some (0, s)
          | Some p \<Rightarrow> do {
              (e, s) \<leftarrow> page_insert m pgdir p va (PTE_W OR PTE_U OR PTE_P) s;
              if e < 0 then Some (0, s) else grow_loop m pgdir newsz (va + 4096) s
            }
        }
      }
      else Some (newsz, s))"

definition grow_vm :: "nat \<Rightarrow> u32 \<Rightarrow> u32 \<Rightarrow> u32 \<Rightarrow> vm \<Rightarrow> (u32 \<times> vm) option" where
  "grow_vm m pgdir oldsz newsz s =
     (if UTOP \<le> newsz then Some (0, s)
      else if newsz \<le> oldsz then Some (oldsz, s)
      else grow_loop m pgdir newsz (ROUNDUP oldsz 4096) s)"

section \<open>Boot\<close>

text \<open>\<open>cmos r\<close> is the value \<^verbatim>\<open>cmos_read(r)\<close> returns, \<open>kend\<close> the address of the symbol \<^verbatim>\<open>end\<close>.\<close>

definition read_memory :: "(nat \<Rightarrow> u32) \<Rightarrow> nat \<Rightarrow> u32" where
  "read_memory cmos offset = push_bit 8 (cmos (offset + 1)) OR cmos offset"

definition memory_dect :: "(nat \<Rightarrow> u32) \<Rightarrow> vm \<Rightarrow> vm" where
  "memory_dect cmos s =
     (let base_mem = read_memory cmos 0x15;
          ext16_mem = read_memory cmos 0x17;
          ext_mem = read_memory cmos 0x34 * 64;
          total_mem = (if ext16_mem \<noteq> 0 then 16 * 1024 + ext16_mem
                       else if ext_mem \<noteq> 0 then 1024 + ext_mem else base_mem)
      in (upd_kb (\<lambda>b. b\<lparr>npages_num := unat (total_mem div 4)\<rparr>) s)\<lparr>npages_base_num := unat (base_mem div 4)\<rparr>)"

definition boot_alloc :: "u32 \<Rightarrow> u32 \<Rightarrow> vm \<Rightarrow> u32 \<times> vm" where
  "boot_alloc kend n s =
     (let s = (if boot_next_free s = 0 then s\<lparr>boot_next_free := ROUNDUP kend 4096\<rparr> else s) in
      if n = 0 then (boot_next_free s, s)
      else (boot_next_free s, s\<lparr>boot_next_free := boot_next_free s + ROUNDUP n 4096\<rparr>))"

definition buddy_init :: "vm \<Rightarrow> vm option" where
  "buddy_init s = do {
     let reserved_start = push_bit 2 PTSIZE;
     let reserved_size = PDENTRIES div 2;
     let kernel_start = PADDR (boot_next_free s);
     let kernel_size = drop_bit 12 (reserved_start - kernel_start);
     let normal_start = reserved_start + of_nat (drop_bit 12 reserved_size);
     let normal_size = of_nat (npages_num (kb (vk s))) - drop_bit 12 normal_start;
     b \<leftarrow> boot_zone_init KERN_ZONE (unat reserved_start) reserved_size (unat kernel_start) (unat kernel_size) (kb (vk s));
     b \<leftarrow> boot_zone_init NORMAL_ZONE 0 0 (unat normal_start) (unat normal_size) b;
     Some (upd_kb (\<lambda>_. b) s)
   }"

definition boot_page_alloc :: "u32 \<Rightarrow> bool \<Rightarrow> vm \<Rightarrow> (nat \<times> vm) option" where
  "boot_page_alloc kend alloc_zero s = do {
     let (va, s) = boot_alloc kend (of_nat PGSIZE) s;
     let s = (if alloc_zero then vzero va PGSIZE s else s);
     p \<leftarrow> va2page (kb (vk s)) va;
     Some (p, upd_kb (\<lambda>b. set_private p OUT_OF_BUDDY (set_ref p 1 (set_flag p 0 b))) s)
   }"

definition boot_pgdir_walk :: "u32 \<Rightarrow> u32 \<Rightarrow> u32 \<Rightarrow> bool \<Rightarrow> vm \<Rightarrow> (u32 \<times> vm) option" where
  "boot_pgdir_walk kend pgdir va create s = do {
     let entry_addr = entry pgdir (PDINDEX va);
     if load s entry_addr AND PTE_P = 0 \<and> \<not> create then Some (0, s)
     else do {
       s \<leftarrow> (if load s entry_addr AND PTE_P = 0 then do {
               (tp, s) \<leftarrow> boot_page_alloc kend True s;
               Some (store entry_addr (page2pa tp OR PTE_P) s)
             } else Some s);
       Some (entry (KADDR (PTE_ADDR (load s entry_addr))) (PTINDEX va), s)
     }
   }"

partial_function (option) boot_map_loop :: "u32 \<Rightarrow> u32 \<Rightarrow> u32 \<Rightarrow> u32 \<Rightarrow> u32 \<Rightarrow> u32 \<Rightarrow> vm \<Rightarrow> vm option" where
  "boot_map_loop kend pgdir va pa pa_end perm s =
     (if pa < pa_end then do {
        (pte, s) \<leftarrow> boot_pgdir_walk kend pgdir va True s;
        if pte = 0 then None
        else boot_map_loop kend pgdir (va + 4096) (pa + 4096) pa_end perm
               (or_entry (entry pgdir (PDINDEX va)) (perm OR PTE_P) (store pte (pa OR perm OR PTE_P) s))
      }
      else Some s)"

definition boot_map_region :: "u32 \<Rightarrow> u32 \<Rightarrow> u32 \<Rightarrow> u32 \<Rightarrow> u32 \<Rightarrow> u32 \<Rightarrow> vm \<Rightarrow> vm option" where
  "boot_map_region kend pgdir va siz pa perm s =
     (if perm AND PTE_PS = 0 then boot_map_loop kend pgdir va pa (pa + siz) perm s
      else Some (or_entry (entry pgdir (PDINDEX va)) ((pa AND 0xffc00000) OR PTE_P OR PTE_PS OR perm) s))"

text \<open>\<^verbatim>\<open>mem_init\<close> up to the loading of the control registers; \<open>kernstack\<close> is the address of the boot
  stack, \<^verbatim>\<open>sizeof(struct page)\<close> is 20.\<close>

definition mem_init :: "(nat \<Rightarrow> u32) \<Rightarrow> u32 \<Rightarrow> u32 \<Rightarrow> vm \<Rightarrow> vm option" where
  "mem_init cmos kend kernstack s = do {
     let s = memory_dect cmos s;
     let (kp, s) = boot_alloc kend (of_nat PGSIZE) s;
     let s = vzero kp PGSIZE (s\<lparr>kern_pgdir := kp\<rparr>);
     let s = store (entry kp (PDINDEX UVPT)) (PADDR kp OR PTE_U OR PTE_P) s;
     let (pages, s) = boot_alloc kend (of_nat (20 * npages_num (kb (vk s)))) s;
     let s = upd_kb (\<lambda>b. b\<lparr>pflag := (\<lambda>_. 0), p_private := (\<lambda>_. 0), p_ref := (\<lambda>_. 0)\<rparr>) s;
     s \<leftarrow> boot_map_region kend kp UPAGES PTSIZE (PADDR pages) (PTE_U OR PTE_P) s;
     s \<leftarrow> boot_map_region kend kp (KSTACKTOP - KSTACKSIZE) KSTACKSIZE (PADDR kernstack) (PTE_P OR PTE_W) s;
     s \<leftarrow> boot_map_region kend kp KERNBASE (ROUNDUP (0xffffffff - KERNBASE) 4096) 0 (PTE_P OR PTE_W) s;
     s \<leftarrow> buddy_init s;
     Some (s\<lparr>vk := slab_init (vk s)\<rparr>)
   }"

end
