(* ===== verification/Vm.thy ===== *)
theory Vm
  imports Pmap
begin

text \<open>
  Address spaces of processes: their creation and release (kern/proc.c), the system calls that map pages
  and copy-on-write fork (kern/sysfunc.c), and the page fault handler (kern/trap.c).
\<close>

definition UTEXT :: u32 where "UTEXT = 0x08048000"
definition PFTEMP :: u32 where "PFTEMP = UTEXT - 4096"
definition FEC_WR :: u32 where "FEC_WR = 0x2"

section \<open>Creation and release\<close>

fun copy_entries :: "u32 \<Rightarrow> u32 \<Rightarrow> nat list \<Rightarrow> vm \<Rightarrow> vm" where
  "copy_entries dst src [] s = s"
| "copy_entries dst src (i # is) s = copy_entries dst src is (store (entry dst i) (load s (entry src i)) s)"

definition setup_vm :: "nat \<Rightarrow> vm \<Rightarrow> (u32 \<times> vm) option" where
  "setup_vm m s = do {
     (r, s) \<leftarrow> page_alloc m True s;
     case r of None \<Rightarrow> Some (0, s)
     | Some p \<Rightarrow>
         let pgdir = page2va p;
             s = copy_entries pgdir (kern_pgdir s) [PDINDEX UTOP..<PDENTRIES] s;
             s = store (entry pgdir (PDINDEX (KSTACKTOP - KSTACKSIZE))) 0 s;
             s = store (entry pgdir (PDINDEX UVPT)) (PADDR pgdir OR PTE_P OR PTE_U) s
         in Some (pgdir, s)
   }"

definition proc_setup_vm :: "nat \<Rightarrow> nat \<Rightarrow> vm \<Rightarrow> (int \<times> vm) option" where
  "proc_setup_vm m p s = do {
     (pgdir, s) \<leftarrow> setup_vm m s;
     if pgdir = 0 then Some (- E_NO_MEM, s)
     else Some (0, s\<lparr>proc_pgdir := (proc_pgdir s)(p := pgdir)\<rparr>)
   }"

partial_function (option) region_loop :: "nat \<Rightarrow> u32 \<Rightarrow> u32 \<Rightarrow> u32 \<Rightarrow> u32 \<Rightarrow> vm \<Rightarrow> (int \<times> vm) option" where
  "region_loop m pgdir va_end perm va_t s =
     (if va_t < va_end then do {
        (r, s) \<leftarrow> page_alloc m True s;
        case r of None \<Rightarrow> Some (- E_NO_MEM, s)
        | Some tp \<Rightarrow> do {
            (e, s) \<leftarrow> page_insert m pgdir tp va_t (perm OR PTE_P) s;
            if e \<noteq> 0 then Some (- E_NO_MEM, s) else region_loop m pgdir va_end perm (va_t + 4096) s
          }
      }
      else Some (0, s))"

definition proc_region_alloc :: "nat \<Rightarrow> nat \<Rightarrow> u32 \<Rightarrow> u32 \<Rightarrow> u32 \<Rightarrow> vm \<Rightarrow> (int \<times> vm) option" where
  "proc_region_alloc m p va len perm s =
     region_loop m (proc_pgdir s p) (ROUNDUP (va + len) 4096) perm (ROUNDDOWN va 4096) s"

text \<open>The inner loop of \<^verbatim>\<open>pgdir_free\<close>; an entry outside the installed memory gives the null pointer.\<close>

fun free_ptes :: "u32 \<Rightarrow> nat list \<Rightarrow> vm \<Rightarrow> vm option" where
  "free_ptes ptable [] s = Some s"
| "free_ptes ptable (i # is) s = do {
     let e = load s (entry ptable i);
     s \<leftarrow> (if e AND PTE_P \<noteq> 0 then do {
             p \<leftarrow> pa2page (kb (vk s)) (PTE_ADDR e);
             page_decrease_ref p s
           } else Some s);
     free_ptes ptable is s
   }"

fun free_tables :: "u32 \<Rightarrow> nat list \<Rightarrow> vm \<Rightarrow> vm option" where
  "free_tables pgdir [] s = Some s"
| "free_tables pgdir (i # is) s = do {
     let e = load s (entry pgdir i);
     s \<leftarrow> (if e AND PTE_P = 0 then Some s
           else do {
             let paddr = PTE_ADDR e;
             s \<leftarrow> free_ptes (KADDR paddr) [0..<PDENTRIES] s;
             p \<leftarrow> pa2page (kb (vk s)) paddr;
             s \<leftarrow> page_decrease_ref p s;
             Some (store (entry pgdir i) 0 s)
           });
     free_tables pgdir is s
   }"

definition pgdir_free :: "u32 \<Rightarrow> vm \<Rightarrow> vm option" where
  "pgdir_free pgdir s = free_tables pgdir [0..<PDINDEX UTOP] s"

definition proc_free :: "nat \<Rightarrow> vm \<Rightarrow> vm option" where
  "proc_free p s = pgdir_free (proc_pgdir s p) s"

section \<open>System calls\<close>

definition user_page_alloc :: "nat \<Rightarrow> nat \<Rightarrow> u32 \<Rightarrow> u32 \<Rightarrow> vm \<Rightarrow> (int \<times> vm) option" where
  "user_page_alloc m i va perm s =
     (if UTOP \<le> va \<or> perm AND NOT PTE_SYSCALL \<noteq> 0 then Some (- E_INVAL, s)
      else do {
        (e, d) \<leftarrow> pid2proc i True (vp s);
        if e < 0 then Some (- E_BAD_PROC, s)
        else do {
          p \<leftarrow> d;
          (r, s) \<leftarrow> page_alloc m True s;
          case r of None \<Rightarrow> Some (- E_NO_MEM, s)
          | Some q \<Rightarrow> do {
              (e, s) \<leftarrow> page_insert m (proc_pgdir s p) q va perm s;
              if e < 0 then do { s \<leftarrow> page_decrease_ref q s; Some (- E_NO_MEM, s) } else Some (0, s)
            }
        }
      })"

definition user_page_map :: "nat \<Rightarrow> nat \<Rightarrow> u32 \<Rightarrow> nat \<Rightarrow> u32 \<Rightarrow> u32 \<Rightarrow> vm \<Rightarrow> (int \<times> vm) option" where
  "user_page_map m srcpid srcva dstpid dstva perm s =
     (if UTOP \<le> srcva \<or> srcva mod 4096 \<noteq> 0 then Some (- E_INVAL, s)
      else if UTOP \<le> dstva \<or> dstva mod 4096 \<noteq> 0 then Some (- E_INVAL, s)
      else if perm AND NOT PTE_SYSCALL \<noteq> 0 then Some (- E_INVAL, s)
      else do {
        (e, d) \<leftarrow> pid2proc srcpid True (vp s);
        if e < 0 then Some (- E_BAD_PROC, s)
        else do {
          (e', d') \<leftarrow> pid2proc dstpid True (vp s);
          if e' < 0 then Some (- E_BAD_PROC, s)
          else do {
            ps \<leftarrow> d;
            pd \<leftarrow> d';
            ((pinfo, pte), s) \<leftarrow> page_lookup (proc_pgdir s ps) srcva s;
            case pinfo of None \<Rightarrow> Some (- E_INVAL, s)
            | Some q \<Rightarrow>
                if load s pte AND PTE_W = 0 \<and> perm AND PTE_W \<noteq> 0 then Some (- E_INVAL, s)
                else page_insert m (proc_pgdir s pd) q dstva perm s
          }
        }
      })"

definition user_page_upmap :: "nat \<Rightarrow> u32 \<Rightarrow> vm \<Rightarrow> (int \<times> vm) option" where
  "user_page_upmap i va s =
     (if UTOP \<le> va then Some (- E_INVAL, s)
      else do {
        (e, d) \<leftarrow> pid2proc i True (vp s);
        if e < 0 then Some (- E_BAD_PROC, s)
        else do {
          p \<leftarrow> d;
          s \<leftarrow> page_remove (proc_pgdir s p) va s;
          Some (0, s)
        }
      })"

section \<open>Reads and writes through the page tables\<close>

text \<open>What the processor does with a virtual address: the physical address, or \<^const>\<open>None\<close> for a page
  fault.\<close>

definition translate :: "u32 \<Rightarrow> u32 \<Rightarrow> vm \<Rightarrow> u32 option" where
  "translate pgdir va s =
     (let pde = load s (entry pgdir (PDINDEX va)) in
      if pde AND PTE_P = 0 then None
      else let pte = load s (entry (KADDR (PTE_ADDR pde)) (PTINDEX va)) in
           if pte AND PTE_P = 0 then None else Some (PTE_ADDR pte OR (va AND 0xFFF)))"

definition cur_pgdir :: "vm \<Rightarrow> u32 option" where
  "cur_pgdir s = map_option (proc_pgdir s) (cpu_proc (vp s))"

text \<open>\<^verbatim>\<open>uvpt[pn]\<close> and \<^verbatim>\<open>uvpd[i]\<close> read the page tables of the current process through its own
  address space; \<^verbatim>\<open>uvpd\<close> is \<open>UVPT + (UVPT >> 12) * 4\<close>.\<close>

definition uvpt :: "vm \<Rightarrow> nat \<Rightarrow> u32 option" where
  "uvpt s pn = do { d \<leftarrow> cur_pgdir s; pa \<leftarrow> translate d (UVPT + of_nat (4 * pn)) s; Some (load s (KADDR pa)) }"

definition uvpd :: "vm \<Rightarrow> nat \<Rightarrow> u32 option" where
  "uvpd s i = do {
     d \<leftarrow> cur_pgdir s;
     pa \<leftarrow> translate d (UVPT + drop_bit 12 UVPT * 4 + of_nat (4 * i)) s;
     Some (load s (KADDR pa))
   }"

text \<open>\<^verbatim>\<open>memmove(dst, src, PGSIZE)\<close> on two page-aligned user addresses.\<close>

definition copy_page :: "u32 \<Rightarrow> u32 \<Rightarrow> vm \<Rightarrow> vm option" where
  "copy_page dst src s = do {
     d \<leftarrow> cur_pgdir s;
     pd \<leftarrow> translate d dst s;
     ps \<leftarrow> translate d src s;
     let b = omem (vk s);
     Some (s\<lparr>vk := (vk s)\<lparr>omem := (\<lambda>x. if unat (x - KADDR pd) < PGSIZE then b (x - KADDR pd + KADDR ps) else b x)\<rparr>\<rparr>)
   }"

section \<open>Copy-on-write fork\<close>

definition duppage :: "nat \<Rightarrow> nat \<Rightarrow> nat \<Rightarrow> vm \<Rightarrow> (int \<times> vm) option" where
  "duppage m child pn s = do {
     pt \<leftarrow> uvpt s pn;
     c \<leftarrow> cpu_proc (vp s);
     let cid = pid (proc_of (vp s) c);
     let va = (of_nat (pn * PGSIZE) :: u32);
     if pt AND PTE_SHARE \<noteq> 0 then user_page_map m cid va child va (PTE_SYSCALL AND pt) s
     else do {
       let perm = (if pt AND PTE_W \<noteq> 0 \<or> pt AND PTE_COW \<noteq> 0 then PTE_U OR PTE_P OR PTE_COW else PTE_U OR PTE_P);
       (r, s) \<leftarrow> user_page_map m cid va child va perm s;
       if r < 0 then Some (r, s)
       else if perm AND PTE_COW \<noteq> 0 then do {
         (r, s) \<leftarrow> user_page_map m cid va cid va perm s;
         if r < 0 then Some (r, s) else Some (0, s)
       }
       else Some (0, s)
     }
   }"

fun dup_entries :: "nat \<Rightarrow> nat \<Rightarrow> nat \<Rightarrow> nat list \<Rightarrow> vm \<Rightarrow> (bool \<times> vm) option" where
  "dup_entries m child r [] s = Some (True, s)"
| "dup_entries m child r (j # js) s = do {
     let pn = 1024 * r + j;
     pt \<leftarrow> uvpt s pn;
     if pt AND PTE_P \<noteq> 0 then do {
       (e, s) \<leftarrow> duppage m child pn s;
       if e < 0 then Some (False, s) else dup_entries m child r js s
     }
     else dup_entries m child r js s
   }"

fun dup_tables :: "nat \<Rightarrow> nat \<Rightarrow> nat list \<Rightarrow> vm \<Rightarrow> (bool \<times> vm) option" where
  "dup_tables m child [] s = Some (True, s)"
| "dup_tables m child (r # rs) s = do {
     pd \<leftarrow> uvpd s r;
     if pd AND PTE_P \<noteq> 0 then do {
       (ok, s) \<leftarrow> dup_entries m child r [0..<PDENTRIES] s;
       if \<not> ok then Some (False, s) else dup_tables m child rs s
     }
     else dup_tables m child rs s
   }"

definition cow_fork :: "nat \<Rightarrow> nat \<Rightarrow> vm \<Rightarrow> (int \<times> vm) option" where
  "cow_fork m child s = do {
     (ok, s) \<leftarrow> dup_tables m child [PDINDEX UTEXT..<PDINDEX UTOP] s;
     Some (if ok then int child else - 1, s)
   }"

section \<open>Page faults\<close>

text \<open>The outcome of a fault: the process goes on, or it calls \<^verbatim>\<open>exit\<close>.\<close>

datatype fault_res = FDone | FExit

definition cow_pgfault :: "nat \<Rightarrow> u32 \<Rightarrow> vm \<Rightarrow> (fault_res \<times> vm) option" where
  "cow_pgfault m falt_va s = do {
     c \<leftarrow> cpu_proc (vp s);
     let cid = pid (proc_of (vp s) c);
     let raddr = ROUNDDOWN falt_va 4096;
     (e, s) \<leftarrow> user_page_alloc m cid PFTEMP PTE_USTK s;
     if e < 0 then Some (FExit, s)
     else do {
       s \<leftarrow> copy_page PFTEMP raddr s;
       (e, s) \<leftarrow> user_page_upmap cid raddr s;
       if e < 0 then Some (FExit, s)
       else do {
         (e, s) \<leftarrow> user_page_map m cid PFTEMP cid raddr PTE_USTK s;
         if e < 0 then Some (FExit, s)
         else do {
           (e, s) \<leftarrow> user_page_upmap cid PFTEMP s;
           if e < 0 then Some (FExit, s) else Some (FDone, s)
         }
       }
     }
   }"

text \<open>\<open>trap_err\<close> is the error code of the trap frame, \<open>falt_va\<close> the contents of \<^verbatim>\<open>cr2\<close>.\<close>

definition page_fault_handler :: "nat \<Rightarrow> u32 \<Rightarrow> u32 \<Rightarrow> vm \<Rightarrow> (fault_res \<times> vm) option" where
  "page_fault_handler m trap_err falt_va s = do {
     cow \<leftarrow> (if trap_err AND FEC_WR \<noteq> 0 then do { pt \<leftarrow> uvpt s (PGNUM falt_va); Some (pt AND PTE_COW \<noteq> 0) }
             else Some False);
     if cow then cow_pgfault m falt_va s
     else do {
       c \<leftarrow> cpu_proc (vp s);
       if falt_va < heap_ptr (proc_of (vp s) c) \<and> base_mem_sz (proc_of (vp s) c) \<le> falt_va
       then do {
         (e, s) \<leftarrow> proc_region_alloc m c falt_va (of_nat PGSIZE) PTE_SYSCALL s;
         Some (if e < 0 then FExit else FDone, s)
       }
       else Some (FDone, s)
     }
   }"

end
