(* ===== verification/Pmap_Props.thy ===== *)
theory Pmap_Props
  imports Pmap
begin

text \<open>Page tables as a map from pages to frames: what \<^verbatim>\<open>page_insert\<close> and \<^verbatim>\<open>page_remove\<close> do to it, and the
  access checks.\<close>

section \<open>Words in memory\<close>

lemma bytes_of_word:
  fixes v :: u32
  shows "ucast (ucast v :: u8) OR push_bit 8 (ucast (ucast (drop_bit 8 v) :: u8)) OR
      push_bit 16 (ucast (ucast (drop_bit 16 v) :: u8)) OR push_bit 24 (ucast (ucast (drop_bit 24 v) :: u8)) = v"
proof (rule bit_word_eqI)
  fix n
  assume "n < LENGTH(32)"
  then consider "n < 8" | "8 \<le> n" "n < 16" | "16 \<le> n" "n < 24" | "24 \<le> n" "n < 32" by fastforce
  then show "bit ((ucast (ucast v :: u8) :: u32) OR push_bit 8 (ucast (ucast (drop_bit 8 v) :: u8)) OR
      push_bit 16 (ucast (ucast (drop_bit 16 v) :: u8)) OR push_bit 24 (ucast (ucast (drop_bit 24 v) :: u8))) n = bit v n"
    by cases (auto simp: bit_simps)
qed

lemma rd_wr_same: "rd32 (wr32 a v b) a = v"
  using bytes_of_word [of v] by (simp add: rd32_def wr32_def)

definition bytes4 :: "u32 \<Rightarrow> u32 set" where "bytes4 a = {a, a + 1, a + 2, a + 3}"

lemma wr_other: "x \<notin> bytes4 a \<Longrightarrow> wr32 a v b x = b x"
  by (simp add: wr32_def bytes4_def)

lemma rd_cong: "(\<And>x. x \<in> bytes4 a \<Longrightarrow> b x = c x) \<Longrightarrow> rd32 b a = rd32 c a"
  by (simp add: rd32_def bytes4_def)

lemma rd_wr_other: "bytes4 a \<inter> bytes4 a' = {} \<Longrightarrow> rd32 (wr32 a v b) a' = rd32 b a'"
  by (rule rd_cong) (rule wr_other, blast)

section \<open>Frames and entries\<close>

lemma page2pa_unat: "f < 0x100000 \<Longrightarrow> unat (page2pa f) = 4096 * f"
proof -
  assume "f < 0x100000"
  then have "unat (of_nat (4096 * f) :: u32) = 4096 * f"
    by (simp add: unat_of_nat take_bit_nat_eq_self del: of_nat_mult)
  moreover have "page2pa f = of_nat (4096 * f)" by (simp add: page2pa_def PGSHIFT_def push_bit_eq_mult mult.commute)
  ultimately show ?thesis by simp
qed

lemma page2va_unat: "f < 0x10000 \<Longrightarrow> unat (page2va f) = 0xF0000000 + 4096 * f"
proof -
  assume f: "f < 0x10000"
  have p: "unat (page2pa f) = 4096 * f" using f by (intro page2pa_unat) simp
  have k: "unat KERNBASE = 0xF0000000" by (simp add: KERNBASE_def)
  have "unat (page2pa f) + unat KERNBASE < 2 ^ LENGTH(32)" unfolding p k using f by simp
  then have "unat (page2pa f + KERNBASE) = unat (page2pa f) + unat KERNBASE" by (rule unat_add_lem [THEN iffD1])
  then show ?thesis unfolding page2va_def p k by simp
qed

lemma entry_unat:
  assumes "f < 0x10000" "i < 1024" "k < 4"
  shows "unat (entry (page2va f) i + of_nat k) = 0xF0000000 + 4096 * f + 4 * i + k"
proof -
  have a: "unat (of_nat (4 * i + k) :: u32) = 4 * i + k"
    using assms by (simp add: unat_of_nat take_bit_nat_eq_self del: of_nat_add of_nat_mult)
  have "unat (page2va f) + unat (of_nat (4 * i + k) :: u32) < 2 ^ LENGTH(32)"
    unfolding a page2va_unat [OF assms(1)] using assms by simp
  then have "unat (page2va f + of_nat (4 * i + k)) = unat (page2va f) + unat (of_nat (4 * i + k) :: u32)"
    by (rule unat_add_lem [THEN iffD1])
  then show ?thesis unfolding a page2va_unat [OF assms(1)] by (simp add: entry_def add.assoc)
qed

lemma split_unique: "4096 * f + x = 4096 * g + y \<Longrightarrow> x < 4096 \<Longrightarrow> y < 4096 \<Longrightarrow> f = g \<and> x = (y :: nat)"
  by (cases f g rule: linorder_cases) linarith+

lemma split_unique4: "4 * i + k = 4 * j + l \<Longrightarrow> k < 4 \<Longrightarrow> l < 4 \<Longrightarrow> i = j \<and> k = (l :: nat)"
  by (cases i j rule: linorder_cases) linarith+

lemma entry_byte_inj:
  assumes "f < 0x10000" "g < 0x10000" "i < 1024" "j < 1024" "k < 4" "l < 4"
    "entry (page2va f) i + of_nat k = entry (page2va g) j + of_nat l"
  shows "f = g \<and> i = j"
proof -
  have "unat (entry (page2va f) i + of_nat k) = unat (entry (page2va g) j + of_nat l)" unfolding assms(7) ..
  then have e: "4096 * f + (4 * i + k) = 4096 * g + (4 * j + l)"
    unfolding entry_unat [OF assms(1,3,5)] entry_unat [OF assms(2,4,6)] by linarith
  show ?thesis using split_unique [OF e] split_unique4 [of i k j l] assms by simp
qed

lemma bytes4_nat: "x \<in> bytes4 a \<Longrightarrow> \<exists>k<4. x = a + of_nat k"
  unfolding bytes4_def by (elim insertE emptyE) (rule exI [of _ 0], simp, rule exI [of _ 1], simp,
    rule exI [of _ 2], simp, rule exI [of _ 3], simp)

lemma entry_apart:
  assumes "f < 0x10000" "g < 0x10000" "i < 1024" "j < 1024" "\<not> (f = g \<and> i = j)"
  shows "bytes4 (entry (page2va f) i) \<inter> bytes4 (entry (page2va g) j) = {}"
proof (rule ccontr)
  assume "bytes4 (entry (page2va f) i) \<inter> bytes4 (entry (page2va g) j) \<noteq> {}"
  then obtain x k l where "x = entry (page2va f) i + of_nat k" "x = entry (page2va g) j + of_nat l" "k < 4" "l < 4"
    using bytes4_nat by (metis Int_iff equals0I)
  then show False using entry_byte_inj [OF assms(1-4)] assms(5) by metis
qed

lemma load_store:
  assumes "f < 0x10000" "g < 0x10000" "i < 1024" "j < 1024"
  shows "load (store (entry (page2va f) i) v s) (entry (page2va g) j) =
    (if f = g \<and> i = j then v else load s (entry (page2va g) j))"
proof (cases "f = g \<and> i = j")
  case True
  then show ?thesis by (simp add: load_def store_def rd_wr_same)
next
  case False
  then show ?thesis using rd_wr_other [OF entry_apart [OF assms False]]
    unfolding if_not_P [OF False] by (simp add: load_def store_def)
qed

section \<open>Fields of an entry\<close>

text \<open>Permission bits: the low twelve bits of an entry.\<close>

definition flags_only :: "u32 \<Rightarrow> bool" where "flags_only v \<longleftrightarrow> v AND NOT 0xFFF = 0"

lemma mask12: "(0xFFF :: u32) = mask 12"
  by (simp add: mask_eq_exp_minus_1)

lemma low_bit: "bit (0xFFF :: u32) n \<longleftrightarrow> n < 12"
  unfolding mask12 by (auto simp: bit_mask_iff)

lemma flags_bits: "flags_only v \<Longrightarrow> bit v n \<Longrightarrow> n < 12"
proof (rule ccontr)
  assume v: "flags_only v" "bit v n" "\<not> n < 12"
  then have "bit (v AND NOT 0xFFF) n" using bit_imp_le_length [OF v(2)] unfolding mask12 by (simp add: bit_simps)
  then show False using v(1) by (simp add: flags_only_def)
qed

lemma flags_or: "flags_only v \<Longrightarrow> flags_only w \<Longrightarrow> flags_only (v OR w)"
  by (simp add: flags_only_def bit.conj_disj_distrib2)

lemma pte_addr_page: "PTE_ADDR v = page2pa (PGNUM v)"
  unfolding PTE_ADDR_def page2pa_def PGNUM_def PGSHIFT_def mask12
  by (rule bit_word_eqI) (auto simp: bit_simps not_less)

lemma kaddr_pte: "KADDR (PTE_ADDR v) = page2va (PGNUM v)"
  by (simp add: KADDR_def pte_addr_page page2va_def)

lemma PGNUM_bound: "PGNUM v < 0x100000"
proof -
  have "unat v < 2 ^ 32" using unsigned_less [of v] by simp
  then show ?thesis unfolding PGNUM_def PGSHIFT_def unat_drop_bit_eq by (simp add: drop_bit_eq_div)
qed

lemma PGNUM_page: "f < 0x100000 \<Longrightarrow> PGNUM (page2pa f) = f"
  unfolding PGNUM_def PGSHIFT_def unat_drop_bit_eq by (simp add: drop_bit_eq_div page2pa_unat)

lemma PGNUM_or: "flags_only v \<Longrightarrow> PGNUM (w OR v) = PGNUM w"
proof -
  assume "flags_only v"
  then have "drop_bit 12 (w OR v) = drop_bit 12 w"
    by (intro bit_word_eqI) (auto simp: bit_simps dest: flags_bits)
  then show ?thesis by (simp add: PGNUM_def PGSHIFT_def)
qed

lemma page2pa_low: "page2pa f AND 0xFFF = 0"
  unfolding page2pa_def PGSHIFT_def mask12 by (rule bit_word_eqI) (auto simp: bit_simps)

lemma flags_low: "flags_only v \<Longrightarrow> v AND 0xFFF = v"
  unfolding mask12 by (rule bit_word_eqI) (auto simp: bit_simps dest: flags_bits)

lemma P_flags: "flags_only PTE_P" "flags_only PTE_U" "flags_only PTE_W" "flags_only PTE_COW"
  by (simp_all add: flags_only_def PTE_P_def PTE_U_def PTE_W_def PTE_COW_def)

lemma or_present: "(v OR PTE_P) AND PTE_P \<noteq> 0"
  by (simp add: bit.conj_disj_distrib2 PTE_P_def)

lemma or_keeps_present: "v AND PTE_P \<noteq> 0 \<Longrightarrow> (v OR w) AND PTE_P \<noteq> 0"
  by (simp add: bit.conj_disj_distrib2) (metis or_eq_0_iff)

lemma index_bound: "PDINDEX va < 1024" "PTINDEX va < 1024"
proof -
  have "unat (x AND 0x3ff) < 1024" for x :: u32
  proof -
    have "(0x3ff :: u32) = mask 10" by (simp add: mask_eq_exp_minus_1)
    then have "x AND 0x3ff = take_bit 10 x" by (simp add: take_bit_eq_mask)
    then show ?thesis by (simp add: unsigned_take_bit_eq take_bit_nat_less_exp [of 10, simplified])
  qed
  then show "PDINDEX va < 1024" "PTINDEX va < 1024" by (simp_all add: PDINDEX_def PTINDEX_def)
qed

lemma index_div: "PDINDEX va = unat va div 4096 div 1024" "PTINDEX va = unat va div 4096 mod 1024"
proof -
  have m: "x AND 0x3ff = take_bit 10 x" for x :: u32
    by (simp add: take_bit_eq_mask mask_eq_exp_minus_1)
  have "unat va < 2 ^ 32" using unsigned_less [of va] by simp
  then have "unat va div 4194304 < 1024" by simp
  then show "PDINDEX va = unat va div 4096 div 1024"
    unfolding PDINDEX_def m unsigned_take_bit_eq unat_drop_bit_eq by (simp add: take_bit_eq_mod drop_bit_eq_div div_mult2_eq [symmetric])
  show "PTINDEX va = unat va div 4096 mod 1024"
    unfolding PTINDEX_def m unsigned_take_bit_eq unat_drop_bit_eq by (simp add: take_bit_eq_mod drop_bit_eq_div)
qed

lemma same_page: "PDINDEX va = PDINDEX wa \<and> PTINDEX va = PTINDEX wa \<longleftrightarrow> unat va div 4096 = unat wa div 4096"
  unfolding index_div by (metis div_mult_mod_eq)

section \<open>Address spaces\<close>

text \<open>The entries of the page directory in frame \<open>d\<close>, and the map from user pages to frames and permissions
  that the tables below it represent.\<close>

definition pde :: "vm \<Rightarrow> nat \<Rightarrow> nat \<Rightarrow> u32" where
  "pde s d i = load s (entry (page2va d) i)"

definition table :: "vm \<Rightarrow> nat \<Rightarrow> u32 \<Rightarrow> nat" where
  "table s d va = PGNUM (pde s d (PDINDEX va))"

definition pte :: "vm \<Rightarrow> nat \<Rightarrow> u32 \<Rightarrow> u32" where
  "pte s d va = load s (entry (page2va (table s d va)) (PTINDEX va))"

definition has_table :: "vm \<Rightarrow> nat \<Rightarrow> u32 \<Rightarrow> bool" where
  "has_table s d va \<longleftrightarrow> pde s d (PDINDEX va) AND PTE_P \<noteq> 0"

definition mapping :: "vm \<Rightarrow> nat \<Rightarrow> u32 \<Rightarrow> (nat \<times> u32) option" where
  "mapping s d va = (if has_table s d va \<and> pte s d va AND PTE_P \<noteq> 0
     then Some (PGNUM (pte s d va), pte s d va AND 0xFFF) else None)"

text \<open>A well-formed address space: the directory is a frame that the kernel can reach, and so are the
  tables of user addresses, which are different from the directory and from each other.\<close>

definition space :: "vm \<Rightarrow> nat \<Rightarrow> bool" where
  "space s d \<longleftrightarrow> d < 0x10000 \<and> (\<forall>va<UTOP. has_table s d va \<longrightarrow> table s d va < 0x10000 \<and> table s d va \<noteq> d \<and>
     (\<forall>wa<UTOP. has_table s d wa \<and> table s d wa = table s d va \<longrightarrow> PDINDEX wa = PDINDEX va))"

lemma spaceD:
  assumes "space s d" "va < UTOP" "has_table s d va"
  shows "d < 0x10000" "table s d va < 0x10000" "table s d va \<noteq> d"
    "wa < UTOP \<Longrightarrow> has_table s d wa \<Longrightarrow> table s d wa = table s d va \<Longrightarrow> PDINDEX wa = PDINDEX va"
  using assms unfolding space_def by blast+

lemma entry_nonzero: "f < 0x10000 \<Longrightarrow> i < 1024 \<Longrightarrow> entry (page2va f) i \<noteq> 0"
  using entry_unat [of f i 0] by (cases "entry (page2va f) i = 0") simp_all

text \<open>Writing the entry of a page into its table.\<close>

lemma pde_store_pte:
  assumes "space s d" "va < UTOP" "has_table s d va"
  shows "i < 1024 \<Longrightarrow> pde (store (entry (page2va (table s d va)) (PTINDEX va)) v s) d i = pde s d i"
  using spaceD(1-3) [OF assms] index_bound load_store by (simp add: pde_def)

lemma store_pte_shape:
  fixes v :: u32
  assumes "space s d" "va < UTOP" "has_table s d va"
  defines "s' \<equiv> store (entry (page2va (table s d va)) (PTINDEX va)) v s"
  shows "has_table s' d wa = has_table s d wa" "table s' d wa = table s d wa"
  using pde_store_pte [OF assms(1-3) index_bound(1)] by (simp_all add: has_table_def table_def s'_def)

lemma store_pte_map:
  fixes v :: u32
  assumes sp: "space s d" "va < UTOP" "has_table s d va"
  defines "s' \<equiv> store (entry (page2va (table s d va)) (PTINDEX va)) v s"
  shows "space s' d" "pte s' d va = v"
    "wa < UTOP \<Longrightarrow> unat wa div 4096 \<noteq> unat va div 4096 \<Longrightarrow> has_table s d wa \<Longrightarrow> pte s' d wa = pte s d wa"
proof -
  note sh = store_pte_shape [OF sp, where v = v, folded s'_def]
  show "space s' d" using sp(1) unfolding space_def sh .
  show "pte s' d va = v" using spaceD(1-3) [OF sp] index_bound sh by (simp add: pte_def s'_def load_store)
  assume wa: "wa < UTOP" "unat wa div 4096 \<noteq> unat va div 4096" "has_table s d wa"
  have ne: "\<not> (table s d va = table s d wa \<and> PTINDEX va = PTINDEX wa)"
    using spaceD(4) [OF sp wa(1,3)] wa(2) same_page [of wa va] by auto
  show "pte s' d wa = pte s d wa"
    using load_store [OF spaceD(2) [OF sp] spaceD(2) [OF sp(1) wa(1,3)] index_bound(2) index_bound(2), of va v s wa]
    unfolding pte_def sh(2) if_not_P [OF ne] unfolding s'_def .
qed

text \<open>Adding permissions to an entry of the directory.\<close>

lemma or_pde_map:
  assumes sp: "space s d" "va < UTOP" "has_table s d va" and fl: "flags_only w"
  defines "s' \<equiv> or_entry (entry (page2va d) (PDINDEX va)) w s"
  shows "space s' d" "wa < UTOP \<Longrightarrow> mapping s' d wa = mapping s d wa" "has_table s' d ua = has_table s d ua" "table s' d ua = table s d ua"
proof -
  have d: "d < 0x10000" by (rule spaceD(1) [OF sp])
  have e: "pde s' d (PDINDEX wa) = (if PDINDEX va = PDINDEX wa then pde s d (PDINDEX wa) OR w else pde s d (PDINDEX wa))" for wa
    using d index_bound by (simp add: pde_def s'_def or_entry_def load_store)
  have sh: "has_table s' d wa = has_table s d wa" "table s' d wa = table s d wa" for wa
    using e [of wa] sp(3) or_keeps_present [of "pde s d (PDINDEX wa)" w] PGNUM_or [OF fl]
    by (auto simp: has_table_def table_def)
  show "space s' d" using sp(1) unfolding space_def sh .
  show "has_table s' d ua = has_table s d ua" "table s' d ua = table s d ua" by (rule sh)+
  assume wa: "wa < UTOP"
  have "has_table s d wa \<Longrightarrow> pte s' d wa = pte s d wa"
    using spaceD(2,3) [OF sp(1) wa] d index_bound sh by (simp add: pte_def s'_def or_entry_def load_store)
  then show "mapping s' d wa = mapping s d wa" unfolding mapping_def sh by auto
qed

lemma set_entry_map:
  fixes v :: u32
  assumes sp: "space s d" "va < UTOP" "has_table s d va" and fl: "flags_only w"
  defines "s' \<equiv> or_entry (entry (page2va d) (PDINDEX va)) w (store (entry (page2va (table s d va)) (PTINDEX va)) v s)"
  shows "space s' d" "mapping s' d va = (if v AND PTE_P \<noteq> 0 then Some (PGNUM v, v AND 0xFFF) else None)"
    "wa < UTOP \<Longrightarrow> unat wa div 4096 \<noteq> unat va div 4096 \<Longrightarrow> mapping s' d wa = mapping s d wa"
proof -
  let ?t = "store (entry (page2va (table s d va)) (PTINDEX va)) v s"
  note sh = store_pte_shape [OF sp, where v = v] and mp = store_pte_map [OF sp, where v = v]
  have "has_table ?t d va" using sp(3) sh by simp
  note o = or_pde_map [OF mp(1) sp(2) this fl]
  show "space s' d" unfolding s'_def by (rule o(1))
  show "mapping s' d va = (if v AND PTE_P \<noteq> 0 then Some (PGNUM v, v AND 0xFFF) else None)"
    unfolding s'_def o(2) [OF sp(2)] using mp(2) sh sp(3) by (simp add: mapping_def)
  assume wa: "wa < UTOP" "unat wa div 4096 \<noteq> unat va div 4096"
  have "mapping ?t d wa = mapping s d wa" unfolding mapping_def sh using mp(3) [OF wa] by auto
  then show "mapping s' d wa = mapping s d wa" unfolding s'_def o(2) [OF wa(1)] .
qed

lemma ent_frame [simp]:
  "load (upd_kb f s) a = load s a" "load (tlb_invalidate pgdir va s) a = load s a"
  "page_ref (store a v s) = page_ref s" "page_ref (or_entry a v s) = page_ref s"
  "page_ref (tlb_invalidate pgdir va s) = page_ref s" "page_ref (upd_kb (set_ref p r) s) = (page_ref s)(p := r)"
  "npages_num (kb (vk (store a v s))) = npages_num (kb (vk s))" "npages_num (kb (vk (upd_kb (set_ref p r) s))) = npages_num (kb (vk s))"
  by (auto simp: load_def upd_kb_def tlb_invalidate_def store_def or_entry_def set_ref_def split: option.split)

lemma map_frame [simp]:
  "mapping (upd_kb f s) d va = mapping s d va" "mapping (tlb_invalidate pgdir wa s) d va = mapping s d va"
  "space (upd_kb f s) d = space s d" "space (tlb_invalidate pgdir wa s) d = space s d"
  "has_table (upd_kb f s) d va = has_table s d va" "table (upd_kb f s) d va = table s d va" "pte (upd_kb f s) d va = pte s d va"
  "has_table (tlb_invalidate pgdir wa s) d va = has_table s d va" "table (tlb_invalidate pgdir wa s) d va = table s d va"
  "pte (tlb_invalidate pgdir wa s) d va = pte s d va"
  by (simp_all only: mapping_def space_def has_table_def table_def pte_def pde_def ent_frame)

lemma walk_present:
  "has_table s d va \<Longrightarrow> pgdir_walk m (page2va d) va create s = Some (entry (page2va (table s d va)) (PTINDEX va), s)"
  by (simp add: pgdir_walk_def Let_def has_table_def table_def pde_def kaddr_pte)

lemma lookup_present:
  assumes "space s d" "va < UTOP" "has_table s d va"
  shows "page_lookup (page2va d) va s =
    Some ((if npages_num (kb (vk s)) \<le> PGNUM (pte s d va) then None else Some (PGNUM (pte s d va)),
      entry (page2va (table s d va)) (PTINDEX va)), s)"
  using walk_present [OF assms(3)] entry_nonzero spaceD(2) [OF assms] index_bound(2)
  by (simp add: page_lookup_def pte_def pa2page_def pte_addr_page PGNUM_page [OF PGNUM_bound])

section \<open>Inserting and removing pages\<close>

text \<open>A reference is dropped without releasing the frame.\<close>

lemma decrease_ref_shared: "page_ref s p \<noteq> 1 \<Longrightarrow> page_decrease_ref p s = Some (upd_kb (set_ref p (page_ref s p - 1)) s)"
  by (simp add: page_decrease_ref_def Let_def)

lemma page_remove_shared:
  assumes sp: "space s d" "va < UTOP" "has_table s d va"
    and q: "q = PGNUM (pte s d va)" "q < npages_num (kb (vk s))" "page_ref s q \<noteq> 1"
  shows "page_remove (page2va d) va s = Some (tlb_invalidate (page2va d) va
    (store (entry (page2va (table s d va)) (PTINDEX va)) 0 (upd_kb (set_ref q (page_ref s q - 1)) s)))"
  using lookup_present [OF sp] q decrease_ref_shared [OF q(3)] by (simp add: page_remove_def)

text \<open>The state that \<^verbatim>\<open>page_insert\<close> leaves when the entry is written into a table that exists.\<close>

definition put_entry :: "nat \<Rightarrow> u32 \<Rightarrow> nat \<Rightarrow> u32 \<Rightarrow> vm \<Rightarrow> vm" where
  "put_entry d va pp perm s = or_entry (entry (page2va d) (PDINDEX va)) perm
     (store (entry (page2va (table s d va)) (PTINDEX va)) (page2pa pp OR perm OR PTE_P) s)"

lemma put_entry_map:
  assumes sp: "space s d" "va < UTOP" "has_table s d va" and fl: "flags_only perm" "pp < 0x100000"
  shows "space (put_entry d va pp perm s) d" "mapping (put_entry d va pp perm s) d va = Some (pp, perm OR PTE_P)"
    "wa < UTOP \<Longrightarrow> unat wa div 4096 \<noteq> unat va div 4096 \<Longrightarrow> mapping (put_entry d va pp perm s) d wa = mapping s d wa"
    "page_ref (put_entry d va pp perm s) = page_ref s"
proof -
  have f: "flags_only (perm OR PTE_P)" by (rule flags_or [OF fl(1) P_flags(1)])
  have n: "PGNUM (page2pa pp OR perm OR PTE_P) = pp" "(page2pa pp OR perm OR PTE_P) AND PTE_P \<noteq> 0"
    "(page2pa pp OR perm OR PTE_P) AND 0xFFF = perm OR PTE_P"
    using PGNUM_or [OF f, of "page2pa pp"] PGNUM_page [OF fl(2)] or_present [of "page2pa pp OR perm"]
      page2pa_low [of pp] flags_low [OF f] by (simp_all add: or.assoc bit.conj_disj_distrib2)
  note m = set_entry_map [OF sp fl(1), where v = "page2pa pp OR perm OR PTE_P", folded put_entry_def]
  show "space (put_entry d va pp perm s) d" by (rule m(1))
  show "mapping (put_entry d va pp perm s) d va = Some (pp, perm OR PTE_P)" unfolding m(2) if_P [OF n(2)] n(1,3) ..
  show "wa < UTOP \<Longrightarrow> unat wa div 4096 \<noteq> unat va div 4096 \<Longrightarrow> mapping (put_entry d va pp perm s) d wa = mapping s d wa"
    by (rule m(3))
  show "page_ref (put_entry d va pp perm s) = page_ref s" by (simp add: put_entry_def)
qed

lemma put_entry_shape:
  assumes sp: "space s d" "va < UTOP" "has_table s d va" and fl: "flags_only perm"
  shows "has_table (put_entry d va pp perm s) d wa = has_table s d wa" "table (put_entry d va pp perm s) d wa = table s d wa"
proof -
  let ?v = "page2pa pp OR perm OR PTE_P"
  let ?t = "store (entry (page2va (table s d va)) (PTINDEX va)) ?v s"
  note sh = store_pte_shape [OF sp, where v = ?v]
  have "has_table ?t d va" using sp(3) sh by simp
  note o = or_pde_map [OF store_pte_map(1) [OF sp] sp(2) this fl]
  show "has_table (put_entry d va pp perm s) d wa = has_table s d wa" "table (put_entry d va pp perm s) d wa = table s d wa"
    unfolding put_entry_def o(3,4) by (rule sh)+
qed

text \<open>The three ways through \<^verbatim>\<open>page_insert\<close> when the table exists.\<close>

lemma mapping_pte: "mapping s d va = Some (q, fl) \<Longrightarrow> has_table s d va \<and> pte s d va AND PTE_P \<noteq> 0 \<and> PGNUM (pte s d va) = q"
  by (auto simp: mapping_def split: if_splits)

lemma insert_walk:
  assumes sp: "space s d" "va < UTOP" "has_table s d va"
  shows "page_insert m (page2va d) pp va perm s =
    (if pte s d va AND PTE_P \<noteq> 0 \<and> page2pa (PGNUM (pte s d va)) = page2pa pp
     then Some (0, tlb_invalidate (page2va d) va (put_entry d va pp perm s))
     else do {
       s1 \<leftarrow> (if pte s d va AND PTE_P \<noteq> 0 then page_remove (page2va d) va s else Some s);
       let s2 = or_entry (entry (page2va d) (PDINDEX va)) perm
         (store (entry (page2va (table s d va)) (PTINDEX va)) (page2pa pp OR perm OR PTE_P) s1);
       Some (0, tlb_invalidate (page2va d) va (upd_kb (set_ref pp (page_ref s2 pp + 1)) s2))
     })"
  using walk_present [OF sp(3), of m True] entry_nonzero [OF spaceD(2) [OF sp] index_bound(2)]
  by (simp add: page_insert_def Let_def pte_def pte_addr_page put_entry_def)

lemma insert_new:
  assumes sp: "space s d" "va < UTOP" "has_table s d va" and none: "mapping s d va = None"
  shows "page_insert m (page2va d) pp va perm s =
    Some (0, tlb_invalidate (page2va d) va (upd_kb (set_ref pp (page_ref s pp + 1)) (put_entry d va pp perm s)))"
  using none sp(3) unfolding insert_walk [OF sp] by (simp add: mapping_def put_entry_def split: if_splits)

lemma insert_same:
  assumes sp: "space s d" "va < UTOP" and old: "mapping s d va = Some (pp, fl)"
  shows "page_insert m (page2va d) pp va perm s = Some (0, tlb_invalidate (page2va d) va (put_entry d va pp perm s))"
  using mapping_pte [OF old] insert_walk [OF sp] by simp

text \<open>\<open>unmap d va q s\<close>: page \<open>va\<close> no longer refers to frame \<open>q\<close>, whose count drops by one.\<close>

definition unmap :: "nat \<Rightarrow> u32 \<Rightarrow> nat \<Rightarrow> vm \<Rightarrow> vm" where
  "unmap d va q s = tlb_invalidate (page2va d) va
     (store (entry (page2va (table s d va)) (PTINDEX va)) 0 (upd_kb (set_ref q (page_ref s q - 1)) s))"

lemma unmap_map:
  assumes sp: "space s d" "va < UTOP" "has_table s d va"
  shows "space (unmap d va q s) d" "has_table (unmap d va q s) d wa = has_table s d wa" "table (unmap d va q s) d wa = table s d wa"
    "mapping (unmap d va q s) d va = None" "page_ref (unmap d va q s) = (page_ref s)(q := page_ref s q - 1)"
    "wa < UTOP \<Longrightarrow> unat wa div 4096 \<noteq> unat va div 4096 \<Longrightarrow> mapping (unmap d va q s) d wa = mapping s d wa"
proof -
  let ?s = "upd_kb (set_ref q (page_ref s q - 1)) s"
  have s: "space ?s d" "has_table ?s d va" "table ?s d va = table s d va" using sp by simp_all
  note sh = store_pte_shape [OF s(1) sp(2) s(2), where v = 0, unfolded s(3)]
    and mp = store_pte_map [OF s(1) sp(2) s(2), where v = 0, unfolded s(3)]
  show "space (unmap d va q s) d" using mp(1) by (simp add: unmap_def)
  show h: "has_table (unmap d va q s) d wa = has_table s d wa" "table (unmap d va q s) d wa = table s d wa" for wa
    using sh by (simp_all add: unmap_def)
  show "mapping (unmap d va q s) d va = None" using mp(2) by (simp add: unmap_def mapping_def)
  show "page_ref (unmap d va q s) = (page_ref s)(q := page_ref s q - 1)" by (rule ext) (simp add: unmap_def)
  assume wa: "wa < UTOP" "unat wa div 4096 \<noteq> unat va div 4096"
  have "has_table s d wa \<Longrightarrow> pte (unmap d va q s) d wa = pte s d wa" using mp(3) [OF wa] by (simp add: unmap_def)
  then show "mapping (unmap d va q s) d wa = mapping s d wa" unfolding mapping_def h by auto
qed

lemma insert_replace:
  assumes sp: "space s d" "va < UTOP" and old: "mapping s d va = Some (q, fl)" "q \<noteq> pp" "pp < 0x100000"
    and q: "q < npages_num (kb (vk s))" "page_ref s q \<noteq> 1"
  shows "page_insert m (page2va d) pp va perm s =
    Some (0, tlb_invalidate (page2va d) va (upd_kb (set_ref pp (page_ref s pp + 1)) (put_entry d va pp perm (unmap d va q s))))"
proof -
  note o = mapping_pte [OF old(1)]
  have ne: "page2pa (PGNUM (pte s d va)) \<noteq> page2pa pp"
    using o old(2,3) PGNUM_page PGNUM_bound by metis
  have r: "page_remove (page2va d) va s = Some (unmap d va q s)"
    using page_remove_shared [OF sp _ _ q] o by (simp add: unmap_def)
  have t: "table (unmap d va q s) d va = table s d va" using unmap_map(3) [OF sp] o by simp
  have "page_ref (unmap d va q s) pp = page_ref s pp" using unmap_map(5) [OF sp] o old(2) by simp
  then show ?thesis using o ne r insert_walk [OF sp] t by (simp add: put_entry_def)
qed

section \<open>Access checks\<close>

definition page_allows :: "vm \<Rightarrow> u32 \<Rightarrow> u32 \<Rightarrow> nat \<Rightarrow> bool" where
  "page_allows s pgdir perm n \<longleftrightarrow>
     (let va = of_nat (4096 * n); e = load s (entry pgdir (PDINDEX va))
      in e AND perm \<noteq> 0 \<and> load s (entry (KADDR (PTE_ADDR e)) (PTINDEX va)) AND perm \<noteq> 0)"

lemma page_word_less: "a < 0x100000 \<Longrightarrow> b < 0x100000 \<Longrightarrow> (of_nat (4096 * a) :: u32) < of_nat (4096 * b) \<longleftrightarrow> a < b"
  by (simp add: word_less_nat_alt unat_of_nat take_bit_nat_eq_self del: of_nat_mult)

lemma check_pages_scan:
  "n \<le> e \<Longrightarrow> e < 0x100000 \<Longrightarrow> \<exists>k. check_pages s pgdir perm (of_nat (4096 * e)) (of_nat (4096 * n)) = Some (of_nat (4096 * k)) \<and>
    n \<le> k \<and> k \<le> e \<and> (\<forall>i. n \<le> i \<and> i < k \<longrightarrow> page_allows s pgdir perm i) \<and> (k < e \<longrightarrow> \<not> page_allows s pgdir perm k)"
proof (induction "e - n" arbitrary: n)
  case 0
  then show ?case by (subst check_pages.simps) (intro exI [of _ n], auto)
next
  case (Suc r)
  have lt: "(of_nat (4096 * n) :: u32) < of_nat (4096 * e)" using Suc.prems Suc.hyps(2) by (subst page_word_less) simp_all
  show ?case
  proof (cases "page_allows s pgdir perm n")
    case False
    then have "check_pages s pgdir perm (of_nat (4096 * e)) (of_nat (4096 * n)) = Some (of_nat (4096 * n))"
      using lt by (subst check_pages.simps) (auto simp: page_allows_def Let_def simp del: of_nat_mult)
    then show ?thesis using False Suc.prems(1) by (intro exI [of _ n]) auto
  next
    case True
    have "(of_nat (4096 * n) + 4096 :: u32) = of_nat (4096 * Suc n)" by simp
    then have step: "check_pages s pgdir perm (of_nat (4096 * e)) (of_nat (4096 * n)) =
        check_pages s pgdir perm (of_nat (4096 * e)) (of_nat (4096 * Suc n))"
      using True lt by (subst check_pages.simps) (simp add: page_allows_def Let_def add.commute del: of_nat_mult)
    have r: "r = e - Suc n" "Suc n \<le> e" using Suc.hyps(2) by simp_all
    obtain k where k: "check_pages s pgdir perm (of_nat (4096 * e)) (of_nat (4096 * Suc n)) = Some (of_nat (4096 * k))"
      "Suc n \<le> k" "k \<le> e" "\<forall>i. Suc n \<le> i \<and> i < k \<longrightarrow> page_allows s pgdir perm i" "k < e \<longrightarrow> \<not> page_allows s pgdir perm k"
      using Suc.hyps(1) [OF r Suc.prems(2)] by blast
    have "page_allows s pgdir perm i" if "n \<le> i" "i < k" for i using that k(4) True by (cases "i = n") auto
    then show ?thesis using k step by (intro exI [of _ k]) simp
  qed
qed

lemma rounddown_page: "ROUNDDOWN a 4096 = of_nat (4096 * (unat a div 4096))"
proof -
  have "unat (ROUNDDOWN a 4096) = unat a - unat a mod 4096"
    by (simp add: ROUNDDOWN_def unat_sub word_le_nat_alt unat_mod_distrib)
  also have "\<dots> = 4096 * (unat a div 4096)" by (simp add: minus_mod_eq_mult_div)
  finally have "of_nat (unat (ROUNDDOWN a 4096)) = (of_nat (4096 * (unat a div 4096)) :: u32)" by simp
  then show ?thesis by simp
qed

lemma roundup_page: "unat a + 4095 < 2 ^ 32 \<Longrightarrow> ROUNDUP a 4096 = of_nat (4096 * ((unat a + 4095) div 4096))"
proof -
  assume a: "unat a + 4095 < 2 ^ 32"
  have "unat (a + 4096 - 1) = unat a + 4095"
  proof -
    have "a + 4096 - 1 = a + 4095" by (simp add: add.commute)
    moreover have "unat (a + 4095) = unat a + unat (4095 :: u32)"
      using a by (intro unat_add_lem [THEN iffD1]) simp
    ultimately show ?thesis by (simp only:) simp
  qed
  then show ?thesis unfolding ROUNDUP_def rounddown_page by simp
qed

lemma user_mem_check_run:
  assumes "unat va + unat len < unat ULIM"
  shows "\<exists>k s'. user_mem_check p va len perm s = Some (if k < (unat va + unat len + 4095) div 4096 then - E_FAULT else 0, s') \<and>
    (k < (unat va + unat len + 4095) div 4096 \<longrightarrow> \<not> page_allows s (proc_pgdir s p) perm k) \<and> unat va div 4096 \<le> k \<and>
    (\<forall>i. unat va div 4096 \<le> i \<and> i < k \<longrightarrow> page_allows s (proc_pgdir s p) perm i) \<and>
    k \<le> (unat va + unat len + 4095) div 4096"
proof -
  have ulim: "unat ULIM = 0xEF400000" by (simp add: ULIM_def)
  have sum: "unat (va + len) = unat va + unat len" using assms ulim by (intro unat_add_lem [THEN iffD1]) simp
  let ?n = "unat va div 4096" and ?e = "(unat va + unat len + 4095) div 4096"
  have r: "ROUNDUP (va + len) 4096 = of_nat (4096 * ?e)" using roundup_page [of "va + len"] sum assms ulim by simp
  have b: "?n \<le> ?e" "?e < 0x100000"
    using assms ulim by (simp_all add: div_le_mono less_mult_imp_div_less)
  obtain k where k: "check_pages s (proc_pgdir s p) perm (of_nat (4096 * ?e)) (of_nat (4096 * ?n)) = Some (of_nat (4096 * k))"
    "?n \<le> k" "k \<le> ?e" "\<forall>i. ?n \<le> i \<and> i < k \<longrightarrow> page_allows s (proc_pgdir s p) perm i"
    "k < ?e \<longrightarrow> \<not> page_allows s (proc_pgdir s p) perm k"
    using check_pages_scan [OF b] by blast
  have lt: "(of_nat (4096 * k) :: u32) < of_nat (4096 * ?e) \<longleftrightarrow> k < ?e" using k(3) b(2) by (intro page_word_less) simp_all
  have "\<not> ULIM \<le> va" "\<not> ULIM \<le> va + len" using assms ulim sum by (simp_all add: word_le_nat_alt)
  then have "\<exists>s'. user_mem_check p va len perm s = Some (if k < ?e then - E_FAULT else 0, s')"
    using k(1) lt by (simp add: user_mem_check_def Let_def rounddown_page r del: of_nat_mult)
  then show ?thesis using k(2-5) by blast
qed

section \<open>Properties\<close>

text \<open>A small machine: process 1 has its directory in frame 1 and the table of the pages from \<open>0x400000\<close> on in
  frame 2, where page \<open>0x400000\<close> is mapped to frame 5, readable and writable; the directory of its child,
  process 2, is in frame 3, with an empty table in frame 4.\<close>

definition zero_vm :: vm where
  "zero_vm = \<lparr>vk = \<lparr>kb = \<lparr>lh = \<lparr>lnext = (\<lambda>_. None), lprev = (\<lambda>_. None)\<rparr>, pflag = (\<lambda>_. 0),
       p_private = (\<lambda>_. 0), p_ref = (\<lambda>_. 1), pmem = (\<lambda>_ _. 0),
       zone_of = (\<lambda>_. \<lparr>z_free_pages = 0, z_pages_low = 0, z_pages_reserved = 0, z_nr_free = (\<lambda>_. 0),
         z_pageset = (\<lambda>_. boot_pageset), z_locked = False, zone_first_page = 0\<rparr>),
       npages_num = 16, wakeups = []\<rparr>,
     sl = \<lparr>lnext = (\<lambda>_. None), lprev = (\<lambda>_. None)\<rparr>,
     slabs = (\<lambda>_. \<lparr>first_obj_mem = 0, n_inuse = 0, sfree = 0, objs_desc_array = (\<lambda>_. 0)\<rparr>),
     caches = (\<lambda>_. \<lparr>free_objects = 0, obj_size = 0, n_objs_per_slab = 0, n_pages_per_slab = 1, gfp_flags = 0, kc_locked = False\<rparr>),
     omem = (\<lambda>_. 0)\<rparr>,
     vp = \<lparr>ph = \<lparr>lnext = (\<lambda>_. None), lprev = (\<lambda>_. None)\<rparr>, proc_of = (\<lambda>p. zero_proc\<lparr>pid := p, ppid := 1\<rparr>), q_nprocs = (\<lambda>_. 0),
       q_bitmap = (\<lambda>_. 0), run_queue = 0, exhausted_queue = 1, cpu_proc = Some 1, jiffs = 0, id_bitmap = (\<lambda>_. 0),
       proc_table = Some, n_procs_alive = 2, rootproc = 1\<rparr>,
     proc_pgdir = (\<lambda>p. page2va (2 * p - 1)), kern_pgdir = 0, boot_next_free = 0, npages_base_num = 0,
     user_mem_check_addr = 0, tlb = []\<rparr>"

definition tiny_vm :: vm where
  "tiny_vm = store (entry (page2va 1) 1) 0x2007 (store (entry (page2va 2) 0) 0x5007 (store (entry (page2va 3) 1) 0x4007
     (store (entry (page2va 1) (PDINDEX UVPT)) 0x1005 zero_vm)))"

lemma load_zero: "load zero_vm a = 0"
  by (simp add: load_def rd32_def zero_vm_def)

lemma tiny_load:
  assumes "f < 0x10000" "i < 1024"
  shows "load tiny_vm (entry (page2va f) i) = (if f = 1 \<and> i = 1 then 0x2007 else if f = 2 \<and> i = 0 then 0x5007
    else if f = 3 \<and> i = 1 then 0x4007 else if f = 1 \<and> i = PDINDEX UVPT then 0x1005 else 0)"
  using assms index_bound by (simp add: tiny_vm_def load_store load_zero eq_commute [of _ f] eq_commute [of _ i])

lemma tiny_index: "va < UTOP \<Longrightarrow> PDINDEX va \<noteq> PDINDEX UVPT"
  by (simp add: index_div word_less_nat_alt UTOP_def UVPT_def)

lemma tiny_pde: "va < UTOP \<Longrightarrow> pde tiny_vm 1 (PDINDEX va) = (if PDINDEX va = 1 then 0x2007 else 0)"
  "va < UTOP \<Longrightarrow> pde tiny_vm 3 (PDINDEX va) = (if PDINDEX va = 1 then 0x4007 else 0)"
  using tiny_index [of va] index_bound(1) [of va] by (simp_all add: pde_def tiny_load)

lemma tiny_num: "PGNUM 0x2007 = 2" "PGNUM 0x4007 = 4"
  by (simp_all add: PGNUM_def PGSHIFT_def)

lemma tiny_space: "space tiny_vm 1" "space tiny_vm 3"
  by (auto simp: space_def has_table_def table_def tiny_pde tiny_num simp del: One_nat_def split: if_splits)

lemma tiny_mapping: "mapping tiny_vm 1 0x400000 = Some (5, 0x007)" "mapping tiny_vm 3 0x400000 = None"
  "has_table tiny_vm 1 0x400000" "has_table tiny_vm 3 0x400000" "pte tiny_vm 3 0x400000 = 0" "pte tiny_vm 1 0x400000 = 0x5007"
proof -
  have i: "PDINDEX 0x400000 = 1" "PTINDEX 0x400000 = 0" "(0x400000 :: u32) < UTOP"
    by (simp_all add: PDINDEX_def PTINDEX_def UTOP_def)
  have t: "pde tiny_vm 1 1 = 0x2007" "pde tiny_vm 3 1 = 0x4007" using tiny_pde [OF i(3)] i by simp_all
  show h: "has_table tiny_vm 1 0x400000" "has_table tiny_vm 3 0x400000" using i t by (simp_all add: has_table_def PTE_P_def)
  have "table tiny_vm 1 0x400000 = 2" "table tiny_vm 3 0x400000 = 4" using i t by (simp_all add: table_def PGNUM_def PGSHIFT_def)
  then show p: "pte tiny_vm 3 0x400000 = 0" "pte tiny_vm 1 0x400000 = 0x5007" using i by (simp_all add: pte_def tiny_load)
  show "mapping tiny_vm 1 0x400000 = Some (5, 0x007)" "mapping tiny_vm 3 0x400000 = None"
    using h p by (simp_all add: mapping_def PTE_P_def PGNUM_def PGSHIFT_def)
qed

text \<open>C14: \<^verbatim>\<open>page_insert\<close> refines the update of a map.  When the page table exists and no frame loses its last
  reference, it succeeds; the page is mapped to the given frame with the given permissions, every other user
  page keeps its frame and its permissions, the address space stays well-formed, and the reference counts follow
  the mappings: the frame gains one unless the page was mapped to it already, and the frame that was mapped
  there before loses one.\<close>

theorem page_insert_updates_map:
  assumes "space s d" "va < UTOP" "has_table s d va" "flags_only perm" "pp < 0x100000"
    "\<And>q fl. mapping s d va = Some (q, fl) \<Longrightarrow> q \<noteq> pp \<Longrightarrow> q < npages_num (kb (vk s)) \<and> page_ref s q \<noteq> 1"
  shows "\<exists>s'. page_insert m (page2va d) pp va perm s = Some (0, s') \<and> space s' d \<and>
    mapping s' d va = Some (pp, perm OR PTE_P) \<and>
    (\<forall>wa<UTOP. unat wa div 4096 \<noteq> unat va div 4096 \<longrightarrow> mapping s' d wa = mapping s d wa) \<and>
    page_ref s' = (case mapping s d va of None \<Rightarrow> (page_ref s)(pp := page_ref s pp + 1)
      | Some (q, fl) \<Rightarrow> if q = pp then page_ref s else (page_ref s)(q := page_ref s q - 1, pp := page_ref s pp + 1))"
proof (cases "mapping s d va")
  case None
  show ?thesis
    unfolding insert_new [OF assms(1-3) None] using put_entry_map [OF assms(1-5)] None by simp
next
  case (Some x)
  obtain q fl where x: "mapping s d va = Some (q, fl)" using Some by (cases x) simp
  show ?thesis
  proof (cases "q = pp")
    case True
    then show ?thesis
      unfolding insert_same [OF assms(1,2) x [unfolded True]] using put_entry_map [OF assms(1-5)] x by simp
  next
    case False
    let ?u = "unmap d va q s"
    note q = assms(6) [OF x False] and u = unmap_map [OF assms(1-3), where q = q]
    have "has_table ?u d va" using u(2) assms(3) by simp
    note p = put_entry_map [OF u(1) assms(2) this assms(4,5)]
    show ?thesis
      unfolding insert_replace [OF assms(1,2) x False assms(5) conjunct1 [OF q] conjunct2 [OF q]]
      using p u(5,6) x False by (simp add: fun_upd_twist)
  qed
qed

theorem page_insert_updates_map_witness:
  "\<exists>s'. page_insert 0 (page2va 3) 5 0x400000 (PTE_U OR PTE_P) tiny_vm = Some (0, s') \<and> mapping s' 3 0x400000 = Some (5, PTE_U OR PTE_P OR PTE_P)"
  using page_insert_updates_map [OF tiny_space(2) _ tiny_mapping(4) flags_or [OF P_flags(2,1)], of 5 0] tiny_mapping(2)
  by (auto simp: UTOP_def or.assoc)

text \<open>C15: \<^verbatim>\<open>user_mem_check\<close> accepts a region below \<open>ULIM\<close> exactly if every page that it touches has one of
  the requested permissions in its directory entry and in its table entry, and otherwise returns
  \<open>-E_FAULT\<close>; the loop over the pages ends.\<close>

theorem user_mem_check_correct:
  assumes "unat va + unat len < unat ULIM"
  shows "\<exists>s'. user_mem_check p va len perm s = Some (if \<forall>i. unat va div 4096 \<le> i \<and> i < (unat va + unat len + 4095) div 4096
      \<longrightarrow> page_allows s (proc_pgdir s p) perm i then 0 else - E_FAULT, s')"
proof -
  obtain k s' where k: "user_mem_check p va len perm s = Some (if k < (unat va + unat len + 4095) div 4096 then - E_FAULT else 0, s')"
    "k < (unat va + unat len + 4095) div 4096 \<longrightarrow> \<not> page_allows s (proc_pgdir s p) perm k" "unat va div 4096 \<le> k"
    "\<forall>i. unat va div 4096 \<le> i \<and> i < k \<longrightarrow> page_allows s (proc_pgdir s p) perm i" "k \<le> (unat va + unat len + 4095) div 4096"
    using user_mem_check_run [OF assms] by blast
  have "(\<forall>i. unat va div 4096 \<le> i \<and> i < (unat va + unat len + 4095) div 4096 \<longrightarrow> page_allows s (proc_pgdir s p) perm i) \<longleftrightarrow>
      \<not> k < (unat va + unat len + 4095) div 4096"
    using k(2-5) by (metis le_antisym not_less)
  then show ?thesis using k(1) by simp
qed

theorem user_mem_check_correct_witness: "\<exists>s'. user_mem_check 1 0x400010 16 PTE_W tiny_vm = Some (0, s')"
proof -
  have i: "PDINDEX 0x400000 = 1" "PTINDEX 0x400000 = 0" by (simp_all add: PDINDEX_def PTINDEX_def)
  have "proc_pgdir tiny_vm 1 = page2va 1" by (simp add: tiny_vm_def store_def zero_vm_def)
  moreover have "load tiny_vm (entry (page2va 1) 1) = 0x2007" "load tiny_vm (entry (page2va 2) 0) = 0x5007"
    by (simp_all add: tiny_load)
  ultimately have a: "page_allows tiny_vm (proc_pgdir tiny_vm 1) PTE_W 1024"
    using i by (simp add: page_allows_def Let_def kaddr_pte PGNUM_def PGSHIFT_def PTE_W_def)
  have "i = 1024" if "1024 \<le> i" "i < 1025" for i :: nat using that by simp
  then have "\<forall>i. 1024 \<le> i \<and> i < 1025 \<longrightarrow> page_allows tiny_vm (proc_pgdir tiny_vm 1) PTE_W i" using a by metis
  moreover have "unat (0x400010 :: u32) + unat (16 :: u32) < unat ULIM" by (simp add: ULIM_def)
  ultimately show ?thesis using user_mem_check_correct [of "0x400010" 16 1 PTE_W tiny_vm] by simp
qed

text \<open>The end of the region is computed without a check for overflow: a length that wraps around to an
  address at or below the first page of the region is accepted whatever the page tables say.\<close>

theorem user_mem_check_wraps:
  assumes "va < ULIM" "va + len < ULIM" "ROUNDUP (va + len) 4096 \<le> ROUNDDOWN va 4096"
  shows "user_mem_check p va len perm s = Some (0, s)"
proof -
  have n: "\<not> ROUNDDOWN va 4096 < ROUNDUP (va + len) 4096" "\<not> ULIM \<le> va" "\<not> ULIM \<le> va + len" using assms by (simp_all add: not_less not_le)
  then have "check_pages s (proc_pgdir s p) perm (ROUNDUP (va + len) 4096) (ROUNDDOWN va 4096) = Some (ROUNDDOWN va 4096)"
    by (subst check_pages.simps) simp
  then show ?thesis using n by (simp add: user_mem_check_def Let_def)
qed

theorem user_mem_check_wraps_witness: "user_mem_check 1 0x1000 0xFFFFF001 PTE_W zero_vm = Some (0, zero_vm)"
  by (rule user_mem_check_wraps) (simp_all add: ULIM_def ROUNDUP_def ROUNDDOWN_def)

end
