(* ===== verification/Vm_Props.thy ===== *)
theory Vm_Props
  imports Vm Pmap_Props
begin

text \<open>Copy-on-write fork and page faults over the map of an address space.\<close>

section \<open>Two address spaces\<close>

text \<open>Frame \<open>g\<close> holds no part of the user tables of the address space \<open>d\<close>.\<close>

definition foreign :: "vm \<Rightarrow> nat \<Rightarrow> nat \<Rightarrow> bool" where
  "foreign s d g \<longleftrightarrow> g < 0x10000 \<and> g \<noteq> d \<and> (\<forall>wa<UTOP. has_table s d wa \<longrightarrow> table s d wa \<noteq> g)"

lemma foreign_store:
  fixes v :: u32
  assumes "space s d" "foreign s d g" "i < 1024" "wa < UTOP"
  defines "s' \<equiv> store (entry (page2va g) i) v s"
  shows "has_table s' d wa = has_table s d wa" "table s' d wa = table s d wa" "has_table s d wa \<Longrightarrow> pte s' d wa = pte s d wa"
proof -
  have g: "g < 0x10000" "g \<noteq> d" "d < 0x10000" using assms(1,2) by (auto simp: foreign_def space_def)
  have "pde s' d (PDINDEX wa) = pde s d (PDINDEX wa)"
    using g assms(3) index_bound by (simp add: pde_def s'_def load_store)
  then show h: "has_table s' d wa = has_table s d wa" "table s' d wa = table s d wa"
    by (simp_all add: has_table_def table_def)
  assume t: "has_table s d wa"
  have "table s d wa \<noteq> g" "table s d wa < 0x10000" using assms(2,4) t spaceD(2) [OF assms(1,4) t] by (auto simp: foreign_def)
  then show "pte s' d wa = pte s d wa" using g assms(3) index_bound h by (simp add: pte_def s'_def load_store)
qed

lemma space_cong:
  assumes "space s d" "\<And>wa. wa < UTOP \<Longrightarrow> has_table s' d wa = has_table s d wa" "\<And>wa. wa < UTOP \<Longrightarrow> table s' d wa = table s d wa"
  shows "space s' d"
  unfolding space_def
proof (intro conjI allI impI)
  show "d < 0x10000" using assms(1) unfolding space_def by (rule conjunct1)
  fix va
  assume va: "va < UTOP" "has_table s' d va"
  then have t: "has_table s d va" "table s' d va = table s d va" using assms(2,3) by simp_all
  show "table s' d va < 0x10000" "table s' d va \<noteq> d" unfolding t(2) by (rule spaceD [OF assms(1) va(1) t(1)])+
  fix wa
  assume wa: "wa < UTOP" "has_table s' d wa \<and> table s' d wa = table s' d va"
  then have "has_table s d wa" "table s d wa = table s d va" using assms(2,3) t(2) by simp_all
  then show "PDINDEX wa = PDINDEX va" by (rule spaceD(4) [OF assms(1) va(1) t(1) wa(1)])
qed

lemma foreign_store_map:
  assumes "space s d" "foreign s d g" "i < 1024"
  shows "space (store (entry (page2va g) i) v s) d" "wa < UTOP \<Longrightarrow> mapping (store (entry (page2va g) i) v s) d wa = mapping s d wa"
    "foreign (store (entry (page2va g) i) v s) d h = foreign s d h"
proof -
  note f = foreign_store [OF assms, where v = v]
  show "space (store (entry (page2va g) i) v s) d" by (rule space_cong [OF assms(1)]) (rule f(1,2); assumption)+
  show "foreign (store (entry (page2va g) i) v s) d h = foreign s d h" using f(1,2) unfolding foreign_def by auto
  assume "wa < UTOP"
  then show "mapping (store (entry (page2va g) i) v s) d wa = mapping s d wa"
    unfolding mapping_def using f [of wa] by auto
qed

text \<open>The two spaces share no table.\<close>

definition separate :: "vm \<Rightarrow> nat \<Rightarrow> nat \<Rightarrow> bool" where
  "separate s d e \<longleftrightarrow> foreign s d e \<and> (\<forall>wa<UTOP. has_table s e wa \<longrightarrow> foreign s d (table s e wa))"

lemma foreign_frame [simp]: "foreign (upd_kb f s) d g = foreign s d g" "foreign (tlb_invalidate p va s) d g = foreign s d g"
  by (simp_all add: foreign_def)

lemma separate_sym: "separate s d e \<Longrightarrow> space s d \<Longrightarrow> space s e \<Longrightarrow> separate s e d"
  unfolding separate_def foreign_def using spaceD(1,2) space_def by metis

lemma separate_cong:
  assumes "separate s d e" "\<And>f wa. f \<in> {d, e} \<Longrightarrow> wa < UTOP \<Longrightarrow> has_table s' f wa = has_table s f wa"
    "\<And>f wa. f \<in> {d, e} \<Longrightarrow> wa < UTOP \<Longrightarrow> table s' f wa = table s f wa"
  shows "separate s' d e"
  using assms unfolding separate_def foreign_def by simp

lemma put_entry_foreign:
  assumes sp: "space s d" "separate s d e" "va < UTOP" "has_table s e va"
  shows "space (put_entry e va pp perm s) d" "wa < UTOP \<Longrightarrow> mapping (put_entry e va pp perm s) d wa = mapping s d wa"
    "wa < UTOP \<Longrightarrow> has_table (put_entry e va pp perm s) d wa = has_table s d wa"
    "wa < UTOP \<Longrightarrow> table (put_entry e va pp perm s) d wa = table s d wa"
proof -
  have f: "foreign s d (table s e va)" "foreign s d e" using sp by (auto simp: separate_def)
  note a = foreign_store_map [OF sp(1) f(1) index_bound(2), where v = "page2pa pp OR perm OR PTE_P"]
  have "foreign (store (entry (page2va (table s e va)) (PTINDEX va)) (page2pa pp OR perm OR PTE_P) s) d e" using a(3) f(2) by simp
  note b = foreign_store_map [OF a(1) this index_bound(1)] and c = foreign_store [OF a(1) this index_bound(1)]
  show "space (put_entry e va pp perm s) d" unfolding put_entry_def or_entry_def by (rule b(1))
  show "wa < UTOP \<Longrightarrow> mapping (put_entry e va pp perm s) d wa = mapping s d wa"
    unfolding put_entry_def or_entry_def using b(2) a(2) by simp
  show "wa < UTOP \<Longrightarrow> has_table (put_entry e va pp perm s) d wa = has_table s d wa"
    "wa < UTOP \<Longrightarrow> table (put_entry e va pp perm s) d wa = table s d wa"
    unfolding put_entry_def or_entry_def using c(1,2) foreign_store(1,2) [OF sp(1) f(1) index_bound(2)] by simp_all
qed

section \<open>Reading the tables of the current process\<close>

definition self_mapped :: "vm \<Rightarrow> nat \<Rightarrow> bool" where
  "self_mapped s d \<longleftrightarrow> d < 0x10000 \<and> PGNUM (pde s d (PDINDEX UVPT)) = d \<and> pde s d (PDINDEX UVPT) AND PTE_P \<noteq> 0"

lemma split_page: "r < 4096 \<Longrightarrow> (4096 * a + r) div 4096 = a \<and> (4096 * a + r) mod 4096 = (r :: nat)"
  by simp

lemma uvpt_addr:
  assumes "pn < 0x100000"
  shows "PDINDEX (UVPT + of_nat (4 * pn)) = PDINDEX UVPT" "PTINDEX (UVPT + of_nat (4 * pn)) = pn div 1024"
    "(UVPT + of_nat (4 * pn)) AND 0xFFF = of_nat (4 * (pn mod 1024))"
proof -
  have n: "unat (of_nat (4 * pn) :: u32) = 4 * pn" using assms by (simp add: unat_of_nat take_bit_nat_eq_self del: of_nat_mult)
  have u: "unat UVPT = 0xEF000000" by (simp add: UVPT_def)
  have s: "unat (UVPT + of_nat (4 * pn)) = 0xEF000000 + 4 * pn"
    using assms n u by (subst unat_add_lem [THEN iffD1]) simp_all
  show "PDINDEX (UVPT + of_nat (4 * pn)) = PDINDEX UVPT" unfolding index_div s u using assms by simp
  have "0xEF000000 + 4 * (1024 * q + r) = 4096 * (0xEF000 + q) + 4 * r" for q r :: nat by simp
  from this [of "pn div 1024" "pn mod 1024"]
  have eq: "0xEF000000 + 4 * pn = 4096 * (0xEF000 + pn div 1024) + 4 * (pn mod 1024)" unfolding mult_div_mod_eq .
  have d: "(0xEF000000 + 4 * pn) div 4096 = 0xEF000 + pn div 1024 \<and> (0xEF000000 + 4 * pn) mod 4096 = 4 * (pn mod 1024)"
    unfolding eq by (rule split_page) simp
  have "(0xEF000 + x) mod 1024 = x" if "x < 1024" for x :: nat
    using that mod_mult_self2 [of x 1024 956] by (simp add: add.commute)
  then show "PTINDEX (UVPT + of_nat (4 * pn)) = pn div 1024" unfolding index_div s conjunct1 [OF d] using assms by simp
  have "unat ((UVPT + of_nat (4 * pn)) AND 0xFFF) = 4 * (pn mod 1024)"
    unfolding mask12 take_bit_eq_mask [symmetric] unsigned_take_bit_eq s using d by (simp add: take_bit_eq_mod)
  then have "of_nat (unat ((UVPT + of_nat (4 * pn)) AND 0xFFF)) = (of_nat (4 * (pn mod 1024)) :: u32)" by simp
  then show "(UVPT + of_nat (4 * pn)) AND 0xFFF = of_nat (4 * (pn mod 1024))" by simp
qed

lemma page_offset: "flags_only v \<Longrightarrow> KADDR (page2pa f OR v) = page2va f + v"
proof -
  assume "flags_only v"
  then have "page2pa f AND v = 0"
    unfolding page2pa_def PGSHIFT_def by (intro bit_word_eqI) (auto simp: bit_simps dest: flags_bits)
  then have "page2pa f OR v = page2pa f + v" by (simp add: disjunctive_add_eq_or)
  then show ?thesis by (simp add: KADDR_def page2va_def)
qed

lemma small_flags: "n < 4096 \<Longrightarrow> flags_only (of_nat n)"
proof -
  assume n: "n < 4096"
  then have "take_bit 12 (of_nat n :: u32) = of_nat n" by (simp add: take_bit_of_nat take_bit_nat_eq_self)
  then have "bit (of_nat n :: u32) k \<Longrightarrow> k < 12" for k by (metis bit_take_bit_iff)
  then show ?thesis unfolding flags_only_def mask12 by (intro bit_word_eqI) (auto simp: bit_simps)
qed

lemma page_index:
  assumes "pn < 0x100000"
  shows "unat (of_nat (pn * PGSIZE) :: u32) = 4096 * pn" "PDINDEX (of_nat (pn * PGSIZE)) = pn div 1024"
    "PTINDEX (of_nat (pn * PGSIZE)) = pn mod 1024"
proof -
  show u: "unat (of_nat (pn * PGSIZE) :: u32) = 4096 * pn"
    using assms by (simp add: PGSIZE_def unat_of_nat take_bit_nat_eq_self del: of_nat_mult)
  show "PDINDEX (of_nat (pn * PGSIZE)) = pn div 1024" "PTINDEX (of_nat (pn * PGSIZE)) = pn mod 1024"
    unfolding index_div u by simp_all
qed

text \<open>The processor reads \<^verbatim>\<open>uvpt[pn]\<close> through the directory: a page fault when the table is missing, the entry
  of the page otherwise.\<close>

lemma uvpt_read:
  assumes "cur_pgdir s = Some (page2va d)" "self_mapped s d" "pn < 0x100000"
  defines "va \<equiv> of_nat (pn * PGSIZE)"
  shows "uvpt s pn = (if has_table s d va then Some (pte s d va) else None)"
proof -
  note a = uvpt_addr [OF assms(3)] and i = page_index [OF assms(3), folded va_def]
  have e: "pde s d (pn div 1024) = pde s d (PDINDEX va)" using i by simp
  have t: "translate (page2va d) (UVPT + of_nat (4 * pn)) s =
      (if has_table s d va then Some (PTE_ADDR (pde s d (PDINDEX va)) OR of_nat (4 * (pn mod 1024))) else None)"
    using assms(2) by (simp add: translate_def Let_def a pde_def [symmetric] kaddr_pte self_mapped_def e has_table_def del: of_nat_mult)
  have "KADDR (PTE_ADDR (pde s d (PDINDEX va)) OR of_nat (4 * (pn mod 1024))) = entry (page2va (table s d va)) (PTINDEX va)"
    using page_offset [OF small_flags, of "4 * (pn mod 1024)"] by (simp add: pte_addr_page entry_def table_def i del: of_nat_mult)
  then show ?thesis using t unfolding uvpt_def assms(1) by (simp add: pte_def del: of_nat_mult)
qed

section \<open>Mapping system calls\<close>

lemma page_aligned: "pn < 0x100000 \<Longrightarrow> (of_nat (pn * PGSIZE) :: u32) mod 4096 = 0"
  by (simp add: word_arith_nat_mod page_index(1) del: of_nat_mult)

text \<open>\<^verbatim>\<open>user_page_map\<close> between address spaces whose tables exist, up to the call of \<^verbatim>\<open>page_insert\<close>.\<close>

lemma user_page_map_run:
  assumes "srcva < UTOP" "srcva mod 4096 = 0" "dstva < UTOP" "dstva mod 4096 = 0" "perm AND NOT PTE_SYSCALL = 0"
    and "pid2proc srcpid True (vp s) = Some (0, Some ps)" "pid2proc dstpid True (vp s) = Some (0, Some pd)"
    and sp: "proc_pgdir s ps = page2va d" "space s d" "has_table s d srcva" "PGNUM (pte s d srcva) < npages_num (kb (vk s))"
    and w: "pte s d srcva AND PTE_W \<noteq> 0 \<or> perm AND PTE_W = 0"
  shows "user_page_map m srcpid srcva dstpid dstva perm s = page_insert m (proc_pgdir s pd) (PGNUM (pte s d srcva)) dstva perm s"
proof -
  have "page_lookup (page2va d) srcva s = Some ((Some (PGNUM (pte s d srcva)), entry (page2va (table s d srcva)) (PTINDEX srcva)), s)"
    using lookup_present [OF sp(2) assms(1) sp(3)] sp(4) by simp
  then show ?thesis
    using assms(1-7) sp(1) w by (auto simp: user_page_map_def pte_def [symmetric] not_le)
qed

lemma cow_perm: "(PTE_U OR PTE_P OR PTE_COW) AND NOT PTE_SYSCALL = 0" "(PTE_U OR PTE_P OR PTE_COW) AND PTE_W = 0"
  "(PTE_U OR PTE_P OR PTE_COW) AND PTE_COW \<noteq> 0" "flags_only (PTE_U OR PTE_P OR PTE_COW)" "(PTE_U OR PTE_P OR PTE_COW) OR PTE_P = PTE_U OR PTE_P OR PTE_COW"
  by (simp_all add: PTE_U_def PTE_P_def PTE_COW_def PTE_SYSCALL_def PTE_W_def flags_only_def)

lemma proc_frame [simp]:
  "vp (store a v s) = vp s" "vp (or_entry a v s) = vp s" "vp (upd_kb f s) = vp s" "vp (tlb_invalidate p va s) = vp s"
  "proc_pgdir (store a v s) = proc_pgdir s" "proc_pgdir (or_entry a v s) = proc_pgdir s" "proc_pgdir (upd_kb f s) = proc_pgdir s"
  "proc_pgdir (tlb_invalidate p va s) = proc_pgdir s" "vp (put_entry d va pp perm s) = vp s" "proc_pgdir (put_entry d va pp perm s) = proc_pgdir s"
  "npages_num (kb (vk (put_entry d va pp perm s))) = npages_num (kb (vk s))" "npages_num (kb (vk (tlb_invalidate p va s))) = npages_num (kb (vk s))"
  by (auto simp: store_def or_entry_def upd_kb_def tlb_invalidate_def put_entry_def split: option.split)

section \<open>Properties\<close>

text \<open>C16: copy-on-write: \<^verbatim>\<open>duppage\<close> on a page that the current process may write, or that is copy-on-write
  already, makes parent and child share the frame without the permission to write and with the
  copy-on-write mark; it gains one reference, and every other page of both address spaces is as before.\<close>

theorem duppage_shares_page:
  assumes cur: "cpu_proc (vp s) = Some c" "pid2proc (pid (proc_of (vp s) c)) True (vp s) = Some (0, Some c)"
    "pid2proc child True (vp s) = Some (0, Some k)" "proc_pgdir s c = page2va d" "proc_pgdir s k = page2va e"
    and sp: "space s d" "space s e" "separate s d e" "self_mapped s d" "pn < 0x100000" "(of_nat (pn * PGSIZE) :: u32) < UTOP"
    and m: "mapping s d (of_nat (pn * PGSIZE)) = Some (q, fl)" "q < npages_num (kb (vk s))" "has_table s e (of_nat (pn * PGSIZE))"
      "mapping s e (of_nat (pn * PGSIZE)) = None"
    and w: "pte s d (of_nat (pn * PGSIZE)) AND PTE_SHARE = 0"
      "pte s d (of_nat (pn * PGSIZE)) AND PTE_W \<noteq> 0 \<or> pte s d (of_nat (pn * PGSIZE)) AND PTE_COW \<noteq> 0"
  shows "\<exists>s'. duppage n child pn s = Some (0, s') \<and>
    mapping s' d (of_nat (pn * PGSIZE)) = Some (q, PTE_U OR PTE_P OR PTE_COW) \<and>
    mapping s' e (of_nat (pn * PGSIZE)) = Some (q, PTE_U OR PTE_P OR PTE_COW) \<and>
    (\<forall>wa<UTOP. unat wa div 4096 \<noteq> pn \<longrightarrow> mapping s' d wa = mapping s d wa \<and> mapping s' e wa = mapping s e wa) \<and>
    page_ref s' = (page_ref s)(q := page_ref s q + 1)"
proof -
  let ?va = "of_nat (pn * PGSIZE) :: u32" and ?cow = "PTE_U OR PTE_P OR PTE_COW"
  let ?p1 = "put_entry e ?va q ?cow s"
  let ?s1 = "tlb_invalidate (page2va e) ?va (upd_kb (set_ref q (page_ref s q + 1)) ?p1)"
  let ?s2 = "tlb_invalidate (page2va d) ?va (put_entry d ?va q ?cow ?s1)"
  note o = mapping_pte [OF m(1)]
  have q: "q < 0x100000" using o PGNUM_bound by metis
  have pn: "unat ?va div 4096 = pn" using page_index(1) [OF sp(5)] by simp
  have al: "?va mod 4096 = 0" by (rule page_aligned [OF sp(5)])
  note e1 = put_entry_map [OF sp(2,6) m(3) cow_perm(4) q] and d1 = put_entry_foreign [OF sp(1,3,6) m(3)]
    and sh1 = put_entry_shape [OF sp(2,6) m(3) cow_perm(4)]
  have one: "user_page_map n (pid (proc_of (vp s) c)) ?va child ?va ?cow s = Some (0, ?s1)"
    using user_page_map_run [OF sp(6) al sp(6) al cow_perm(1) cur(2,3,4) sp(1)] o m(2) cow_perm(2) cur(5)
      insert_new [OF sp(2,6) m(3,4)] by simp
  have m1: "space ?s1 d" "space ?s1 e" "mapping ?s1 d ?va = Some (q, fl)" "has_table ?s1 d ?va"
    using d1 [where pp = q and perm = ?cow] e1(1) m(1) sp(6) o by simp_all
  have "separate ?p1 d e"
    by (rule separate_cong [OF sp(3)]) (use d1 [where pp = q and perm = ?cow] sh1 in auto)
  then have "separate ?p1 e d" by (rule separate_sym) (use m1 in simp_all)
  then have sep: "separate ?s1 e d" by (simp add: separate_def)
  have two: "user_page_map n (pid (proc_of (vp s) c)) ?va (pid (proc_of (vp s) c)) ?va ?cow ?s1 = Some (0, ?s2)"
    using user_page_map_run [OF sp(6) al sp(6) al cow_perm(1), of "pid (proc_of (vp s) c)" ?s1 c "pid (proc_of (vp s) c)" c d n]
      mapping_pte [OF m1(3)] m1 cur m(2) cow_perm(2) insert_same [OF m1(1) sp(6) m1(3)] by simp
  have d2: "cur_pgdir s = Some (page2va d)" using cur by (simp add: cur_pgdir_def)
  have run: "duppage n child pn s = Some (0, ?s2)"
    using uvpt_read [OF d2 sp(4,5)] o w one two cur(1) cow_perm(3) by (simp add: duppage_def Let_def)
  show ?thesis
    using run put_entry_map [OF m1(1) sp(6) m1(4) cow_perm(4) q] put_entry_foreign [OF m1(2) sep sp(6) m1(4)]
      d1 [where pp = q and perm = ?cow] e1 sp(6) pn cow_perm(5) by simp
qed

lemma tiny_proc: "vp tiny_vm = vp zero_vm" "proc_pgdir tiny_vm 1 = page2va 1" "proc_pgdir tiny_vm 2 = page2va 3" "npages_num (kb (vk tiny_vm)) = 16"
  "page_ref tiny_vm q = 1" "cpu_proc (vp zero_vm) = Some 1" "pid (proc_of (vp zero_vm) p) = p" "cur_pgdir tiny_vm = Some (page2va 1)"
  by (simp_all add: tiny_vm_def store_def zero_vm_def cur_pgdir_def)

lemma tiny_pids: "pid2proc 1 True (vp zero_vm) = Some (0, Some 1)" "pid2proc 2 True (vp zero_vm) = Some (0, Some 2)"
  by (simp_all add: pid2proc_def zero_vm_def NPROC_def zero_proc_def)

lemma tiny_self: "self_mapped tiny_vm 1"
proof -
  have "PDINDEX UVPT = 956" by (simp add: PDINDEX_def UVPT_def)
  then show ?thesis by (simp add: self_mapped_def pde_def tiny_load PGNUM_def PGSHIFT_def PTE_P_def)
qed

lemma tiny_separate: "separate tiny_vm 1 3"
  by (auto simp: separate_def foreign_def has_table_def table_def tiny_pde tiny_num simp del: One_nat_def split: if_splits)

theorem duppage_shares_page_witness:
  "\<exists>s'. duppage 0 2 1024 tiny_vm = Some (0, s') \<and> mapping s' 3 0x400000 = Some (5, PTE_U OR PTE_P OR PTE_COW) \<and> page_ref s' 5 = 2"
proof -
  have va: "(of_nat (1024 * PGSIZE) :: u32) = 0x400000" by (simp add: PGSIZE_def)
  note r = duppage_shares_page [of tiny_vm 1 2 2 1 3 1024 5 "0x007" 0, unfolded va tiny_proc]
  show ?thesis
    using r tiny_pids tiny_space tiny_separate tiny_self tiny_mapping
    by (auto simp: UTOP_def PTE_SHARE_def PTE_W_def simp del: One_nat_def)
qed

text \<open>A mapping system call does not check that the source page is present: when the page table exists and
  its entry is empty, \<^verbatim>\<open>user_page_map\<close> maps physical frame 0 into the destination and counts a reference
  to it.\<close>

theorem user_page_map_exposes_frame_0:
  assumes "srcva < UTOP" "srcva mod 4096 = 0" "dstva < UTOP" "dstva mod 4096 = 0" "perm AND NOT PTE_SYSCALL = 0" "perm AND PTE_W = 0"
    and "pid2proc srcpid True (vp s) = Some (0, Some ps)" "pid2proc dstpid True (vp s) = Some (0, Some pd)"
    and "proc_pgdir s ps = page2va d" "space s d" "has_table s d srcva" "pte s d srcva = 0" "0 < npages_num (kb (vk s))"
    and "proc_pgdir s pd = page2va e" "space s e" "has_table s e dstva" "mapping s e dstva = None" "flags_only perm"
  shows "\<exists>s'. user_page_map n srcpid srcva dstpid dstva perm s = Some (0, s') \<and> mapping s' e dstva = Some (0, perm OR PTE_P) \<and>
    page_ref s' = (page_ref s)(0 := page_ref s 0 + 1)"
proof -
  have z: "PGNUM 0 = 0" by (simp add: PGNUM_def)
  have "user_page_map n srcpid srcva dstpid dstva perm s = page_insert n (page2va e) 0 dstva perm s"
    using user_page_map_run [OF assms(1-5,7-11), of n] assms(6,12,13,14) z by simp
  then show ?thesis
    using insert_new [OF assms(15,3,16,17)] put_entry_map [OF assms(15,3,16,18), of 0] by simp
qed

theorem user_page_map_exposes_frame_0_witness:
  "\<exists>s'. user_page_map 0 2 0x400000 2 0x400000 PTE_U tiny_vm = Some (0, s') \<and> mapping s' 3 0x400000 = Some (0, PTE_U OR PTE_P)"
  using user_page_map_exposes_frame_0 [of "0x400000" "0x400000" PTE_U 2 tiny_vm 2 2 2 3 3 0, unfolded tiny_proc]
    tiny_pids tiny_space tiny_mapping P_flags(2)
  by (auto simp: UTOP_def PTE_U_def PTE_W_def PTE_SYSCALL_def simp del: One_nat_def)

text \<open>A write by a process to an address whose page table does not exist stops the kernel: the handler
  reads \<^verbatim>\<open>uvpt\<close> before it looks whether the table is there, and that read faults in kernel mode.\<close>

theorem write_fault_without_table:
  assumes "cpu_proc (vp s) = Some c" "proc_pgdir s c = page2va d" "self_mapped s d"
    "trap_err AND FEC_WR \<noteq> 0" "\<not> has_table s d falt_va"
  shows "page_fault_handler m trap_err falt_va s = None"
proof -
  have d: "cur_pgdir s = Some (page2va d)" using assms(1,2) by (simp add: cur_pgdir_def)
  note i = page_index [OF PGNUM_bound [of falt_va]]
  have "PGNUM falt_va = unat falt_va div 4096"
    unfolding PGNUM_def PGSHIFT_def unat_drop_bit_eq by (simp add: drop_bit_eq_div)
  then have "PDINDEX (of_nat (PGNUM falt_va * PGSIZE)) = PDINDEX falt_va" using i(2) index_div(1) [of falt_va] by simp
  then have "\<not> has_table s d (of_nat (PGNUM falt_va * PGSIZE))" using assms(5) by (simp add: has_table_def)
  then have "uvpt s (PGNUM falt_va) = None" using uvpt_read [OF d assms(3) PGNUM_bound] by simp
  then show ?thesis using assms(4) by (simp add: page_fault_handler_def)
qed

theorem write_fault_without_table_witness: "page_fault_handler 0 FEC_WR 0x800000 tiny_vm = None"
proof (rule write_fault_without_table [where c = 1 and d = 1])
  have "PDINDEX 0x800000 = 2" "(0x800000 :: u32) < UTOP" by (simp_all add: PDINDEX_def UTOP_def)
  then show "\<not> has_table tiny_vm 1 0x800000" using tiny_pde(1) [of "0x800000"] by (simp add: has_table_def)
qed (use tiny_proc tiny_self in \<open>simp_all add: FEC_WR_def\<close>)

text \<open>One page of \<^verbatim>\<open>proc_region_alloc\<close>: a fresh frame is mapped, in place of what was mapped before.\<close>

definition map_fresh :: "nat \<Rightarrow> u32 \<Rightarrow> u32 \<Rightarrow> u32 \<Rightarrow> vm \<Rightarrow> (bool \<times> vm) option" where
  "map_fresh m pgdir va perm s = do {
     (r, s) \<leftarrow> page_alloc m True s;
     case r of None \<Rightarrow> Some (False, s)
     | Some q \<Rightarrow> do { (e, s) \<leftarrow> page_insert m pgdir q va perm s; Some (e = 0, s) }
   }"

lemma region_step:
  assumes "va_t < va_end"
  shows "region_loop m pgdir va_end perm va_t s = do {
     (ok, s) \<leftarrow> map_fresh m pgdir va_t (perm OR PTE_P) s;
     if ok then region_loop m pgdir va_end perm (va_t + 4096) s else Some (- E_NO_MEM, s)
   }"
proof (cases "page_alloc m True s")
  case None
  then show ?thesis using assms by (subst region_loop.simps) (simp add: map_fresh_def)
next
  case (Some x)
  obtain r t where x: "page_alloc m True s = Some (r, t)" using Some by (cases x) simp
  show ?thesis
  proof (cases r)
    case None
    then show ?thesis using assms x by (subst region_loop.simps) (simp add: map_fresh_def)
  next
    case (Some q)
    then show ?thesis using assms x
      by (subst region_loop.simps) (cases "page_insert m pgdir q va_t (perm OR PTE_P) t"; auto simp: map_fresh_def)
  qed
qed

text \<open>A fault in the heap allocates two pages, unless the address is the first of its page: the region
  of one page length that starts at the faulting address ends in the next page, which gets a fresh
  frame even if it was in use.\<close>

theorem heap_fault_maps_two_pages:
  assumes "cpu_proc (vp s) = Some c" "trap_err AND FEC_WR = 0" "falt_va < heap_ptr (proc_of (vp s) c)"
    "base_mem_sz (proc_of (vp s) c) \<le> falt_va" "falt_va < UTOP" "falt_va mod 4096 \<noteq> 0"
  defines "page \<equiv> ROUNDDOWN falt_va 4096"
  shows "page_fault_handler m trap_err falt_va s = do {
      (ok, s1) \<leftarrow> map_fresh m (proc_pgdir s c) page (PTE_SYSCALL OR PTE_P) s;
      if \<not> ok then Some (FExit, s1)
      else do {
        (ok, s2) \<leftarrow> map_fresh m (proc_pgdir s c) (page + 4096) (PTE_SYSCALL OR PTE_P) s1;
        Some (if ok then FDone else FExit, s2)
      }
    }"
proof -
  let ?n = "unat falt_va div 4096" and ?last = "ROUNDUP (falt_va + 4096) 4096"
  have u: "unat falt_va < 0xEE800000" using assms(5) by (simp add: word_less_nat_alt UTOP_def)
  have r: "unat falt_va mod 4096 \<noteq> 0" "unat falt_va mod 4096 < 4096"
    using assms(6) by (auto simp: unat_eq_0 [symmetric] unat_mod_distrib simp del: unat_eq_0)
  have n: "unat falt_va = 4096 * ?n + unat falt_va mod 4096" by simp
  have a: "unat (falt_va + 4096) = unat falt_va + 4096" using u by (subst unat_add_lem [THEN iffD1]) simp_all
  have "(unat falt_va + 4096 + 4095) div 4096 = ?n + 2" using n r by linarith
  then have e: "?last = of_nat (4096 * (?n + 2))" using roundup_page [of "falt_va + 4096"] u unfolding a by simp
  have p: "page = of_nat (4096 * ?n)" "page + 4096 = of_nat (4096 * (?n + 1))" "page + 4096 + 4096 = of_nat (4096 * (?n + 2))"
    unfolding page_def rounddown_page by (simp_all add: algebra_simps)
  have b: "?n + 2 < 0x100000" using u by (simp add: less_mult_imp_div_less)
  have lt1: "page < ?last" unfolding e p(1) by (subst page_word_less) (use b in simp_all)
  have lt2: "page + 4096 < ?last" unfolding e p(2) by (subst page_word_less) (use b in simp_all)
  have lt3: "\<not> page + 4096 + 4096 < ?last" unfolding e p(3) by simp
  have fin: "region_loop m d ?last PTE_SYSCALL (page + 4096 + 4096) t = Some (0, t)" for d t
    using lt3 by (subst region_loop.simps) simp
  have "page + 4096 + 4096 = 8192 + page" by simp
  note fin' = fin [unfolded this]
  have pg: "(of_nat PGSIZE :: u32) = 4096" by (simp add: PGSIZE_def)
  have "proc_region_alloc m c falt_va (of_nat PGSIZE) PTE_SYSCALL s = do {
      (ok, s1) \<leftarrow> map_fresh m (proc_pgdir s c) page (PTE_SYSCALL OR PTE_P) s;
      if ok then do {
        (ok, s2) \<leftarrow> map_fresh m (proc_pgdir s c) (page + 4096) (PTE_SYSCALL OR PTE_P) s1;
        Some (if ok then 0 else - E_NO_MEM, s2)
      } else Some (- E_NO_MEM, s1)
    }"
    unfolding proc_region_alloc_def pg page_def [symmetric] region_step [OF lt1]
    by (cases "map_fresh m (proc_pgdir s c) page (PTE_SYSCALL OR PTE_P) s")
      (auto simp: region_step [OF lt2] fin' fun_eq_iff intro!: arg_cong [where f = "Option.bind _"] split: prod.split)
  then show ?thesis
    using assms(1-4) by (cases "map_fresh m (proc_pgdir s c) page (PTE_SYSCALL OR PTE_P) s")
      (auto simp: page_fault_handler_def E_NO_MEM_def fun_eq_iff intro!: arg_cong [where f = "Option.bind _"] split: prod.split)
qed

text \<open>The small machine, with a heap up to \<open>0x500000\<close>.\<close>

definition tiny_heap :: vm where
  "tiny_heap = tiny_vm\<lparr>vp := (vp tiny_vm)\<lparr>proc_of := (\<lambda>_. zero_proc\<lparr>heap_ptr := 0x500000\<rparr>)\<rparr>\<rparr>"

theorem heap_fault_maps_two_pages_witness:
  "page_fault_handler 0 0 0x400010 tiny_heap = do {
      (ok, s1) \<leftarrow> map_fresh 0 (page2va 1) 0x400000 (PTE_SYSCALL OR PTE_P) tiny_heap;
      if \<not> ok then Some (FExit, s1)
      else do {
        (ok, s2) \<leftarrow> map_fresh 0 (page2va 1) 0x401000 (PTE_SYSCALL OR PTE_P) s1;
        Some (if ok then FDone else FExit, s2)
      }
    }"
proof -
  have r: "ROUNDDOWN 0x400010 4096 = 0x400000" "(0x400000 :: u32) + 4096 = 0x401000" by (simp_all add: ROUNDDOWN_def)
  have f: "cpu_proc (vp tiny_heap) = Some 1" "proc_pgdir tiny_heap 1 = page2va 1" "heap_ptr (proc_of (vp tiny_heap) 1) = 0x500000"
    "base_mem_sz (proc_of (vp tiny_heap) 1) = 0"
    using tiny_proc by (simp_all add: tiny_heap_def zero_proc_def)
  show ?thesis
    by (rule heap_fault_maps_two_pages [of tiny_heap 1 0 "0x400010" 0, unfolded f r]) (simp_all add: UTOP_def)
qed

end
