(* ===== verification/Cow_Props.thy ===== *)
theory Cow_Props
  imports Vm_Props
begin

text \<open>The page fault that ends the sharing of a copy-on-write page.\<close>

section \<open>The contents of frames\<close>

definition same_frame :: "vm \<Rightarrow> vm \<Rightarrow> nat \<Rightarrow> bool" where
  "same_frame s s' g \<longleftrightarrow> (\<forall>i<PGSIZE. omem (vk s') (page2va g + of_nat i) = omem (vk s) (page2va g + of_nat i))"

lemma same_frame_refl [simp]: "same_frame s s g"
  by (simp add: same_frame_def)

lemma same_frame_trans: "same_frame s t g \<Longrightarrow> same_frame t u g \<Longrightarrow> same_frame s u g"
  by (simp add: same_frame_def)

lemma frame_byte_unat: "f < 0x10000 \<Longrightarrow> i < 4096 \<Longrightarrow> unat (page2va f + of_nat i) = 0xF0000000 + 4096 * f + i"
proof -
  assume a: "f < 0x10000" "i < 4096"
  then have n: "unat (of_nat i :: u32) = i" by (simp add: unat_of_nat take_bit_nat_eq_self)
  then have "unat (page2va f + of_nat i) = unat (page2va f) + unat (of_nat i :: u32)"
    using page2va_unat [OF a(1)] a by (intro unat_add_lem [THEN iffD1]) simp
  then show ?thesis unfolding n page2va_unat [OF a(1)] .
qed

lemma frame_byte_inj:
  assumes "f < 0x10000" "g < 0x10000" "i < 4096" "j < 4096" "page2va f + of_nat i = page2va g + of_nat j"
  shows "f = g \<and> i = j"
proof -
  have "unat (page2va f + of_nat i) = unat (page2va g + of_nat j)" unfolding assms(5) ..
  then have "4096 * f + i = 4096 * g + j"
    unfolding frame_byte_unat [OF assms(1,3)] frame_byte_unat [OF assms(2,4)] by linarith
  then show ?thesis by (rule split_unique) (rule assms)+
qed

lemma entry_bytes: "x \<in> bytes4 (entry (page2va g) i) \<Longrightarrow> i < 1024 \<Longrightarrow> \<exists>k<4096. x = page2va g + of_nat k"
proof -
  assume "x \<in> bytes4 (entry (page2va g) i)" "i < 1024"
  then obtain k where "k < 4" "x = page2va g + of_nat (4 * i + k)" using bytes4_nat by (fastforce simp: entry_def add.assoc)
  moreover have "4 * i + k < 4096" using \<open>i < 1024\<close> \<open>k < 4\<close> by simp
  ultimately show ?thesis by blast
qed

lemma same_frame_load: "same_frame s s' g \<Longrightarrow> i < 1024 \<Longrightarrow> load s' (entry (page2va g) i) = load s (entry (page2va g) i)"
  unfolding load_def by (rule rd_cong) (auto simp: same_frame_def PGSIZE_def dest: entry_bytes)

lemma same_frame_store:
  assumes "f < 0x10000" "g < 0x10000" "f \<noteq> g" "i < 1024"
  shows "same_frame s (store (entry (page2va g) i) v s) f"
  unfolding same_frame_def store_def PGSIZE_def
proof (intro allI impI)
  fix k :: nat
  assume k: "k < 4096"
  have "page2va f + of_nat k \<notin> bytes4 (entry (page2va g) i)"
    using frame_byte_inj [OF assms(1,2) k] assms(3) entry_bytes [OF _ assms(4)] by metis
  then show "omem (vk (s\<lparr>vk := vk s\<lparr>omem := wr32 (entry (page2va g) i) v (omem (vk s))\<rparr>\<rparr>)) (page2va f + of_nat k) =
      omem (vk s) (page2va f + of_nat k)" by (simp add: wr_other)
qed

text \<open>The frames that hold the user part of the tables; nothing about the address space changes as long as
  they do not.\<close>

definition user_frames :: "vm \<Rightarrow> nat \<Rightarrow> nat set" where
  "user_frames s d = insert d {table s d wa |wa. wa < UTOP \<and> has_table s d wa}"

lemma foreign_iff: "foreign s d g \<longleftrightarrow> g < 0x10000 \<and> g \<notin> user_frames s d"
  by (auto simp: foreign_def user_frames_def)

lemma same_space:
  assumes "space s d" "\<And>g. g \<in> user_frames s d \<Longrightarrow> same_frame s s' g"
  shows "space s' d" "has_table s' d wa = has_table s d wa" "table s' d wa = table s d wa" "wa < UTOP \<Longrightarrow> mapping s' d wa = mapping s d wa"
    "user_frames s' d = user_frames s d" "wa < UTOP \<Longrightarrow> has_table s d wa \<Longrightarrow> pte s' d wa = pte s d wa"
proof -
  have "same_frame s s' d" using assms(2) by (simp add: user_frames_def)
  then have e: "pde s' d (PDINDEX wa) = pde s d (PDINDEX wa)" for wa
    using same_frame_load index_bound(1) by (simp add: pde_def)
  then show h: "has_table s' d wa = has_table s d wa" "table s' d wa = table s d wa" for wa
    by (simp_all add: has_table_def table_def)
  show "space s' d" by (rule space_cong [OF assms(1)]) (rule h)+
  show "user_frames s' d = user_frames s d" unfolding user_frames_def h ..
  show p: "pte s' d wa = pte s d wa" if "wa < UTOP" "has_table s d wa" for wa
  proof -
    have "same_frame s s' (table s d wa)" using assms(2) that by (auto simp: user_frames_def)
    then show ?thesis unfolding pte_def h by (rule same_frame_load) (rule index_bound)
  qed
  assume "wa < UTOP"
  then show "mapping s' d wa = mapping s d wa" unfolding mapping_def h using p by auto
qed

lemma user_frames_bound: "space s d \<Longrightarrow> g \<in> user_frames s d \<Longrightarrow> g < 0x10000"
  unfolding user_frames_def space_def by blast

section \<open>What the operations leave alone\<close>

lemma same_frame_kb [simp]: "same_frame s (upd_kb f t) g = same_frame s t g" "same_frame s (tlb_invalidate p va t) g = same_frame s t g"
  "same_frame (upd_kb f s) t g = same_frame s t g"
  by (auto simp: same_frame_def upd_kb_def tlb_invalidate_def split: option.split)

lemma same_frame_put_entry:
  assumes "space s d" "va < UTOP" "has_table s d va" "foreign s d g"
  shows "same_frame s (put_entry d va pp perm s) g"
proof -
  have t: "table s d va < 0x10000" "table s d va \<noteq> g" "d \<noteq> g" "d < 0x10000" "g < 0x10000"
    using spaceD(1,2) [OF assms(1-3)] assms(2-4) by (auto simp: foreign_def)
  show ?thesis
    unfolding put_entry_def or_entry_def
    by (rule same_frame_trans; rule same_frame_store) (use t index_bound in auto)
qed

lemma same_frame_unmap:
  assumes "space s d" "va < UTOP" "has_table s d va" "foreign s d g"
  shows "same_frame s (unmap d va q s) g"
proof -
  have t: "table s d va < 0x10000" "table s d va \<noteq> g" "g < 0x10000"
    using spaceD(1,2) [OF assms(1-3)] assms(2-4) by (auto simp: foreign_def)
  have "same_frame (upd_kb (set_ref q (page_ref s q - 1)) s)
      (store (entry (page2va (table s d va)) (PTINDEX va)) 0 (upd_kb (set_ref q (page_ref s q - 1)) s)) g"
    by (rule same_frame_store) (use t index_bound in auto)
  then show ?thesis by (simp add: unmap_def)
qed

section \<open>The steps of the fault handler\<close>

lemma unmap_frame [simp]: "vp (unmap d va q s) = vp s" "proc_pgdir (unmap d va q s) = proc_pgdir s"
  "npages_num (kb (vk (unmap d va q s))) = npages_num (kb (vk s))"
  by (simp_all add: unmap_def)

lemma page_alloc_frame:
  assumes "page_alloc m z s = Some (Some q, s1)"
  shows "vp s1 = vp s" "proc_pgdir s1 = proc_pgdir s" "page_ref s1 q = 0" "q < npages_num (kb (vk s1))"
proof -
  obtain r k where k: "kmalloc m PGSIZE (if z then GFP_ZERO else 0) (vk s) = Some (r, k)"
    using assms unfolding page_alloc_def by (auto simp del: bind_eq_None_conv)
  then obtain a where a: "r = KGot a" "va2page (kb k) a = Some q" "s1 = upd_kb (set_ref q 0) (s\<lparr>vk := k\<rparr>)"
    using assms unfolding page_alloc_def by (auto simp: Let_def split: kres.splits option.splits)
  then show "vp s1 = vp s" "proc_pgdir s1 = proc_pgdir s" "page_ref s1 q = 0" "q < npages_num (kb (vk s1))"
    by (auto simp: upd_kb_def set_ref_def va2page_def pa2page_def split: if_splits)
qed

lemma upmap_run:
  assumes "va < UTOP" "pid2proc i True (vp s) = Some (0, Some c)" "proc_pgdir s c = page2va d" "space s d"
    "mapping s d va = Some (q, fl)" "q < npages_num (kb (vk s))" "page_ref s q \<noteq> 1"
  shows "user_page_upmap i va s = Some (0, unmap d va q s)"
  using assms(1-3) page_remove_shared [OF assms(4,1), of q] mapping_pte [OF assms(5)] assms(6,7)
  by (simp add: user_page_upmap_def unmap_def not_le [symmetric])

lemma alloc_run:
  assumes "va < UTOP" "perm AND NOT PTE_SYSCALL = 0" "pid2proc i True (vp s) = Some (0, Some c)" "proc_pgdir s c = page2va d"
    "page_alloc m True s = Some (Some q, s1)" "space s1 d" "has_table s1 d va" "mapping s1 d va = None"
  shows "user_page_alloc m i va perm s =
    Some (0, tlb_invalidate (page2va d) va (upd_kb (set_ref q (page_ref s1 q + 1)) (put_entry d va q perm s1)))"
  using assms(1-5) page_alloc_frame(2) [OF assms(5)] insert_new [OF assms(6,1,7,8)]
  by (simp add: user_page_alloc_def not_le [symmetric])

lemma translate_aligned:
  assumes "mapping s d va = Some (f, fl)" "va AND 0xFFF = 0"
  shows "translate (page2va d) va s = Some (page2pa f)"
proof -
  have "pte s d va = load s (entry (KADDR (PTE_ADDR (load s (entry (page2va d) (PDINDEX va))))) (PTINDEX va))"
    by (simp add: pte_def table_def pde_def kaddr_pte)
  then show ?thesis using mapping_pte [OF assms(1)] assms(2)
    by (auto simp: translate_def Let_def has_table_def pde_def pte_addr_page)
qed

lemma frame_offset:
  assumes "g < 0x10000" "q < 0x10000" "k < 4096"
  shows "unat (page2va g + of_nat k - page2va q) < 4096 \<longleftrightarrow> g = q"
proof
  assume l: "unat (page2va g + of_nat k - page2va q) < 4096"
  have "page2va g + of_nat k = page2va q + of_nat (unat (page2va g + of_nat k - page2va q))" by simp
  then show "g = q" using frame_byte_inj [OF assms(1,2,3) l] by blast
next
  assume "g = q"
  then show "unat (page2va g + of_nat k - page2va q) < 4096" using assms(3) by (simp add: unat_of_nat take_bit_nat_eq_self)
qed

lemma copy_run:
  assumes "cur_pgdir s = Some (page2va d)" "mapping s d dst = Some (q, fl)" "dst AND 0xFFF = 0"
    "mapping s d src = Some (p, fl')" "src AND 0xFFF = 0" "q < 0x10000"
  shows "\<exists>s'. copy_page dst src s = Some s' \<and> (\<forall>g<0x10000. g \<noteq> q \<longrightarrow> same_frame s s' g) \<and>
    (\<forall>i<PGSIZE. omem (vk s') (page2va q + of_nat i) = omem (vk s) (page2va p + of_nat i)) \<and>
    vp s' = vp s \<and> proc_pgdir s' = proc_pgdir s \<and> kb (vk s') = kb (vk s)"
proof -
  have k: "KADDR (page2pa f) = page2va f" for f by (simp add: KADDR_def page2va_def)
  have o: "i < 4096 \<Longrightarrow> unat (of_nat i :: u32) < 4096" for i by (simp add: unat_of_nat take_bit_nat_eq_self)
  show ?thesis
    using translate_aligned [OF assms(2,3)] translate_aligned [OF assms(4,5)] assms(1) frame_offset [OF _ assms(6)] o
    by (simp add: copy_page_def Let_def k same_frame_def PGSIZE_def add.commute)
qed

lemma ustk_perm: "PTE_USTK AND NOT PTE_SYSCALL = 0" "flags_only PTE_USTK" "PTE_USTK OR PTE_P = PTE_USTK" "PTE_USTK AND PTE_W \<noteq> 0"
  by (simp_all add: PTE_USTK_def PTE_P_def PTE_U_def PTE_W_def PTE_SYSCALL_def flags_only_def)

text \<open>What the handler needs of the frame \<open>q\<close> that it gets from \<^verbatim>\<open>page_alloc\<close>: it is not part of the address
  space nor the shared frame \<open>p\<close>, and the allocation left both and the count of \<open>p\<close> alone.\<close>

definition fresh_frame :: "vm \<Rightarrow> nat \<Rightarrow> nat \<Rightarrow> nat \<Rightarrow> vm \<Rightarrow> bool" where
  "fresh_frame s d p q s1 \<longleftrightarrow> foreign s d q \<and> q \<noteq> p \<and> (\<forall>g\<in>insert p (user_frames s d). same_frame s s1 g) \<and>
     page_ref s1 p = page_ref s p \<and> npages_num (kb (vk s1)) = npages_num (kb (vk s))"

lemma user_frames_put: "space s d \<Longrightarrow> va < UTOP \<Longrightarrow> has_table s d va \<Longrightarrow> flags_only perm \<Longrightarrow>
    user_frames (put_entry d va pp perm s) d = user_frames s d"
  using put_entry_shape by (simp add: user_frames_def)

lemma user_frames_kb [simp]: "user_frames (upd_kb f s) d = user_frames s d" "user_frames (tlb_invalidate x y s) d = user_frames s d"
  by (simp_all add: user_frames_def)

lemma cow_copy:
  assumes cur: "cpu_proc (vp s) = Some c" "pid2proc i True (vp s) = Some (0, Some c)" "proc_pgdir s c = page2va d"
    and sp: "space s d" "P < UTOP" "P AND 0xFFF = 0" "has_table s d P" "mapping s d P = None"
    and r: "R < UTOP" "R AND 0xFFF = 0" "unat R div 4096 \<noteq> unat P div 4096" "mapping s d R = Some (p, fl)" "foreign s d p"
    and al: "page_alloc m True s = Some (Some q, s1)" "fresh_frame s d p q s1"
  shows "\<exists>s2 s3. user_page_alloc m i P PTE_USTK s = Some (0, s2) \<and> copy_page P R s2 = Some s3 \<and> space s3 d \<and>
    mapping s3 d P = Some (q, PTE_USTK) \<and> (\<forall>wa<UTOP. unat wa div 4096 \<noteq> unat P div 4096 \<longrightarrow> mapping s3 d wa = mapping s d wa) \<and>
    user_frames s3 d = user_frames s d \<and> page_ref s3 = (page_ref s1)(q := 1) \<and> same_frame s s3 p \<and>
    (\<forall>i<PGSIZE. omem (vk s3) (page2va q + of_nat i) = omem (vk s) (page2va p + of_nat i)) \<and>
    vp s3 = vp s \<and> proc_pgdir s3 = proc_pgdir s \<and> npages_num (kb (vk s3)) = npages_num (kb (vk s))"
proof -
  let ?p1 = "put_entry d P q PTE_USTK s1"
  let ?s2 = "tlb_invalidate (page2va d) P (upd_kb (set_ref q (page_ref s1 q + 1)) ?p1)"
  note f = al(2) [unfolded fresh_frame_def] and pa = page_alloc_frame [OF al(1)]
  have q: "q < 0x10000" "q < 0x100000" "foreign s d q" "q \<noteq> p" "p < 0x10000" using f r(5) by (auto simp: foreign_def)
  have "\<And>g. g \<in> user_frames s d \<Longrightarrow> same_frame s s1 g" using f by blast
  note a = same_space [OF sp(1) this]
  have h: "has_table s1 d P" "mapping s1 d P = None" "foreign s1 d p" "foreign s1 d q"
    using a(2,4,5) sp(2,4,5) r(5) q(3) by (simp_all add: foreign_iff)
  note pe = put_entry_map [OF a(1) sp(2) h(1) ustk_perm(2) q(2)]
    and uf = user_frames_put [OF a(1) sp(2) h(1) ustk_perm(2), of q]
  have run: "user_page_alloc m i P PTE_USTK s = Some (0, ?s2)"
    by (rule alloc_run [OF sp(2) ustk_perm(1) cur(2,3) al(1) a(1) h(1,2)])
  have c2: "cur_pgdir ?s2 = Some (page2va d)" using cur(1,3) pa(1,2) by (simp add: cur_pgdir_def)
  have m2: "space ?s2 d" "mapping ?s2 d P = Some (q, PTE_USTK)" "mapping ?s2 d R = Some (p, fl)"
    "\<forall>wa<UTOP. unat wa div 4096 \<noteq> unat P div 4096 \<longrightarrow> mapping ?s2 d wa = mapping s d wa"
    using pe ustk_perm(3) a(4) r(1,3,4) by simp_all
  obtain s3 where s3: "copy_page P R ?s2 = Some s3" "\<forall>g<0x10000. g \<noteq> q \<longrightarrow> same_frame ?s2 s3 g"
    "\<forall>i<PGSIZE. omem (vk s3) (page2va q + of_nat i) = omem (vk ?s2) (page2va p + of_nat i)"
    "vp s3 = vp ?s2" "proc_pgdir s3 = proc_pgdir ?s2" "kb (vk s3) = kb (vk ?s2)"
    using copy_run [OF c2 m2(2) sp(3) m2(3) r(2) q(1)] by blast
  have u2: "user_frames ?s2 d = user_frames s d" using uf a(5) by simp
  have "same_frame ?s2 s3 g" if "g \<in> user_frames ?s2 d" for g
    using s3(2) that q(3) user_frames_bound [OF m2(1)] u2 by (auto simp: foreign_iff)
  note b = same_space [OF m2(1) this]
  have pf: "same_frame s1 ?s2 p" using same_frame_put_entry [OF a(1) sp(2) h(1,3)] by simp
  have p1: "same_frame s s1 p" using f by blast
  then have p2: "same_frame s ?s2 p" using pf by (rule same_frame_trans)
  then have "same_frame s s3 p" using s3(2) q(4,5) same_frame_trans by metis
  moreover have "\<forall>i<PGSIZE. omem (vk s3) (page2va q + of_nat i) = omem (vk s) (page2va p + of_nat i)"
    using s3(3) p2 by (simp add: same_frame_def)
  moreover have "page_ref s3 = (page_ref s1)(q := 1)" using s3(6) pe(4) pa(3) by simp
  ultimately show ?thesis
    using run s3(1,4,5,6) b m2 u2 pa(1,2) f by (intro exI [of _ ?s2] exI [of _ s3]) (simp add: sp(2))
qed

lemma user_frames_unmap: "space s d \<Longrightarrow> va < UTOP \<Longrightarrow> has_table s d va \<Longrightarrow> user_frames (unmap d va q s) d = user_frames s d"
  using unmap_map by (simp add: user_frames_def)

text \<open>The rest of the handler: page \<open>R\<close> gives up \<open>p\<close>, takes \<open>q\<close> from page \<open>P\<close>, and \<open>P\<close> is
  unmapped.\<close>

lemma cow_move:
  assumes cur: "pid2proc i True (vp s) = Some (0, Some c)" "proc_pgdir s c = page2va d"
    and sp: "space s d" "P < UTOP" "P mod 4096 = 0" "R < UTOP" "R mod 4096 = 0" "unat R div 4096 \<noteq> unat P div 4096"
    and mp: "mapping s d P = Some (q, PTE_USTK)" "mapping s d R = Some (p, fl)" "p \<noteq> q"
    and nr: "p < npages_num (kb (vk s))" "q < npages_num (kb (vk s))" "page_ref s p \<noteq> 1" "page_ref s q = 1"
  shows "\<exists>s1 s2 s3. user_page_upmap i R s = Some (0, s1) \<and> user_page_map m i P i R PTE_USTK s1 = Some (0, s2) \<and>
    user_page_upmap i P s2 = Some (0, s3) \<and> space s3 d \<and> mapping s3 d R = Some (q, PTE_USTK) \<and> mapping s3 d P = None \<and>
    (\<forall>wa<UTOP. unat wa div 4096 \<notin> {unat P div 4096, unat R div 4096} \<longrightarrow> mapping s3 d wa = mapping s d wa) \<and>
    page_ref s3 = (page_ref s)(p := page_ref s p - 1) \<and> (\<forall>g. foreign s d g \<longrightarrow> same_frame s s3 g)"
proof -
  let ?s1 = "unmap d R p s"
  let ?s2 = "tlb_invalidate (page2va d) R (upd_kb (set_ref q (page_ref ?s1 q + 1)) (put_entry d R q PTE_USTK ?s1))"
  let ?s3 = "unmap d P q ?s2"
  note oP = mapping_pte [OF mp(1)] and oR = mapping_pte [OF mp(2)]
  have q: "q < 0x100000" using oP PGNUM_bound by metis
  note u = unmap_map [OF sp(1,4) conjunct1 [OF oR], where q = p]
  have one: "user_page_upmap i R s = Some (0, ?s1)" by (rule upmap_run [OF sp(4) cur sp(1) mp(2) nr(1,3)])
  have m1: "mapping ?s1 d P = Some (q, PTE_USTK)" using u(6) sp(2,6) mp(1) by simp
  have t1: "has_table ?s1 d R" "has_table ?s1 d P" "PGNUM (pte ?s1 d P) = q" using u(2) oR oP mapping_pte [OF m1] by simp_all
  have w1: "pte ?s1 d P AND PTE_W \<noteq> 0"
  proof -
    have "pte ?s1 d P AND 0xFFF = PTE_USTK" using m1 by (auto simp: mapping_def split: if_splits)
    then have "(pte ?s1 d P AND 0xFFF) AND PTE_W \<noteq> 0" using ustk_perm(4) by simp
    moreover have "0xFFF AND PTE_W = PTE_W" by (simp add: PTE_W_def)
    ultimately show ?thesis by (simp add: and.assoc)
  qed
  have two: "user_page_map m i P i R PTE_USTK ?s1 = Some (0, ?s2)"
    using user_page_map_run [OF sp(2,3,4,5) ustk_perm(1), of i ?s1 c i c d m] cur u(1) t1 w1 nr(2)
      insert_new [OF u(1) sp(4) t1(1) u(4)] by simp
  note e = put_entry_map [OF u(1) sp(4) t1(1) ustk_perm(2) q] and es = put_entry_shape [OF u(1) sp(4) t1(1) ustk_perm(2), of q]
  have m2: "space ?s2 d" "mapping ?s2 d P = Some (q, PTE_USTK)" "mapping ?s2 d R = Some (q, PTE_USTK)" "has_table ?s2 d P"
    using e m1 sp(2,6) ustk_perm(3) es t1 by simp_all
  have r2: "page_ref ?s2 = (page_ref s)(p := page_ref s p - 1, q := 2)" using e(4) u(5) mp(3) nr(4) by simp
  have three: "user_page_upmap i P ?s2 = Some (0, ?s3)"
    by (rule upmap_run [OF sp(2) _ _ m2(1,2)]) (use cur nr(2) r2 in simp_all)
  note v = unmap_map [OF m2(1) sp(2) m2(4), where q = q]
  have fr: "same_frame s ?s3 g" if g: "foreign s d g" for g
  proof -
    have "user_frames ?s1 d = user_frames s d" by (rule user_frames_unmap [OF sp(1,4) conjunct1 [OF oR]])
    moreover have "user_frames ?s2 d = user_frames ?s1 d" using user_frames_put [OF u(1) sp(4) t1(1) ustk_perm(2)] by simp
    ultimately have "foreign ?s1 d g" "foreign ?s2 d g" using g unfolding foreign_iff by simp_all
    then have "same_frame ?s1 ?s2 g" "same_frame ?s2 ?s3 g"
      using same_frame_put_entry [OF u(1) sp(4) t1(1)] same_frame_unmap [OF m2(1) sp(2) m2(4)] by simp_all
    then show ?thesis using same_frame_unmap [OF sp(1,4) conjunct1 [OF oR] g] same_frame_trans by metis
  qed
  have "mapping ?s3 d R = Some (q, PTE_USTK)" using v(6) sp(4,6) m2(3) by simp
  moreover have "page_ref ?s3 = (page_ref s)(p := page_ref s p - 1)"
    unfolding v(5) r2 using mp(3) nr(4) by (auto simp: fun_eq_iff)
  moreover have "mapping ?s3 d wa = mapping s d wa"
    if "wa < UTOP" "unat wa div 4096 \<notin> {unat P div 4096, unat R div 4096}" for wa
    using that v(6) e(3) u(6) by simp
  ultimately show ?thesis using one two three v(1,4) fr by blast
qed

lemma rounddown_aligned: "ROUNDDOWN va 4096 AND 0xFFF = 0" "ROUNDDOWN va 4096 mod 4096 = 0" "unat (ROUNDDOWN va 4096) div 4096 = unat va div 4096"
  "ROUNDDOWN va 4096 \<le> va"
proof -
  have "unat va < 2 ^ 32" using unsigned_less [of va] by simp
  then have n: "unat va div 4096 < 0x100000" by simp
  note i = page_index(1) [OF n, unfolded PGSIZE_def, unfolded mult.commute [of _ 4096]]
  show d: "unat (ROUNDDOWN va 4096) div 4096 = unat va div 4096" unfolding rounddown_page i by simp
  show "ROUNDDOWN va 4096 mod 4096 = 0" unfolding rounddown_page by (simp add: word_arith_nat_mod i del: of_nat_mult)
  have "unat (ROUNDDOWN va 4096 AND 0xFFF) = unat (ROUNDDOWN va 4096) mod 4096"
    unfolding mask12 take_bit_eq_mask [symmetric] unsigned_take_bit_eq by (simp add: take_bit_eq_mod)
  also have "\<dots> = 0" unfolding rounddown_page i by simp
  finally show "ROUNDDOWN va 4096 AND 0xFFF = 0" by (simp add: unat_eq_0)
  show "ROUNDDOWN va 4096 \<le> va" unfolding word_le_nat_alt unfolding rounddown_page i by simp
qed

lemma mapping_page: "unat va div 4096 = unat wa div 4096 \<Longrightarrow> mapping s d va = mapping s d wa"
  by (simp add: mapping_def has_table_def pte_def table_def index_div)

lemma PFTEMP_facts: "PFTEMP < UTOP" "PFTEMP AND 0xFFF = 0" "PFTEMP mod 4096 = 0" "unat PFTEMP div 4096 = 0x8047"
  by (simp_all add: PFTEMP_def UTEXT_def UTOP_def)

section \<open>Properties\<close>

text \<open>C17: copy-on-write: when a process writes to a page that it shares, and a frame is left, the fault handler
  gives it a private copy: the page is mapped, writable, to the fresh frame with the contents of the shared one;
  the shared frame keeps its contents and loses one reference, no other page changes, and the page that served for
  copying is unmapped again.\<close>

theorem cow_fault_makes_private_copy:
  assumes cur: "cpu_proc (vp s) = Some c" "pid2proc (pid (proc_of (vp s) c)) True (vp s) = Some (0, Some c)" "proc_pgdir s c = page2va d"
    and sp: "space s d" "self_mapped s d" "has_table s d PFTEMP" "mapping s d PFTEMP = None"
    and va: "trap_err AND FEC_WR \<noteq> 0" "falt_va < UTOP" "unat falt_va div 4096 \<noteq> unat PFTEMP div 4096"
    and m: "mapping s d falt_va = Some (p, fl)" "pte s d falt_va AND PTE_COW \<noteq> 0" "foreign s d p" "p < npages_num (kb (vk s))" "page_ref s p \<noteq> 1"
    and al: "page_alloc n True s = Some (Some q, s1)" "fresh_frame s d p q s1"
  shows "\<exists>s'. page_fault_handler n trap_err falt_va s = Some (FDone, s') \<and> mapping s' d falt_va = Some (q, PTE_USTK) \<and>
    (\<forall>i<PGSIZE. omem (vk s') (page2va q + of_nat i) = omem (vk s) (page2va p + of_nat i)) \<and> same_frame s s' p \<and>
    page_ref s' = (page_ref s1)(q := 1, p := page_ref s p - 1) \<and>
    (\<forall>wa<UTOP. unat wa div 4096 \<noteq> unat falt_va div 4096 \<longrightarrow> mapping s' d wa = mapping s d wa)"
proof -
  let ?R = "ROUNDDOWN falt_va 4096" and ?i = "pid (proc_of (vp s) c)"
  note r = rounddown_aligned [of falt_va] and f = al(2) [unfolded fresh_frame_def]
  have R: "?R < UTOP" "unat ?R div 4096 \<noteq> unat PFTEMP div 4096" "mapping s d ?R = Some (p, fl)"
    using le_less_trans [OF r(4) va(2)] va(3) m(1) mapping_page [OF r(3), of s d] unfolding r(3) by simp_all
  obtain s2 s3 where a: "user_page_alloc n ?i PFTEMP PTE_USTK s = Some (0, s2)" "copy_page PFTEMP ?R s2 = Some s3"
    and b: "space s3 d" "mapping s3 d PFTEMP = Some (q, PTE_USTK)"
      "\<forall>wa<UTOP. unat wa div 4096 \<noteq> unat PFTEMP div 4096 \<longrightarrow> mapping s3 d wa = mapping s d wa" "user_frames s3 d = user_frames s d"
      "page_ref s3 = (page_ref s1)(q := 1)" "same_frame s s3 p"
      "\<forall>i<PGSIZE. omem (vk s3) (page2va q + of_nat i) = omem (vk s) (page2va p + of_nat i)"
      "vp s3 = vp s" "proc_pgdir s3 = proc_pgdir s" "npages_num (kb (vk s3)) = npages_num (kb (vk s))"
    using cow_copy [OF cur sp(1) PFTEMP_facts(1,2) sp(3,4) R(1) r(1) R(2,3) m(3) al] by blast
  have fg: "foreign s3 d p" "foreign s3 d q" using m(3) f b(4) by (simp_all add: foreign_iff)
  have mR: "mapping s3 d ?R = Some (p, fl)" unfolding b(3) [rule_format, OF R(1,2)] by (rule R(3))
  have x: "pid2proc ?i True (vp s3) = Some (0, Some c)" "proc_pgdir s3 c = page2va d" "p \<noteq> q"
    "p < npages_num (kb (vk s3))" "q < npages_num (kb (vk s3))" "page_ref s3 p \<noteq> 1" "page_ref s3 q = 1"
    using cur f m(4,5) b(5,8,9,10) page_alloc_frame(4) [OF al(1)] by auto
  obtain t1 t2 t where t: "user_page_upmap ?i ?R s3 = Some (0, t1)" "user_page_map n ?i PFTEMP ?i ?R PTE_USTK t1 = Some (0, t2)"
      "user_page_upmap ?i PFTEMP t2 = Some (0, t)" "mapping t d ?R = Some (q, PTE_USTK)" "mapping t d PFTEMP = None"
      "\<forall>wa<UTOP. unat wa div 4096 \<notin> {unat PFTEMP div 4096, unat ?R div 4096} \<longrightarrow> mapping t d wa = mapping s3 d wa"
      "page_ref t = (page_ref s3)(p := page_ref s3 p - 1)" "\<forall>g. foreign s3 d g \<longrightarrow> same_frame s3 t g"
    using cow_move [where m = n, OF x(1,2) b(1) PFTEMP_facts(1,3) R(1) r(2) R(2) b(2) mR x(3-7)] by blast
  have run: "cow_pgfault n falt_va s = Some (FDone, t)" using cur(1) a t(1-3) by (simp add: cow_pgfault_def Let_def)
  have pn: "PGNUM falt_va = unat falt_va div 4096" unfolding PGNUM_def PGSHIFT_def unat_drop_bit_eq by (simp add: drop_bit_eq_div)
  have "uvpt s (PGNUM falt_va) = Some (pte s d falt_va)"
    using uvpt_read [OF _ sp(2) PGNUM_bound [of falt_va]] cur(1,3) sp(2) mapping_pte [OF m(1)] page_index [OF PGNUM_bound [of falt_va]]
    by (simp add: cur_pgdir_def has_table_def pte_def table_def pn index_div)
  then have h: "page_fault_handler n trap_err falt_va s = Some (FDone, t)" using run va(1) m(2) by (simp add: page_fault_handler_def)
  have "\<forall>i<PGSIZE. omem (vk t) (page2va q + of_nat i) = omem (vk s) (page2va p + of_nat i)"
    using t(8) fg(2) b(7) by (simp add: same_frame_def)
  moreover have "same_frame s t p" using t(8) fg(1) b(6) same_frame_trans by blast
  moreover have "page_ref t = (page_ref s1)(q := 1, p := page_ref s p - 1)" using t(7) b(5) f x(3) by simp
  moreover have "mapping t d falt_va = Some (q, PTE_USTK)" using t(4) mapping_page [OF r(3)] by metis
  moreover have "mapping t d wa = mapping s d wa" if "wa < UTOP" "unat wa div 4096 \<noteq> unat falt_va div 4096" for wa
    using that t(5,6) b(3) sp(4) mapping_page [of wa PFTEMP] unfolding r(3) by (cases "unat wa div 4096 = unat PFTEMP div 4096") (metis, simp)
  ultimately show ?thesis using h by blast
qed

text \<open>A machine for the fault: page \<open>0x400000\<close> of process 1 is mapped to frame 5, copy-on-write and used
  twice, frame 3 holds the table of the page for copying, and the cache of pages has one free object, frame 9.\<close>

definition cow_base :: vm where
  "cow_base = zero_vm\<lparr>vk := (vk zero_vm)\<lparr>kb := (kb (vk zero_vm))\<lparr>p_ref := (\<lambda>_. 2)\<rparr>,
     sl := \<lparr>lnext = (\<lambda>_. None), lprev = (\<lambda>n. Some (if n = SlabsEmpty 7 then SlabNode 0x1000 else n))\<rparr>,
     slabs := (\<lambda>_. \<lparr>first_obj_mem = page2va 9, n_inuse = 0, sfree = 0, objs_desc_array = init_links 1\<rparr>),
     caches := (\<lambda>_. \<lparr>free_objects = 1, obj_size = 4096, n_objs_per_slab = 1, n_pages_per_slab = 1, gfp_flags = 0, kc_locked = False\<rparr>)\<rparr>\<rparr>"

definition cow_vm :: vm where
  "cow_vm = store (entry (page2va 1) 1) 0x2007 (store (entry (page2va 2) 0) 0x5805 (store (entry (page2va 1) 32) 0x3007
     (store (entry (page2va 1) (PDINDEX UVPT)) 0x1005 cow_base)))"

lemma cow_load:
  assumes "f < 0x10000" "i < 1024"
  shows "load cow_vm (entry (page2va f) i) = (if f = 1 \<and> i = 1 then 0x2007 else if f = 2 \<and> i = 0 then 0x5805
    else if f = 1 \<and> i = 32 then 0x3007 else if f = 1 \<and> i = PDINDEX UVPT then 0x1005 else 0)"
proof -
  have "load cow_base a = 0" for a by (simp add: load_def rd32_def cow_base_def zero_vm_def)
  then show ?thesis
    using assms index_bound by (simp add: cow_vm_def load_store eq_commute [of _ f] eq_commute [of _ i])
qed

lemma cow_pde: "va < UTOP \<Longrightarrow> pde cow_vm 1 (PDINDEX va) = (if PDINDEX va = 1 then 0x2007 else if PDINDEX va = 32 then 0x3007 else 0)"
  using tiny_index [of va] index_bound(1) [of va] by (simp add: pde_def cow_load)

lemma cow_num: "PGNUM 0x2007 = 2" "PGNUM 0x3007 = 3" "PGNUM 0x5805 = 5"
  by (simp_all add: PGNUM_def PGSHIFT_def)

lemma cow_space: "space cow_vm 1" "user_frames cow_vm 1 \<subseteq> {1, 2, 3}" "self_mapped cow_vm 1"
proof -
  show "space cow_vm 1"
    by (auto simp: space_def has_table_def table_def cow_pde cow_num simp del: One_nat_def split: if_splits)
  show "user_frames cow_vm 1 \<subseteq> {1, 2, 3}"
    by (auto simp: user_frames_def has_table_def table_def cow_pde cow_num simp del: One_nat_def split: if_splits)
  have "PDINDEX UVPT = 956" by (simp add: PDINDEX_def UVPT_def)
  then show "self_mapped cow_vm 1" by (simp add: self_mapped_def pde_def cow_load PGNUM_def PGSHIFT_def PTE_P_def)
qed

lemma cow_mapping: "has_table cow_vm 1 PFTEMP" "mapping cow_vm 1 PFTEMP = None" "mapping cow_vm 1 0x400010 = Some (5, 0x805)"
  "pte cow_vm 1 0x400010 = 0x5805"
proof -
  have i: "PDINDEX PFTEMP = 32" "PTINDEX PFTEMP = 71" "PDINDEX 0x400010 = 1" "PTINDEX 0x400010 = 0" "(0x400010 :: u32) < UTOP"
    by (simp_all add: PDINDEX_def PTINDEX_def PFTEMP_def UTEXT_def UTOP_def)
  have t: "pde cow_vm 1 32 = 0x3007" "pde cow_vm 1 1 = 0x2007" using cow_pde [OF PFTEMP_facts(1)] cow_pde [OF i(5)] i by simp_all
  show h: "has_table cow_vm 1 PFTEMP" using i t by (simp add: has_table_def PTE_P_def)
  have h2: "has_table cow_vm 1 0x400010" using i t by (simp add: has_table_def PTE_P_def)
  have "table cow_vm 1 PFTEMP = 3" "table cow_vm 1 0x400010 = 2" using i t by (simp_all add: table_def cow_num)
  then have p: "pte cow_vm 1 PFTEMP = 0" "pte cow_vm 1 0x400010 = 0x5805" using i by (simp_all add: pte_def cow_load)
  then show "pte cow_vm 1 0x400010 = 0x5805" "mapping cow_vm 1 PFTEMP = None" "mapping cow_vm 1 0x400010 = Some (5, 0x805)"
    using h h2 by (simp_all add: mapping_def PTE_P_def cow_num)
qed

lemma cow_proc: "vp cow_vm = vp zero_vm" "proc_pgdir cow_vm 1 = page2va 1" "npages_num (kb (vk cow_vm)) = 16" "page_ref cow_vm g = 2"
  by (simp_all add: cow_vm_def store_def cow_base_def zero_vm_def)

definition cow_next :: vm where
  "cow_next = (let k = upd_slab 0x1000 (\<lambda>r. r\<lparr>sfree := BUFCTL_END, n_inuse := 1\<rparr>) (vk cow_vm);
       k = upd_cache 7 (\<lambda>r. r\<lparr>free_objects := 0\<rparr>) k
     in upd_kb (set_ref 9 0) (cow_vm\<lparr>vk := kzero (page2va 9) 4096 k\<rparr>))"

lemma cow_kstate: "caches (vk cow_vm) = caches (vk cow_base)" "slabs (vk cow_vm) = slabs (vk cow_base)" "sl (vk cow_vm) = sl (vk cow_base)"
  by (simp_all add: cow_vm_def store_def)

lemma kmalloc_page: "kmalloc_index PGSIZE 32 0 = 7"
  by (simp add: PGSIZE_def)

lemma va2page_9: "va2page (kb (vk cow_vm)) (page2va 9) = Some 9"
  by (simp add: va2page_def pa2page_def cow_proc page2va_def page2pa_def PGNUM_def PGSHIFT_def KERNBASE_def)

lemma cow_page_alloc: "page_alloc 1 True cow_vm = Some (Some 9, cow_next)"
proof -
  let ?k = "upd_cache 7 (\<lambda>r. r\<lparr>free_objects := 0\<rparr>) (upd_slab 0x1000 (\<lambda>r. r\<lparr>sfree := BUFCTL_END, n_inuse := 1\<rparr>) (vk cow_vm))"
  have "kmem_cache_alloc 1 7 GFP_ZERO (vk cow_vm) = Some (KGot (page2va 9), kzero (page2va 9) 4096 ?k)"
    by (simp add: kmem_cache_alloc_def cache_alloc_body_def cache_lock_def cache_unlock_def take_object_def Let_def
        add_free_objects_def upd_cache_def upd_slab_def cow_kstate cow_base_def init_links_def BUFCTL_END_def kzero_def fun_eq_iff)
  then have "kmalloc 1 PGSIZE GFP_ZERO (vk cow_vm) = Some (KGot (page2va 9), kzero (page2va 9) 4096 ?k)"
    unfolding kmalloc_def kmalloc_page by (simp add: SLAB_SIZE_def GFP_ZERO_def GFP_DMA_def PGSIZE_def)
  moreover have "kb (kzero (page2va 9) 4096 ?k) = kb (vk cow_vm)" by (simp add: kzero_def upd_cache_def upd_slab_def)
  ultimately show ?thesis by (simp add: page_alloc_def va2page_9 cow_next_def Let_def)
qed

lemma cow_next_frame: "g < 0x10000 \<Longrightarrow> g \<noteq> 9 \<Longrightarrow> same_frame cow_vm cow_next g" "page_ref cow_next = (\<lambda>_. 2)(9 := 0)"
  "npages_num (kb (vk cow_next)) = 16"
  using frame_offset [of g 9]
  by (auto simp: same_frame_def cow_next_def Let_def upd_kb_def kzero_def upd_slab_def upd_cache_def PGSIZE_def set_ref_def cow_proc)

theorem cow_fault_makes_private_copy_witness:
  "\<exists>s'. page_fault_handler 1 FEC_WR 0x400010 cow_vm = Some (FDone, s') \<and> mapping s' 1 0x400010 = Some (9, PTE_USTK) \<and>
    same_frame cow_vm s' 5 \<and> page_ref s' 5 = 1 \<and> page_ref s' 9 = 1"
proof -
  have fg: "foreign cow_vm 1 5" "foreign cow_vm 1 9" using cow_space(2) by (auto simp: foreign_iff)
  have fr: "fresh_frame cow_vm 1 5 9 cow_next"
    using cow_next_frame cow_space(2) fg(2) by (auto simp: fresh_frame_def cow_proc)
  note r = cow_fault_makes_private_copy [of cow_vm 1 1 FEC_WR "0x400010" 5 "0x805" 1 9 cow_next]
  have f: "cpu_proc (vp cow_vm) = Some 1" "pid2proc (pid (proc_of (vp cow_vm) 1)) True (vp cow_vm) = Some (0, Some 1)"
    "FEC_WR AND FEC_WR \<noteq> 0" "(0x400010 :: u32) < UTOP" "unat (0x400010 :: u32) div 4096 \<noteq> unat PFTEMP div 4096"
    "pte cow_vm 1 0x400010 AND PTE_COW \<noteq> 0" "5 < npages_num (kb (vk cow_vm))" "page_ref cow_vm 5 \<noteq> 1"
    using tiny_pids by (simp_all add: cow_proc tiny_proc FEC_WR_def UTOP_def PFTEMP_facts cow_mapping PTE_COW_def del: One_nat_def)
  obtain s' where s: "page_fault_handler 1 FEC_WR 0x400010 cow_vm = Some (FDone, s')" "mapping s' 1 0x400010 = Some (9, PTE_USTK)"
    "same_frame cow_vm s' 5" "page_ref s' = (page_ref cow_next)(9 := 1, 5 := page_ref cow_vm 5 - 1)"
    using r [OF f(1,2) cow_proc(2) cow_space(1,3) cow_mapping(1,2) f(3-5) cow_mapping(3) f(6) fg(1) f(7,8) cow_page_alloc fr] by blast
  then show ?thesis by (intro exI [of _ s']) (simp add: cow_proc)
qed

end
