(* ===== verification/Shell.thy ===== *)
theory Shell
  imports Prelude
begin

text \<open>
  The command shell (user/sh.c): its tokenizer, its recursive-descent parser, the search through
  \<^verbatim>\<open>PATH\<close> and the execution of a parsed command.

  The parser works on the bytes between \<^verbatim>\<open>*ps\<close> and \<^verbatim>\<open>es\<close>: a position is the list of the
  characters that are left, the empty list is \<^verbatim>\<open>s == es\<close>, where the terminator is read.  Every loop is a
  partial function whose value \<^const>\<open>None\<close> means that it does not end.  A call of \<^verbatim>\<open>panic\<close>, which
  prints its message and leaves the process, is a value of \<open>shell_panic\<close>.  Allocation with
  \<^verbatim>\<open>malloc\<close> is taken to succeed.
\<close>

section \<open>Commands\<close>

definition MAXARGS :: nat where "MAXARGS = 10"
definition CMDLEN :: nat where "CMDLEN = 20"
definition U_O_RDONLY :: int where "U_O_RDONLY = 1"
definition U_O_WRONLY :: int where "U_O_WRONLY = 2"
definition U_O_CREAT :: int where "U_O_CREAT = 8"

datatype shell_panic = MissingFile | SyntaxError | TooManyArgs | ParsecmdError | OpenFailed | PipeError | ForkError

datatype cmd =
    ExecCmd "string list"
  | RedirCmd char cmd string int int
  | PipeCmd cmd cmd
  | BackCmd cmd

definition redircmd :: "cmd \<Rightarrow> string \<Rightarrow> char \<Rightarrow> cmd" where
  "redircmd subcmd file t = RedirCmd t subcmd file
     (if t = CHR ''<'' then U_O_RDONLY else U_O_WRONLY + U_O_CREAT) (if t = CHR ''<'' then 0 else 1)"

definition execcmd :: cmd where "execcmd = ExecCmd []"

text \<open>\<^verbatim>\<open>cmd->argv[argc] = arg\<close>: the structure that \<^verbatim>\<open>parseexec\<close> allocated is at the end of the chain of
  redirections that was built around it.\<close>

fun push_arg :: "string \<Rightarrow> cmd \<Rightarrow> cmd" where
  "push_arg w (ExecCmd ws) = ExecCmd (ws @ [w])"
| "push_arg w (RedirCmd t c f m fd) = RedirCmd t (push_arg w c) f m fd"
| "push_arg w c = c"

section \<open>Tokens\<close>

definition whitespace :: string where "whitespace = [CHR '' '', CHR 0x09, CHR 0x0D, CHR 0x0A, CHR 0x0B]"
definition symbols :: string where "symbols = ''<|>&''"

text \<open>The result of \<^verbatim>\<open>gettoken\<close>: its return value, the characters between \<^verbatim>\<open>*q\<close> and \<^verbatim>\<open>*eq\<close>, and
  the new position.\<close>

definition gettoken :: "string \<Rightarrow> char \<times> string \<times> string" where
  "gettoken s =
     (let s = dropWhile (\<lambda>c. c \<in> set whitespace) s;
          skip = dropWhile (\<lambda>c. c \<in> set whitespace);
          wordchar = (\<lambda>c. c \<notin> set whitespace \<and> c \<notin> set symbols)
      in case s of [] \<Rightarrow> (CHR 0x00, [], [])
         | c # r \<Rightarrow>
             if c = CHR 0x00 then (c, [], skip s)
             else if c \<in> set symbols then (c, [c], skip r)
             else (CHR ''a'', takeWhile wordchar s, skip (dropWhile wordchar s)))"

definition peek :: "string \<Rightarrow> string \<Rightarrow> bool \<times> string" where
  "peek s toks =
     (let s = dropWhile (\<lambda>c. c \<in> set whitespace) s
      in (case s of [] \<Rightarrow> False | c # _ \<Rightarrow> c \<noteq> CHR 0x00 \<and> c \<in> set toks, s))"

section \<open>Parser\<close>

type_synonym 'a presult = "(shell_panic + 'a) option"

text \<open>\<^verbatim>\<open>safe_copy(q, eq)\<close> is the list of characters between the two positions.\<close>

partial_function (option) parseredirs :: "cmd \<Rightarrow> string \<Rightarrow> (cmd \<times> string) presult" where
  "parseredirs c s =
     (let (more, s) = peek s ''<>'' in
      if \<not> more then Some (Inr (c, s))
      else let (tok, _, s) = gettoken s; (t, w, s) = gettoken s in
           if t \<noteq> CHR ''a'' then Some (Inl MissingFile)
           else parseredirs (if tok = CHR ''<'' then redircmd c w CHR ''<''
                             else if tok = CHR ''>'' then redircmd c w CHR ''>'' else c) s)"

partial_function (option) parseexec_loop :: "nat \<Rightarrow> cmd \<Rightarrow> string \<Rightarrow> (cmd \<times> string) presult" where
  "parseexec_loop argc ret s =
     (let (stop, s) = peek s ''|&'' in
      if stop then Some (Inr (ret, s))
      else let (tok, w, s) = gettoken s in
           if tok = CHR 0x00 then Some (Inr (ret, s))
           else if tok \<noteq> CHR ''a'' then Some (Inl SyntaxError)
           else if MAXARGS \<le> Suc argc then Some (Inl TooManyArgs)
           else do {
             r \<leftarrow> parseredirs (push_arg w ret) s;
             case r of Inl e \<Rightarrow> Some (Inl e) | Inr (ret, s) \<Rightarrow> parseexec_loop (Suc argc) ret s
           })"

definition parseexec :: "string \<Rightarrow> (cmd \<times> string) presult" where
  "parseexec s = do {
     r \<leftarrow> parseredirs execcmd s;
     case r of Inl e \<Rightarrow> Some (Inl e) | Inr (ret, s) \<Rightarrow> parseexec_loop 0 ret s
   }"

partial_function (option) parsepipe :: "string \<Rightarrow> (cmd \<times> string) presult" where
  "parsepipe s = do {
     r \<leftarrow> parseexec s;
     case r of Inl e \<Rightarrow> Some (Inl e)
     | Inr (c, s) \<Rightarrow>
         let (more, s) = peek s ''|'' in
         if \<not> more then Some (Inr (c, s))
         else do {
           r \<leftarrow> parsepipe (snd (snd (gettoken s)));
           case r of Inl e \<Rightarrow> Some (Inl e) | Inr (d, s) \<Rightarrow> Some (Inr (PipeCmd c d, s))
         }
   }"

partial_function (option) parseline_loop :: "cmd \<Rightarrow> string \<Rightarrow> (cmd \<times> string) presult" where
  "parseline_loop c s =
     (let (more, s) = peek s ''&'' in
      if more then parseline_loop (BackCmd c) (snd (snd (gettoken s))) else Some (Inr (c, s)))"

definition parseline :: "string \<Rightarrow> (cmd \<times> string) presult" where
  "parseline s = do {
     r \<leftarrow> parsepipe s;
     case r of Inl e \<Rightarrow> Some (Inl e) | Inr (c, s) \<Rightarrow> parseline_loop c s
   }"

text \<open>\<^verbatim>\<open>parsecmd\<close> gets a buffer; \<^verbatim>\<open>es = s + strlen(s)\<close> is the position of its first terminator.\<close>

definition parsecmd :: "string \<Rightarrow> cmd presult" where
  "parsecmd buf = do {
     r \<leftarrow> parseline (takeWhile (\<lambda>c. c \<noteq> CHR 0x00) buf);
     case r of Inl e \<Rightarrow> Some (Inl e)
     | Inr (c, s) \<Rightarrow> if snd (peek s []) \<noteq> [] then Some (Inl ParsecmdError) else Some (Inr c)
   }"

section \<open>Execution\<close>

definition PATH :: string where "PATH = ''/:/bin/:/usr/bin/:/usr/local/bin/:''"

text \<open>\<^verbatim>\<open>splicingcmd\<close> with the contents of the buffer \<^verbatim>\<open>rs\<close> and the position \<^verbatim>\<open>*p\<close>; the outer \<^const>\<open>None\<close> is a
  write behind the \<open>CMDLEN\<close> bytes of the buffer, the inner one the null pointer.\<close>

definition splicingcmd :: "string \<Rightarrow> string \<Rightarrow> nat \<Rightarrow> (string option \<times> string \<times> nat) option" where
  "splicingcmd c rs p =
     (if length PATH \<le> p then Some (None, rs, p)
      else if c \<noteq> [] \<and> hd c = CHR ''/'' then Some (Some c, rs, p)
      else let dir = takeWhile (\<lambda>x. x \<noteq> CHR '':'') (drop p PATH);
               len = length dir + length c + 1
           in if CMDLEN \<le> len then None
              else Some (Some (dir @ c), dir @ c, p + length dir + 1))"

text \<open>The system calls of \<^verbatim>\<open>runcmd\<close>.  The kernel's answers are a parameter: \<open>ans h\<close> is the return value
  of the last call of the history \<open>h\<close>, \<open>pfds h\<close> the descriptors that \<^verbatim>\<open>pipe\<close> stored.  A \<^verbatim>\<open>fork\<close> that
  returns 0 continues in the child, one that returns a positive number in the parent, so a run is what
  one process does.\<close>

datatype call = CExec string "string list" | CNotFound | CClose int | COpen string int | CPipe | CFork | CWait
  | CDup2 int int | CExit | CPanic shell_panic | CFault

record kernel =
  ans :: "call list \<Rightarrow> int"
  pfds :: "call list \<Rightarrow> int \<times> int"

text \<open>The loop over the directories; a successful \<^verbatim>\<open>exec\<close> does not return, so that the run ends with it.\<close>

partial_function (option) exec_loop :: "kernel \<Rightarrow> string list \<Rightarrow> string \<Rightarrow> nat \<Rightarrow> call list \<Rightarrow> call list option" where
  "exec_loop k argv rs p h =
     (case splicingcmd (hd argv) rs p of None \<Rightarrow> Some (h @ [CFault])
      | Some (r, rs, p) \<Rightarrow>
          if r = None then Some (h @ [CNotFound, CExit])
          else let h = h @ [CExec rs argv] in
               if ans k h \<noteq> 0 then exec_loop k argv rs p h else Some h)"

text \<open>\<open>rs\<close> is what the uninitialised buffer \<^verbatim>\<open>rscmd\<close> holds when \<^verbatim>\<open>runcmd\<close> is entered.\<close>

fun runcmd :: "kernel \<Rightarrow> string \<Rightarrow> cmd \<Rightarrow> call list \<Rightarrow> call list option" where
  "runcmd k rs (ExecCmd argv) h = (if argv = [] then Some (h @ [CExit]) else exec_loop k argv rs 0 h)"
| "runcmd k rs (RedirCmd t c file mode fd) h =
     (let h = h @ [CClose fd, COpen file mode] in
      if ans k h < 0 then Some (h @ [CPanic OpenFailed, CExit]) else runcmd k rs c h)"
| "runcmd k rs (PipeCmd l r) h =
     (let h = h @ [CPipe] in
      if ans k h < 0 then Some (h @ [CPanic PipeError, CExit])
      else let (p0, p1) = pfds k h; h = h @ [CFork] in
           if ans k h < 0 then Some (h @ [CPanic ForkError, CExit])
           else if ans k h \<noteq> 0 then runcmd k rs r (h @ [CWait, CClose p1, CDup2 p0 0])
           else runcmd k rs l (h @ [CClose p0, CDup2 p1 1]))"
| "runcmd k rs (BackCmd c) h =
     (let h = h @ [CFork] in
      if ans k h < 0 then Some (h @ [CPanic ForkError, CExit])
      else if ans k h = 0 then runcmd k rs c h
      else Some (h @ [CExit]))"

section \<open>The command loop\<close>

definition SHELLBUF :: nat where "SHELLBUF = 100"

text \<open>\<^verbatim>\<open>gets(buf, max)\<close> on the characters \<^verbatim>\<open>read\<close> delivers (user/uprintf.c): at most \<open>max - 1\<close>, up to and
  including the end of the line.  The first argument is \<open>max - 1 - i\<close>.\<close>

fun gets_loop :: "nat \<Rightarrow> string \<Rightarrow> string \<times> string" where
  "gets_loop 0 inp = ([], inp)"
| "gets_loop (Suc n) [] = ([], [])"
| "gets_loop (Suc n) (c # inp) =
     (if c = CHR 0x0A \<or> c = CHR 0x0D then ([c], inp)
      else let (l, inp) = gets_loop n inp in (c # l, inp))"

definition gets :: "nat \<Rightarrow> string \<Rightarrow> string \<times> string" where
  "gets maxlen inp = gets_loop (maxlen - 1) inp"

datatype shell_action = AExit | AChdir string | ARun string

text \<open>One round of the loop of \<^verbatim>\<open>wmain\<close> with \<^verbatim>\<open>getcmd\<close>.  \<^verbatim>\<open>cd\<close> is recognised by the first two
  characters; the last character of the line, which is the newline unless the line was cut off, is removed.\<close>

definition wmain_step :: "string \<Rightarrow> shell_action \<times> string" where
  "wmain_step inp =
     (let (l, inp) = gets SHELLBUF inp;
          buf = takeWhile (\<lambda>c. c \<noteq> CHR 0x00) l
      in if buf = [] then (AExit, inp)
         else if take 2 buf = ''cd''
         then (AChdir (drop (2 + length (takeWhile (\<lambda>c. c = CHR '' '') (drop 2 buf))) (butlast buf)), inp)
         else (ARun buf, inp))"

end
