(* ===== verification/Shell_Props.thy ===== *)
theory Shell_Props
  imports Shell
begin

text \<open>The parser of the shell against a reference grammar on token lists, the shape of what it returns,
  printing and parsing, and the search through \<^verbatim>\<open>PATH\<close>.\<close>

section \<open>Reference lexer and grammar\<close>

datatype token = Word string | Sym char

definition is_ws :: "char \<Rightarrow> bool" where "is_ws c \<longleftrightarrow> c \<in> set whitespace"
definition is_sym :: "char \<Rightarrow> bool" where "is_sym c \<longleftrightarrow> c \<in> set symbols"
definition is_wordchar :: "char \<Rightarrow> bool" where "is_wordchar c \<longleftrightarrow> \<not> is_ws c \<and> \<not> is_sym c"

function lex :: "string \<Rightarrow> token list" where
  "lex s = (case dropWhile is_ws s of [] \<Rightarrow> []
     | c # r \<Rightarrow> if is_sym c then Sym c # lex r
               else Word (takeWhile is_wordchar (c # r)) # lex (dropWhile is_wordchar (c # r)))"
  by pat_completeness auto
termination
proof (relation "measure length", goal_cases)
  case (2 s c r)
  then have "length (c # r) \<le> length s" by (metis length_dropWhile_le)
  then show ?case by simp
next
  case (3 s c r)
  then have "\<not> is_ws c" by (metis hd_dropWhile list.sel(1) list.distinct(1))
  with 3 have "is_wordchar c" by (simp add: is_wordchar_def)
  moreover have "length (c # r) \<le> length s" using 3 by (metis length_dropWhile_le)
  ultimately show ?case using length_dropWhile_le [of is_wordchar r] by simp
qed simp

declare lex.simps [simp del]

text \<open>The grammar: a simple command is a sequence of words and redirections; a pipeline is simple
  commands separated by \<^verbatim>\<open>|\<close>; a line is a pipeline followed by any number of \<^verbatim>\<open>&\<close>.\<close>

fun ref_simple :: "nat \<Rightarrow> cmd \<Rightarrow> token list \<Rightarrow> shell_panic + cmd \<times> token list" where
  "ref_simple n c [] = Inr (c, [])"
| "ref_simple n c (Word w # ts) =
     (if MAXARGS \<le> Suc n then Inl TooManyArgs else ref_simple (Suc n) (push_arg w c) ts)"
| "ref_simple n c (Sym x # Word f # ts) =
     (if x \<in> set ''<>'' then ref_simple n (redircmd c f x) ts else Inr (c, Sym x # Word f # ts))"
| "ref_simple n c (Sym x # ts) = (if x \<in> set ''<>'' then Inl MissingFile else Inr (c, Sym x # ts))"

lemma ref_simple_length: "ref_simple n c ts = Inr (d, us) \<Longrightarrow> length us \<le> length ts"
  by (induction n c ts rule: ref_simple.induct) (auto split: if_splits)

function ref_pipe :: "token list \<Rightarrow> shell_panic + cmd \<times> token list" where
  "ref_pipe ts = (case ref_simple 0 (ExecCmd []) ts of Inl e \<Rightarrow> Inl e
     | Inr (c, us) \<Rightarrow>
         (if us \<noteq> [] \<and> hd us = Sym CHR ''|''
          then case ref_pipe (tl us) of Inl e \<Rightarrow> Inl e | Inr (d, vs) \<Rightarrow> Inr (PipeCmd c d, vs)
          else Inr (c, us)))"
  by pat_completeness auto
termination
proof (relation "measure length", goal_cases)
  case (2 ts p c us)
  then show ?case using ref_simple_length [of 0 "ExecCmd []" ts c us] by (cases us) auto
qed simp

declare ref_pipe.simps [simp del]

definition ref_parse :: "token list \<Rightarrow> shell_panic + cmd" where
  "ref_parse ts = (case ref_pipe ts of Inl e \<Rightarrow> Inl e
     | Inr (c, us) \<Rightarrow> if set us \<subseteq> {Sym CHR ''&''} then Inr ((BackCmd ^^ length us) c) else Inl ParsecmdError)"

section \<open>The tokenizer\<close>

definition nulfree :: "string \<Rightarrow> bool" where "nulfree s \<longleftrightarrow> CHR 0x00 \<notin> set s"

lemma nulfree_drop: "nulfree s \<Longrightarrow> nulfree (dropWhile P s)"
  by (auto simp: nulfree_def dest: set_dropWhileD)

lemma lex_skip [simp]: "lex (dropWhile is_ws s) = lex s"
  by (simp add: lex.simps [of s] lex.simps [of "dropWhile is_ws s"] dropWhile_idem)

lemma lex_step:
  obtains (fin) "dropWhile is_ws s = []" "lex s = []"
  | (sym) c r where "dropWhile is_ws s = c # r" "is_sym c" "lex s = Sym c # lex r"
  | (word) c r where "dropWhile is_ws s = c # r" "is_wordchar c"
      "lex s = Word (takeWhile is_wordchar (c # r)) # lex (dropWhile is_wordchar (c # r))"
proof (cases "dropWhile is_ws s")
  case Nil
  have "lex s = []" unfolding lex.simps [of s] Nil by simp
  then show ?thesis using Nil fin by blast
next
  case (Cons c r)
  then have "\<not> is_ws c" by (metis hd_dropWhile list.sel(1) list.distinct(1))
  moreover have "lex s = (if is_sym c then Sym c # lex r
      else Word (takeWhile is_wordchar (c # r)) # lex (dropWhile is_wordchar (c # r)))"
    unfolding lex.simps [of s] Cons by (simp only: list.case)
  ultimately show ?thesis using Cons sym word by (cases "is_sym c") (simp_all add: is_wordchar_def)
qed

lemma special_chars:
  "\<not> is_ws CHR 0x00" "\<not> is_sym CHR 0x00" "is_sym c \<longleftrightarrow> c \<in> {CHR ''<'', CHR ''|'', CHR ''>'', CHR ''&''}" "is_sym c \<Longrightarrow> \<not> is_ws c"
  by (auto simp: is_ws_def is_sym_def whitespace_def symbols_def)

lemma class_eqs:
  "(\<lambda>c. c \<in> set whitespace) = is_ws" "(\<lambda>c. c \<notin> set whitespace \<and> c \<notin> set symbols) = is_wordchar"
  by (simp_all add: fun_eq_iff is_ws_def is_sym_def is_wordchar_def)

lemma peek_alt: "peek s toks = (case dropWhile is_ws s of [] \<Rightarrow> False | c # _ \<Rightarrow> c \<noteq> CHR 0x00 \<and> c \<in> set toks, dropWhile is_ws s)"
  by (simp only: peek_def Let_def class_eqs)

lemma gettoken_alt:
  "gettoken s = (case dropWhile is_ws s of [] \<Rightarrow> (CHR 0x00, [], [])
     | c # r \<Rightarrow> if c = CHR 0x00 then (c, [], dropWhile is_ws (dropWhile is_ws s))
               else if is_sym c then (c, [c], dropWhile is_ws r)
               else (CHR ''a'', takeWhile is_wordchar (dropWhile is_ws s), dropWhile is_ws (dropWhile is_wordchar (dropWhile is_ws s))))"
  by (simp only: gettoken_def Let_def class_eqs is_sym_def)

text \<open>What \<^verbatim>\<open>peek\<close> and \<^verbatim>\<open>gettoken\<close> do, in terms of the tokens that are left.\<close>

lemma peek_lex:
  assumes "nulfree s" "set toks \<subseteq> set symbols"
  shows "\<exists>s'. peek s toks = (\<exists>x ts. lex s = Sym x # ts \<and> x \<in> set toks, s') \<and> lex s' = lex s \<and> nulfree s'"
proof -
  have n: "nulfree (dropWhile is_ws s)" using assms(1) by (rule nulfree_drop)
  have "(case dropWhile is_ws s of [] \<Rightarrow> False | c # _ \<Rightarrow> c \<noteq> CHR 0x00 \<and> c \<in> set toks) =
      (\<exists>x ts. lex s = Sym x # ts \<and> x \<in> set toks)"
  proof (cases s rule: lex_step)
    case (sym c r)
    then show ?thesis using n by (auto simp: nulfree_def)
  next
    case (word c r)
    then have "c \<notin> set toks" using assms(2) by (auto simp: is_wordchar_def is_sym_def)
    then show ?thesis using word by simp
  qed (simp only: list.case, simp)
  then show ?thesis using n by (simp add: peek_alt)
qed

lemma gettoken_lex:
  assumes "nulfree s"
  shows "lex s = [] \<Longrightarrow> gettoken s = (CHR 0x00, [], [])"
    and "lex s = Sym x # ts \<Longrightarrow> \<exists>s'. gettoken s = (x, [x], s') \<and> lex s' = ts \<and> nulfree s'"
    and "lex s = Word w # ts \<Longrightarrow> \<exists>s'. gettoken s = (CHR ''a'', w, s') \<and> lex s' = ts \<and> nulfree s'"
proof -
  have n: "nulfree (dropWhile is_ws s)" using assms by (rule nulfree_drop)
  then have hd0: "dropWhile is_ws s = c # r \<Longrightarrow> c \<noteq> CHR 0x00 \<and> nulfree r" for c r by (auto simp: nulfree_def)
  show "lex s = [] \<Longrightarrow> gettoken s = (CHR 0x00, [], [])"
    by (cases s rule: lex_step) (simp_all only: gettoken_alt list.case list.distinct)
  show "\<exists>s'. gettoken s = (x, [x], s') \<and> lex s' = ts \<and> nulfree s'" if "lex s = Sym x # ts"
  proof (cases s rule: lex_step)
    case (sym c r)
    then show ?thesis using that hd0 [OF sym(1)] by (simp add: gettoken_alt nulfree_drop)
  qed (use that in simp_all)
  show "\<exists>s'. gettoken s = (CHR ''a'', w, s') \<and> lex s' = ts \<and> nulfree s'" if "lex s = Word w # ts"
  proof (cases s rule: lex_step)
    case (word c r)
    then have "\<not> is_sym c" by (simp add: is_wordchar_def)
    moreover have "nulfree (dropWhile is_wordchar (c # r))" using n word(1) by (metis nulfree_drop)
    ultimately show ?thesis using that word hd0 [OF word(1)] by (simp add: gettoken_alt nulfree_drop)
  qed (use that in simp_all)
qed

definition tok_ok :: "token \<Rightarrow> bool" where
  "tok_ok t \<longleftrightarrow> (case t of Word w \<Rightarrow> w \<noteq> [] \<and> list_all is_wordchar w | Sym x \<Rightarrow> is_sym x)"

lemma lex_ok: "list_all tok_ok (lex s)"
proof (induction s rule: lex.induct)
  case (1 s)
  show ?case
  proof (cases s rule: lex_step)
    case (sym c r)
    then show ?thesis using "1.IH"(1) [OF sym(1,2)] by (simp add: tok_ok_def)
  next
    case (word c r)
    have "list_all is_wordchar (takeWhile is_wordchar r)" by (metis list_all_iff set_takeWhileD)
    moreover have "\<not> is_sym c" using word(2) by (simp add: is_wordchar_def)
    ultimately show ?thesis using "1.IH"(2) [OF word(1)] word(2,3) by (simp add: tok_ok_def)
  qed simp
qed

section \<open>The parser follows the grammar\<close>

text \<open>A result of the parser agrees with one of the grammar when it is the same error, or the same command
  with the same tokens left.\<close>

definition agrees :: "shell_panic + cmd \<times> string \<Rightarrow> shell_panic + cmd \<times> token list \<Rightarrow> bool" where
  "agrees r q \<longleftrightarrow> (case r of Inl e \<Rightarrow> q = Inl e | Inr (c, s) \<Rightarrow> nulfree s \<and> q = Inr (c, lex s))"

lemma agrees_simps [simp]: "agrees (Inl e) q \<longleftrightarrow> q = Inl e" "agrees (Inr (c, s)) q \<longleftrightarrow> nulfree s \<and> q = Inr (c, lex s)"
  by (simp_all add: agrees_def)

lemma ref_simple_stop: "x \<notin> set ''<>'' \<Longrightarrow> ref_simple n c (Sym x # ts) = Inr (c, Sym x # ts)"
  by (cases "(n, c, Sym x # ts)" rule: ref_simple.cases) auto

fun ref_redirs :: "cmd \<Rightarrow> token list \<Rightarrow> shell_panic + cmd \<times> token list" where
  "ref_redirs c (Sym x # Word f # ts) =
     (if x \<in> set ''<>'' then ref_redirs (redircmd c f x) ts else Inr (c, Sym x # Word f # ts))"
| "ref_redirs c (Sym x # ts) = (if x \<in> set ''<>'' then Inl MissingFile else Inr (c, Sym x # ts))"
| "ref_redirs c ts = Inr (c, ts)"

lemma ref_simple_redirs: "ref_simple n c ts = (case ref_redirs c ts of Inl e \<Rightarrow> Inl e | Inr (d, us) \<Rightarrow> ref_simple n d us)"
proof (induction c ts rule: ref_redirs.induct)
  case (1 c x f ts)
  then show ?case by simp
qed auto

lemma ref_redirs_stops: "ref_redirs c ts = Inr (d, us) \<Longrightarrow> us = Sym x # vs \<Longrightarrow> x \<notin> set ''<>''"
  by (induction c ts rule: ref_redirs.induct) (auto split: if_splits)

lemma ref_redirs_length: "ref_redirs c ts = Inr (d, us) \<Longrightarrow> length us \<le> length ts"
  by (induction c ts rule: ref_redirs.induct) (auto split: if_splits)

lemma redir_toks: "set ''<>'' \<subseteq> set symbols" "set ''|&'' \<subseteq> set symbols" "set ''|'' \<subseteq> set symbols" "set ''&'' \<subseteq> set symbols"
  by (simp_all add: symbols_def)

lemma sym_not_a: "is_sym x \<Longrightarrow> x \<noteq> CHR ''a''"
  by (auto simp: special_chars)

lemma peek_no:
  assumes "nulfree s" "set toks \<subseteq> set symbols" "\<not> (\<exists>x ts. lex s = Sym x # ts \<and> x \<in> set toks)"
  obtains s1 where "peek s toks = (False, s1)" "lex s1 = lex s" "nulfree s1"
proof -
  have "(\<exists>x ts. lex s = Sym x # ts \<and> x \<in> set toks) = False" using assms(3) by (rule Eq_FalseI [THEN meta_eq_to_obj_eq])
  then show ?thesis using peek_lex [OF assms(1,2)] by (simp only:) (elim exE conjE, rule that; assumption)
qed

lemma peek_yes:
  assumes "nulfree s" "set toks \<subseteq> set symbols" "lex s = Sym x # ts" "x \<in> set toks"
  obtains s1 s2 where "peek s toks = (True, s1)" "lex s1 = lex s" "nulfree s1" "gettoken s1 = (x, [x], s2)" "lex s2 = ts" "nulfree s2"
proof -
  have "\<exists>y us. lex s = Sym y # us \<and> y \<in> set toks" using assms(3,4) by simp
  then obtain s1 where s1: "peek s toks = (True, s1)" "lex s1 = lex s" "nulfree s1"
    using peek_lex [OF assms(1,2)] by (simp only: simp_thms) (elim exE conjE, rule that; assumption)
  then obtain s2 where "gettoken s1 = (x, [x], s2)" "lex s2 = ts" "nulfree s2"
    using gettoken_lex(2) [OF s1(3), of x ts] assms(3) by auto
  with s1 show ?thesis by (rule that)
qed

lemma parseredirs_stop:
  assumes "nulfree s" "\<not> (\<exists>x ts. lex s = Sym x # ts \<and> x \<in> set ''<>'')"
  shows "\<exists>s1. parseredirs c s = Some (Inr (c, s1)) \<and> lex s1 = lex s \<and> nulfree s1"
proof -
  obtain s1 where "peek s ''<>'' = (False, s1)" "lex s1 = lex s" "nulfree s1"
    by (rule peek_no [OF assms(1) redir_toks(1) assms(2)])
  then show ?thesis by (subst parseredirs.simps) simp
qed

lemma parseredirs_go:
  assumes "nulfree s" "lex s = Sym x # ts" "x \<in> set ''<>''"
  shows "\<exists>s1. nulfree s1 \<and> lex s1 = ts \<and> parseredirs c s =
    (let (t, w, s2) = gettoken s1 in if t \<noteq> CHR ''a'' then Some (Inl MissingFile) else parseredirs (redircmd c w x) s2)"
proof -
  obtain s0 s1 where s1: "peek s ''<>'' = (True, s0)" "gettoken s0 = (x, [x], s1)" "lex s1 = ts" "nulfree s1"
    by (rule peek_yes [OF assms(1) redir_toks(1) assms(2,3)])
  then show ?thesis using assms(3)
    by (intro exI [of _ s1]) (subst parseredirs.simps, auto split: prod.splits)
qed

lemma ref_redirs_stop: "\<not> (\<exists>x us. ts = Sym x # us \<and> x \<in> set ''<>'') \<Longrightarrow> ref_redirs c ts = Inr (c, ts)"
  by (cases "(c, ts)" rule: ref_redirs.cases) auto

lemma ref_redirs_missing: "x \<in> set ''<>'' \<Longrightarrow> \<not> (\<exists>f us. ts = Word f # us) \<Longrightarrow> ref_redirs c (Sym x # ts) = Inl MissingFile"
  by (cases "(c, Sym x # ts)" rule: ref_redirs.cases) auto

lemma gettoken_not_word:
  assumes "nulfree s" "\<not> (\<exists>f us. lex s = Word f # us)"
  shows "fst (gettoken s) \<noteq> CHR ''a''"
proof (cases "lex s")
  case (Cons t ts)
  then obtain x where x: "lex s = Sym x # ts" using assms(2) by (cases t) auto
  then have "is_sym x" using lex_ok [of s] by (simp add: tok_ok_def)
  then show ?thesis using gettoken_lex(2) [OF assms(1) x] sym_not_a by auto
qed (use gettoken_lex(1) [OF assms(1)] in simp)

lemma parseredirs_ref:
  assumes "nulfree s"
  shows "\<exists>r. parseredirs c s = Some r \<and> agrees r (ref_redirs c (lex s))"
  using assms
proof (induction "length (lex s)" arbitrary: s c rule: less_induct)
  case less
  show ?case
  proof (cases "\<exists>x ts. lex s = Sym x # ts \<and> x \<in> set ''<>''")
    case False
    then show ?thesis
      using parseredirs_stop [OF less.prems False, of c] ref_redirs_stop [OF False, of c] by auto
  next
    case True
    then obtain x ts where x: "lex s = Sym x # ts" "x \<in> set ''<>''" by blast
    obtain s1 where s1: "nulfree s1" "lex s1 = ts" "parseredirs c s = (let (t, w, s2) = gettoken s1 in
        if t \<noteq> CHR ''a'' then Some (Inl MissingFile) else parseredirs (redircmd c w x) s2)"
      using parseredirs_go [OF less.prems x] by blast
    show ?thesis
    proof (cases "\<exists>f us. ts = Word f # us")
      case True
      then obtain f us where f: "lex s1 = Word f # us" "ts = Word f # us" using s1(2) by blast
      obtain s2 where s2: "gettoken s1 = (CHR ''a'', f, s2)" "lex s2 = us" "nulfree s2"
        using gettoken_lex(3) [OF s1(1) f(1)] by blast
      have "length (lex s2) < length (lex s)" using x(1) f(2) s2(2) by simp
      from less.hyps [OF this s2(3), of "redircmd c f x"] show ?thesis using s1(3) s2 x f(2) by simp
    next
      case False
      then have "fst (gettoken s1) \<noteq> CHR ''a''" using gettoken_not_word [OF s1(1)] s1(2) by blast
      then show ?thesis using s1(3) x ref_redirs_missing [OF x(2) False] by (auto split: prod.splits)
    qed
  qed
qed

lemma parseexec_loop_ref:
  assumes "nulfree s" "\<And>x ts. lex s = Sym x # ts \<Longrightarrow> x \<notin> set ''<>''"
  shows "\<exists>r. parseexec_loop n c s = Some r \<and> agrees r (ref_simple n c (lex s))"
  using assms
proof (induction "length (lex s)" arbitrary: s n c rule: less_induct)
  case less
  show ?case
  proof (cases "lex s")
    case Nil
    obtain s1 where s1: "peek s ''|&'' = (False, s1)" "lex s1 = lex s" "nulfree s1"
      using Nil by (auto intro: peek_no [OF less.prems(1) redir_toks(2)])
    have "gettoken s1 = (CHR 0x00, [], [])" using gettoken_lex(1) [OF s1(3)] s1(2) Nil by simp
    moreover have "lex [] = []" by (simp add: lex.simps)
    ultimately show ?thesis using s1 Nil by (subst parseexec_loop.simps) (simp add: nulfree_def)
  next
    case (Cons t ts)
    show ?thesis
    proof (cases t)
      case (Sym x)
      then have x: "lex s = Sym x # ts" "x \<notin> set ''<>''" "is_sym x"
        using less.prems(2) Cons lex_ok [of s] by (auto simp: tok_ok_def)
      then have "x \<in> set ''|&''" by (auto simp: special_chars)
      then obtain s1 where s1: "peek s ''|&'' = (True, s1)" "lex s1 = lex s" "nulfree s1"
        by (rule peek_yes [OF less.prems(1) redir_toks(2) x(1)])
      have "ref_simple n c (lex s) = Inr (c, lex s)" unfolding x(1) using x(2) by (rule ref_simple_stop)
      then show ?thesis using s1 by (subst parseexec_loop.simps) simp
    next
      case (Word w)
      obtain s1 where s1: "peek s ''|&'' = (False, s1)" "lex s1 = lex s" "nulfree s1"
        using Cons Word by (auto intro: peek_no [OF less.prems(1) redir_toks(2)])
      obtain s2 where s2: "gettoken s1 = (CHR ''a'', w, s2)" "lex s2 = ts" "nulfree s2"
        using gettoken_lex(3) [OF s1(3), of w ts] s1(2) Cons Word by auto
      obtain r where r: "parseredirs (push_arg w c) s2 = Some r" "agrees r (ref_redirs (push_arg w c) ts)"
        using parseredirs_ref [OF s2(3)] s2(2) by blast
      show ?thesis
      proof (cases r)
        case (Inl e)
        then show ?thesis using r s1 s2 Cons Word ref_simple_redirs [of "Suc n" "push_arg w c" ts]
          by (subst parseexec_loop.simps) auto
      next
        case (Inr p)
        then obtain d s3 where p: "r = Inr (d, s3)" "nulfree s3" "ref_redirs (push_arg w c) ts = Inr (d, lex s3)"
          using r(2) by (cases p) auto
        have "length (lex s3) < length (lex s)" using ref_redirs_length [OF p(3)] Cons by simp
        moreover have "\<And>x ts. lex s3 = Sym x # ts \<Longrightarrow> x \<notin> set ''<>''" using ref_redirs_stops [OF p(3)] by blast
        ultimately show ?thesis using less.hyps [OF _ p(2), of "Suc n" d]
          r s1 s2 Cons Word p ref_simple_redirs [of "Suc n" "push_arg w c" ts]
          by (subst parseexec_loop.simps) auto
      qed
    qed
  qed
qed

lemma parseexec_ref:
  assumes "nulfree s"
  shows "\<exists>r. parseexec s = Some r \<and> agrees r (ref_simple 0 (ExecCmd []) (lex s))"
proof -
  obtain r where r: "parseredirs execcmd s = Some r" "agrees r (ref_redirs (ExecCmd []) (lex s))"
    using parseredirs_ref [OF assms] execcmd_def by metis
  show ?thesis
  proof (cases r)
    case (Inl e)
    then show ?thesis using r ref_simple_redirs [of 0 "ExecCmd []" "lex s"] by (simp add: parseexec_def)
  next
    case (Inr p)
    then obtain d s1 where p: "r = Inr (d, s1)" "nulfree s1" "ref_redirs (ExecCmd []) (lex s) = Inr (d, lex s1)"
      using r(2) by (cases p) auto
    then have "\<And>x ts. lex s1 = Sym x # ts \<Longrightarrow> x \<notin> set ''<>''" using ref_redirs_stops by blast
    then show ?thesis using parseexec_loop_ref [OF p(2), of 0 d] r p ref_simple_redirs [of 0 "ExecCmd []" "lex s"]
      by (simp add: parseexec_def)
  qed
qed

lemma hd_sym_iff: "us \<noteq> [] \<and> hd us = Sym x \<longleftrightarrow> (\<exists>y ts. us = Sym y # ts \<and> y \<in> set [x])"
  by (cases us) auto

lemma parsepipe_ref: "nulfree s \<Longrightarrow> \<exists>r. parsepipe s = Some r \<and> agrees r (ref_pipe (lex s))"
proof (induction "length (lex s)" arbitrary: s rule: less_induct)
  case less
  obtain r where r: "parseexec s = Some r" "agrees r (ref_simple 0 (ExecCmd []) (lex s))"
    using parseexec_ref [OF less.prems] by blast
  show ?case
  proof (cases r)
    case (Inl e)
    then show ?thesis using r by (subst parsepipe.simps, subst ref_pipe.simps) simp
  next
    case (Inr p)
    then obtain c s1 where p: "r = Inr (c, s1)" "nulfree s1" "ref_simple 0 (ExecCmd []) (lex s) = Inr (c, lex s1)"
      using r(2) by (cases p) auto
    show ?thesis
    proof (cases "\<exists>y ts. lex s1 = Sym y # ts \<and> y \<in> set ''|''")
      case False
      obtain s2 where "peek s1 ''|'' = (False, s2)" "lex s2 = lex s1" "nulfree s2"
        by (rule peek_no [OF p(2) redir_toks(3) False])
      then show ?thesis using r p False by (subst parsepipe.simps, subst ref_pipe.simps) (auto simp: hd_sym_iff)
    next
      case True
      then obtain y ts where y: "lex s1 = Sym y # ts" "y \<in> set ''|''" by blast
      obtain s2 s3 where s3: "peek s1 ''|'' = (True, s2)" "gettoken s2 = (y, [y], s3)" "lex s3 = ts" "nulfree s3"
        by (rule peek_yes [OF p(2) redir_toks(3) y])
      have "length (lex s3) < length (lex s)" using ref_simple_length [OF p(3)] y(1) s3(3) by simp
      from less.hyps [OF this s3(4)] obtain q where q: "parsepipe s3 = Some q" "agrees q (ref_pipe ts)" using s3(3) by blast
      have "ref_pipe (lex s) = (case ref_pipe ts of Inl e \<Rightarrow> Inl e | Inr (d, vs) \<Rightarrow> Inr (PipeCmd c d, vs))"
        using p(3) y by (subst ref_pipe.simps) simp
      then show ?thesis using r p s3 q by (subst parsepipe.simps) (cases q; auto)
    qed
  qed
qed

lemma parseline_loop_ref:
  assumes "nulfree s"
  shows "\<exists>s1 us. parseline_loop c s = Some (Inr ((BackCmd ^^ length us) c, s1)) \<and> lex s = us @ lex s1 \<and> nulfree s1 \<and>
    set us \<subseteq> {Sym CHR ''&''} \<and> (\<forall>ts. lex s1 \<noteq> Sym CHR ''&'' # ts)"
  using assms
proof (induction "length (lex s)" arbitrary: s c rule: less_induct)
  case less
  show ?case
  proof (cases "\<exists>y ts. lex s = Sym y # ts \<and> y \<in> set ''&''")
    case False
    obtain s1 where "peek s ''&'' = (False, s1)" "lex s1 = lex s" "nulfree s1"
      by (rule peek_no [OF less.prems redir_toks(4) False])
    then have "parseline_loop c s = Some (Inr ((BackCmd ^^ length []) c, s1)) \<and> lex s = [] @ lex s1 \<and> nulfree s1 \<and>
        set [] \<subseteq> {Sym CHR ''&''} \<and> (\<forall>ts. lex s1 \<noteq> Sym CHR ''&'' # ts)"
      using False by (subst parseline_loop.simps) simp
    then show ?thesis by blast
  next
    case True
    then obtain y ts where y: "lex s = Sym y # ts" "y \<in> set ''&''" by blast
    obtain s2 s3 where s3: "peek s ''&'' = (True, s2)" "gettoken s2 = (y, [y], s3)" "lex s3 = ts" "nulfree s3"
      by (rule peek_yes [OF less.prems redir_toks(4) y])
    have "length (lex s3) < length (lex s)" using y(1) s3(3) by simp
    from less.hyps [OF this s3(4), of "BackCmd c"] obtain s1 us where
      u: "parseline_loop (BackCmd c) s3 = Some (Inr ((BackCmd ^^ length us) (BackCmd c), s1))" "lex s3 = us @ lex s1" "nulfree s1"
      "set us \<subseteq> {Sym CHR ''&''}" "\<forall>ts. lex s1 \<noteq> Sym CHR ''&'' # ts" by blast
    then have "parseline_loop c s = Some (Inr ((BackCmd ^^ length (Sym y # us)) c, s1)) \<and> lex s = (Sym y # us) @ lex s1 \<and>
        nulfree s1 \<and> set (Sym y # us) \<subseteq> {Sym CHR ''&''} \<and> (\<forall>ts. lex s1 \<noteq> Sym CHR ''&'' # ts)"
      using s3 y by (subst parseline_loop.simps) (simp add: funpow_swap1)
    then show ?thesis by blast
  qed
qed

lemma nulfree_strlen: "nulfree (takeWhile (\<lambda>c. c \<noteq> CHR 0x00) s)"
  by (auto simp: nulfree_def dest: set_takeWhileD)

lemma lex_Nil_iff: "lex s = [] \<longleftrightarrow> snd (peek s []) = []"
  by (cases s rule: lex_step) (simp_all add: peek_alt)

lemma parsecmd_ref: "parsecmd buf = Some (ref_parse (lex (takeWhile (\<lambda>c. c \<noteq> CHR 0x00) buf)))"
proof -
  let ?s = "takeWhile (\<lambda>c. c \<noteq> CHR 0x00) buf"
  obtain r where r: "parsepipe ?s = Some r" "agrees r (ref_pipe (lex ?s))" using parsepipe_ref [OF nulfree_strlen] by blast
  show ?thesis
  proof (cases r)
    case (Inl e)
    then show ?thesis using r by (simp add: parsecmd_def parseline_def ref_parse_def)
  next
    case (Inr p)
    then obtain c s1 where p: "r = Inr (c, s1)" "nulfree s1" "ref_pipe (lex ?s) = Inr (c, lex s1)"
      using r(2) by (cases p) auto
    obtain s2 us where u: "parseline_loop c s1 = Some (Inr ((BackCmd ^^ length us) c, s2))" "lex s1 = us @ lex s2"
      "set us \<subseteq> {Sym CHR ''&''}" "\<forall>ts. lex s2 \<noteq> Sym CHR ''&'' # ts" using parseline_loop_ref [OF p(2)] by blast
    have "set (lex s1) \<subseteq> {Sym CHR ''&''} \<longleftrightarrow> lex s2 = []" using u(2-4) by (cases "lex s2") auto
    then have "ref_parse (lex ?s) = (if lex s2 = [] then Inr ((BackCmd ^^ length us) c) else Inl ParsecmdError)"
      using p(3) u(2) by (simp add: ref_parse_def)
    then show ?thesis using r(1) p(1) u(1) lex_Nil_iff [of s2] by (simp add: parsecmd_def parseline_def)
  qed
qed

section \<open>Well-formed commands\<close>

definition word :: "string \<Rightarrow> bool" where "word w \<longleftrightarrow> w \<noteq> [] \<and> list_all is_wordchar w \<and> nulfree w"

fun args_of :: "cmd \<Rightarrow> string list" where
  "args_of (ExecCmd ws) = ws"
| "args_of (RedirCmd t c f m fd) = args_of c"
| "args_of c = []"

text \<open>The shape of the structures that the parser builds: redirections around a command whose arguments
  leave room for the null pointer in \<^verbatim>\<open>argv\<close>, at the left of every pipe and at the end of the pipeline,
  and background markers outside.\<close>

fun wf_simple :: "cmd \<Rightarrow> bool" where
  "wf_simple (ExecCmd ws) \<longleftrightarrow> length ws < MAXARGS \<and> list_all word ws"
| "wf_simple (RedirCmd t c f m fd) \<longleftrightarrow> wf_simple c \<and> word f \<and> t \<in> set ''<>'' \<and>
     m = (if t = CHR ''<'' then U_O_RDONLY else U_O_WRONLY + U_O_CREAT) \<and> fd = (if t = CHR ''<'' then 0 else 1)"
| "wf_simple c \<longleftrightarrow> False"

fun wf_pipe :: "cmd \<Rightarrow> bool" where
  "wf_pipe (PipeCmd l r) \<longleftrightarrow> wf_simple l \<and> wf_pipe r"
| "wf_pipe c \<longleftrightarrow> wf_simple c"

fun wf_line :: "cmd \<Rightarrow> bool" where
  "wf_line (BackCmd c) \<longleftrightarrow> wf_line c"
| "wf_line c \<longleftrightarrow> wf_pipe c"

lemma wf_simple_pipe: "wf_simple c \<Longrightarrow> wf_pipe c"
  by (cases c) (auto simp: redircmd_def)

lemma wf_pipe_line: "wf_pipe c \<Longrightarrow> wf_line c"
  by (cases c) (auto simp: redircmd_def)

lemma wf_line_back: "wf_line ((BackCmd ^^ n) c) = wf_line c"
  by (induction n) auto

lemma wf_line_shape: "wf_line c \<Longrightarrow> \<exists>k d. c = (BackCmd ^^ k) d \<and> wf_pipe d"
proof (induction c rule: wf_line.induct)
  case (1 c)
  then obtain k d where "c = (BackCmd ^^ k) d" "wf_pipe d" by auto
  then have "BackCmd c = (BackCmd ^^ Suc k) d \<and> wf_pipe d" by simp
  then show ?case by blast
qed (metis funpow_0 wf_line.simps(2-4))+

lemma push_arg_args: "wf_simple c \<Longrightarrow> args_of (push_arg w c) = args_of c @ [w]"
  by (induction c) (auto simp: redircmd_def)

lemma push_arg_wf: "wf_simple c \<Longrightarrow> word w \<Longrightarrow> Suc (length (args_of c)) < MAXARGS \<Longrightarrow> wf_simple (push_arg w c)"
  by (induction c) (auto simp: redircmd_def)

lemma redircmd_wf: "wf_simple c \<Longrightarrow> word f \<Longrightarrow> t \<in> set ''<>'' \<Longrightarrow> wf_simple (redircmd c f t) \<and> args_of (redircmd c f t) = args_of c"
  by (auto simp: redircmd_def)

lemma lex_nulfree: "nulfree s \<Longrightarrow> Word w \<in> set (lex s) \<Longrightarrow> nulfree w"
proof (induction s rule: lex.induct)
  case (1 s)
  have n: "nulfree (dropWhile is_ws s)" using "1.prems"(1) by (rule nulfree_drop)
  show ?case
  proof (cases s rule: lex_step)
    case (sym c r)
    then show ?thesis using "1.IH"(1) [OF sym(1,2)] "1.prems"(2) n by (simp add: nulfree_def)
  next
    case (word c r)
    have "\<not> is_sym c" using word(2) by (simp add: is_wordchar_def)
    moreover have "nulfree (takeWhile is_wordchar (c # r))" using n word(1) by (auto simp: nulfree_def dest: set_takeWhileD)
    moreover have "nulfree (dropWhile is_wordchar (c # r))" using n word(1) by (metis nulfree_drop)
    ultimately show ?thesis using "1.IH"(2) [OF word(1)] "1.prems"(2) word(3) by auto
  qed (use "1.prems" in simp)
qed

fun good_tok :: "token \<Rightarrow> bool" where
  "good_tok (Word w) \<longleftrightarrow> word w"
| "good_tok (Sym x) \<longleftrightarrow> True"

lemma lex_good: "nulfree s \<Longrightarrow> list_all good_tok (lex s)"
proof (unfold list_all_iff, intro ballI)
  fix t
  assume "nulfree s" "t \<in> set (lex s)"
  then show "good_tok t" using lex_ok [of s] lex_nulfree [of s] by (cases t) (auto simp: list_all_iff tok_ok_def word_def)
qed

lemma ref_simple_wf:
  "ref_simple n c ts = Inr (d, us) \<Longrightarrow> wf_simple c \<Longrightarrow> n = length (args_of c) \<Longrightarrow> list_all good_tok ts \<Longrightarrow>
    wf_simple d \<and> list_all good_tok us"
proof (induction n c ts rule: ref_simple.induct)
  case (2 n c w ts)
  have n: "\<not> MAXARGS \<le> Suc n" using "2.prems"(1) by (simp split: if_splits)
  moreover have "word w" "list_all good_tok ts" using "2.prems"(4) by simp_all
  ultimately show ?case
    using "2.IH" [OF n] "2.prems" push_arg_args [OF "2.prems"(2)] push_arg_wf [OF "2.prems"(2)] by simp
next
  case (3 n c x f ts)
  have f: "word f" "list_all good_tok ts" using "3.prems"(4) by simp_all
  show ?case
  proof (cases "x \<in> set ''<>''")
    case True
    then show ?thesis using "3.IH" [OF True] "3.prems" redircmd_wf [OF "3.prems"(2) f(1) True] f(2) by simp
  next
    case False
    then show ?thesis using "3.prems" by auto
  qed
qed (auto split: if_splits)

lemma ref_pipe_wf: "ref_pipe ts = Inr (c, us) \<Longrightarrow> list_all good_tok ts \<Longrightarrow> wf_pipe c"
proof (induction ts arbitrary: c us rule: ref_pipe.induct)
  case (1 ts)
  obtain d vs where d: "ref_simple 0 (ExecCmd []) ts = Inr (d, vs)"
    using "1.prems"(1) by (subst (asm) ref_pipe.simps) (auto split: sum.splits)
  have w: "wf_simple d" "list_all good_tok vs"
    using ref_simple_wf [OF d _ _ "1.prems"(2)] by (simp_all add: MAXARGS_def)
  show ?case
  proof (cases "vs \<noteq> [] \<and> hd vs = Sym CHR ''|''")
    case True
    have "list_all good_tok (tl vs)" using w(2) by (cases vs) auto
    moreover obtain e ws where e: "ref_pipe (tl vs) = Inr (e, ws)" "c = PipeCmd d e"
      using "1.prems"(1) d True by (subst (asm) ref_pipe.simps) (auto split: sum.splits)
    ultimately show ?thesis using "1.IH" [OF d _ True e(1)] w(1) by simp
  next
    case False
    then have "c = d" using "1.prems"(1) d by (subst (asm) ref_pipe.simps) (auto split: if_splits)
    then show ?thesis using w(1) by (simp add: wf_simple_pipe)
  qed
qed

lemma ref_parse_wf: "ref_parse ts = Inr c \<Longrightarrow> list_all good_tok ts \<Longrightarrow> wf_line c"
  unfolding ref_parse_def
  by (auto simp: wf_line_back split: sum.splits if_splits) (metis ref_pipe_wf wf_pipe_line)

section \<open>Printing\<close>

fun show_cmd :: "cmd \<Rightarrow> string" where
  "show_cmd (ExecCmd ws) = concat (map (\<lambda>w. CHR '' '' # w) ws)"
| "show_cmd (RedirCmd t c f m fd) = show_cmd c @ CHR '' '' # t # CHR '' '' # f"
| "show_cmd (PipeCmd l r) = show_cmd l @ '' |'' @ show_cmd r"
| "show_cmd (BackCmd c) = show_cmd c @ '' &''"

fun toks :: "cmd \<Rightarrow> token list" where
  "toks (ExecCmd ws) = map Word ws"
| "toks (RedirCmd t c f m fd) = toks c @ [Sym t, Word f]"
| "toks (PipeCmd l r) = toks l @ Sym CHR ''|'' # toks r"
| "toks (BackCmd c) = toks c @ [Sym CHR ''&'']"

lemma space_class: "is_ws CHR '' ''" "\<not> is_wordchar CHR '' ''"
  by (simp_all add: is_ws_def is_wordchar_def whitespace_def)

lemma lex_space [simp]: "lex (CHR '' '' # s) = lex s"
  by (subst lex.simps) (simp add: space_class(1) lex.simps [of s])

lemma dropWhile_all_append: "dropWhile P s = [] \<Longrightarrow> dropWhile P (s @ t) = dropWhile P t"
  by (induction s) (auto split: if_splits)

lemma dropWhile_some_append: "dropWhile P s = c # r \<Longrightarrow> dropWhile P (s @ t) = c # r @ t"
  by (induction s) (auto split: if_splits)

lemma while_boundary:
  "t = [] \<or> \<not> P (hd t) \<Longrightarrow> takeWhile P (s @ t) = takeWhile P s \<and> dropWhile P (s @ t) = dropWhile P s @ t"
  by (induction s) (cases t; auto)+

lemma lex_append: "t = [] \<or> hd t = CHR '' '' \<Longrightarrow> lex (s @ t) = lex s @ lex t"
proof (induction s rule: lex.induct)
  case (1 s)
  have nw: "t = [] \<or> \<not> is_wordchar (hd t)" using "1.prems" space_class(2) by metis
  show ?case
  proof (cases s rule: lex_step)
    case fin
    then have "lex (s @ t) = lex t" using lex_skip [of "s @ t"] dropWhile_all_append [OF fin(1), of t] by simp
    then show ?thesis using fin(2) by simp
  next
    case (sym c r)
    have "lex (s @ t) = Sym c # lex (r @ t)"
      using sym(2) dropWhile_some_append [OF sym(1), of t] by (subst lex.simps) simp
    then show ?thesis using "1.IH"(1) [OF sym(1,2) "1.prems"] sym(3) by simp
  next
    case (word c r)
    have ns: "\<not> is_sym c" using word(2) by (simp add: is_wordchar_def)
    have "dropWhile is_ws (s @ t) = c # r @ t" by (rule dropWhile_some_append [OF word(1)])
    moreover note while_boundary [of t is_wordchar "c # r", OF nw] ns
    ultimately have "lex (s @ t) = Word (takeWhile is_wordchar (c # r)) # lex (dropWhile is_wordchar (c # r) @ t)"
      by (subst lex.simps) simp
    then show ?thesis using "1.IH"(2) [OF word(1) ns "1.prems"] word(3) by simp
  qed
qed

lemma lex_word:
  assumes "word w"
  shows "lex w = [Word w]"
proof -
  have w: "w \<noteq> []" "list_all is_wordchar w" "\<not> is_ws (hd w)" "\<not> is_sym (hd w)"
    using assms by (auto simp: word_def is_wordchar_def list_all_iff)
  then have d: "dropWhile is_ws w = w" "takeWhile is_wordchar w = w" "dropWhile is_wordchar w = []"
    by (cases w; auto simp: list_all_iff)+
  then show ?thesis using w(1,4) by (subst lex.simps) (cases w; simp add: lex.simps [of "[]"])
qed

lemma lex_spaced: "word w \<Longrightarrow> t = [] \<or> hd t = CHR '' '' \<Longrightarrow> lex (CHR '' '' # w @ t) = Word w # lex t"
  by (simp add: lex_append lex_word)

lemma lex_symbol: "is_sym x \<Longrightarrow> lex (CHR '' '' # x # t) = Sym x # lex t"
  using special_chars(4) [of x] by (simp, subst lex.simps) simp

lemma show_start: "show_cmd c = [] \<or> hd (show_cmd c) = CHR '' ''"
proof (induction c)
  case (ExecCmd ws)
  then show ?case by (cases ws) auto
qed (auto simp: hd_append)

lemma redir_sym: "t \<in> set ''<>'' \<Longrightarrow> is_sym t"
  by (auto simp: special_chars)

lemma lex_show_simple: "wf_simple c \<Longrightarrow> lex (show_cmd c) = toks c"
proof (induction c)
  case (ExecCmd ws)
  have "list_all word ws" using ExecCmd by simp
  then have "lex (show_cmd (ExecCmd ws)) = map Word ws"
  proof (induction ws)
    case Nil
    then show ?case by (simp add: lex.simps)
  next
    case (Cons w ws)
    then show ?case using lex_spaced [of w "show_cmd (ExecCmd ws)"] show_start [of "ExecCmd ws"] by simp
  qed
  then show ?case by simp
next
  case (RedirCmd t c f m fd)
  then have w: "word f" "is_sym t" "lex (show_cmd c) = toks c" using redir_sym by auto
  have "lex (CHR '' '' # t # CHR '' '' # f) = [Sym t, Word f]" using lex_symbol [OF w(2)] lex_word [OF w(1)] by simp
  then show ?case using lex_append [of "CHR '' '' # t # CHR '' '' # f" "show_cmd c"] w(3) by simp
qed simp_all

lemma lex_show_pipe: "wf_pipe c \<Longrightarrow> lex (show_cmd c) = toks c"
proof (induction c rule: wf_pipe.induct)
  case (1 l r)
  have "lex ('' |'' @ show_cmd r) = Sym CHR ''|'' # toks r" using 1 lex_symbol [of "CHR ''|''"] by (simp add: special_chars)
  then show ?case using lex_append [of "'' |'' @ show_cmd r" "show_cmd l"] lex_show_simple [of l] 1 by simp
qed (metis lex_show_simple wf_pipe.simps(2-4))+

lemma lex_show_line: "wf_line c \<Longrightarrow> lex (show_cmd c) = toks c"
proof (induction c rule: wf_line.induct)
  case (1 c)
  have "lex '' &'' = [Sym CHR ''&'']" using lex_symbol [of "CHR ''&''" "[]"] by (simp add: special_chars lex.simps [of "[]"])
  then show ?case using 1 lex_append [of "'' &''" "show_cmd c"] by simp
qed (metis lex_show_pipe wf_line.simps(2-4))+

lemma ref_simple_words:
  "list_all word ws \<Longrightarrow> n + length ws < MAXARGS \<Longrightarrow> n = length vs \<Longrightarrow>
    ref_simple n (ExecCmd vs) (map Word ws @ rest) = ref_simple (n + length ws) (ExecCmd (vs @ ws)) rest"
proof (induction ws arbitrary: n vs)
  case (Cons w ws)
  then show ?case using Cons.IH [of "Suc n" "vs @ [w]"] by simp
qed simp

lemma ref_simple_toks:
  "wf_simple c \<Longrightarrow> ref_simple 0 (ExecCmd []) (toks c @ rest) = ref_simple (length (args_of c)) c rest"
proof (induction c arbitrary: rest)
  case (ExecCmd ws)
  then show ?case using ref_simple_words [of ws 0 "[]" rest] by simp
next
  case (RedirCmd t c f m fd)
  then have "t \<in> set ''<>''" "redircmd c f t = RedirCmd t c f m fd" by (simp_all add: redircmd_def)
  then show ?case using RedirCmd by simp
qed simp_all

definition stops :: "token list \<Rightarrow> bool" where "stops us \<longleftrightarrow> us = [] \<or> hd us = Sym CHR ''|'' \<or> hd us = Sym CHR ''&''"

lemma ref_simple_stops: "stops us \<Longrightarrow> ref_simple n c us = Inr (c, us)"
  using ref_simple_stop [of "CHR ''|''" n c "tl us"] ref_simple_stop [of "CHR ''&''" n c "tl us"]
  by (cases us) (auto simp: stops_def)

lemma ref_pipe_toks: "wf_pipe c \<Longrightarrow> us = [] \<or> hd us = Sym CHR ''&'' \<Longrightarrow> ref_pipe (toks c @ us) = Inr (c, us)"
proof (induction c)
  case (PipeCmd l r)
  let ?us = "Sym CHR ''|'' # toks r @ us"
  have "stops ?us" by (simp add: stops_def)
  then have "ref_simple 0 (ExecCmd []) (toks l @ ?us) = Inr (l, ?us)"
    using ref_simple_toks [of l ?us] PipeCmd.prems(1) ref_simple_stops by simp
  then show ?case using PipeCmd by (subst ref_pipe.simps) simp
next
  case (ExecCmd ws)
  then show ?case using ref_simple_toks [of "ExecCmd ws" us] ref_simple_stops [of us]
    by (subst ref_pipe.simps) (auto simp: stops_def)
next
  case (RedirCmd t c f m fd)
  then show ?case using ref_simple_toks [of "RedirCmd t c f m fd" us] ref_simple_stops [of us]
    by (subst ref_pipe.simps) (auto simp: stops_def)
qed simp

lemma toks_back: "toks ((BackCmd ^^ k) c) = toks c @ replicate k (Sym CHR ''&'')"
  by (induction k) (auto simp: replicate_append_same)

lemma ref_parse_toks: "wf_line c \<Longrightarrow> ref_parse (toks c) = Inr c"
proof -
  assume "wf_line c"
  then obtain k d where c: "c = (BackCmd ^^ k) d" "wf_pipe d" using wf_line_shape by blast
  have "ref_pipe (toks d @ replicate k (Sym CHR ''&'')) = Inr (d, replicate k (Sym CHR ''&''))"
    by (rule ref_pipe_toks [OF c(2)]) (cases k; simp)
  then show ?thesis by (simp add: ref_parse_def c(1) toks_back set_replicate_conv_if)
qed

lemma nulfree_show_simple: "wf_simple c \<Longrightarrow> nulfree (show_cmd c)"
  by (induction c) (auto simp: nulfree_def word_def list_all_iff)

lemma nulfree_show_pipe: "wf_pipe c \<Longrightarrow> nulfree (show_cmd c)"
proof (induction c)
  case (PipeCmd l r)
  then show ?case using nulfree_show_simple [of l] by (auto simp: nulfree_def)
qed (metis nulfree_show_simple wf_pipe.simps(2-4))+

lemma nulfree_show_line: "wf_line c \<Longrightarrow> nulfree (show_cmd c)"
proof (induction c rule: wf_line.induct)
  case (1 c)
  then show ?case by (auto simp: nulfree_def)
qed (metis nulfree_show_pipe wf_line.simps(2-4))+

section \<open>The search through PATH\<close>

definition path_dirs :: "string list" where
  "path_dirs = [''/'', ''/bin/'', ''/usr/bin/'', ''/usr/local/bin/'']"

text \<open>What the search is meant to do: try the directories in their order, and stop at the first in which the
  program exists.  A name that is too long for the buffer is a fault.\<close>

fun search :: "kernel \<Rightarrow> string list \<Rightarrow> string list \<Rightarrow> call list \<Rightarrow> call list" where
  "search k argv [] h = h @ [CNotFound, CExit]"
| "search k argv (d # ds) h =
     (if CMDLEN \<le> length d + length (hd argv) + 1 then h @ [CFault]
      else let h = h @ [CExec (d @ hd argv) argv] in if ans k h = 0 then h else search k argv ds h)"

text \<open>\<open>ds\<close> are the directories of \<^verbatim>\<open>PATH\<close> from position \<open>p\<close> on.\<close>

definition dirs_from :: "nat \<Rightarrow> string list \<Rightarrow> bool" where
  "dirs_from p ds \<longleftrightarrow> drop p PATH = concat (map (\<lambda>d. d @ '':'') ds) \<and> p \<le> length PATH \<and> list_all (\<lambda>d. CHR '':'' \<notin> set d) ds"

lemma takeWhile_colon: "CHR '':'' \<notin> set d \<Longrightarrow> takeWhile (\<lambda>x. x \<noteq> CHR '':'') (d @ CHR '':'' # t) = d"
  by (induction d) auto

lemma splicingcmd_step:
  assumes "dirs_from p (d # ds)" "c \<noteq> []" "hd c \<noteq> CHR ''/''"
  shows "splicingcmd c rs p = (if CMDLEN \<le> length d + length c + 1 then None else Some (Some (d @ c), d @ c, p + length d + 1)) \<and>
    dirs_from (p + length d + 1) ds"
proof -
  have d: "drop p PATH = d @ CHR '':'' # concat (map (\<lambda>d. d @ '':'') ds)" "CHR '':'' \<notin> set d" "p \<le> length PATH"
    "list_all (\<lambda>d. CHR '':'' \<notin> set d) ds" using assms(1) by (simp_all add: dirs_from_def)
  then have len: "length PATH = p + length d + 1 + length (concat (map (\<lambda>d. d @ '':'') ds))"
    using arg_cong [OF d(1), of length] unfolding length_drop length_append list.size by linarith
  have "drop (p + length d + 1) PATH = drop (length d + 1) (drop p PATH)" by (simp add: ac_simps)
  also have "\<dots> = concat (map (\<lambda>d. d @ '':'') ds)" unfolding d(1) by simp
  finally have "dirs_from (p + length d + 1) ds" using len d(4) by (simp add: dirs_from_def)
  then show ?thesis using assms(2,3) len takeWhile_colon [OF d(2)] by (simp add: splicingcmd_def d(1) Let_def)
qed

lemma exec_loop_search:
  "dirs_from p ds \<Longrightarrow> hd argv \<noteq> [] \<Longrightarrow> hd (hd argv) \<noteq> CHR ''/'' \<Longrightarrow> exec_loop k argv rs p h = Some (search k argv ds h)"
proof (induction ds arbitrary: p rs h)
  case Nil
  then have "length PATH \<le> p" by (simp add: dirs_from_def)
  then show ?case by (subst exec_loop.simps) (simp add: splicingcmd_def)
next
  case (Cons d ds)
  let ?q = "p + length d + 1"
  note st = splicingcmd_step [OF Cons.prems(1,2,3), of rs]
  have "exec_loop k argv (d @ hd argv) ?q g = Some (search k argv ds g)" for g
    using Cons.IH [of ?q "d @ hd argv" g] st Cons.prems by blast
  then show ?case using st by (subst exec_loop.simps) (simp add: Let_def)
qed

lemma dirs_from_0: "dirs_from 0 path_dirs"
  by (simp add: dirs_from_def path_dirs_def PATH_def)

lemma exec_loop_absolute:
  assumes "exec_loop k argv rs p h = Some h'"
  shows "hd argv \<noteq> [] \<and> hd (hd argv) = CHR ''/'' \<and> p < length PATH \<longrightarrow> (\<exists>g. ans k g = 0)"
  by (rule exec_loop.raw_induct [where P = "\<lambda>k argv rs p h h'.
        hd argv \<noteq> [] \<and> hd (hd argv) = CHR ''/'' \<and> p < length PATH \<longrightarrow> (\<exists>g. ans k g = 0)", OF _ assms])
    (auto simp: splicingcmd_def Let_def split: if_splits)

section \<open>Properties\<close>

text \<open>C18: the parser is equivalent to the reference grammar: for every buffer \<^verbatim>\<open>parsecmd\<close> returns, and
  its result is that of the grammar on the tokens of the line, errors included.\<close>

theorem parsecmd_follows_grammar: "parsecmd buf = Some (ref_parse (lex (takeWhile (\<lambda>c. c \<noteq> CHR 0x00) buf)))"
  by (rule parsecmd_ref)

text \<open>C19: whatever \<^verbatim>\<open>parsecmd\<close> returns has the shape that \<^verbatim>\<open>runcmd\<close> expects: the arguments of a command
  are non-empty words and leave room for the null pointer in \<^verbatim>\<open>argv\<close>, a redirection carries the mode
  and the descriptor of its kind, and pipes and background markers are nested as in a line.\<close>

theorem parsecmd_well_formed:
  assumes "parsecmd buf = Some (Inr c)"
  shows "wf_line c"
proof -
  have "ref_parse (lex (takeWhile (\<lambda>c. c \<noteq> CHR 0x00) buf)) = Inr c" using assms parsecmd_ref [of buf] by simp
  then show ?thesis by (rule ref_parse_wf) (rule lex_good [OF nulfree_strlen])
qed

lemma parse_demo: "parsecmd ''ls|cat > f &'' = Some (Inr (BackCmd (PipeCmd (ExecCmd [''ls'']) (redircmd (ExecCmd [''cat'']) ''f'' CHR ''>''))))"
  by (simp add: parsecmd_def parseline_def parsepipe.simps parseexec_def parseredirs.simps parseexec_loop.simps parseline_loop.simps
    peek_def gettoken_def whitespace_def symbols_def execcmd_def MAXARGS_def)

theorem parsecmd_well_formed_witness:
  "wf_line (BackCmd (PipeCmd (ExecCmd [''ls'']) (redircmd (ExecCmd [''cat'']) ''f'' CHR ''>'')))"
  by (rule parsecmd_well_formed [OF parse_demo])

text \<open>C20: printing and parsing: a well-formed command, printed as a line, is parsed back to itself.\<close>

theorem parsecmd_show_roundtrip:
  assumes "wf_line c"
  shows "parsecmd (show_cmd c) = Some (Inr c)"
proof -
  have "takeWhile (\<lambda>x. x \<noteq> CHR 0x00) (show_cmd c) = show_cmd c"
    using nulfree_show_line [OF assms] by (auto simp: nulfree_def takeWhile_eq_all_conv)
  then show ?thesis unfolding parsecmd_ref by (simp only: lex_show_line [OF assms] ref_parse_toks [OF assms])
qed

theorem parsecmd_show_roundtrip_witness:
  "parsecmd (show_cmd (PipeCmd (ExecCmd [''ls'']) (ExecCmd [''cat'']))) = Some (Inr (PipeCmd (ExecCmd [''ls'']) (ExecCmd [''cat''])))"
  by (rule parsecmd_show_roundtrip)
    (simp add: MAXARGS_def word_def is_wordchar_def is_ws_def is_sym_def whitespace_def symbols_def nulfree_def)

text \<open>Running a command whose name does not begin with a slash ends: the directories of \<^verbatim>\<open>PATH\<close> are
  tried in their order until \<^verbatim>\<open>exec\<close> succeeds, but as soon as the directory and the name need more than the
  20 bytes of the buffer, it is overrun instead.\<close>

theorem relative_command_search:
  assumes "c \<noteq> []" "hd c \<noteq> CHR ''/''"
  shows "runcmd k rs (ExecCmd (c # args)) h = Some (search k (c # args) path_dirs h)"
  using exec_loop_search [OF dirs_from_0, of "c # args"] assms by simp

theorem relative_command_search_witness:
  "runcmd \<lparr>ans = (\<lambda>_. - 1), pfds = (\<lambda>_. (0, 0))\<rparr> [] (ExecCmd [''make'']) [] =
    Some [CExec ''/make'' [''make''], CExec ''/bin/make'' [''make''], CExec ''/usr/bin/make'' [''make''], CFault]"
  using relative_command_search [of "''make''" "\<lparr>ans = (\<lambda>_. - 1), pfds = (\<lambda>_. (0, 0))\<rparr>" "[]" "[]" "[]"]
  by (simp add: path_dirs_def CMDLEN_def)

text \<open>A command whose name begins with a slash is never run: \<^verbatim>\<open>splicingcmd\<close> returns the name without
  copying it and without moving on, so that \<^verbatim>\<open>exec\<close> is called with the uninitialised buffer for ever,
  unless the bytes in it happen to name a program.\<close>

theorem absolute_command_loops:
  assumes "c \<noteq> []" "hd c = CHR ''/''" "\<forall>g. ans k g \<noteq> 0"
  shows "runcmd k rs (ExecCmd (c # args)) h = None"
proof (cases "runcmd k rs (ExecCmd (c # args)) h")
  case (Some h')
  then have "exec_loop k (c # args) rs 0 h = Some h'" by simp
  from exec_loop_absolute [OF this] show ?thesis using assms by (simp add: PATH_def)
qed

theorem absolute_command_loops_witness:
  "runcmd \<lparr>ans = (\<lambda>_. - 1), pfds = (\<lambda>_. (0, 0))\<rparr> [] (ExecCmd [''/ls'']) [] = None"
  by (rule absolute_command_loops) simp_all

end
