(* ===== verification/Console.thy ===== *)
theory Console
  imports Prelude
begin

text \<open>
  The console: the text display (kern/cga.c), the keyboard (kern/kbd.c, include/kbd.h), the terminal
  between them (kern/console.c), formatted output (lib/printfmt.c) and line input (kern/prink.c).

  Characters are bytes.  The display memory is an array of cells, 25 rows of 80; the cursor registers
  are the field \<open>crtc_pos\<close>.  The keyboard controller holds a list of scan codes; \<^verbatim>\<open>inb(KBSTATP)\<close> says whether
  it is empty.  A format is its list of bytes with the terminator; reading behind it is \<^const>\<open>None\<close>.  Wake-ups
  of the processes that wait for input are counted.  The two spin locks are flags, and taking a lock
  that the processor holds panics.
\<close>

unbundle bit_operations_syntax

section \<open>Display\<close>

record screen =
  cga_mem :: "nat \<Rightarrow> u16"
  cursor_x :: u16
  cursor_y :: u16
  crtc_pos :: u16

definition move_cursor :: "screen \<Rightarrow> screen" where
  "move_cursor s = s\<lparr>crtc_pos := cursor_y s * 80 + cursor_x s\<rparr>"

text \<open>The first loop copies upwards in memory order, so that no cell is read after it was written.\<close>

definition scroll_screen :: "screen \<Rightarrow> screen" where
  "scroll_screen s = s\<lparr>cga_mem := (\<lambda>i. if i < 80 * 24 then cga_mem s (i + 80) else if i < 80 * 25 then 0x0720 else cga_mem s i),
     cursor_y := 24\<rparr>"

definition cga_clear :: "screen \<Rightarrow> screen" where
  "cga_clear s = move_cursor (s\<lparr>cga_mem := (\<lambda>i. if i < 80 * 25 then 0x0F20 else cga_mem s i), cursor_x := 0, cursor_y := 0\<rparr>)"

text \<open>The end of \<^verbatim>\<open>cga_putc\<close>, and the store of a cell.\<close>

definition cga_finish :: "screen \<Rightarrow> screen" where
  "cga_finish s = move_cursor (if 25 \<le> cursor_y s then scroll_screen s else s)"

definition set_cell :: "nat \<Rightarrow> u16 \<Rightarrow> screen \<Rightarrow> screen" where
  "set_cell i v s = s\<lparr>cga_mem := (cga_mem s)(i := v)\<rparr>"

function cga_putc :: "u8 \<Rightarrow> u16 \<Rightarrow> screen \<Rightarrow> screen" where
  "cga_putc c attr s =
     (let pos = unat (cursor_y s * 80 + cursor_x s) in
      cga_finish
       (if c = 0x08 then
          if 0 < cursor_x s then set_cell (pos - 1) (0x20 OR attr) (s\<lparr>cursor_x := cursor_x s - 1\<rparr>) else s
        else if c = 0x0A then s\<lparr>cursor_y := cursor_y s + 1, cursor_x := 0\<rparr>
        else if c = 0x0D then s\<lparr>cursor_x := 0\<rparr>
        else if c = 0x09 then cga_putc 0x20 attr (cga_putc 0x20 attr (cga_putc 0x20 attr (cga_putc 0x20 attr s)))
        else let s = set_cell pos (ucast c OR attr) s; s = s\<lparr>cursor_x := cursor_x s + 1\<rparr>
             in if 80 < cursor_x s then cga_putc 0x0A attr (s\<lparr>cursor_x := 0\<rparr>) else s))"
  by pat_completeness auto
termination
  by (relation "measure (\<lambda>(c, _). if c = 0x09 then 2 else if c = 0x0A then 0 else 1)") auto

declare cga_putc.simps [simp del]

text \<open>\<^verbatim>\<open>cga_puts\<close> and the loop of \<^verbatim>\<open>compatible_console_write\<close>: the bytes up to the end of the string.\<close>

fun cga_puts :: "u8 list \<Rightarrow> u16 \<Rightarrow> screen \<Rightarrow> screen" where
  "cga_puts [] attr s = s"
| "cga_puts (c # str) attr s = cga_puts str attr (cga_putc c attr s)"

section \<open>Keyboard tables\<close>

definition SHIFT :: u32 where "SHIFT = 1"
definition CTL :: u32 where "CTL = 2"
definition ALT :: u32 where "ALT = 4"
definition CAPSLOCK :: u32 where "CAPSLOCK = 8"
definition NUMLOCK :: u32 where "NUMLOCK = 16"
definition SCROLLLOCK :: u32 where "SCROLLLOCK = 32"
definition E0ESC :: u32 where "E0ESC = 64"

definition shiftcode :: "nat \<Rightarrow> u32" where
  "shiftcode d = (if d = 0x1D \<or> d = 0x9D then CTL else if d = 0x2A \<or> d = 0x36 then SHIFT
     else if d = 0x38 \<or> d = 0xB8 then ALT else 0)"

definition togglecode :: "nat \<Rightarrow> u32" where
  "togglecode d = (if d = 0x3A then CAPSLOCK else if d = 0x45 then NUMLOCK else if d = 0x46 then SCROLLLOCK else 0)"

definition asc :: "string \<Rightarrow> u8 list" where "asc = map of_char"
definition ctl :: "string \<Rightarrow> u8 list" where "ctl = map (\<lambda>c. of_char c - 0x40)"

text \<open>A table of 256 entries: the first ones listed, some given by their index, the others 0.\<close>

definition key_table :: "u8 list \<Rightarrow> (nat \<times> u8) list \<Rightarrow> nat \<Rightarrow> u8" where
  "key_table first later d = (case map_of later d of Some v \<Rightarrow> v | None \<Rightarrow> if d < length first then first ! d else 0)"

definition special_keys :: "(nat \<times> u8) list" where
  "special_keys = [(0xC8, 0xE2), (0xD0, 0xE3), (0xC9, 0xE6), (0xD1, 0xE7), (0xCB, 0xE4), (0xCD, 0xE5), (0x97, 0xE0),
     (0xCF, 0xE1), (0xD2, 0xE8), (0xD3, 0xE9)]"

definition keypad :: "u8 list" where
  "keypad = replicate 13 0 @ asc ''789-456+1230.'' @ replicate 4 0"

definition normalmap :: "nat \<Rightarrow> u8" where
  "normalmap = key_table
     ([0, 0x1B] @ asc ''1234567890-='' @ [0x08, 0x09] @ asc ''qwertyuiop[]'' @ [0x0A, 0] @ asc ''asdfghjkl;'' @ [0x27, 0x60, 0, 0x5C] @
      asc ''zxcvbnm,./'' @ [0, 0x2A, 0, 0x20] @ keypad)
     ([(0x9C, 0x0A), (0xB5, 0x2F)] @ special_keys)"

definition shiftmap :: "nat \<Rightarrow> u8" where
  "shiftmap = key_table
     ([0, 0x1B] @ asc ''!@#$%^&*()_+'' @ [0x08, 0x09] @ asc ''QWERTYUIOP{}'' @ [0x0A, 0] @ asc ''ASDFGHJKL:'' @ [0x22, 0x7E, 0, 0x7C] @
      asc ''ZXCVBNM<>?'' @ [0, 0x2A, 0, 0x20] @ keypad)
     ([(0x9C, 0x0A), (0xB5, 0x2F)] @ special_keys)"

definition ctlmap :: "nat \<Rightarrow> u8" where
  "ctlmap = key_table
     (replicate 16 0 @ ctl ''QWERTYUIOP'' @ [0, 0, 0x0D, 0] @ ctl ''ASDFGHJKL'' @ [0, 0, 0, 0, 0x1C] @ ctl ''ZXCVBNM'' @ [0, 0] @ ctl ''/'' @ [0, 0])
     ([(0x9C, 0x0D), (0xB5, 0xEF)] @ special_keys)"

section \<open>Terminal\<close>

definition TTY_BUF :: nat where "TTY_BUF = 256"

record tty_queue =
  rpos :: u32
  wpos :: u32
  tbuf :: "nat \<Rightarrow> u8"

record console =
  scr :: screen
  lattr :: u16
  echo :: bool
  con_locked :: bool
  kbd_locked :: bool
  read_buf :: tty_queue
  write_buf :: tty_queue
  kbd_shift :: u32
  kbd_port :: "u8 list"
  con_wakeups :: nat

definition con_lock :: "console \<Rightarrow> console option" where
  "con_lock s = (if con_locked s then None else Some (s\<lparr>con_locked := True\<rparr>))"

definition con_unlock :: "console \<Rightarrow> console option" where
  "con_unlock s = (if con_locked s then Some (s\<lparr>con_locked := False\<rparr>) else None)"

definition kbd_lock :: "console \<Rightarrow> console option" where
  "kbd_lock s = (if kbd_locked s then None else Some (s\<lparr>kbd_locked := True\<rparr>))"

definition kbd_unlock :: "console \<Rightarrow> console option" where
  "kbd_unlock s = (if kbd_locked s then Some (s\<lparr>kbd_locked := False\<rparr>) else None)"

definition console_putc :: "u8 \<Rightarrow> console \<Rightarrow> console option" where
  "console_putc c s = do {
     s \<leftarrow> con_lock s;
     con_unlock (s\<lparr>scr := cga_putc c (lattr s) (scr s)\<rparr>)
   }"

definition console_puts :: "u8 list \<Rightarrow> console \<Rightarrow> (nat \<times> console) option" where
  "console_puts str s = do {
     s \<leftarrow> con_lock s;
     s \<leftarrow> con_unlock (s\<lparr>scr := cga_puts str (lattr s) (scr s)\<rparr>);
     Some (length str, s)
   }"

definition q_empty :: "tty_queue \<Rightarrow> bool" where "q_empty q \<longleftrightarrow> rpos q = wpos q"

definition q_room :: "tty_queue \<Rightarrow> bool" where "q_room q \<longleftrightarrow> unat (wpos q - rpos q) < TTY_BUF"

definition q_put :: "u8 \<Rightarrow> tty_queue \<Rightarrow> tty_queue" where
  "q_put c q = q\<lparr>tbuf := (tbuf q)(unat (wpos q) mod TTY_BUF := c), wpos := wpos q + 1\<rparr>"

definition q_get :: "tty_queue \<Rightarrow> u8 \<times> tty_queue" where
  "q_get q = (tbuf q (unat (rpos q) mod TTY_BUF), q\<lparr>rpos := rpos q + 1\<rparr>)"

definition q_last :: "tty_queue \<Rightarrow> u8" where "q_last q = tbuf q (unat (wpos q - 1) mod TTY_BUF)"

definition q_back :: "tty_queue \<Rightarrow> tty_queue" where "q_back q = q\<lparr>wpos := wpos q - 1\<rparr>"

section \<open>Keyboard\<close>

text \<open>\<^verbatim>\<open>kbd_get_data\<close> returns -1 when the controller is empty; \<open>rdata\<close> is what \<^verbatim>\<open>*rdata\<close> holds.\<close>

definition kbd_decode :: "u8 \<Rightarrow> u32 \<Rightarrow> u32 \<times> u32" where
  "kbd_decode code sh =
     (let data = unat code in
      if code = 0xE0 then (0, sh OR E0ESC)
      else if code AND 0x80 \<noteq> 0 then
        let data = (if sh AND E0ESC \<noteq> 0 then data else unat (code AND 0x7F))
        in (0, sh AND NOT (shiftcode data OR E0ESC))
      else
        let (data, sh) = (if sh AND E0ESC \<noteq> 0 then (unat (code OR 0x80), sh AND NOT E0ESC) else (data, sh));
            sh = (sh OR shiftcode data) XOR togglecode data;
            m = sh AND (CTL OR SHIFT);
            c = (ucast (if m = 0 then normalmap data else if m = 1 then shiftmap data else ctlmap data) :: u32);
            c = (if sh AND CAPSLOCK \<noteq> 0 then
                   if 0x61 \<le> c \<and> c \<le> 0x7A then c - 0x20 else if 0x41 \<le> c \<and> c \<le> 0x5A then c + 0x20 else c
                 else c)
        in (c, sh))"

definition kbd_get_data :: "u8 \<Rightarrow> console \<Rightarrow> u32 \<times> u8 \<times> console" where
  "kbd_get_data rdata s = (case kbd_port s of [] \<Rightarrow> (- 1, rdata, s)
     | code # rest \<Rightarrow>
         let (c, sh) = kbd_decode code (kbd_shift s)
         in (c, code, s\<lparr>kbd_port := rest, kbd_shift := sh\<rparr>))"

definition upd_wbuf :: "(tty_queue \<Rightarrow> tty_queue) \<Rightarrow> console \<Rightarrow> console" where
  "upd_wbuf f s = s\<lparr>write_buf := f (write_buf s)\<rparr>"

partial_function (option) kill_line :: "console \<Rightarrow> console option" where
  "kill_line s =
     (if \<not> q_empty (write_buf s) \<and> q_last (write_buf s) \<noteq> 0x0A
      then do { s \<leftarrow> console_putc 0x08 (upd_wbuf q_back s); kill_line s }
      else Some s)"

definition kbd_char :: "u8 \<Rightarrow> console \<Rightarrow> console option" where
  "kbd_char c s =
     (if c = 0x10 then Some s
      else if c = 0x15 then kill_line s
      else if c = 0x7F \<or> c = 0x08 then
        if \<not> q_empty (write_buf s) then console_putc 0x08 (upd_wbuf q_back s) else Some s
      else if c \<noteq> 0 \<and> q_room (write_buf s) then do {
        let c = (if c = 0x0D then 0x0A else c);
        s \<leftarrow> console_putc c s;
        let s = upd_wbuf (q_put c) s;
        Some (if c = 0x0A \<or> wpos (write_buf s) = rpos (write_buf s) + of_nat TTY_BUF
              then s\<lparr>con_wakeups := con_wakeups s + 1\<rparr> else s)
      }
      else Some s)"

text \<open>The result of \<^verbatim>\<open>kbd_get_data\<close> is converted to a signed \<^verbatim>\<open>char\<close>; the loop goes on while it is not negative.\<close>

partial_function (option) kbd_loop :: "u8 \<Rightarrow> console \<Rightarrow> console option" where
  "kbd_loop rc s =
     (let (d, rc, s) = kbd_get_data rc s; c = (ucast d :: u8) in
      if 0x80 \<le> c then Some s
      else do {
        let s = (if q_room (read_buf s) then s\<lparr>read_buf := q_put rc (read_buf s)\<rparr> else s);
        s \<leftarrow> kbd_char c s;
        kbd_loop rc s
      })"

definition kbd_intr :: "console \<Rightarrow> console option" where
  "kbd_intr s = do { s \<leftarrow> kbd_lock s; s \<leftarrow> kbd_loop 0 s; kbd_unlock s }"

section \<open>Input\<close>

definition console_getc :: "console \<Rightarrow> (u8 \<times> console) option" where
  "console_getc s = do {
     s \<leftarrow> kbd_intr s;
     if \<not> q_empty (write_buf s) then Some (fst (q_get (write_buf s)), upd_wbuf (snd \<circ> q_get) s)
     else Some (0, s)
   }"

text \<open>\<^verbatim>\<open>getchar\<close> polls; the first argument are the scan codes that arrive before each round, and when no more
  arrive the loop goes on for ever.\<close>

fun getchar_loop :: "u8 list list \<Rightarrow> console \<Rightarrow> (u8 \<times> u8 list list \<times> console) option" where
  "getchar_loop [] s = None"
| "getchar_loop (codes # later) s = do {
     (c, s) \<leftarrow> console_getc (s\<lparr>kbd_port := kbd_port s @ codes\<rparr>);
     if c \<noteq> 0 then Some (c, later, s) else getchar_loop later s
   }"

definition getchar :: "u8 list list \<Rightarrow> console \<Rightarrow> (u8 \<times> u8 list list \<times> console) option" where
  "getchar input s = do {
     s \<leftarrow> con_lock s;
     (c, later, s) \<leftarrow> getchar_loop input s;
     s \<leftarrow> con_unlock s;
     Some (c, later, s)
   }"

text \<open>\<^verbatim>\<open>compatible_console_read\<close> without the inode lock that it gives up meanwhile: \<open>ReadSleep\<close> is the call of
  \<^verbatim>\<open>sleep\<close> with the bytes copied so far, after which \<open>console_read_woken\<close> goes on.\<close>

datatype read_res = ReadDone "u8 list" | ReadSleep "u8 list" | ReadKilled

fun console_read_loop :: "nat \<Rightarrow> u8 list \<Rightarrow> console \<Rightarrow> read_res \<times> console" where
  "console_read_loop 0 dst s = (ReadDone dst, s)"
| "console_read_loop (Suc n) dst s =
     (if q_empty (write_buf s) then (ReadSleep dst, s)
      else let (c, q) = q_get (write_buf s); t = s\<lparr>write_buf := q\<rparr> in
           if c = 0x04 then (ReadDone dst, if dst \<noteq> [] then s else t)
           else if c = 0x0A then (ReadDone (dst @ [c]), t)
           else console_read_loop n (dst @ [c]) t)"

definition compatible_console_read :: "nat \<Rightarrow> console \<Rightarrow> (read_res \<times> console) option" where
  "compatible_console_read nbytes s = do {
     s \<leftarrow> con_lock s;
     let (r, s) = console_read_loop nbytes [] s;
     s \<leftarrow> con_unlock s;
     Some (r, s)
   }"

definition console_read_woken :: "bool \<Rightarrow> nat \<Rightarrow> u8 list \<Rightarrow> console \<Rightarrow> (read_res \<times> console) option" where
  "console_read_woken killed nbytes dst s = do {
     s \<leftarrow> con_lock s;
     let (r, s) = (if killed then (ReadKilled, s) else console_read_loop (nbytes - length dst) dst s);
     s \<leftarrow> con_unlock s;
     Some (r, s)
   }"

definition compatible_console_write :: "u8 list \<Rightarrow> console \<Rightarrow> (nat \<times> console) option" where
  "compatible_console_write src s = do {
     s \<leftarrow> con_lock s;
     s \<leftarrow> con_unlock (s\<lparr>scr := cga_puts src (lattr s) (scr s)\<rparr>);
     Some (length src, s)
   }"

definition is_echo :: "console \<Rightarrow> bool" where "is_echo s = echo s"

definition close_echo :: "console \<Rightarrow> console" where "close_echo s = s\<lparr>echo := False\<rparr>"

definition cga_init :: "screen \<Rightarrow> screen" where "cga_init s = cga_clear s"

definition console_init :: "console \<Rightarrow> console" where
  "console_init s = s\<lparr>echo := True, con_locked := False, scr := cga_init (scr s)\<rparr>"

definition kbd_init :: "console \<Rightarrow> console option" where
  "kbd_init s = do { s \<leftarrow> kbd_intr s; Some (s\<lparr>kbd_locked := False\<rparr>) }"

section \<open>Formatted output\<close>

text \<open>\<^verbatim>\<open>*s++\<close>.\<close>

fun next_char :: "u8 list \<Rightarrow> (u8 \<times> u8 list) option" where
  "next_char [] = None"
| "next_char (c # s) = Some (c, s)"

definition is_color_controller :: "u8 \<Rightarrow> int" where
  "is_color_controller c =
     (if 0x30 \<le> c \<and> c \<le> 0x39 then uint c - 0x30
      else if 0x61 \<le> c \<and> c \<le> 0x66 then uint c - 0x61 + 0x0A
      else if 0x41 \<le> c \<and> c \<le> 0x46 then uint c - 0x41 + 0x0A
      else - 1)"

text \<open>The loop of \<^verbatim>\<open>set_local_attr\<close>; every round reads one character and raises \<open>status\<close>.  The result is the final
  status, the two digits, the flag \<open>cancel\<close> and the position.\<close>

fun attr_loop :: "nat \<Rightarrow> int \<Rightarrow> int \<Rightarrow> bool \<Rightarrow> u8 list \<Rightarrow> (nat \<times> int \<times> int \<times> bool \<times> u8 list) option" where
  "attr_loop status t1 t2 cancel str =
     (if 6 \<le> status then Some (status, t1, t2, cancel, str)
      else case str of [] \<Rightarrow> None
      | c # s \<Rightarrow>
          let d = is_color_controller c in
          if status = 1 then attr_loop (if c = 0x5B then 2 else 7) t1 t2 cancel s
          else if status = 2 then attr_loop (if d = 0 then 3 else if 0 < d then 4 else 7) d t2 cancel s
          else if status = 3 then
            if c = 0x6D then attr_loop 6 t1 t2 True s
            else attr_loop (if 0 < d then 5 else 7) t1 d cancel s
          else if status = 4 then attr_loop (if 0 \<le> d then 5 else 7) t1 d cancel s
          else attr_loop (if c = 0x6D then 6 else 7) t1 t2 cancel s)"

declare attr_loop.simps [simp del]

definition set_local_attr :: "u8 list \<Rightarrow> console \<Rightarrow> (u8 list \<times> console) option" where
  "set_local_attr str s = do {
     s \<leftarrow> con_lock s;
     (status, t1, t2, cancel, p) \<leftarrow> attr_loop 1 0 0 False str;
     if status = 7 then do { s \<leftarrow> con_unlock s; Some (drop 1 p, s) }
     else do {
       s \<leftarrow> con_unlock (s\<lparr>lattr := (if cancel then 0x0700 else push_bit 8 (of_int (t1 * 16 + t2)))\<rparr>);
       Some (p, s)
     }
   }"

fun put_all :: "u8 list \<Rightarrow> console \<Rightarrow> console option" where
  "put_all [] s = Some s"
| "put_all (c # cs) s = do { s \<leftarrow> console_putc c s; put_all cs s }"

text \<open>The digits in \<^verbatim>\<open>num_stack\<close>, the last one pushed first; \<open>len\<close> is the length of the array.\<close>

partial_function (option) digit_stack :: "nat \<Rightarrow> u32 \<Rightarrow> u32 \<Rightarrow> u32 list \<Rightarrow> u32 list option" where
  "digit_stack len radix n st =
     (if n = 0 then Some st
      else if len \<le> length st then None
      else digit_stack len radix (n div radix) (n mod radix # st))"

definition hex_map :: "u32 \<Rightarrow> u8" where
  "hex_map d = (if d < 10 then 0x30 + ucast d else 0x41 + ucast (d - 10))"

definition screen_write_hex :: "u32 \<Rightarrow> console \<Rightarrow> (int \<times> console) option" where
  "screen_write_hex n s =
     (if n = 0 then do { s \<leftarrow> console_putc 0x30 s; Some (1, s) }
      else do {
        st \<leftarrow> digit_stack 8 16 n [];
        s \<leftarrow> put_all (map hex_map st) s;
        Some (int (length st), s)
      })"

definition screen_write_radix :: "u32 \<Rightarrow> u32 \<Rightarrow> console \<Rightarrow> (int \<times> console) option" where
  "screen_write_radix n radix s =
     (if n = 0 then do { s \<leftarrow> console_putc 0x30 s; Some (1, s) }
      else do {
        st \<leftarrow> digit_stack 12 radix n [];
        s \<leftarrow> put_all (map (\<lambda>d. ucast ((d OR 0x30) AND 0xFF)) st) s;
        Some (int (length st), s)
      })"

text \<open>The strings of the error codes; the entries that are not initialised are null pointers.\<close>

definition MAXERROR :: int where "MAXERROR = 18"

definition err_string :: "int \<Rightarrow> u8 list option" where
  "err_string e = map_option asc (map_of
     [(1, ''unspecific error''), (2, ''bad proceess''), (3, ''invalid parameter''), (4, ''out of memory''), (5, ''out of procs''),
      (6, ''segment fault''), (7, ''process is not recving''), (8, ''unexpected end of file''), (11, ''no free space on disk''),
      (12, ''too many files are open''), (13, ''file is not a valid executable''), (14, ''invalid path''), (15, ''file already exists''),
      (17, ''operation not supported'')] e)"

definition print_error :: "u32 \<Rightarrow> console \<Rightarrow> (int \<times> console) option" where
  "print_error errno s =
     (let e = sint (- errno) in
      if MAXERROR < e \<or> e < 1 then Some (0, s)
      else do {
        str \<leftarrow> err_string e;
        (n, s) \<leftarrow> console_puts str s;
        Some (int n, s)
      })"

text \<open>The variable arguments: a number or a string; an argument that is missing or of another kind is
  undefined.\<close>

datatype va = VNum u32 | VStr "u8 list"

fun va_num :: "va list \<Rightarrow> (u32 \<times> va list) option" where
  "va_num (VNum n # ap) = Some (n, ap)"
| "va_num _ = None"

fun va_str :: "va list \<Rightarrow> (u8 list \<times> va list) option" where
  "va_str (VStr t # ap) = Some (t, ap)"
| "va_str _ = None"

text \<open>One conversion: the character behind \<^verbatim>\<open>%\<close>.\<close>

definition convert :: "u8 \<Rightarrow> va list \<Rightarrow> console \<Rightarrow> (int \<times> va list \<times> console) option" where
  "convert c ap s =
     (if c = 0x6F then do {
        s \<leftarrow> console_putc 0x30 s;
        (n, ap) \<leftarrow> va_num ap; (k, s) \<leftarrow> screen_write_radix n 8 s; Some (k + 1, ap, s) }
      else if c = 0x64 then do {
        (n, ap) \<leftarrow> va_num ap;
        (n, s) \<leftarrow> (if sint n < 0 then do { s \<leftarrow> console_putc 0x2D s; Some (- n, s) } else Some (n, s));
        (k, s) \<leftarrow> screen_write_radix n 10 s; Some (k, ap, s) }
      else if c = 0x75 then do {
        (n, ap) \<leftarrow> va_num ap; (k, s) \<leftarrow> screen_write_radix n 10 s; Some (k, ap, s) }
      else if c = 0x78 then do {
        (n, ap) \<leftarrow> va_num ap; (k, s) \<leftarrow> screen_write_hex n s; Some (k, ap, s) }
      else if c = 0x70 then do {
        s \<leftarrow> console_putc 0x30 s; s \<leftarrow> console_putc 0x78 s;
        (n, ap) \<leftarrow> va_num ap; (k, s) \<leftarrow> screen_write_hex n s; Some (k + 2, ap, s) }
      else if c = 0x73 then do {
        (t, ap) \<leftarrow> va_str ap; (k, s) \<leftarrow> console_puts t s; Some (int k, ap, s) }
      else if c = 0x65 then do {
        (n, ap) \<leftarrow> va_num ap; (k, s) \<leftarrow> print_error n s; Some (k, ap, s) }
      else do { s \<leftarrow> console_putc c s; Some (1, ap, s) })"

partial_function (option) vprintfmt :: "u8 list \<Rightarrow> va list \<Rightarrow> int \<Rightarrow> console \<Rightarrow> (int \<times> console) option" where
  "vprintfmt str ap count s = do {
     (c, str) \<leftarrow> next_char str;
     if c = 0 then Some (count, s)
     else if c \<noteq> 0x25 \<and> c \<noteq> 0x1B then do { s \<leftarrow> console_putc c s; vprintfmt str ap (count + 1) s }
     else if c = 0x1B then do { (str, s) \<leftarrow> set_local_attr str s; vprintfmt str ap count s }
     else do {
       (c, str) \<leftarrow> next_char str;
       (k, ap, s) \<leftarrow> convert c ap s;
       vprintfmt str ap (count + k) s
     }
   }"

definition prink :: "u8 list \<Rightarrow> va list \<Rightarrow> console \<Rightarrow> (int \<times> console) option" where
  "prink str ap s = vprintfmt str ap 0 s"

section \<open>Line input\<close>

definition BUFSIZE :: nat where "BUFSIZE = 1024"

text \<open>\<^verbatim>\<open>readline_buf\<close> up to \<^verbatim>\<open>i\<close>; a line that fills the buffer is returned without a terminator.\<close>

partial_function (option) readline_loop :: "bool \<Rightarrow> u8 list \<Rightarrow> u8 list list \<Rightarrow> console \<Rightarrow> (u8 list \<times> u8 list list \<times> console) option" where
  "readline_loop ec buf input s = do {
     (c, input, s) \<leftarrow> getchar input s;
     if c = 0 \<or> c = 0x0A \<or> c = 0x0D then do {
       s \<leftarrow> (if ec then console_putc 0x0A s else Some s);
       Some (buf @ [0], input, s)
     }
     else if c = 0x08 then
       if buf \<noteq> [] then do {
         s \<leftarrow> (if ec then console_putc c s else Some s);
         readline_loop ec (butlast buf) input s
       }
       else readline_loop ec buf input s
     else do {
       s \<leftarrow> (if ec then console_putc c s else Some s);
       if length buf + 1 = BUFSIZE - 1 then Some (buf @ [c], input, s) else readline_loop ec (buf @ [c]) input s
     }
   }"

definition readline :: "u8 list option \<Rightarrow> u8 list list \<Rightarrow> console \<Rightarrow> (u8 list \<times> u8 list list \<times> console) option" where
  "readline prompt input s = do {
     let ec = is_echo s;
     (_, s) \<leftarrow> (case prompt of None \<Rightarrow> Some (0, s) | Some t \<Rightarrow> prink [0x25, 0x73, 0] [VStr t] s);
     readline_loop ec [] input s
   }"

end
