(* ===== verification/Format_Props.thy ===== *)
theory Format_Props
  imports Console
begin

text \<open>The display as 25 rows of 80 cells, and formatted output against a reference formatter.\<close>

section \<open>Output on a free console\<close>

lemma put_run: "\<not> con_locked s \<Longrightarrow> console_putc c s = Some (s\<lparr>scr := cga_putc c (lattr s) (scr s)\<rparr>)"
  by (cases s) (simp add: console_putc_def con_lock_def con_unlock_def)

definition show_bytes :: "u8 list \<Rightarrow> console \<Rightarrow> console" where
  "show_bytes out s = s\<lparr>scr := cga_puts out (lattr s) (scr s)\<rparr>"

lemma cga_puts_append: "cga_puts (a @ b) attr s = cga_puts b attr (cga_puts a attr s)"
  by (induction a arbitrary: s) simp_all

lemma show_bytes_simps [simp]: "con_locked (show_bytes out s) = con_locked s" "show_bytes [] s = s"
  "show_bytes b (show_bytes a s) = show_bytes (a @ b) s"
  by (simp_all add: show_bytes_def cga_puts_append)

lemma put_show: "\<not> con_locked s \<Longrightarrow> console_putc c s = Some (show_bytes [c] s)"
  by (simp add: put_run show_bytes_def)

lemma put_all_show: "\<not> con_locked s \<Longrightarrow> put_all cs s = Some (show_bytes cs s)"
  by (induction cs arbitrary: s) (simp_all add: put_show)

lemma puts_show: "\<not> con_locked s \<Longrightarrow> console_puts cs s = Some (length cs, show_bytes cs s)"
  by (cases s) (simp add: console_puts_def con_lock_def con_unlock_def show_bytes_def)

section \<open>Numbers\<close>

function digits :: "nat \<Rightarrow> nat \<Rightarrow> nat list" where
  "digits r n = (if n = 0 \<or> r < 2 then [] else digits r (n div r) @ [n mod r])"
  by pat_completeness auto
termination
  by (relation "measure snd") auto

declare digits.simps [simp del]

lemma digits_value: "2 \<le> r \<Longrightarrow> foldl (\<lambda>a d. a * r + d) 0 (digits r n) = n"
  by (induction r n rule: digits.induct) (subst digits.simps, auto)

lemma digits_less: "d \<in> set (digits r n) \<Longrightarrow> d < r"
proof (induction r n rule: digits.induct)
  case (1 r n)
  show ?case
  proof (cases "n = 0 \<or> r < 2")
    case True
    then show ?thesis using 1(2) by (subst (asm) digits.simps) simp
  next
    case False
    then have "d \<in> set (digits r (n div r)) \<or> d = n mod r" using 1(2) by (subst (asm) digits.simps) auto
    then show ?thesis using 1(1) [OF False] False by auto
  qed
qed

lemma digits_length: "n < r ^ k \<Longrightarrow> length (digits r n) \<le> k"
proof (induction k arbitrary: n)
  case 0
  then show ?case by (simp add: digits.simps)
next
  case (Suc k)
  show ?case
  proof (cases "n = 0 \<or> r < 2")
    case True
    then show ?thesis by (subst digits.simps) simp
  next
    case False
    have "n div r < r ^ k" using Suc.prems False by (simp add: less_mult_imp_div_less mult.commute)
    then show ?thesis using Suc.IH False by (subst digits.simps) simp
  qed
qed

lemma digit_stack_run:
  assumes "2 \<le> unat radix"
  shows "length (digits (unat radix) (unat n)) + length st \<le> len \<Longrightarrow>
    digit_stack len radix n st = Some (map of_nat (digits (unat radix) (unat n)) @ st)"
proof (induction "unat n" arbitrary: n st rule: less_induct)
  case less
  show ?case
  proof (cases "n = 0")
    case True
    then show ?thesis by (subst digit_stack.simps) (simp add: digits.simps)
  next
    case False
    let ?r = "unat radix"
    have u: "unat (n div radix) = unat n div ?r" "unat (n mod radix) = unat n mod ?r" by (simp_all add: unat_div_distrib unat_mod_distrib)
    have n: "unat n \<noteq> 0" using False by (simp add: unat_eq_0)
    have d: "digits ?r (unat n) = digits ?r (unat (n div radix)) @ [unat (n mod radix)]"
      unfolding u using n assms by (subst digits.simps) simp
    have lt: "unat (n div radix) < unat n" unfolding u using n assms by simp
    have "length (digits ?r (unat (n div radix))) + length (n mod radix # st) \<le> len" using less.prems unfolding d by simp
    from less.hyps [OF lt this] show ?thesis
      unfolding d using False less.prems [unfolded d] by (subst digit_stack.simps) simp
  qed
qed

definition digit_char :: "nat \<Rightarrow> u8" where
  "digit_char d = (if d < 10 then of_nat (0x30 + d) else of_nat (0x37 + d))"

definition numeral_text :: "nat \<Rightarrow> nat \<Rightarrow> u8 list" where
  "numeral_text r n = (if n = 0 then [0x30] else map digit_char (digits r n))"

lemma radix_digit: "d < 10 \<Longrightarrow> ucast (((of_nat d :: u32) OR 0x30) AND 0xFF) = digit_char d"
proof -
  assume "d < 10"
  then have "d = 0 \<or> d = 1 \<or> d = 2 \<or> d = 3 \<or> d = 4 \<or> d = 5 \<or> d = 6 \<or> d = 7 \<or> d = 8 \<or> d = 9" by presburger
  then show ?thesis by (elim disjE) (simp_all add: digit_char_def)
qed

lemma hex_digit: "d < 16 \<Longrightarrow> hex_map (of_nat d) = digit_char d"
proof -
  assume "d < 16"
  then have "d = 0 \<or> d = 1 \<or> d = 2 \<or> d = 3 \<or> d = 4 \<or> d = 5 \<or> d = 6 \<or> d = 7 \<or> d = 8 \<or> d = 9 \<or>
      d = 10 \<or> d = 11 \<or> d = 12 \<or> d = 13 \<or> d = 14 \<or> d = 15" by presburger
  then show ?thesis by (elim disjE) (simp_all add: hex_map_def digit_char_def)
qed

lemma write_radix_run:
  assumes "\<not> con_locked s" "radix = 8 \<or> radix = 10"
  shows "screen_write_radix n radix s = Some (int (length (numeral_text (unat radix) (unat n))), show_bytes (numeral_text (unat radix) (unat n)) s)"
proof (cases "n = 0")
  case True
  then show ?thesis using assms(1) by (simp add: screen_write_radix_def put_show numeral_text_def)
next
  case False
  let ?r = "unat radix"
  have r: "2 \<le> ?r" "?r \<le> 10" using assms(2) by auto
  have "unat n < 2 ^ 32" using unsigned_less [of n] by simp
  then have "unat n < ?r ^ 12" using assms(2) by (elim disjE) simp_all
  then have "digit_stack 12 radix n [] = Some (map of_nat (digits ?r (unat n)))"
    using digit_stack_run [OF r(1), of n "[]" 12] digits_length by simp
  moreover have "map (\<lambda>d. ucast ((d OR 0x30) AND 0xFF)) (map of_nat (digits ?r (unat n)) :: u32 list) = map digit_char (digits ?r (unat n))"
    using order_less_le_trans [OF digits_less r(2)] radix_digit by simp
  ultimately show ?thesis using False assms(1) by (simp add: screen_write_radix_def put_all_show numeral_text_def unat_eq_0 del: map_map)
qed

lemma write_hex_run:
  assumes "\<not> con_locked s"
  shows "screen_write_hex n s = Some (int (length (numeral_text 16 (unat n))), show_bytes (numeral_text 16 (unat n)) s)"
proof (cases "n = 0")
  case True
  then show ?thesis using assms by (simp add: screen_write_hex_def put_show numeral_text_def)
next
  case False
  have "unat n < 16 ^ 8" using unsigned_less [of n] by simp
  then have "digit_stack 8 16 n [] = Some (map of_nat (digits 16 (unat n)))"
    using digit_stack_run [of 16 n "[]" 8] digits_length [of "unat n" 16 8] by simp
  moreover have "map hex_map (map of_nat (digits 16 (unat n))) = map digit_char (digits 16 (unat n))"
    using digits_less [of _ 16 "unat n"] hex_digit by auto
  ultimately show ?thesis using False assms by (simp add: screen_write_hex_def put_all_show numeral_text_def unat_eq_0 del: map_map)
qed

section \<open>The reference formatter\<close>

text \<open>One conversion: the text, the number of characters counted (a minus sign is not) and the arguments left.\<close>

definition conv_ref :: "u8 \<Rightarrow> va list \<Rightarrow> (u8 list \<times> int \<times> va list) option" where
  "conv_ref c ap =
     (if c = 0x6F then do { (n, ap) \<leftarrow> va_num ap; let t = 0x30 # numeral_text 8 (unat n); Some (t, int (length t), ap) }
      else if c = 0x64 then do {
        (n, ap) \<leftarrow> va_num ap;
        let t = numeral_text 10 (nat \<bar>sint n\<bar>);
        Some (if sint n < 0 then 0x2D # t else t, int (length t), ap) }
      else if c = 0x75 then do { (n, ap) \<leftarrow> va_num ap; let t = numeral_text 10 (unat n); Some (t, int (length t), ap) }
      else if c = 0x78 then do { (n, ap) \<leftarrow> va_num ap; let t = numeral_text 16 (unat n); Some (t, int (length t), ap) }
      else if c = 0x70 then do { (n, ap) \<leftarrow> va_num ap; let t = 0x30 # 0x78 # numeral_text 16 (unat n); Some (t, int (length t), ap) }
      else if c = 0x73 then do { (t, ap) \<leftarrow> va_str ap; Some (t, int (length t), ap) }
      else if c = 0x65 then do {
        (n, ap) \<leftarrow> va_num ap;
        t \<leftarrow> (if sint (- n) \<in> {1..MAXERROR} then err_string (sint (- n)) else Some []);
        Some (t, int (length t), ap) }
      else Some ([c], 1, ap))"

fun fmt_ref :: "u8 list \<Rightarrow> va list \<Rightarrow> (u8 list \<times> int) option" where
  "fmt_ref [] ap = None"
| "fmt_ref (c # str) ap =
     (if c = 0 then Some ([], 0)
      else if c \<noteq> 0x25 then do { (t, k) \<leftarrow> fmt_ref str ap; Some (c # t, k + 1) }
      else case str of [] \<Rightarrow> None
        | d # str' \<Rightarrow> do { (u, j, ap) \<leftarrow> conv_ref d ap; (t, k) \<leftarrow> fmt_ref str' ap; Some (u @ t, j + k) })"

lemma abs_neg: "sint (n :: u32) < 0 \<Longrightarrow> unat (- n) = nat \<bar>sint n\<bar>"
proof -
  assume n: "sint n < 0"
  have b: "- (2 ^ 31) \<le> sint n" using sint_ge [of n] by simp
  have "uint (- n) = (- sint n) mod 2 ^ 32"
    unfolding uint_word_ariths(4) unfolding uint_sint take_bit_eq_mod by (simp add: mod_minus_eq)
  also have "\<dots> = - sint n" using n b by (intro mod_pos_pos_trivial) simp_all
  finally show ?thesis using n by (simp add: unat_eq_nat_uint)
qed

lemma abs_pos: "\<not> sint (n :: u32) < 0 \<Longrightarrow> unat n = nat \<bar>sint n\<bar>"
proof -
  assume n: "\<not> sint n < 0"
  have b: "sint n < 2 ^ 31" using sint_less [of n] by simp
  have "uint n = sint n mod 2 ^ 32" by (simp add: uint_sint take_bit_eq_mod)
  also have "\<dots> = sint n" using n b by (intro mod_pos_pos_trivial) simp_all
  finally show ?thesis using n by (simp add: unat_eq_nat_uint)
qed

lemma convert_run:
  assumes "\<not> con_locked s"
  shows "convert c ap s = map_option (\<lambda>(t, k, ap). (k, ap, show_bytes t s)) (conv_ref c ap)"
proof -
  have l: "\<not> con_locked (show_bytes t s)" for t using assms by simp
  note w8 = write_radix_run [of _ 8] and w10 = write_radix_run [of _ 10] and wh = write_hex_run
  note runs = put_show [OF assms] put_show [OF l] puts_show [OF assms] w8 w10 write_hex_run
  consider "c = 0x6F" | "c = 0x64" | "c = 0x75" | "c = 0x78" | "c = 0x70" | "c = 0x73" | "c = 0x65"
    | "c \<notin> {0x6F, 0x64, 0x75, 0x78, 0x70, 0x73, 0x65}" by blast
  then show ?thesis
  proof cases
    case 2
    show ?thesis
    proof (cases "va_num ap")
      case None
      then show ?thesis using 2 by (simp add: convert_def conv_ref_def)
    next
      case (Some x)
      then obtain n ap' where x: "va_num ap = Some (n, ap')" by (cases x) simp
      show ?thesis
        using 2 x assms abs_neg [of n] abs_pos [of n]
        by (cases "sint n < 0") (simp_all add: convert_def conv_ref_def runs Let_def)
    qed
  next
    case 7
    have e: "Option.bind m (\<lambda>y. Some (int (length y), b, show_bytes y s)) =
        map_option (\<lambda>(t, k, ap). (k, ap, show_bytes t s)) (Option.bind m (\<lambda>t. Some (t, int (length t), b)))" for m b
      by (cases m) simp_all
    show ?thesis using 7 assms
      by (cases "va_num ap") (auto simp: convert_def conv_ref_def print_error_def puts_show Let_def e split: option.splits)
  qed (use assms in \<open>cases "va_num ap"; cases "va_str ap"; auto simp: convert_def conv_ref_def runs Let_def\<close>)+
qed

lemma vprintfmt_run:
  "\<not> con_locked s \<Longrightarrow> 0x1B \<notin> set str \<Longrightarrow>
    vprintfmt str ap count s = map_option (\<lambda>(t, k). (count + k, show_bytes t s)) (fmt_ref str ap)"
proof (induction str ap arbitrary: count s rule: fmt_ref.induct)
  case (1 ap)
  then show ?case by (subst vprintfmt.simps) simp
next
  case (2 c str ap)
  consider "c = 0" | "c \<noteq> 0" "c \<noteq> 0x25" | "c = 0x25" "str = []" | d str' where "c = 0x25" "str = d # str'" by (cases str) auto
  then show ?case
  proof cases
    case 2
    have "vprintfmt str ap (count + 1) (show_bytes [c] s) =
        map_option (\<lambda>(t, k). (count + 1 + k, show_bytes t (show_bytes [c] s))) (fmt_ref str ap)"
      using "2.IH"(1) 2 "2.prems" by simp
    then show ?thesis using 2 "2.prems"
      by (subst vprintfmt.simps) (cases "fmt_ref str ap", auto simp: put_show algebra_simps)
  next
    case (4 d str')
    show ?thesis
    proof (cases "conv_ref d ap")
      case None
      then show ?thesis using 4 "2.prems" by (subst vprintfmt.simps) (simp add: convert_run)
    next
      case (Some x)
      obtain u j ap' where x: "conv_ref d ap = Some (u, j, ap')" using Some by (cases x) auto
      have "vprintfmt str' ap' (count + j) (show_bytes u s) =
          map_option (\<lambda>(t, k). (count + j + k, show_bytes t (show_bytes u s))) (fmt_ref str' ap')"
        using "2.IH"(2) [OF _ _ 4(2) x] 4 "2.prems" by simp
      then show ?thesis using 4 x "2.prems"
        by (subst vprintfmt.simps) (cases "fmt_ref str' ap'", auto simp: convert_run algebra_simps)
    qed
  qed (use "2.prems" in \<open>subst vprintfmt.simps; simp\<close>)+
qed

section \<open>The display\<close>

definition cga_ok :: "screen \<Rightarrow> bool" where
  "cga_ok s \<longleftrightarrow> unat (cursor_x s) \<le> 80 \<and> unat (cursor_y s) < 25 \<and> crtc_pos s = cursor_y s * 80 + cursor_x s"

lemma pos_unat: "unat (x :: u16) \<le> 80 \<Longrightarrow> unat (y :: u16) < 25 \<Longrightarrow> unat (y * 80 + x) = unat y * 80 + unat x"
proof -
  assume a: "unat x \<le> 80" "unat y < 25"
  have "unat (y * 80) = unat y * 80" using a by (subst unat_mult_lem [THEN iffD1]) simp_all
  then show ?thesis using a by (subst unat_add_lem [THEN iffD1]) simp_all
qed

lemma finish_ok: "unat (cursor_x s) \<le> 80 \<Longrightarrow> unat (cursor_y s) \<le> 25 \<Longrightarrow> cga_ok (cga_finish s)"
  by (simp add: cga_ok_def cga_finish_def move_cursor_def scroll_screen_def word_le_nat_alt)

lemma finish_id: "cursor_y s < 25 \<Longrightarrow> cga_finish s = s\<lparr>crtc_pos := cursor_y s * 80 + cursor_x s\<rparr>"
  by (simp add: cga_finish_def move_cursor_def not_le [symmetric])

lemma finish_mem: "2000 \<le> i \<Longrightarrow> cga_mem (cga_finish s) i = cga_mem s i"
  by (simp add: cga_finish_def move_cursor_def scroll_screen_def)

lemma finish_same: "cga_ok s \<Longrightarrow> cga_finish s = s"
  by (cases s) (simp add: cga_finish_def move_cursor_def cga_ok_def word_le_nat_alt)

text \<open>The behaviour per character, without the recursive calls.\<close>

definition printable :: "u8 \<Rightarrow> bool" where "printable c \<longleftrightarrow> c \<notin> {0x08, 0x09, 0x0A, 0x0D}"

lemma putc_newline: "cga_putc 0x0A attr s = cga_finish (s\<lparr>cursor_y := cursor_y s + 1, cursor_x := 0\<rparr>)"
  by (subst cga_putc.simps) simp

lemma putc_printable:
  assumes "cga_ok s" "printable c"
  defines "p \<equiv> unat (cursor_y s) * 80 + unat (cursor_x s)"
  shows "cga_putc c attr s = (if unat (cursor_x s) < 80 then (set_cell p (ucast c OR attr) s)\<lparr>cursor_x := cursor_x s + 1, crtc_pos := crtc_pos s + 1\<rparr>
    else cga_finish ((set_cell p (ucast c OR attr) s)\<lparr>cursor_y := cursor_y s + 1, cursor_x := 0\<rparr>))"
proof -
  have pos: "unat (cursor_y s * 80 + cursor_x s) = p" using assms(1) pos_unat by (simp add: cga_ok_def p_def)
  have x: "80 < cursor_x s + 1 \<longleftrightarrow> \<not> unat (cursor_x s) < 80" "unat (cursor_x s + 1) = unat (cursor_x s) + 1"
  proof -
    show u: "unat (cursor_x s + 1) = unat (cursor_x s) + 1" using assms(1) by (subst unat_add_lem [THEN iffD1]) (simp_all add: cga_ok_def)
    show "80 < cursor_x s + 1 \<longleftrightarrow> \<not> unat (cursor_x s) < 80" unfolding word_less_nat_alt u by (simp add: not_less) linarith
  qed
  have fin: "cga_finish (cga_finish t) = cga_finish t" if "unat (cursor_x t) \<le> 80" "unat (cursor_y t) \<le> 25" for t
    using finish_same [OF finish_ok [OF that]] .
  have y: "unat (cursor_y s + 1) = unat (cursor_y s) + 1" "cursor_y s < 25"
    using assms(1) by (subst unat_add_lem [THEN iffD1], simp_all add: cga_ok_def word_less_nat_alt)
  show ?thesis
  proof (cases "unat (cursor_x s) < 80")
    case True
    then show ?thesis using assms(1,2) x y(2) pos
      by (subst cga_putc.simps) (simp add: printable_def finish_id set_cell_def cga_ok_def add.assoc)
  next
    case False
    then show ?thesis using assms(1,2) x y pos fin
      by (subst cga_putc.simps) (simp add: printable_def putc_newline set_cell_def cga_ok_def)
  qed
qed

definition screen_step :: "screen \<Rightarrow> screen \<Rightarrow> bool" where
  "screen_step s s' \<longleftrightarrow> cga_ok s' \<and> (\<forall>i>2000. cga_mem s' i = cga_mem s i)"

lemma screen_step_trans: "screen_step s t \<Longrightarrow> screen_step t u \<Longrightarrow> screen_step s u"
  by (simp add: screen_step_def)

lemma screen_step_finish:
  "unat (cursor_x t) \<le> 80 \<Longrightarrow> unat (cursor_y t) \<le> 25 \<Longrightarrow> \<forall>i>2000. cga_mem t i = cga_mem s i \<Longrightarrow> screen_step s (cga_finish t)"
  using finish_ok finish_mem by (simp add: screen_step_def)

lemma next_row: "cga_ok s \<Longrightarrow> unat (cursor_y s + 1) \<le> 25"
  by (subst unat_add_lem [THEN iffD1]) (simp_all add: cga_ok_def)

lemma putc_printable_step: "cga_ok s \<Longrightarrow> printable c \<Longrightarrow> screen_step s (cga_putc c attr s)"
proof -
  assume a: "cga_ok s" "printable c"
  have x: "unat (cursor_x s) < 80 \<Longrightarrow> unat (cursor_x s + 1) \<le> 80" by (subst unat_add_lem [THEN iffD1]) simp_all
  show ?thesis
  proof (cases "unat (cursor_x s) < 80")
    case True
    then show ?thesis using a(1) x unfolding putc_printable [OF a] by (simp add: screen_step_def set_cell_def cga_ok_def algebra_simps)
  next
    case False
    show ?thesis
      unfolding putc_printable [OF a] if_not_P [OF False]
      by (rule screen_step_finish) (use a(1) next_row [OF a(1)] in \<open>simp_all add: set_cell_def cga_ok_def\<close>)
  qed
qed

text \<open>A string of printable characters that fits into the row.\<close>

definition row_text :: "nat \<Rightarrow> u8 list \<Rightarrow> u16 \<Rightarrow> (nat \<Rightarrow> u16) \<Rightarrow> nat \<Rightarrow> u16" where
  "row_text p w attr m i = (if p \<le> i \<and> i < p + length w then ucast (w ! (i - p)) OR attr else m i)"

lemma puts_row:
  "cga_ok s \<Longrightarrow> \<forall>c\<in>set w. printable c \<Longrightarrow> unat (cursor_x s) + length w \<le> 80 \<Longrightarrow>
    cga_ok (cga_puts w attr s) \<and> cga_mem (cga_puts w attr s) = row_text (unat (cursor_y s) * 80 + unat (cursor_x s)) w attr (cga_mem s) \<and>
    unat (cursor_x (cga_puts w attr s)) = unat (cursor_x s) + length w \<and> cursor_y (cga_puts w attr s) = cursor_y s"
proof (induction w arbitrary: s)
  case Nil
  then show ?case by (auto simp: row_text_def fun_eq_iff)
next
  case (Cons c w)
  let ?t = "cga_putc c attr s" and ?p = "unat (cursor_y s) * 80 + unat (cursor_x s)"
  have c: "printable c" "unat (cursor_x s) < 80" using Cons.prems by auto
  have x: "unat (cursor_x s + 1) = unat (cursor_x s) + 1" using c(2) by (subst unat_add_lem [THEN iffD1]) simp_all
  have t: "cursor_x ?t = cursor_x s + 1" "cursor_y ?t = cursor_y s" "cga_mem ?t = (cga_mem s)(?p := ucast c OR attr)"
    unfolding putc_printable [OF Cons.prems(1) c(1)] if_P [OF c(2)] by (simp_all add: set_cell_def)
  have ok: "cga_ok ?t" using putc_printable_step [OF Cons.prems(1) c(1)] by (simp add: screen_step_def)
  have r: "row_text (?p + 1) w attr (cga_mem ?t) = row_text ?p (c # w) attr (cga_mem s)"
    unfolding t by (rule ext) (auto simp: row_text_def nth_Cons' not_le)
  have "cga_ok (cga_puts w attr ?t)" "cga_mem (cga_puts w attr ?t) = row_text (?p + 1) w attr (cga_mem ?t)"
    "unat (cursor_x (cga_puts w attr ?t)) = unat (cursor_x s) + length (c # w)" "cursor_y (cga_puts w attr ?t) = cursor_y s"
    using Cons.IH [OF ok] Cons.prems(2,3) x by (simp_all add: t(1,2))
  then show ?case unfolding r by simp
qed

section \<open>Properties\<close>

text \<open>C24: whatever is printed, the cursor stays on the screen or one column to the right of it, the hardware cursor
  follows it, and no memory behind the cell after the last one of the screen is written.\<close>

theorem cga_putc_stays_on_screen:
  assumes "cga_ok s"
  shows "cga_ok (cga_putc c attr s) \<and> (\<forall>i>2000. cga_mem (cga_putc c attr s) i = cga_mem s i)"
proof -
  have y: "unat (cursor_y s) \<le> 25" "unat (cursor_x s) \<le> 80" using assms by (simp_all add: cga_ok_def)
  have pos: "unat (cursor_y s * 80 + cursor_x s) \<le> 2000" using assms pos_unat by (simp add: cga_ok_def)
  have blank: "screen_step t (cga_putc 0x20 attr t)" if "cga_ok t" for t
    by (rule putc_printable_step [OF that]) (simp add: printable_def)
  have "screen_step s (cga_putc c attr s)"
  proof (cases "printable c")
    case True
    then show ?thesis by (rule putc_printable_step [OF assms])
  next
    case False
    have tab: "screen_step s (cga_putc 0x20 attr (cga_putc 0x20 attr (cga_putc 0x20 attr (cga_putc 0x20 attr s))))"
      using assms blank screen_step_trans by (meson screen_step_def)
    have left: "unat (cursor_x s - 1) \<le> 80" if "0 < cursor_x s" using that y(2) by (simp add: unat_minus_one word_gt_0)
    consider "c = 0x08" | "c = 0x09" | "c = 0x0A" | "c = 0x0D" using False by (auto simp: printable_def)
    then show ?thesis
      by cases (subst cga_putc.simps,
        use tab left y pos next_row [OF assms] in \<open>auto simp: set_cell_def finish_same screen_step_def finish_ok finish_mem; fail\<close>)+
  qed
  then show ?thesis by (simp add: screen_step_def)
qed

theorem cga_putc_stays_on_screen_witness: "cga_ok (cga_putc 0x0A 0x0700 \<lparr>cga_mem = (\<lambda>_. 0), cursor_x = 80, cursor_y = 24, crtc_pos = 2000\<rparr>)"
  using cga_putc_stays_on_screen [of "\<lparr>cga_mem = (\<lambda>_. 0), cursor_x = 80, cursor_y = 24, crtc_pos = 2000\<rparr>" "0x0A" "0x0700"]
  by (simp add: cga_ok_def)

text \<open>The display loses characters at the end of a full row: after the 80 characters of a row, the next character
  is written into the first cell of the following row without moving there, and the one after it
  overwrites it.\<close>

theorem cga_wrap_loses_character:
  assumes "cga_ok s" "cursor_x s = 0" "unat (cursor_y s) < 24" "length w = 80" "\<forall>x\<in>set w. printable x" "printable c" "printable d"
  shows "cga_mem (cga_puts (w @ [c, d]) attr s) =
    (row_text (80 * unat (cursor_y s)) w attr (cga_mem s))(80 * (unat (cursor_y s) + 1) := ucast d OR attr)"
proof -
  let ?t = "cga_puts w attr s"
  have t: "cga_ok ?t" "cga_mem ?t = row_text (80 * unat (cursor_y s)) w attr (cga_mem s)" "unat (cursor_x ?t) = 80" "cursor_y ?t = cursor_y s"
    using puts_row [OF assms(1,5), of attr] assms(2,4) by (simp_all add: mult.commute)
  have y: "unat (cursor_y s + 1) = unat (cursor_y s) + 1" using assms(3) by (subst unat_add_lem [THEN iffD1]) simp_all
  have y': "cursor_y s + 1 < 25" unfolding word_less_nat_alt y using assms(3) by simp
  let ?u = "(set_cell (unat (cursor_y s) * 80 + 80) (ucast c OR attr) ?t)\<lparr>cursor_y := cursor_y s + 1, cursor_x := 0, crtc_pos := (cursor_y s + 1) * 80\<rparr>"
  have u: "cga_putc c attr ?t = ?u"
    unfolding putc_printable [OF t(1) assms(6)] using t(3,4) y' by (simp add: finish_id set_cell_def)
  have "cga_ok ?u" using assms(3) by (simp add: cga_ok_def y)
  from putc_printable [OF this assms(7), of attr] show ?thesis
    using y t(2) by (simp add: cga_puts_append u set_cell_def algebra_simps)
qed

theorem cga_wrap_loses_character_witness:
  "cga_mem (cga_puts (replicate 80 0x61 @ [0x62, 0x63]) 0x0700 \<lparr>cga_mem = (\<lambda>_. 0), cursor_x = 0, cursor_y = 0, crtc_pos = 0\<rparr>) 80 = 0x0763"
  using cga_wrap_loses_character [of "\<lparr>cga_mem = (\<lambda>_. 0), cursor_x = 0, cursor_y = 0, crtc_pos = 0\<rparr>" "replicate 80 0x61" "0x62" "0x63" "0x0700"]
  by (simp add: cga_ok_def printable_def)

text \<open>C23: formatted output is correct: for a format without colour escapes, on a free console, \<^verbatim>\<open>vprintfmt\<close> prints the
  text of the reference formatter and returns its count, and it faults exactly where that is
  undefined (a percent sign before the terminator, an error code without a string, a missing argument); the digit
  buffers are never overrun.\<close>

theorem vprintfmt_correct:
  assumes "\<not> con_locked s" "0x1B \<notin> set str"
  shows "prink str ap s = map_option (\<lambda>(t, k). (k, s\<lparr>scr := cga_puts t (lattr s) (scr s)\<rparr>)) (fmt_ref str ap)"
  using vprintfmt_run [OF assms, of ap 0] by (simp add: prink_def show_bytes_def)

text \<open>A console for examples.\<close>

definition blank_con :: console where
  "blank_con = console_init \<lparr>scr = \<lparr>cga_mem = (\<lambda>_. 0), cursor_x = 0, cursor_y = 0, crtc_pos = 0\<rparr>, lattr = 0x0700, echo = False,
     con_locked = True, kbd_locked = False, read_buf = \<lparr>rpos = 0, wpos = 0, tbuf = (\<lambda>_. 0)\<rparr>,
     write_buf = \<lparr>rpos = 0, wpos = 0, tbuf = (\<lambda>_. 0)\<rparr>, kbd_shift = 0, kbd_port = [], con_wakeups = 0\<rparr>"

theorem vprintfmt_correct_witness:
  "prink [0x6E, 0x3D, 0x25, 0x64, 0] [VNum (- 42)] blank_con =
    Some (4, blank_con\<lparr>scr := cga_puts [0x6E, 0x3D, 0x2D, 0x34, 0x32] (lattr blank_con) (scr blank_con)\<rparr>)"
proof -
  have "\<not> con_locked blank_con" by (simp add: blank_con_def console_init_def)
  moreover have "numeral_text 10 42 = [0x34, 0x32]" by (simp add: numeral_text_def digits.simps digit_char_def)
  ultimately show ?thesis
    using vprintfmt_correct [of blank_con "[0x6E, 0x3D, 0x25, 0x64, 0]" "[VNum (- 42)]"] by (simp add: conv_ref_def)
qed

end
