(* ===== verification/Console_Props.thy ===== *)
theory Console_Props
  imports Format_Props
begin

text \<open>The line discipline of the terminal: its queues, the line editor of the interrupt handler, and reading.\<close>

section \<open>The queues of the terminal\<close>

definition q_len :: "tty_queue \<Rightarrow> nat" where "q_len q = unat (wpos q - rpos q)"

definition q_cell :: "tty_queue \<Rightarrow> nat \<Rightarrow> u8" where "q_cell q i = tbuf q ((unat (rpos q) + i) mod TTY_BUF)"

definition q_content :: "tty_queue \<Rightarrow> u8 list" where "q_content q = map (q_cell q) [0..<q_len q]"

definition q_ok :: "tty_queue \<Rightarrow> bool" where "q_ok q \<longleftrightarrow> q_len q \<le> TTY_BUF"

lemma unat_add_mod_buf: "unat (a + b :: u32) mod TTY_BUF = (unat a + unat b) mod TTY_BUF"
proof -
  have "(256 :: nat) dvd 2 ^ 32" by simp
  then have "unat (a + b) mod 256 = (unat a + unat b) mod 256" by (simp add: unat_word_ariths mod_mod_cancel)
  then show ?thesis by (simp add: TTY_BUF_def)
qed

lemma wpos_index: "unat (wpos q) mod TTY_BUF = (unat (rpos q) + q_len q) mod TTY_BUF"
  using unat_add_mod_buf [of "rpos q" "wpos q - rpos q"] by (simp add: q_len_def)

lemma index_apart: "i < k \<Longrightarrow> k - i < TTY_BUF \<Longrightarrow> (r + i) mod TTY_BUF \<noteq> (r + k) mod TTY_BUF"
proof
  assume a: "i < k" "k - i < TTY_BUF" "(r + i) mod TTY_BUF = (r + k) mod TTY_BUF"
  then have "TTY_BUF dvd (r + k) - (r + i)" by (intro mod_eq_dvd_iff_nat [THEN iffD1]) auto
  then show False using a by (auto dest: dvd_imp_le)
qed

lemma length_content [simp]: "length (q_content q) = q_len q"
  by (simp add: q_content_def)

lemma q_empty_iff: "q_empty q \<longleftrightarrow> q_content q = []"
proof -
  have "wpos q - rpos q = 0 \<longleftrightarrow> rpos q = wpos q" by auto
  then show ?thesis by (simp add: q_empty_def q_content_def q_len_def unat_eq_0)
qed

lemma q_room_iff: "q_room q \<longleftrightarrow> length (q_content q) < TTY_BUF"
  by (simp add: q_room_def q_len_def)

lemma unat_succ: "unat (x :: u32) < n \<Longrightarrow> n < 2 ^ 32 \<Longrightarrow> unat (x + 1) = unat x + 1"
  by (subst unat_add_lem [THEN iffD1]) simp_all

lemma q_put_content:
  assumes "q_room q"
  shows "q_content (q_put c q) = q_content q @ [c]" "q_ok (q_put c q)"
proof -
  have l: "q_len (q_put c q) = Suc (q_len q)"
    using assms unat_succ [of "wpos q - rpos q" TTY_BUF] by (simp add: q_len_def q_put_def q_room_def TTY_BUF_def algebra_simps)
  have "q_cell (q_put c q) i = q_cell q i" if "i < q_len q" for i
    using that assms index_apart [of i "q_len q" "unat (rpos q)"] wpos_index [of q]
    by (simp add: q_cell_def q_put_def q_room_def q_len_def)
  moreover have "q_cell (q_put c q) (q_len q) = c" using wpos_index [of q] by (simp add: q_cell_def q_put_def)
  ultimately show "q_content (q_put c q) = q_content q @ [c]" unfolding q_content_def l by simp
  show "q_ok (q_put c q)" unfolding q_ok_def l using assms by (simp add: q_room_def q_len_def)
qed

lemma q_len_pos: "q_content q \<noteq> [] \<Longrightarrow> wpos q - rpos q \<noteq> 0 \<and> 0 < q_len q"
  by (auto simp: q_content_def q_len_def unat_gt_0)

lemma word_pred_unat: "x \<noteq> 0 \<Longrightarrow> unat (x - 1 :: u32) = unat x - 1"
  by (simp add: unat_minus_one)

lemma q_get_content:
  assumes "q_content q \<noteq> []"
  shows "fst (q_get q) = hd (q_content q)" "q_content (snd (q_get q)) = tl (q_content q)" "q_ok q \<Longrightarrow> q_ok (snd (q_get q))"
proof -
  let ?q = "snd (q_get q)"
  note p = q_len_pos [OF assms]
  have e: "wpos q - (rpos q + 1) = wpos q - rpos q - 1" by simp
  have l: "q_len ?q = q_len q - 1" using word_pred_unat [OF conjunct1 [OF p], folded e] by (simp add: q_len_def q_get_def)
  have c: "q_cell ?q i = q_cell q (Suc i)" for i
  proof -
    have "(unat (rpos q + 1) + i) mod TTY_BUF = (unat (rpos q + 1) mod TTY_BUF + i) mod TTY_BUF" by (simp add: mod_add_left_eq)
    also have "\<dots> = (unat (rpos q) + Suc i) mod TTY_BUF" unfolding unat_add_mod_buf by (simp add: mod_add_left_eq)
    finally have "(unat (rpos q + 1) + i) mod TTY_BUF = (unat (rpos q) + Suc i) mod TTY_BUF" .
    then show ?thesis by (simp add: q_cell_def q_get_def)
  qed
  have "[0..<q_len q] = 0 # map Suc [0..<q_len q - 1]" using p by (simp add: map_Suc_upt upt_conv_Cons)
  then have q: "q_content q = q_cell q 0 # map (q_cell ?q) [0..<q_len q - 1]" using c by (simp add: q_content_def)
  show "fst (q_get q) = hd (q_content q)" unfolding q by (simp add: q_get_def q_cell_def)
  show "q_content ?q = tl (q_content q)" unfolding q by (simp add: q_content_def l)
  show "q_ok q \<Longrightarrow> q_ok ?q" by (simp add: q_ok_def l)
qed

lemma q_back_content:
  assumes "q_content q \<noteq> []"
  shows "q_content (q_back q) = butlast (q_content q)" "q_last q = last (q_content q)" "q_ok q \<Longrightarrow> q_ok (q_back q)"
proof -
  note p = q_len_pos [OF assms]
  have e: "wpos q - 1 - rpos q = wpos q - rpos q - 1" by simp
  have l: "q_len (q_back q) = q_len q - 1" using word_pred_unat [OF conjunct1 [OF p], folded e] by (simp add: q_len_def q_back_def)
  have "q_cell (q_back q) = q_cell q" by (rule ext) (simp add: q_cell_def q_back_def)
  then show "q_content (q_back q) = butlast (q_content q)" using p by (cases "q_len q") (simp_all add: q_content_def l)
  show "q_ok q \<Longrightarrow> q_ok (q_back q)" by (simp add: q_ok_def l)
  have "last (q_content q) = q_cell q (q_len q - 1)" using p by (simp add: q_content_def last_map)
  moreover have "unat (wpos q - 1) mod TTY_BUF = (unat (rpos q) + (q_len q - 1)) mod TTY_BUF"
    using wpos_index [of "q_back q"] l by (simp add: q_back_def)
  ultimately show "q_last q = last (q_content q)" by (simp add: q_last_def q_cell_def)
qed

section \<open>The line editor\<close>

text \<open>What a typed character does to the pending input and the number of wake-ups: control characters edit the
  line, others are appended while there is room, and the end of a line or a full buffer wakes the readers.\<close>

definition edit :: "u8 \<Rightarrow> u8 list \<times> nat \<Rightarrow> u8 list \<times> nat" where
  "edit c = (\<lambda>(q, w).
     if c = 0x10 \<or> c = 0 then (q, w)
     else if c = 0x15 then (rev (dropWhile (\<lambda>x. x \<noteq> 0x0A) (rev q)), w)
     else if c = 0x7F \<or> c = 0x08 then (butlast q, w)
     else if length q < TTY_BUF then
       let d = (if c = 0x0D then 0x0A else c) in (q @ [d], if d = 0x0A \<or> length q + 1 = TTY_BUF then w + 1 else w)
     else (q, w))"

text \<open>The characters of a list of scan codes, up to a key without an ASCII code, where the interrupt handler stops.\<close>

fun keys :: "u32 \<Rightarrow> u8 list \<Rightarrow> u8 list" where
  "keys sh [] = []"
| "keys sh (code # codes) = (let (d, sh) = kbd_decode code sh; c = (ucast d :: u8) in if 0x80 \<le> c then [] else c # keys sh codes)"

definition pending :: "console \<Rightarrow> u8 list \<times> nat" where "pending s = (q_content (write_buf s), con_wakeups s)"

definition con_ok :: "console \<Rightarrow> bool" where "con_ok s \<longleftrightarrow> \<not> con_locked s \<and> q_ok (write_buf s)"

lemma kill_line_run:
  "con_ok s \<Longrightarrow> \<exists>s'. kill_line s = Some s' \<and> con_ok s' \<and> q_content (write_buf s') = rev (dropWhile (\<lambda>x. x \<noteq> 0x0A) (rev (q_content (write_buf s)))) \<and>
    con_wakeups s' = con_wakeups s \<and> kbd_port s' = kbd_port s \<and> kbd_shift s' = kbd_shift s \<and> kbd_locked s' = kbd_locked s"
proof (induction "length (q_content (write_buf s))" arbitrary: s)
  case 0
  then have "q_content (write_buf s) = []" by (simp add: q_content_def)
  then show ?case using 0 by (subst kill_line.simps) (simp add: q_empty_iff)
next
  case (Suc n)
  have ne: "q_content (write_buf s) \<noteq> []" using Suc.hyps(2) by (metis length_0_conv nat.distinct(1))
  note b = q_back_content [OF ne]
  let ?t = "(upd_wbuf q_back s)\<lparr>scr := cga_putc 0x08 (lattr s) (scr s)\<rparr>"
  have r: "rev (q_content (write_buf s)) = last (q_content (write_buf s)) # rev (butlast (q_content (write_buf s)))"
    using append_butlast_last_id [OF ne] by (metis rev.simps(2) rev_append rev_rev_ident append.simps(2) append_Nil)
  show ?case
  proof (cases "last (q_content (write_buf s)) = 0x0A")
    case True
    have "rev (dropWhile (\<lambda>x. x \<noteq> 0x0A) (rev (q_content (write_buf s)))) = q_content (write_buf s)"
      unfolding r using True append_butlast_last_id [OF ne] by simp
    then show ?thesis using True b(2) Suc.prems by (subst kill_line.simps) simp
  next
    case False
    have step: "kill_line s = kill_line ?t"
      using False b(2) ne Suc.prems
      by (subst kill_line.simps) (simp add: q_empty_iff con_ok_def put_run upd_wbuf_def)
    have "con_ok ?t" "n = length (q_content (write_buf ?t))"
      using Suc.prems Suc.hyps(2) b(1,3) by (simp_all add: con_ok_def upd_wbuf_def)
    from Suc.hyps(1) [OF this(2,1)] show ?thesis
      unfolding step unfolding r using b(1) False by (auto simp: upd_wbuf_def)
  qed
qed

lemma full_iff: "q_ok q \<Longrightarrow> wpos q = rpos q + of_nat TTY_BUF \<longleftrightarrow> q_len q = TTY_BUF"
proof -
  have "wpos q - rpos q = of_nat TTY_BUF \<longleftrightarrow> unat (wpos q - rpos q) = unat (of_nat TTY_BUF :: u32)"
    by (rule word_eq_iff_unsigned)
  moreover have "unat (of_nat TTY_BUF :: u32) = TTY_BUF" by (simp add: TTY_BUF_def)
  moreover have "wpos q - rpos q = of_nat TTY_BUF \<longleftrightarrow> wpos q = rpos q + of_nat TTY_BUF"
    by (simp only: diff_eq_eq add.commute)
  ultimately show ?thesis by (simp add: q_len_def)
qed

lemma kbd_char_run:
  assumes "con_ok s"
  shows "\<exists>s'. kbd_char c s = Some s' \<and> con_ok s' \<and> pending s' = edit c (pending s) \<and> kbd_port s' = kbd_port s \<and>
    kbd_shift s' = kbd_shift s \<and> kbd_locked s' = kbd_locked s"
proof -
  let ?q = "q_content (write_buf s)"
  consider (kill) "c = 0x15" | (erase) "c = 0x7F \<or> c = 0x08" | (other) "c \<noteq> 0x15" "c \<noteq> 0x7F" "c \<noteq> 0x08" by blast
  then show ?thesis
  proof cases
    case kill
    then show ?thesis using kill_line_run [OF assms] by (auto simp: kbd_char_def edit_def pending_def)
  next
    case erase
    then show ?thesis
      using assms q_back_content [of "write_buf s"]
      by (cases "?q = []") (auto simp: kbd_char_def edit_def pending_def q_empty_iff put_run con_ok_def upd_wbuf_def)
  next
    case other
    let ?d = "if c = 0x0D then 0x0A else c"
    show ?thesis
    proof (cases "c = 0 \<or> c = 0x10 \<or> \<not> q_room (write_buf s)")
      case True
      then show ?thesis using other assms by (auto simp: kbd_char_def edit_def pending_def q_room_iff)
    next
      case False
      note p = q_put_content [of "write_buf s" ?d]
      have "wpos (q_put ?d (write_buf s)) = rpos (q_put ?d (write_buf s)) + of_nat TTY_BUF \<longleftrightarrow> length ?q + 1 = TTY_BUF"
        using False p full_iff [of "q_put ?d (write_buf s)"] length_content [of "q_put ?d (write_buf s)"] by auto
      then show ?thesis
        using other False assms p
        by (auto simp: kbd_char_def edit_def pending_def put_run con_ok_def upd_wbuf_def q_room_iff Let_def)
    qed
  qed
qed

lemma kbd_loop_run:
  "con_ok s \<Longrightarrow> \<exists>s'. kbd_loop rc s = Some s' \<and> con_ok s' \<and> pending s' = fold edit (keys (kbd_shift s) (kbd_port s)) (pending s) \<and>
    kbd_locked s' = kbd_locked s"
proof (induction "kbd_port s" arbitrary: s rc)
  case Nil
  have "0x80 \<le> (ucast (- 1 :: u32) :: u8)" by code_simp
  moreover have "kbd_get_data rc s = (- 1, rc, s)" using Nil by (simp add: kbd_get_data_def split: list.split)
  ultimately show ?case using Nil by (subst kbd_loop.simps) (simp add: Let_def)
next
  case (Cons code codes)
  obtain d sh where k: "kbd_decode code (kbd_shift s) = (d, sh)" by (cases "kbd_decode code (kbd_shift s)")
  have g: "kbd_get_data rc s = (d, code, s\<lparr>kbd_port := codes, kbd_shift := sh\<rparr>)"
    using Cons.hyps(2) [symmetric] k by (simp add: kbd_get_data_def)
  let ?c = "ucast d :: u8"
  show ?case
  proof (cases "0x80 \<le> ?c")
    case True
    then show ?thesis using Cons.prems Cons.hyps(2) [symmetric] k
      by (subst kbd_loop.simps) (simp add: g con_ok_def pending_def)
  next
    case False
    let ?t = "s\<lparr>kbd_port := codes, kbd_shift := sh\<rparr>"
    let ?u = "if q_room (read_buf ?t) then ?t\<lparr>read_buf := q_put code (read_buf ?t)\<rparr> else ?t"
    have u: "con_ok ?u" "pending ?u = pending s" "kbd_port ?u = codes" "kbd_shift ?u = sh" "kbd_locked ?u = kbd_locked s"
      using Cons.prems by (simp_all add: con_ok_def pending_def)
    obtain v where v: "kbd_char ?c ?u = Some v" "con_ok v" "pending v = edit ?c (pending ?u)" "kbd_port v = kbd_port ?u"
      "kbd_shift v = kbd_shift ?u" "kbd_locked v = kbd_locked ?u"
      using kbd_char_run [OF u(1)] by blast
    have step: "kbd_loop rc s = kbd_loop code v" using False v(1) by (subst kbd_loop.simps) (simp add: g Let_def)
    show ?thesis
      using Cons.hyps(1) [of v code] v u Cons.hyps(2) [symmetric] k False unfolding step by simp
  qed
qed

section \<open>Properties\<close>

text \<open>C21: the keyboard interrupt handler implements a line editor: it returns with both locks free, and the pending
  input and the wake-ups are those of the typed characters, edited in their order.\<close>

theorem kbd_intr_edits_line:
  assumes "\<not> con_locked s" "\<not> kbd_locked s" "q_ok (write_buf s)"
  shows "\<exists>s'. kbd_intr s = Some s' \<and> \<not> con_locked s' \<and> \<not> kbd_locked s' \<and> q_ok (write_buf s') \<and>
    pending s' = fold edit (keys (kbd_shift s) (kbd_port s)) (pending s)"
proof -
  have "con_ok (s\<lparr>kbd_locked := True\<rparr>)" using assms by (simp add: con_ok_def)
  from kbd_loop_run [OF this, of 0] show ?thesis using assms
    by (auto simp: kbd_intr_def kbd_lock_def kbd_unlock_def con_ok_def pending_def)
qed


text \<open>A console on which \<^verbatim>\<open>l\<close>, backspace, \<^verbatim>\<open>L\<close>, \<^verbatim>\<open>s\<close> and the return key were pressed.\<close>

definition demo_con :: console where
  "demo_con = blank_con\<lparr>kbd_port := [0x26, 0x0E, 0x2A, 0x26, 0xAA, 0x1F, 0x1C]\<rparr>"

lemma demo_keys: "keys 0 [0x26, 0x0E, 0x2A, 0x26, 0xAA, 0x1F, 0x1C] = [0x6C, 0x08, 0, 0x4C, 0, 0x73, 0x0A]"
  by code_simp

lemma demo_con_facts: "\<not> con_locked demo_con" "\<not> kbd_locked demo_con" "kbd_shift demo_con = 0"
  "kbd_port demo_con = [0x26, 0x0E, 0x2A, 0x26, 0xAA, 0x1F, 0x1C]" "q_ok (write_buf demo_con)" "pending demo_con = ([], 0)"
  by (simp_all add: demo_con_def blank_con_def console_init_def q_ok_def q_len_def pending_def q_content_def)

theorem kbd_intr_edits_line_witness: "\<exists>s'. kbd_intr demo_con = Some s' \<and> pending s' = ([0x4C, 0x73, 0x0A], 1)"
proof -
  have "fold edit (keys (kbd_shift demo_con) (kbd_port demo_con)) (pending demo_con) = ([0x4C, 0x73, 0x0A], 1)"
    unfolding demo_con_facts(3,4,6) demo_keys by (simp add: edit_def TTY_BUF_def)
  then show ?thesis using kbd_intr_edits_line [OF demo_con_facts(1,2,5)] by auto
qed

section \<open>Reading\<close>

text \<open>What a reader gets of the pending input \<open>q\<close>: bytes up to and including the end of the line; control-D ends the read
  and is kept for the next one unless it comes first.\<close>

fun take_line :: "nat \<Rightarrow> u8 list \<Rightarrow> u8 list \<Rightarrow> read_res \<times> u8 list" where
  "take_line 0 dst q = (ReadDone dst, q)"
| "take_line (Suc n) dst [] = (ReadSleep dst, [])"
| "take_line (Suc n) dst (c # q) =
     (if c = 0x04 then (ReadDone dst, if dst \<noteq> [] then c # q else q)
      else if c = 0x0A then (ReadDone (dst @ [c]), q)
      else take_line n (dst @ [c]) q)"

lemma read_loop_run:
  "q_ok (write_buf s) \<Longrightarrow> \<exists>q. console_read_loop n dst s = (fst (take_line n dst (q_content (write_buf s))), s\<lparr>write_buf := q\<rparr>) \<and>
    q_content q = snd (take_line n dst (q_content (write_buf s))) \<and> q_ok q"
proof (induction n arbitrary: dst s)
  case 0
  then show ?case by (intro exI [of _ "write_buf s"]) simp
next
  case (Suc n)
  show ?case
  proof (cases "q_content (write_buf s)")
    case Nil
    then show ?thesis using Suc.prems by (intro exI [of _ "write_buf s"]) (simp add: q_empty_iff)
  next
    case (Cons c r)
    have ne: "q_content (write_buf s) \<noteq> []" using Cons by simp
    note g = q_get_content [OF ne]
    obtain q where q: "q_get (write_buf s) = (c, q)" "q_content q = r" "q_ok q"
      using g Suc.prems Cons by (cases "q_get (write_buf s)") auto
    let ?t = "s\<lparr>write_buf := q\<rparr>"
    have "q_ok (write_buf ?t)" using q(3) by simp
    from Suc.IH [OF this, of "dst @ [c]"] obtain q' where q':
      "console_read_loop n (dst @ [c]) ?t = (fst (take_line n (dst @ [c]) r), s\<lparr>write_buf := q'\<rparr>)"
      "q_content q' = snd (take_line n (dst @ [c]) r)" "q_ok q'"
      using q(2) by auto
    have w: "s\<lparr>write_buf := write_buf s\<rparr> = s" by simp
    consider "c = 0x04" "dst \<noteq> []" | "c = 0x04" "dst = []" | "c = 0x0A" | "c \<noteq> 0x04" "c \<noteq> 0x0A" by blast
    then show ?thesis
      by cases (rule exI [of _ "write_buf s"] exI [of _ q] exI [of _ q'],
        use Cons q q' ne Suc.prems in \<open>simp add: q_empty_iff; fail\<close>)+
  qed
qed

lemma edit_plain:
  "c \<notin> {0, 0x08, 0x0A, 0x0D, 0x10, 0x15, 0x7F} \<Longrightarrow> length q + 1 < TTY_BUF \<Longrightarrow> edit c (q, w) = (q @ [c], w)"
  by (simp add: edit_def Let_def)

lemma edit_line:
  "\<forall>c\<in>set l. c \<notin> {0, 0x08, 0x0A, 0x0D, 0x10, 0x15, 0x7F} \<Longrightarrow> length q + length l < TTY_BUF \<Longrightarrow> fold edit l (q, w) = (q @ l, w)"
  by (induction l arbitrary: q) (auto simp: edit_plain)

lemma take_line_plain:
  "\<forall>c\<in>set l. c \<notin> {0x04, 0x0A} \<Longrightarrow> length l < n \<Longrightarrow> take_line n dst (l @ 0x0A # q) = (ReadDone (dst @ l @ [0x0A]), q)"
proof (induction l arbitrary: n dst)
  case Nil
  then show ?case by (cases n) simp_all
next
  case (Cons c l)
  then show ?case by (cases n) auto
qed

text \<open>C22: a line that is typed is read: when nothing is pending and the keys give a line of fewer than 256 ordinary
  characters and the end of line, the interrupt wakes the reader, which gets that line and leaves nothing pending.\<close>

theorem typed_line_is_read:
  assumes "\<not> con_locked s" "\<not> kbd_locked s" "q_content (write_buf s) = []" "keys (kbd_shift s) (kbd_port s) = l @ [0x0A]"
    "\<forall>c\<in>set l. c \<notin> {0, 0x04, 0x08, 0x0A, 0x0D, 0x10, 0x15, 0x7F}" "length l < TTY_BUF" "length l < n"
  shows "\<exists>s1 s2. kbd_intr s = Some s1 \<and> con_wakeups s1 = con_wakeups s + 1 \<and>
    compatible_console_read n s1 = Some (ReadDone (l @ [0x0A]), s2) \<and> q_content (write_buf s2) = []"
proof -
  have ok: "con_ok (s\<lparr>kbd_locked := True\<rparr>)" using assms(1) length_content [of "write_buf s"] unfolding assms(3) by (simp add: con_ok_def q_ok_def)
  obtain t where t: "kbd_loop 0 (s\<lparr>kbd_locked := True\<rparr>) = Some t" "con_ok t" "pending t = fold edit (l @ [0x0A]) ([], con_wakeups s)" "kbd_locked t"
    using kbd_loop_run [OF ok, of 0] assms(3,4) by (auto simp: pending_def)
  let ?s1 = "t\<lparr>kbd_locked := False\<rparr>"
  have one: "kbd_intr s = Some ?s1" using t assms(2) by (simp add: kbd_intr_def kbd_lock_def kbd_unlock_def)
  have "fold edit (l @ [0x0A]) ([], con_wakeups s) = (l @ [0x0A], con_wakeups s + 1)"
    using edit_line [of l "[]" "con_wakeups s"] assms(5,6) by (simp add: edit_def)
  then have p: "q_content (write_buf ?s1) = l @ [0x0A]" "con_wakeups ?s1 = con_wakeups s + 1" "q_ok (write_buf (?s1\<lparr>con_locked := True\<rparr>))" "\<not> con_locked ?s1"
    using t(2,3) by (simp_all add: pending_def con_ok_def)
  have "take_line n [] (l @ [0x0A]) = (ReadDone (l @ [0x0A]), [])" using take_line_plain [of l n "[]" "[]"] assms(5,7) by auto
  then obtain q where "console_read_loop n [] (?s1\<lparr>con_locked := True\<rparr>) = (ReadDone (l @ [0x0A]), ?s1\<lparr>con_locked := True, write_buf := q\<rparr>)" "q_content q = []"
    using read_loop_run [OF p(3), of n "[]"] p(1) by auto
  then show ?thesis using one p(2,4) by (simp add: compatible_console_read_def con_lock_def con_unlock_def)
qed

theorem typed_line_is_read_witness:
  "\<exists>s1 s2. kbd_intr (demo_con\<lparr>kbd_port := [0x26, 0x1F, 0x1C]\<rparr>) = Some s1 \<and> compatible_console_read 100 s1 = Some (ReadDone [0x6C, 0x73, 0x0A], s2)"
proof -
  have "keys 0 [0x26, 0x1F, 0x1C] = [0x6C, 0x73] @ [0x0A]" by code_simp
  then show ?thesis
    using typed_line_is_read [of "demo_con\<lparr>kbd_port := [0x26, 0x1F, 0x1C]\<rparr>" "[0x6C, 0x73]" 100] demo_con_facts
    by (auto simp: pending_def TTY_BUF_def)
qed

section \<open>Polling\<close>

text \<open>With the console lock held, the first key that gives a character panics.\<close>

lemma kbd_char_locked:
  assumes "con_locked s" "q_content (write_buf s) = []" "kbd_char c s = Some s'"
  shows "s' = s"
proof -
  have "q_room (write_buf s)" using assms(2) q_len_pos length_content [of "write_buf s"] unfolding q_room_iff by (simp add: TTY_BUF_def)
  moreover have "kill_line s = Some s" using assms(2) by (subst kill_line.simps) (simp add: q_empty_iff)
  ultimately show ?thesis using assms
    by (auto simp: kbd_char_def q_empty_iff console_putc_def con_lock_def split: if_splits)
qed

lemma kbd_loop_locked:
  "con_locked s \<Longrightarrow> q_content (write_buf s) = [] \<Longrightarrow> kbd_loop rc s = Some s' \<Longrightarrow> con_locked s' \<and> q_content (write_buf s') = [] \<and> kbd_locked s' = kbd_locked s"
proof (induction "kbd_port s" arbitrary: s rc)
  case Nil
  have "0x80 \<le> (ucast (- 1 :: u32) :: u8)" by code_simp
  moreover have "kbd_get_data rc s = (- 1, rc, s)" using Nil by (simp add: kbd_get_data_def split: list.split)
  ultimately show ?case using Nil(2-4) by (simp add: kbd_loop.simps [of rc s] Let_def)
next
  case (Cons code codes)
  obtain d sh where k: "kbd_get_data rc s = (d, code, s\<lparr>kbd_port := codes, kbd_shift := sh\<rparr>)"
    using Cons.hyps(2) [symmetric] by (cases "kbd_decode code (kbd_shift s)") (simp add: kbd_get_data_def)
  let ?t = "s\<lparr>kbd_port := codes, kbd_shift := sh\<rparr>"
  let ?u = "if q_room (read_buf ?t) then ?t\<lparr>read_buf := q_put code (read_buf ?t)\<rparr> else ?t"
  have u: "con_locked ?u" "q_content (write_buf ?u) = []" "kbd_port ?u = codes" "kbd_locked ?u = kbd_locked s" using Cons.prems by simp_all
  show ?case
  proof (cases "0x80 \<le> (ucast d :: u8)")
    case True
    then show ?thesis using Cons.prems by (simp add: kbd_loop.simps [of rc s] k Let_def) auto
  next
    case False
    then have "Option.bind (kbd_char (ucast d) ?u) (kbd_loop code) = Some s'" using Cons.prems(3) by (simp add: kbd_loop.simps [of rc s] k Let_def)
    then obtain v where v: "kbd_char (ucast d) ?u = Some v" "kbd_loop code v = Some s'" by auto
    have "v = ?u" by (rule kbd_char_locked [OF u(1,2) v(1)])
    then have "con_locked s' \<and> q_content (write_buf s') = [] \<and> kbd_locked s' = kbd_locked ?u"
      using v(2) by (intro Cons.hyps(1) [OF u(3) [symmetric] u(1,2)]) simp
    then show ?thesis unfolding u(4) .
  qed
qed

lemma getchar_loop_locked: "con_locked s \<Longrightarrow> q_content (write_buf s) = [] \<Longrightarrow> getchar_loop input s = None"
proof (induction input arbitrary: s)
  case (Cons codes later)
  let ?s = "s\<lparr>kbd_port := kbd_port s @ codes\<rparr>"
  show ?case
  proof (cases "kbd_intr ?s")
    case None
    then show ?thesis by (simp add: console_getc_def)
  next
    case (Some t)
    then obtain u where u: "kbd_loop 0 (?s\<lparr>kbd_locked := True\<rparr>) = Some u" "t = u\<lparr>kbd_locked := False\<rparr>"
      by (auto simp: kbd_intr_def kbd_lock_def kbd_unlock_def split: if_splits)
    then have "con_locked t" "q_content (write_buf t) = []" using kbd_loop_locked [OF _ _ u(1)] Cons.prems by simp_all
    then show ?thesis using Some Cons.IH [of t] by (simp add: console_getc_def q_empty_iff)
  qed
qed simp

text \<open>\<^verbatim>\<open>getchar\<close> does not return when no input is pending, whatever is typed: it polls the keyboard with the console
  lock held, and the echo of the first character takes that lock again.\<close>

theorem getchar_never_returns:
  assumes "q_content (write_buf s) = []"
  shows "getchar input s = None"
  using assms getchar_loop_locked [of "s\<lparr>con_locked := True\<rparr>" input] by (auto simp: getchar_def con_lock_def)

theorem getchar_never_returns_witness: "getchar [[0x26], [0x1C]] (demo_con\<lparr>kbd_port := []\<rparr>) = None"
  by (rule getchar_never_returns) (simp add: demo_con_def blank_con_def console_init_def q_content_def q_len_def)

end
