(* ===== verification/Rbtree.thy ===== *)
theory Rbtree
  imports Prelude
begin

text \<open>
  The red-black tree library (lib/krbfunc.c, include/krbtree.h).

  Nodes are found by their addresses; the sentinel \<^verbatim>\<open>T->nil\<close>, a structure inside the tree, is the node
  \<open>NIL\<close>, so that every pointer that the library follows leads to a node.  Loops are partial functions whose
  value \<^const>\<open>None\<close> means that they do not end.
\<close>

datatype rb_color = RED | BLACK

definition NIL :: u32 where "NIL = 0"

record rbtree =
  root :: u32
  rcolor :: "u32 \<Rightarrow> rb_color"
  rkey :: "u32 \<Rightarrow> u32"
  rleft :: "u32 \<Rightarrow> u32"
  rright :: "u32 \<Rightarrow> u32"
  rparent :: "u32 \<Rightarrow> u32"

definition set_root :: "u32 \<Rightarrow> rbtree \<Rightarrow> rbtree" where "set_root n t = t\<lparr>root := n\<rparr>"
definition set_color :: "u32 \<Rightarrow> rb_color \<Rightarrow> rbtree \<Rightarrow> rbtree" where "set_color n c t = t\<lparr>rcolor := (rcolor t)(n := c)\<rparr>"
definition set_left :: "u32 \<Rightarrow> u32 \<Rightarrow> rbtree \<Rightarrow> rbtree" where "set_left n m t = t\<lparr>rleft := (rleft t)(n := m)\<rparr>"
definition set_right :: "u32 \<Rightarrow> u32 \<Rightarrow> rbtree \<Rightarrow> rbtree" where "set_right n m t = t\<lparr>rright := (rright t)(n := m)\<rparr>"
definition set_parent :: "u32 \<Rightarrow> u32 \<Rightarrow> rbtree \<Rightarrow> rbtree" where "set_parent n m t = t\<lparr>rparent := (rparent t)(n := m)\<rparr>"
definition set_key :: "u32 \<Rightarrow> u32 \<Rightarrow> rbtree \<Rightarrow> rbtree" where "set_key n k t = t\<lparr>rkey := (rkey t)(n := k)\<rparr>"

lemmas set_defs = set_root_def set_color_def set_left_def set_right_def set_parent_def set_key_def

definition rbnode_init :: "u32 \<Rightarrow> u32 \<Rightarrow> rb_color \<Rightarrow> rbtree \<Rightarrow> rbtree" where
  "rbnode_init n key color t = set_color n color (set_parent n NIL (set_right n NIL (set_left n NIL (set_key n key t))))"

definition rbtree_init :: "rbtree \<Rightarrow> rbtree" where
  "rbtree_init t = (let t = set_root NIL t in rbnode_init (root t) 0 BLACK t)"

section \<open>Queries\<close>

partial_function (option) RBTreeMinimum :: "rbtree \<Rightarrow> u32 \<Rightarrow> u32 option" where
  "RBTreeMinimum t n = (if rleft t n \<noteq> NIL then RBTreeMinimum t (rleft t n) else Some n)"

partial_function (option) search_from :: "rbtree \<Rightarrow> u32 \<Rightarrow> u32 \<Rightarrow> u32 option" where
  "search_from t key n =
     (if n = NIL then Some NIL
      else if key < rkey t n then search_from t key (rleft t n)
      else if rkey t n < key then search_from t key (rright t n)
      else Some n)"

definition RBTreeSearch :: "rbtree \<Rightarrow> u32 \<Rightarrow> u32 option" where
  "RBTreeSearch t key = search_from t key (root t)"

partial_function (option) climb :: "rbtree \<Rightarrow> u32 \<Rightarrow> u32 option" where
  "climb t x = (if rparent t x \<noteq> NIL \<and> x = rright t (rparent t x) then climb t (rparent t x) else Some (rparent t x))"

definition RBNodeSucceeder :: "rbtree \<Rightarrow> u32 \<Rightarrow> u32 option" where
  "RBNodeSucceeder t n = (if n \<noteq> NIL \<and> rright t n \<noteq> NIL then Some (rright t n) else climb t n)"

section \<open>Rotations\<close>

text \<open>The link that leads from the parent of \<open>n\<close> to \<open>n\<close>, or the root, is set to \<open>m\<close>.\<close>

definition relink :: "u32 \<Rightarrow> u32 \<Rightarrow> rbtree \<Rightarrow> rbtree" where
  "relink n m t =
     (if rparent t n = NIL then set_root m t
      else if n = rleft t (rparent t n) then set_left (rparent t n) m t
      else set_right (rparent t n) m t)"

definition LeftRotate :: "u32 \<Rightarrow> rbtree \<Rightarrow> rbtree" where
  "LeftRotate n t =
     (let m = rright t n;
          t = set_right n (rleft t m) t;
          t = (if rleft t m \<noteq> NIL then set_parent (rleft t m) n t else t);
          t = set_parent m (rparent t n) t;
          t = relink n m t;
          t = set_left m n t
      in set_parent n m t)"

definition RightRotate :: "u32 \<Rightarrow> rbtree \<Rightarrow> rbtree" where
  "RightRotate n t =
     (let m = rleft t n;
          t = set_left n (rright t m) t;
          t = (if rright t m \<noteq> NIL then set_parent (rright t m) n t else t);
          t = set_parent m (rparent t n) t;
          t = relink n m t;
          t = set_right m n t
      in set_parent n m t)"

definition RBTreeTransplant :: "u32 \<Rightarrow> u32 \<Rightarrow> rbtree \<Rightarrow> rbtree" where
  "RBTreeTransplant src dst t = (let t = relink src dst t in set_parent dst (rparent t src) t)"

section \<open>Insertion\<close>

partial_function (option) RBTreeInsertFixup :: "u32 \<Rightarrow> rbtree \<Rightarrow> rbtree option" where
  "RBTreeInsertFixup n t =
     (if rcolor t (rparent t n) = RED then
        let p = rparent t n; g = rparent t p in
        if p = rleft t g then
          let y = rright t g in
          if rcolor t y = RED then RBTreeInsertFixup g (set_color g RED (set_color y BLACK (set_color p BLACK t)))
          else
            let (n, t) = (if n = rright t p then (p, LeftRotate p t) else (n, t));
                t = set_color (rparent t n) BLACK t;
                t = set_color (rparent t (rparent t n)) RED t
            in RBTreeInsertFixup n (RightRotate (rparent t (rparent t n)) t)
        else
          let y = rleft t g in
          if rcolor t y = RED then RBTreeInsertFixup g (set_color g RED (set_color y BLACK (set_color p BLACK t)))
          else
            let (n, t) = (if n = rleft t p then (p, RightRotate p t) else (n, t));
                t = set_color (rparent t n) BLACK t;
                t = set_color (rparent t (rparent t n)) RED t
            in RBTreeInsertFixup n (LeftRotate (rparent t (rparent t n)) t)
      else Some (set_color (root t) BLACK t))"

partial_function (option) insert_pos :: "rbtree \<Rightarrow> u32 \<Rightarrow> u32 \<Rightarrow> u32 \<Rightarrow> u32 option" where
  "insert_pos t key tp tc =
     (if tc \<noteq> NIL then insert_pos t key tc (if key < rkey t tc then rleft t tc else rright t tc) else Some tp)"

definition RBTreeInsert :: "u32 \<Rightarrow> rbtree \<Rightarrow> rbtree option" where
  "RBTreeInsert n t = do {
     let key = rkey t n;
     tp \<leftarrow> insert_pos t key NIL (root t);
     let t = set_parent n tp t;
     let t = (if tp = NIL then set_root n t else if key < rkey t tp then set_left tp n t else set_right tp n t);
     RBTreeInsertFixup n t
   }"

section \<open>Deletion\<close>

partial_function (option) RBTreeDeleteFixup :: "u32 \<Rightarrow> rbtree \<Rightarrow> rbtree option" where
  "RBTreeDeleteFixup n t =
     (if n \<noteq> root t \<and> rcolor t n = BLACK then
        if n = rleft t (rparent t n) then
          let w = rright t (rparent t n);
              (w, t) = (if rcolor t w = RED then
                          let t = set_color w BLACK t; t = set_color (rparent t w) RED t; t = LeftRotate (rparent t n) t
                          in (rright t (rparent t n), t)
                        else (w, t))
          in if rcolor t (rleft t w) = BLACK \<and> rcolor t (rright t w) = BLACK
             then RBTreeDeleteFixup (rparent t n) (set_color w RED t)
             else
               let (w, t) = (if rcolor t (rright t w) = BLACK then
                               let t = set_color (rleft t w) BLACK t; t = set_color w RED t; t = RightRotate w t
                               in (rright t (rparent t n), t)
                             else (w, t));
                   t = set_color w RED t;
                   t = set_color (rparent t n) BLACK t;
                   t = set_color (rright t w) BLACK t;
                   t = LeftRotate (rparent t n) t
               in RBTreeDeleteFixup (root t) t
        else
          let w = rleft t (rparent t n);
              (w, t) = (if rcolor t w = RED then
                          let t = set_color w BLACK t; t = set_color (rparent t w) RED t; t = RightRotate (rparent t n) t
                          in (rleft t (rparent t n), t)
                        else (w, t))
          in if rcolor t (rleft t w) = BLACK \<and> rcolor t (rright t w) = BLACK
             then RBTreeDeleteFixup (rparent t n) (set_color w RED t)
             else
               let (w, t) = (if rcolor t (rleft t w) = BLACK then
                               let t = set_color (rright t w) BLACK t; t = set_color w RED t; t = LeftRotate w t
                               in (rleft t (rparent t n), t)
                             else (w, t));
                   t = set_color w (rcolor t (rparent t n)) t;
                   t = set_color (rparent t n) BLACK t;
                   t = set_color (rleft t w) BLACK t;
                   t = RightRotate (rparent t n) t
               in RBTreeDeleteFixup (root t) t
      else Some (set_color n BLACK t))"

text \<open>\<^verbatim>\<open>RBTreeDeleteNode\<close> for a node with two children: \<open>y\<close> is the minimum of its right subtree, which takes its
  place.  The result is the node \<open>x\<close> where the tree may be unbalanced.\<close>

definition replace_by_min :: "u32 \<Rightarrow> u32 \<Rightarrow> rbtree \<Rightarrow> u32 \<times> rbtree" where
  "replace_by_min n y t =
     (let x = rright t y;
          t = (if rparent t y = n then set_parent x y t
               else let t = RBTreeTransplant y (rright t y) t;
                        t = set_right y (rright t n) t
                    in set_parent (rright t y) y t);
          t = RBTreeTransplant n y t;
          t = set_left y (rleft t n) t;
          t = set_parent (rleft t y) y t;
          t = set_color y (rcolor t n) t
      in (x, t))"

definition RBTreeDeleteNode :: "u32 \<Rightarrow> rbtree \<Rightarrow> rbtree option" where
  "RBTreeDeleteNode n t = do {
     (x, oc, t) \<leftarrow>
       (if rleft t n = NIL then let x = rright t n in Some (x, rcolor t n, RBTreeTransplant n x t)
        else if rright t n = NIL then let x = rleft t n in Some (x, rcolor t n, RBTreeTransplant n x t)
        else do {
          y \<leftarrow> RBTreeMinimum t (rright t n);
          let (x, t') = replace_by_min n y t;
          Some (x, rcolor t y, t')
        });
     let t = set_right n NIL (set_left n NIL t);
     if oc = BLACK then RBTreeDeleteFixup x t else Some t
   }"

declare RBTreeMinimum.simps [code] search_from.simps [code] climb.simps [code] RBTreeInsertFixup.simps [code]
  insert_pos.simps [code] RBTreeDeleteFixup.simps [code]

end
