(* ===== verification/Rbtree_Base.thy ===== *)
theory Rbtree_Base
  imports Rbtree "HOL-Library.Tree"
begin

text \<open>The pointers of a red-black tree represent a binary tree; the loop that repairs the colours after an
  insertion keeps its order and makes it a red-black tree.\<close>

section \<open>Trees of nodes\<close>

text \<open>The subtree at pointer \<open>p\<close>, below the node \<open>par\<close>.\<close>

fun tree_at :: "rbtree \<Rightarrow> u32 \<Rightarrow> u32 \<Rightarrow> u32 tree \<Rightarrow> bool" where
  "tree_at t par p Leaf \<longleftrightarrow> p = NIL"
| "tree_at t par p (Node l x r) \<longleftrightarrow> p = x \<and> x \<noteq> NIL \<and> rparent t x = par \<and> tree_at t x (rleft t x) l \<and> tree_at t x (rright t x) r"

definition tip :: "u32 tree \<Rightarrow> u32" where "tip T = (case T of Leaf \<Rightarrow> NIL | Node _ x _ \<Rightarrow> x)"

lemma tip_simps [simp]: "tip Leaf = NIL" "tip (Node l x r) = x"
  by (simp_all add: tip_def)

lemma tree_at_tip: "tree_at t par p T \<Longrightarrow> p = tip T"
  by (cases T) simp_all

lemma tree_at_nil: "tree_at t par p T \<Longrightarrow> NIL \<notin> set_tree T"
  by (induction T arbitrary: par p) auto

lemma tree_at_cong:
  "(\<And>x. x \<in> set_tree T \<Longrightarrow> rleft t' x = rleft t x \<and> rright t' x = rright t x \<and> rparent t' x = rparent t x) \<Longrightarrow>
    tree_at t' par p T = tree_at t par p T"
  by (induction T arbitrary: par p) auto

text \<open>A subtree that moves below another node.\<close>

lemma tree_at_move:
  assumes "tree_at t par p T" "distinct (inorder T)"
    "\<And>x. x \<in> set_tree T \<Longrightarrow> rleft t' x = rleft t x \<and> rright t' x = rright t x \<and> (x \<noteq> p \<longrightarrow> rparent t' x = rparent t x)"
    "T \<noteq> Leaf \<Longrightarrow> rparent t' p = par'"
  shows "tree_at t' par' p T"
proof (cases T)
  case Leaf
  then show ?thesis using assms(1) by simp
next
  case (Node l x r)
  have x: "x \<notin> set_tree l" "x \<notin> set_tree r" "p = x" using assms(1,2) Node by auto
  have "tree_at t' x (rleft t x) l = tree_at t x (rleft t x) l" by (rule tree_at_cong) (use assms(3) x Node in auto)
  moreover have "tree_at t' x (rright t x) r = tree_at t x (rright t x) r" by (rule tree_at_cong) (use assms(3) x Node in auto)
  ultimately show ?thesis using assms(1,3,4) Node x by simp
qed

text \<open>The way from a subtree to the root: whether the subtree is the left or the right one, the node, and the other
  subtree.\<close>

type_synonym path = "(bool \<times> u32 \<times> u32 tree) list"

fun fill :: "u32 tree \<Rightarrow> path \<Rightarrow> u32 tree" where
  "fill T [] = T"
| "fill T ((True, x, r) # c) = fill (Node T x r) c"
| "fill T ((False, x, l) # c) = fill (Node l x T) c"

fun up :: "path \<Rightarrow> u32" where
  "up [] = NIL"
| "up ((_, x, _) # c) = x"

fun path_at :: "rbtree \<Rightarrow> u32 \<Rightarrow> path \<Rightarrow> bool" where
  "path_at t p [] \<longleftrightarrow> root t = p"
| "path_at t p ((True, x, r) # c) \<longleftrightarrow> x \<noteq> NIL \<and> rleft t x = p \<and> rparent t x = up c \<and> tree_at t x (rright t x) r \<and> path_at t x c"
| "path_at t p ((False, x, l) # c) \<longleftrightarrow> x \<noteq> NIL \<and> rright t x = p \<and> rparent t x = up c \<and> tree_at t x (rleft t x) l \<and> path_at t x c"

fun path_nodes :: "path \<Rightarrow> u32 list" where
  "path_nodes [] = []"
| "path_nodes ((_, x, s) # c) = x # inorder s @ path_nodes c"

lemma tree_at_fill: "tree_at t NIL (root t) (fill T c) \<longleftrightarrow> path_at t (tip T) c \<and> tree_at t (up c) (tip T) T"
proof (induction T c rule: fill.induct)
  case (1 T)
  then show ?case using tree_at_tip [of t NIL "root t" T] by auto
next
  case (2 T x r c)
  then show ?case by (auto dest: tree_at_tip)
next
  case (3 T x l c)
  then show ?case by (auto dest: tree_at_tip)
qed

lemma distinct_fill: "distinct (inorder (fill T c)) \<longleftrightarrow> distinct (inorder T @ path_nodes c)"
  by (induction T c rule: fill.induct) auto

lemma set_fill: "set_tree (fill T c) = set_tree T \<union> set (path_nodes c)"
  by (induction T c rule: fill.induct) auto

lemma inorder_fill: "inorder T = inorder T' \<Longrightarrow> inorder (fill T c) = inorder (fill T' c)"
proof (induction c arbitrary: T T')
  case (Cons e c)
  obtain b x s where e: "e = (b, x, s)" by (cases e)
  show ?case
  proof (cases b)
    case True
    then show ?thesis using Cons.IH [of "Node T x s" "Node T' x s"] Cons.prems e by simp
  next
    case False
    then show ?thesis using Cons.IH [of "Node s x T" "Node s x T'"] Cons.prems e by simp
  qed
qed simp

lemma path_at_cong:
  "(\<And>x. x \<in> set (path_nodes c) \<Longrightarrow> rleft t' x = rleft t x \<and> rright t' x = rright t x \<and> rparent t' x = rparent t x) \<Longrightarrow>
    root t' = root t \<Longrightarrow> path_at t' p c = path_at t p c"
proof (induction t p c rule: path_at.induct)
  case (2 t p x r c)
  have "tree_at t' x q r = tree_at t x q r" for q by (rule tree_at_cong) (use 2(2) in auto)
  then show ?case using 2 by auto
next
  case (3 t p x l c)
  have "tree_at t' x q l = tree_at t x q l" for q by (rule tree_at_cong) (use 3(2) in auto)
  then show ?case using 3 by auto
qed simp

lemma up_path: "c \<noteq> [] \<Longrightarrow> up c \<in> set (path_nodes c)"
  by (cases c) (auto split: prod.splits)

lemma path_up_nil: "path_at t p c \<Longrightarrow> up c = NIL \<longleftrightarrow> c = []"
  by (cases c) (auto elim: path_at.elims)

text \<open>The link into the hole of a path is the one that \<^verbatim>\<open>relink\<close> changes.\<close>

lemma relink_path:
  assumes "path_at t n c" "rparent t n = up c" "n \<noteq> NIL" "distinct (n # path_nodes c)"
  shows "path_at (relink n m t) m c"
    "rparent (relink n m t) = rparent t" "rcolor (relink n m t) = rcolor t" "rkey (relink n m t) = rkey t"
    "x \<notin> set (path_nodes c) \<Longrightarrow> rleft (relink n m t) x = rleft t x \<and> rright (relink n m t) x = rright t x"
proof -
  show "rparent (relink n m t) = rparent t" "rcolor (relink n m t) = rcolor t" "rkey (relink n m t) = rkey t"
    by (simp_all add: relink_def set_defs)
  have "path_at (relink n m t) m c \<and> (x \<notin> set (path_nodes c) \<longrightarrow> rleft (relink n m t) x = rleft t x \<and> rright (relink n m t) x = rright t x)" for x
  proof (cases c)
    case Nil
    then show ?thesis using assms by (simp add: relink_def set_defs)
  next
    case (Cons s c')
    obtain b y T where s: "s = (b, y, T)" by (cases s)
    have y: "rparent t n = y" "y \<noteq> NIL" "y \<notin> set_tree T" "y \<notin> set (path_nodes c')" "n \<notin> set_tree T"
      using assms Cons s by (cases b; auto)+
    have T: "tree_at (relink n m t) y q T = tree_at t y q T" for q
      by (rule tree_at_cong) (use y in \<open>auto simp: relink_def set_defs\<close>)
    have c: "path_at (relink n m t) y c' = path_at t y c'"
      by (rule path_at_cong) (use y in \<open>auto simp: relink_def set_defs\<close>)
    show ?thesis
    proof (cases b)
      case True
      then have "n = rleft t y" using assms(1) Cons s by simp
      then show ?thesis using True T c y assms(1) Cons s by (simp add: relink_def set_defs)
    next
      case False
      have "n \<noteq> rleft t y"
      proof
        assume "n = rleft t y"
        then have "n = tip T" using assms(1) Cons s False by (auto dest: tree_at_tip)
        then show False using assms(3) y(5) by (cases T) auto
      qed
      then show ?thesis using False T c y assms(1) Cons s by (simp add: relink_def set_defs)
    qed
  qed
  then show "path_at (relink n m t) m c"
    "x \<notin> set (path_nodes c) \<Longrightarrow> rleft (relink n m t) x = rleft t x \<and> rright (relink n m t) x = rright t x" by blast+
qed

section \<open>Rotations\<close>

lemma relink_update:
  fixes n m k lm :: u32
  assumes p: "path_at t n c" "rparent t n = up c" "n \<noteq> NIL" "m \<noteq> NIL" "n \<noteq> m" "lm \<noteq> n" "lm \<noteq> m"
    and d: "distinct (n # path_nodes c)" "m \<notin> set (path_nodes c)" "lm \<notin> set (path_nodes c)"
  defines "t3 \<equiv> set_parent m (up c) (if lm \<noteq> NIL then set_parent lm n t else t)"
  shows "path_at (relink n m t3) m c" "rcolor (relink n m t3) = rcolor t" "rkey (relink n m t3) = rkey t"
    "x \<notin> set (path_nodes c) \<Longrightarrow> rleft (relink n m t3) x = rleft t x \<and> rright (relink n m t3) x = rright t x"
    "rparent (relink n m t3) = (if lm \<noteq> NIL then (rparent t)(lm := n, m := up c) else (rparent t)(m := up c))"
proof -
  have a: "path_at t3 n c" by (subst path_at_cong [of c t3 t]) (use p d in \<open>auto simp: t3_def set_defs\<close>)
  have b: "rparent t3 n = up c" using p by (simp add: t3_def set_defs)
  note r = relink_path [OF a b p(3) d(1), where m = m]
  show "path_at (relink n m t3) m c" by (rule r)
  show "rcolor (relink n m t3) = rcolor t" "rkey (relink n m t3) = rkey t" unfolding r by (simp_all add: t3_def set_defs)
  show "x \<notin> set (path_nodes c) \<Longrightarrow> rleft (relink n m t3) x = rleft t x \<and> rright (relink n m t3) x = rright t x"
    using r(5) [of x] by (simp add: t3_def set_defs)
  show "rparent (relink n m t3) = (if lm \<noteq> NIL then (rparent t)(lm := n, m := up c) else (rparent t)(m := up c))"
    unfolding r by (simp add: t3_def set_defs)
qed

lemma left_rotate:
  assumes p: "path_at t n c" "tree_at t (up c) n (Node a n (Node b m d))"
    and ds: "distinct (inorder (Node a n (Node b m d)) @ path_nodes c)"
  shows "path_at (LeftRotate n t) m c" "tree_at (LeftRotate n t) (up c) m (Node (Node a n b) m d)"
    "rcolor (LeftRotate n t) = rcolor t" "rkey (LeftRotate n t) = rkey t"
proof -
  let ?lm = "rleft t m" and ?t1 = "set_right n (rleft t m) t"
  have f: "rright t n = m" "m \<noteq> NIL" "n \<noteq> NIL" "rparent t n = up c" "n \<noteq> m" "?lm = tip b" using p(2) ds by (auto dest: tree_at_tip)
  have bt: "tree_at t m ?lm b" "tree_at t n (rleft t n) a" "tree_at t m (rright t m) d" using p(2) by auto
  have lm: "?lm \<noteq> n" "?lm \<noteq> m" "?lm \<notin> set (path_nodes c)"
    using tree_at_nil [OF p(2)] f(2,3) ds bt(1) p(1) tree_at_fill [of t b "(True, m, d) # (False, n, a) # c"]
      tree_at_nil [of t NIL "root t" "fill (Node a n (Node b m d)) c"] p set_fill [of "Node a n (Node b m d)" c]
      tree_at_fill [of t "Node a n (Node b m d)" c] by (cases b; auto)+
  have a: "path_at ?t1 n c" by (subst path_at_cong [of c ?t1 t]) (use p(1) ds in \<open>auto simp: set_defs\<close>)
  have q: "rparent ?t1 n = up c" "distinct (n # path_nodes c)" "m \<notin> set (path_nodes c)" using f ds by (auto simp: set_defs)
  note r = relink_update [OF a q(1) f(3,2,5) lm(1,2) q(2,3) lm(3)]
  define t4 where "t4 = relink n m (set_parent m (up c) (if ?lm \<noteq> NIL then set_parent ?lm n ?t1 else ?t1))"
  have rot: "LeftRotate n t = set_parent n m (set_left m n t4)"
    using f lm by (auto simp: LeftRotate_def Let_def t4_def set_defs)
  note r4 = r [folded t4_def]
  show "rcolor (LeftRotate n t) = rcolor t" "rkey (LeftRotate n t) = rkey t" unfolding rot using r4(2,3) by (simp_all add: set_defs)
  have "path_at (LeftRotate n t) m c = path_at t4 m c"
    unfolding rot by (rule path_at_cong) (use ds in \<open>auto simp: set_defs\<close>)
  then show "path_at (LeftRotate n t) m c" using r4(1) by simp
  have fl: "x \<notin> set (path_nodes c) \<Longrightarrow> rleft (LeftRotate n t) x = (if x = m then n else rleft t x)"
    "x \<notin> set (path_nodes c) \<Longrightarrow> rright (LeftRotate n t) x = (if x = n then ?lm else rright t x)"
    "rparent (LeftRotate n t) x = (if x = n then m else if x = m then up c else if x = ?lm \<and> ?lm \<noteq> NIL then n else rparent t x)" for x
    unfolding rot using r4(4) [of x] r4(5) by (auto simp: set_defs)
  have out: "\<And>x. x \<in> set_tree a \<union> set_tree b \<union> set_tree d \<Longrightarrow> x \<notin> set (path_nodes c) \<and> x \<noteq> n \<and> x \<noteq> m" "n \<notin> set (path_nodes c)" "m \<notin> set (path_nodes c)"
    using ds by auto
  have lmb: "?lm \<noteq> NIL \<Longrightarrow> ?lm \<in> set_tree b" "b \<noteq> Leaf \<Longrightarrow> ?lm \<noteq> NIL" using f(6) bt(1) by (cases b; auto)+
  have "tree_at (LeftRotate n t) n (rleft t n) a = tree_at t n (rleft t n) a"
    by (rule tree_at_cong) (use out fl lmb ds in auto)
  moreover have "tree_at (LeftRotate n t) m (rright t m) d = tree_at t m (rright t m) d"
    by (rule tree_at_cong) (use out fl lmb ds in auto)
  moreover have "tree_at (LeftRotate n t) n ?lm b"
    by (rule tree_at_move [OF bt(1)]) (use ds out fl lm lmb f(6) in \<open>auto split: tree.splits\<close>)
  ultimately show "tree_at (LeftRotate n t) (up c) m (Node (Node a n b) m d)"
    using bt f fl out by simp
qed

lemma right_rotate:
  assumes p: "path_at t n c" "tree_at t (up c) n (Node (Node d m b) n a)"
    and ds: "distinct (inorder (Node (Node d m b) n a) @ path_nodes c)"
  shows "path_at (RightRotate n t) m c" "tree_at (RightRotate n t) (up c) m (Node d m (Node b n a))"
    "rcolor (RightRotate n t) = rcolor t" "rkey (RightRotate n t) = rkey t"
proof -
  let ?lm = "rright t m" and ?t1 = "set_left n (rright t m) t"
  have f: "rleft t n = m" "m \<noteq> NIL" "n \<noteq> NIL" "rparent t n = up c" "n \<noteq> m" "?lm = tip b" using p(2) ds by (auto dest: tree_at_tip)
  have bt: "tree_at t m ?lm b" "tree_at t n (rright t n) a" "tree_at t m (rleft t m) d" using p(2) by auto
  have lm: "?lm \<noteq> n" "?lm \<noteq> m" "?lm \<notin> set (path_nodes c)"
    using tree_at_nil [OF p(2)] f(2,3) ds bt(1) p(1) tree_at_fill [of t b "(False, m, d) # (True, n, a) # c"]
      tree_at_nil [of t NIL "root t" "fill (Node (Node d m b) n a) c"] p set_fill [of "Node (Node d m b) n a" c]
      tree_at_fill [of t "Node (Node d m b) n a" c] by (cases b; auto)+
  have a: "path_at ?t1 n c" by (subst path_at_cong [of c ?t1 t]) (use p(1) ds in \<open>auto simp: set_defs\<close>)
  have q: "rparent ?t1 n = up c" "distinct (n # path_nodes c)" "m \<notin> set (path_nodes c)" using f ds by (auto simp: set_defs)
  note r = relink_update [OF a q(1) f(3,2,5) lm(1,2) q(2,3) lm(3)]
  define t4 where "t4 = relink n m (set_parent m (up c) (if ?lm \<noteq> NIL then set_parent ?lm n ?t1 else ?t1))"
  have rot: "RightRotate n t = set_parent n m (set_right m n t4)"
    using f lm by (auto simp: RightRotate_def Let_def t4_def set_defs)
  note r4 = r [folded t4_def]
  show "rcolor (RightRotate n t) = rcolor t" "rkey (RightRotate n t) = rkey t" unfolding rot using r4(2,3) by (simp_all add: set_defs)
  have "path_at (RightRotate n t) m c = path_at t4 m c"
    unfolding rot by (rule path_at_cong) (use ds in \<open>auto simp: set_defs\<close>)
  then show "path_at (RightRotate n t) m c" using r4(1) by simp
  have fl: "x \<notin> set (path_nodes c) \<Longrightarrow> rright (RightRotate n t) x = (if x = m then n else rright t x)"
    "x \<notin> set (path_nodes c) \<Longrightarrow> rleft (RightRotate n t) x = (if x = n then ?lm else rleft t x)"
    "rparent (RightRotate n t) x = (if x = n then m else if x = m then up c else if x = ?lm \<and> ?lm \<noteq> NIL then n else rparent t x)" for x
    unfolding rot using r4(4) [of x] r4(5) by (auto simp: set_defs)
  have out: "\<And>x. x \<in> set_tree a \<union> set_tree b \<union> set_tree d \<Longrightarrow> x \<notin> set (path_nodes c) \<and> x \<noteq> n \<and> x \<noteq> m" "n \<notin> set (path_nodes c)" "m \<notin> set (path_nodes c)"
    using ds by auto
  have lmb: "?lm \<noteq> NIL \<Longrightarrow> ?lm \<in> set_tree b" "b \<noteq> Leaf \<Longrightarrow> ?lm \<noteq> NIL" using f(6) bt(1) by (cases b; auto)+
  have "tree_at (RightRotate n t) n (rright t n) a = tree_at t n (rright t n) a"
    by (rule tree_at_cong) (use out fl lmb ds in auto)
  moreover have "tree_at (RightRotate n t) m (rleft t m) d = tree_at t m (rleft t m) d"
    by (rule tree_at_cong) (use out fl lmb ds in auto)
  moreover have "tree_at (RightRotate n t) n ?lm b"
    by (rule tree_at_move [OF bt(1)]) (use ds out fl lm lmb f(6) in \<open>auto split: tree.splits\<close>)
  ultimately show "tree_at (RightRotate n t) (up c) m (Node d m (Node b n a))"
    using bt f fl out by simp
qed

section \<open>Colours\<close>

lemma not_red [simp]: "k \<noteq> RED \<longleftrightarrow> k = BLACK" "k \<noteq> BLACK \<longleftrightarrow> k = RED"
  by (cases k; simp)+

fun bh :: "(u32 \<Rightarrow> rb_color) \<Rightarrow> u32 tree \<Rightarrow> nat" where
  "bh col Leaf = 0"
| "bh col (Node l x r) = bh col l + (if col x = BLACK then 1 else 0)"

fun bal :: "(u32 \<Rightarrow> rb_color) \<Rightarrow> u32 tree \<Rightarrow> bool" where
  "bal col Leaf \<longleftrightarrow> True"
| "bal col (Node l x r) \<longleftrightarrow> bal col l \<and> bal col r \<and> bh col l = bh col r"

fun rootc :: "(u32 \<Rightarrow> rb_color) \<Rightarrow> u32 tree \<Rightarrow> rb_color" where
  "rootc col Leaf = BLACK"
| "rootc col (Node l x r) = col x"

fun red_ok :: "(u32 \<Rightarrow> rb_color) \<Rightarrow> u32 tree \<Rightarrow> bool" where
  "red_ok col Leaf \<longleftrightarrow> True"
| "red_ok col (Node l x r) \<longleftrightarrow> red_ok col l \<and> red_ok col r \<and> (col x = RED \<longrightarrow> rootc col l = BLACK \<and> rootc col r = BLACK)"

text \<open>The same for a path, with the black height of the hole; the last node of a path, the root, is black.\<close>

fun bal_path :: "(u32 \<Rightarrow> rb_color) \<Rightarrow> nat \<Rightarrow> path \<Rightarrow> bool" where
  "bal_path col h [] \<longleftrightarrow> True"
| "bal_path col h ((_, x, s) # c) \<longleftrightarrow> bal col s \<and> bh col s = h \<and> bal_path col (h + (if col x = BLACK then 1 else 0)) c"

definition upc :: "(u32 \<Rightarrow> rb_color) \<Rightarrow> path \<Rightarrow> rb_color" where "upc col c = (if c = [] then BLACK else col (up c))"

fun red_path :: "(u32 \<Rightarrow> rb_color) \<Rightarrow> path \<Rightarrow> bool" where
  "red_path col [] \<longleftrightarrow> True"
| "red_path col ((_, x, s) # c) \<longleftrightarrow> red_ok col s \<and> red_path col c \<and> (col x = RED \<longrightarrow> rootc col s = BLACK \<and> upc col c = BLACK \<and> c \<noteq> [])"

lemma color_cong:
  "(\<And>x. x \<in> set_tree T \<Longrightarrow> col' x = col x) \<Longrightarrow> bh col' T = bh col T \<and> bal col' T = bal col T \<and> rootc col' T = rootc col T \<and> red_ok col' T = red_ok col T"
  by (induction T) auto

lemma path_color_cong:
  "(\<And>x. x \<in> set (path_nodes c) \<Longrightarrow> col' x = col x) \<Longrightarrow> bal_path col' h c = bal_path col h c \<and> red_path col' c = red_path col c \<and> upc col' c = upc col c"
proof (induction c arbitrary: h)
  case (Cons s c)
  obtain b x T where s: "s = (b, x, T)" by (cases s)
  have "upc col' (s # c) = upc col (s # c)" using Cons.prems s by (simp add: upc_def)
  then show ?case using Cons color_cong [of T col' col] s by auto
qed (simp add: upc_def)

lemma bal_fill: "bal col (fill T c) \<longleftrightarrow> bal col T \<and> bal_path col (bh col T) c"
  by (induction T c rule: fill.induct) auto

lemma red_fill: "red_ok col T \<Longrightarrow> red_path col c \<Longrightarrow> (rootc col T = RED \<longrightarrow> upc col c = BLACK) \<Longrightarrow> red_ok col (fill T c)"
  by (induction T c rule: fill.induct) (auto simp: upc_def)

lemma red_fill_path:
  "red_ok col (fill T c) \<Longrightarrow> c = [] \<or> rootc col (fill T c) = BLACK \<Longrightarrow> red_path col c \<and> red_ok col T \<and> (rootc col T = RED \<longrightarrow> upc col c = BLACK)"
proof (induction T c rule: fill.induct)
  case (2 T x r c)
  then show ?case by (cases "c = []") (auto simp: upc_def)
next
  case (3 T x l c)
  then show ?case by (cases "c = []") (auto simp: upc_def)
qed (simp add: upc_def)

lemma color_upd [simp]:
  "x \<notin> set_tree T \<Longrightarrow> bh (col(x := k)) T = bh col T" "x \<notin> set_tree T \<Longrightarrow> bal (col(x := k)) T = bal col T"
  "x \<notin> set_tree T \<Longrightarrow> rootc (col(x := k)) T = rootc col T" "x \<notin> set_tree T \<Longrightarrow> red_ok (col(x := k)) T = red_ok col T"
proof -
  assume x: "x \<notin> set_tree T"
  have "(col(x := k)) y = col y" if "y \<in> set_tree T" for y using x that by auto
  note c = color_cong [of T "col(x := k)" col, OF this]
  show "bh (col(x := k)) T = bh col T" "bal (col(x := k)) T = bal col T" "rootc (col(x := k)) T = rootc col T"
    "red_ok (col(x := k)) T = red_ok col T" using c by blast+
qed

lemma path_color_upd [simp]:
  "x \<notin> set (path_nodes c) \<Longrightarrow> bal_path (col(x := k)) h c = bal_path col h c" "x \<notin> set (path_nodes c) \<Longrightarrow> red_path (col(x := k)) c = red_path col c"
  "x \<notin> set (path_nodes c) \<Longrightarrow> upc (col(x := k)) c = upc col c"
proof -
  assume x: "x \<notin> set (path_nodes c)"
  have "(col(x := k)) y = col y" if "y \<in> set (path_nodes c)" for y using x that by auto
  note p = path_color_cong [of c "col(x := k)" col, OF this]
  show "bal_path (col(x := k)) h c = bal_path col h c" "red_path (col(x := k)) c = red_path col c"
    "upc (col(x := k)) c = upc col c" using p by blast+
qed

lemma rootc_tip: "tree_at t par p T \<Longrightarrow> rcolor t NIL = BLACK \<Longrightarrow> rootc (rcolor t) T = rcolor t p"
  by (cases T) auto

lemma set_color_frame [simp]: "tree_at (set_color n k t) par p T = tree_at t par p T" "path_at (set_color n k t) p c = path_at t p c"
  "rkey (set_color n k t) = rkey t" "rcolor (set_color n k t) = (rcolor t)(n := k)" "rleft (set_color n k t) = rleft t"
  "rright (set_color n k t) = rright t" "rparent (set_color n k t) = rparent t" "root (set_color n k t) = root t"
proof -
  show "tree_at (set_color n k t) par p T = tree_at t par p T" by (rule tree_at_cong) (simp add: set_defs)
  show "path_at (set_color n k t) p c = path_at t p c" by (rule path_at_cong) (simp_all add: set_defs)
qed (simp_all add: set_defs)

section \<open>Insertion\<close>

definition rb_tree :: "rbtree \<Rightarrow> u32 tree \<Rightarrow> bool" where
  "rb_tree t W \<longleftrightarrow> tree_at t NIL (root t) W \<and> distinct (inorder W) \<and> bal (rcolor t) W \<and> red_ok (rcolor t) W \<and>
     rootc (rcolor t) W = BLACK \<and> rcolor t NIL = BLACK"

text \<open>Painting the root black ends the loop.\<close>

lemma finish_fixup:
  assumes "tree_at t NIL (root t) W" "W \<noteq> Leaf" "distinct (inorder W)" "bal (rcolor t) W" "red_ok (rcolor t) W" "rcolor t NIL = BLACK"
  shows "rb_tree (set_color (root t) BLACK t) W"
proof -
  obtain l x r where W: "W = Node l x r" using assms(2) by (cases W) auto
  have x: "root t = x" "x \<notin> set_tree l" "x \<notin> set_tree r" using assms(1,3) W by auto
  show ?thesis using assms W x by (auto simp: rb_tree_def)
qed

definition fix_inv :: "rbtree \<Rightarrow> u32 \<Rightarrow> u32 tree \<Rightarrow> path \<Rightarrow> bool" where
  "fix_inv t n T c \<longleftrightarrow> path_at t n c \<and> tree_at t (up c) n T \<and> T \<noteq> Leaf \<and> distinct (inorder T @ path_nodes c) \<and> rcolor t NIL = BLACK \<and>
     rcolor t n = RED \<and> bal (rcolor t) (fill T c) \<and> red_ok (rcolor t) T \<and> red_path (rcolor t) c"

lemma fixup_exit:
  assumes "fix_inv t n T c" "upc (rcolor t) c = BLACK"
  shows "\<exists>t'. RBTreeInsertFixup n t = Some t' \<and> rb_tree t' (fill T c) \<and> rkey t' = rkey t"
proof -
  note i = assms(1) [unfolded fix_inv_def]
  have n: "n = tip T" "rparent t n = up c" using i by (cases T; auto)+
  have "rcolor t (rparent t n) \<noteq> RED" using i assms(2) n(2) by (auto simp: upc_def split: if_splits)
  then have run: "RBTreeInsertFixup n t = Some (set_color (root t) BLACK t)" by (subst RBTreeInsertFixup.simps) simp
  have "tree_at t NIL (root t) (fill T c)" using i n(1) tree_at_fill by simp
  moreover have "fill T c \<noteq> Leaf" using set_fill [of T c] i by (cases T) auto
  moreover have "red_ok (rcolor t) (fill T c)" using red_fill i assms(2) by blast
  ultimately have "rb_tree (set_color (root t) BLACK t) (fill T c)"
    using finish_fixup i distinct_fill by blast
  then show ?thesis using run by simp
qed

text \<open>After a rotation the node above the place of the conflict is black.\<close>

lemma fixup_rotated:
  assumes "path_at t m c" "tree_at t (up c) m (Node A m B)" "distinct (inorder (Node A m B) @ path_nodes c)" "rcolor t NIL = BLACK"
    "rcolor t m = BLACK" "bal (rcolor t) (fill (Node A m B) c)" "red_ok (rcolor t) A" "red_ok (rcolor t) B" "red_path (rcolor t) c"
    "n = tip A \<and> A \<noteq> Leaf \<or> n = tip B \<and> B \<noteq> Leaf"
  shows "\<exists>t'. RBTreeInsertFixup n t = Some t' \<and> rb_tree t' (fill (Node A m B) c) \<and> rkey t' = rkey t"
proof -
  have "rparent t n = m" using assms(2,10) by (cases A; cases B; auto)
  then have run: "RBTreeInsertFixup n t = Some (set_color (root t) BLACK t)" using assms(5) by (subst RBTreeInsertFixup.simps) simp
  have "tree_at t NIL (root t) (fill (Node A m B) c)" using assms(1,2) tree_at_fill by simp
  moreover have "fill (Node A m B) c \<noteq> Leaf" using set_fill [of "Node A m B" c] by auto
  moreover have "red_ok (rcolor t) (fill (Node A m B) c)" using red_fill assms(5,7,8,9) by simp
  ultimately have "rb_tree (set_color (root t) BLACK t) (fill (Node A m B) c)"
    using finish_fixup assms(3,4,6) distinct_fill by blast
  then show ?thesis using run by simp
qed

text \<open>A red parent has a black parent of its own.\<close>

lemma red_parent:
  assumes "fix_inv t n T c" "rcolor t (rparent t n) = RED"
  obtains b1 p s b2 g y c' where "c = (b1, p, s) # (b2, g, y) # c'" "rparent t n = p" "rparent t p = g" "rcolor t p = RED" "rcolor t g = BLACK"
    "rootc (rcolor t) s = BLACK"
proof -
  note i = assms(1) [unfolded fix_inv_def]
  have p: "rparent t n = up c" using i by (cases T) auto
  then have "c \<noteq> []" using assms(2) i by auto
  then obtain b1 p s c1 where c1: "c = (b1, p, s) # c1" by (cases c) auto
  have "rcolor t p = RED" using assms(2) p c1 by simp
  then have r: "c1 \<noteq> []" "upc (rcolor t) c1 = BLACK" "rootc (rcolor t) s = BLACK" using i c1 by auto
  then obtain b2 g y c' where c2: "c1 = (b2, g, y) # c'" by (cases c1) auto
  have "rparent t p = g" using i c1 c2 by (cases b1; simp)
  then show thesis using that [of b1 p s b2 g y c'] c1 c2 p r \<open>rcolor t p = RED\<close> by (auto simp: upc_def)
qed

definition plug :: "bool \<Rightarrow> u32 \<Rightarrow> u32 tree \<Rightarrow> u32 tree \<Rightarrow> u32 tree" where
  "plug b x s T = (if b then Node T x s else Node s x T)"

lemma fill_plug: "fill T ((b, x, s) # c) = fill (plug b x s T) c"
  by (cases b) (simp_all add: plug_def)

lemma path_step:
  assumes "path_at t q ((b, x, s) # c)"
  shows "b \<Longrightarrow> rleft t x = q" "b \<Longrightarrow> rright t x = tip s" "\<not> b \<Longrightarrow> rright t x = q" "\<not> b \<Longrightarrow> rleft t x = tip s" "x \<noteq> NIL" "rparent t x = up c"
    "tree_at t x (tip s) s" "path_at t x c"
  using assms by (cases b; auto dest: tree_at_tip; metis tree_at_tip)+

lemma tip_in: "T \<noteq> Leaf \<Longrightarrow> tip T \<in> set_tree T"
  by (cases T) auto

lemma tip_out: "x \<notin> set_tree T \<Longrightarrow> x \<noteq> NIL \<Longrightarrow> x \<noteq> tip T"
  by (cases T) auto

text \<open>The uncle of the node, found from the code's comparison of pointers.\<close>

lemma uncle:
  assumes "fix_inv t n T ((b1, p, s) # (b2, g, y) # c)"
  shows "p = rleft t g \<longleftrightarrow> b2" "b2 \<Longrightarrow> rright t g = tip y" "\<not> b2 \<Longrightarrow> rleft t g = tip y" "n = rright t p \<longleftrightarrow> \<not> b1" "n = rleft t p \<longleftrightarrow> b1"
    "rootc (rcolor t) y = rcolor t (tip y)" "p \<noteq> NIL" "g \<noteq> NIL" "n = tip T" "rparent t n = p" "rparent t p = g"
proof -
  have i: "path_at t n ((b1, p, s) # (b2, g, y) # c)" "tree_at t p n T" "T \<noteq> Leaf" "distinct (inorder T @ path_nodes ((b1, p, s) # (b2, g, y) # c))" "rcolor t NIL = BLACK"
    using assms by (simp_all add: fix_inv_def del: path_at.simps)
  note a = path_step [OF i(1)] note b = path_step [OF a(8)]
  show n: "p \<noteq> NIL" "g \<noteq> NIL" "n = tip T" "rparent t n = p" "rparent t p = g" using a b i(2,3) tree_at_tip [OF i(2)] by (cases T; simp)+
  have "n \<in> set_tree T" "n \<noteq> NIL" using tip_in [OF i(3)] n(3) tree_at_nil [OF i(2)] by auto
  then have d: "p \<noteq> tip y" "n \<noteq> tip s" using i(4) n(1) tip_out [of p y] tip_out [of n s] by auto
  show "b2 \<Longrightarrow> rright t g = tip y" "\<not> b2 \<Longrightarrow> rleft t g = tip y" by (rule b; assumption)+
  show "p = rleft t g \<longleftrightarrow> b2" using b(1,4) d(1) by (cases b2) simp_all
  show "n = rright t p \<longleftrightarrow> \<not> b1" "n = rleft t p \<longleftrightarrow> b1" using a(1-4) d(2) by (cases b1; simp)+
  show "rootc (rcolor t) y = rcolor t (tip y)" using i(5) by (cases y) auto
qed

text \<open>A red uncle: both are painted black, and the conflict moves to the grandparent.\<close>

lemma fixup_recolor:
  assumes inv: "fix_inv t n T ((b1, p, s) # (b2, g, y) # c)" and red: "rcolor t p = RED" "rcolor t g = BLACK" "rcolor t (tip y) = RED"
  defines "t' \<equiv> set_color g RED (set_color (tip y) BLACK (set_color p BLACK t))"
  shows "RBTreeInsertFixup n t = RBTreeInsertFixup g t'" "fix_inv t' g (plug b2 g y (plug b1 p s T)) c"
proof -
  note u = uncle [OF inv]
  show "RBTreeInsertFixup n t = RBTreeInsertFixup g t'"
    using u red unfolding t'_def by (subst RBTreeInsertFixup.simps) (cases b2; simp add: Let_def)
  have i: "path_at t n ((b1, p, s) # (b2, g, y) # c)" "tree_at t p n T" "distinct (inorder T @ path_nodes ((b1, p, s) # (b2, g, y) # c))" "rcolor t NIL = BLACK"
    "rcolor t n = RED" "bal (rcolor t) (fill T ((b1, p, s) # (b2, g, y) # c))" "red_ok (rcolor t) T" "red_path (rcolor t) ((b1, p, s) # (b2, g, y) # c)"
    using inv by (simp_all add: fix_inv_def del: path_at.simps fill.simps)
  note a = path_step [OF i(1)] note b = path_step [OF a(8)]
  have yl: "y \<noteq> Leaf" using red(3) i(4) by auto
  then obtain l x r where y: "y = Node l x r" by (cases y) auto
  have tr: "tree_at t (up c) g (plug b2 g y (plug b1 p s T))"
    using a b i(2) by (cases b1; cases b2; simp add: plug_def)
  let ?c' = "(rcolor t)(p := BLACK, x := BLACK, g := RED)"
  have d: "p \<notin> set_tree T" "p \<notin> set_tree s" "x \<notin> set_tree T" "x \<notin> set_tree s" "g \<notin> set_tree T" "g \<notin> set_tree s" "p \<noteq> x" "p \<noteq> g" "x \<noteq> g"
    "p \<notin> set_tree l" "p \<notin> set_tree r" "x \<notin> set_tree l" "x \<notin> set_tree r" "g \<notin> set_tree l" "g \<notin> set_tree r"
    "p \<notin> set (path_nodes c)" "x \<notin> set (path_nodes c)" "g \<notin> set (path_nodes c)"
    using i(3) y by auto
  have bl: "bal ?c' (plug b2 g y (plug b1 p s T)) \<and> bh ?c' (plug b2 g y (plug b1 p s T)) = bh (rcolor t) (plug b2 g y (plug b1 p s T))"
    using i(6) red d y unfolding fill_plug bal_fill by (cases b1; cases b2; simp add: plug_def)
  have "red_ok ?c' (plug b2 g y (plug b1 p s T))"
    using i(7,8) red d y by (cases b1; cases b2; auto simp: plug_def)
  moreover have "distinct (inorder (plug b2 g y (plug b1 p s T)) @ path_nodes c)" using i(3) by (cases b1; cases b2; auto simp: plug_def)
  moreover have "plug b2 g y (plug b1 p s T) \<noteq> Leaf" by (simp add: plug_def)
  moreover have "bal ?c' (fill (plug b2 g y (plug b1 p s T)) c)" using bl i(6) d unfolding fill_plug bal_fill by simp
  moreover have "red_path ?c' c" using i(8) d by simp
  moreover have "x \<noteq> NIL" using b(7) y by simp
  ultimately show "fix_inv t' g (plug b2 g y (plug b1 p s T)) c"
    using tr b(8) i(4) u(7,8) y by (simp add: fix_inv_def t'_def)
qed

text \<open>A black uncle: one or two rotations end the loop.\<close>

lemma fixup_rotate_LL:
  assumes inv: "fix_inv t n T ((True, p, s) # (True, g, y) # c)" and red: "rcolor t p = RED" "rcolor t g = BLACK" "rcolor t (tip y) = BLACK"
  shows "\<exists>t' W. RBTreeInsertFixup n t = Some t' \<and> rb_tree t' W \<and> inorder W = inorder (fill T ((True, p, s) # (True, g, y) # c)) \<and> rkey t' = rkey t"
proof -
  note u = uncle [OF inv] and i = inv [unfolded fix_inv_def]
  let ?t1 = "set_color g RED (set_color p BLACK t)" and ?W = "Node T p (Node s g y)"
  have run: "RBTreeInsertFixup n t = RBTreeInsertFixup n (RightRotate g ?t1)"
    using u red by (subst RBTreeInsertFixup.simps) (simp add: Let_def)
  have pre: "path_at ?t1 g c" "tree_at ?t1 (up c) g (Node (Node T p s) g y)" "distinct (inorder (Node (Node T p s) g y) @ path_nodes c)" using i by auto
  note r = right_rotate [OF pre]
  have d: "p \<notin> set_tree T" "p \<notin> set_tree s" "p \<notin> set_tree y" "g \<notin> set_tree T" "g \<notin> set_tree s" "g \<notin> set_tree y" "p \<noteq> g"
    "p \<notin> set (path_nodes c)" "g \<notin> set (path_nodes c)" using i by auto
  have fx: "\<exists>t'. RBTreeInsertFixup n (RightRotate g ?t1) = Some t' \<and> rb_tree t' (fill ?W c) \<and> rkey t' = rkey (RightRotate g ?t1)"
  proof (rule fixup_rotated [OF r(1,2)])
    show "bal (rcolor (RightRotate g ?t1)) (fill ?W c)" "red_ok (rcolor (RightRotate g ?t1)) T" "red_path (rcolor (RightRotate g ?t1)) c"
      "red_ok (rcolor (RightRotate g ?t1)) (Node s g y)" "rcolor (RightRotate g ?t1) NIL = BLACK" "rcolor (RightRotate g ?t1) p = BLACK"
      using i d red u(6,8) unfolding r(3) bal_fill by auto
  qed (use i u(9) in auto)
  moreover have "inorder (fill ?W c) = inorder (fill (Node (Node T p s) g y) c)" by (rule inorder_fill) simp
  ultimately show ?thesis using run r(4) by auto
qed

lemma fixup_rotate_LR:
  assumes inv: "fix_inv t n (Node l n r) ((False, p, s) # (True, g, y) # c)" and red: "rcolor t p = RED" "rcolor t g = BLACK" "rcolor t (tip y) = BLACK"
  shows "\<exists>t' W. RBTreeInsertFixup n t = Some t' \<and> rb_tree t' W \<and> inorder W = inorder (fill (Node l n r) ((False, p, s) # (True, g, y) # c)) \<and> rkey t' = rkey t"
proof -
  note u = uncle [OF inv] and i = inv [unfolded fix_inv_def]
  have pre1: "path_at t p ((True, g, y) # c)" "tree_at t (up ((True, g, y) # c)) p (Node s p (Node l n r))"
    "distinct (inorder (Node s p (Node l n r)) @ path_nodes ((True, g, y) # c))" using i by auto
  note r1 = left_rotate [OF pre1]
  let ?t1 = "LeftRotate p t"
  let ?t2 = "set_color g RED (set_color n BLACK ?t1)" and ?W = "Node (Node s p l) n (Node r g y)"
  have par: "rparent ?t1 p = n" "rparent ?t1 n = g" using r1(2) by auto
  have run: "RBTreeInsertFixup n t = RBTreeInsertFixup p (RightRotate g ?t2)"
    using u red par by (subst RBTreeInsertFixup.simps) (simp add: Let_def)
  have pre: "path_at ?t2 g c" "tree_at ?t2 (up c) g (Node (Node (Node s p l) n r) g y)"
    "distinct (inorder (Node (Node (Node s p l) n r) g y) @ path_nodes c)" using r1(1,2) i by auto
  note r = right_rotate [OF pre]
  have d: "n \<notin> set_tree l" "n \<notin> set_tree r" "n \<notin> set_tree s" "n \<notin> set_tree y" "g \<notin> set_tree l" "g \<notin> set_tree r" "g \<notin> set_tree s" "g \<notin> set_tree y"
    "n \<noteq> g" "n \<noteq> p" "p \<noteq> g" "n \<notin> set (path_nodes c)" "g \<notin> set (path_nodes c)" using i by auto
  have nn: "n \<noteq> NIL" using i by auto
  have fx: "\<exists>t'. RBTreeInsertFixup p (RightRotate g ?t2) = Some t' \<and> rb_tree t' (fill ?W c) \<and> rkey t' = rkey (RightRotate g ?t2)"
  proof (rule fixup_rotated [OF r(1,2)])
    show "bal (rcolor (RightRotate g ?t2)) (fill ?W c)" "red_ok (rcolor (RightRotate g ?t2)) (Node s p l)" "red_path (rcolor (RightRotate g ?t2)) c"
      "red_ok (rcolor (RightRotate g ?t2)) (Node r g y)" "rcolor (RightRotate g ?t2) NIL = BLACK" "rcolor (RightRotate g ?t2) n = BLACK"
      using i d nn red u(6,8) r1(3) unfolding r(3) bal_fill by auto
  qed (use i u(9) in auto)
  moreover have "inorder (fill ?W c) = inorder (fill (Node (Node s p (Node l n r)) g y) c)" by (rule inorder_fill) simp
  ultimately show ?thesis using run r(4) r1(4) by auto
qed

lemma fixup_rotate_RR:
  assumes inv: "fix_inv t n T ((False, p, s) # (False, g, y) # c)" and red: "rcolor t p = RED" "rcolor t g = BLACK" "rcolor t (tip y) = BLACK"
  shows "\<exists>t' W. RBTreeInsertFixup n t = Some t' \<and> rb_tree t' W \<and> inorder W = inorder (fill T ((False, p, s) # (False, g, y) # c)) \<and> rkey t' = rkey t"
proof -
  note u = uncle [OF inv] and i = inv [unfolded fix_inv_def]
  let ?t1 = "set_color g RED (set_color p BLACK t)" and ?W = "Node (Node y g s) p T"
  have run: "RBTreeInsertFixup n t = RBTreeInsertFixup n (LeftRotate g ?t1)"
    using u red by (subst RBTreeInsertFixup.simps) (simp add: Let_def)
  have pre: "path_at ?t1 g c" "tree_at ?t1 (up c) g (Node y g (Node s p T))" "distinct (inorder (Node y g (Node s p T)) @ path_nodes c)" using i by auto
  note r = left_rotate [OF pre]
  have d: "p \<notin> set_tree T" "p \<notin> set_tree s" "p \<notin> set_tree y" "g \<notin> set_tree T" "g \<notin> set_tree s" "g \<notin> set_tree y" "p \<noteq> g"
    "p \<notin> set (path_nodes c)" "g \<notin> set (path_nodes c)" using i by auto
  have fx: "\<exists>t'. RBTreeInsertFixup n (LeftRotate g ?t1) = Some t' \<and> rb_tree t' (fill ?W c) \<and> rkey t' = rkey (LeftRotate g ?t1)"
  proof (rule fixup_rotated [OF r(1,2)])
    show "bal (rcolor (LeftRotate g ?t1)) (fill ?W c)" "red_ok (rcolor (LeftRotate g ?t1)) T" "red_path (rcolor (LeftRotate g ?t1)) c"
      "red_ok (rcolor (LeftRotate g ?t1)) (Node y g s)" "rcolor (LeftRotate g ?t1) NIL = BLACK" "rcolor (LeftRotate g ?t1) p = BLACK"
      using i d red u(6,8) unfolding r(3) bal_fill by auto
  qed (use i u(9) in auto)
  moreover have "inorder (fill ?W c) = inorder (fill (Node y g (Node s p T)) c)" by (rule inorder_fill) simp
  ultimately show ?thesis using run r(4) by auto
qed

lemma fixup_rotate_RL:
  assumes inv: "fix_inv t n (Node l n r) ((True, p, s) # (False, g, y) # c)" and red: "rcolor t p = RED" "rcolor t g = BLACK" "rcolor t (tip y) = BLACK"
  shows "\<exists>t' W. RBTreeInsertFixup n t = Some t' \<and> rb_tree t' W \<and> inorder W = inorder (fill (Node l n r) ((True, p, s) # (False, g, y) # c)) \<and> rkey t' = rkey t"
proof -
  note u = uncle [OF inv] and i = inv [unfolded fix_inv_def]
  have st: "path_at t n ((True, p, s) # (False, g, y) # c)" "tree_at t p n (Node l n r)"
    "distinct (inorder (Node l n r) @ path_nodes ((True, p, s) # (False, g, y) # c))"
    using inv by (simp_all add: fix_inv_def del: path_at.simps tree_at.simps)
  note a = path_step [OF st(1)]
  have pre1: "path_at t p ((False, g, y) # c)" "tree_at t (up ((False, g, y) # c)) p (Node (Node l n r) p s)"
    "distinct (inorder (Node (Node l n r) p s) @ path_nodes ((False, g, y) # c))"
    using a st by (simp_all del: path_at.simps)
  note r1 = right_rotate [OF pre1]
  let ?t1 = "RightRotate p t"
  let ?t2 = "set_color g RED (set_color n BLACK ?t1)" and ?W = "Node (Node y g l) n (Node r p s)"
  have par: "rparent ?t1 p = n" "rparent ?t1 n = g" using r1(2) by auto
  have run: "RBTreeInsertFixup n t = RBTreeInsertFixup p (LeftRotate g ?t2)"
    using u red par by (subst RBTreeInsertFixup.simps) (simp add: Let_def)
  have pre: "path_at ?t2 g c" "tree_at ?t2 (up c) g (Node y g (Node l n (Node r p s)))"
    "distinct (inorder (Node y g (Node l n (Node r p s))) @ path_nodes c)" using r1(1,2) path_step [OF r1(1)] st(3) by auto
  note r = left_rotate [OF pre]
  have d: "n \<notin> set_tree l" "n \<notin> set_tree r" "n \<notin> set_tree s" "n \<notin> set_tree y" "g \<notin> set_tree l" "g \<notin> set_tree r" "g \<notin> set_tree s" "g \<notin> set_tree y"
    "n \<noteq> g" "n \<noteq> p" "p \<noteq> g" "n \<notin> set (path_nodes c)" "g \<notin> set (path_nodes c)" using i by auto
  have nn: "n \<noteq> NIL" using i by auto
  have fx: "\<exists>t'. RBTreeInsertFixup p (LeftRotate g ?t2) = Some t' \<and> rb_tree t' (fill ?W c) \<and> rkey t' = rkey (LeftRotate g ?t2)"
  proof (rule fixup_rotated [OF r(1,2)])
    show "bal (rcolor (LeftRotate g ?t2)) (fill ?W c)" "red_ok (rcolor (LeftRotate g ?t2)) (Node r p s)" "red_path (rcolor (LeftRotate g ?t2)) c"
      "red_ok (rcolor (LeftRotate g ?t2)) (Node y g l)" "rcolor (LeftRotate g ?t2) NIL = BLACK" "rcolor (LeftRotate g ?t2) n = BLACK"
      using i d nn red u(6,8) r1(3) unfolding r(3) bal_fill by auto
  qed (use st(3) in auto)
  moreover have "inorder (fill ?W c) = inorder (fill (Node y g (Node (Node l n r) p s)) c)" by (rule inorder_fill) simp
  ultimately show ?thesis using run r(4) r1(4) by auto
qed

lemma fixup_rotate:
  assumes inv: "fix_inv t n T ((b1, p, s) # (b2, g, y) # c)" and red: "rcolor t p = RED" "rcolor t g = BLACK" "rcolor t (tip y) = BLACK"
  shows "\<exists>t' W. RBTreeInsertFixup n t = Some t' \<and> rb_tree t' W \<and> inorder W = inorder (fill T ((b1, p, s) # (b2, g, y) # c)) \<and> rkey t' = rkey t"
proof -
  have "tree_at t p n T" "T \<noteq> Leaf" using inv by (simp_all add: fix_inv_def del: path_at.simps)
  then obtain l r where T: "T = Node l n r" by (cases T) auto
  note v = inv [unfolded T]
  show ?thesis
    unfolding T
  proof (cases b1; cases b2)
    assume b: "b1" "b2"
    show "\<exists>t' W. RBTreeInsertFixup n t = Some t' \<and> rb_tree t' W \<and> inorder W = inorder (fill (Node l n r) ((b1, p, s) # (b2, g, y) # c)) \<and> rkey t' = rkey t"
      using fixup_rotate_LL [OF _ red] v b by simp
  next
    assume b: "b1" "\<not> b2"
    show "\<exists>t' W. RBTreeInsertFixup n t = Some t' \<and> rb_tree t' W \<and> inorder W = inorder (fill (Node l n r) ((b1, p, s) # (b2, g, y) # c)) \<and> rkey t' = rkey t"
      using fixup_rotate_RL [OF _ red] v b by simp
  next
    assume b: "\<not> b1" "b2"
    show "\<exists>t' W. RBTreeInsertFixup n t = Some t' \<and> rb_tree t' W \<and> inorder W = inorder (fill (Node l n r) ((b1, p, s) # (b2, g, y) # c)) \<and> rkey t' = rkey t"
      using fixup_rotate_LR [OF _ red] v b by simp
  next
    assume b: "\<not> b1" "\<not> b2"
    show "\<exists>t' W. RBTreeInsertFixup n t = Some t' \<and> rb_tree t' W \<and> inorder W = inorder (fill (Node l n r) ((b1, p, s) # (b2, g, y) # c)) \<and> rkey t' = rkey t"
      using fixup_rotate_RR [OF _ red] v b by simp
  qed
qed

theorem fixup_correct:
  "fix_inv t n T c \<Longrightarrow> \<exists>t' W. RBTreeInsertFixup n t = Some t' \<and> rb_tree t' W \<and> inorder W = inorder (fill T c) \<and> rkey t' = rkey t"
proof (induction "length c" arbitrary: t n T c rule: less_induct)
  case less
  have par: "rparent t n = up c" using less.prems by (cases T) (auto simp: fix_inv_def)
  show ?case
  proof (cases "upc (rcolor t) c = BLACK")
    case True
    then show ?thesis using fixup_exit [OF less.prems] by blast
  next
    case False
    then have "rcolor t (rparent t n) = RED" unfolding par by (auto simp: upc_def split: if_splits)
    then obtain b1 p s b2 g y c' where c: "c = (b1, p, s) # (b2, g, y) # c'" and red: "rcolor t p = RED" "rcolor t g = BLACK"
      by (rule red_parent [OF less.prems])
    note inv = less.prems [unfolded c]
    show ?thesis
    proof (cases "rcolor t (tip y) = RED")
      case True
      note r = fixup_recolor [OF inv red True]
      from less.hyps [OF _ r(2)] show ?thesis unfolding r(1) c fill_plug by simp
    next
      case False
      then show ?thesis using fixup_rotate [OF inv red] unfolding c by simp
    qed
  qed
qed

end
