(* ===== verification/Rbtree_Props.thy ===== *)
theory Rbtree_Props
  imports Rbtree_Base
begin

text \<open>Insertion into red-black search trees, search in them, and an example of the deletion.\<close>

section \<open>Finding the place of a new node\<close>

fun leaf_path :: "(u32 \<Rightarrow> u32) \<Rightarrow> u32 \<Rightarrow> u32 tree \<Rightarrow> path \<Rightarrow> path" where
  "leaf_path kf k Leaf c = c"
| "leaf_path kf k (Node l x r) c = (if k < kf x then leaf_path kf k l ((True, x, r) # c) else leaf_path kf k r ((False, x, l) # c))"

text \<open>Insertion into a search tree without balancing.\<close>

fun ins :: "(u32 \<Rightarrow> u32) \<Rightarrow> u32 \<Rightarrow> u32 tree \<Rightarrow> u32 tree" where
  "ins kf n Leaf = Node Leaf n Leaf"
| "ins kf n (Node l x r) = (if kf n < kf x then Node (ins kf n l) x r else Node l x (ins kf n r))"

lemma insert_pos_path: "tree_at t (up c) p T \<Longrightarrow> insert_pos t k (up c) p = Some (up (leaf_path (rkey t) k T c))"
proof (induction T arbitrary: c p)
  case Leaf
  then show ?case by (simp add: insert_pos.simps)
next
  case (Node l x r)
  show ?case
    using Node.IH(1) [of "(True, x, r) # c" "rleft t x"] Node.IH(2) [of "(False, x, l) # c" "rright t x"] Node.prems
    by (subst insert_pos.simps) simp
qed

lemma leaf_path_fill: "fill Leaf (leaf_path kf k T c) = fill T c"
  by (induction T arbitrary: c) auto

lemma leaf_path_ins: "fill (Node Leaf n Leaf) (leaf_path kf (kf n) T c) = fill (ins kf n T) c"
  by (induction T arbitrary: c) auto

lemma leaf_path_side:
  "(\<And>b x s c'. c = (b, x, s) # c' \<Longrightarrow> b = (k < kf x)) \<Longrightarrow> leaf_path kf k T c = (b, x, s) # c' \<Longrightarrow> b = (k < kf x)"
proof (induction T arbitrary: c)
  case (Node l y r)
  then show ?case
    using Node.IH(1) [of "(True, y, r) # c"] Node.IH(2) [of "(False, y, l) # c"] by (simp split: if_splits)
qed simp

lemma inorder_ins:
  "sorted (map kf (inorder T)) \<Longrightarrow>
    inorder (ins kf n T) = takeWhile (\<lambda>x. kf x \<le> kf n) (inorder T) @ n # dropWhile (\<lambda>x. kf x \<le> kf n) (inorder T)"
proof (induction T)
  case (Node l x r)
  show ?case
  proof (cases "kf n < kf x")
    case True
    then show ?thesis using Node by (simp add: sorted_append takeWhile_tail dropWhile_append3)
  next
    case False
    then have "\<And>y. y \<in> set (inorder l @ [x]) \<Longrightarrow> kf y \<le> kf n" using Node.prems by (auto simp: sorted_append)
    then show ?thesis using False Node takeWhile_append2 [of "inorder l @ [x]" "\<lambda>x. kf x \<le> kf n" "inorder r"]
      dropWhile_append2 [of "inorder l @ [x]" "\<lambda>x. kf x \<le> kf n" "inorder r"] by (simp add: sorted_append)
  qed
qed simp

lemma sorted_insert_after:
  fixes kf :: "u32 \<Rightarrow> u32"
  assumes "sorted (map kf xs)"
  shows "sorted (map kf (takeWhile (\<lambda>x. kf x \<le> kf n) xs @ n # dropWhile (\<lambda>x. kf x \<le> kf n) xs))"
  using assms
proof (induction xs)
  case (Cons a xs)
  then show ?case by (auto dest: set_takeWhileD set_dropWhileD)
qed simp

section \<open>Insertion\<close>

text \<open>A new red leaf is linked into the hole of a path.\<close>

definition link_leaf :: "u32 \<Rightarrow> u32 \<Rightarrow> u32 \<Rightarrow> rbtree \<Rightarrow> rbtree" where
  "link_leaf key tp n t =
     (let t = set_parent n tp t
      in if tp = NIL then set_root n t else if key < rkey t tp then set_left tp n t else set_right tp n t)"

lemma RBTreeInsert_link:
  "RBTreeInsert n t = do { tp \<leftarrow> insert_pos t (rkey t n) NIL (root t); RBTreeInsertFixup n (link_leaf (rkey t n) tp n t) }"
  by (simp add: RBTreeInsert_def link_leaf_def Let_def)

lemma link_leaf_path:
  assumes "path_at t NIL c" "n \<noteq> NIL" "n \<notin> set (path_nodes c)" "rleft t n = NIL" "rright t n = NIL" "distinct (path_nodes c)"
    "\<And>b x s c'. c = (b, x, s) # c' \<Longrightarrow> b = (k < rkey t x)"
  shows "path_at (link_leaf k (up c) n t) n c" "tree_at (link_leaf k (up c) n t) (up c) n (Node Leaf n Leaf)"
    "rcolor (link_leaf k (up c) n t) = rcolor t" "rkey (link_leaf k (up c) n t) = rkey t"
proof -
  let ?t = "link_leaf k (up c) n t"
  show "rcolor ?t = rcolor t" "rkey ?t = rkey t" by (simp_all add: link_leaf_def set_defs Let_def)
  have "path_at ?t n c \<and> rleft ?t n = NIL \<and> rright ?t n = NIL \<and> rparent ?t n = up c"
  proof (cases c)
    case Nil
    then show ?thesis using assms by (simp add: link_leaf_def set_defs)
  next
    case (Cons e c')
    obtain b x s where e: "e = (b, x, s)" by (cases e)
    note st = path_step [OF assms(1) [unfolded Cons e]]
    have d: "x \<notin> set_tree s" "x \<notin> set (path_nodes c')" "n \<noteq> x" "n \<notin> set_tree s" "n \<notin> set (path_nodes c')" using assms(3,6) Cons e by auto
    have b: "b = (k < rkey t x)" using assms(7) Cons e by blast
    have T: "tree_at ?t x q s = tree_at t x q s" for q
      by (rule tree_at_cong) (use d st(5) Cons e in \<open>auto simp: link_leaf_def set_defs Let_def\<close>)
    have c: "path_at ?t x c' = path_at t x c'"
      by (rule path_at_cong) (use d st(5) Cons e in \<open>auto simp: link_leaf_def set_defs Let_def\<close>)
    have f: "rparent ?t x = up c'" "rleft ?t n = NIL" "rright ?t n = NIL" "rparent ?t n = x"
      "b \<Longrightarrow> rleft ?t x = n" "b \<Longrightarrow> rright ?t x = tip s" "\<not> b \<Longrightarrow> rright ?t x = n" "\<not> b \<Longrightarrow> rleft ?t x = tip s"
      using st d b assms(4,5) Cons e by (simp_all add: link_leaf_def set_defs Let_def)
    show ?thesis using f T c st Cons e by (cases b) simp_all
  qed
  then show "path_at ?t n c" "tree_at ?t (up c) n (Node Leaf n Leaf)" using assms(2) by simp_all
qed

definition new_node :: "rbtree \<Rightarrow> u32 \<Rightarrow> bool" where
  "new_node t n \<longleftrightarrow> n \<noteq> NIL \<and> rcolor t n = RED \<and> rleft t n = NIL \<and> rright t n = NIL"

definition search_tree :: "rbtree \<Rightarrow> u32 tree \<Rightarrow> bool" where
  "search_tree t W \<longleftrightarrow> sorted (map (rkey t) (inorder W))"

lemma insert_fix_inv:
  assumes rb: "rb_tree t W" and n: "new_node t n" "n \<notin> set_tree W"
  defines "c \<equiv> leaf_path (rkey t) (rkey t n) W []"
  shows "RBTreeInsert n t = RBTreeInsertFixup n (link_leaf (rkey t n) (up c) n t)"
    "fix_inv (link_leaf (rkey t n) (up c) n t) n (Node Leaf n Leaf) c" "rkey (link_leaf (rkey t n) (up c) n t) = rkey t"
proof -
  note w = rb [unfolded rb_tree_def] and n1 = n(1) [unfolded new_node_def]
  have W: "fill Leaf c = W" unfolding c_def using leaf_path_fill [of "rkey t" "rkey t n" W "[]"] by simp
  have "insert_pos t (rkey t n) NIL (root t) = Some (up c)"
    unfolding c_def using insert_pos_path [of t "[]" "root t" W] w by simp
  then show "RBTreeInsert n t = RBTreeInsertFixup n (link_leaf (rkey t n) (up c) n t)" by (simp add: RBTreeInsert_link)
  have p: "path_at t NIL c" using w tree_at_fill [of t Leaf c] W by simp
  have d: "distinct (path_nodes c)" "n \<notin> set (path_nodes c)" using w n(2) distinct_fill [of Leaf c] set_fill [of Leaf c] W by simp_all
  have side: "b = (rkey t n < rkey t x)" if "c = (b, x, s) # c'" for b x s c'
    using leaf_path_side [of "[]" "rkey t n" "rkey t" W b x s c'] that by (simp add: c_def)
  have nn: "n \<noteq> NIL" "rleft t n = NIL" "rright t n = NIL" using n1 by simp_all
  let ?t = "link_leaf (rkey t n) (up c) n t"
  have l: "path_at ?t n c" "tree_at ?t (up c) n (Node Leaf n Leaf)" "rcolor ?t = rcolor t" "rkey ?t = rkey t"
    by (rule link_leaf_path [OF p nn(1) d(2) nn(2,3) d(1)]; erule side)+
  show "rkey (link_leaf (rkey t n) (up c) n t) = rkey t" by (rule l(4))
  have bl: "bal (rcolor t) (fill (Node Leaf n Leaf) c)" using w W bal_fill [of "rcolor t" Leaf c] n1 by (simp add: bal_fill)
  have rd: "red_path (rcolor t) c" using red_fill_path [of "rcolor t" Leaf c] w W by auto
  show "fix_inv (link_leaf (rkey t n) (up c) n t) n (Node Leaf n Leaf) c"
    unfolding fix_inv_def l(3) using l(1,2) bl rd n1 d w by simp
qed

lemma insert_run:
  assumes rb: "rb_tree t W" and n: "new_node t n" "n \<notin> set_tree W"
  shows "\<exists>t' W'. RBTreeInsert n t = Some t' \<and> rb_tree t' W' \<and> inorder W' = inorder (ins (rkey t) n W) \<and> rkey t' = rkey t"
proof -
  note i = insert_fix_inv [OF assms]
  show ?thesis using fixup_correct [OF i(2)] leaf_path_ins [of n "rkey t" W "[]"] unfolding i(1,3) by simp
qed

section \<open>Search\<close>

lemma search_from_correct:
  assumes "tree_at t par p T" "sorted (map (rkey t) (inorder T))"
  shows "\<exists>x. search_from t key p = Some x \<and> (if key \<in> rkey t ` set_tree T then x \<in> set_tree T \<and> rkey t x = key else x = NIL)"
  using assms
proof (induction T arbitrary: par p)
  case Leaf
  then show ?case by (simp add: search_from.simps)
next
  case (Node l y r)
  have le: "\<And>z. z \<in> set_tree l \<Longrightarrow> rkey t z \<le> rkey t y" "\<And>z. z \<in> set_tree r \<Longrightarrow> rkey t y \<le> rkey t z"
    using Node.prems(2) by (auto simp: sorted_append)
  have p: "p = y" "y \<noteq> NIL" "tree_at t y (rleft t y) l" "tree_at t y (rright t y) r" using Node.prems(1) by auto
  have s: "sorted (map (rkey t) (inorder l))" "sorted (map (rkey t) (inorder r))" using Node.prems(2) by (auto simp: sorted_append)
  consider "key < rkey t y" | "rkey t y < key" | "rkey t y = key" by fastforce
  then show ?case
  proof cases
    case 1
    then have "key \<notin> rkey t ` set_tree r" "key \<noteq> rkey t y" using le(2) by fastforce+
    then show ?thesis using Node.IH(1) [OF p(3) s(1)] 1 p(1,2) unfolding search_from.simps [of t key p]
      by (fastforce split: if_splits)
  next
    case 2
    then have "key \<notin> rkey t ` set_tree l" "key \<noteq> rkey t y" using le(1) by fastforce+
    then show ?thesis using Node.IH(2) [OF p(4) s(2)] 2 p(1,2) unfolding search_from.simps [of t key p]
      by (fastforce split: if_splits)
  next
    case 3
    then show ?thesis using p(1,2) by (subst search_from.simps) auto
  qed
qed

lemma rb_bh_size: "bal col T \<Longrightarrow> 2 ^ bh col T \<le> size1 T"
  by (induction T) (auto simp: size1_size)

lemma rb_bh_height:
  "bal col T \<Longrightarrow> red_ok col T \<Longrightarrow> height T \<le> 2 * bh col T + (if rootc col T = RED then 1 else 0)"
  by (induction T) (auto split: if_splits)

lemma rb_height:
  assumes "rb_tree t W"
  shows "2 ^ height W \<le> (size1 W)\<^sup>2"
proof -
  have h: "height W \<le> 2 * bh (rcolor t) W" "2 ^ bh (rcolor t) W \<le> size1 W"
    using rb_bh_height [of "rcolor t" W] rb_bh_size [of "rcolor t" W] assms by (auto simp: rb_tree_def)
  have "(2::nat) ^ height W \<le> 2 ^ (2 * bh (rcolor t) W)" using h(1) by (simp add: power_increasing)
  also have "\<dots> = (2 ^ bh (rcolor t) W)\<^sup>2" by (simp add: power_mult [symmetric] mult.commute)
  also have "\<dots> \<le> (size1 W)\<^sup>2" using h(2) by (rule power_mono) simp
  finally show ?thesis .
qed

definition ex_tree :: rbtree where
  "ex_tree = \<lparr>root = 20, rcolor = (\<lambda>_. BLACK)(10 := RED, 30 := RED, 40 := RED), rkey = id, rleft = (\<lambda>_. NIL)(20 := 10),
     rright = (\<lambda>_. NIL)(20 := 30), rparent = (\<lambda>_. NIL)(10 := 20, 30 := 20)\<rparr>"

definition ex_shape :: "u32 tree" where
  "ex_shape = Node (Node Leaf 10 Leaf) 20 (Node Leaf 30 Leaf)"

lemma ex_insert: "rb_tree ex_tree ex_shape \<and> search_tree ex_tree ex_shape \<and> new_node ex_tree 40 \<and> 40 \<notin> set_tree ex_shape"
  by (simp add: rb_tree_def search_tree_def new_node_def ex_tree_def ex_shape_def NIL_def)

lemma tree_at_unique: "tree_at t par p T \<Longrightarrow> tree_at t par p T' \<Longrightarrow> T = T'"
proof (induction T arbitrary: par p T')
  case Leaf
  then show ?case by (cases T') auto
next
  case (Node l x r)
  then show ?case by (cases T') auto
qed

section \<open>A deletion\<close>

definition del_tree :: rbtree where
  "del_tree = \<lparr>root = 50, rcolor = (\<lambda>_. BLACK)(40 := RED), rkey = id,
     rleft = (\<lambda>_. NIL)(50 := 20, 20 := 10, 70 := 60),
     rright = (\<lambda>_. NIL)(50 := 70, 20 := 30, 30 := 40, 70 := 80),
     rparent = (\<lambda>_. NIL)(20 := 50, 70 := 50, 10 := 20, 30 := 20, 40 := 30, 60 := 70, 80 := 70)\<rparr>"

definition del_shape :: "u32 tree" where
  "del_shape = Node (Node (Node Leaf 10 Leaf) 20 (Node Leaf 30 (Node Leaf 40 Leaf))) 50 (Node (Node Leaf 60 Leaf) 70 (Node Leaf 80 Leaf))"

lemma del_pre: "rb_tree del_tree del_shape"
  by (simp add: rb_tree_def del_tree_def del_shape_def NIL_def)

lemma delete_fixup_root: "RBTreeDeleteFixup (root t) t = Some (set_color (root t) BLACK t)"
  by (subst RBTreeDeleteFixup.simps) simp

lemma delete_fixup_far_nephew:
  assumes "n \<noteq> root t" "rcolor t n = BLACK" "rparent t n = p" "rleft t p = n" "rright t p = w" "rcolor t w = BLACK" "rright t w = z" "rcolor t z = RED"
  shows "RBTreeDeleteFixup n t =
    (let t' = LeftRotate p (set_color z BLACK (set_color p BLACK (set_color w RED t))) in Some (set_color (root t') BLACK t'))"
  using assms by (subst RBTreeDeleteFixup.simps) (simp add: Let_def delete_fixup_root)

definition del_mid :: rbtree where "del_mid = set_right 10 NIL (set_left 10 NIL (RBTreeTransplant 10 NIL del_tree))"

lemma del_mid_fields: "root del_mid = 50" "rcolor del_mid = rcolor del_tree" "rleft del_mid = (rleft del_tree)(20 := NIL, 10 := NIL)"
  "rright del_mid = (rright del_tree)(10 := NIL)" "rparent del_mid = (rparent del_tree)(NIL := 20)"
  by (simp_all add: del_mid_def RBTreeTransplant_def relink_def set_defs del_tree_def NIL_def)

lemma del_start: "RBTreeDeleteNode 10 del_tree = RBTreeDeleteFixup NIL del_mid"
proof -
  have "rleft del_tree 10 = NIL" "rright del_tree 10 = NIL" "rcolor del_tree 10 = BLACK" by (simp_all add: del_tree_def)
  then show ?thesis by (simp add: RBTreeDeleteNode_def Let_def del_mid_def)
qed

lemma del_mid_color: "RBTreeDeleteFixup NIL del_mid =
  (let t' = LeftRotate 20 (set_color 40 BLACK (set_color 20 BLACK (set_color 30 RED del_mid))) in Some (set_color (root t') BLACK t'))"
  by (rule delete_fixup_far_nephew) (simp_all add: del_mid_fields, simp_all add: del_tree_def NIL_def)

definition del_end :: rbtree where
  "del_end = LeftRotate 20 (set_color 40 BLACK (set_color 20 BLACK (set_color 30 RED del_mid)))"

lemma del_end_fields: "root del_end = 50" "rcolor del_end = (rcolor del_tree)(30 := RED, 20 := BLACK, 40 := BLACK)"
   "rleft del_end = (rleft del_tree)(10 := NIL, 50 := 30, 30 := 20, 20 := NIL)"
   "rright del_end = (rright del_tree)(10 := NIL, 20 := NIL)" 
   "rparent del_end = (rparent del_tree)(NIL := 20, 20 := 30, 30 := 50)"
proof -
  have f: "rleft del_mid 20 = NIL" "rright del_mid 20 = 30" "rleft del_mid 30 = NIL" "rparent del_mid 20 = 50" "rleft del_mid 50 = 20"
    unfolding del_mid_fields by (simp_all add: del_tree_def NIL_def)
  have "LeftRotate 20 t = set_parent 20 30 (set_left 30 20 (set_left 50 30 (set_parent 30 50 (set_right 20 NIL t))))"
    if "rleft t 20 = NIL" "rright t 20 = 30" "rleft t 30 = NIL" "rparent t 20 = 50" "rleft t 50 = 20" for t
    using that by (simp add: LeftRotate_def relink_def Let_def set_defs NIL_def)
  then have e: "del_end = set_parent 20 30 (set_left 30 20 (set_left 50 30 (set_parent 30 50 (set_right 20 NIL
      (set_color 40 BLACK (set_color 20 BLACK (set_color 30 RED del_mid)))))))" 
    unfolding del_end_def using f by simp
  show "root del_end = 50" "rcolor del_end = (rcolor del_tree)(30 := RED, 20 := BLACK, 40 := BLACK)"
   "rleft del_end = (rleft del_tree)(10 := NIL, 50 := 30, 30 := 20, 20 := NIL)"
   "rright del_end = (rright del_tree)(10 := NIL, 20 := NIL)" 
   "rparent del_end = (rparent del_tree)(NIL := 20, 20 := 30, 30 := 50)"
   unfolding e by (simp_all add: set_defs del_mid_fields) (simp_all add: fun_eq_iff NIL_def)
qed

lemma del_run: "RBTreeDeleteNode 10 del_tree = Some (set_color 50 BLACK del_end)"
  unfolding del_start del_mid_color by (simp add: del_end_def [symmetric] del_end_fields Let_def)

lemma del_unbalanced: "\<not> rb_tree (set_color 50 BLACK del_end) W"
proof
  let ?W = "Node (Node (Node Leaf 20 Leaf) 30 (Node Leaf 40 Leaf)) 50 (Node (Node Leaf 60 Leaf) 70 (Node Leaf 80 Leaf))"
  assume rb: "rb_tree (set_color 50 BLACK del_end) W"
  have "tree_at del_end NIL 50 ?W" unfolding tree_at.simps del_end_fields by (simp add: del_tree_def NIL_def)
  moreover have "tree_at del_end NIL 50 W" using rb by (simp add: rb_tree_def del_end_fields(1))
  ultimately have "W = ?W" by (rule tree_at_unique [symmetric])
  then show False using rb by (simp add: rb_tree_def del_end_fields del_tree_def)
qed

section \<open>Properties\<close>

text \<open>C26: \<^verbatim>\<open>RBTreeInsert\<close> ends, the tree stays a red-black search tree, and its nodes in order are the old ones with the
  new node behind the last one whose key is not greater; the height stays
  at most twice the logarithm of the size.\<close>

theorem RBTreeInsert_correct:
  assumes "rb_tree t W" "search_tree t W" "new_node t n" "n \<notin> set_tree W"
  shows "\<exists>t' W'. RBTreeInsert n t = Some t' \<and> rb_tree t' W' \<and> search_tree t' W' \<and> rkey t' = rkey t \<and>
    inorder W' = takeWhile (\<lambda>x. rkey t x \<le> rkey t n) (inorder W) @ n # dropWhile (\<lambda>x. rkey t x \<le> rkey t n) (inorder W) \<and>
    2 ^ height W' \<le> (size1 W')\<^sup>2"
proof -
  have s: "sorted (map (rkey t) (inorder W))" using assms(2) by (simp add: search_tree_def)
  obtain t' W' where r: "RBTreeInsert n t = Some t'" "rb_tree t' W'" "inorder W' = inorder (ins (rkey t) n W)" "rkey t' = rkey t"
    using insert_run assms by blast
  then show ?thesis using inorder_ins [OF s, of n] sorted_insert_after [OF s, of n] rb_height by (auto simp: search_tree_def)
qed

theorem RBTreeInsert_correct_witness:
  "\<exists>t' W'. RBTreeInsert 40 ex_tree = Some t' \<and> rb_tree t' W' \<and> search_tree t' W' \<and> inorder W' = [10, 20, 30, 40]"
proof -
  have e: "inorder ex_shape = [10, 20, 30]" "rkey ex_tree = id" by (simp_all add: ex_shape_def ex_tree_def)
  show ?thesis using RBTreeInsert_correct [of ex_tree ex_shape 40] ex_insert unfolding e by auto
qed

text \<open>\<^verbatim>\<open>RBTreeSearch\<close> ends on every red-black search tree and gives a node with the key exactly when there is one.\<close>

theorem RBTreeSearch_correct:
  assumes "rb_tree t W" "search_tree t W"
  shows "\<exists>x. RBTreeSearch t key = Some x \<and> (if key \<in> rkey t ` set_tree W then x \<in> set_tree W \<and> rkey t x = key else x = NIL)"
  using search_from_correct [of t NIL "root t" W key] assms by (simp add: RBTreeSearch_def rb_tree_def search_tree_def)

theorem RBTreeSearch_correct_witness:
  "RBTreeSearch ex_tree 30 = Some 30 \<and> RBTreeSearch ex_tree 25 = Some NIL"
  using RBTreeSearch_correct [of ex_tree ex_shape 30] RBTreeSearch_correct [of ex_tree ex_shape 25] ex_insert
  by (auto simp: ex_tree_def ex_shape_def)

text \<open>C27: after the deletion of a node the tree need not be balanced: \<^verbatim>\<open>RBTreeDeleteFixup\<close> paints the sibling red where it
  should take the colour of the parent.\<close>

theorem delete_breaks_balance:
  "\<exists>t W n t'. rb_tree t W \<and> search_tree t W \<and> n \<in> set_tree W \<and> RBTreeDeleteNode n t = Some t' \<and> (\<nexists>W'. rb_tree t' W')"
proof -
  have "search_tree del_tree del_shape" "10 \<in> set_tree del_shape" by (simp_all add: search_tree_def del_tree_def del_shape_def)
  then show ?thesis using del_pre del_run del_unbalanced by blast
qed

end
