(* ===== verification/Umalloc.thy ===== *)
theory Umalloc
  imports Rbtree KList
begin

text \<open>
  The allocator of the user programs (user/umalloc.c, include/malloc.h).

  A \<^verbatim>\<open>struct mm_node\<close> in front of every block is linked into the red-black tree of free blocks, whose key is the size,
  and into a list in the order of addresses; the address of the \<^verbatim>\<open>mm_node\<close> names both embedded nodes.
  The answers of the system call \<^verbatim>\<open>sbrk\<close> are a parameter, a function from the size and the state of the kernel to the
  address, 0 for a failure, and the new state.
\<close>

datatype mm_link = MHead | MNode u32

fun mm_entry :: "mm_link \<Rightarrow> u32 option" where
  "mm_entry (MNode n) = Some n"
| "mm_entry MHead = None"

record umem =
  mm_rbtree :: rbtree
  mm_list :: "mm_link list_heap"
  busy :: "u32 \<Rightarrow> bool"
  firsttime :: bool

definition U_PGSIZE :: u32 where "U_PGSIZE = 4096"

definition MMSIZE :: u32 where "MMSIZE = 32"

definition IS_LEFT_SIBLING :: "umem \<Rightarrow> u32 \<Rightarrow> u32 \<Rightarrow> bool" where
  "IS_LEFT_SIBLING s n ln \<longleftrightarrow> ln + MMSIZE + rkey (mm_rbtree s) ln = n"

definition IS_RIGHT_SIBLING :: "umem \<Rightarrow> u32 \<Rightarrow> u32 \<Rightarrow> bool" where
  "IS_RIGHT_SIBLING s n rn \<longleftrightarrow> rn - MMSIZE - rkey (mm_rbtree s) n = n"

text \<open>The descent of \<^verbatim>\<open>MallocSearch\<close>: the node with the key, or the last node and whether the way ended on its left.\<close>

partial_function (option) best_from :: "rbtree \<Rightarrow> u32 \<Rightarrow> u32 \<Rightarrow> u32 \<Rightarrow> bool \<Rightarrow> (u32 + u32 \<times> bool) option" where
  "best_from t key ty tx left =
     (if tx = NIL then Some (Inr (ty, left))
      else if rkey t tx < key then best_from t key tx (rright t tx) False
      else if key < rkey t tx then best_from t key tx (rleft t tx) True
      else Some (Inl tx))"

definition MallocSearch :: "rbtree \<Rightarrow> u32 \<Rightarrow> u32 option" where
  "MallocSearch t key =
     (if root t = NIL then Some NIL
      else do {
        r \<leftarrow> best_from t key NIL (root t) False;
        case r of Inl n \<Rightarrow> Some n
        | Inr (ty, left) \<Rightarrow> if left then Some ty else RBNodeSucceeder t ty
      })"

definition upd_rb :: "(rbtree \<Rightarrow> rbtree) \<Rightarrow> umem \<Rightarrow> umem" where
  "upd_rb f s = s\<lparr>mm_rbtree := f (mm_rbtree s)\<rparr>"

definition rb_insert :: "u32 \<Rightarrow> umem \<Rightarrow> umem option" where
  "rb_insert n s = map_option (\<lambda>t. s\<lparr>mm_rbtree := t\<rparr>) (RBTreeInsert n (mm_rbtree s))"

definition rb_delete :: "u32 \<Rightarrow> umem \<Rightarrow> umem option" where
  "rb_delete n s = map_option (\<lambda>t. s\<lparr>mm_rbtree := t\<rparr>) (RBTreeDeleteNode n (mm_rbtree s))"

definition set_busy :: "u32 \<Rightarrow> bool \<Rightarrow> umem \<Rightarrow> umem" where
  "set_busy n b s = s\<lparr>busy := (busy s)(n := b)\<rparr>"

definition upd_list :: "(mm_link list_heap \<Rightarrow> mm_link list_heap option) \<Rightarrow> umem \<Rightarrow> umem option" where
  "upd_list f s = map_option (\<lambda>l. s\<lparr>mm_list := l\<rparr>) (f (mm_list s))"

definition key_of :: "umem \<Rightarrow> u32 \<Rightarrow> u32" where "key_of s n = rkey (mm_rbtree s) n"

text \<open>The node that was found is taken from the tree; what it does not need becomes a new free block.\<close>

definition take_block :: "u32 \<Rightarrow> u32 \<Rightarrow> umem \<Rightarrow> (u32 \<times> umem) option" where
  "take_block sz mn s = do {
     s \<leftarrow> rb_delete mn s;
     s \<leftarrow> (if sz + MMSIZE < key_of s mn then do {
              let smn = mn + MMSIZE + sz;
              let s = set_busy smn False s;
              let s = upd_rb (rbnode_init smn (key_of s mn - sz - MMSIZE) RED) s;
              s \<leftarrow> upd_list (list_add (MNode smn) (MNode mn)) s;
              s \<leftarrow> rb_insert smn s;
              Some (upd_rb (set_key mn (key_of s mn - (key_of s smn + MMSIZE))) s)
            }
            else Some s);
     Some (mn + MMSIZE, set_busy mn True s)
   }"

partial_function (option) malloc_search :: "(u32 \<Rightarrow> 'k \<Rightarrow> u32 \<times> 'k) \<Rightarrow> u32 \<Rightarrow> umem \<Rightarrow> 'k \<Rightarrow> (u32 \<times> umem \<times> 'k) option" where
  "malloc_search sbrk sz s k = do {
     trb \<leftarrow> MallocSearch (mm_rbtree s) sz;
     if trb \<noteq> NIL then do { (p, s) \<leftarrow> take_block sz trb s; Some (p, s, k) }
     else do {
       let tsize = ROUNDUP (sz + MMSIZE) U_PGSIZE;
       let (mn, k) = sbrk tsize k;
       if mn = 0 then Some (0, s, k)
       else do {
         let s = set_busy mn False s;
         let s = upd_rb (rbnode_init mn (tsize - MMSIZE) RED) s;
         s \<leftarrow> upd_list (list_add_tail (MNode mn) MHead) s;
         s \<leftarrow> rb_insert mn s;
         malloc_search sbrk sz s k
       }
     }
   }"

definition malloc :: "(u32 \<Rightarrow> 'k \<Rightarrow> u32 \<times> 'k) \<Rightarrow> u32 \<Rightarrow> umem \<Rightarrow> 'k \<Rightarrow> (u32 \<times> umem \<times> 'k) option" where
  "malloc sbrk sz s k =
     (let s = (if firsttime s
               then s\<lparr>mm_rbtree := rbtree_init (mm_rbtree s), mm_list := LIST_HEAD_INIT MHead (mm_list s), firsttime := False\<rparr>
               else s)
      in malloc_search sbrk sz s k)"

text \<open>A free block directly in front of or behind \<open>mn\<close>.\<close>

definition find_siblings :: "umem \<Rightarrow> u32 \<Rightarrow> u32 option option" where
  "find_siblings s mn = do {
     ln \<leftarrow> lprev (mm_list s) (MNode mn);
     if (case mm_entry ln of Some l \<Rightarrow> IS_LEFT_SIBLING s mn l \<and> \<not> busy s l | None \<Rightarrow> False) then Some (mm_entry ln)
     else do {
       rn \<leftarrow> lnext (mm_list s) (MNode mn);
       Some (if (case mm_entry rn of Some r \<Rightarrow> IS_RIGHT_SIBLING s mn r \<and> \<not> busy s r | None \<Rightarrow> False) then mm_entry rn else None)
     }
   }"

definition merge_right :: "u32 \<Rightarrow> u32 \<Rightarrow> umem \<Rightarrow> umem option" where
  "merge_right mn smn s = do {
     s \<leftarrow> upd_list (list_del (MNode smn)) s;
     let s = set_busy mn False s;
     let s = upd_rb (set_color mn RED) s;
     let s = upd_rb (set_key mn (key_of s mn + (MMSIZE + key_of s smn))) s;
     rb_insert mn s
   }"

definition merge_left :: "u32 \<Rightarrow> u32 \<Rightarrow> umem \<Rightarrow> umem option" where
  "merge_left mn smn s = do {
     s \<leftarrow> upd_list (list_del (MNode mn)) s;
     let s = upd_rb (set_color smn RED) s;
     let s = upd_rb (set_key smn (key_of s smn + (MMSIZE + key_of s mn))) s;
     rb_insert smn s
   }"

partial_function (option) free_loop :: "u32 \<Rightarrow> umem \<Rightarrow> (u32 \<times> umem) option" where
  "free_loop mn s = do {
     sib \<leftarrow> find_siblings s mn;
     case sib of None \<Rightarrow> Some (mn, s)
     | Some smn \<Rightarrow> do {
         s \<leftarrow> rb_delete smn s;
         if mn < smn then do { s \<leftarrow> merge_right mn smn s; free_loop mn s }
         else do { s \<leftarrow> merge_left mn smn s; free_loop smn s }
       }
   }"

definition free :: "u32 \<Rightarrow> umem \<Rightarrow> umem option" where
  "free ptr s = do {
     (mn, s) \<leftarrow> free_loop (ptr - MMSIZE) s;
     if busy s mn then rb_insert mn (set_busy mn False s) else Some s
   }"

declare best_from.simps [code] malloc_search.simps [code] free_loop.simps [code]

end
