(* ===== verification/Umalloc_Props.thy ===== *)
theory Umalloc_Props
  imports Umalloc Rbtree_Props
begin

text \<open>The search of the user allocator is best fit; runs of the allocator.\<close>

section \<open>The nodes in front of and behind the hole of a path\<close>

fun before :: "path \<Rightarrow> u32 list" where
  "before [] = []"
| "before ((True, x, r) # c) = before c"
| "before ((False, x, l) # c) = before c @ inorder l @ [x]"

fun after :: "path \<Rightarrow> u32 list" where
  "after [] = []"
| "after ((True, x, r) # c) = x # inorder r @ after c"
| "after ((False, x, l) # c) = after c"

definition first_of :: "u32 list \<Rightarrow> u32" where "first_of xs = (case xs of [] \<Rightarrow> NIL | x # _ \<Rightarrow> x)"

lemma first_of_simps [simp]: "first_of [] = NIL" "first_of (x # xs) = x"
  by (simp_all add: first_of_def)

lemma inorder_split: "inorder (fill T c) = before c @ inorder T @ after c"
  by (induction T c rule: fill.induct) auto

text \<open>Climbing from a node without a right subtree leads to the node behind it.\<close>

lemma climb_after:
  assumes "path_at t x c" "tree_at t (up c) x T" "T \<noteq> Leaf" "distinct (inorder T @ path_nodes c)"
  shows "climb t x = Some (first_of (after c))"
  using assms
proof (induction c arbitrary: x T)
  case Nil
  then have "rparent t x = NIL" by (cases T) auto
  then show ?case by (simp add: climb.simps)
next
  case (Cons e c)
  obtain b p s where e: "e = (b, p, s)" by (cases e)
  note st = path_step [OF Cons.prems(1) [unfolded e]]
  have x: "x \<in> set_tree T" "x \<noteq> NIL" "rparent t x = p" using Cons.prems(2,3) e by (cases T; auto)+
  show ?case
  proof (cases b)
    case True
    have "x \<noteq> tip s" using x Cons.prems(4) e tip_in [of s] by (cases s) auto
    then show ?thesis using True e st(1,2,5) x by (simp add: climb.simps)
  next
    case False
    have "climb t p = Some (first_of (after c))"
    proof (rule Cons.IH)
      show "path_at t p c" by (rule st(8))
      show "tree_at t (up c) p (Node s p T)" using st(3-7) False Cons.prems(2) e by simp
      show "distinct (inorder (Node s p T) @ path_nodes c)" using Cons.prems(4) e by auto
    qed simp
    then show ?thesis using False e st(3,5) x by (simp add: climb.simps [of t x])
  qed
qed

section \<open>Best fit\<close>

lemma best_from_correct:
  assumes "tree_at t (up c) p T" "path_at t p c" "sorted (map (rkey t) (inorder (fill T c)))"
    "\<forall>x \<in> set (before c). rkey t x < key" "\<forall>x \<in> set (after c). key < rkey t x"
    "c = [] \<longrightarrow> T \<noteq> Leaf" "\<And>b x s c'. c = (b, x, s) # c' \<Longrightarrow> lf = b"
  shows "(\<exists>x \<in> set_tree (fill T c). best_from t key (up c) p lf = Some (Inl x) \<and> rkey t x = key) \<or>
    (\<exists>b x s c'. best_from t key (up c) p lf = Some (Inr (x, b)) \<and> fill Leaf ((b, x, s) # c') = fill T c \<and> path_at t NIL ((b, x, s) # c') \<and>
       (\<forall>x \<in> set (before ((b, x, s) # c')). rkey t x < key) \<and> (\<forall>x \<in> set (after ((b, x, s) # c')). key < rkey t x))"
  using assms
proof (induction T arbitrary: c p lf)
  case Leaf
  then obtain b x s c' where c: "c = (b, x, s) # c'" by (cases c) auto
  have "lf = b" by (rule Leaf.prems(7) [OF c])
  then show ?case using Leaf.prems c by (auto simp: best_from.simps)
next
  case (Node l y r)
  have so: "sorted (map (rkey t) (before c @ inorder l @ y # inorder r @ after c))" using Node.prems(3) unfolding inorder_split by simp
  have f: "p = y" "y \<noteq> NIL" "rparent t y = up c" "tree_at t y (rleft t y) l" "tree_at t y (rright t y) r" using Node.prems(1) by auto
  consider "rkey t y < key" | "key < rkey t y" | "rkey t y = key" by fastforce
  then show ?case
  proof cases
    case 1
    have run: "best_from t key (up c) p lf = best_from t key y (rright t y) False" using 1 f by (subst best_from.simps) simp
    have lt: "\<forall>x \<in> set (before ((False, y, l) # c)). rkey t x < key"
      using 1 so Node.prems(4) by (auto simp: sorted_append intro: le_less_trans)
    show ?thesis
      using Node.IH(2) [of "(False, y, l) # c" "rright t y" False] Node.prems f lt unfolding run by simp
  next
    case 2
    then have "\<not> rkey t y < key" by simp
    then have run: "best_from t key (up c) p lf = best_from t key y (rleft t y) True" using 2 f by (subst best_from.simps) simp
    have gt: "\<forall>x \<in> set (after ((True, y, r) # c)). key < rkey t x"
      using 2 so Node.prems(5) by (auto simp: sorted_append intro: less_le_trans)
    show ?thesis
      using Node.IH(1) [of "(True, y, r) # c" "rleft t y" True] Node.prems f gt unfolding run by simp
  next
    case 3
    then have "best_from t key (up c) p lf = Some (Inl y)" using f by (subst best_from.simps) simp
    then show ?thesis using 3 by (auto simp: set_fill)
  qed
qed

text \<open>When the descent ends at a leaf, the node behind the leaf is the one that is wanted.\<close>

lemma search_leaf:
  assumes "path_at t NIL ((b, x, s) # c)" "distinct (path_nodes ((b, x, s) # c))"
  shows "(if b then Some x else RBNodeSucceeder t x) = Some (first_of (after ((b, x, s) # c)))"
proof (cases b)
  case True
  then show ?thesis by simp
next
  case False
  note st = path_step [OF assms(1)]
  have "climb t x = Some (first_of (after c))"
  proof (rule climb_after [OF st(8)])
    show "tree_at t (up c) x (Node s x Leaf)" using st(3-7) False by simp
    show "distinct (inorder (Node s x Leaf) @ path_nodes c)" using assms(2) by auto
  qed simp
  then show ?thesis using False st(3) by (simp add: RBNodeSucceeder_def)
qed

lemma first_of_least:
  fixes kf :: "u32 \<Rightarrow> u32"
  assumes "sorted (map kf xs)" "xs \<noteq> []"
  shows "first_of xs \<in> set xs \<and> (\<forall>y \<in> set xs. kf (first_of xs) \<le> kf y)"
  using assms by (cases xs) auto

text \<open>C28: \<^verbatim>\<open>MallocSearch\<close> ends on every red-black search tree of free blocks and finds a best fit: a block that is large
  enough, and no smaller one is.\<close>

theorem MallocSearch_best_fit:
  assumes "rb_tree t W" "search_tree t W"
  shows "\<exists>x. MallocSearch t sz = Some x \<and>
    (if \<exists>y \<in> set_tree W. sz \<le> rkey t y
     then x \<in> set_tree W \<and> sz \<le> rkey t x \<and> (\<forall>y \<in> set_tree W. sz \<le> rkey t y \<longrightarrow> rkey t x \<le> rkey t y)
     else x = NIL)"
proof -
  have w: "tree_at t NIL (root t) W" "distinct (inorder W)" "sorted (map (rkey t) (inorder W))"
    using assms by (simp_all add: rb_tree_def search_tree_def)
  show ?thesis
  proof (cases "W = Leaf")
    case True
    then show ?thesis using w(1) by (simp add: MallocSearch_def)
  next
    case False
    then have rt: "root t \<noteq> NIL" using w(1) by (cases W) auto
    consider (exact) x where "x \<in> set_tree W" "best_from t sz NIL (root t) False = Some (Inl x)" "rkey t x = sz"
      | (leaf) b x s c where "best_from t sz NIL (root t) False = Some (Inr (x, b))" "fill Leaf ((b, x, s) # c) = W" "path_at t NIL ((b, x, s) # c)"
        "\<forall>x \<in> set (before ((b, x, s) # c)). rkey t x < sz" "\<forall>x \<in> set (after ((b, x, s) # c)). sz < rkey t x"
      using best_from_correct [of t "[]" "root t" W sz False] w(1,3) False by auto
    then show ?thesis
    proof cases
      case exact
      then show ?thesis using rt by (auto simp: MallocSearch_def)
    next
      case leaf
      let ?c = "(b, x, s) # c"
      have io: "inorder W = before ?c @ after ?c" using inorder_split [of Leaf ?c] leaf(2) by simp
      have "distinct (path_nodes ?c)" using distinct_fill [of Leaf ?c] leaf(2) w(2) by simp
      then have run: "MallocSearch t sz = Some (first_of (after ?c))"
        using search_leaf [OF leaf(3)] leaf(1) rt by (simp add: MallocSearch_def)
      have st: "set_tree W = set (before ?c) \<union> set (after ?c)" using io by (metis set_append set_inorder)
      have so: "sorted (map (rkey t) (after ?c))" using w(3) io by (simp add: sorted_append)
      show ?thesis
      proof (cases "after ?c = []")
        case True
        then show ?thesis unfolding run st using leaf(4) by fastforce
      next
        case False
        note least = first_of_least [OF so False]
        have "sz \<le> rkey t y \<Longrightarrow> y \<in> set_tree W \<Longrightarrow> y \<in> set (after ?c)" for y using st leaf(4) by fastforce
        moreover have "first_of (after ?c) \<in> set_tree W \<and> sz \<le> rkey t (first_of (after ?c))"
          using least leaf(5) st by (simp add: less_imp_le)
        ultimately show ?thesis unfolding run using least by (metis (no_types, lifting))
      qed
    qed
  qed
qed

theorem MallocSearch_best_fit_witness:
  "(\<exists>x. MallocSearch ex_tree 15 = Some x \<and> x \<in> {10, 20, 30} \<and> 15 \<le> x \<and> x \<le> 20) \<and> MallocSearch ex_tree 31 = Some NIL"
  using MallocSearch_best_fit [of ex_tree ex_shape 15] MallocSearch_best_fit [of ex_tree ex_shape 31] ex_insert
  by (auto simp: ex_tree_def ex_shape_def)

section \<open>A node that is inserted twice\<close>

text \<open>A node that is its own parent and child keeps the loop of \<^verbatim>\<open>RBTreeInsertFixup\<close> going.\<close>

definition self_linked :: "u32 \<Rightarrow> rbtree \<Rightarrow> bool" where
  "self_linked n t \<longleftrightarrow> rcolor t n = RED \<and> rparent t n = n \<and> rleft t n = n \<and> rright t n = n"

lemma fixup_self_linked:
  assumes "RBTreeInsertFixup n t = Some r"
  shows "\<not> self_linked n t"
proof (rule RBTreeInsertFixup.raw_induct [where P = "\<lambda>n t r. \<not> self_linked n t", OF _ assms], rule notI)
  fix fixup :: "u32 \<Rightarrow> rbtree \<Rightarrow> rbtree option" and n :: u32 and t r :: rbtree
  assume IH: "\<And>n t r. fixup n t = Some r \<Longrightarrow> \<not> self_linked n t" and s: "self_linked n t"
  assume e: "(if rcolor t (rparent t n) = RED then
        let p = rparent t n; g = rparent t p in
        if p = rleft t g then
          let y = rright t g in
          if rcolor t y = RED then fixup g (set_color g RED (set_color y BLACK (set_color p BLACK t)))
          else
            let (n, t) = (if n = rright t p then (p, LeftRotate p t) else (n, t));
                t = set_color (rparent t n) BLACK t;
                t = set_color (rparent t (rparent t n)) RED t
            in fixup n (RightRotate (rparent t (rparent t n)) t)
        else
          let y = rleft t g in
          if rcolor t y = RED then fixup g (set_color g RED (set_color y BLACK (set_color p BLACK t)))
          else
            let (n, t) = (if n = rleft t p then (p, RightRotate p t) else (n, t));
                t = set_color (rparent t n) BLACK t;
                t = set_color (rparent t (rparent t n)) RED t
            in fixup n (LeftRotate (rparent t (rparent t n)) t)
      else Some (set_color (root t) BLACK t)) = Some r"
  have "fixup n (set_color n RED (set_color n BLACK (set_color n BLACK t))) = Some r" using e s by (simp add: self_linked_def Let_def)
  moreover have "self_linked n (set_color n RED (set_color n BLACK (set_color n BLACK t)))" using s by (simp add: self_linked_def)
  ultimately show False using IH by blast
qed

text \<open>The only node of the tree is inserted again.\<close>

lemma reinsert_loops:
  assumes "root t = n" "n \<noteq> NIL" "rleft t n = NIL" "rright t n = NIL" "rcolor t n = RED" "rcolor t NIL = BLACK"
  shows "RBTreeInsert n t = None"
proof -
  let ?t = "set_right n n (set_parent n n t)" and ?t2 = "set_color n RED (set_color n BLACK (set_right n n (set_parent n n t)))"
  have "insert_pos t (rkey t n) NIL n = Some n"
    using assms insert_pos.simps [of t "rkey t n" n NIL] by (simp add: insert_pos.simps [of t "rkey t n" NIL n])
  then have run: "RBTreeInsert n t = RBTreeInsertFixup n ?t"
    using assms by (simp add: RBTreeInsert_link link_leaf_def set_defs)
  have rot: "self_linked n (LeftRotate n ?t2)"
    using assms by (simp add: LeftRotate_def relink_def self_linked_def set_defs Let_def)
  have "RBTreeInsertFixup n ?t = RBTreeInsertFixup n (LeftRotate n ?t2)"
    using assms by (subst RBTreeInsertFixup.simps) (simp add: Let_def set_defs)
  then show ?thesis using fixup_self_linked [of n "LeftRotate n ?t2"] rot run by (cases "RBTreeInsertFixup n (LeftRotate n ?t2)") auto
qed

section \<open>Runs of the allocator\<close>

text \<open>A kernel that always grants memory: the state is the end of the heap.\<close>

definition grant :: "u32 \<Rightarrow> u32 \<Rightarrow> u32 \<times> u32" where "grant n k = (k, k + n)"

definition fresh_umem :: umem where
  "fresh_umem = \<lparr>mm_rbtree = \<lparr>root = 0, rcolor = (\<lambda>_. RED), rkey = (\<lambda>_. 0), rleft = (\<lambda>_. 0), rright = (\<lambda>_. 0), rparent = (\<lambda>_. 0)\<rparr>,
     mm_list = \<lparr>lnext = (\<lambda>_. None), lprev = (\<lambda>_. None)\<rparr>, busy = (\<lambda>_. False), firsttime = True\<rparr>"

text \<open>Three blocks that fill a page; the outer ones are released.\<close>

definition outer_released :: "(u32 \<times> umem) option" where
  "outer_released = do {
     (a, s, k) \<leftarrow> malloc grant 100 fresh_umem 4096;
     (b, s, k) \<leftarrow> malloc grant 100 s k;
     (c, s, k) \<leftarrow> malloc grant 3800 s k;
     s \<leftarrow> free a s;
     s \<leftarrow> free c s;
     Some (b, s)
   }"

text \<open>The state in which \<^verbatim>\<open>free\<close> has merged \<open>mn\<close> with both neighbours.\<close>

definition merged_twice :: "umem \<Rightarrow> u32 \<Rightarrow> u32 \<Rightarrow> u32 \<Rightarrow> umem option" where
  "merged_twice s mn l r = do {
     sib \<leftarrow> find_siblings s mn;
     s \<leftarrow> (if sib = Some l \<and> \<not> mn < l then rb_delete l s else None);
     s \<leftarrow> merge_left mn l s;
     sib \<leftarrow> find_siblings s l;
     s \<leftarrow> (if sib = Some r \<and> l < r then rb_delete r s else None);
     upd_list (list_del (MNode r)) s
   }"

definition only_node :: "u32 \<Rightarrow> rbtree \<Rightarrow> bool" where
  "only_node n t \<longleftrightarrow> root t = n \<and> n \<noteq> NIL \<and> rleft t n = NIL \<and> rright t n = NIL \<and> rcolor t NIL = BLACK"

lemma free_merged_twice:
  assumes "merged_twice s mn l r = Some s'" "only_node l (mm_rbtree s')"
  shows "free (mn + MMSIZE) s = None"
proof -
  obtain s1 s2 s3 where m: "find_siblings s mn = Some (Some l)" "\<not> mn < l" "rb_delete l s = Some s1" "merge_left mn l s1 = Some s2"
    "find_siblings s2 l = Some (Some r)" "l < r" "rb_delete r s2 = Some s3" "upd_list (list_del (MNode r)) s3 = Some s'"
    using assms(1) by (auto simp: merged_twice_def split: Option.bind_splits if_splits)
  have "NIL \<noteq> l" using assms(2) by (auto simp: only_node_def)
  then have "merge_right l r s3 = None"
    using assms(2) m(8) reinsert_loops [of "mm_rbtree (upd_rb (set_key l (key_of s' l + (MMSIZE + key_of s' r))) (upd_rb (set_color l RED) (set_busy l False s')))" l]
    by (simp add: merge_right_def rb_insert_def only_node_def upd_rb_def set_busy_def set_defs key_of_def Let_def)
  then have "free_loop l s2 = None" using m by (subst free_loop.simps) simp
  then have "free_loop mn s = None" using m by (subst free_loop.simps) simp
  then show ?thesis by (simp add: free_def)
qed

lemma outer_released_run:
  "case outer_released of None \<Rightarrow> False | Some (b, s) \<Rightarrow>
     (case merged_twice s (b - MMSIZE) 4096 4360 of None \<Rightarrow> False | Some s' \<Rightarrow> only_node 4096 (mm_rbtree s'))"
  by code_simp

text \<open>C29: the release of a block between two free blocks does not return: the block merged with its left neighbour is
  already in the tree when it is inserted again after the merge with the right one.\<close>

theorem free_between_free_blocks_hangs: "\<exists>b s. outer_released = Some (b, s) \<and> free b s = None"
proof -
  obtain b s s' where "outer_released = Some (b, s)" "merged_twice s (b - MMSIZE) 4096 4360 = Some s'" "only_node 4096 (mm_rbtree s')"
    using outer_released_run by (auto split: option.splits prod.splits)
  then show ?thesis using free_merged_twice [of s "b - MMSIZE" 4096 4360 s'] by auto
qed

text \<open>The size of the request wraps around with its header: a block of almost the whole address space is handed out
  although the kernel was asked for nothing.\<close>

lemma malloc_huge_without_memory:
  "case malloc grant 0xFFFFFFE0 fresh_umem 4096 of None \<Rightarrow> False | Some (p, s, k) \<Rightarrow> p = 4128 \<and> k = 4096"
  by code_simp

end
