(* ===== verification/Syscall.thy ===== *)
theory Syscall
  imports Sched
begin

text \<open>
  The system call interface: the stubs of the user library (user/usys.c), the registers at the trap gate (kern/trap.c)
  and the dispatcher with the calls it implements itself (kern/syscall.c, include/syscall.h).

  The dispatcher is modelled by the kernel function that it calls with the converted arguments; the functions are
  modelled with their components.  Pointers and integers are words.
\<close>

type_synonym u16 = "16 word"

section \<open>Numbers of the calls\<close>

definition SYS_puts :: u32 where "SYS_puts = 0"
definition SYS_exit :: u32 where "SYS_exit = 1"
definition SYS_wait :: u32 where "SYS_wait = 2"
definition SYS_kill :: u32 where "SYS_kill = 3"
definition SYS_getpid :: u32 where "SYS_getpid = 4"
definition SYS_getppid :: u32 where "SYS_getppid = 5"
definition SYS_alarm :: u32 where "SYS_alarm = 6"
definition SYS_cancel_alarm :: u32 where "SYS_cancel_alarm = 7"
definition SYS_yield :: u32 where "SYS_yield = 8"
definition SYS_exofork :: u32 where "SYS_exofork = 9"
definition SYS_set_proc_trapframe :: u32 where "SYS_set_proc_trapframe = 10"
definition SYS_set_proc_pgfault_handler :: u32 where "SYS_set_proc_pgfault_handler = 11"
definition SYS_page_alloc :: u32 where "SYS_page_alloc = 12"
definition SYS_page_map :: u32 where "SYS_page_map = 13"
definition SYS_page_unmap :: u32 where "SYS_page_unmap = 14"
definition SYS_fork :: u32 where "SYS_fork = 15"
definition SYS_ipc_try_send :: u32 where "SYS_ipc_try_send = 16"
definition SYS_ipc_send :: u32 where "SYS_ipc_send = 17"
definition SYS_ipc_recv :: u32 where "SYS_ipc_recv = 18"
definition SYS_sbrk :: u32 where "SYS_sbrk = 19"
definition SYS_pipe :: u32 where "SYS_pipe = 20"
definition SYS_dup :: u32 where "SYS_dup = 21"
definition SYS_dup2 :: u32 where "SYS_dup2 = 22"
definition SYS_read :: u32 where "SYS_read = 23"
definition SYS_write :: u32 where "SYS_write = 24"
definition SYS_close :: u32 where "SYS_close = 25"
definition SYS_fstat :: u32 where "SYS_fstat = 26"
definition SYS_link :: u32 where "SYS_link = 27"
definition SYS_unlink :: u32 where "SYS_unlink = 28"
definition SYS_open :: u32 where "SYS_open = 29"
definition SYS_mkdir :: u32 where "SYS_mkdir = 30"
definition SYS_chdir :: u32 where "SYS_chdir = 31"
definition SYS_printf :: u32 where "SYS_printf = 32"
definition SYS_exec :: u32 where "SYS_exec = 33"
definition SYS_mknod :: u32 where "SYS_mknod = 34"
definition SYS_welcome :: u32 where "SYS_welcome = 35"
definition SYS_lsdir :: u32 where "SYS_lsdir = 36"
definition SYS_brk :: u32 where "SYS_brk = 37"

lemmas SYS_defs = SYS_puts_def SYS_exit_def SYS_wait_def SYS_kill_def SYS_getpid_def SYS_getppid_def SYS_alarm_def
  SYS_cancel_alarm_def SYS_yield_def SYS_exofork_def SYS_set_proc_trapframe_def SYS_set_proc_pgfault_handler_def
  SYS_page_alloc_def SYS_page_map_def SYS_page_unmap_def SYS_fork_def SYS_ipc_try_send_def SYS_ipc_send_def
  SYS_ipc_recv_def SYS_sbrk_def SYS_pipe_def SYS_dup_def SYS_dup2_def SYS_read_def SYS_write_def SYS_close_def
  SYS_fstat_def SYS_link_def SYS_unlink_def SYS_open_def SYS_mkdir_def SYS_chdir_def SYS_printf_def SYS_exec_def
  SYS_mknod_def SYS_welcome_def SYS_lsdir_def SYS_brk_def

section \<open>The dispatcher\<close>

text \<open>The functions that \<^verbatim>\<open>syscall\<close> calls.\<close>

datatype kcall =
    K_puts u32 | K_exit | K_wait | K_kill u32 | K_getpid | K_getppid | K_alarm u32 u32 | K_cancel_alarm | K_yield
  | K_dup_proc_struct u32 | K_set_proc_trapframe u32 u32 | K_set_proc_pgfault_handler u32 u32
  | K_user_page_alloc u32 u32 u32 | K_user_page_map u32 u32 u32 u32 u32 | K_user_page_upmap u32 u32
  | K_clone u32 | K_ipc_try_send u32 u32 u32 u32 | K_ipc_send u32 u32 u32 u32 | K_ipc_recv u32
  | K_sbrk u32 | K_pipe u32 | K_dup u32 | K_dup2 u32 u32 | K_read u32 u32 u32 | K_write u32 u32 u32 | K_close u32
  | K_fstat u32 u32 | K_link u32 u32 | K_unlink u32 | K_open u32 u32 | K_mkdir u32 | K_chdir u32
  | K_printf u32 u32 | K_exec u32 u32 | K_mknod u32 u16 u16 | K_welcome | K_ls_test u32 | K_brk u32

definition syscall :: "u32 \<Rightarrow> u32 \<Rightarrow> u32 \<Rightarrow> u32 \<Rightarrow> u32 \<Rightarrow> u32 \<Rightarrow> kcall option" where
  "syscall syscallno a1 a2 a3 a4 a5 =
     (if syscallno = SYS_puts then Some (K_puts a1)
      else if syscallno = SYS_exit then Some K_exit
      else if syscallno = SYS_wait then Some K_wait
      else if syscallno = SYS_kill then Some (K_kill a1)
      else if syscallno = SYS_getpid then Some K_getpid
      else if syscallno = SYS_getppid then Some K_getppid
      else if syscallno = SYS_alarm then Some (K_alarm a1 a2)
      else if syscallno = SYS_cancel_alarm then Some K_cancel_alarm
      else if syscallno = SYS_yield then Some K_yield
      else if syscallno = SYS_exofork then Some (K_dup_proc_struct 0)
      else if syscallno = SYS_set_proc_trapframe then Some (K_set_proc_trapframe a1 a2)
      else if syscallno = SYS_set_proc_pgfault_handler then Some (K_set_proc_pgfault_handler a1 a2)
      else if syscallno = SYS_page_alloc then Some (K_user_page_alloc a1 a2 a3)
      else if syscallno = SYS_page_map then Some (K_user_page_map a1 a2 a3 a4 a5)
      else if syscallno = SYS_page_unmap then Some (K_user_page_upmap a1 a2)
      else if syscallno = SYS_fork then Some (K_clone CLONE_FORK)
      else if syscallno = SYS_ipc_try_send then Some (K_ipc_try_send a1 a2 a3 a4)
      else if syscallno = SYS_ipc_send then Some (K_ipc_send a1 a2 a3 a4)
      else if syscallno = SYS_ipc_recv then Some (K_ipc_recv a1)
      else if syscallno = SYS_sbrk then Some (K_sbrk a1)
      else if syscallno = SYS_pipe then Some (K_pipe a1)
      else if syscallno = SYS_dup then Some (K_dup a1)
      else if syscallno = SYS_dup2 then Some (K_dup2 a1 a2)
      else if syscallno = SYS_read then Some (K_read a1 a2 a3)
      else if syscallno = SYS_write then Some (K_write a1 a2 a3)
      else if syscallno = SYS_close then Some (K_close a1)
      else if syscallno = SYS_fstat then Some (K_fstat a1 a2)
      else if syscallno = SYS_link then Some (K_link a1 a2)
      else if syscallno = SYS_unlink then Some (K_unlink a1)
      else if syscallno = SYS_open then Some (K_open a1 a2)
      else if syscallno = SYS_mkdir then Some (K_mkdir a1)
      else if syscallno = SYS_chdir then Some (K_chdir a1)
      else if syscallno = SYS_printf then Some (K_printf a1 a2)
      else if syscallno = SYS_exec then Some (K_exec a1 a2)
      else if syscallno = SYS_mknod then Some (K_mknod a1 (ucast a2) (ucast a2))
      else if syscallno = SYS_welcome then Some K_welcome
      else if syscallno = SYS_lsdir then Some (K_ls_test a1)
      else if syscallno = SYS_brk then Some (K_brk a1)
      else None)"

text \<open>\<^verbatim>\<open>struct pushregs\<close>, the saved registers, and the branch of \<^verbatim>\<open>trap\<close> for the system call gate.\<close>

record pushregs =
  edi :: u32
  esi :: u32
  ebp :: u32
  oesp :: u32
  ebx :: u32
  edx :: u32
  ecx :: u32
  eax :: u32

definition trap_syscall :: "pushregs \<Rightarrow> kcall option" where
  "trap_syscall r = syscall (eax r) (edx r) (ecx r) (ebx r) (edi r) (esi r)"

section \<open>The stubs of the user library\<close>

text \<open>The registers at the trap instruction; the others keep their contents.\<close>

definition usyscall :: "u32 \<Rightarrow> u32 \<Rightarrow> u32 \<Rightarrow> u32 \<Rightarrow> u32 \<Rightarrow> u32 \<Rightarrow> pushregs \<Rightarrow> pushregs" where
  "usyscall syscallno a1 a2 a3 a4 a5 r = r\<lparr>eax := syscallno, edx := a1, ecx := a2, ebx := a3, edi := a4, esi := a5\<rparr>"

datatype ucall =
    U_fork | U_exit | U_sbrk u32 | U_brk u32 | U_wait | U_kill u32 | U_exec u32 u32 | U_pipe u32 | U_dup u32 | U_dup2 u32 u32
  | U_read u32 u32 u32 | U_write u32 u32 u32 | U_close u32 | U_fstat u32 u32 | U_link u32 u32 | U_unlink u32 | U_open u32 u32
  | U_mknod u32 u16 u16 | U_mkdir u32 | U_chdir u32 | U_ipc_try_send u32 u32 u32 u32 | U_ipc_send u32 u32 u32 u32
  | U_ipc_recv u32 | U_getpid | U_welcome | U_ls u32

fun usys :: "ucall \<Rightarrow> pushregs \<Rightarrow> pushregs" where
  "usys U_fork = usyscall SYS_fork 0 0 0 0 0"
| "usys U_exit = usyscall SYS_exit 0 0 0 0 0"
| "usys (U_sbrk n) = usyscall SYS_sbrk n 0 0 0 0"
| "usys (U_brk heap_brk) = usyscall SYS_brk heap_brk 0 0 0 0"
| "usys U_wait = usyscall SYS_wait 0 0 0 0 0"
| "usys (U_kill i) = usyscall SYS_kill i 0 0 0 0"
| "usys (U_exec pathname argv) = usyscall SYS_exec pathname argv 0 0 0"
| "usys (U_pipe fd) = usyscall SYS_pipe fd 0 0 0 0"
| "usys (U_dup fd) = usyscall SYS_dup fd 0 0 0 0"
| "usys (U_dup2 oldfd newfd) = usyscall SYS_dup2 oldfd newfd 0 0 0"
| "usys (U_read fd des nbytes) = usyscall SYS_read fd des nbytes 0 0"
| "usys (U_write fd src nbytes) = usyscall SYS_write fd src nbytes 0 0"
| "usys (U_close fd) = usyscall SYS_close fd 0 0 0 0"
| "usys (U_fstat fd sbuf) = usyscall SYS_fstat sbuf 0 0 0 0"
| "usys (U_link oldpname newpname) = usyscall SYS_link oldpname newpname 0 0 0"
| "usys (U_unlink pathname) = usyscall SYS_unlink pathname 0 0 0 0"
| "usys (U_open pathname flag) = usyscall SYS_open pathname flag 0 0 0"
| "usys (U_mknod pathname major minor) = usyscall SYS_mknod pathname (ucast major) (ucast minor) 0 0"
| "usys (U_mkdir pathname) = usyscall SYS_mkdir pathname 0 0 0 0"
| "usys (U_chdir pathname) = usyscall SYS_chdir pathname 0 0 0 0"
| "usys (U_ipc_try_send i value srcva perm) = usyscall SYS_ipc_try_send i value srcva perm 0"
| "usys (U_ipc_send to_proc val pg perm) = usyscall SYS_ipc_send to_proc val pg perm 0"
| "usys (U_ipc_recv pg) = usyscall SYS_ipc_recv pg 0 0 0 0"
| "usys U_getpid = usyscall SYS_getpid 0 0 0 0 0"
| "usys U_welcome = usyscall SYS_welcome 0 0 0 0 0"
| "usys (U_ls path) = usyscall SYS_lsdir path 0 0 0 0"

section \<open>The calls that the dispatcher implements\<close>

text \<open>The vector of arguments of \<^verbatim>\<open>sys_exec\<close>; \<open>word_at\<close> reads the memory of the process.  \<open>None\<close> is the error -1.\<close>

definition MAXARG :: nat where "MAXARG = 32"

function exec_args :: "(u32 \<Rightarrow> u32) \<Rightarrow> u32 \<Rightarrow> nat \<Rightarrow> u32 list option" where
  "exec_args word_at uargv argc =
     (if MAXARG \<le> argc then None
      else let a = word_at (uargv + 4 * of_nat argc) in
        if a = 0 then (if argc = 0 then None else Some [])
        else map_option ((#) a) (exec_args word_at uargv (Suc argc)))"
  by auto
termination by (relation "measure (\<lambda>(_, _, argc). MAXARG - argc)") auto

definition sys_exec :: "(u32 \<Rightarrow> u32) \<Rightarrow> u32 \<Rightarrow> u32 \<Rightarrow> (u32 \<times> u32 list) option" where
  "sys_exec word_at pathname uargv =
     (if pathname = 0 \<or> uargv = 0 then None else map_option (\<lambda>argv. (pathname, argv)) (exec_args word_at uargv 0))"

definition sys_alarm :: "u32 \<Rightarrow> u32 \<Rightarrow> pstate \<Rightarrow> (int \<times> pstate) option" where
  "sys_alarm ticks handler s = do {
     p \<leftarrow> cpu_proc s;
     Some (0, upd_proc p (\<lambda>r. r\<lparr>alarmticks := ticks, alarmticks_left := ticks, alarmhandler := handler\<rparr>) s)
   }"

definition sys_cancel_alarm :: "pstate \<Rightarrow> (int \<times> pstate) option" where
  "sys_cancel_alarm s = do {
     p \<leftarrow> cpu_proc s;
     Some (0, upd_proc p (\<lambda>r. r\<lparr>alarmhandler := 0\<rparr>) s)
   }"

text \<open>The flags that \<^verbatim>\<open>sys_set_proc_trapframe\<close> gives to the process; \<open>tf\<close> is the rest of the trap frame.\<close>

definition EFLAGS_IOPL_0 :: u32 where "EFLAGS_IOPL_0 = 0"
definition EFLAGS_IF :: u32 where "EFLAGS_IF = 0x200"

definition sys_set_proc_trapframe :: "nat \<Rightarrow> 'tf \<times> u32 \<Rightarrow> (nat \<Rightarrow> 'tf \<times> u32) \<Rightarrow> pstate \<Rightarrow> (int \<times> (nat \<Rightarrow> 'tf \<times> u32)) option" where
  "sys_set_proc_trapframe i tf frames s = do {
     (e, d) \<leftarrow> pid2proc i True s;
     if e < 0 then Some (- E_BAD_PROC, frames)
     else do {
       p \<leftarrow> d;
       Some (0, frames(p := (fst tf, snd tf AND EFLAGS_IOPL_0)))
     }
   }"

text \<open>\<^verbatim>\<open>ipc_send\<close>: an error other than a receiver that does not wait ends the process.\<close>

definition ipc_send :: "nat \<Rightarrow> u32 \<Rightarrow> u32 \<Rightarrow> u32 \<Rightarrow> u32 option \<Rightarrow> bool \<Rightarrow> pstate \<Rightarrow> (int \<times> pstate) option" where
  "ipc_send to_proc val pg perm pte insert_ok s = do {
     let pg = (if pg = 0 then UTOP + 1 else pg);
     (r, s) \<leftarrow> ipc_try_send to_proc val pg perm pte insert_ok s;
     if r < 0 then
       if r = - E_IPC_NOT_RECV then Some (r, s)
       else do { s \<leftarrow> exit_proc s; Some (0, s) }
     else Some (0, s)
   }"

end
