(* ===== verification/Syscall_Props.thy ===== *)
theory Syscall_Props
  imports Syscall
begin

text \<open>The system call interface from the stubs to the kernel functions; the alarm; the arguments of \<^verbatim>\<open>exec\<close>.\<close>

section \<open>Stubs and dispatcher\<close>

text \<open>The kernel function that each stub is declared to call.\<close>

fun intended :: "ucall \<Rightarrow> kcall" where
  "intended U_fork = K_clone CLONE_FORK"
| "intended U_exit = K_exit"
| "intended (U_sbrk n) = K_sbrk n"
| "intended (U_brk b) = K_brk b"
| "intended U_wait = K_wait"
| "intended (U_kill i) = K_kill i"
| "intended (U_exec p argv) = K_exec p argv"
| "intended (U_pipe fd) = K_pipe fd"
| "intended (U_dup fd) = K_dup fd"
| "intended (U_dup2 old new) = K_dup2 old new"
| "intended (U_read fd buf n) = K_read fd buf n"
| "intended (U_write fd buf n) = K_write fd buf n"
| "intended (U_close fd) = K_close fd"
| "intended (U_fstat fd buf) = K_fstat fd buf"
| "intended (U_link old new) = K_link old new"
| "intended (U_unlink p) = K_unlink p"
| "intended (U_open p flag) = K_open p flag"
| "intended (U_mknod p major minor) = K_mknod p major minor"
| "intended (U_mkdir p) = K_mkdir p"
| "intended (U_chdir p) = K_chdir p"
| "intended (U_ipc_try_send i v pg perm) = K_ipc_try_send i v pg perm"
| "intended (U_ipc_send i v pg perm) = K_ipc_send i v pg perm"
| "intended (U_ipc_recv pg) = K_ipc_recv pg"
| "intended U_getpid = K_getpid"
| "intended U_welcome = K_welcome"
| "intended (U_ls p) = K_ls_test p"

lemma ucast_16_32 [simp]: "ucast (ucast (m :: u16) :: u32) = m"
  by (rule bit_word_eqI) (simp add: bit_simps)

lemma trap_usyscall: "trap_syscall (usyscall no a1 a2 a3 a4 a5 r) = syscall no a1 a2 a3 a4 a5"
  by (simp add: trap_syscall_def usyscall_def)

lemma mknod_dispatch: "syscall SYS_mknod p (ucast (ma :: u16)) (ucast (mi :: u16)) 0 0 = Some (K_mknod p ma ma)"
  by (simp add: syscall_def SYS_defs)

lemma fstat_dispatch: "syscall SYS_fstat buf 0 0 0 0 = Some (K_fstat buf 0)"
  by (simp add: syscall_def SYS_defs)

text \<open>C30: a stub of the user library reaches the kernel function that it stands for, with all arguments, except for
  \<^verbatim>\<open>fstat\<close>, which passes the buffer as the descriptor, and \<^verbatim>\<open>mknod\<close>, whose minor number becomes the major one.\<close>

theorem stub_reaches_kernel:
  "trap_syscall (usys u r) = Some (intended u) \<longleftrightarrow>
    (case u of U_fstat fd sbuf \<Rightarrow> fd = sbuf \<and> sbuf = 0 | U_mknod _ major minor \<Rightarrow> major = minor | _ \<Rightarrow> True)"
proof (cases u)
  case (U_mknod p major minor)
  then show ?thesis by (auto simp: trap_usyscall mknod_dispatch)
next
  case (U_fstat fd buf)
  then show ?thesis by (auto simp: trap_usyscall fstat_dispatch)
qed (simp_all add: trap_usyscall syscall_def SYS_defs)

section \<open>The alarm\<close>

text \<open>The process \<open>p\<close> after \<open>i\<close> timer ticks in user mode.\<close>

definition ticked :: "nat \<Rightarrow> nat \<Rightarrow> pstate \<Rightarrow> pstate" where
  "ticked p i s = ((\<lambda>s. snd (timer_alarm p s)) ^^ i) s"

lemma ticked_Suc: "ticked p (Suc i) s = snd (timer_alarm p (ticked p i s))"
  by (simp add: ticked_def)

lemma alarm_countdown:
  assumes "alarmhandler (proc_of s p) \<noteq> 0" "alarmticks (proc_of s p) = n" "alarmticks_left (proc_of s p) = n" "0 < n"
  shows "alarmhandler (proc_of (ticked p i s) p) \<noteq> 0 \<and> alarmticks (proc_of (ticked p i s) p) = n \<and>
    unat (alarmticks_left (proc_of (ticked p i s) p)) = unat n - i mod unat n"
proof (induction i)
  case 0
  then show ?case using assms by (simp add: ticked_def)
next
  case (Suc i)
  let ?s = "ticked p i s"
  let ?l = "alarmticks_left (proc_of ?s p)"
  have n: "0 < unat n" using assms(4) by (simp add: word_less_nat_alt)
  then have m: "i mod unat n < unat n" by simp
  have l: "unat (?l - 1) = unat n - i mod unat n - 1" using Suc m by (subst unat_minus_one) (auto simp: unat_eq_0)
  show ?case
  proof (cases "Suc (i mod unat n) = unat n")
    case True
    then have "?l - 1 = 0" using l by (simp add: unat_eq_0 flip: unat_0)
    then show ?thesis using Suc True by (simp add: ticked_Suc timer_alarm_def upd_proc_def Let_def mod_Suc)
  next
    case False
    then have "unat (?l - 1) \<noteq> 0" using l m by simp
    then have "?l - 1 \<noteq> 0" by auto
    then show ?thesis using Suc False l m by (simp add: ticked_Suc timer_alarm_def upd_proc_def Let_def mod_Suc)
  qed
qed

text \<open>C31: after \<^verbatim>\<open>sys_alarm\<close> with \<open>n > 0\<close> ticks and a handler, the timer enters the handler at every \<open>n\<close>-th tick, and at
  no other.\<close>

theorem alarm_period:
  assumes "sys_alarm n h s = Some (r, s')" "cpu_proc s = Some p" "0 < n" "h \<noteq> 0"
  shows "fst (timer_alarm p (ticked p i s')) \<longleftrightarrow> Suc i mod unat n = 0"
proof -
  have s': "alarmhandler (proc_of s' p) \<noteq> 0" "alarmticks (proc_of s' p) = n" "alarmticks_left (proc_of s' p) = n"
    using assms by (auto simp: sys_alarm_def upd_proc_def)
  note c = alarm_countdown [OF s' assms(3), of i]
  let ?l = "alarmticks_left (proc_of (ticked p i s') p)"
  have n: "0 < unat n" using assms(3) by (simp add: word_less_nat_alt)
  then have m: "i mod unat n < unat n" by simp
  have l: "unat (?l - 1) = unat n - i mod unat n - 1" using c m by (subst unat_minus_one) (auto simp: unat_eq_0)
  have "fst (timer_alarm p (ticked p i s')) \<longleftrightarrow> ?l - 1 = 0" using c by (simp add: timer_alarm_def upd_proc_def Let_def)
  also have "\<dots> \<longleftrightarrow> unat (?l - 1) = 0" by (simp add: unat_eq_0)
  also have "\<dots> \<longleftrightarrow> Suc (i mod unat n) = unat n" using l m by auto
  also have "\<dots> \<longleftrightarrow> Suc i mod unat n = 0" using m by (auto simp: mod_Suc)
  finally show ?thesis .
qed

definition alarm_example :: pstate where
  "alarm_example = \<lparr>ph = \<lparr>lnext = Some, lprev = Some\<rparr>, proc_of = (\<lambda>_. zero_proc), q_nprocs = (\<lambda>_. 0), q_bitmap = (\<lambda>_. 0),
     run_queue = 0, exhausted_queue = 1, cpu_proc = Some 5, jiffs = 0, id_bitmap = (\<lambda>_. 0), proc_table = (\<lambda>_. None),
     n_procs_alive = 1, rootproc = 5\<rparr>"

theorem alarm_period_witness:
  "\<exists>r s'. sys_alarm 3 4096 alarm_example = Some (r, s') \<and> \<not> fst (timer_alarm 5 (ticked 5 1 s')) \<and> fst (timer_alarm 5 (ticked 5 2 s')) \<and>
    \<not> fst (timer_alarm 5 (ticked 5 3 s')) \<and> fst (timer_alarm 5 (ticked 5 5 s'))"
proof -
  have c: "cpu_proc alarm_example = Some 5" by (simp add: alarm_example_def)
  then obtain s' where s': "sys_alarm 3 4096 alarm_example = Some (0, s')" by (simp add: sys_alarm_def)
  show ?thesis using s' alarm_period [OF s' c, of 1] alarm_period [OF s' c, of 2] alarm_period [OF s' c, of 3] alarm_period [OF s' c, of 5]
    by (simp add: word_less_def)
qed

section \<open>The arguments of exec\<close>

text \<open>A vector of words that ends with a null word.\<close>

definition vector_at :: "(u32 \<Rightarrow> u32) \<Rightarrow> u32 \<Rightarrow> nat \<Rightarrow> u32 list \<Rightarrow> bool" where
  "vector_at word_at p k xs \<longleftrightarrow> (\<forall>i < length xs. word_at (p + 4 * of_nat (k + i)) = xs ! i) \<and> 0 \<notin> set xs \<and>
     word_at (p + 4 * of_nat (k + length xs)) = 0"

lemma vector_at_Nil: "vector_at word_at p k [] \<longleftrightarrow> word_at (p + 4 * of_nat k) = 0"
  by (simp add: vector_at_def)

lemma vector_at_Cons:
  "vector_at word_at p k (x # xs) \<longleftrightarrow> word_at (p + 4 * of_nat k) = x \<and> x \<noteq> 0 \<and> vector_at word_at p (Suc k) xs"
  by (auto simp: vector_at_def All_less_Suc2 add_ac)

declare exec_args.simps [simp del]

lemma exec_args_vector:
  "exec_args word_at p k = Some xs \<longleftrightarrow> vector_at word_at p k xs \<and> k + length xs < MAXARG \<and> 0 < k + length xs"
proof (induction word_at p k arbitrary: xs rule: exec_args.induct)
  case (1 word_at p k)
  show ?case
  proof (cases "MAXARG \<le> k \<or> word_at (p + 4 * of_nat k) = 0")
    case True
    then show ?thesis by (subst exec_args.simps) (cases xs; auto simp: vector_at_Nil vector_at_Cons Let_def)
  next
    case False
    then have e: "exec_args word_at p k = map_option ((#) (word_at (p + 4 * of_nat k))) (exec_args word_at p (Suc k))"
      by (subst exec_args.simps) (simp add: Let_def)
    have IH: "exec_args word_at p (Suc k) = Some ys \<longleftrightarrow> vector_at word_at p (Suc k) ys \<and> Suc k + length ys < MAXARG \<and> 0 < Suc k + length ys" for ys
      by (rule 1) (use False in auto)
    show ?thesis using False unfolding e by (cases xs) (auto simp: vector_at_Nil vector_at_Cons IH)
  qed
qed

text \<open>\<^verbatim>\<open>sys_exec\<close> passes on a path and a vector of arguments exactly if the vector of the process is not empty and ends
  with a null pointer before its 32nd entry; the arguments are its entries in order.\<close>

theorem sys_exec_arguments:
  "sys_exec word_at pathname uargv = Some (pn, xs) \<longleftrightarrow>
    pathname \<noteq> 0 \<and> uargv \<noteq> 0 \<and> pn = pathname \<and> xs \<noteq> [] \<and> length xs < MAXARG \<and> vector_at word_at uargv 0 xs"
  by (auto simp: sys_exec_def exec_args_vector)

section \<open>The flags of a new trap frame\<close>

text \<open>The mask is 0, so that the process gets no flags at all and runs with interrupts disabled.\<close>

lemma set_proc_trapframe_disables_interrupts:
  assumes "sys_set_proc_trapframe i tf frames s = Some (0, frames')" "pid2proc i True s = Some (0, Some p)"
  shows "snd (frames' p) AND EFLAGS_IF = 0"
  using assms by (auto simp: sys_set_proc_trapframe_def EFLAGS_IOPL_0_def)

end
