(* ===== verification/Exec.thy ===== *)
theory Exec
  imports Vm Inode KString
begin

text \<open>
  Loading of programs: \<^verbatim>\<open>exec\<close> (kern/sysfunc.c), \<^verbatim>\<open>load_program\<close> (kern/pmap.c) and the headers of include/elf.h.

  The state puts together memory and processes (\<open>Vm\<close>) and the file system (\<open>Inode\<close>), which share nothing but the memory
  that is read into; the fields of the trap frame and the name of a process that \<^verbatim>\<open>exec\<close> writes are its own.  The
  path is the string that the pointer leads to; the arguments are read from the old address space as it is when
  the stack is built.  The load of the control register by \<^verbatim>\<open>switch_uvm\<close> is left out.
\<close>

record kern =
  kvm :: vm
  kfs :: fs
  tf_eip :: "nat \<Rightarrow> u32"
  tf_esp :: "nat \<Rightarrow> u32"
  proc_name :: "nat \<Rightarrow> u8 list"

definition USTACKSIZE :: u32 where "USTACKSIZE = 4096"
definition USTACKTOP :: u32 where "USTACKTOP = 0xD0000000"
definition USTACKBOTTOM :: u32 where "USTACKBOTTOM = USTACKTOP - 4096"
definition ELF_MAGIC :: u32 where "ELF_MAGIC = 0x464c457f"
definition ELF_PROG_LOAD :: u32 where "ELF_PROG_LOAD = 1"
definition KMAXARG :: nat where "KMAXARG = 32"

section \<open>Headers\<close>

definition field32 :: "u8 list \<Rightarrow> nat \<Rightarrow> u32" where
  "field32 xs k = rd32 (\<lambda>a. xs ! unat a) (of_nat k)"

definition field16 :: "u8 list \<Rightarrow> nat \<Rightarrow> u32" where
  "field16 xs k = ucast (xs ! k) OR push_bit 8 (ucast (xs ! (k + 1)))"

record elf32_ehdr =
  e_magic :: u32
  e_entry :: u32
  e_phoff :: u32
  e_phnum :: u32

record elf32_phdr =
  p_type :: u32
  p_offset :: u32
  p_vaddr :: u32
  p_filesz :: u32
  p_memsz :: u32

definition EHSIZE :: nat where "EHSIZE = 52"
definition PHSIZE :: nat where "PHSIZE = 32"

definition get_ehdr :: "u8 list \<Rightarrow> elf32_ehdr" where
  "get_ehdr xs = \<lparr>e_magic = field32 xs 0, e_entry = field32 xs 24, e_phoff = field32 xs 28, e_phnum = field16 xs 44\<rparr>"

definition get_phdr :: "u8 list \<Rightarrow> elf32_phdr" where
  "get_phdr xs = \<lparr>p_type = field32 xs 0, p_offset = field32 xs 4, p_vaddr = field32 xs 8, p_filesz = field32 xs 16, p_memsz = field32 xs 20\<rparr>"

section \<open>Segments\<close>

definition put_mem :: "u32 \<Rightarrow> u8 list \<Rightarrow> vm \<Rightarrow> vm" where
  "put_mem a xs s = s\<lparr>vk := (vk s)\<lparr>omem := (\<lambda>x. if unat (x - a) < length xs then xs ! unat (x - a) else omem (vk s) x)\<rparr>\<rparr>"

partial_function (option) load_loop :: "u32 \<Rightarrow> u32 \<Rightarrow> nat \<Rightarrow> u32 \<Rightarrow> u32 \<Rightarrow> u32 \<Rightarrow> kern \<Rightarrow> (int \<times> kern) option" where
  "load_loop pgdir des i off sz j k =
     (if j < sz then do {
        (pte, v) \<leftarrow> pgdir_walk 0 pgdir (des + j) False (kvm k);
        if pte = 0 then None
        else do {
          let pa = PTE_ADDR (load v pte);
          let nbytes = (if sz - j < 4096 then sz - j else 4096);
          (r, xs, f) \<leftarrow> readi i (unat (off + j)) (unat nbytes) (kfs k);
          let k = k\<lparr>kvm := put_mem (KADDR pa) xs v, kfs := f\<rparr>;
          if r \<noteq> uint nbytes then Some (- 1, k) else load_loop pgdir des i off sz (j + 4096) k
        }
      }
      else Some (0, k))"

definition load_program :: "u32 \<Rightarrow> u32 \<Rightarrow> nat \<Rightarrow> u32 \<Rightarrow> u32 \<Rightarrow> kern \<Rightarrow> (int \<times> kern) option" where
  "load_program pgdir des i off sz k = load_loop pgdir des i off sz 0 k"

text \<open>The loop of \<^verbatim>\<open>exec\<close> over the program headers: the end of the last segment, or a failure.\<close>

fun load_segments :: "nat \<Rightarrow> u32 \<Rightarrow> nat \<Rightarrow> nat \<Rightarrow> u32 \<Rightarrow> u32 \<Rightarrow> kern \<Rightarrow> (u32 option \<times> kern) option" where
  "load_segments m npgdir i 0 off base k = Some (Some base, k)"
| "load_segments m npgdir i (Suc n) off base k = do {
     (r, xs, f) \<leftarrow> readi i (unat off) PHSIZE (kfs k);
     let k = k\<lparr>kfs := f\<rparr>;
     if r \<noteq> int PHSIZE then Some (None, k)
     else do {
       let ph = get_phdr xs;
       if p_type ph \<noteq> ELF_PROG_LOAD then load_segments m npgdir i n (off + of_nat PHSIZE) base k
       else if UTOP < p_vaddr ph then Some (None, k)
       else if p_vaddr ph + p_memsz ph < p_vaddr ph then Some (None, k)
       else if p_memsz ph < p_filesz ph then Some (None, k)
       else do {
         (base, v) \<leftarrow> grow_vm m npgdir base (p_vaddr ph + p_memsz ph) (kvm k);
         let k = k\<lparr>kvm := v\<rparr>;
         if base = 0 then Some (None, k)
         else if p_vaddr ph mod 4096 \<noteq> 0 then Some (None, k)
         else do {
           (e, k) \<leftarrow> load_program npgdir (p_vaddr ph) i (p_offset ph) (p_filesz ph) k;
           if e < 0 then Some (None, k) else load_segments m npgdir i n (off + of_nat PHSIZE) base k
         }
       }
     }
   }"

section \<open>The stack of the new program\<close>

definition vesp_to_esp :: "u32 \<Rightarrow> u32" where
  "vesp_to_esp esp = esp mod 4096 + USTACKBOTTOM"

text \<open>\<^verbatim>\<open>strlen\<close> and \<^verbatim>\<open>strncpy\<close> on strings of the old address space, whose bytes are given by \<open>rd\<close>; \<open>None\<close> is an address that
  is not mapped.\<close>

partial_function (option) user_strlen :: "(u32 \<Rightarrow> u8 option) \<Rightarrow> u32 \<Rightarrow> int \<Rightarrow> int option" where
  "user_strlen rd a i = do { c \<leftarrow> rd a; if c = 0 then Some i else user_strlen rd (a + 1) (i + 1) }"

function copy_in :: "(u32 \<Rightarrow> u8 option) \<Rightarrow> u32 \<Rightarrow> u32 \<Rightarrow> int \<Rightarrow> memory \<Rightarrow> (u32 \<times> memory) option" where
  "copy_in rd des src n b = do {
     c \<leftarrow> rd src;
     let b = b(des := c);
     if c \<noteq> 0 \<and> 0 < n - 1 then copy_in rd (des + 1) (src + 1) (n - 1) b else Some (des + 1, b)
   }"
  by pat_completeness auto
termination by (relation "measure (\<lambda>(_, _, _, n, _). nat n)") auto

definition user_strncpy :: "(u32 \<Rightarrow> u8 option) \<Rightarrow> u32 \<Rightarrow> u32 \<Rightarrow> int \<Rightarrow> memory \<Rightarrow> memory option" where
  "user_strncpy rd des src n b = do { (d, b) \<leftarrow> copy_in rd des src n b; Some (b(d := 0)) }"

text \<open>The loop over the arguments: the stack pointer, and the pointers to the copied strings.\<close>

fun push_strings :: "(u32 \<Rightarrow> u8 option) \<Rightarrow> u32 list \<Rightarrow> nat \<Rightarrow> u32 \<Rightarrow> memory \<Rightarrow> ((u32 \<times> u32 list) option \<times> memory) option" where
  "push_strings rd [] argc esp b = Some (Some (esp, []), b)"
| "push_strings rd (a # argv) argc esp b =
     (if KMAXARG \<le> argc then Some (None, b)
      else do {
        slen \<leftarrow> user_strlen rd a 0;
        let esp = (esp - word_of_int slen - 1) AND NOT 3;
        b \<leftarrow> user_strncpy rd esp a slen b;
        (r, b) \<leftarrow> push_strings rd argv (Suc argc) esp b;
        Some (map_option (\<lambda>(sp, us). (sp, vesp_to_esp esp # us)) r, b)
      })"

text \<open>An array of words in memory.\<close>

fun put_words :: "u32 \<Rightarrow> u32 list \<Rightarrow> memory \<Rightarrow> memory" where
  "put_words a [] b = b"
| "put_words a (w # ws) b = put_words (a + 4) ws (wr32 a w b)"

definition exec_stack :: "(u32 \<Rightarrow> u8 option) \<Rightarrow> u32 list \<Rightarrow> u32 \<Rightarrow> memory \<Rightarrow> (u32 option \<times> memory) option" where
  "exec_stack rd argv page b = do {
     (r, b) \<leftarrow> push_strings rd argv 0 (page + USTACKSIZE - 1) b;
     case r of None \<Rightarrow> Some (None, b)
     | Some (esp, us) \<Rightarrow>
         let argc = of_nat (length us);
             uargv = argc # vesp_to_esp (esp - (argc + 1) * 4) # us @ [0];
             esp = esp - (3 + argc) * 4
         in Some (Some esp, put_words esp uargv b)
   }"

section \<open>The system call\<close>

definition user_byte :: "vm \<Rightarrow> u32 \<Rightarrow> u8 option" where
  "user_byte s va = do { d \<leftarrow> cur_pgdir s; pa \<leftarrow> translate d va s; Some (omem (vk s) (KADDR pa)) }"

text \<open>The last component of the path.\<close>

definition base_name :: "u8 list \<Rightarrow> u8 list" where
  "base_name path = rev (takeWhile (\<lambda>c. c \<noteq> 0x2F) (rev path))"

definition exec_failure :: "u32 \<Rightarrow> nat option \<Rightarrow> kern \<Rightarrow> (int \<times> kern) option" where
  "exec_failure npgdir i k = do {
     v \<leftarrow> (if npgdir \<noteq> 0 then do {
              v \<leftarrow> pgdir_free npgdir (kvm k);
              p \<leftarrow> va2page (kb (vk v)) npgdir;
              page_decrease_ref p v
            } else Some (kvm k));
     f \<leftarrow> (if i \<noteq> None then do { f \<leftarrow> iunlockput i (kfs k); end_transaction f } else Some (kfs k));
     Some (- 1, k\<lparr>kvm := v, kfs := f\<rparr>)
   }"

text \<open>From the new stack on: the process gets the new address space, and the old one is released.\<close>

definition exec_commit :: "nat \<Rightarrow> u8 list \<Rightarrow> u32 \<Rightarrow> u32 \<Rightarrow> u32 \<Rightarrow> u32 \<Rightarrow> kern \<Rightarrow> (int \<times> kern) option" where
  "exec_commit m pathname npgdir entry_point esp base k = do {
     me \<leftarrow> cpu_proc (vp (kvm k));
     let k = k\<lparr>proc_name := (proc_name k)(me := base_name pathname)\<rparr>;
     let opgdir = proc_pgdir (kvm k) me;
     ((pinfo, _), v) \<leftarrow> page_lookup opgdir (KSTACKTOP - KSTACKSIZE) (kvm k);
     kstack \<leftarrow> pinfo;
     (e, v) \<leftarrow> page_insert m npgdir kstack (KSTACKTOP - KSTACKSIZE) (PTE_P OR PTE_W) v;
     let k = k\<lparr>kvm := v\<rparr>;
     if e < 0 then exec_failure npgdir None k
     else do {
       let v = v\<lparr>proc_pgdir := (proc_pgdir v)(me := npgdir),
                 vp := upd_proc me (\<lambda>r. r\<lparr>base_mem_sz := base, heap_ptr := ROUNDUP base 4096\<rparr>) (vp v)\<rparr>;
       let k = k\<lparr>tf_eip := (tf_eip k)(me := entry_point), tf_esp := (tf_esp k)(me := vesp_to_esp esp)\<rparr>;
       v \<leftarrow> pgdir_free opgdir v;
       v \<leftarrow> page_remove opgdir (KSTACKTOP - KSTACKSIZE) v;
       p \<leftarrow> va2page (kb (vk v)) opgdir;
       v \<leftarrow> page_decrease_ref p v;
       Some (0, k\<lparr>kvm := v\<rparr>)
     }
   }"

text \<open>\<open>junk\<close> is the contents of the kernel stack, where a header that is too short leaves the rest of the structure.\<close>

definition exec :: "nat \<Rightarrow> u8 list \<Rightarrow> u8 list \<Rightarrow> u32 list \<Rightarrow> kern \<Rightarrow> (int \<times> kern) option" where
  "exec m junk pathname argv k = do {
     f \<leftarrow> begin_transaction (kfs k);
     (ip, f) \<leftarrow> namei pathname f;
     case ip of None \<Rightarrow> do { f \<leftarrow> end_transaction f; Some (- 1, k\<lparr>kfs := f\<rparr>) }
     | Some i \<Rightarrow> do {
         (_, f) \<leftarrow> ilock ip f;
         (r, xs, f) \<leftarrow> readi i 0 EHSIZE f;
         let k = k\<lparr>kfs := f\<rparr>;
         let eh = get_ehdr (xs @ drop (length xs) junk);
         if r < 0 \<or> e_magic eh \<noteq> ELF_MAGIC then exec_failure 0 ip k
         else do {
           (npgdir, v) \<leftarrow> setup_vm m (kvm k);
           let k = k\<lparr>kvm := v\<rparr>;
           if npgdir = 0 then exec_failure 0 ip k
           else do {
             (r, k) \<leftarrow> load_segments m npgdir i (unat (e_phnum eh)) (e_phoff eh) UTEXT k;
             case r of None \<Rightarrow> exec_failure npgdir ip k
             | Some base \<Rightarrow> do {
                 f \<leftarrow> iunlockput ip (kfs k);
                 f \<leftarrow> end_transaction f;
                 let k = k\<lparr>kfs := f\<rparr>;
                 (pg, v) \<leftarrow> page_alloc m True (kvm k);
                 let k = k\<lparr>kvm := v\<rparr>;
                 case pg of None \<Rightarrow> exec_failure npgdir None k
                 | Some p \<Rightarrow> do {
                     (e, v) \<leftarrow> page_insert m npgdir p USTACKBOTTOM PTE_USTK v;
                     if e < 0 then do { v \<leftarrow> page_decrease_ref p v; exec_failure npgdir None (k\<lparr>kvm := v\<rparr>) }
                     else do {
                       (r, b) \<leftarrow> exec_stack (user_byte v) argv (page2va p) (omem (vk v));
                       let k = k\<lparr>kvm := v\<lparr>vk := (vk v)\<lparr>omem := b\<rparr>\<rparr>\<rparr>;
                       case r of None \<Rightarrow> exec_failure npgdir None k
                       | Some esp \<Rightarrow> exec_commit m pathname npgdir (e_entry eh) esp base k
                     }
                   }
               }
           }
         }
       }
   }"

declare load_loop.simps [code] user_strlen.simps [code]

end
