(* ===== verification/Exec_Props.thy ===== *)
theory Exec_Props
  imports Exec Pmap_Props
begin

text \<open>The stack that \<^verbatim>\<open>exec\<close> builds holds the arguments where the new program looks for them.\<close>

section \<open>Addresses of a page\<close>

definition page_base :: "u32 \<Rightarrow> bool" where "page_base P \<longleftrightarrow> P mod 4096 = 0"

lemma page_base_nat: "page_base P \<Longrightarrow> unat P mod 4096 = 0 \<and> unat P + 4096 \<le> 2 ^ 32"
proof -
  assume "page_base P"
  then have "unat (P mod 4096) = 0" by (simp add: page_base_def)
  then have m: "unat P mod 4096 = 0" unfolding unat_mod by simp
  then obtain q where q: "unat P = 4096 * q" by (metis mod_0_imp_dvd dvdE)
  have "unat P < 4096 * 1048576" using unsigned_less [of P] by simp
  then have "q + 1 \<le> 1048576" unfolding q by simp
  then show ?thesis using m unfolding q by simp
qed

lemma unat_page: "page_base P \<Longrightarrow> k < 4096 \<Longrightarrow> unat (P + of_nat k) = unat P + k"
  using page_base_nat [of P] by (simp add: unat_word_ariths unat_of_nat take_bit_nat_eq_self take_bit_eq_mod)

lemma page_inj: "page_base P \<Longrightarrow> k < 4096 \<Longrightarrow> j < 4096 \<Longrightarrow> P + of_nat k = P + of_nat j \<longleftrightarrow> k = j"
  by (metis unat_page add_left_cancel)

lemma vesp_page: "page_base P \<Longrightarrow> k < 4096 \<Longrightarrow> vesp_to_esp (P + of_nat k) = USTACKBOTTOM + of_nat k"
proof -
  assume a: "page_base P" "k < 4096"
  have "unat ((P + of_nat k) mod 4096) = k" using a unat_page [OF a] page_base_nat [OF a(1)] by (simp add: unat_mod mod_add_eq [symmetric])
  moreover have "unat (of_nat k :: u32) = k" using a(2) by (simp add: unat_of_nat take_bit_nat_eq_self)
  ultimately have "(P + of_nat k) mod 4096 = of_nat k" by (simp add: word_unat_eq_iff)
  then show ?thesis by (simp add: vesp_to_esp_def add.commute)
qed

lemma and_not_3: "unat (x AND NOT 3 :: u32) = 4 * (unat x div 4)"
proof -
  have m: "(3 :: u32) = mask 2" by (simp add: mask_eq_exp_minus_1)
  have "x AND NOT 3 = push_bit 2 (drop_bit 2 x)"
    unfolding m by (rule bit_word_eqI) (auto simp: bit_simps not_less simp del: mask_numeral, (metis add_2_eq_Suc le_add_diff_inverse)+)
  moreover have "unat (drop_bit 2 x) = unat x div 4" by (simp add: drop_bit_eq_div unat_div)
  moreover have "unat x < 2 ^ 32" using unsigned_less [of x] by simp
  ultimately show ?thesis by (simp add: push_bit_eq_mult unat_word_ariths)
qed

lemma align_page:
  assumes "page_base P" "e < 4096" "n < e"
  shows "(P + of_nat e - word_of_int (int n) - 1) AND NOT 3 = P + of_nat (4 * ((e - n - 1) div 4))"
proof -
  obtain d where d: "e = d + n + 1" using assms(3) by (metis less_imp_Suc_add add.commute add_Suc_right Suc_eq_plus1)
  have f: "e - n - 1 = d" "d < 4096" "4 * (d div 4) < 4096" using d assms(2) by simp_all
  have a: "P + of_nat e - word_of_int (int n) - 1 = P + of_nat d" unfolding d by simp
  have "unat ((P + of_nat d) AND NOT 3) = 4 * ((unat P + d) div 4)"
    unfolding and_not_3 unat_page [OF assms(1) f(2)] ..
  also have "\<dots> = unat P + 4 * (d div 4)"
  proof -
    have "4 dvd unat P" by (rule dvd_trans [of _ 4096]) (use page_base_nat [OF assms(1)] in \<open>simp_all add: dvd_eq_mod_eq_0\<close>)
    then obtain q where "unat P = 4 * q" by (rule dvdE)
    then show ?thesis by simp
  qed
  also have "\<dots> = unat (P + of_nat (4 * (d div 4)))" by (rule unat_page [OF assms(1) f(3), symmetric])
  finally show ?thesis unfolding a f(1) by (rule unsigned_word_eqI)
qed

section \<open>Strings of the process and their copies\<close>

fun user_str :: "(u32 \<Rightarrow> u8 option) \<Rightarrow> u32 \<Rightarrow> u8 list \<Rightarrow> bool" where
  "user_str rd a [] \<longleftrightarrow> rd a = Some 0"
| "user_str rd a (x # xs) \<longleftrightarrow> rd a = Some x \<and> x \<noteq> 0 \<and> user_str rd (a + 1) xs"

fun put_bytes_at :: "u32 \<Rightarrow> u8 list \<Rightarrow> memory \<Rightarrow> memory" where
  "put_bytes_at a [] b = b"
| "put_bytes_at a (x # xs) b = put_bytes_at (a + 1) xs (b(a := x))"

definition copied :: "u8 list \<Rightarrow> u8 list" where "copied xs = (if xs = [] then [0, 0] else xs @ [0])"

lemma user_strlen_str: "user_str rd a xs \<Longrightarrow> user_strlen rd a i = Some (i + int (length xs))"
  by (induction xs arbitrary: a i) (subst user_strlen.simps; simp)+

lemma put_bytes_at_append: "put_bytes_at a (xs @ ys) b = put_bytes_at (a + of_nat (length xs)) ys (put_bytes_at a xs b)"
  by (induction xs arbitrary: a b) (simp_all add: add.assoc)

declare copy_in.simps [simp del]

lemma copy_in_str:
  "user_str rd a xs \<Longrightarrow> xs \<noteq> [] \<Longrightarrow> copy_in rd d a (int (length xs)) b = Some (d + of_nat (length xs), put_bytes_at d xs b)"
proof (induction xs arbitrary: a d b)
  case (Cons x xs)
  show ?case
  proof (cases "xs = []")
    case True
    then show ?thesis using Cons.prems by (subst copy_in.simps) simp
  next
    case False
    then show ?thesis using Cons.prems Cons.IH [of "a + 1" "d + 1"] by (subst copy_in.simps) (simp add: add.assoc)
  qed
qed simp

lemma user_strncpy_str: "user_str rd a xs \<Longrightarrow> user_strncpy rd d a (int (length xs)) b = Some (put_bytes_at d (copied xs) b)"
proof (cases "xs = []")
  case True
  assume "user_str rd a xs"
  then show ?thesis using True by (simp add: user_strncpy_def copied_def copy_in.simps)
next
  case False
  assume "user_str rd a xs"
  then show ?thesis using False copy_in_str [of rd a xs d b] by (simp add: user_strncpy_def copied_def put_bytes_at_append)
qed

lemma put_bytes_at_page:
  assumes "page_base P" "e + length xs \<le> 4096"
  shows "k < 4096 \<Longrightarrow> put_bytes_at (P + of_nat e) xs b (P + of_nat k) = (if e \<le> k \<and> k < e + length xs then xs ! (k - e) else b (P + of_nat k))"
    "(\<And>k. e \<le> k \<Longrightarrow> k < e + length xs \<Longrightarrow> x \<noteq> P + of_nat k) \<Longrightarrow> put_bytes_at (P + of_nat e) xs b x = b x"
proof -
  show "k < 4096 \<Longrightarrow> put_bytes_at (P + of_nat e) xs b (P + of_nat k) = (if e \<le> k \<and> k < e + length xs then xs ! (k - e) else b (P + of_nat k))"
    using assms(2)
  proof (induction xs arbitrary: e b)
    case (Cons y ys)
    have "put_bytes_at (P + of_nat (Suc e)) ys (b(P + of_nat e := y)) (P + of_nat k) =
      (if Suc e \<le> k \<and> k < Suc e + length ys then ys ! (k - Suc e) else (b(P + of_nat e := y)) (P + of_nat k))"
      by (rule Cons.IH) (use Cons.prems in simp_all)
    then show ?case using page_inj [OF assms(1), of k e] Cons.prems by (auto simp: nth_Cons' add_ac)
  qed auto
  show "(\<And>k. e \<le> k \<Longrightarrow> k < e + length xs \<Longrightarrow> x \<noteq> P + of_nat k) \<Longrightarrow> put_bytes_at (P + of_nat e) xs b x = b x"
    using assms(2)
  proof (induction xs arbitrary: e b)
    case (Cons y ys)
    have "put_bytes_at (P + of_nat (Suc e)) ys (b(P + of_nat e := y)) x = (b(P + of_nat e := y)) x"
      by (rule Cons.IH) (use Cons.prems in simp_all)
    then show ?case using Cons.prems(1) [of e] by (simp add: add_ac)
  qed simp
qed

text \<open>A terminated string at an offset of the page.\<close>

definition str_at :: "memory \<Rightarrow> u32 \<Rightarrow> nat \<Rightarrow> u8 list \<Rightarrow> bool" where
  "str_at b P k xs \<longleftrightarrow> (\<forall>j < length xs. b (P + of_nat (k + j)) = xs ! j) \<and> b (P + of_nat (k + length xs)) = 0"

lemma str_at_copied:
  assumes "page_base P" "k + length (copied xs) \<le> 4096"
  shows "str_at (put_bytes_at (P + of_nat k) (copied xs) b) P k xs"
proof -
  have "put_bytes_at (P + of_nat k) (copied xs) b (P + of_nat (k + j)) = copied xs ! j" if "j \<le> length xs" for j
    using put_bytes_at_page(1) [OF assms, of "k + j"] assms(2) that by (auto simp: copied_def split: if_splits)
  then show ?thesis by (simp add: str_at_def copied_def nth_append del: of_nat_add)
qed

lemma str_at_cong: "str_at b P k xs \<Longrightarrow> (\<And>j. j \<le> length xs \<Longrightarrow> b' (P + of_nat (k + j)) = b (P + of_nat (k + j))) \<Longrightarrow> str_at b' P k xs"
  by (simp add: str_at_def)

definition room :: "u8 list list \<Rightarrow> nat" where "room xss = (\<Sum>xs \<leftarrow> xss. length xs + 4)"

lemma push_strings_correct:
  assumes P: "page_base P"
  shows "list_all2 (user_str rd) argv xss \<Longrightarrow> e < 4096 \<Longrightarrow> e mod 4 = 0 \<or> e mod 4 = 3 \<Longrightarrow> room xss \<le> e \<Longrightarrow> argc + length argv \<le> KMAXARG \<Longrightarrow>
    \<exists>d us b'. push_strings rd argv argc (P + of_nat e) b = Some (Some (P + of_nat d, us), b') \<and> d \<le> e \<and> e \<le> d + room xss \<and>
      (argv \<noteq> [] \<longrightarrow> d mod 4 = 0) \<and> length us = length argv \<and>
      (\<forall>i < length argv. \<exists>k. us ! i = USTACKBOTTOM + of_nat k \<and> d \<le> k \<and> k + length (xss ! i) < e \<and> str_at b' P k (xss ! i)) \<and>
      (\<forall>x. (\<forall>k. d \<le> k \<and> k < e \<longrightarrow> x \<noteq> P + of_nat k) \<longrightarrow> b' x = b x)"
proof (induction argv xss arbitrary: e argc b rule: list_all2_induct)
  case Nil
  then show ?case by (intro exI [of _ e]) simp
next
  case (Cons a argv xs xss)
  let ?n = "length xs"
  define k where "k = 4 * ((e - ?n - 1) div 4)"
  have rm: "room (xs # xss) = ?n + 4 + room xss" by (simp add: room_def)
  have m: "k mod 4 = 0" "k \<le> e - ?n - 1" "e - ?n - 1 \<le> k + 3" unfolding k_def by simp_all
  have e: "?n < e" "k + ?n < e" "e \<le> k + ?n + 4" "room xss \<le> k" "k mod 4 = 0"
    using Cons.prems(3) rm m by simp_all
  have "e \<noteq> k + 1"
  proof
    assume "e = k + 1"
    then have "e mod 4 = 1" using mod_Suc [of k 4] m(1) by simp
    then show False using Cons.prems(2) by simp
  qed
  then have "k + 2 \<le> e" using e(2) by simp
  then have ec: "k + length (copied xs) \<le> e" using e(2) by (auto simp: copied_def)
  let ?b = "put_bytes_at (P + of_nat k) (copied xs) b"
  have sp: "(P + of_nat e - word_of_int (int ?n) - 1) AND NOT 3 = P + of_nat k"
    unfolding k_def by (rule align_page [OF P]) (use e Cons.prems in simp_all)
  have "\<exists>d us b'. push_strings rd argv (Suc argc) (P + of_nat k) ?b = Some (Some (P + of_nat d, us), b') \<and> d \<le> k \<and> k \<le> d + room xss \<and>
      (argv \<noteq> [] \<longrightarrow> d mod 4 = 0) \<and> length us = length argv \<and>
      (\<forall>i < length argv. \<exists>j. us ! i = USTACKBOTTOM + of_nat j \<and> d \<le> j \<and> j + length (xss ! i) < k \<and> str_at b' P j (xss ! i)) \<and>
      (\<forall>x. (\<forall>j. d \<le> j \<and> j < k \<longrightarrow> x \<noteq> P + of_nat j) \<longrightarrow> b' x = ?b x)"
    by (rule Cons.IH) (use e Cons.prems in auto)
  then obtain d us b' where r: "push_strings rd argv (Suc argc) (P + of_nat k) ?b = Some (Some (P + of_nat d, us), b')" "d \<le> k" "k \<le> d + room xss"
    "argv \<noteq> [] \<longrightarrow> d mod 4 = 0" "length us = length argv"
    and args: "\<forall>i < length argv. \<exists>j. us ! i = USTACKBOTTOM + of_nat j \<and> d \<le> j \<and> j + length (xss ! i) < k \<and> str_at b' P j (xss ! i)"
    and fr0: "\<forall>x. (\<forall>j. d \<le> j \<and> j < k \<longrightarrow> x \<noteq> P + of_nat j) \<longrightarrow> b' x = ?b x" by (elim exE conjE) (rule that; assumption)
  have frame: "b' x = ?b x" if "\<And>j. d \<le> j \<Longrightarrow> j < k \<Longrightarrow> x \<noteq> P + of_nat j" for x using fr0 that by blast
  have run: "push_strings rd (a # argv) argc (P + of_nat e) b = Some (Some (P + of_nat d, vesp_to_esp (P + of_nat k) # us), b')"
    using Cons.hyps(1) Cons.prems(4) r(1) by (simp add: user_strlen_str user_strncpy_str sp [simplified] Let_def)
  have v: "vesp_to_esp (P + of_nat k) = USTACKBOTTOM + of_nat k" by (rule vesp_page [OF P]) (use e Cons.prems in simp)
  have "str_at ?b P k xs" by (rule str_at_copied [OF P]) (use ec Cons.prems in simp)
  moreover have "P + of_nat (k + j) \<noteq> P + of_nat i" if "j \<le> length xs" "i < k" for i j
    using page_inj [OF P, of "k + j" i] that e(2) Cons.prems(1) by (simp del: of_nat_add)
  ultimately have s: "str_at b' P k xs" by (elim str_at_cong) (rule frame, blast)
  have fr: "b' x = b x" if "\<And>j. d \<le> j \<Longrightarrow> j < e \<Longrightarrow> x \<noteq> P + of_nat j" for x
    using frame [of x] put_bytes_at_page(2) [OF P, of k "copied xs" x b] that e ec r(2) Cons.prems by simp
  have all: "\<exists>j. (vesp_to_esp (P + of_nat k) # us) ! i = USTACKBOTTOM + of_nat j \<and> d \<le> j \<and> j + length ((xs # xss) ! i) < e \<and> str_at b' P j ((xs # xss) ! i)"
    if "i < length (a # argv)" for i
  proof (cases i)
    case 0
    then show ?thesis using v s r(2) e by auto
  next
    case (Suc i')
    then show ?thesis using args that e(2) by fastforce
  qed
  have dm: "d mod 4 = 0" using r(2-4) e(5) list_all2_lengthD [OF Cons.hyps(2)] by (cases "argv = []") (auto simp: room_def)
  have "d \<le> e" "e \<le> d + room (xs # xss)" "length (vesp_to_esp (P + of_nat k) # us) = length (a # argv)" using r(2,3,5) e rm by simp_all
  moreover have "\<forall>i < length (a # argv). \<exists>j. (vesp_to_esp (P + of_nat k) # us) ! i = USTACKBOTTOM + of_nat j \<and> d \<le> j \<and>
    j + length ((xs # xss) ! i) < e \<and> str_at b' P j ((xs # xss) ! i)"
    by (intro allI impI all)
  moreover have "\<forall>x. (\<forall>j. d \<le> j \<and> j < e \<longrightarrow> x \<noteq> P + of_nat j) \<longrightarrow> b' x = b x" by (intro allI impI fr) blast
  moreover have "a # argv \<noteq> [] \<longrightarrow> d mod 4 = 0" using dm by simp
  ultimately show ?case using run by (intro exI conjI) assumption+
qed

text \<open>What the program finds at its stack pointer, as offsets of the stack page: the number of arguments, a pointer to the
  vector of pointers, and the vector, whose entries lead to the strings and which ends with a null pointer.\<close>

definition stack_holds :: "memory \<Rightarrow> u32 \<Rightarrow> nat \<Rightarrow> u8 list list \<Rightarrow> bool" where
  "stack_holds b P d xss \<longleftrightarrow>
     (let word = (\<lambda>i. rd32 b (P + of_nat (d + 4 * i))) in
      word 0 = of_nat (length xss) \<and> word 1 = USTACKBOTTOM + of_nat (d + 8) \<and>
      (\<forall>i < length xss. \<exists>k. word (2 + i) = USTACKBOTTOM + of_nat k \<and> k + length (xss ! i) < 4096 \<and> str_at b P k (xss ! i)) \<and>
      word (2 + length xss) = 0)"

section \<open>The vector of pointers\<close>

lemma rd_wr_page:
  assumes P: "page_base P" and "e + 4 \<le> 4096"
  shows "rd32 (wr32 (P + of_nat e) w b) (P + of_nat e) = w"
    "k < 4096 \<Longrightarrow> k < e \<or> e + 4 \<le> k \<Longrightarrow> wr32 (P + of_nat e) w b (P + of_nat k) = b (P + of_nat k)"
    "(\<And>k. e \<le> k \<Longrightarrow> k < e + 4 \<Longrightarrow> x \<noteq> P + of_nat k) \<Longrightarrow> wr32 (P + of_nat e) w b x = b x"
proof -
  show "rd32 (wr32 (P + of_nat e) w b) (P + of_nat e) = w"
    by (rule rd_wr_same)
  have a: "P + of_nat e + 1 = P + of_nat (e + 1)" "P + of_nat e + 2 = P + of_nat (e + 2)" "P + of_nat e + 3 = P + of_nat (e + 3)" by simp_all
  show 3: "wr32 (P + of_nat e) w b x = b x" if "\<And>k. e \<le> k \<Longrightarrow> k < e + 4 \<Longrightarrow> x \<noteq> P + of_nat k" for x
    unfolding wr32_def a using that [of e] that [of "e + 1"] that [of "e + 2"] that [of "e + 3"] by simp
  show "k < 4096 \<Longrightarrow> k < e \<or> e + 4 \<le> k \<Longrightarrow> wr32 (P + of_nat e) w b (P + of_nat k) = b (P + of_nat k)"
    by (rule 3) (use page_inj [OF P] assms(2) in auto)
qed

lemma rd32_page_cong:
  "(\<And>j. e \<le> j \<Longrightarrow> j < e + 4 \<Longrightarrow> b' (P + of_nat j) = b (P + of_nat j)) \<Longrightarrow> rd32 b' (P + of_nat e) = rd32 b (P + of_nat e)"
proof -
  assume "\<And>j. e \<le> j \<Longrightarrow> j < e + 4 \<Longrightarrow> b' (P + of_nat j) = b (P + of_nat j)"
  from this [of e] this [of "e + 1"] this [of "e + 2"] this [of "e + 3"] show ?thesis by (simp add: rd32_def add_ac)
qed

lemma put_words_page:
  assumes P: "page_base P"
  shows "e + 4 * length ws \<le> 4096 \<Longrightarrow>
    (\<forall>i < length ws. rd32 (put_words (P + of_nat e) ws b) (P + of_nat (e + 4 * i)) = ws ! i) \<and>
    (\<forall>k < 4096. k < e \<or> e + 4 * length ws \<le> k \<longrightarrow> put_words (P + of_nat e) ws b (P + of_nat k) = b (P + of_nat k)) \<and>
    (\<forall>x. (\<forall>k < 4096. x \<noteq> P + of_nat k) \<longrightarrow> put_words (P + of_nat e) ws b x = b x)"
proof (induction ws arbitrary: e b)
  case (Cons w ws)
  let ?b = "wr32 (P + of_nat e) w b" and ?m = "put_words (P + of_nat (e + 4)) ws (wr32 (P + of_nat e) w b)"
  have m: "put_words (P + of_nat e) (w # ws) b = ?m" by (simp add: add.assoc)
  note W = rd_wr_page [OF P, where e = e and w = w and b = b]
  have "(\<forall>i < length ws. rd32 ?m (P + of_nat (e + 4 + 4 * i)) = ws ! i) \<and>
    (\<forall>k < 4096. k < e + 4 \<or> e + 4 + 4 * length ws \<le> k \<longrightarrow> ?m (P + of_nat k) = ?b (P + of_nat k)) \<and>
    (\<forall>x. (\<forall>k < 4096. x \<noteq> P + of_nat k) \<longrightarrow> ?m x = ?b x)"
    by (rule Cons.IH) (use Cons.prems in simp)
  then have IH: "\<And>i. i < length ws \<Longrightarrow> rd32 ?m (P + of_nat (e + 4 + 4 * i)) = ws ! i"
    "\<And>k. k < 4096 \<Longrightarrow> k < e + 4 \<or> e + 4 + 4 * length ws \<le> k \<Longrightarrow> ?m (P + of_nat k) = ?b (P + of_nat k)"
    "\<And>x. (\<And>k. k < 4096 \<Longrightarrow> x \<noteq> P + of_nat k) \<Longrightarrow> ?m x = ?b x" by blast+
  have "rd32 ?m (P + of_nat e) = rd32 ?b (P + of_nat e)" by (rule rd32_page_cong, rule IH(2)) (use Cons.prems in auto)
  then have "rd32 ?m (P + of_nat e) = w" using W(1) Cons.prems by simp
  then have 1: "rd32 ?m (P + of_nat (e + 4 * i)) = (w # ws) ! i" if "i < length (w # ws)" for i
    using IH(1) [of "i - 1"] that by (cases i) (simp_all add: add_ac)
  have 2: "?m (P + of_nat k) = b (P + of_nat k)" if "k < 4096" "k < e \<or> e + 4 * length (w # ws) \<le> k" for k
    using IH(2) [OF that(1)] W(2) [OF _ that(1)] that Cons.prems by auto
  have 3: "?m x = b x" if "\<And>k. k < 4096 \<Longrightarrow> x \<noteq> P + of_nat k" for x
    using IH(3) [of x] W(3) [of x] that Cons.prems by simp
  show ?case unfolding m using 1 2 3 by blast
qed simp

text \<open>C32: when the arguments fit into the page, \<^verbatim>\<open>exec\<close> builds a stack that holds them, inside the page, at an aligned
  stack pointer.\<close>

theorem exec_stack_holds_arguments:
  assumes "page_base P" "list_all2 (user_str rd) argv xss" "xss \<noteq> []" "length xss \<le> KMAXARG" "room xss + 4 * (3 + length xss) \<le> 4095"
  shows "\<exists>d b'. exec_stack rd argv P b = Some (Some (P + of_nat d), b') \<and> d mod 4 = 0 \<and> d < 4096 \<and> stack_holds b' P d xss \<and>
    (\<forall>x. (\<forall>k < 4096. x \<noteq> P + of_nat k) \<longrightarrow> b' x = b x)"
proof -
  let ?n = "length xss"
  have n: "length argv = ?n" "argv \<noteq> []" using list_all2_lengthD [OF assms(2)] assms(3) by auto
  have base: "P + USTACKSIZE - 1 = P + of_nat 4095" by (simp add: USTACKSIZE_def)
  obtain d us b1 where r: "push_strings rd argv 0 (P + of_nat 4095) b = Some (Some (P + of_nat d, us), b1)" "d \<le> 4095" "4095 \<le> d + room xss"
    "d mod 4 = 0" "length us = ?n"
    and args: "\<forall>i < ?n. \<exists>k. us ! i = USTACKBOTTOM + of_nat k \<and> d \<le> k \<and> k + length (xss ! i) < 4095 \<and> str_at b1 P k (xss ! i)"
    and fr0: "\<forall>x. (\<forall>k. d \<le> k \<and> k < 4095 \<longrightarrow> x \<noteq> P + of_nat k) \<longrightarrow> b1 x = b x"
    using push_strings_correct [OF assms(1,2), of 4095 0 b] assms(4,5) n by auto
  define e where "e = d - 4 * (3 + ?n)"
  have d: "d = e + 4 * (3 + ?n)" using r(3) assms(5) unfolding e_def by simp
  then have "e mod 4 = d mod 4" by (simp only: mod_mult_self2)
  then have d: "d = e + 4 * (3 + ?n)" "e mod 4 = 0" using d r(4) by simp_all
  define ws where "ws = of_nat ?n # vesp_to_esp (P + of_nat d - (of_nat ?n + 1) * 4) # us @ [0]"
  have l: "length ws = 3 + ?n" "e + 4 * length ws = d" using r(5) d by (simp_all add: ws_def)
  let ?b = "put_words (P + of_nat e) ws b1"
  have esp: "P + of_nat d - (3 + of_nat ?n) * 4 = P + of_nat e" unfolding d(1) by (simp add: algebra_simps)
  have run: "exec_stack rd argv P b = Some (Some (P + of_nat e), ?b)"
    unfolding exec_stack_def base r(1) ws_def by (simp only: Option.bind.bind_lunit prod.case option.case Let_def esp r(5))
  have a8: "P + of_nat d - (of_nat ?n + 1) * 4 = P + of_nat (e + 8)" unfolding d(1) by (simp add: algebra_simps)
  note W = put_words_page [OF assms(1), of e ws b1] l r(2)
  have ws: "rd32 ?b (P + of_nat (e + 4 * i)) = ws ! i" if "i < 3 + ?n" for i using W that by simp
  have keep: "?b (P + of_nat k) = b1 (P + of_nat k)" if "k < 4096" "d \<le> k" for k using W that by simp
  have v: "vesp_to_esp (P + of_nat (e + 8)) = USTACKBOTTOM + of_nat (e + 8)" by (rule vesp_page [OF assms(1)]) (use d r(2) in simp)
  have arg: "\<exists>k. ws ! (2 + i) = USTACKBOTTOM + of_nat k \<and> k + length (xss ! i) < 4096 \<and> str_at ?b P k (xss ! i)" if i: "i < ?n" for i
  proof -
    obtain k where k: "us ! i = USTACKBOTTOM + of_nat k" "d \<le> k" "k + length (xss ! i) < 4095" "str_at b1 P k (xss ! i)" using args i by blast
    have "str_at ?b P k (xss ! i)" by (rule str_at_cong [OF k(4)], rule keep) (use k in simp_all)
    then show ?thesis using k i r(5) by (auto simp: ws_def nth_append)
  qed
  have wsn: "ws ! 0 = of_nat ?n" "ws ! 1 = USTACKBOTTOM + of_nat (e + 8)" "ws ! (2 + ?n) = 0"
    unfolding ws_def a8 v by (simp_all add: nth_append r(5))
  have "stack_holds ?b P e xss"
    unfolding stack_holds_def Let_def
  proof (intro conjI allI impI)
    show "rd32 ?b (P + of_nat (e + 4 * 0)) = of_nat ?n" "rd32 ?b (P + of_nat (e + 4 * 1)) = USTACKBOTTOM + of_nat (e + 8)"
      "rd32 ?b (P + of_nat (e + 4 * (2 + ?n))) = 0"
      using ws [of 0] ws [of 1] ws [of "2 + ?n"] wsn by (simp_all del: of_nat_add of_nat_mult put_words.simps)
    show "\<exists>k. rd32 ?b (P + of_nat (e + 4 * (2 + i))) = USTACKBOTTOM + of_nat k \<and> k + length (xss ! i) < 4096 \<and> str_at ?b P k (xss ! i)" if "i < ?n" for i
      using arg [OF that] ws [of "2 + i"] that by simp
  qed
  moreover have "?b x = b x" if "\<forall>k < 4096. x \<noteq> P + of_nat k" for x using W fr0 that r(2) by simp
  then have "\<forall>x. (\<forall>k < 4096. x \<noteq> P + of_nat k) \<longrightarrow> ?b x = b x" by blast
  moreover have "e < 4096" using d r(2) by simp
  ultimately show ?thesis using run d(2) by (intro exI conjI) assumption+
qed

theorem exec_stack_holds_arguments_witness:
  "\<exists>d b'. exec_stack ((\<lambda>_. None)(100 := Some 0x6C, 101 := Some 0x73, 102 := Some 0)) [100] 0xF0400000 (\<lambda>_. 0) = Some (Some (0xF0400000 + of_nat d), b') \<and>
    stack_holds b' 0xF0400000 d [[0x6C, 0x73]]"
proof -
  have "page_base 0xF0400000" "list_all2 (user_str ((\<lambda>_. None)(100 := Some 0x6C, 101 := Some 0x73, 102 := Some 0))) [100] [[0x6C, 0x73]]"
    "room [[0x6C, 0x73]] + 4 * (3 + length [[0x6C :: u8, 0x73]]) \<le> 4095"
    by (simp_all add: page_base_def room_def)
  then show ?thesis using exec_stack_holds_arguments [of "0xF0400000" "(\<lambda>_. None)(100 := Some 0x6C, 101 := Some 0x73, 102 := Some 0)" "[100]" "[[0x6C, 0x73]]" "\<lambda>_. 0"]
    by (auto simp: KMAXARG_def)
qed

end
