(* ===== verification/Uprintf.thy ===== *)
theory Uprintf
  imports Console
begin

text \<open>
  Formatted output of the user library (user/uprintf.c).  The code copies lib/printfmt.c; each character is one \<^verbatim>\<open>write\<close>
  of a byte to the descriptor.  The state is the list of the bytes written; strings and variable arguments are as in
  \<open>Console\<close>.
\<close>

definition putc :: "u8 \<Rightarrow> u8 list \<Rightarrow> u8 list" where "putc c out = out @ [c]"

fun u_puts :: "u8 list \<Rightarrow> int \<Rightarrow> u8 list \<Rightarrow> int \<times> u8 list" where
  "u_puts [] cnt out = (cnt, out)"
| "u_puts (c # str) cnt out = u_puts str (cnt + 1) (putc c out)"

text \<open>The loop that writes the digits of \<^verbatim>\<open>num_stack\<close>.\<close>

fun put_digits :: "u8 list \<Rightarrow> u8 list \<Rightarrow> u8 list" where
  "put_digits [] out = out"
| "put_digits (c # cs) out = put_digits cs (putc c out)"

definition printf_write_hex :: "u32 \<Rightarrow> u8 list \<Rightarrow> (int \<times> u8 list) option" where
  "printf_write_hex n out =
     (if n = 0 then Some (1, putc 0x30 out)
      else do {
        st \<leftarrow> digit_stack 8 16 n [];
        Some (int (length st), put_digits (map hex_map st) out)
      })"

definition printf_write_radix :: "u32 \<Rightarrow> u32 \<Rightarrow> u8 list \<Rightarrow> (int \<times> u8 list) option" where
  "printf_write_radix n radix out =
     (if n = 0 then Some (1, putc 0x30 out)
      else do {
        st \<leftarrow> digit_stack 12 radix n [];
        Some (int (length st), put_digits (map (\<lambda>d. ucast ((d OR 0x30) AND 0xFF)) st) out)
      })"

text \<open>The conversions of \<^verbatim>\<open>printfmt\<close>: the count, the arguments left and the output.  The sign of a negative number is
  printed and then its highest bit is cleared.\<close>

definition u_convert :: "u8 \<Rightarrow> va list \<Rightarrow> u8 list \<Rightarrow> (int \<times> va list \<times> u8 list) option" where
  "u_convert c ap out =
     (if c = 0x6F then do {
        let out = putc 0x30 out;
        (n, ap) \<leftarrow> va_num ap; (k, out) \<leftarrow> printf_write_radix n 8 out; Some (1 + k, ap, out) }
      else if c = 0x64 then do {
        (n, ap) \<leftarrow> va_num ap;
        let (n, out) = (if sint n < 0 then (n AND NOT 0x80000000, putc 0x2D out) else (n, out));
        (k, out) \<leftarrow> printf_write_radix n 10 out; Some (k, ap, out) }
      else if c = 0x75 then do {
        (n, ap) \<leftarrow> va_num ap; (k, out) \<leftarrow> printf_write_radix n 10 out; Some (k, ap, out) }
      else if c = 0x78 then do {
        (n, ap) \<leftarrow> va_num ap; (k, out) \<leftarrow> printf_write_hex n out; Some (k, ap, out) }
      else if c = 0x70 then do {
        let out = putc 0x78 (putc 0x30 out);
        (n, ap) \<leftarrow> va_num ap; (k, out) \<leftarrow> printf_write_hex n out; Some (k + 2, ap, out) }
      else if c = 0x73 then do {
        (t, ap) \<leftarrow> va_str ap; let (k, out) = u_puts t 0 out; Some (k, ap, out) }
      else if c = 0x63 then do {
        (n, ap) \<leftarrow> va_num ap; Some (1, ap, putc (ucast n) out) }
      else Some (1, ap, putc c out))"

partial_function (option) printfmt :: "u8 list \<Rightarrow> va list \<Rightarrow> int \<Rightarrow> u8 list \<Rightarrow> (int \<times> u8 list) option" where
  "printfmt s ap cnt out = do {
     (c, s) \<leftarrow> next_char s;
     if c = 0 then Some (cnt, out)
     else if c \<noteq> 0x25 then printfmt s ap (cnt + 1) (putc c out)
     else do {
       (c, s) \<leftarrow> next_char s;
       (k, ap, out) \<leftarrow> u_convert c ap out;
       printfmt s ap (cnt + k) out
     }
   }"

text \<open>\<^verbatim>\<open>cnt\<close> is not initialised: \<open>junk\<close> is what the stack holds.\<close>

definition printf :: "int \<Rightarrow> u8 list \<Rightarrow> va list \<Rightarrow> (int \<times> u8 list) option" where
  "printf junk str ap = printfmt str ap junk []"

declare printfmt.simps [code]

end
