(* ===== verification/Uprintf_Props.thy ===== *)
theory Uprintf_Props
  imports Uprintf Format_Props
begin

text \<open>\<^verbatim>\<open>printf\<close> of the user library against a reference formatter.\<close>

lemma put_digits_append: "put_digits cs out = out @ cs"
  by (induction cs arbitrary: out) (simp_all add: putc_def)

lemma u_puts_append: "u_puts t cnt out = (cnt + int (length t), out @ t)"
  by (induction t arbitrary: cnt out) (simp_all add: putc_def)

lemma printf_radix_run:
  assumes "radix = 8 \<or> radix = 10"
  shows "printf_write_radix n radix out =
    Some (int (length (numeral_text (unat radix) (unat n))), out @ numeral_text (unat radix) (unat n))"
proof (cases "n = 0")
  case True
  then show ?thesis by (simp add: printf_write_radix_def putc_def numeral_text_def)
next
  case False
  let ?r = "unat radix"
  have r: "2 \<le> ?r" "?r \<le> 10" using assms by auto
  have "unat n < 2 ^ 32" using unsigned_less [of n] by simp
  then have "unat n < ?r ^ 12" using assms by (elim disjE) simp_all
  then have "digit_stack 12 radix n [] = Some (map of_nat (digits ?r (unat n)))"
    using digit_stack_run [OF r(1), of n "[]" 12] digits_length by simp
  moreover have "map (\<lambda>d. ucast ((d OR 0x30) AND 0xFF)) (map of_nat (digits ?r (unat n)) :: u32 list) = map digit_char (digits ?r (unat n))"
    using order_less_le_trans [OF digits_less r(2)] radix_digit by simp
  ultimately show ?thesis using False by (simp add: printf_write_radix_def put_digits_append numeral_text_def unat_eq_0 del: map_map)
qed

lemma printf_hex_run: "printf_write_hex n out = Some (int (length (numeral_text 16 (unat n))), out @ numeral_text 16 (unat n))"
proof (cases "n = 0")
  case True
  then show ?thesis by (simp add: printf_write_hex_def putc_def numeral_text_def)
next
  case False
  have "unat n < 16 ^ 8" using unsigned_less [of n] by simp
  then have "digit_stack 8 16 n [] = Some (map of_nat (digits 16 (unat n)))"
    using digit_stack_run [of 16 n "[]" 8] digits_length [of "unat n" 16 8] by simp
  moreover have "map hex_map (map of_nat (digits 16 (unat n))) = map digit_char (digits 16 (unat n))"
    using digits_less [of _ 16 "unat n"] hex_digit by auto
  ultimately show ?thesis using False by (simp add: printf_write_hex_def put_digits_append numeral_text_def unat_eq_0 del: map_map)
qed

text \<open>Without its highest bit, a negative number is larger by \<open>2 ^ 31\<close>.\<close>

lemma clear_sign: "sint (n :: u32) < 0 \<Longrightarrow> unat (n AND NOT 0x80000000) = nat (2 ^ 31 + sint n)"
proof -
  assume n: "sint n < 0"
  have b: "- (2 ^ 31) \<le> sint n" using sint_ge [of n] by simp
  have m: "NOT (0x80000000 :: u32) = mask 31" by (simp add: mask_eq_exp_minus_1)
  have "uint (n AND NOT 0x80000000) = uint n mod 2 ^ 31"
    unfolding m take_bit_eq_mask [symmetric] by (simp add: take_bit_eq_mod uint_mod)
  also have "uint n = sint n mod 2 ^ 32" by (simp add: uint_sint take_bit_eq_mod)
  also have "sint n mod 2 ^ 32 = 2 ^ 32 + sint n" using n b by (subst mod_add_self1 [symmetric], intro mod_pos_pos_trivial) simp_all
  also have "(2 ^ 32 + sint n) mod 2 ^ 31 = 2 ^ 31 + sint n"
    using n b mod_pos_pos_trivial [of "2 ^ 31 + sint n" "2 ^ 31"] mod_add_self1 [of "2 ^ 31" "2 ^ 31 + sint n"] by (simp add: algebra_simps)
  finally show ?thesis by (simp add: unat_eq_nat_uint)
qed

section \<open>The reference formatter\<close>

definition uconv_ref :: "u8 \<Rightarrow> va list \<Rightarrow> (u8 list \<times> int \<times> va list) option" where
  "uconv_ref c ap =
     (if c = 0x64 then do {
        (n, ap) \<leftarrow> va_num ap;
        let t = numeral_text 10 (if sint n < 0 then nat (2 ^ 31 + sint n) else nat (sint n));
        Some (if sint n < 0 then 0x2D # t else t, int (length t), ap) }
      else if c = 0x63 then do { (n, ap) \<leftarrow> va_num ap; Some ([ucast n], 1, ap) }
      else if c = 0x65 then Some ([c], 1, ap)
      else conv_ref c ap)"

fun ufmt_ref :: "u8 list \<Rightarrow> va list \<Rightarrow> (u8 list \<times> int) option" where
  "ufmt_ref [] ap = None"
| "ufmt_ref (c # str) ap =
     (if c = 0 then Some ([], 0)
      else if c \<noteq> 0x25 then do { (t, k) \<leftarrow> ufmt_ref str ap; Some (c # t, k + 1) }
      else case str of [] \<Rightarrow> None
        | d # str' \<Rightarrow> do { (u, j, ap) \<leftarrow> uconv_ref d ap; (t, k) \<leftarrow> ufmt_ref str' ap; Some (u @ t, j + k) })"

lemma u_convert_run: "u_convert c ap out = map_option (\<lambda>(t, k, ap). (k, ap, out @ t)) (uconv_ref c ap)"
proof -
  note runs = printf_radix_run [of 8] printf_radix_run [of 10] printf_hex_run u_puts_append putc_def
  consider "c = 0x6F" | "c = 0x64" | "c = 0x75" | "c = 0x78" | "c = 0x70" | "c = 0x73" | "c = 0x63" | "c = 0x65"
    | "c \<notin> {0x6F, 0x64, 0x75, 0x78, 0x70, 0x73, 0x63, 0x65}" by blast
  then show ?thesis
  proof cases
    case 2
    show ?thesis
    proof (cases "va_num ap")
      case None
      then show ?thesis using 2 by (simp add: u_convert_def uconv_ref_def)
    next
      case (Some x)
      then obtain n ap' where x: "va_num ap = Some (n, ap')" by (cases x) simp
      show ?thesis
        using 2 x clear_sign [of n] abs_pos [of n]
        by (cases "sint n < 0") (simp_all add: u_convert_def uconv_ref_def runs Let_def)
    qed
  qed (cases "va_num ap"; cases "va_str ap"; auto simp: u_convert_def uconv_ref_def conv_ref_def runs Let_def)+
qed

lemma printfmt_run: "printfmt str ap cnt out = map_option (\<lambda>(t, k). (cnt + k, out @ t)) (ufmt_ref str ap)"
proof (induction str ap arbitrary: cnt out rule: ufmt_ref.induct)
  case (1 ap)
  then show ?case by (subst printfmt.simps) simp
next
  case (2 c str ap)
  consider "c = 0" | "c \<noteq> 0" "c \<noteq> 0x25" | "c = 0x25" "str = []" | d str' where "c = 0x25" "str = d # str'" by (cases str) auto
  then show ?case
  proof cases
    case 2
    have "printfmt str ap (cnt + 1) (putc c out) = map_option (\<lambda>(t, k). (cnt + 1 + k, putc c out @ t)) (ufmt_ref str ap)"
      using "2.IH"(1) 2 by simp
    then show ?thesis using 2
      by (subst printfmt.simps) (cases "ufmt_ref str ap", auto simp: putc_def algebra_simps)
  next
    case (4 d str')
    show ?thesis
    proof (cases "uconv_ref d ap")
      case None
      then show ?thesis using 4 by (subst printfmt.simps) (simp add: u_convert_run)
    next
      case (Some x)
      obtain u j ap' where x: "uconv_ref d ap = Some (u, j, ap')" using Some by (cases x) auto
      have "printfmt str' ap' (cnt + j) (out @ u) = map_option (\<lambda>(t, k). (cnt + j + k, (out @ u) @ t)) (ufmt_ref str' ap')"
        using "2.IH"(2) [OF _ _ 4(2) x] 4 by simp
      then show ?thesis using 4 x
        by (subst printfmt.simps) (cases "ufmt_ref str' ap'", auto simp: u_convert_run algebra_simps)
    qed
  qed (subst printfmt.simps; simp)+
qed

text \<open>C33: \<^verbatim>\<open>printf\<close> ends on every format, prints what the reference formatter gives and is undefined exactly where that
  is; a negative number \<open>n\<close> appears as \<open>-\<close> followed by \<open>2 ^ 31 + n\<close>, and the count starts at whatever the stack holds.\<close>

theorem printf_correct: "printf junk str ap = map_option (\<lambda>(t, k). (junk + k, t)) (ufmt_ref str ap)"
  by (simp add: printf_def printfmt_run)

end
