(* ===== verification/Mkfs.thy ===== *)
theory Mkfs
  imports Inode
begin

text \<open>
  The builder of file systems (lib/mkfs.c, lib/mkfs.h), a program of the host.

  The image is a function from sectors to blocks.  The calls of the host succeed, except for reading behind the end of
  the image, which has \<open>FSSIZE\<close> sectors; the input files are given by their names and contents.  \<^const>\<open>None\<close> is the
  end of the program by such a read or a failed assertion, or an access behind the array of an indirect block.  \<^verbatim>\<open>xint\<close> and
  \<^verbatim>\<open>xshort\<close> store numbers with the least significant byte first, as the numbers in blocks of \<open>Fs_State\<close> are; a
  \<^verbatim>\<open>struct d_inode\<close> is read into the fields of an inode.
\<close>

definition NINODES :: nat where "NINODES = 200"
definition MAXFILE :: nat where "MAXFILE = NDIRECT + NINDIRECT + NDINDIRECT"
definition nbitmap :: nat where "nbitmap = FSSIZE div (BLKSIZE * 8) + 1"
definition ninodeblocks :: nat where "ninodeblocks = NINODES div IPB + 1"
definition nlog :: nat where "nlog = LOGSIZE"
definition nmeta :: nat where "nmeta = 2 + nlog + ninodeblocks + nbitmap"
definition data_blocks :: nat where "data_blocks = FSSIZE - nmeta"
definition sb_inode_start :: nat where "sb_inode_start = 2 + nlog"
definition sb_bitmap_start :: nat where "sb_bitmap_start = 2 + nlog + ninodeblocks"

record mk =
  img :: "nat \<Rightarrow> block"
  freeinode :: nat
  freeblock :: nat

section \<open>Sectors and inodes\<close>

definition wsect :: "nat \<Rightarrow> block \<Rightarrow> mk \<Rightarrow> mk" where
  "wsect sec buf s = s\<lparr>img := (img s)(sec := buf)\<rparr>"

definition rsect :: "nat \<Rightarrow> mk \<Rightarrow> block option" where
  "rsect sec s = (if sec < FSSIZE then Some (img s sec) else None)"

definition mk_iblock :: "nat \<Rightarrow> nat" where "mk_iblock inum = inum div IPB + sb_inode_start"

definition winode :: "nat \<Rightarrow> inode \<Rightarrow> mk \<Rightarrow> mk option" where
  "winode inum ip s = do {
     let bn = mk_iblock inum;
     buf \<leftarrow> rsect bn s;
     Some (wsect bn (put_d_inode (d_inode_off inum) ip buf) s)
   }"

definition rinode :: "nat \<Rightarrow> mk \<Rightarrow> inode option" where
  "rinode inum s = do { buf \<leftarrow> rsect (mk_iblock inum) s; Some (get_d_inode (d_inode_off inum) buf inode_zero) }"

definition mk_ialloc :: "nat \<Rightarrow> mk \<Rightarrow> (nat \<times> mk) option" where
  "mk_ialloc type s =
     (let inum = freeinode s;
          s = s\<lparr>freeinode := freeinode s + 1\<rparr>;
          din = inode_zero\<lparr>itype := type, nlink := 1, file_siz := 0\<rparr>
      in map_option (Pair inum) (winode inum din s))"

text \<open>The bits of the used blocks.\<close>

fun set_bits :: "nat \<Rightarrow> block \<Rightarrow> block" where
  "set_bits 0 buf = buf"
| "set_bits (Suc i) buf = (let buf = set_bits i buf in buf(i div 8 := set_bit (i mod 8) (buf (i div 8))))"

definition mk_balloc :: "nat \<Rightarrow> mk \<Rightarrow> mk option" where
  "mk_balloc used s = (if used < BLKSIZE * 8 then Some (wsect sb_bitmap_start (set_bits used (\<lambda>_. 0)) s) else None)"

section \<open>Appending to a file\<close>

definition next_block :: "mk \<Rightarrow> nat \<times> mk" where
  "next_block s = (freeblock s, s\<lparr>freeblock := freeblock s + 1\<rparr>)"

definition set_addr :: "nat \<Rightarrow> nat \<Rightarrow> inode \<Rightarrow> inode" where
  "set_addr j a din = din\<lparr>blk_addrs := (blk_addrs din)(j := a)\<rparr>"

text \<open>An address of the inode, filled when it is 0, and the block of the file, with an entry of the indirect block.\<close>

definition need_addr :: "nat \<Rightarrow> inode \<Rightarrow> mk \<Rightarrow> inode \<times> mk" where
  "need_addr j din s = (if blk_addrs din j = 0 then let (a, s) = next_block s in (set_addr j a din, s) else (din, s))"

definition file_block :: "nat \<Rightarrow> inode \<Rightarrow> mk \<Rightarrow> (nat \<times> inode \<times> mk) option" where
  "file_block fbn din s =
     (if fbn < NDIRECT then let (din, s) = need_addr fbn din s in Some (blk_addrs din fbn, din, s)
      else if NINDIRECT \<le> fbn - NDIRECT then None
      else do {
        let (din, s) = need_addr NDIRECT din s;
        indirect \<leftarrow> rsect (blk_addrs din NDIRECT) s;
        let e = 4 * (fbn - NDIRECT);
        if get32 indirect e = 0
        then let (a, s) = next_block s; indirect = put32 e a indirect
             in Some (a, din, wsect (blk_addrs din NDIRECT) indirect s)
        else Some (get32 indirect e, din, s)
      })"

lemma block_left: "0 < (off div BLKSIZE + 1) * BLKSIZE - off"
  by (simp add: BLKSIZE_def)

function iappend_loop :: "u8 list \<Rightarrow> nat \<Rightarrow> inode \<Rightarrow> mk \<Rightarrow> (nat \<times> inode \<times> mk) option" where
  "iappend_loop p off din s =
     (if p = [] then Some (off, din, s)
      else
        let fbn = off div BLKSIZE in
        if MAXFILE \<le> fbn then None
        else do {
          (x, din, s) \<leftarrow> file_block fbn din s;
          let n1 = min (length p) ((fbn + 1) * BLKSIZE - off);
          buf \<leftarrow> rsect x s;
          iappend_loop (drop n1 p) (off + n1) din (wsect x (put_bytes (off - fbn * BLKSIZE) (take n1 p) buf) s)
        })"
  by pat_completeness auto
termination
  by (relation "measure (\<lambda>(p, off, din, s). length p)") (use block_left in auto)

definition iappend :: "nat \<Rightarrow> u8 list \<Rightarrow> mk \<Rightarrow> mk option" where
  "iappend inum xp s = do {
     din \<leftarrow> rinode inum s;
     (off, din, s) \<leftarrow> iappend_loop xp (file_siz din) din s;
     winode inum (din\<lparr>file_siz := off\<rparr>) s
   }"

section \<open>The program\<close>

text \<open>A directory entry; \<^verbatim>\<open>strncpy\<close> of the host fills the name with zeros.\<close>

definition mk_dirent :: "nat \<Rightarrow> u8 list \<Rightarrow> u8 list" where
  "mk_dirent inum nm = [of_nat inum, of_nat (inum div 256)] @ take DIRSIZ (nm @ replicate DIRSIZ 0)"

definition super_block :: block where
  "super_block = put32 24 sb_bitmap_start (put32 20 sb_inode_start (put32 16 2 (put32 12 nlog (put32 8 NINODES
     (put32 4 data_blocks (put32 0 FSSIZE (\<lambda>_. 0)))))))"

text \<open>The rounds of the copying loop: the contents in pieces of a block.\<close>

function append_file :: "nat \<Rightarrow> u8 list \<Rightarrow> mk \<Rightarrow> mk option" where
  "append_file inum xs s =
     (if xs = [] then Some s
      else do { s \<leftarrow> iappend inum (take BLKSIZE xs) s; append_file inum (drop BLKSIZE xs) s })"
  by pat_completeness auto
termination
  by (relation "measure (\<lambda>(inum, xs, s). length xs)") (auto simp: BLKSIZE_def)

definition strip_name :: "u8 list \<Rightarrow> u8 list" where
  "strip_name nm = (if take 1 nm = [0x5F] then tl nm else nm)"

fun add_files :: "nat \<Rightarrow> (u8 list \<times> u8 list) list \<Rightarrow> mk \<Rightarrow> mk option" where
  "add_files rootino [] s = Some s"
| "add_files rootino ((nm, xs) # fs) s =
     (if 0x2F \<in> set nm then None
      else do {
        (inum, s) \<leftarrow> mk_ialloc T_FILE s;
        s \<leftarrow> iappend rootino (mk_dirent inum (strip_name nm)) s;
        s \<leftarrow> append_file inum xs s;
        add_files rootino fs s
      })"

definition round_root :: "nat \<Rightarrow> mk \<Rightarrow> mk option" where
  "round_root rootino s = do {
     din \<leftarrow> rinode rootino s;
     winode rootino (din\<lparr>file_siz := (file_siz din div BLKSIZE + 1) * BLKSIZE\<rparr>) s
   }"

definition mkfs :: "(u8 list \<times> u8 list) list \<Rightarrow> mk option" where
  "mkfs fs = do {
     let s = \<lparr>img = (\<lambda>_ _. 0), freeinode = 1, freeblock = nmeta\<rparr>;
     let s = wsect 1 super_block s;
     (rootino, s) \<leftarrow> mk_ialloc T_DIR s;
     if rootino \<noteq> ROOTINO then None
     else do {
       s \<leftarrow> iappend rootino (mk_dirent rootino [0x2E]) s;
       s \<leftarrow> iappend rootino (mk_dirent rootino [0x2E, 0x2E]) s;
       s \<leftarrow> add_files rootino fs s;
       s \<leftarrow> round_root rootino s;
       mk_balloc (freeblock s) s
     }
   }"

declare iappend_loop.simps [simp del] append_file.simps [simp del]

end
