(* ===== verification/Mkfs_Base.thy ===== *)
theory Mkfs_Base
  imports Mkfs Inode_Props
begin

text \<open>
  The blocks of the files of an image: \<open>disk_inv\<close> says that no block is used twice and that free blocks are zero.  The loop of
  \<^verbatim>\<open>iappend\<close> appends bytes to one file, keeps all others and this invariant.
\<close>

section \<open>The blocks of all files\<close>

lemma mk_consts: "nmeta = 127" "sb_inode_start = 122" "sb_bitmap_start = 126" "FSSIZE = 5000" "BLKSIZE = 4096" "NDIRECT = 11" "NINDIRECT = 1024"
  "IPB = 64" "MAXFILE = 1049611"
  by (simp_all add: nmeta_def nlog_def LOGSIZE_def ninodeblocks_def NINODES_def IPB_def BLKSIZE_def nbitmap_def FSSIZE_def sb_inode_start_def
      sb_bitmap_start_def NDIRECT_def NINDIRECT_def MAXFILE_def NDINDIRECT_def)

text \<open>\<open>D i\<close> is inode \<open>i\<close>, \<open>g\<close> the image.  The slots of an inode are its addresses and the entries of its indirect block.\<close>

definition slot :: "(nat \<Rightarrow> inode) \<Rightarrow> (nat \<Rightarrow> block) \<Rightarrow> nat \<Rightarrow> nat \<Rightarrow> nat" where
  "slot D g i j =
     (if j < 12 then blk_addrs (D i) j
      else if blk_addrs (D i) 11 = 0 then 0 else get32 (g (blk_addrs (D i) 11)) (4 * (j - 12)))"

text \<open>The slot of the \<open>f\<close>-th block of a file, and the byte at an offset.\<close>

definition dslot :: "nat \<Rightarrow> nat" where "dslot f = (if f < 11 then f else f + 1)"

definition byte_at :: "(nat \<Rightarrow> inode) \<Rightarrow> (nat \<Rightarrow> block) \<Rightarrow> nat \<Rightarrow> nat \<Rightarrow> u8" where
  "byte_at D g i k = g (slot D g i (dslot (k div 4096))) (k mod 4096)"

definition fbytes :: "(nat \<Rightarrow> inode) \<Rightarrow> (nat \<Rightarrow> block) \<Rightarrow> nat \<Rightarrow> u8 list" where
  "fbytes D g i = map (byte_at D g i) [0..<file_siz (D i)]"

definition max_size :: nat where "max_size = 1035 * 4096"

text \<open>Used blocks lie behind the metadata and in front of the next free one, no block is used twice, the free blocks are
  zero, and the bytes of a file have blocks.\<close>

definition disk_inv :: "(nat \<Rightarrow> inode) \<Rightarrow> (nat \<Rightarrow> block) \<Rightarrow> nat \<Rightarrow> bool" where
  "disk_inv D g fb \<longleftrightarrow> nmeta \<le> fb \<and>
     (\<forall>i < 256. \<forall>j < 1036. slot D g i j \<noteq> 0 \<longrightarrow> nmeta \<le> slot D g i j \<and> slot D g i j < fb) \<and>
     (\<forall>i < 256. \<forall>j < 1036. \<forall>i' < 256. \<forall>j' < 1036. slot D g i j \<noteq> 0 \<longrightarrow> slot D g i j = slot D g i' j' \<longrightarrow> i = i' \<and> j = j') \<and>
     (\<forall>b \<ge> fb. \<forall>k < 4096. g b k = 0) \<and>
     (\<forall>i < 256. file_siz (D i) \<le> max_size) \<and>
     (\<forall>i < 256. \<forall>k < file_siz (D i). slot D g i (dslot (k div 4096)) \<noteq> 0)"

lemma disk_invD:
  assumes "disk_inv D g fb"
  shows "nmeta \<le> fb" "i < 256 \<Longrightarrow> j < 1036 \<Longrightarrow> slot D g i j \<noteq> 0 \<Longrightarrow> nmeta \<le> slot D g i j \<and> slot D g i j < fb"
    "i < 256 \<Longrightarrow> j < 1036 \<Longrightarrow> i' < 256 \<Longrightarrow> j' < 1036 \<Longrightarrow> slot D g i j \<noteq> 0 \<Longrightarrow> slot D g i j = slot D g i' j' \<Longrightarrow> i = i' \<and> j = j'"
    "fb \<le> b \<Longrightarrow> k < 4096 \<Longrightarrow> g b k = 0" "i < 256 \<Longrightarrow> file_siz (D i) \<le> max_size"
    "i < 256 \<Longrightarrow> k < file_siz (D i) \<Longrightarrow> slot D g i (dslot (k div 4096)) \<noteq> 0"
  using assms unfolding disk_inv_def by blast+

lemma dslot_simps: "f < 1035 \<Longrightarrow> dslot f < 1036" "dslot f \<noteq> 11" "dslot f = dslot f' \<longleftrightarrow> f = f'"
  by (auto simp: dslot_def)

lemma size_block: "k < n \<Longrightarrow> n \<le> max_size \<Longrightarrow> k div 4096 < 1035"
  by (simp add: max_size_def)

text \<open>A new block in an empty slot.\<close>

lemma disk_inv_add:
  assumes inv: "disk_inv D g fb" and s: "slot D g i j = 0" "i < 256" "j < 1036"
    and upd: "\<And>i' j'. i' < 256 \<Longrightarrow> j' < 1036 \<Longrightarrow> slot D' g' i' j' = (if i' = i \<and> j' = j then fb else slot D g i' j')"
    and g: "\<And>b k. fb < b \<Longrightarrow> k < 4096 \<Longrightarrow> g' b k = 0" and sz: "\<And>i'. file_siz (D' i') = file_siz (D i')"
  shows "disk_inv D' g' (fb + 1)"
  unfolding disk_inv_def
proof (intro conjI allI impI)
  note d = disk_invD [OF inv]
  have fb: "slot D g a b \<noteq> fb" if "a < 256" "b < 1036" for a b using d(1) d(2) [OF that] mk_consts(1) by (cases "slot D g a b = 0") auto
  show "nmeta \<le> fb + 1" using d(1) by simp
  fix a b :: nat
  assume a: "a < 256"
  show "file_siz (D' a) \<le> max_size" using d(5) [OF a] sz by simp
  show "slot D' g' a (dslot (k div 4096)) \<noteq> 0" if k: "k < file_siz (D' a)" for k
  proof -
    have "dslot (k div 4096) < 1036" using size_block [of k "file_siz (D a)"] k sz d(5) [OF a] dslot_simps(1) by simp
    then show ?thesis using upd [OF a] d(6) [OF a, of k] k sz d(1) mk_consts(1) by simp
  qed
  assume b: "b < 1036"
  show "nmeta \<le> slot D' g' a b" "slot D' g' a b < fb + 1" if "slot D' g' a b \<noteq> 0"
    using that upd [OF a b] d(1) d(2) [OF a b] by (auto split: if_splits)
  fix a' b' :: nat
  assume a': "a' < 256" and b': "b' < 1036" and n: "slot D' g' a b \<noteq> 0" "slot D' g' a b = slot D' g' a' b'"
  show "a = a'" "b = b'"
    using n upd [OF a b] upd [OF a' b'] fb [OF a b] fb [OF a' b'] d(3) [OF a b a' b'] by (auto split: if_splits)
qed (use g in simp)

lemma bytes_add:
  assumes inv: "disk_inv D g fb" and s: "slot D g i j = 0"
    and upd: "\<And>i' j'. i' < 256 \<Longrightarrow> j' < 1036 \<Longrightarrow> slot D' g' i' j' = (if i' = i \<and> j' = j then fb else slot D g i' j')"
    and g: "\<And>a b. a < 256 \<Longrightarrow> b < 1036 \<Longrightarrow> b \<noteq> 11 \<Longrightarrow> slot D g a b \<noteq> 0 \<Longrightarrow> g' (slot D g a b) = g (slot D g a b)"
    and sz: "\<And>i'. file_siz (D' i') = file_siz (D i')" and a: "a < 256"
  shows "fbytes D' g' a = fbytes D g a"
  unfolding fbytes_def sz
proof (intro map_cong refl)
  fix k
  assume "k \<in> set [0..<file_siz (D a)]"
  then have k: "k < file_siz (D a)" by simp
  note d = disk_invD [OF inv]
  have l: "dslot (k div 4096) < 1036" using size_block [OF k d(5) [OF a]] dslot_simps(1) by simp
  have n: "slot D g a (dslot (k div 4096)) \<noteq> 0" by (rule d(6) [OF a k])
  then have "slot D' g' a (dslot (k div 4096)) = slot D g a (dslot (k div 4096))" using upd [OF a l] s by auto
  then show "byte_at D' g' a k = byte_at D g a k" using g [OF a l dslot_simps(2) n] by (simp add: byte_at_def)
qed

text \<open>The bytes behind the end of a file are zero.\<close>

definition tail_zero :: "(nat \<Rightarrow> inode) \<Rightarrow> (nat \<Rightarrow> block) \<Rightarrow> bool" where
  "tail_zero D g \<longleftrightarrow> (\<forall>i < 256. \<forall>k < max_size. file_siz (D i) \<le> k \<longrightarrow> slot D g i (dslot (k div 4096)) \<noteq> 0 \<longrightarrow> byte_at D g i k = 0)"

lemma tail_zeroD:
  "tail_zero D g \<Longrightarrow> i < 256 \<Longrightarrow> file_siz (D i) \<le> k \<Longrightarrow> k < max_size \<Longrightarrow> slot D g i (dslot (k div 4096)) \<noteq> 0 \<Longrightarrow> byte_at D g i k = 0"
  by (simp add: tail_zero_def)

lemma tail_add:
  assumes z: "tail_zero D g"
    and upd: "\<And>i' j'. i' < 256 \<Longrightarrow> j' < 1036 \<Longrightarrow> slot D' g' i' j' = (if i' = i \<and> j' = j then fb else slot D g i' j')"
    and g: "\<And>a b. a < 256 \<Longrightarrow> b < 1036 \<Longrightarrow> b \<noteq> 11 \<Longrightarrow> slot D g a b \<noteq> 0 \<Longrightarrow> g' (slot D g a b) = g (slot D g a b)"
    and sz: "\<And>i'. file_siz (D' i') = file_siz (D i')" and new: "\<And>k. k < 4096 \<Longrightarrow> g' fb k = 0"
  shows "tail_zero D' g'"
  unfolding tail_zero_def sz
proof (intro allI impI)
  fix a k
  assume a: "a < 256" and k: "k < max_size" "file_siz (D a) \<le> k" and n: "slot D' g' a (dslot (k div 4096)) \<noteq> 0"
  have l: "dslot (k div 4096) < 1036" using k(1) dslot_simps(1) by (simp add: max_size_def)
  show "byte_at D' g' a k = 0"
  proof (cases "a = i \<and> dslot (k div 4096) = j")
    case True
    then show ?thesis using upd [OF a l] new by (simp add: byte_at_def)
  next
    case False
    then have e: "slot D' g' a (dslot (k div 4096)) = slot D g a (dslot (k div 4096))" using upd [OF a l] by auto
    then have "byte_at D' g' a k = byte_at D g a k" using n g [OF a l dslot_simps(2)] by (simp add: byte_at_def)
    then show ?thesis using tail_zeroD [OF z a k(2,1)] n e by simp
  qed
qed

lemma zero_entry: "(\<And>k. k < 4096 \<Longrightarrow> b k = 0) \<Longrightarrow> j < 1024 \<Longrightarrow> get32 b (4 * j) = 0"
  by (simp add: get32_def get16_def)

lemma add_addr:
  assumes inv: "disk_inv D g fb" and j: "i < 256" "j < 12" "blk_addrs (D i) j = 0"
  shows "disk_inv (D(i := set_addr j fb (D i))) g (fb + 1)"
    "a < 256 \<Longrightarrow> fbytes (D(i := set_addr j fb (D i))) g a = fbytes D g a"
    "i' < 256 \<Longrightarrow> j' < 1036 \<Longrightarrow> slot (D(i := set_addr j fb (D i))) g i' j' = (if i' = i \<and> j' = j then fb else slot D g i' j')"
    "tail_zero D g \<Longrightarrow> tail_zero (D(i := set_addr j fb (D i))) g"
proof -
  note d = disk_invD [OF inv]
  have fb: "fb \<noteq> 0" using d(1) mk_consts(1) by simp
  show upd: "slot (D(i := set_addr j fb (D i))) g i' j' = (if i' = i \<and> j' = j then fb else slot D g i' j')" if "i' < 256" "j' < 1036" for i' j'
  proof (cases "i' = i \<and> j = 11 \<and> 12 \<le> j'")
    case True
    then have "get32 (g fb) (4 * (j' - 12)) = 0" using that d(4) by (intro zero_entry) auto
    then show ?thesis using True j fb by (simp add: slot_def set_addr_def)
  next
    case False
    then show ?thesis using j by (auto simp: slot_def set_addr_def)
  qed
  have s: "slot D g i j = 0" "j < 1036" using j by (simp_all add: slot_def)
  show "disk_inv (D(i := set_addr j fb (D i))) g (fb + 1)"
    by (rule disk_inv_add [OF inv s(1) j(1) s(2) upd]) (use d(4) in \<open>auto simp: set_addr_def\<close>)
  show "a < 256 \<Longrightarrow> fbytes (D(i := set_addr j fb (D i))) g a = fbytes D g a"
    by (rule bytes_add [OF inv s(1) upd]) (auto simp: set_addr_def)
  show "tail_zero D g \<Longrightarrow> tail_zero (D(i := set_addr j fb (D i))) g"
    by (rule tail_add [OF _ upd]) (use d(4) in \<open>auto simp: set_addr_def\<close>)
qed

lemma add_entry:
  assumes inv: "disk_inv D g fb" and j: "i < 256" "12 \<le> j" "j < 1036" "blk_addrs (D i) 11 = x" "x \<noteq> 0" "slot D g i j = 0" and fb: "fb < 2 ^ 32"
  defines "g' \<equiv> g(x := put32 (4 * (j - 12)) fb (g x))"
  shows "disk_inv D g' (fb + 1)" "a < 256 \<Longrightarrow> fbytes D g' a = fbytes D g a" "slot D g' i j = fb" "tail_zero D g \<Longrightarrow> tail_zero D g'"
proof -
  note d = disk_invD [OF inv]
  have x: "slot D g i 11 = x" using j by (simp add: slot_def)
  then have xb: "nmeta \<le> x" "x < fb" using d(2) [of i 11] j by simp_all
  have own: "i' = i \<and> j' = 11" if "i' < 256" "j' < 1036" "slot D g i' j' = x" for i' j'
    using d(3) [of i 11 i' j'] that x j by simp
  have upd: "slot D g' i' j' = (if i' = i \<and> j' = j then fb else slot D g i' j')" if "i' < 256" "j' < 1036" for i' j'
  proof (cases "12 \<le> j' \<and> blk_addrs (D i') 11 = x")
    case True
    then have "i' = i" using own [of i' 11] that by (simp add: slot_def)
    moreover have "4 * (j' - 12) + 3 < 4 * (j - 12) \<or> 4 * (j - 12) + 3 < 4 * (j' - 12)" if "j' \<noteq> j" using that True j by linarith
    ultimately show ?thesis using True j fb by (auto simp: slot_def g'_def)
  next
    case False
    then show ?thesis using j by (auto simp: slot_def g'_def)
  qed
  show "slot D g' i j = fb" using upd [OF j(1,3)] by simp
  show "disk_inv D g' (fb + 1)"
    by (rule disk_inv_add [OF inv j(6,1,3) upd]) (use d(4) xb in \<open>auto simp: g'_def\<close>)
  show "a < 256 \<Longrightarrow> fbytes D g' a = fbytes D g a"
  proof (rule bytes_add [OF inv j(6) upd])
    show "g' (slot D g a b) = g (slot D g a b)" if "a < 256" "b < 1036" "b \<noteq> 11" for a b
      using own [OF that(1,2)] that(3) by (auto simp: g'_def)
  qed auto
  show "tail_zero D g \<Longrightarrow> tail_zero D g'"
  proof (rule tail_add [OF _ upd])
    show "g' (slot D g a b) = g (slot D g a b)" if "a < 256" "b < 1036" "b \<noteq> 11" for a b
      using own [OF that(1,2)] that(3) by (auto simp: g'_def)
    show "g' fb k = 0" if "k < 4096" for k using d(4) [OF _ that] xb by (simp add: g'_def)
  qed auto
qed

text \<open>Writing into a block of a file.\<close>

lemma write_block:
  assumes inv: "disk_inv D g fb" and f: "i < 256" "f < 1035" "slot D g i (dslot f) = x" "x \<noteq> 0" "z + length ys \<le> 4096"
  defines "g' \<equiv> g(x := put_bytes z ys (g x))"
  shows "i' < 256 \<Longrightarrow> j' < 1036 \<Longrightarrow> slot D g' i' j' = slot D g i' j'" "disk_inv D g' fb"
    "i' < 256 \<Longrightarrow> k div 4096 < 1035 \<Longrightarrow> slot D g i' (dslot (k div 4096)) \<noteq> 0 \<Longrightarrow>
      byte_at D g' i' k = (if i' = i \<and> f * 4096 + z \<le> k \<and> k < f * 4096 + z + length ys then ys ! (k - (f * 4096 + z)) else byte_at D g i' k)"
proof -
  note d = disk_invD [OF inv]
  have l: "dslot f < 1036" using f(2) dslot_simps(1) by simp
  have own: "i' = i \<and> j' = dslot f" if "i' < 256" "j' < 1036" "slot D g i' j' = x" for i' j'
    using d(3) [of i "dslot f" i' j'] that f l by simp
  show upd: "slot D g' i' j' = slot D g i' j'" if "i' < 256" "j' < 1036" for i' j'
  proof -
    have "blk_addrs (D i') 11 \<noteq> x" using own [of i' 11] that dslot_simps(2) [of f] by (auto simp: slot_def)
    then show ?thesis by (simp add: slot_def g'_def)
  qed
  have xb: "x < fb" using d(2) [of i "dslot f"] f l by simp
  show "disk_inv D g' fb"
    unfolding disk_inv_def
  proof (intro conjI allI impI)
    show "nmeta \<le> fb" by (rule d(1))
    show "g' b k = 0" if "fb \<le> b" "k < 4096" for b k using d(4) [OF that] that(1) xb by (simp add: g'_def)
    fix a b :: nat
    assume a: "a < 256"
    show "file_siz (D a) \<le> max_size" by (rule d(5) [OF a])
    show "slot D g' a (dslot (k div 4096)) \<noteq> 0" if k: "k < file_siz (D a)" for k
      using upd [OF a, of "dslot (k div 4096)"] d(6) [OF a k] size_block [OF k d(5) [OF a]] dslot_simps(1) by simp
    assume b: "b < 1036"
    show "nmeta \<le> slot D g' a b" "slot D g' a b < fb" if "slot D g' a b \<noteq> 0" using that upd [OF a b] d(2) [OF a b] by simp_all
    fix a' b' :: nat
    assume a': "a' < 256" and b': "b' < 1036" and n: "slot D g' a b \<noteq> 0" "slot D g' a b = slot D g' a' b'"
    show "a = a'" "b = b'" using n upd [OF a b] upd [OF a' b'] d(3) [OF a b a' b'] by simp_all
  qed
  show "byte_at D g' i' k = (if i' = i \<and> f * 4096 + z \<le> k \<and> k < f * 4096 + z + length ys then ys ! (k - (f * 4096 + z)) else byte_at D g i' k)"
    if k: "i' < 256" "k div 4096 < 1035" "slot D g i' (dslot (k div 4096)) \<noteq> 0"
  proof -
    have s: "slot D g' i' (dslot (k div 4096)) = slot D g i' (dslot (k div 4096))" using upd [OF k(1)] k(2) dslot_simps(1) by simp
    show ?thesis
    proof (cases "i' = i \<and> k div 4096 = f")
      case True
      have "k = f * 4096 + k mod 4096" using True by (metis div_mult_mod_eq)
      then have e: "f * 4096 + z \<le> k \<longleftrightarrow> z \<le> k mod 4096" "k < f * 4096 + z + length ys \<longleftrightarrow> k mod 4096 < z + length ys"
        "k - (f * 4096 + z) = k mod 4096 - z" by linarith+
      have x: "g' x = put_bytes z ys (g x)" by (simp add: g'_def)
      show ?thesis unfolding e byte_at_def using True s f(3) x by (simp add: put_bytes_def)
    next
      case False
      then have "slot D g i' (dslot (k div 4096)) \<noteq> x" using own [OF k(1), of "dslot (k div 4096)"] k(2) dslot_simps by auto
      moreover have "\<not> (i' = i \<and> f * 4096 + z \<le> k \<and> k < f * 4096 + z + length ys)" using False f(5) by auto
      ultimately show ?thesis using s by (auto simp: byte_at_def g'_def)
    qed
  qed
qed

lemma same_block: "f * 4096 + m = off \<Longrightarrow> off \<le> k \<Longrightarrow> k < off + n \<Longrightarrow> m + n \<le> 4096 \<Longrightarrow> k div 4096 = f" for f :: nat
  by (rule div_nat_eqI) simp_all

lemma write_append:
  assumes inv: "disk_inv D g fb" and i: "i < 256" "file_siz (D i) = off" "slot D g i (dslot (off div 4096)) = x" "x \<noteq> 0"
    and n: "off + length ys \<le> max_size" "off mod 4096 + length ys \<le> 4096" "ys \<noteq> []"
  defines "D2 \<equiv> D(i := (D i)\<lparr>file_siz := off + length ys\<rparr>)" and "g' \<equiv> g(x := put_bytes (off mod 4096) ys (g x))"
  shows "disk_inv D2 g' fb" "fbytes D2 g' i = fbytes D g i @ ys" "a < 256 \<Longrightarrow> a \<noteq> i \<Longrightarrow> fbytes D2 g' a = fbytes D g a"
    "tail_zero D g \<Longrightarrow> tail_zero D2 g'"
proof -
  note d = disk_invD [OF inv]
  let ?f = "off div 4096"
  have "0 < length ys" using n(3) by simp
  then have f: "?f < 1035" using n(1) unfolding max_size_def by linarith
  note w = write_block [OF inv i(1) f i(3,4) n(2)]
  have off: "?f * 4096 + off mod 4096 = off" by simp
  have sl: "slot D2 h a b = slot D h a b" for h a b by (simp add: slot_def D2_def)
  have by2: "byte_at D2 h a k = byte_at D h a k" for h a k by (simp add: byte_at_def sl)
  have blk: "k div 4096 = ?f" if "off \<le> k" "k < off + length ys" for k by (rule same_block [OF off that n(2)])
  note w2 = disk_invD [OF w(2)]
  show "disk_inv D2 g' fb"
    unfolding disk_inv_def sl g'_def
  proof (intro conjI allI impI)
    show "file_siz (D2 a) \<le> max_size" if "a < 256" for a using d(5) [OF that] n(1) by (simp add: D2_def)
    show "slot D (g(x := put_bytes (off mod 4096) ys (g x))) a (dslot (k div 4096)) \<noteq> 0" if "a < 256" "k < file_siz (D2 a)" for a k
    proof (cases "a = i \<and> off \<le> k")
      case True
      then have "k div 4096 = ?f" using that(2) blk by (simp add: D2_def)
      then show ?thesis using True w(1) [OF i(1), of "dslot ?f"] f dslot_simps(1) i(3,4) by simp
    next
      case False
      then have "k < file_siz (D a)" using that(2) i(2) by (auto simp: D2_def split: if_splits)
      then show ?thesis using w2(6) [OF that(1)] by simp
    qed
  qed (use w2 in blast)+
  show "fbytes D2 g' i = fbytes D g i @ ys"
  proof (rule nth_equalityI)
    show "length (fbytes D2 g' i) = length (fbytes D g i @ ys)" using i(2) by (simp add: fbytes_def D2_def)
    fix k
    assume "k < length (fbytes D2 g' i)"
    then have k: "k < off + length ys" by (simp add: fbytes_def D2_def)
    have "slot D g i (dslot (k div 4096)) \<noteq> 0" using d(6) [OF i(1), of k] i(2-4) blk [OF _ k] by (cases "k < off") auto
    moreover have "k div 4096 < 1035" using k n(1) size_block by simp
    ultimately have "byte_at D g' i k = (if off \<le> k then ys ! (k - off) else byte_at D g i k)"
      using w(3) [OF i(1), of k] k unfolding off g'_def by simp
    then show "fbytes D2 g' i ! k = (fbytes D g i @ ys) ! k" using k i(2) by (auto simp: fbytes_def D2_def by2 [unfolded D2_def] nth_append)
  qed
  show "fbytes D2 g' a = fbytes D g a" if a: "a < 256" "a \<noteq> i"
  proof -
    have "byte_at D g' a k = byte_at D g a k" if "k < file_siz (D a)" for k
      using w(3) [OF a(1), of k] a(2) size_block [OF that d(5) [OF a(1)]] d(6) [OF a(1) that] unfolding g'_def by simp
    moreover have "file_siz (D2 a) = file_siz (D a)" using a by (simp add: D2_def)
    ultimately show ?thesis by (simp add: fbytes_def by2)
  qed
  show "tail_zero D2 g'" if z: "tail_zero D g"
    unfolding tail_zero_def
  proof (intro allI impI)
    fix a k
    assume a: "a < 256" and k: "k < max_size" "file_siz (D2 a) \<le> k" and s: "slot D2 g' a (dslot (k div 4096)) \<noteq> 0"
    have f: "k div 4096 < 1035" using k(1) by (simp add: max_size_def)
    have s: "slot D g a (dslot (k div 4096)) \<noteq> 0" using s w(1) [OF a] dslot_simps(1) [OF f] unfolding sl g'_def by simp
    have le: "file_siz (D a) \<le> k" "\<not> (a = i \<and> k < off + length ys)" using k(2) i(2) by (auto simp: D2_def split: if_splits)
    have "byte_at D g' a k = byte_at D g a k" using w(3) [OF a f s] le(2) unfolding off g'_def by (auto split: if_splits)
    then show "byte_at D2 g' a k = 0" using tail_zeroD [OF z a le(1) k(1) s] by (simp add: by2)
  qed
qed

section \<open>The code\<close>

text \<open>What the search for the block of a file keeps; \<open>din\<close> is the copy of inode \<open>i\<close> that the code works on.\<close>

definition with_din :: "(nat \<Rightarrow> inode) \<Rightarrow> nat \<Rightarrow> nat \<Rightarrow> inode \<Rightarrow> nat \<Rightarrow> inode" where
  "with_din D i off din = D(i := din\<lparr>file_siz := off\<rparr>)"

definition same_fields :: "inode \<Rightarrow> inode \<Rightarrow> bool" where
  "same_fields din din' \<longleftrightarrow> din'\<lparr>blk_addrs := blk_addrs din, file_siz := file_siz din\<rparr> = din \<and> (\<forall>j \<ge> 12. blk_addrs din' j = blk_addrs din j)"

lemma same_fields_trans: "same_fields a b \<Longrightarrow> same_fields b c \<Longrightarrow> same_fields a c"
  unfolding same_fields_def by (cases a; cases b; cases c) auto

lemma same_fields_refl [simp]: "same_fields a a"
  by (simp add: same_fields_def)

definition grown :: "(nat \<Rightarrow> inode) \<Rightarrow> nat \<Rightarrow> nat \<Rightarrow> inode \<Rightarrow> mk \<Rightarrow> inode \<Rightarrow> mk \<Rightarrow> bool" where
  "grown D i off din s din' s' \<longleftrightarrow> disk_inv (with_din D i off din') (img s') (freeblock s') \<and>
     (\<forall>a < 256. fbytes (with_din D i off din') (img s') a = fbytes (with_din D i off din) (img s) a) \<and>
     same_fields din din' \<and> (\<forall>b < 127. img s' b = img s b) \<and> freeinode s' = freeinode s \<and>
     (tail_zero (with_din D i off din) (img s) \<longrightarrow> tail_zero (with_din D i off din') (img s'))"

lemma grown_trans: "grown D i off a s b t \<Longrightarrow> grown D i off b t c u \<Longrightarrow> grown D i off a s c u"
  unfolding grown_def by (auto intro: same_fields_trans)

lemma need_addr_grown:
  assumes inv: "disk_inv (with_din D i off din) (img s) (freeblock s)" and j: "i < 256" "j < 12"
  shows "\<exists>din' s'. need_addr j din s = (din', s') \<and> grown D i off din s din' s' \<and> blk_addrs din' j \<noteq> 0 \<and> img s' = img s \<and>
    (\<forall>j'. j' \<noteq> j \<longrightarrow> blk_addrs din' j' = blk_addrs din j') \<and> freeblock s' = freeblock s + (if blk_addrs din j = 0 then 1 else 0)"
proof (cases "blk_addrs din j = 0")
  case True
  let ?D = "with_din D i off din" and ?n = "set_addr j (freeblock s) din"
  have D: "?D(i := set_addr j (freeblock s) (?D i)) = with_din D i off ?n" by (simp add: with_din_def set_addr_def fun_eq_iff)
  have "blk_addrs (?D i) j = 0" using True by (simp add: with_din_def)
  note a = add_addr [OF inv j this, unfolded D]
  have "freeblock s \<noteq> 0" using disk_invD(1) [OF inv] mk_consts(1) by simp
  moreover have "same_fields din ?n" using j by (simp add: same_fields_def set_addr_def)
  ultimately show ?thesis using True a(1,2,4) by (simp add: need_addr_def next_block_def grown_def) (simp add: set_addr_def)
next
  case False
  then show ?thesis using inv by (simp add: need_addr_def grown_def)
qed

lemma file_block_grown:
  assumes inv: "disk_inv (with_din D i off din) (img s) (freeblock s)" and i: "i < 256" "f < 1035"
    and room: "freeblock s + (if slot (with_din D i off din) (img s) i (dslot f) = 0 then 1 else 0) + (if blk_addrs din 11 = 0 then 1 else 0) \<le> 5000"
  shows "\<exists>x din' s'. file_block f din s = Some (x, din', s') \<and> grown D i off din s din' s' \<and> x \<noteq> 0 \<and>
    slot (with_din D i off din') (img s') i (dslot f) = x \<and>
    freeblock s' + (if blk_addrs din' 11 = 0 then 1 else 0) \<le>
      freeblock s + (if slot (with_din D i off din) (img s) i (dslot f) = 0 then 1 else 0) + (if blk_addrs din 11 = 0 then 1 else 0)"
proof (cases "f < 11")
  case True
  obtain din' s' where r: "need_addr f din s = (din', s')" "grown D i off din s din' s'" "blk_addrs din' f \<noteq> 0"
    "\<forall>j'. j' \<noteq> f \<longrightarrow> blk_addrs din' j' = blk_addrs din j'" "freeblock s' = freeblock s + (if blk_addrs din f = 0 then 1 else 0)"
    using need_addr_grown [OF inv i(1), of f] True by auto
  have sl: "slot (with_din D i off e) h i (dslot f) = blk_addrs e f" for e h using True by (simp add: slot_def dslot_def with_din_def)
  have "blk_addrs din' 11 = blk_addrs din 11" using r(4) True by simp
  then show ?thesis using True r sl mk_consts(6) by (simp add: file_block_def)
next
  case False
  obtain din' s' where r: "need_addr 11 din s = (din', s')" "grown D i off din s din' s'" "blk_addrs din' 11 \<noteq> 0" "img s' = img s"
    "\<forall>j'. j' \<noteq> 11 \<longrightarrow> blk_addrs din' j' = blk_addrs din j'" "freeblock s' = freeblock s + (if blk_addrs din 11 = 0 then 1 else 0)"
    using need_addr_grown [OF inv i(1), of 11] by auto
  let ?D = "with_din D i off din'" and ?x = "blk_addrs din' 11" and ?j = "f + 1"
  have inv': "disk_inv ?D (img s') (freeblock s')" using r(2) by (simp add: grown_def)
  have x: "slot ?D (img s') i 11 = ?x" by (simp add: slot_def with_din_def)
  have xr: "nmeta \<le> ?x" "?x < freeblock s'" using disk_invD(2) [OF inv' i(1), of 11] x r(3) by simp_all
  have fb: "freeblock s' \<le> 5000" using r(6) room by (auto split: if_splits)
  have ds: "dslot f = ?j" "f - 11 = ?j - 12" using False by (simp_all add: dslot_def)
  have sl: "slot ?D (img s') i ?j = get32 (img s' ?x) (4 * (f - 11))" using False r(3) by (simp add: slot_def with_din_def)
  have old: "slot (with_din D i off din) (img s) i ?j = 0 \<longleftrightarrow> slot ?D (img s') i ?j = 0"
  proof (cases "blk_addrs din 11 = 0")
    case True
    then have "?x = freeblock s" using r(1) by (auto simp: need_addr_def next_block_def set_addr_def)
    then have "get32 (img s' ?x) (4 * (f - 11)) = 0" using disk_invD(4) [OF inv, of "freeblock s"] r(4) i(2) by (intro zero_entry) auto
    then show ?thesis using True False sl by (simp add: slot_def with_din_def)
  next
    case False
    then have "din' = din" "s' = s" using r(1) by (auto simp: need_addr_def)
    then show ?thesis by simp
  qed
  have small: "\<not> 1024 \<le> f - 11" using i(2) by simp
  have run: "file_block f din s =
      (if get32 (img s' ?x) (4 * (f - 11)) = 0
       then Some (freeblock s', din', s'\<lparr>freeblock := freeblock s' + 1, img := (img s')(?x := put32 (4 * (f - 11)) (freeblock s') (img s' ?x))\<rparr>)
       else Some (get32 (img s' ?x) (4 * (f - 11)), din', s'))"
    using False small r(1) xr fb by (simp add: file_block_def mk_consts rsect_def next_block_def wsect_def Let_def)
  show ?thesis
  proof (cases "slot ?D (img s') i ?j = 0")
    case True
    have fb2: "freeblock s' < 2 ^ 32" using fb by simp
    have a11: "blk_addrs (?D i) 11 = ?x" by (simp add: with_din_def)
    note e = add_entry [OF inv' i(1) _ _ a11 r(3) True fb2]
    let ?s = "s'\<lparr>freeblock := freeblock s' + 1, img := (img s')(?x := put32 (4 * (f - 11)) (freeblock s') (img s' ?x))\<rparr>"
    have "grown D i off din' s' din' ?s" using e False i(2) xr mk_consts(1) unfolding grown_def ds(2) by auto
    then have "grown D i off din s din' ?s" by (rule grown_trans [OF r(2)])
    moreover have "slot ?D (img ?s) i ?j = freeblock s'" using e(3) False i(2) unfolding ds(2) by simp
    moreover have "freeblock s' \<noteq> 0" using xr by simp
    ultimately show ?thesis using run True sl old r(3,6) unfolding ds(1) by simp
  next
    case False
    then show ?thesis using run sl old r unfolding ds(1) by simp
  qed
qed

text \<open>A run of the loop; \<open>blocks n\<close> is the number of blocks of a file of \<open>n\<close> bytes.\<close>

definition blocks :: "nat \<Rightarrow> nat" where "blocks n = (n + 4095) div 4096"

definition appended :: "(nat \<Rightarrow> inode) \<Rightarrow> nat \<Rightarrow> nat \<Rightarrow> inode \<Rightarrow> mk \<Rightarrow> u8 list \<Rightarrow> inode \<Rightarrow> mk \<Rightarrow> bool" where
  "appended D i off din s p din' s' \<longleftrightarrow> disk_inv (with_din D i (off + length p) din') (img s') (freeblock s') \<and>
     (\<forall>a < 256. fbytes (with_din D i (off + length p) din') (img s') a =
        fbytes (with_din D i off din) (img s) a @ (if a = i then p else [])) \<and>
     same_fields din din' \<and> (\<forall>b < 127. img s' b = img s b) \<and> freeinode s' = freeinode s \<and>
     (tail_zero (with_din D i off din) (img s) \<longrightarrow> tail_zero (with_din D i (off + length p) din') (img s'))"

lemma appended_trans:
  "appended D i off a s p b t \<Longrightarrow> appended D i (off + length p) b t q c u \<Longrightarrow> appended D i off a s (p @ q) c u"
  unfolding appended_def by (auto simp: add.assoc intro: same_fields_trans)

lemma grown_appended: "grown D i off a s b t \<Longrightarrow> appended D i off b t p c u \<Longrightarrow> appended D i off a s p c u"
  unfolding grown_def appended_def by (auto intro: same_fields_trans)

lemma blocks_at: "z < 4096 \<Longrightarrow> blocks (f * 4096 + z) = f + (if z = 0 then 0 else 1)"
  unfolding blocks_def by (rule div_nat_eqI) (auto split: if_splits)

lemma blocks_end: "0 < z \<Longrightarrow> z \<le> 4096 \<Longrightarrow> blocks (f * 4096 + z) = f + 1"
  unfolding blocks_def by (rule div_nat_eqI) auto

lemma blocks_mono: "m \<le> n \<Longrightarrow> blocks m \<le> blocks n"
  unfolding blocks_def by (intro div_le_mono) simp

lemma chunk_room:
  assumes "0 < n" "off mod 4096 + n \<le> 4096" "n \<le> m"
  shows "blocks (off + m) - blocks (off + n) + (if off mod 4096 = 0 then 1 else 0) = blocks (off + m) - blocks off"
proof -
  have "blocks (off div 4096 * 4096 + (off mod 4096 + n)) = off div 4096 + 1" using assms by (intro blocks_end) simp_all
  then have "blocks (off + n) = off div 4096 + 1" by (simp only: add.assoc [symmetric] div_mult_mod_eq)
  moreover have "blocks off = off div 4096 + (if off mod 4096 = 0 then 0 else 1)" using blocks_at [of "off mod 4096" "off div 4096"] by simp
  moreover have "blocks (off + n) \<le> blocks (off + m)" using assms(3) by (intro blocks_mono) simp
  ultimately show ?thesis by simp
qed

lemma write_appended:
  assumes inv: "disk_inv (with_din D i off din) (img s) (freeblock s)" and i: "i < 256" "slot (with_din D i off din) (img s) i (dslot (off div 4096)) = x" "x \<noteq> 0"
    and n: "off + length ys \<le> max_size" "off mod 4096 + length ys \<le> 4096" "ys \<noteq> []" and x: "nmeta \<le> x"
  shows "appended D i off din s ys din (wsect x (put_bytes (off mod 4096) ys (img s x)) s)"
proof -
  have "file_siz (with_din D i off din i) = off" by (simp add: with_din_def)
  note w = write_append [OF inv i(1) this i(2,3) n]
  have "(with_din D i off din)(i := (with_din D i off din i)\<lparr>file_siz := off + length ys\<rparr>) = with_din D i (off + length ys) din"
    by (simp add: with_din_def)
  note w = w [unfolded this]
  have "\<forall>b < 127. x \<noteq> b" using x mk_consts(1) by auto
  then show ?thesis using w by (auto simp: appended_def wsect_def)
qed

lemma prev_block: "0 < off mod 4096 \<Longrightarrow> (off - Suc 0) div 4096 = off div 4096" for off :: nat
proof -
  have "(f * 4096 + m - Suc 0) div 4096 = f" if "0 < m" "m < 4096" for f m :: nat using that by (intro div_nat_eqI) simp_all
  from this [of "off mod 4096" "off div 4096"] show "0 < off mod 4096 \<Longrightarrow> ?thesis" by simp
qed

lemma free_slot:
  assumes "disk_inv (with_din D i off din) g fb" "i < 256" "slot (with_din D i off din) g i (dslot (off div 4096)) = 0"
  shows "off mod 4096 = 0"
proof (rule ccontr)
  assume "off mod 4096 \<noteq> 0"
  then have "(off - 1) div 4096 = off div 4096" "off - 1 < off" by (auto intro: prev_block)
  then show False using disk_invD(6) [OF assms(1,2), of "off - 1"] assms(3) by (simp add: with_din_def)
qed

lemma chunk_ends: "off - off div 4096 * 4096 = off mod 4096" "(off div 4096 + 1) * 4096 - off = 4096 - off mod 4096" for off :: nat
proof -
  have "f * 4096 + m - f * 4096 = m" "(f + 1) * 4096 - (f * 4096 + m) = 4096 - m" for f m :: nat by simp_all
  from this [where ?f = "off div 4096" and ?m = "off mod 4096"]
  show "off - off div 4096 * 4096 = off mod 4096" "(off div 4096 + 1) * 4096 - off = 4096 - off mod 4096" by simp_all
qed

lemma iappend_loop_appends:
  assumes "disk_inv (with_din D i off din) (img s) (freeblock s)" "i < 256" "off + length p \<le> max_size"
    "freeblock s + (blocks (off + length p) - blocks off) + (if blk_addrs din 11 = 0 then 1 else 0) \<le> 5000"
  shows "\<exists>din' s'. iappend_loop p off din s = Some (off + length p, din', s') \<and> appended D i off din s p din' s' \<and>
    freeblock s' + (if blk_addrs din' 11 = 0 then 1 else 0) \<le> freeblock s + (blocks (off + length p) - blocks off) + (if blk_addrs din 11 = 0 then 1 else 0)"
  using assms
proof (induction "length p" arbitrary: p off din s rule: less_induct)
  case less
  note i = less.prems(2) and inv = less.prems(1) and sz = less.prems(3) and budget = less.prems(4)
  show ?case
  proof (cases "p = []")
    case True
    then show ?thesis using inv by (simp add: iappend_loop.simps appended_def)
  next
    case False
    define f n ys where "f = off div 4096" and "n = min (length p) ((f + 1) * 4096 - off)" and "ys = take n p"
    have fo: "f * 4096 + off mod 4096 = off" by (simp add: f_def)
    have z: "off - f * 4096 = off mod 4096" "(f + 1) * 4096 - off = 4096 - off mod 4096" unfolding f_def by (rule chunk_ends)+
    have ne: "n = min (length p) (4096 - off mod 4096)" by (simp only: n_def z(2))
    have n: "0 < n" "off mod 4096 + n \<le> 4096" "n \<le> length p" "length ys = n" "ys \<noteq> []" using False by (auto simp: ne ys_def)
    have f: "f < 1035" using fo n(1,3) sz unfolding max_size_def by linarith
    let ?z = "if slot (with_din D i off din) (img s) i (dslot f) = 0 then 1 else 0 :: nat" and ?e = "\<lambda>d. if blk_addrs d 11 = 0 then 1 else 0 :: nat"
    have room: "blocks (off + length p) - blocks (off + n) + ?z \<le> blocks (off + length p) - blocks off"
      using chunk_room [OF n(1-3)] free_slot [OF inv i] unfolding f_def by (auto split: if_splits)
    obtain x din1 s1 where b: "file_block f din s = Some (x, din1, s1)" "grown D i off din s din1 s1" "x \<noteq> 0"
      "slot (with_din D i off din1) (img s1) i (dslot f) = x" "freeblock s1 + ?e din1 \<le> freeblock s + ?z + ?e din"
      using file_block_grown [OF inv i f] room budget by force
    have inv1: "disk_inv (with_din D i off din1) (img s1) (freeblock s1)" using b(2) by (simp add: grown_def)
    have x: "nmeta \<le> x" "x < 5000" using disk_invD(2) [OF inv1 i, of "dslot f"] b(3-5) dslot_simps(1) [OF f] budget room by auto
    define s2 where "s2 = wsect x (put_bytes (off mod 4096) ys (img s1 x)) s1"
    have w: "appended D i off din1 s1 ys din1 s2"
      unfolding s2_def by (rule write_appended [OF inv1 i]) (use b(3,4) x n sz in \<open>simp_all add: f_def\<close>)
    have fb: "freeblock s2 = freeblock s1" by (simp add: s2_def wsect_def)
    have inv2: "disk_inv (with_din D i (off + n) din1) (img s2) (freeblock s2)" using w n(4) by (simp add: appended_def)
    have p: "off + n + length (drop n p) = off + length p" using n(3) by simp
    have r: "rsect x s1 = Some (img s1 x)" using x by (simp add: rsect_def mk_consts)
    have nm: "min (length p) (4096 + f * 4096 - off) = n" by (simp add: n_def)
    have run: "iappend_loop p off din s = iappend_loop (drop n p) (off + n) din1 s2"
      using False b(1) r f by (subst iappend_loop.simps) (simp add: mk_consts f_def [symmetric] nm z(1) s2_def ys_def Let_def)
    have "\<exists>din' s'. iappend_loop (drop n p) (off + n) din1 s2 = Some (off + n + length (drop n p), din', s') \<and>
        appended D i (off + n) din1 s2 (drop n p) din' s' \<and>
        freeblock s' + ?e din' \<le> freeblock s2 + (blocks (off + n + length (drop n p)) - blocks (off + n)) + ?e din1"
    proof (rule less.hyps)
      show "length (drop n p) < length p" using n(1) False by simp
      show "off + n + length (drop n p) \<le> max_size" using sz p by simp
      show "freeblock s2 + (blocks (off + n + length (drop n p)) - blocks (off + n)) + ?e din1 \<le> 5000" using fb b(5) room budget unfolding p by linarith
    qed (rule inv2 i)+
    then obtain din' s' where t: "iappend_loop (drop n p) (off + n) din1 s2 = Some (off + length p, din', s')"
      "appended D i (off + n) din1 s2 (drop n p) din' s'"
      "freeblock s' + ?e din' \<le> freeblock s2 + (blocks (off + length p) - blocks (off + n)) + ?e din1"
      unfolding p by blast
    have "appended D i off din1 s1 (ys @ drop n p) din' s'" using appended_trans [OF w] t(2) n(4) by simp
    then have "appended D i off din s p din' s'" using grown_appended [OF b(2)] by (simp add: ys_def)
    moreover have "freeblock s' + ?e din' \<le> freeblock s + (blocks (off + length p) - blocks off) + ?e din"
      using t(3) fb b(5) room by linarith
    moreover have "iappend_loop p off din s = Some (off + length p, din', s')" using run t(1) by simp
    ultimately show ?thesis by (intro exI [of _ din'] exI [of _ s'] conjI)
  qed
qed

end
