(* ===== verification/Mkfs_Props.thy ===== *)
theory Mkfs_Props
  imports Mkfs_Base
begin

text \<open>
  The builder stores files: \<^verbatim>\<open>iappend\<close> refines appending to one file, and the image that \<^verbatim>\<open>mkfs\<close> writes holds the
  given files, a root directory with their names and a bitmap of the used blocks.
\<close>

section \<open>Inodes of an image\<close>

definition inode_at :: "mk \<Rightarrow> nat \<Rightarrow> inode" where
  "inode_at s n = get_d_inode (d_inode_off n) (img s (mk_iblock n)) inode_zero"

definition image_ok :: "mk \<Rightarrow> bool" where
  "image_ok s \<longleftrightarrow> disk_inv (inode_at s) (img s) (freeblock s) \<and> tail_zero (inode_at s) (img s)"

definition file_data :: "mk \<Rightarrow> nat \<Rightarrow> u8 list" where
  "file_data s n = fbytes (inode_at s) (img s) n"

definition plain :: "inode \<Rightarrow> bool" where
  "plain r \<longleftrightarrow> r\<lparr>itype := 0, imajor := 0, iminor := 0, nlink := 0, file_siz := 0, blk_addrs := (\<lambda>_. 0)\<rparr> = inode_zero \<and> (\<forall>j \<ge> 13. blk_addrs r j = 0)"

lemma length_file_data: "length (file_data s n) = file_siz (inode_at s n)"
  by (simp add: file_data_def fbytes_def)

lemma iblock: "n < 256 \<Longrightarrow> 122 \<le> mk_iblock n \<and> mk_iblock n \<le> 125"
  by (simp add: mk_iblock_def mk_consts)

lemma rinode_at: "n < 256 \<Longrightarrow> rinode n s = Some (inode_at s n)"
  using iblock [of n] by (simp add: rinode_def rsect_def mk_consts inode_at_def)

lemma byte_less: "unat (x :: u8) < 256"
  using unsigned_less [of x] by simp

lemma get_less: "get16 d k < 65536" "get32 d k < 2 ^ 32"
proof -
  show 16: "get16 d k < 65536" for k using byte_less [of "d k"] byte_less [of "d (k + 1)"] by (simp add: get16_def)
  show "get32 d k < 2 ^ 32" using 16 [of k] 16 [of "k + 2"] by (simp add: get32_def)
qed

lemma inode_at_range: "inode_range (inode_at s n)" "plain (inode_at s n)"
  using get_less by (simp_all add: inode_at_def get_d_inode_def inode_range_def plain_def inode_zero_def NDIRECT_def)

lemma winode_at:
  assumes "i < 256" "inode_range r" "plain r"
  shows "\<exists>s'. winode i r s = Some s' \<and> freeblock s' = freeblock s \<and> freeinode s' = freeinode s \<and>
    (\<forall>n < 256. inode_at s' n = (if n = i then r else inode_at s n)) \<and> (\<forall>b. b < 122 \<or> 125 < b \<longrightarrow> img s' b = img s b)"
proof -
  define s' where "s' = wsect (mk_iblock i) (put_d_inode (d_inode_off i) r (img s (mk_iblock i))) s"
  have "winode i r s = Some s'" using iblock [OF assms(1)] by (simp add: winode_def rsect_def mk_consts s'_def Let_def)
  moreover have "inode_at s' n = (if n = i then r else inode_at s n)" for n
  proof (cases "n = i")
    case True
    have "get_d_inode (d_inode_off i) (put_d_inode (d_inode_off i) r d) inode_zero = r" for d
      using assms(3) unfolding get_put_d_inode [OF assms(2)] by (cases r) (auto simp: plain_def inode_zero_def NDIRECT_def fun_eq_iff)
    then show ?thesis using True by (simp add: inode_at_def s'_def wsect_def)
  next
    case False
    show ?thesis
    proof (cases "mk_iblock n = mk_iblock i")
      case True
      then have "n div 64 = i div 64" by (simp add: mk_iblock_def mk_consts)
      then have "n mod 64 \<noteq> i mod 64" using False by (metis div_mult_mod_eq)
      then have "d_inode_off n + 64 \<le> d_inode_off i \<or> d_inode_off i + 64 \<le> d_inode_off n" by (simp add: d_inode_off_def mk_consts) linarith
      then have "get_d_inode (d_inode_off n) (put_d_inode (d_inode_off i) r d) inode_zero = get_d_inode (d_inode_off n) d inode_zero" for d
        by (intro get_d_inode_cong put_d_inode_other) auto
      then show ?thesis using True False by (simp add: inode_at_def s'_def wsect_def)
    qed (simp add: False inode_at_def s'_def wsect_def)
  qed
  moreover have "img s' b = img s b" if "b < 122 \<or> 125 < b" for b using that iblock [OF assms(1)] by (auto simp: s'_def wsect_def)
  ultimately show ?thesis by (auto simp: s'_def wsect_def)
qed

text \<open>Only the inodes and the data blocks matter.\<close>

lemma same_image:
  assumes inv: "disk_inv D g fb" and D: "\<And>a. a < 256 \<Longrightarrow> D' a = D a" and g: "\<And>b. nmeta \<le> b \<Longrightarrow> g' b = g b"
  shows "disk_inv D' g' fb" "a < 256 \<Longrightarrow> fbytes D' g' a = fbytes D g a" "tail_zero D g \<Longrightarrow> tail_zero D' g'"
proof -
  note d = disk_invD [OF inv]
  have sl: "slot D' g' a j = slot D g a j" if "a < 256" for a j
    using D [OF that] g d(2) [OF that, of 11] by (auto simp: slot_def)
  have by1: "byte_at D' g' a k = byte_at D g a k" if "a < 256" "k < max_size" "slot D g a (dslot (k div 4096)) \<noteq> 0" for a k
    using sl [OF that(1)] g d(2) [OF that(1) dslot_simps(1) that(3)] that(2) by (simp add: byte_at_def max_size_def)
  show "disk_inv D' g' fb"
    using inv g d(1) unfolding disk_inv_def by (simp add: sl D cong: conj_cong imp_cong)
  show "fbytes D' g' a = fbytes D g a" if "a < 256"
    unfolding fbytes_def D [OF that] using d(5) [OF that] d(6) [OF that] by (intro map_cong refl by1 that) auto
  show "tail_zero D g \<Longrightarrow> tail_zero D' g'"
    unfolding tail_zero_def using by1 D sl by simp
qed

lemma image_okI:
  assumes "disk_inv D g (freeblock s)" "tail_zero D g" "\<And>a. a < 256 \<Longrightarrow> inode_at s a = D a" "\<And>b. nmeta \<le> b \<Longrightarrow> img s b = g b"
  shows "image_ok s" "a < 256 \<Longrightarrow> file_data s a = fbytes D g a"
  using same_image [OF assms(1), of "inode_at s" "img s"] assms(2-4) by (simp_all add: image_ok_def file_data_def)

section \<open>Appending\<close>

text \<open>The new blocks that a file needs when it grows by \<open>n\<close> bytes, with its indirect block.\<close>

definition no_indirect :: "mk \<Rightarrow> nat \<Rightarrow> nat" where
  "no_indirect s i = (if blk_addrs (inode_at s i) 11 = 0 then 1 else 0)"

definition growth :: "nat \<Rightarrow> nat \<Rightarrow> nat" where
  "growth m n = blocks (m + n) - blocks m"

lemma growth_add: "growth m n + growth (m + n) k = growth m (n + k)"
  using blocks_mono [of m "m + n"] blocks_mono [of "m + n" "m + n + k"] by (simp add: growth_def add.assoc)

text \<open>The specification of appending \<open>p\<close> to file \<open>i\<close>.\<close>

definition extends :: "nat \<Rightarrow> u8 list \<Rightarrow> mk \<Rightarrow> mk \<Rightarrow> bool" where
  "extends i p s s' \<longleftrightarrow> image_ok s' \<and> (\<forall>n < 256. file_data s' n = file_data s n @ (if n = i then p else [])) \<and>
     (\<forall>n < 256. itype (inode_at s' n) = itype (inode_at s n) \<and> nlink (inode_at s' n) = nlink (inode_at s n)) \<and>
     (\<forall>n < 256. n \<noteq> i \<longrightarrow> inode_at s' n = inode_at s n) \<and> (\<forall>b. b < 122 \<or> b = 126 \<longrightarrow> img s' b = img s b) \<and>
     freeinode s' = freeinode s \<and>
     freeblock s' + no_indirect s' i \<le> freeblock s + growth (length (file_data s i)) (length p) + no_indirect s i"

lemma extends_trans:
  assumes "extends i p s t" "extends i q t u" "i < 256"
  shows "extends i (p @ q) s u"
proof -
  have "length (file_data t i) = length (file_data s i) + length p" using assms(1,3) by (simp add: extends_def)
  then have "freeblock u + no_indirect u i \<le> freeblock s + growth (length (file_data s i)) (length (p @ q)) + no_indirect s i"
    using assms(1,2) growth_add [of "length (file_data s i)" "length p" "length q"] by (simp add: extends_def)
  then show ?thesis using assms(1,2) unfolding extends_def by auto
qed

lemma iappend_extends:
  assumes ok: "image_ok s" and i: "i < 256" and sz: "length (file_data s i) + length p \<le> max_size"
    and room: "freeblock s + growth (length (file_data s i)) (length p) + no_indirect s i \<le> FSSIZE"
  shows "\<exists>s'. iappend i p s = Some s' \<and> extends i p s s'"
proof -
  let ?D = "inode_at s" and ?din = "inode_at s i" and ?off = "file_siz (inode_at s i)"
  have D: "with_din ?D i ?off ?din = ?D" by (simp add: with_din_def)
  have inv: "disk_inv (with_din ?D i ?off ?din) (img s) (freeblock s)" using ok unfolding D by (simp add: image_ok_def)
  have len: "length (file_data s i) = ?off" by (rule length_file_data)
  obtain din s1 where l: "iappend_loop p ?off ?din s = Some (?off + length p, din, s1)" "appended ?D i ?off ?din s p din s1"
    "freeblock s1 + (if blk_addrs din 11 = 0 then 1 else 0) \<le> freeblock s + (blocks (?off + length p) - blocks ?off) + no_indirect s i"
    using iappend_loop_appends [OF inv i, of p] sz room unfolding len growth_def no_indirect_def mk_consts by auto
  let ?E = "with_din ?D i (?off + length p) din" and ?r = "din\<lparr>file_siz := ?off + length p\<rparr>"
  have a: "disk_inv ?E (img s1) (freeblock s1)" "tail_zero ?E (img s1)" "same_fields ?din din" "\<forall>b < 127. img s1 b = img s b" "freeinode s1 = freeinode s"
    "\<forall>n < 256. fbytes ?E (img s1) n = file_data s n @ (if n = i then p else [])"
    using l(2) ok unfolding appended_def D image_ok_def file_data_def by auto
  have f1: "freeblock s1 \<le> 5000" using l(3) room unfolding len growth_def mk_consts by auto
  have adr: "blk_addrs din j < 2 ^ 32" if "j < 13" for j
  proof (cases "j < 12")
    case True
    then have "slot ?E (img s1) i j = blk_addrs din j" by (simp add: slot_def with_din_def)
    then show ?thesis using disk_invD(2) [OF a(1) i, of j] True f1 by (cases "blk_addrs din j = 0") auto
  next
    case False
    then show ?thesis using a(3) inode_at_range(1) [of s i] that by (simp add: same_fields_def inode_range_def NDIRECT_def)
  qed
  have rr: "inode_range ?r" "plain ?r" "itype ?r = itype ?din" "nlink ?r = nlink ?din"
    using a(3) inode_at_range [of s i] adr sz len unfolding inode_range_def plain_def same_fields_def max_size_def
    by (cases din; cases ?din; auto simp: NDIRECT_def)+
  have at1: "inode_at s1 n = inode_at s n" if "n < 256" for n using a(4) iblock [OF that] by (simp add: inode_at_def)
  obtain s' where w: "winode i ?r s1 = Some s'" "freeblock s' = freeblock s1" "freeinode s' = freeinode s1"
    "\<forall>n < 256. inode_at s' n = (if n = i then ?r else inode_at s1 n)" "\<forall>b. b < 122 \<or> 125 < b \<longrightarrow> img s' b = img s1 b"
    using winode_at [OF i rr(1,2), of s1] by blast
  have run: "iappend i p s = Some s'" using l(1) w(1) by (simp add: iappend_def rinode_at [OF i])
  have E: "inode_at s' n = ?E n" if "n < 256" for n using w(4) at1 that by (simp add: with_din_def)
  have G: "img s' b = img s1 b" if "nmeta \<le> b" for b using w(5) that by (simp add: mk_consts)
  note m = image_okI [OF a(1) [folded w(2)] a(2) E G]
  have "image_ok s'" by (rule m(1))
  moreover have "\<forall>n < 256. file_data s' n = file_data s n @ (if n = i then p else [])" using m(2) a(6) by simp
  moreover have "freeblock s' + no_indirect s' i \<le> freeblock s + growth (length (file_data s i)) (length p) + no_indirect s i"
    using l(3) w(2,4) i unfolding len growth_def by (simp add: no_indirect_def)
  ultimately have "extends i p s s'" using w(3-5) at1 a(4,5) rr(3,4) unfolding extends_def by auto
  then show ?thesis using run by blast
qed

lemma append_file_extends:
  assumes "image_ok s" "i < 256" "length (file_data s i) + length p \<le> max_size"
    "freeblock s + growth (length (file_data s i)) (length p) + no_indirect s i \<le> FSSIZE"
  shows "\<exists>s'. append_file i p s = Some s' \<and> extends i p s s'"
  using assms
proof (induction "length p" arbitrary: p s rule: less_induct)
  case less
  show ?case
  proof (cases "p = []")
    case True
    then show ?thesis using less.prems by (simp add: append_file.simps extends_def growth_def)
  next
    case False
    let ?q = "take BLKSIZE p" and ?t = "drop BLKSIZE p" and ?m = "length (file_data s i)"
    have l: "length ?q + length ?t = length p" by (simp only: length_append [symmetric] append_take_drop_id)
    have g: "growth ?m (length ?q) + growth (?m + length ?q) (length ?t) = growth ?m (length p)" unfolding growth_add l ..
    have "\<exists>s1. iappend i ?q s = Some s1 \<and> extends i ?q s s1"
      by (rule iappend_extends [OF less.prems(1,2)]) (use less.prems(3,4) g l in linarith)+
    then obtain s1 where s1: "iappend i ?q s = Some s1" "extends i ?q s s1" by blast
    have m1: "length (file_data s1 i) = ?m + length ?q" using s1(2) less.prems(2) by (simp add: extends_def)
    have "\<exists>s2. append_file i ?t s1 = Some s2 \<and> extends i ?t s1 s2"
    proof (rule less.hyps)
      show "length ?t < length p" using False by (simp add: mk_consts)
      show "image_ok s1" using s1(2) by (simp add: extends_def)
      show "length (file_data s1 i) + length ?t \<le> max_size" using m1 l less.prems(3) by linarith
      show "freeblock s1 + growth (length (file_data s1 i)) (length ?t) + no_indirect s1 i \<le> FSSIZE"
        using s1(2) g less.prems(4) unfolding m1 extends_def by linarith
    qed (rule less.prems)
    then obtain s2 where s2: "append_file i ?t s1 = Some s2" "extends i ?t s1 s2" by blast
    have "append_file i p s = Some s2" using False s1(1) s2(1) by (subst append_file.simps) simp
    moreover have "extends i p s s2" using extends_trans [OF s1(2) s2(2) less.prems(2)] by simp
    ultimately show ?thesis by blast
  qed
qed

section \<open>New inodes\<close>

lemma disk_inv_clear:
  assumes inv: "disk_inv D g fb" and r: "blk_addrs r = (\<lambda>_. 0)" "file_siz r = 0"
  shows "disk_inv (D(n := r)) g fb" "a \<noteq> n \<Longrightarrow> fbytes (D(n := r)) g a = fbytes D g a" "tail_zero D g \<Longrightarrow> tail_zero (D(n := r)) g"
proof -
  have sl: "slot (D(n := r)) g a j = (if a = n then 0 else slot D g a j)" for a j using r by (simp add: slot_def)
  show "disk_inv (D(n := r)) g fb" using inv r(2) unfolding disk_inv_def sl by (auto simp: max_size_def)
  show "a \<noteq> n \<Longrightarrow> fbytes (D(n := r)) g a = fbytes D g a" by (simp add: fbytes_def byte_at_def sl)
  show "tail_zero D g \<Longrightarrow> tail_zero (D(n := r)) g" unfolding tail_zero_def byte_at_def sl by auto
qed

definition new_inode :: "nat \<Rightarrow> inode" where
  "new_inode ty = inode_zero\<lparr>itype := ty, nlink := 1, file_siz := 0\<rparr>"

lemma new_inode_ok: "ty < 65536 \<Longrightarrow> inode_range (new_inode ty)" "plain (new_inode ty)" "blk_addrs (new_inode ty) = (\<lambda>_. 0)" "file_siz (new_inode ty) = 0"
  "itype (new_inode ty) = ty" "nlink (new_inode ty) = 1"
  by (simp_all add: new_inode_def inode_range_def plain_def inode_zero_def)

definition created :: "nat \<Rightarrow> mk \<Rightarrow> mk \<Rightarrow> bool" where
  "created ty s s' \<longleftrightarrow> image_ok s' \<and> freeinode s' = freeinode s + 1 \<and> freeblock s' = freeblock s \<and>
     (\<forall>n < 256. inode_at s' n = (if n = freeinode s then new_inode ty else inode_at s n)) \<and>
     (\<forall>n < 256. file_data s' n = (if n = freeinode s then [] else file_data s n)) \<and> (\<forall>b. b < 122 \<or> b = 126 \<longrightarrow> img s' b = img s b)"

lemma mk_ialloc_created:
  assumes ok: "image_ok s" and n: "freeinode s < 256" and ty: "ty < 65536"
  shows "\<exists>s'. mk_ialloc ty s = Some (freeinode s, s') \<and> created ty s s'"
proof -
  let ?n = "freeinode s" and ?t = "s\<lparr>freeinode := freeinode s + 1\<rparr>"
  obtain s' where w: "winode ?n (new_inode ty) ?t = Some s'" "freeblock s' = freeblock ?t" "freeinode s' = freeinode ?t"
    "\<forall>n < 256. inode_at s' n = (if n = ?n then new_inode ty else inode_at ?t n)" "\<forall>b. b < 122 \<or> 125 < b \<longrightarrow> img s' b = img ?t b"
    using winode_at [OF n new_inode_ok(1) [OF ty] new_inode_ok(2), of ?t] by blast
  have run: "mk_ialloc ty s = Some (?n, s')" using w(1) by (simp add: mk_ialloc_def new_inode_def Let_def)
  have at: "inode_at ?t m = inode_at s m" for m by (simp add: inode_at_def)
  note c = disk_inv_clear [OF _ new_inode_ok(3,4) [of ty], where n = ?n]
  have inv: "disk_inv (inode_at s) (img s) (freeblock s)" "tail_zero (inode_at s) (img s)" using ok by (simp_all add: image_ok_def)
  have E: "inode_at s' m = ((inode_at s)(?n := new_inode ty)) m" if "m < 256" for m using w(4) at that by simp
  have G: "img s' b = img s b" if "nmeta \<le> b" for b using w(5) that by (simp add: mk_consts)
  have fb: "freeblock s' = freeblock s" using w(2) by simp
  note m = image_okI [OF c(1) [OF inv(1), folded fb] c(3) [OF inv] E G]
  have "file_data s' a = (if a = ?n then [] else file_data s a)" if "a < 256" for a
  proof (cases "a = ?n")
    case True
    then show ?thesis using w(4) that by (simp add: file_data_def fbytes_def new_inode_ok)
  next
    case False
    have "file_data s' a = fbytes ((inode_at s)(?n := new_inode ty)) (img s) a" using that by (intro m(2))
    also have "\<dots> = file_data s a" using c(2) [OF inv(1) False] by (simp only: file_data_def)
    finally show ?thesis using False by simp
  qed
  moreover have "image_ok s'" by (rule m(1))
  ultimately show ?thesis using run w(2-5) at unfolding created_def by (intro exI [of _ s']) auto
qed

section \<open>Files and their entries\<close>

fun entries :: "nat \<Rightarrow> (u8 list \<times> u8 list) list \<Rightarrow> u8 list" where
  "entries n [] = []"
| "entries n ((nm, xs) # fs) = mk_dirent n (strip_name nm) @ entries (Suc n) fs"

lemma length_mk_dirent [simp]: "length (mk_dirent n nm) = 16"
  by (simp add: mk_dirent_def DIRSIZ_def)

lemma length_entries [simp]: "length (entries n fs) = 16 * length fs"
  by (induction n fs rule: entries.induct) simp_all

definition need :: "(u8 list \<times> u8 list) list \<Rightarrow> nat" where
  "need fs = (\<Sum>(nm, xs) \<leftarrow> fs. blocks (length xs) + 1)"

definition added :: "nat \<Rightarrow> (u8 list \<times> u8 list) list \<Rightarrow> mk \<Rightarrow> mk \<Rightarrow> bool" where
  "added root fs s s' \<longleftrightarrow> image_ok s' \<and> freeinode s' = freeinode s + length fs \<and>
     file_data s' root = file_data s root @ entries (freeinode s) fs \<and> itype (inode_at s' root) = itype (inode_at s root) \<and>
     (\<forall>k < length fs. file_data s' (freeinode s + k) = snd (fs ! k) \<and> itype (inode_at s' (freeinode s + k)) = T_FILE \<and>
        nlink (inode_at s' (freeinode s + k)) = 1) \<and>
     (\<forall>n < freeinode s. n \<noteq> root \<longrightarrow> inode_at s' n = inode_at s n \<and> file_data s' n = file_data s n) \<and>
     (\<forall>b. b < 122 \<or> b = 126 \<longrightarrow> img s' b = img s b) \<and>
     freeblock s' + no_indirect s' root \<le> freeblock s + need fs + growth (length (file_data s root)) (16 * length fs) + no_indirect s root"

lemma added_Cons:
  assumes r: "root < freeinode s" "freeinode s < 256" and 1: "created T_FILE s s1" and 2: "extends root (mk_dirent (freeinode s) (strip_name nm)) s1 s2"
    and 3: "extends (freeinode s) xs s2 s3" and 4: "added root fs s3 s4" and n: "freeinode s + length fs < 256"
  shows "added root ((nm, xs) # fs) s s4"
proof -
  let ?n = "freeinode s"
  have i: "root < 256" "root \<noteq> ?n" "freeinode s3 = ?n + 1" using r 1 2 3 by (simp_all add: created_def extends_def)
  have d: "file_data s3 root = file_data s root @ mk_dirent ?n (strip_name nm)" "itype (inode_at s3 root) = itype (inode_at s root)"
    "file_data s3 ?n = xs" "itype (inode_at s3 ?n) = T_FILE" "nlink (inode_at s3 ?n) = 1"
    using 1 2 3 i r by (simp_all add: created_def extends_def new_inode_ok)
  have new: "file_data s4 ?n = xs" "itype (inode_at s4 ?n) = T_FILE" "nlink (inode_at s4 ?n) = 1"
    using 4 i d by (simp_all add: added_def)
  have k: "file_data s4 (?n + k) = snd (((nm, xs) # fs) ! k) \<and> itype (inode_at s4 (?n + k)) = T_FILE \<and> nlink (inode_at s4 (?n + k)) = 1"
    if "k < length ((nm, xs) # fs)" for k
    using that 4 i new by (cases k) (simp_all add: added_def)
  have old: "inode_at s4 m = inode_at s m \<and> file_data s4 m = file_data s m" if "m < ?n" "m \<noteq> root" for m
    using 1 2 3 4 i that r by (simp add: created_def extends_def added_def)
  have ind: "no_indirect s1 root = no_indirect s root" "no_indirect s3 root = no_indirect s2 root" "no_indirect s2 ?n = 1"
    using 1 2 3 i r by (simp_all add: created_def extends_def no_indirect_def new_inode_ok)
  have len: "file_data s1 root = file_data s root" "file_data s2 ?n = []" using 1 2 i r by (simp_all add: created_def extends_def)
  have "freeblock s2 + no_indirect s2 root \<le> freeblock s + growth (length (file_data s root)) 16 + no_indirect s root"
    using 1 2 unfolding created_def extends_def ind len by simp
  moreover have "freeblock s3 \<le> freeblock s2 + blocks (length xs) + 1"
    using 3 unfolding extends_def ind len by (simp add: growth_def blocks_def)
  moreover have "freeblock s4 + no_indirect s4 root \<le> freeblock s3 + need fs + growth (length (file_data s root) + 16) (16 * length fs) + no_indirect s2 root"
    using 4 unfolding added_def ind d by simp
  moreover have "growth (length (file_data s root)) 16 + growth (length (file_data s root) + 16) (16 * length fs) =
      growth (length (file_data s root)) (16 * length ((nm, xs) # fs))" unfolding growth_add by simp
  moreover have "need ((nm, xs) # fs) = blocks (length xs) + 1 + need fs" by (simp add: need_def)
  ultimately have "freeblock s4 + no_indirect s4 root \<le> freeblock s + need ((nm, xs) # fs) +
      growth (length (file_data s root)) (16 * length ((nm, xs) # fs)) + no_indirect s root" by linarith
  moreover have "file_data s4 root = file_data s root @ entries ?n ((nm, xs) # fs)" "itype (inode_at s4 root) = itype (inode_at s root)"
    using 4 d i by (simp_all add: added_def)
  moreover have "\<forall>b. b < 122 \<or> b = 126 \<longrightarrow> img s4 b = img s b"
  proof (intro allI impI)
    fix b :: nat
    assume b: "b < 122 \<or> b = 126"
    have "img s1 b = img s b" using 1 b by (auto simp: created_def)
    moreover have "img s2 b = img s1 b" "img s3 b = img s2 b" using 2 3 b by (auto simp: extends_def)
    moreover have "img s4 b = img s3 b" using 4 b by (auto simp: added_def)
    ultimately show "img s4 b = img s b" by simp
  qed
  moreover have "image_ok s4" "freeinode s4 = ?n + length ((nm, xs) # fs)" using 4 i by (simp_all add: added_def)
  ultimately show ?thesis using k old unfolding added_def by blast
qed

lemma add_files_added:
  assumes "image_ok s" "root < freeinode s" "freeinode s + length fs \<le> 256" "\<forall>(nm, xs) \<in> set fs. 0x2F \<notin> set nm \<and> length xs \<le> max_size"
    "length (file_data s root) + 16 * length fs \<le> max_size"
    "freeblock s + need fs + growth (length (file_data s root)) (16 * length fs) + no_indirect s root \<le> FSSIZE"
  shows "\<exists>s'. add_files root fs s = Some s' \<and> added root fs s s'"
  using assms
proof (induction fs arbitrary: s)
  case Nil
  then show ?case by (simp add: added_def need_def growth_def)
next
  case (Cons f fs)
  obtain nm xs where f: "f = (nm, xs)" by (cases f)
  let ?n = "freeinode s" and ?e = "mk_dirent (freeinode s) (strip_name nm)" and ?m = "length (file_data s root)"
  have n: "?n < 256" "root < 256" "root \<noteq> ?n" "length xs \<le> max_size" "0x2F \<notin> set nm" using Cons.prems(2-4) f by auto
  have nd: "need (f # fs) = blocks (length xs) + 1 + need fs" by (simp add: need_def f)
  have gr: "growth ?m 16 + growth (?m + 16) (16 * length fs) = growth ?m (16 * length (f # fs))" unfolding growth_add by simp
  obtain s1 where s1: "mk_ialloc T_FILE s = Some (?n, s1)" "created T_FILE s s1"
    using mk_ialloc_created [OF Cons.prems(1) n(1), of T_FILE] by (auto simp: T_FILE_def)
  have a1: "image_ok s1" "file_data s1 root = file_data s root" "freeblock s1 = freeblock s" "no_indirect s1 root = no_indirect s root"
    using s1(2) n by (simp_all add: created_def no_indirect_def)
  have "\<exists>s2. iappend root ?e s1 = Some s2 \<and> extends root ?e s1 s2"
    by (rule iappend_extends [OF a1(1) n(2)]) (use a1 Cons.prems(5,6) nd gr in simp_all)
  then obtain s2 where s2: "iappend root ?e s1 = Some s2" "extends root ?e s1 s2" by blast
  have a2: "image_ok s2" "file_data s2 ?n = []" "no_indirect s2 ?n = 1" "file_data s2 root = file_data s root @ ?e"
    "freeblock s2 + no_indirect s2 root \<le> freeblock s + growth ?m 16 + no_indirect s root"
    using s1(2) s2(2) n a1 unfolding created_def extends_def no_indirect_def by (simp_all add: new_inode_ok)
  have g0: "growth 0 k = blocks k" for k by (simp add: growth_def blocks_def)
  have "\<exists>s3. append_file ?n xs s2 = Some s3 \<and> extends ?n xs s2 s3"
    by (rule append_file_extends [OF a2(1) n(1)]) (use a2 n(4) Cons.prems(6) nd gr g0 in \<open>simp_all\<close>)
  then obtain s3 where s3: "append_file ?n xs s2 = Some s3" "extends ?n xs s2 s3" by blast
  have a3: "image_ok s3" "freeinode s3 = ?n + 1" "file_data s3 root = file_data s root @ ?e" "no_indirect s3 root = no_indirect s2 root"
    "freeblock s3 \<le> freeblock s2 + blocks (length xs) + 1"
    using s1(2) s2(2) s3(2) n a2 unfolding created_def extends_def no_indirect_def by (simp_all add: growth_def blocks_def)
  have "\<exists>s4. add_files root fs s3 = Some s4 \<and> added root fs s3 s4"
  proof (rule Cons.IH)
    show "freeblock s3 + need fs + growth (length (file_data s3 root)) (16 * length fs) + no_indirect s3 root \<le> FSSIZE"
      using a3(3-5) a2(5) Cons.prems(6) nd gr by simp
  qed (use a3 Cons.prems in auto)
  then obtain s4 where s4: "add_files root fs s3 = Some s4" "added root fs s3 s4" by blast
  have "add_files root (f # fs) s = Some s4" using n(5) s1(1) s2(1) s3(1) s4(1) by (simp add: f)
  moreover have "added root (f # fs) s s4"
    unfolding f by (rule added_Cons [OF Cons.prems(2) n(1) s1(2) s2(2) s3(2) s4(2)]) (use Cons.prems(3) in simp)
  ultimately show ?case by blast
qed

section \<open>The end of the program\<close>

lemma bitmap_set_bits: "bitmap_bit (set_bits u d) b \<longleftrightarrow> b < u \<or> bitmap_bit d b"
proof (induction u)
  case (Suc u)
  have m: "u mod 8 < 8" "b mod 8 < 8" by simp_all
  show ?case
  proof (cases "b div 8 = u div 8")
    case True
    then have "b mod 8 = u mod 8 \<longleftrightarrow> b = u" by (metis div_mult_mod_eq)
    then show ?thesis using True Suc m by (auto simp: bitmap_bit_def Let_def bit_set_bit_iff possible_bit_word)
  next
    case False
    then show ?thesis using Suc by (auto simp: bitmap_bit_def Let_def)
  qed
qed simp

text \<open>The directory is made as long as its block; the bytes behind its entries are zero.\<close>

lemma round_root_pads:
  assumes ok: "image_ok s" and i: "i < 256" and m: "0 < length (file_data s i)" "length (file_data s i) < 4096"
  shows "\<exists>s'. round_root i s = Some s' \<and> image_ok s' \<and> freeblock s' = freeblock s \<and>
    file_data s' i = file_data s i @ replicate (4096 - length (file_data s i)) 0 \<and> itype (inode_at s' i) = itype (inode_at s i) \<and>
    (\<forall>n < 256. n \<noteq> i \<longrightarrow> inode_at s' n = inode_at s n \<and> file_data s' n = file_data s n) \<and> (\<forall>b. b < 122 \<or> b = 126 \<longrightarrow> img s' b = img s b)"
proof -
  let ?D = "inode_at s" and ?r = "(inode_at s i)\<lparr>file_siz := 4096\<rparr>" and ?g = "img s"
  let ?E = "?D(i := ?r)"
  have sz: "0 < file_siz (?D i)" "file_siz (?D i) < 4096" using m by (simp_all add: length_file_data)
  have inv: "disk_inv ?D ?g (freeblock s)" "tail_zero ?D ?g" using ok by (simp_all add: image_ok_def)
  have sl: "slot ?E g a j = slot ?D g a j" for g a j by (simp add: slot_def)
  have by1: "byte_at ?E g a k = byte_at ?D g a k" for g a k by (simp add: byte_at_def sl)
  have s0: "slot ?D ?g i (dslot 0) \<noteq> 0" using disk_invD(6) [OF inv(1) i, of 0] sz(1) by simp
  have E1: "disk_inv ?E ?g (freeblock s)"
    using inv(1) s0 unfolding disk_inv_def sl by (auto simp: max_size_def)
  have E2: "tail_zero ?E ?g" using inv(2) sz(2) unfolding tail_zero_def sl by1 by auto
  have E3: "fbytes ?E ?g i = file_data s i @ replicate (4096 - length (file_data s i)) 0"
  proof (rule nth_equalityI)
    fix k
    assume "k < length (fbytes ?E ?g i)"
    then have k: "k < 4096" by (simp add: fbytes_def)
    have "byte_at ?D ?g i k = 0" if "file_siz (?D i) \<le> k"
      using tail_zeroD [OF inv(2) i that] k s0 by (simp add: max_size_def)
    then show "fbytes ?E ?g i ! k = (file_data s i @ replicate (4096 - length (file_data s i)) 0) ! k"
      using k sz by (simp add: fbytes_def by1 file_data_def nth_append)
  qed (use sz in \<open>simp add: fbytes_def file_data_def\<close>)
  have rr: "inode_range ?r" "plain ?r" using inode_at_range [of s i] by (simp_all add: inode_range_def plain_def)
  obtain s' where w: "winode i ?r s = Some s'" "freeblock s' = freeblock s" "\<forall>n < 256. inode_at s' n = (if n = i then ?r else inode_at s n)"
    "\<forall>b. b < 122 \<or> 125 < b \<longrightarrow> img s' b = img s b"
    using winode_at [OF i rr, of s] by blast
  have E: "inode_at s' n = ?E n" if "n < 256" for n using w(3) that by simp
  have G: "img s' b = ?g b" if "nmeta \<le> b" for b using w(4) that by (simp add: mk_consts)
  note q = image_okI [OF E1 [folded w(2)] E2 E G]
  have run: "round_root i s = Some s'" using w(1) sz(2) by (simp add: round_root_def rinode_at [OF i] mk_consts)
  have fd: "file_data s' n = fbytes ?E ?g n" if "n < 256" for n using that by (intro q(2))
  then have "file_data s' n = file_data s n" if "n < 256" "n \<noteq> i" for n
    using that unfolding fd [OF that(1)] by (simp add: file_data_def fbytes_def by1)
  moreover have "file_data s' i = file_data s i @ replicate (4096 - length (file_data s i)) 0" using fd [OF i] E3 by simp
  moreover have "image_ok s'" by (rule q(1))
  ultimately show ?thesis using run w i by auto
qed

lemma empty_image: "image_ok \<lparr>img = (\<lambda>_ _. 0)(1 := b), freeinode = 1, freeblock = nmeta\<rparr>"
proof -
  let ?s = "\<lparr>img = (\<lambda>_ _. 0)(1 := b), freeinode = 1, freeblock = nmeta\<rparr>"
  have z: "get16 (\<lambda>_. 0) k = 0" "get32 (\<lambda>_. 0) k = 0" for k by (simp_all add: get16_def get32_def)
  have at: "inode_at ?s a = inode_zero" if "a < 256" for a
    using iblock [OF that] by (simp add: inode_at_def get_d_inode_def z inode_zero_def cong: if_cong)
  have sl: "slot (\<lambda>_. inode_zero) g a j = 0" for g a j by (simp add: slot_def inode_zero_def)
  have inv: "disk_inv (\<lambda>_. inode_zero) (\<lambda>_ _. 0) nmeta" "tail_zero (\<lambda>_. inode_zero) (\<lambda>_ _. 0)"
    unfolding disk_inv_def tail_zero_def sl by (simp_all add: inode_zero_def)
  show ?thesis by (rule image_okI [OF _ inv(2)]) (use inv(1) at mk_consts(1) in auto)
qed

text \<open>The image that the builder writes for at most 198 files (the inodes 2 to 199) which fit on the disk: the file of
  argument \<open>k\<close> is the regular file of inode \<open>k + 2\<close> with its contents, inode 1 is a directory with the entries of
  itself, its parent and all files, filled up with zeros to a block, no block is used twice, the bitmap marks exactly the
  blocks that are in use, and the super block tells where everything is.\<close>

theorem mkfs_builds_files:
  assumes "length fs \<le> 198" "\<forall>(nm, xs) \<in> set fs. 0x2F \<notin> set nm \<and> length xs \<le> max_size" "nmeta + 2 + need fs \<le> FSSIZE"
  shows "\<exists>s. mkfs fs = Some s \<and> image_ok s \<and>
    (\<forall>k < length fs. file_data s (2 + k) = snd (fs ! k) \<and> itype (inode_at s (2 + k)) = T_FILE) \<and>
    itype (inode_at s ROOTINO) = T_DIR \<and>
    file_data s ROOTINO = (mk_dirent ROOTINO [0x2E] @ mk_dirent ROOTINO [0x2E, 0x2E] @ entries 2 fs) @ replicate (4096 - 16 * (length fs + 2)) 0 \<and>
    img s 1 = super_block \<and> freeblock s \<le> FSSIZE \<and> (\<forall>b. bitmap_bit (img s sb_bitmap_start) b \<longleftrightarrow> b < freeblock s)"
proof -
  define s0 where "s0 = \<lparr>img = (\<lambda>_ _. 0)(1 := super_block), freeinode = 1, freeblock = nmeta\<rparr>"
  have R: "ROOTINO = 1" by (simp add: ROOTINO_def)
  have ok0: "image_ok s0" unfolding s0_def by (rule empty_image)
  obtain s1 where s1: "mk_ialloc T_DIR s0 = Some (1, s1)" "created T_DIR s0 s1"
    using mk_ialloc_created [OF ok0, of T_DIR] by (auto simp: s0_def T_DIR_def)
  let ?d = "mk_dirent 1 [0x2E]" and ?dd = "mk_dirent 1 [0x2E, 0x2E]"
  have a1: "image_ok s1" "file_data s1 1 = []" "freeblock s1 = nmeta" "no_indirect s1 1 = 1" "freeinode s1 = 2" "itype (inode_at s1 1) = T_DIR" "img s1 1 = super_block"
    using s1(2) by (simp_all add: created_def s0_def no_indirect_def new_inode_ok)
  have g: "growth 0 16 = 1" "growth 16 16 = 0" by (simp_all add: growth_def blocks_def)
  have "\<exists>s2. iappend 1 ?d s1 = Some s2 \<and> extends 1 ?d s1 s2"
    by (rule iappend_extends [OF a1(1)]) (use a1 g assms(3) in \<open>simp_all add: max_size_def\<close>)
  then obtain s2 where s2: "iappend 1 ?d s1 = Some s2" "extends 1 ?d s1 s2" by blast
  have a2: "image_ok s2" "file_data s2 1 = ?d" "freeblock s2 + no_indirect s2 1 \<le> nmeta + 2" "freeinode s2 = 2" "itype (inode_at s2 1) = T_DIR" "img s2 1 = super_block"
    using s2(2) a1 g unfolding extends_def by simp_all
  have "\<exists>s3. iappend 1 ?dd s2 = Some s3 \<and> extends 1 ?dd s2 s3"
    by (rule iappend_extends [OF a2(1)]) (use a2 g assms(3) in \<open>simp_all add: max_size_def\<close>)
  then obtain s3 where s3: "iappend 1 ?dd s2 = Some s3" "extends 1 ?dd s2 s3" by blast
  have a3: "image_ok s3" "file_data s3 1 = ?d @ ?dd" "freeblock s3 + no_indirect s3 1 \<le> nmeta + 2" "freeinode s3 = 2" "itype (inode_at s3 1) = T_DIR" "img s3 1 = super_block"
    using s3(2) a2 g unfolding extends_def by simp_all
  have g3: "growth 32 (16 * length fs) = 0" using assms(1) by (simp add: growth_def blocks_def)
  have "\<exists>s4. add_files 1 fs s3 = Some s4 \<and> added 1 fs s3 s4"
    by (rule add_files_added [OF a3(1)]) (use a3 g3 assms in \<open>simp_all add: max_size_def\<close>)
  then obtain s4 where s4: "add_files 1 fs s3 = Some s4" "added 1 fs s3 s4" by blast
  have a4: "image_ok s4" "file_data s4 1 = (?d @ ?dd) @ entries 2 fs" "freeblock s4 \<le> nmeta + 2 + need fs" "itype (inode_at s4 1) = T_DIR" "img s4 1 = super_block"
    "\<forall>k < length fs. file_data s4 (2 + k) = snd (fs ! k) \<and> itype (inode_at s4 (2 + k)) = T_FILE"
    using s4(2) a3 g3 unfolding added_def by simp_all
  have l4: "length (file_data s4 1) = 16 * (length fs + 2)" using a4(2) by simp
  obtain s5 where s5: "round_root 1 s4 = Some s5" "image_ok s5" "freeblock s5 = freeblock s4"
    "file_data s5 1 = file_data s4 1 @ replicate (4096 - length (file_data s4 1)) 0" "itype (inode_at s5 1) = itype (inode_at s4 1)"
    "\<forall>n < 256. n \<noteq> 1 \<longrightarrow> inode_at s5 n = inode_at s4 n \<and> file_data s5 n = file_data s4 n" "\<forall>b. b < 122 \<or> b = 126 \<longrightarrow> img s5 b = img s4 b"
    using round_root_pads [OF a4(1), of 1] assms(1) unfolding l4 by auto
  define s6 where "s6 = wsect sb_bitmap_start (set_bits (freeblock s5) (\<lambda>_. 0)) s5"
  have u: "freeblock s5 \<le> FSSIZE" using s5(3) a4(3) assms(3) by simp
  then have b6: "mk_balloc (freeblock s5) s5 = Some s6" by (simp add: mk_balloc_def s6_def mk_consts)
  have w0: "wsect 1 super_block \<lparr>img = (\<lambda>_ _. 0), freeinode = 1, freeblock = nmeta\<rparr> = s0" by (simp add: wsect_def s0_def)
  have run: "mkfs fs = Some s6" unfolding mkfs_def Let_def w0 using s1(1) s2(1) s3(1) s4(1) s5(1) b6 by (simp add: R)
  have at6: "inode_at s6 n = inode_at s5 n" if "n < 256" for n using iblock [OF that] by (auto simp: inode_at_def s6_def wsect_def mk_consts)
  have inv5: "disk_inv (inode_at s5) (img s5) (freeblock s6)" "tail_zero (inode_at s5) (img s5)"
    using s5(2) by (simp_all add: image_ok_def s6_def wsect_def)
  have i6: "img s6 b = img s5 b" if "nmeta \<le> b" for b using that by (simp add: s6_def wsect_def mk_consts)
  note ok6 = image_okI [OF inv5 at6 i6]
  have fd6: "file_data s6 n = file_data s5 n" if "n < 256" for n using that unfolding file_data_def [of s5] by (intro ok6(2))
  have "image_ok s6" by (rule ok6(1))
  moreover have "file_data s6 (2 + k) = snd (fs ! k) \<and> itype (inode_at s6 (2 + k)) = T_FILE" if "k < length fs" for k
    using that a4(6) s5(6) fd6 [of "2 + k"] at6 [of "2 + k"] assms(1) by simp
  moreover have "bitmap_bit (img s6 sb_bitmap_start) b \<longleftrightarrow> b < freeblock s6" for b
    by (simp add: s6_def wsect_def bitmap_set_bits) (simp add: bitmap_bit_def)
  moreover have "img s6 1 = super_block" using s5(7) a4(5) by (simp add: s6_def wsect_def mk_consts)
  moreover have "freeblock s6 \<le> FSSIZE" using u by (simp add: s6_def wsect_def)
  moreover have "file_data s6 1 = (?d @ ?dd @ entries 2 fs) @ replicate (4096 - 16 * (length fs + 2)) 0"
    using fd6 [of 1] s5(4) unfolding l4 a4(2) by simp
  moreover have "itype (inode_at s6 1) = T_DIR" using at6 [of 1] s5(5) a4(4) by simp
  ultimately show ?thesis using run unfolding R by blast
qed

theorem mkfs_builds_files_witness:
  "\<exists>s. mkfs [([0x5F, 0x73, 0x68], [7, 8, 9])] = Some s \<and> file_data s 2 = [7, 8, 9] \<and> img s 1 = super_block"
  using mkfs_builds_files [of "[([0x5F, 0x73, 0x68], [7, 8, 9])]"] by (auto simp: max_size_def need_def blocks_def mk_consts)

end
