(* ===== verification/Spec2Isabelle.thy ===== *)
theory Spec2Isabelle
  imports Buddy_Props Slab_Props KString_Props Lock Pipe Sched_Props Ide_Props Bio_Props Log_Props Inode_Props Sysfile_Props
    Cow_Props Shell_Props Console_Props Format_Props Rbtree_Props Umalloc_Props Syscall_Props Exec_Props Uprintf_Props
    Mkfs_Props
begin

text \<open>
  A verification of the WeiOS kernel (\<^verbatim>\<open>src/\<close>), a small 32-bit x86 operating system in C.

  \<^bold>\<open>The program.\<close>  Physical memory is managed in three layers: the buddy system with per-processor page caches
  (\<^verbatim>\<open>kern/buddy.c\<close>) hands out page frames, the slab allocator (\<^verbatim>\<open>kern/slab.c\<close>, \<^verbatim>\<open>kern/kmalloc.c\<close>) cuts them into
  objects, and everything else calls \<^verbatim>\<open>kmalloc\<close>.  Processes (\<^verbatim>\<open>kern/proc.c\<close>, \<^verbatim>\<open>kern/sched.c\<close>, \<^verbatim>\<open>kern/sysfunc.c\<close>) are
  scheduled from two arrays of priority queues and sleep on wait queues under the spin locks of \<^verbatim>\<open>kern/lock.c\<close>.  The
  file system is layered: an IDE driver with an elevator queue (\<^verbatim>\<open>kern/ide.c\<close>), a block cache (\<^verbatim>\<open>kern/bio.c\<close>), a
  write-ahead log (\<^verbatim>\<open>kern/log.c\<close>), inodes, directories and paths (\<^verbatim>\<open>kern/inode.c\<close>), open files and pipes
  (\<^verbatim>\<open>kern/file.c\<close>, \<^verbatim>\<open>kern/pipe.c\<close>) and the system calls on descriptors and paths (\<^verbatim>\<open>kern/sysfile.c\<close>).  Processes have
  two-level page tables (\<^verbatim>\<open>kern/pmap.c\<close>) whose frames come from \<^verbatim>\<open>kmalloc\<close>; \<^verbatim>\<open>fork\<close> shares pages copy-on-write, and the
  page fault handler (\<^verbatim>\<open>kern/trap.c\<close>) copies them.  Text goes to the display and comes from the keyboard through the
  console (\<^verbatim>\<open>kern/console.c\<close>).  Programs enter the kernel through stubs (\<^verbatim>\<open>user/usys.c\<close>) and a dispatcher
  (\<^verbatim>\<open>kern/syscall.c\<close>), \<^verbatim>\<open>exec\<close> (\<^verbatim>\<open>kern/sysfunc.c\<close>) loads them; their library has an allocator (\<^verbatim>\<open>user/umalloc.c\<close>) over
  red-black trees (\<^verbatim>\<open>lib/krbfunc.c\<close>) and formatted output (\<^verbatim>\<open>user/uprintf.c\<close>).  The first user program is a shell
  (\<^verbatim>\<open>user/sh.c\<close>).

  \<^bold>\<open>Conventions.\<close>  A C function becomes a HOL function of the same name on an explicit state record; \<open>None\<close> is an execution
  that does not come back (a NULL dereference, an access out of bounds, \<^verbatim>\<open>panic\<close>, in the file system also a sleep that
  only another process could end), error codes are negative numbers, and wrap-around is kept where the code
  relies on it or suffers from it.  Intrusive lists are pointers in a store where their aliasing matters
  (memory, scheduler) and lists of object numbers elsewhere.

  \<^bold>\<open>Theories.\<close>
  \<^item> \<open>Prelude\<close>: machine types, error codes, rounding macros, shared lemmas.
  \<^item> \<open>KList\<close>: the circular lists of \<^verbatim>\<open>include/kernel.h\<close> over a store of \<open>next\<close> and \<open>prev\<close> pointers, with the locale
    \<open>list_store\<close> of their laws, interpreted on these operations and used by the clients below.
  \<^item> \<open>Buddy\<close> (\<^verbatim>\<open>kern/buddy.c\<close>): zones, free areas, page caches, all allocation and release functions, the boot-time set-up.
    \<open>Buddy_Inv\<close>, \<open>Buddy_Pcp\<close> and \<open>Buddy_Boot\<close> hold the invariants (free blocks are aligned, disjoint, maximal and counted;
    pages of the caches are neither free nor allocated) and their preservation; \<open>Buddy_Props\<close> states that
    allocation and release refine best-fit allocation from a set of blocks.
  \<^item> \<open>Slab\<close> and \<open>Slab_Props\<close>: caches, slabs, the index list of free objects, \<^verbatim>\<open>kmalloc\<close>.
  \<^item> \<open>KString\<close> and \<open>KString_Props\<close>: \<^verbatim>\<open>lib/string.c\<close> over a byte memory; loops that end at a terminator are partial functions.
  \<^item> \<open>Lock\<close>: interrupt nesting, spin locks, and sleep locks as a step relation over all processes with its invariant.
  \<^item> \<open>Pipe\<close>: the ring buffer as an instance of the locale \<open>bounded_queue\<close>, whose theorem on arbitrary sequences of reads
    and writes is proved once.
  \<^item> \<open>Sched\<close> and \<open>Sched_Props\<close>: run queues, bitmaps, scheduler rounds, priorities and slices, sleep and wakeup, process identifiers
    and descriptors, kill, exit, wait, clone, heap bounds and messages.
  \<^item> \<open>Ide\<close> and \<open>Ide_Props\<close>: the request queue, the commands for the two drives, interrupts and the wake-ups they cause.
  \<^item> \<open>Fs_State\<close>: the state of the file system.  \<open>Bio\<close> and \<open>Bio_Props\<close>: the block cache; \<open>view\<close> is the store of blocks it
    implements.  \<open>Log\<close> and \<open>Log_Props\<close>: transactions, commit and recovery.
  \<^item> \<open>Inode\<close> and \<open>Inode_Props\<close>: inode cache, inodes on disk, block maps, reading and writing, directories, paths.  Files are an
    instance of the locale \<open>random_access\<close>; directories refine maps from names to inode numbers.
  \<^item> \<open>File\<close>, \<open>Sysfile\<close> and \<open>Sysfile_Props\<close>: open files, pipes, the system calls, and the consistency of descriptors.
  \<^item> \<open>Pmap\<close> and \<open>Pmap_Props\<close>: page tables, stored as words in the byte memory of \<open>Slab\<close> at the addresses where the kernel
    sees them; \<open>mapping\<close> is the map from user pages to frames and permissions that they represent, and \<^verbatim>\<open>page_insert\<close>
    refines its update together with the reference counts.  Access checks of system calls.
  \<^item> \<open>Vm\<close>, \<open>Vm_Props\<close> and \<open>Cow_Props\<close>: creation and release of address spaces (\<^verbatim>\<open>kern/proc.c\<close>), the mapping system calls and
    copy-on-write fork (\<^verbatim>\<open>kern/sysfunc.c\<close>), page faults (\<^verbatim>\<open>kern/trap.c\<close>).  Sharing a page and the write fault that ends the
    sharing are proved from the contents of the tables to the contents of the frames.
  \<^item> \<open>Shell\<close> and \<open>Shell_Props\<close>: the shell.  Its parser is compared with a grammar over token lists, its execution is the
    sequence of system calls of one process, with the answers of the kernel as a parameter.
  \<^item> \<open>Console\<close>, \<open>Console_Props\<close> and \<open>Format_Props\<close>: display (\<^verbatim>\<open>kern/cga.c\<close>), keyboard (\<^verbatim>\<open>kern/kbd.c\<close>), terminal (\<^verbatim>\<open>kern/console.c\<close>),
    \<^verbatim>\<open>prink\<close> and \<^verbatim>\<open>readline\<close>.  The interrupt handler refines a line editor on the pending input, and formatted output is compared
    with a reference formatter.
  \<^item> \<open>Rbtree\<close>, \<open>Rbtree_Base\<close> and \<open>Rbtree_Props\<close>: red-black trees with parent pointers (\<^verbatim>\<open>lib/krbfunc.c\<close>).  The pointers represent
    a tree, whose subtrees are addressed by the path to the root; rotations, recolouring and insertion are proved on
    this representation, and an example shows that deletion loses the balance.
  \<^item> \<open>Umalloc\<close> and \<open>Umalloc_Props\<close>: the allocator of the programs.  Its search is a best fit; a run from the first request
    on ends in a release that does not return.
  \<^item> \<open>Syscall\<close> and \<open>Syscall_Props\<close>: the stubs, the registers at the trap gate and the dispatcher, which is modelled by the kernel
    function it calls; the calls it implements itself; the period of the alarm with the timer of \<open>Sched\<close>.
  \<^item> \<open>Exec\<close> and \<open>Exec_Props\<close>: \<^verbatim>\<open>exec\<close> and \<^verbatim>\<open>load_program\<close> on the states of \<open>Vm\<close> and \<open>Inode\<close> together; the contents of the new stack.
  \<^item> \<open>Uprintf\<close> and \<open>Uprintf_Props\<close>: \<^verbatim>\<open>printf\<close> of the programs against a reference formatter.
  \<^item> \<open>Mkfs\<close>, \<open>Mkfs_Base\<close> and \<open>Mkfs_Props\<close>: the builder of file systems (\<^verbatim>\<open>lib/mkfs.c\<close>) on an image of sectors.  Appending refines appending to
    one of many files, with no block used twice, and the image of a whole run holds the given files, the root directory and
    the bitmap.

  \<^bold>\<open>Bounds and fuel.\<close>  Loops of the code are structural or have a measure; walks along pointer lists are partial functions
  whose termination is proved from the list invariant.  \<open>kmem_cache_alloc\<close> bounds the walk over partial slabs by a
  parameter, and its theorems assume the walk is at least as long as the list.  The loops of the shell and of the page
  tables are partial functions without fuel, and their termination is part of the theorems.

  \<^bold>\<open>Not modelled.\<close>  Assembly, boot code, the interrupt controller, clock and CMOS are input and output on ports.  The
  kernel monitor, \<^verbatim>\<open>ls_test\<close> and the printing of trap frames only print.  The construction of the descriptor tables, the
  control registers and the first process, whose image is linked into the kernel, are left out, as are the rest of
  \<^verbatim>\<open>trap\<close> besides the timer, page fault and system call branches and the small programs of \<^verbatim>\<open>user/\<close>, whose string
  functions are those of the kernel.
\<close>

end
